(* ===== verification/Cabe_Prelude.thy ===== *)
theory Cabe_Prelude
  imports Main "HOL-Library.Word"
begin

text \<open>
  What every component of the development shares: the machine integer types, byte
  buffers (the model of \<open>std::byte*\<close> regions and of \<open>memcpy\<close> into them), and the
  little-endian byte representation of integers that the on-disk structures use
  (the code copies standard-layout structs with \<open>memcpy\<close> on x86_64).
\<close>

unbundle bit_operations_syntax

type_synonym u8 = "8 word"
type_synonym u16 = "16 word"
type_synonym u32 = "32 word"
type_synonym u64 = "64 word"

type_synonym bytes = "u8 list"

named_theorems codec_simps \<open>lengths and field equations of the on-disk codecs\<close>
named_theorems frame_simps \<open>what an operation leaves unchanged\<close>

section \<open>Arithmetic\<close>

lemma mult_less_Suc_bound: "a * p < a * q + a \<Longrightarrow> p \<le> (q :: nat)"
  using mult_less_cancel1 [of a p "Suc q"] by simp

lemma mod_once: "x < 2 * c \<Longrightarrow> x mod c = (if x < c then x else x - (c :: nat))"
  by (simp add: mod_if)

section \<open>Byte buffers\<close>

text \<open>\<open>zeros n\<close> is a buffer of \<open>n\<close> zero bytes; \<open>peek off len xs\<close> reads a region;
  \<open>poke off ys xs\<close> is \<open>memcpy(xs + off, ys, |ys|)\<close>.\<close>

definition zeros :: "nat \<Rightarrow> bytes" where
  "zeros n = replicate n 0"

definition peek :: "nat \<Rightarrow> nat \<Rightarrow> 'a list \<Rightarrow> 'a list" where
  "peek off len xs = take len (drop off xs)"

definition poke :: "nat \<Rightarrow> 'a list \<Rightarrow> 'a list \<Rightarrow> 'a list" where
  "poke off ys xs = take off xs @ ys @ drop (off + length ys) xs"

lemma length_zeros [simp]: "length (zeros n) = n"
  by (simp add: zeros_def)

lemma nth_zeros [simp]: "i < n \<Longrightarrow> zeros n ! i = 0"
  by (simp add: zeros_def)

lemma zeros_0 [simp]: "zeros 0 = []"
  by (simp add: zeros_def)

lemma take_zeros [simp]: "take k (zeros n) = zeros (min k n)"
  by (simp add: zeros_def min.commute)

lemma drop_zeros [simp]: "drop k (zeros n) = zeros (n - k)"
  by (simp add: zeros_def)

lemma zeros_append: "zeros m @ zeros n = zeros (m + n)"
  by (simp add: zeros_def replicate_add)

lemma length_peek: "length (peek off len xs) = min len (length xs - off)"
  by (simp add: peek_def)

lemma length_peek_eq [simp]: "off + len \<le> length xs \<Longrightarrow> length (peek off len xs) = len"
  by (simp add: peek_def)

lemma nth_peek [simp]:
  "off + len \<le> length xs \<Longrightarrow> i < len \<Longrightarrow> peek off len xs ! i = xs ! (off + i)"
  by (simp add: peek_def add.commute)

lemma peek_0_length [simp]: "peek 0 (length xs) xs = xs"
  by (simp add: peek_def)

lemma peek_peek:
  "a + n \<le> m \<Longrightarrow> peek a n (peek off m xs) = peek (off + a) n xs"
  by (simp add: peek_def take_drop add.commute add.left_commute min_def)

lemma length_poke [simp]:
  "off + length ys \<le> length xs \<Longrightarrow> length (poke off ys xs) = length xs"
  by (simp add: poke_def)

lemma peek_poke_same [simp]:
  "off + length ys \<le> length xs \<Longrightarrow> n = length ys \<Longrightarrow> peek off n (poke off ys xs) = ys"
  by (simp add: peek_def poke_def)

lemma nth_poke:
  assumes "off + length ys \<le> length xs" "i < length xs"
  shows "poke off ys xs ! i
    = (if off \<le> i \<and> i < off + length ys then ys ! (i - off) else xs ! i)"
proof -
  have "length (take off xs) = off" using assms by simp
  then show ?thesis
    using assms
    by (auto simp: poke_def nth_append not_less)
qed

lemma peek_poke_below:
  assumes "off + length ys \<le> length xs" "a + n \<le> off"
  shows "peek a n (poke off ys xs) = peek a n xs"
  using assms by (intro nth_equalityI) (auto simp: nth_poke)

lemma peek_poke_above:
  assumes "off + length ys \<le> length xs" "off + length ys \<le> a" "a + n \<le> length xs"
  shows "peek a n (poke off ys xs) = peek a n xs"
  using assms by (intro nth_equalityI) (auto simp: nth_poke)

lemma peek_append_left:
  "a + n \<le> length xs \<Longrightarrow> peek a n (xs @ ys) = peek a n xs"
  by (simp add: peek_def)

lemma peek_append_right:
  "length xs \<le> a \<Longrightarrow> peek a n (xs @ ys) = peek (a - length xs) n ys"
  by (simp add: peek_def)

lemma peek_zeros: "a + n \<le> m \<Longrightarrow> peek a n (zeros m) = zeros n"
  by (simp add: peek_def min_absorb1)

text \<open>Reading a field out of a concatenation of fields, and putting adjacent fields together.\<close>

lemma peek_hit [codec_simps]:
  "length xs = n \<Longrightarrow> peek 0 n (xs @ ys) = xs"
  "length xs = n \<Longrightarrow> peek 0 n xs = xs"
  by (simp_all add: peek_def)

lemma peek_skip [codec_simps]:
  "length xs \<le> a \<Longrightarrow> peek a n (xs @ ys) = peek (a - length xs) n ys"
  by (rule peek_append_right)

lemma peek_glue [codec_simps]:
  "b = a + m \<Longrightarrow> peek a m xs @ peek b n xs = peek a (m + n) xs"
  "b = a + m \<Longrightarrow> peek a m xs @ peek b n xs @ ys = peek a (m + n) xs @ ys"
  by (simp_all add: peek_def take_add add.commute)

section \<open>Little-endian integers\<close>

definition le_bytes :: "nat \<Rightarrow> 'a::len word \<Rightarrow> bytes" where
  "le_bytes n w = map (\<lambda>i. ucast (drop_bit (8 * i) w)) [0..<n]"

fun le_word :: "bytes \<Rightarrow> 'a::len word" where
  "le_word [] = 0"
| "le_word (b # bs) = ucast b OR push_bit 8 (le_word bs)"

lemma length_le_bytes [simp, codec_simps]: "length (le_bytes n w) = n"
  by (simp add: le_bytes_def)

lemma le_bytes_Suc:
  "le_bytes (Suc n) w = ucast w # le_bytes n (drop_bit 8 w)"
  by (simp add: le_bytes_def upt_conv_Cons map_Suc_upt [symmetric] add.commute del: upt_Suc)

lemma bit_le_word:
  "bit (le_word bs :: 'a::len word) k
     \<longleftrightarrow> k < LENGTH('a) \<and> k div 8 < length bs \<and> bit (bs ! (k div 8)) (k mod 8)"
proof (induction bs arbitrary: k)
  case Nil
  show ?case by simp
next
  case (Cons b bs)
  show ?case
  proof (cases "k < 8")
    case True
    then show ?thesis
      by (auto simp: bit_or_iff bit_push_bit_iff bit_ucast_iff bit_imp_le_length)
  next
    case False
    have d: "k div 8 = Suc ((k - 8) div 8)" "k mod 8 = (k - 8) mod 8"
      using False by (simp_all add: div_if [of 8 k] mod_if [of k 8])
    have nb: "\<not> bit b k" using False by (auto dest: bit_imp_le_length)
    show ?thesis
      using False Cons.IH [of "k - 8"] nb d
      by (auto simp: bit_or_iff bit_push_bit_iff bit_ucast_iff)
  qed
qed

lemma le_word_le_bytes [simp]:
  assumes "LENGTH('a::len) \<le> 8 * n"
  shows "le_word (le_bytes n (w :: 'a word)) = w"
proof (rule bit_word_eqI)
  fix k
  assume k: "k < LENGTH('a)"
  then have "k div 8 < n" using assms by (simp add: div_less_iff_less_mult mult.commute)
  then show "bit (le_word (le_bytes n w) :: 'a word) k \<longleftrightarrow> bit w k"
    using k by (auto simp: bit_le_word le_bytes_def bit_ucast_iff bit_drop_bit_eq
        bit_imp_le_length)
qed

lemma le_bytes_le_word [simp]:
  assumes "length bs = n" "8 * n \<le> LENGTH('a::len)"
  shows "le_bytes n (le_word bs :: 'a word) = bs"
proof (rule nth_equalityI)
  show "length (le_bytes n (le_word bs :: 'a word)) = length bs"
    using assms by simp
  fix i
  assume "i < length (le_bytes n (le_word bs :: 'a word))"
  then have i: "i < n" by simp
  show "le_bytes n (le_word bs :: 'a word) ! i = bs ! i"
  proof (rule bit_word_eqI)
    fix k
    assume k: "k < LENGTH(8)"
    then have "8 * i + k < LENGTH('a)" "(8 * i + k) div 8 = i" "(8 * i + k) mod 8 = k"
      using i assms by auto
    then show "bit (le_bytes n (le_word bs :: 'a word) ! i) k \<longleftrightarrow> bit (bs ! i) k"
      using i k assms
      by (auto simp: le_bytes_def bit_le_word bit_ucast_iff bit_drop_bit_eq)
  qed
qed

lemma le_bytes_inj:
  assumes "LENGTH('a::len) \<le> 8 * n" "le_bytes n (v :: 'a word) = le_bytes n w"
  shows "v = w"
  using assms by (metis le_word_le_bytes)

end
