(* ===== verification/Cabe_Error.thy ===== *)
theory Cabe_Error
  imports Cabe_Prelude
begin

text \<open>
  The error codes of \<open>common/error_code.h\<close> and the status wrapper of
  \<open>engine/status.h\<close>. A return code is a value of the datatype \<open>rc\<close>, one constructor
  per named code; \<open>err_code\<close> is its number. The codes of a component live in a segment
  of 1000 numbers below the component's base.
\<close>

datatype rc =
    kSuccess
  | kMemNullPointer | kMemEmptyKey | kMemEmptyValue | kMemInsertFail
  | kIoBase
  | kEngineAlreadyOpen | kEngineNotOpen | kEngineInvalidOpts | kEngineInvalidValue
  | kEngineNotImplemented | kEngineNoSpace | kEnginePoolExhausted | kEngineDataCorrupted
  | kEngineDuplicateBlock | kEngineBlockOutOfRange | kEngineReactorStartFailed
  | kIndexKeyNotFound
  | kWalKeyTooLong | kWalWriteFailed | kWalFull | kWalInvalidReclaim
  | kSuperBlockMagicMismatch | kSuperBlockCrcMismatch | kSuperBlockEngineUuidMismatch
  | kSuperBlockPairMismatch | kSuperBlockDeviceIdMismatch | kSuperBlockDeviceTypeMismatch
  | kSuperBlockNoValid | kSuperBlockReadFailed | kSuperBlockEntropyFailure
  | kSuperBlockSizeMismatch | kSuperBlockDeviceCountMismatch
  | kWalRecoveryReadFailed | kWalRecoveryCorrupted | kWalRecoveryInvariant
  | kSnapshotWriteFailed | kDeviceTooSmall | kSnapshotReadFailed | kSnapshotCorrupted
  | kSpdkInvalidConfig | kSpdkNamespaceOverlap

datatype segment =
  SegMemory | SegIo | SegIndex | SegWal | SegEngine | SegWalRecovery | SegSnapshot | SegSpdk

definition kSegmentSize :: int where
  "kSegmentSize = 1000"

fun seg_base :: "segment \<Rightarrow> int" where
  "seg_base SegMemory = -100000"
| "seg_base SegIo = -101000"
| "seg_base SegIndex = -102000"
| "seg_base SegWal = -103000"
| "seg_base SegEngine = -104000"
| "seg_base SegWalRecovery = -105000"
| "seg_base SegSnapshot = -106000"
| "seg_base SegSpdk = -107000"

definition InSeg :: "int \<Rightarrow> int \<Rightarrow> int" where
  "InSeg base n = base - n"

fun rc_place :: "rc \<Rightarrow> (segment \<times> int) option" where
  "rc_place kSuccess = None"
| "rc_place kMemNullPointer = Some (SegMemory, 0)"
| "rc_place kMemEmptyKey = Some (SegMemory, 1)"
| "rc_place kMemEmptyValue = Some (SegMemory, 2)"
| "rc_place kMemInsertFail = Some (SegMemory, 3)"
| "rc_place kIoBase = Some (SegIo, 0)"
| "rc_place kEngineAlreadyOpen = Some (SegEngine, 0)"
| "rc_place kEngineNotOpen = Some (SegEngine, 1)"
| "rc_place kEngineInvalidOpts = Some (SegEngine, 2)"
| "rc_place kEngineInvalidValue = Some (SegEngine, 3)"
| "rc_place kEngineNotImplemented = Some (SegEngine, 4)"
| "rc_place kEngineNoSpace = Some (SegEngine, 5)"
| "rc_place kEnginePoolExhausted = Some (SegEngine, 6)"
| "rc_place kEngineDataCorrupted = Some (SegEngine, 7)"
| "rc_place kEngineDuplicateBlock = Some (SegEngine, 8)"
| "rc_place kEngineBlockOutOfRange = Some (SegEngine, 9)"
| "rc_place kEngineReactorStartFailed = Some (SegEngine, 10)"
| "rc_place kIndexKeyNotFound = Some (SegIndex, 0)"
| "rc_place kWalKeyTooLong = Some (SegWal, 0)"
| "rc_place kWalWriteFailed = Some (SegWal, 1)"
| "rc_place kWalFull = Some (SegWal, 2)"
| "rc_place kWalInvalidReclaim = Some (SegWal, 3)"
| "rc_place kSuperBlockMagicMismatch = Some (SegWalRecovery, 0)"
| "rc_place kSuperBlockCrcMismatch = Some (SegWalRecovery, 1)"
| "rc_place kSuperBlockEngineUuidMismatch = Some (SegWalRecovery, 2)"
| "rc_place kSuperBlockPairMismatch = Some (SegWalRecovery, 3)"
| "rc_place kSuperBlockDeviceIdMismatch = Some (SegWalRecovery, 4)"
| "rc_place kSuperBlockDeviceTypeMismatch = Some (SegWalRecovery, 5)"
| "rc_place kSuperBlockNoValid = Some (SegWalRecovery, 6)"
| "rc_place kSuperBlockReadFailed = Some (SegWalRecovery, 7)"
| "rc_place kSuperBlockEntropyFailure = Some (SegWalRecovery, 8)"
| "rc_place kSuperBlockSizeMismatch = Some (SegWalRecovery, 9)"
| "rc_place kSuperBlockDeviceCountMismatch = Some (SegWalRecovery, 13)"
| "rc_place kWalRecoveryReadFailed = Some (SegWalRecovery, 10)"
| "rc_place kWalRecoveryCorrupted = Some (SegWalRecovery, 11)"
| "rc_place kWalRecoveryInvariant = Some (SegWalRecovery, 12)"
| "rc_place kSnapshotWriteFailed = Some (SegSnapshot, 0)"
| "rc_place kDeviceTooSmall = Some (SegSnapshot, 1)"
| "rc_place kSnapshotReadFailed = Some (SegSnapshot, 2)"
| "rc_place kSnapshotCorrupted = Some (SegSnapshot, 3)"
| "rc_place kSpdkInvalidConfig = Some (SegSpdk, 0)"
| "rc_place kSpdkNamespaceOverlap = Some (SegSpdk, 1)"

definition err_code :: "rc \<Rightarrow> int" where
  "err_code r = (case rc_place r of None \<Rightarrow> 0 | Some (sg, n) \<Rightarrow> InSeg (seg_base sg) n)"

section \<open>Segments do not overlap, codes are unique\<close>

lemma rc_place_range:
  "rc_place r = Some (sg, n) \<Longrightarrow> 0 \<le> n \<and> n < kSegmentSize"
  by (cases r) (auto simp: kSegmentSize_def)

lemma rc_place_None: "rc_place r = None \<longleftrightarrow> r = kSuccess"
  by (cases r) simp_all

lemma rc_placeE:
  assumes "r \<noteq> kSuccess"
  obtains sg n where "rc_place r = Some (sg, n)" "0 \<le> n" "n < kSegmentSize"
  using assms rc_place_None rc_place_range by (metis not_None_eq prod.exhaust)

definition all_rcs :: "rc list" where
  "all_rcs = [kSuccess,
     kMemNullPointer, kMemEmptyKey, kMemEmptyValue, kMemInsertFail, kIoBase,
     kEngineAlreadyOpen, kEngineNotOpen, kEngineInvalidOpts, kEngineInvalidValue,
     kEngineNotImplemented, kEngineNoSpace, kEnginePoolExhausted, kEngineDataCorrupted,
     kEngineDuplicateBlock, kEngineBlockOutOfRange, kEngineReactorStartFailed,
     kIndexKeyNotFound, kWalKeyTooLong, kWalWriteFailed, kWalFull, kWalInvalidReclaim,
     kSuperBlockMagicMismatch, kSuperBlockCrcMismatch, kSuperBlockEngineUuidMismatch,
     kSuperBlockPairMismatch, kSuperBlockDeviceIdMismatch, kSuperBlockDeviceTypeMismatch,
     kSuperBlockNoValid, kSuperBlockReadFailed, kSuperBlockEntropyFailure,
     kSuperBlockSizeMismatch, kSuperBlockDeviceCountMismatch,
     kWalRecoveryReadFailed, kWalRecoveryCorrupted, kWalRecoveryInvariant,
     kSnapshotWriteFailed, kDeviceTooSmall, kSnapshotReadFailed, kSnapshotCorrupted,
     kSpdkInvalidConfig, kSpdkNamespaceOverlap]"

lemma all_rcs_UNIV: "set all_rcs = UNIV"
proof -
  have "r \<in> set all_rcs" for r
    by (cases r) (simp_all add: all_rcs_def)
  then show ?thesis by auto
qed

lemma err_codes_distinct: "distinct (map err_code all_rcs)"
  by (simp add: all_rcs_def err_code_def InSeg_def)

lemma err_code_bounds:
  assumes "rc_place r = Some (sg, n)"
  shows "seg_base sg - kSegmentSize < err_code r" "err_code r \<le> seg_base sg"
  using rc_place_range [OF assms] assms by (auto simp: err_code_def InSeg_def)

lemma err_code_kSuccess [simp]: "err_code kSuccess = 0"
  by (simp add: err_code_def)

lemma err_code_neg: "r \<noteq> kSuccess \<Longrightarrow> err_code r < 0"
proof -
  assume "r \<noteq> kSuccess"
  then obtain sg n where p: "rc_place r = Some (sg, n)" by (rule rc_placeE)
  have "seg_base sg < 0" by (cases sg) simp_all
  then show ?thesis using err_code_bounds(2) [OF p] by simp
qed

text \<open>The commit group's and the reactor's "pending" sentinels
  (\<open>kWalResultPending\<close>, \<open>kOpPending\<close>) are the number 1.\<close>

definition kPendingSentinel :: int where
  "kPendingSentinel = 1"

text \<open>Every code has its own number, success alone is 0, no code leaves its
  segment of 1000 numbers, and none collides with the positive "pending" sentinel that the
  commit group and the reactor store in the same result slot.\<close>

theorem err_codes_unique:
  "inj err_code
   \<and> (\<forall>r. err_code r = 0 \<longleftrightarrow> r = kSuccess)
   \<and> (\<forall>r. err_code r \<noteq> kPendingSentinel)
   \<and> (\<forall>r sg n. rc_place r = Some (sg, n) \<longrightarrow>
        seg_base sg - kSegmentSize < err_code r \<and> err_code r \<le> seg_base sg)"
proof (intro conjI allI impI)
  show "inj err_code"
    using err_codes_distinct by (simp add: distinct_map all_rcs_UNIV)
  show "err_code r = 0 \<longleftrightarrow> r = kSuccess" for r
    using err_code_neg [of r] by (cases "r = kSuccess") auto
  show "err_code r \<noteq> kPendingSentinel" for r
    using err_code_neg [of r] by (cases "r = kSuccess") (auto simp: kPendingSentinel_def)
qed (auto dest: err_code_bounds)

theorem err_codes_unique_witness:
  "err_code kWalFull = -103002 \<and> err_code kWalFull \<noteq> kPendingSentinel
   \<and> seg_base SegWal - kSegmentSize < err_code kWalFull"
proof -
  have place: "rc_place kWalFull = Some (SegWal, 2)" by simp
  have "err_code kWalFull = -103002" by (simp add: err_code_def InSeg_def)
  then show ?thesis using err_codes_unique place by blast
qed

section \<open>Status\<close>

record status =
  code :: rc

definition Status_ok :: "status \<Rightarrow> bool" where
  "Status_ok s \<longleftrightarrow> code s = kSuccess"

definition Status_Ok :: status where
  "Status_Ok = \<lparr>code = kSuccess\<rparr>"

definition Status_Error :: "rc \<Rightarrow> status" where
  "Status_Error c = \<lparr>code = c\<rparr>"

lemma Status_ok_simps [simp]:
  "Status_ok Status_Ok" "Status_ok (Status_Error c) \<longleftrightarrow> c = kSuccess"
  by (simp_all add: Status_ok_def Status_Ok_def Status_Error_def)

lemma code_Status [simp]: "code Status_Ok = kSuccess" "code (Status_Error c) = c"
  by (simp_all add: Status_Ok_def Status_Error_def)

end
