(* ===== verification/Cabe_Util.thy ===== *)
theory Cabe_Util
  imports Cabe_Prelude
begin

text \<open>
  \<open>util/util.h\<close> (alignment of buffer sizes) and \<open>util/hash.cpp\<close> (routing of a key to
  a device). Sizes are \<open>size_t\<close>, so the additions wrap at $2^{64}$; the wrap-around is
  written out. The hash function itself (XXH3, vendored) is a parameter.
\<close>

section \<open>Rounding up\<close>

definition AlignUp :: "nat \<Rightarrow> nat \<Rightarrow> nat" where
  "AlignUp x a = ((x + a - 1) mod 2 ^ 64 div a) * a"

definition RoundUpBufferSize :: "nat \<Rightarrow> nat \<Rightarrow> nat" where
  "RoundUpBufferSize sz block = AlignUp (if sz < block then block else sz) block"

lemma AlignUp_dvd [simp]: "a dvd AlignUp x a"
  by (simp add: AlignUp_def)

lemma AlignUp_no_wrap:
  "0 < a \<Longrightarrow> x + a \<le> 2 ^ 64 \<Longrightarrow> AlignUp x a = ((x + a - 1) div a) * a"
  by (simp add: AlignUp_def)

lemma AlignUp_ge:
  assumes "0 < a" "x + a \<le> 2 ^ 64"
  shows "x \<le> AlignUp x a"
proof -
  have "x + a - 1 < (x + a - 1) div a * a + a"
    using assms(1) by (metis add.commute dividend_less_times_div mult.commute)
  then show ?thesis using assms by (simp add: AlignUp_no_wrap)
qed

lemma AlignUp_less:
  assumes "0 < a" "x + a \<le> 2 ^ 64"
  shows "AlignUp x a < x + a"
proof -
  have "(x + a - 1) div a * a \<le> x + a - 1" by simp
  then have "(x + a - 1) div a * a < x + a" using assms(1) by linarith
  then show ?thesis using assms by (simp only: AlignUp_no_wrap)
qed

lemma AlignUp_id:
  assumes "0 < a" "x + a \<le> 2 ^ 64" "a dvd x"
  shows "AlignUp x a = x"
proof -
  obtain q where q: "x = a * q" using assms(3) by blast
  obtain p where p: "AlignUp x a = a * p" using AlignUp_dvd [of a x] by blast
  have "a * q \<le> a * p" "a * p < a * q + a"
    using AlignUp_ge [OF assms(1,2)] AlignUp_less [OF assms(1,2)] p q by simp_all
  then have "q \<le> p" "p \<le> q" using assms(1) mult_less_Suc_bound by simp_all
  then show ?thesis using p q by simp
qed

lemma AlignUp_0 [simp]: "0 < a \<Longrightarrow> a \<le> 2 ^ 64 \<Longrightarrow> AlignUp 0 a = 0"
  by (simp add: AlignUp_def)

lemma AlignUp_least:
  assumes "0 < a" "x + a \<le> 2 ^ 64" "a dvd y" "x \<le> y"
  shows "AlignUp x a \<le> y"
proof -
  obtain q where q: "y = a * q" using assms(3) by blast
  obtain p where p: "AlignUp x a = a * p" using AlignUp_dvd [of a x] by blast
  have "a * p < a * q + a"
    using AlignUp_less [OF assms(1,2)] p q assms(4) by linarith
  then have "p \<le> q" by (rule mult_less_Suc_bound)
  then show ?thesis using p q by simp
qed

text \<open>C40: rounding a configured buffer size (WAL window buffer, snapshot buffer) up for
  O\_DIRECT. Below the top of the \<open>size_t\<close> range the result is the least multiple of the
  block that is at least both the requested size and one block; a request in the last block
  of the range wraps around to the empty buffer.\<close>

theorem RoundUpBufferSize_spec:
  assumes "0 < block" "block \<le> 2 ^ 63" "sz < 2 ^ 64"
  shows "(sz + block \<le> 2 ^ 64 \<longrightarrow>
            block dvd RoundUpBufferSize sz block
          \<and> max sz block \<le> RoundUpBufferSize sz block
          \<and> (\<forall>y. block dvd y \<and> max sz block \<le> y \<longrightarrow> RoundUpBufferSize sz block \<le> y))
       \<and> (2 ^ 64 < sz + block \<longrightarrow> RoundUpBufferSize sz block = 0)"
proof (intro conjI impI)
  assume s: "sz + block \<le> 2 ^ 64"
  have b: "max sz block + block \<le> 2 ^ 64" using s assms by simp
  have m: "(if sz < block then block else sz) = max sz block" by simp
  show "block dvd RoundUpBufferSize sz block"
    by (simp add: RoundUpBufferSize_def)
  show "max sz block \<le> RoundUpBufferSize sz block"
    unfolding RoundUpBufferSize_def m by (rule AlignUp_ge [OF assms(1) b])
  show "\<forall>y. block dvd y \<and> max sz block \<le> y \<longrightarrow> RoundUpBufferSize sz block \<le> y"
    unfolding RoundUpBufferSize_def m using AlignUp_least [OF assms(1) b] by blast
next
  assume s: "2 ^ 64 < sz + block"
  then have nb: "\<not> sz < block" using assms by simp
  have "(sz + block - 1) mod 2 ^ 64 = sz + block - 1 - 2 ^ 64"
    using s assms by (subst le_mod_geq) (simp_all, linarith?)
  also have "\<dots> < block" using s assms by linarith
  finally show "RoundUpBufferSize sz block = 0"
    using nb by (simp add: RoundUpBufferSize_def AlignUp_def)
qed

theorem RoundUpBufferSize_spec_witness:
  "4096 dvd RoundUpBufferSize 5000 4096 \<and> 5000 \<le> RoundUpBufferSize 5000 4096
   \<and> RoundUpBufferSize 5000 4096 \<le> 8192 \<and> RoundUpBufferSize (2 ^ 64 - 1) 4096 = 0"
proof -
  have "4096 dvd (8192 :: nat) \<and> max 5000 4096 \<le> (8192 :: nat)" by simp
  then show ?thesis
    using RoundUpBufferSize_spec [of 4096 5000] RoundUpBufferSize_spec [of 4096 "2 ^ 64 - 1"]
    by auto
qed

section \<open>Routing\<close>

text \<open>\<open>RouteToDevice\<close> aborts on an empty device list (\<open>None\<close>); the result is cast to
  the 8-bit \<open>DeviceId\<close>.\<close>

definition RouteToDevice :: "(bytes \<Rightarrow> u64) \<Rightarrow> bytes \<Rightarrow> nat \<Rightarrow> u8 option" where
  "RouteToDevice Hash key n_devices =
     (if n_devices = 0 then None else Some (of_nat (unat (Hash key) mod n_devices)))"

text \<open>With 1 to 256 devices (what \<open>Engine::Open\<close> accepts) the cast to the 8-bit device
  number loses nothing: the routed device exists and is the hash modulo the number of devices.\<close>

theorem RouteToDevice_in_range:
  assumes "1 \<le> n" "n \<le> 256"
  shows "\<exists>d. RouteToDevice Hash key n = Some d \<and> unat d < n
             \<and> unat d = unat (Hash key) mod n"
proof -
  have m: "unat (Hash key) mod n < n" using assms by simp
  then have "unat (Hash key) mod n < 256" using assms by linarith
  then have "unat (of_nat (unat (Hash key) mod n) :: u8) = unat (Hash key) mod n"
    using assms by (simp add: unat_of_nat take_bit_eq_mod less_le_trans)
  then show ?thesis using m assms by (auto simp: RouteToDevice_def)
qed

theorem RouteToDevice_in_range_witness:
  "\<exists>d. RouteToDevice (\<lambda>_. 1000) [1] 7 = Some d \<and> unat d < 7
       \<and> unat d = unat (1000 :: u64) mod 7"
  using RouteToDevice_in_range [of 7 "\<lambda>_. 1000" "[1]"] by simp

end
