(* ===== verification/Cabe_Structs.thy ===== *)
theory Cabe_Structs
  imports Cabe_Error
begin

text \<open>
  \<open>common/structs.h\<close> and the level predicates of \<open>engine/options.h\<close>: layout constants,
  the packed physical address \<open>BlockId\<close> (device number in the high 8 bits, block number in
  the low 56), the index entry \<open>ValueMeta\<close>, and the four WAL durability levels.
\<close>

section \<open>Layout constants\<close>

definition kValueSize :: nat where "kValueSize = 1048576"
definition kSuperBlockSize :: nat where "kSuperBlockSize = 4096"
definition kSuperBlockCopies :: nat where "kSuperBlockCopies = 2"
definition kDataRegionOffset :: nat where "kDataRegionOffset = kSuperBlockSize * kSuperBlockCopies"

lemma kDataRegionOffset_8K: "kDataRegionOffset = 8192"
  by (simp add: kDataRegionOffset_def kSuperBlockSize_def kSuperBlockCopies_def)

lemma layout_pos [simp]:
  "0 < kValueSize" "0 < kSuperBlockSize" "0 < kDataRegionOffset"
  by (simp_all add: kValueSize_def kSuperBlockSize_def kDataRegionOffset_8K)

section \<open>Physical addresses\<close>

type_synonym device_id = u8

datatype block_id = BlockId (raw: u64)

definition kIdxBits :: nat where "kIdxBits = 56"
definition kIdxMask :: u64 where "kIdxMask = push_bit kIdxBits 1 - 1"

definition Make :: "device_id \<Rightarrow> u64 \<Rightarrow> block_id" where
  "Make d block_idx = BlockId (push_bit kIdxBits (ucast d) OR (block_idx AND kIdxMask))"

definition dev :: "block_id \<Rightarrow> device_id" where
  "dev b = ucast (drop_bit kIdxBits (raw b))"

definition block_idx :: "block_id \<Rightarrow> u64" where
  "block_idx b = raw b AND kIdxMask"

definition logical_byte_offset :: "block_id \<Rightarrow> u64" where
  "logical_byte_offset b = block_idx b * of_nat kValueSize"

lemma kIdxMask_mask: "kIdxMask = mask 56"
  by (simp add: kIdxMask_def kIdxBits_def mask_eq_exp_minus_1)

instantiation block_id :: linorder
begin

definition less_eq_block_id :: "block_id \<Rightarrow> block_id \<Rightarrow> bool" where
  "less_eq_block_id a b \<longleftrightarrow> raw a \<le> raw b"

definition less_block_id :: "block_id \<Rightarrow> block_id \<Rightarrow> bool" where
  "less_block_id a b \<longleftrightarrow> raw a < raw b"

instance
  by standard (auto simp: less_eq_block_id_def less_block_id_def block_id.expand)

end

lemma dev_Make [simp]: "dev (Make d i) = d"
  by (rule bit_word_eqI)
    (auto simp: dev_def Make_def kIdxBits_def kIdxMask_mask bit_simps dest: bit_imp_le_length)

lemma block_idx_Make: "block_idx (Make d i) = i AND kIdxMask"
  by (rule bit_word_eqI)
    (auto simp: block_idx_def Make_def kIdxBits_def kIdxMask_mask bit_simps)

lemma block_idx_Make_eq [simp]:
  assumes "unat i < 2 ^ 56"
  shows "block_idx (Make d i) = i"
proof -
  have "unat (take_bit 56 i) = unat i"
    using assms by (simp add: unsigned_take_bit_eq take_bit_nat_eq_self)
  then have "i AND mask 56 = i"
    by (simp add: take_bit_eq_mask word_unat_eq_iff)
  then show ?thesis by (simp add: block_idx_Make kIdxMask_mask)
qed

lemma Make_dev_block_idx: "Make (dev b) (block_idx b) = b"
proof (cases b)
  case (BlockId r)
  have "push_bit 56 (ucast (ucast (drop_bit 56 r) :: u8)) OR (r AND mask 56 AND mask 56) = r"
    by (rule bit_word_eqI) (auto simp: bit_simps dest: bit_imp_le_length)
  then show ?thesis
    using BlockId by (simp add: Make_def dev_def block_idx_def kIdxBits_def kIdxMask_mask)
qed

lemma block_idx_bound: "unat (block_idx b) < 2 ^ 56"
proof -
  have "block_idx b = take_bit 56 (raw b)"
    by (simp add: block_idx_def kIdxMask_mask take_bit_eq_mask)
  then have "unat (block_idx b) = take_bit 56 (unat (raw b))"
    by (simp add: unsigned_take_bit_eq)
  then show ?thesis by (simp only: take_bit_nat_less_exp)
qed

lemma block_id_eqI: "dev a = dev b \<Longrightarrow> block_idx a = block_idx b \<Longrightarrow> a = b"
  by (metis Make_dev_block_idx)

text \<open>Packing a device number and a block number below $2^{56}$ into a \<open>BlockId\<close> and
  unpacking it are inverse in both directions, for every 64-bit value, so a block never
  changes its device and two blocks share an id only when device and block number agree.\<close>

theorem BlockId_roundtrip:
  "(unat i < 2 ^ 56 \<longrightarrow> dev (Make d i) = d \<and> block_idx (Make d i) = i)
   \<and> Make (dev b) (block_idx b) = b \<and> unat (block_idx b) < 2 ^ 56"
  using block_idx_bound [of b] by (simp add: Make_dev_block_idx)

theorem BlockId_roundtrip_witness:
  "dev (Make 3 77) = 3 \<and> block_idx (Make 3 77) = 77"
  using BlockId_roundtrip [of 77 3] by simp

section \<open>Index entries\<close>

text \<open>The state is an 8-bit enumeration; decoding a record casts the byte unchecked.\<close>

datatype value_state = ValueState u8

abbreviation Active :: value_state where "Active \<equiv> ValueState 0"
abbreviation Deleted :: value_state where "Deleted \<equiv> ValueState 1"

fun value_state_byte :: "value_state \<Rightarrow> u8" where
  "value_state_byte (ValueState b) = b"

record value_meta =
  block :: block_id
  timestamp :: u64
  crc :: u32
  state :: value_state

section \<open>WAL levels\<close>

text \<open>The level is an 8-bit enumeration; a cast can produce values outside it, which
  \<open>IsValidWalLevel\<close> rejects.\<close>

datatype wal_level = WalLevel u8

abbreviation Strict :: wal_level where "Strict \<equiv> WalLevel 1"
abbreviation ValueSync :: wal_level where "ValueSync \<equiv> WalLevel 2"
abbreviation WalSync :: wal_level where "WalSync \<equiv> WalLevel 3"
abbreviation Async :: wal_level where "Async \<equiv> WalLevel 4"

definition IsWalSyncLevel :: "wal_level \<Rightarrow> bool" where
  "IsWalSyncLevel lvl \<longleftrightarrow> lvl = Strict \<or> lvl = WalSync"

definition IsValueFuaLevel :: "wal_level \<Rightarrow> bool" where
  "IsValueFuaLevel lvl \<longleftrightarrow> lvl = Strict \<or> lvl = ValueSync"

definition IsValidWalLevel :: "wal_level \<Rightarrow> bool" where
  "IsValidWalLevel lvl \<longleftrightarrow> lvl = Strict \<or> lvl = ValueSync \<or> lvl = WalSync \<or> lvl = Async"

text \<open>The options the modelled components read.\<close>

record options =
  o_create :: bool
  o_wal_level :: wal_level
  o_wal_buffer_size :: nat
  o_snapshot_threshold_bytes :: nat
  o_snapshot_buffer_size :: nat
  o_verify_value_crc :: bool

lemma valid_levels_orthogonal:
  "IsValidWalLevel l \<Longrightarrow> IsValidWalLevel m \<Longrightarrow>
   IsWalSyncLevel l = IsWalSyncLevel m \<Longrightarrow> IsValueFuaLevel l = IsValueFuaLevel m \<Longrightarrow> l = m"
  by (auto simp: IsValidWalLevel_def IsWalSyncLevel_def IsValueFuaLevel_def)

end
