(* ===== verification/Cabe_Kernel.thy ===== *)
theory Cabe_Kernel
  imports Cabe_Error
begin

text \<open>
  A block device as the system calls show it, and the two retry loops of
  \<open>util/io_retry.h\<close>. The device has a size, the contents reads return, and the contents
  that are durable since the last successful \<open>fdatasync\<close>. What each system call does
  beyond that is an arbitrary script: an entry is consumed by each call, \<open>Eintr\<close> and
  \<open>Errno\<close> fail the call, \<open>Xfer n\<close> transfers at most \<open>n\<close> bytes; when the script is
  exhausted, calls do all they are asked. So a statement for every script is a statement
  for every pattern of interrupted, short and failing transfers.
\<close>

datatype sys_result = Eintr | Errno | Xfer nat

record kdev =
  kd_size :: nat
  kd_data :: "nat \<Rightarrow> u8"
  kd_durable :: "nat \<Rightarrow> u8"
  kd_script :: "sys_result list"

definition kread :: "(nat \<Rightarrow> u8) \<Rightarrow> nat \<Rightarrow> nat \<Rightarrow> bytes" where
  "kread f off len = map (\<lambda>i. f (off + i)) [0..<len]"

definition kwrite :: "(nat \<Rightarrow> u8) \<Rightarrow> nat \<Rightarrow> bytes \<Rightarrow> (nat \<Rightarrow> u8)" where
  "kwrite f off bs = (\<lambda>i. if off \<le> i \<and> i < off + length bs then bs ! (i - off) else f i)"

lemma length_kread [simp]: "length (kread f off len) = len"
  by (simp add: kread_def)

lemma nth_kread [simp]: "i < len \<Longrightarrow> kread f off len ! i = f (off + i)"
  by (simp add: kread_def)

lemma kread_0 [simp]: "kread f off 0 = []"
  by (simp add: kread_def)

lemma kread_append: "kread f off m @ kread f (off + m) n = kread f off (m + n)"
  by (rule nth_equalityI) (auto simp: nth_append)

lemma kread_cong: "(\<And>i. off \<le> i \<Longrightarrow> i < off + len \<Longrightarrow> f i = g i) \<Longrightarrow> kread f off len = kread g off len"
  by (rule nth_equalityI) auto

lemma peek_kread: "a + n \<le> len \<Longrightarrow> peek a n (kread f off len) = kread f (off + a) n"
  by (rule nth_equalityI) (auto simp: add.assoc)

lemma kwrite_Nil [simp]: "kwrite f off [] = f"
  by (rule ext) (auto simp: kwrite_def)

lemma kread_eq_Nil [simp]: "kread f off n = [] \<longleftrightarrow> n = 0"
  by (simp add: kread_def)

lemma kwrite_append: "kwrite (kwrite f off xs) (off + length xs) ys = kwrite f off (xs @ ys)"
  by (rule ext) (auto simp: kwrite_def nth_append)

lemma kread_kwrite_same [simp]: "n = length bs \<Longrightarrow> kread (kwrite f off bs) off n = bs"
  by (rule nth_equalityI) (auto simp: kwrite_def)

lemma kread_kwrite_disjoint:
  "a + n \<le> off \<or> off + length bs \<le> a \<Longrightarrow> kread (kwrite f off bs) a n = kread f a n"
  by (rule kread_cong) (auto simp: kwrite_def)

lemma kread_kwrite_inside:
  "off \<le> a \<Longrightarrow> a + n \<le> off + length bs \<Longrightarrow>
   kread (kwrite f off bs) a n = peek (a - off) n bs"
  by (rule nth_equalityI) (auto simp: kwrite_def)

lemma kwrite_outside: "i < off \<or> off + length bs \<le> i \<Longrightarrow> kwrite f off bs i = f i"
  by (auto simp: kwrite_def)

section \<open>System calls\<close>

datatype pread_result = RdIntr | RdErr | RdBytes bytes
datatype pwrite_result = WrIntr | WrErr | WrBytes nat

definition pread :: "kdev \<Rightarrow> nat \<Rightarrow> nat \<Rightarrow> pread_result \<times> kdev" where
  "pread d n off =
     (let avail = min n (kd_size d - off) in
      case kd_script d of
        [] \<Rightarrow> (RdBytes (kread (kd_data d) off avail), d)
      | Eintr # r \<Rightarrow> (RdIntr, d\<lparr>kd_script := r\<rparr>)
      | Errno # r \<Rightarrow> (RdErr, d\<lparr>kd_script := r\<rparr>)
      | Xfer k # r \<Rightarrow> (RdBytes (kread (kd_data d) off (min k avail)), d\<lparr>kd_script := r\<rparr>))"

definition pwrite :: "kdev \<Rightarrow> bytes \<Rightarrow> nat \<Rightarrow> pwrite_result \<times> kdev" where
  "pwrite d bs off =
     (let avail = min (length bs) (kd_size d - off) in
      case kd_script d of
        [] \<Rightarrow> (WrBytes avail, d\<lparr>kd_data := kwrite (kd_data d) off (take avail bs)\<rparr>)
      | Eintr # r \<Rightarrow> (WrIntr, d\<lparr>kd_script := r\<rparr>)
      | Errno # r \<Rightarrow> (WrErr, d\<lparr>kd_script := r\<rparr>)
      | Xfer k # r \<Rightarrow> (WrBytes (min k avail),
          d\<lparr>kd_data := kwrite (kd_data d) off (take (min k avail) bs), kd_script := r\<rparr>))"

text \<open>\<open>open\<close>, \<open>ioctl(BLKGETSIZE64)\<close> and \<open>fdatasync\<close> are not retried by the code: any
  failing entry fails them.\<close>

definition sys_simple :: "kdev \<Rightarrow> bool \<times> kdev" where
  "sys_simple d = (case kd_script d of
      [] \<Rightarrow> (True, d)
    | Xfer k # r \<Rightarrow> (True, d\<lparr>kd_script := r\<rparr>)
    | _ # r \<Rightarrow> (False, d\<lparr>kd_script := r\<rparr>))"

definition fdatasync :: "kdev \<Rightarrow> bool \<times> kdev" where
  "fdatasync d = (case sys_simple d of
      (True, d') \<Rightarrow> (True, d'\<lparr>kd_durable := kd_data d'\<rparr>)
    | (False, d') \<Rightarrow> (False, d'))"

section \<open>The retry loops\<close>

text \<open>\<open>acc\<close> is the part of the buffer already filled (\<open>done\<close> bytes).\<close>

function read_loop :: "kdev \<Rightarrow> nat \<Rightarrow> nat \<Rightarrow> bytes \<Rightarrow> bytes option \<times> kdev" where
  "read_loop d len off acc =
     (if length acc < len then
        (case pread d (len - length acc) (off + length acc) of
           (RdIntr, d') \<Rightarrow> read_loop d' len off acc
         | (RdErr, d') \<Rightarrow> (None, d')
         | (RdBytes bs, d') \<Rightarrow>
             (if bs = [] then (None, d') else read_loop d' len off (acc @ bs)))
      else (Some acc, d))"
  by pat_completeness auto
termination
  by (relation "measure (\<lambda>(d, len, off, acc). (len - length acc) + length (kd_script d))")
    (auto simp: pread_def Let_def split: list.splits sys_result.splits if_splits)

function write_loop :: "kdev \<Rightarrow> bytes \<Rightarrow> nat \<Rightarrow> nat \<Rightarrow> bool \<times> kdev" where
  "write_loop d buf off n =
     (if n < length buf then
        (case pwrite d (drop n buf) (off + n) of
           (WrIntr, d') \<Rightarrow> write_loop d' buf off n
         | (WrErr, d') \<Rightarrow> (False, d')
         | (WrBytes k, d') \<Rightarrow>
             (if k = 0 then (False, d') else write_loop d' buf off (n + k)))
      else (True, d))"
  by pat_completeness auto
termination
  by (relation "measure (\<lambda>(d, buf, off, n). (length buf - n) + length (kd_script d))")
    (auto simp: pwrite_def Let_def split: list.splits sys_result.splits if_splits)

declare read_loop.simps [simp del] write_loop.simps [simp del]

definition ReadExact :: "kdev \<Rightarrow> nat \<Rightarrow> nat \<Rightarrow> bytes option \<times> kdev" where
  "ReadExact d len off = read_loop d len off []"

definition WriteExact :: "kdev \<Rightarrow> bytes \<Rightarrow> nat \<Rightarrow> bool \<times> kdev" where
  "WriteExact d buf off = write_loop d buf off 0"


section \<open>What the loops guarantee, for every script\<close>

lemma pread_RdBytes:
  assumes "pread d n off = (RdBytes bs, d')"
  shows "bs = kread (kd_data d) off (length bs)" "length bs \<le> n" "bs \<noteq> [] \<Longrightarrow> off + length bs \<le> kd_size d"
    and "kd_size d' = kd_size d" "kd_data d' = kd_data d" "kd_durable d' = kd_durable d"
  using assms
  by (auto simp: pread_def Let_def split: list.splits sys_result.splits)

lemma pread_frame:
  assumes "pread d n off = (r, d')"
  shows "kd_size d' = kd_size d" "kd_data d' = kd_data d" "kd_durable d' = kd_durable d"
  using assms by (auto simp: pread_def Let_def split: list.splits sys_result.splits)

lemma pwrite_cases:
  assumes "pwrite d bs off = (r, d')"
  shows "kd_size d' = kd_size d" "kd_durable d' = kd_durable d"
    and "r = WrBytes k \<Longrightarrow> k \<le> length bs \<and> kd_data d' = kwrite (kd_data d) off (take k bs)
                            \<and> (0 < k \<longrightarrow> off + k \<le> kd_size d)"
    and "(\<forall>k. r \<noteq> WrBytes k) \<Longrightarrow> kd_data d' = kd_data d"
  using assms by (auto simp: pwrite_def Let_def split: list.splits sys_result.splits)

lemma read_loop_frame:
  "read_loop d len off acc = (r, d') \<Longrightarrow>
   kd_size d' = kd_size d \<and> kd_data d' = kd_data d \<and> kd_durable d' = kd_durable d"
proof (induction d len off acc rule: read_loop.induct)
  case (1 d len off acc)
  show ?case
  proof (cases "length acc < len")
    case True
    obtain r0 d0 where p: "pread d (len - length acc) (off + length acc) = (r0, d0)" by fastforce
    note fr = pread_frame [OF p]
    show ?thesis
    proof (cases r0)
      case RdIntr
      then show ?thesis using 1(1) [OF True p [symmetric]] 1(3) True p fr
        by (simp add: read_loop.simps [of d len off acc])
    next
      case RdErr
      then show ?thesis using 1(3) True p fr by (simp add: read_loop.simps [of d len off acc])
    next
      case (RdBytes bs)
      then show ?thesis using 1(2) [OF True p [symmetric] RdBytes] 1(3) True p fr
        by (cases "bs = []") (simp_all add: read_loop.simps [of d len off acc])
    qed
  next
    case False
    then show ?thesis using 1(3) by (simp add: read_loop.simps [of d len off acc])
  qed
qed

lemma read_loop_success:
  "read_loop d len off acc = (Some bs, d') \<Longrightarrow> acc = kread (kd_data d) off (length acc) \<Longrightarrow>
   length acc \<le> len \<Longrightarrow> bs = kread (kd_data d) off len \<and> (length acc < len \<longrightarrow> off + len \<le> kd_size d)"
proof (induction d len off acc rule: read_loop.induct)
  case (1 d len off acc)
  show ?case
  proof (cases "length acc < len")
    case True
    obtain r0 d0 where p: "pread d (len - length acc) (off + length acc) = (r0, d0)" by fastforce
    note fr = pread_frame [OF p]
    show ?thesis
    proof (cases r0)
      case RdIntr
      then show ?thesis using 1(1) [OF True p [symmetric]] 1(3-5) True p fr
        by (simp add: read_loop.simps [of d len off acc])
    next
      case RdErr
      then show ?thesis using 1(3) True p by (simp add: read_loop.simps [of d len off acc])
    next
      case (RdBytes cs)
      with p have q: "pread d (len - length acc) (off + length acc) = (RdBytes cs, d0)" by simp
      note pb = pread_RdBytes [OF q]
      have ne: "cs \<noteq> []" and rec: "read_loop d0 len off (acc @ cs) = (Some bs, d')"
        using 1(3) True q by (auto simp: read_loop.simps [of d len off acc] split: if_splits)
      have acc': "acc @ cs = kread (kd_data d0) off (length (acc @ cs))"
        using 1(4) pb(1) fr(2) by (metis kread_append length_append)
      have "bs = kread (kd_data d0) off len
            \<and> (length (acc @ cs) < len \<longrightarrow> off + len \<le> kd_size d0)"
        using 1(2) [OF True p [symmetric] RdBytes ne rec acc'] pb(2) True by simp
      then show ?thesis using fr ne pb(2,3) by fastforce
    qed
  next
    case False
    then show ?thesis using 1(3-5) by (simp add: read_loop.simps [of d len off acc])
  qed
qed

lemma write_loop_spec:
  "write_loop d buf off n = (ok, d') \<Longrightarrow> n \<le> length buf \<Longrightarrow>
   kd_size d' = kd_size d \<and> kd_durable d' = kd_durable d
   \<and> (\<exists>k \<le> length buf - n. kd_data d' = kwrite (kd_data d) (off + n) (take k (drop n buf))
        \<and> (ok \<longrightarrow> k = length buf - n)
        \<and> (0 < k \<longrightarrow> off + n + k \<le> kd_size d))"
proof (induction d buf off n rule: write_loop.induct)
  case (1 d buf off n)
  show ?case
  proof (cases "n < length buf")
    case True
    obtain r0 d0 where p: "pwrite d (drop n buf) (off + n) = (r0, d0)" by fastforce
    note pc = pwrite_cases [OF p]
    show ?thesis
    proof (cases r0)
      case WrIntr
      then show ?thesis using 1(1) [OF True p [symmetric]] 1(3,4) True p pc
        by (simp add: write_loop.simps [of d buf off n])
    next
      case WrErr
      then show ?thesis using 1(3,4) True p pc
        by (auto simp: write_loop.simps [of d buf off n] intro!: exI [of _ 0])
    next
      case (WrBytes k)
      note dat = pc(3) [OF WrBytes]
      show ?thesis
      proof (cases "k = 0")
        case True
        then show ?thesis using 1(3,4) \<open>n < length buf\<close> p pc(1,2) WrBytes dat
          by (auto simp: write_loop.simps [of d buf off n] intro!: exI [of _ 0])
      next
        case False
        have rec: "write_loop d0 buf off (n + k) = (ok, d')"
          using 1(3) True p WrBytes False by (simp add: write_loop.simps [of d buf off n])
        have nk: "n + k \<le> length buf" using dat True by auto
        obtain j where j: "j \<le> length buf - (n + k)"
          "kd_data d' = kwrite (kd_data d0) (off + (n + k)) (take j (drop (n + k) buf))"
          "ok \<longrightarrow> j = length buf - (n + k)"
          "0 < j \<longrightarrow> off + (n + k) + j \<le> kd_size d0"
          "kd_size d' = kd_size d0" "kd_durable d' = kd_durable d0"
          using 1(2) [OF True p [symmetric] WrBytes False rec nk]
          by (elim conjE exE) (rule that, assumption+)
        have len: "length (take k (drop n buf)) = k" using dat by auto
        have "take (k + j) (drop n buf) = take k (drop n buf) @ take j (drop (n + k) buf)"
          by (simp only: take_add [of k j] drop_drop add.commute [of k n])
        moreover have "kwrite (kwrite (kd_data d) (off + n) (take k (drop n buf)))
              (off + n + k) (take j (drop (n + k) buf))
            = kwrite (kd_data d) (off + n) (take k (drop n buf) @ take j (drop (n + k) buf))"
          using kwrite_append [of "kd_data d" "off + n" "take k (drop n buf)"
              "take j (drop (n + k) buf)"] by (simp only: len)
        ultimately have "kd_data d' = kwrite (kd_data d) (off + n) (take (k + j) (drop n buf))"
          using j(2) dat by (simp only: add.assoc)
        then show ?thesis using j dat pc(1,2) False
          by (intro conjI exI [of _ "k + j"]) (auto simp: add.assoc)
      qed
    qed
  next
    case False
    then have "ok" "d' = d" using 1(3) by (simp_all add: write_loop.simps [of d buf off n])
    then show ?thesis using False by auto
  qed
qed

lemma ReadExact_frame:
  assumes "ReadExact d len off = (r, d')"
  shows "kd_size d' = kd_size d" "kd_data d' = kd_data d" "kd_durable d' = kd_durable d"
  using read_loop_frame assms unfolding ReadExact_def by blast+

lemma ReadExact_Some:
  assumes "ReadExact d len off = (Some bs, d')"
  shows "bs = kread (kd_data d) off len \<and> (0 < len \<longrightarrow> off + len \<le> kd_size d)"
  using read_loop_success [OF assms [unfolded ReadExact_def]] by simp

lemma WriteExact_frame:
  assumes "WriteExact d buf off = (ok, d')"
  shows "kd_size d' = kd_size d" "kd_durable d' = kd_durable d"
  using write_loop_spec assms unfolding WriteExact_def by blast+

lemma WriteExact_prefix:
  assumes "WriteExact d buf off = (ok, d')"
  shows "\<exists>k \<le> length buf. kd_data d' = kwrite (kd_data d) off (take k buf) \<and> (ok \<longrightarrow> k = length buf)"
  using write_loop_spec [OF assms [unfolded WriteExact_def]] by auto

lemma WriteExact_True:
  assumes "WriteExact d buf off = (True, d')"
  shows "kd_data d' = kwrite (kd_data d) off buf"
  using WriteExact_prefix [OF assms] by auto

lemma WriteExact_outside:
  assumes "WriteExact d buf off = (ok, d')" "i < off \<or> off + length buf \<le> i"
  shows "kd_data d' i = kd_data d i"
  using WriteExact_prefix [OF assms(1)] assms(2) by (auto simp: kwrite_def)

text \<open>C37: \<open>ReadExact\<close> and \<open>WriteExact\<close>, for every pattern of interrupted, short and failing
  transfers: success means that the whole requested range was transferred and lies on the
  device; failure of a write leaves a prefix of the buffer written; nothing outside the range
  is touched and nothing becomes durable.\<close>

theorem io_retry_exact:
  "(\<forall>bs d'. ReadExact d len off = (Some bs, d') \<longrightarrow>
       bs = kread (kd_data d) off len \<and> (0 < len \<longrightarrow> off + len \<le> kd_size d))
   \<and> (\<forall>r d'. ReadExact d len off = (r, d') \<longrightarrow> kd_data d' = kd_data d \<and> kd_durable d' = kd_durable d)
   \<and> (\<forall>ok d'. WriteExact d buf off = (ok, d') \<longrightarrow>
        (\<exists>k \<le> length buf. kd_data d' = kwrite (kd_data d) off (take k buf) \<and> (ok \<longrightarrow> k = length buf))
        \<and> kd_durable d' = kd_durable d)"
  using ReadExact_Some ReadExact_frame WriteExact_prefix WriteExact_frame
  by (intro conjI allI impI) blast+

theorem io_retry_exact_witness:
  "kd_data (snd (WriteExact \<lparr>kd_size = 10, kd_data = (\<lambda>_. 0), kd_durable = (\<lambda>_. 0),
       kd_script = [Eintr, Xfer 2, Errno]\<rparr> [7, 8, 9] 4)) 6 = 0
   \<and> kd_durable (snd (WriteExact \<lparr>kd_size = 10, kd_data = (\<lambda>_. 0), kd_durable = (\<lambda>_. 0),
       kd_script = [Eintr, Xfer 2, Errno]\<rparr> [7, 8, 9] 4)) = (\<lambda>_. 0)"
proof -
  let ?d = "\<lparr>kd_size = 10, kd_data = (\<lambda>_. 0), kd_durable = (\<lambda>_. 0), kd_script = [Eintr, Xfer 2, Errno]\<rparr>"
  obtain ok d' where w: "WriteExact ?d [7, 8, 9] 4 = (ok, d')" by (cases "WriteExact ?d [7, 8, 9] 4")
  have "kd_durable d' = kd_durable ?d"
    using io_retry_exact [of ?d 1 4 "[7, 8, 9]"] w by blast
  moreover have "kd_data (snd (WriteExact ?d [7, 8, 9] 4)) 6 = 0"
    by (simp add: WriteExact_def write_loop.simps pwrite_def kwrite_def)
  ultimately show ?thesis using w by simp
qed

text \<open>With an exhausted script every transfer inside the device succeeds.\<close>

lemma ReadExact_ok:
  assumes "kd_script d = []" "off + len \<le> kd_size d"
  shows "ReadExact d len off = (Some (kread (kd_data d) off len), d)"
proof (cases "len = 0")
  case True
  then show ?thesis by (simp add: ReadExact_def read_loop.simps)
next
  case False
  then have "pread d len off = (RdBytes (kread (kd_data d) off len), d)"
    using assms by (simp add: pread_def)
  then show ?thesis
    using False by (simp add: ReadExact_def read_loop.simps)
qed

lemma WriteExact_ok:
  assumes "kd_script d = []" "off + length buf \<le> kd_size d"
  shows "WriteExact d buf off = (True, d\<lparr>kd_data := kwrite (kd_data d) off buf\<rparr>)"
proof (cases "buf = []")
  case True
  then show ?thesis by (simp add: WriteExact_def write_loop.simps)
next
  case False
  then have "pwrite d buf off = (WrBytes (length buf), d\<lparr>kd_data := kwrite (kd_data d) off buf\<rparr>)"
    using assms by (simp add: pwrite_def)
  then show ?thesis
    using False by (simp add: WriteExact_def write_loop.simps)
qed

lemma fdatasync_cases:
  assumes "fdatasync d = (ok, d')"
  shows "kd_size d' = kd_size d" "kd_data d' = kd_data d"
    and "kd_durable d' = (if ok then kd_data d else kd_durable d)"
  using assms
  by (auto simp: fdatasync_def sys_simple_def split: list.splits sys_result.splits)

lemma fdatasync_ok: "kd_script d = [] \<Longrightarrow> fdatasync d = (True, d\<lparr>kd_durable := kd_data d\<rparr>)"
  by (simp add: fdatasync_def sys_simple_def)

end
