(* ===== verification/Cabe_RawDevice.thy ===== *)
theory Cabe_RawDevice
  imports Cabe_Structs Cabe_Kernel
begin

text \<open>
  \<open>util/raw_device.cpp\<close>: the handle through which the super block, the WAL and the snapshot
  reach their devices. A handle is open or not, remembers the device size, and reads,
  writes and syncs through the retry loops. The locale \<open>raw_store\<close> is what those three
  clients rely on; the handle is an instance.
\<close>

record raw_device =
  fd_open :: bool
  size_bytes :: nat
  kdev :: kdev

text \<open>A default-constructed handle on (not yet opened) device \<open>d\<close>.\<close>

definition raw_closed :: "kdev \<Rightarrow> raw_device" where
  "raw_closed d = \<lparr>fd_open = False, size_bytes = 0, kdev = d\<rparr>"

definition RawDevice_Open :: "raw_device \<Rightarrow> rc \<times> raw_device" where
  "RawDevice_Open r =
     (if fd_open r then (kIoBase, r)
      else case sys_simple (kdev r) of
        (False, d1) \<Rightarrow> (kIoBase, r\<lparr>kdev := d1\<rparr>)
      | (True, d1) \<Rightarrow>
         (case sys_simple d1 of
            (False, d2) \<Rightarrow> (kIoBase, r\<lparr>fd_open := False, kdev := d2\<rparr>)
          | (True, d2) \<Rightarrow> (kSuccess, r\<lparr>fd_open := True, size_bytes := kd_size d2, kdev := d2\<rparr>)))"

definition RawDevice_Close :: "raw_device \<Rightarrow> rc \<times> raw_device" where
  "RawDevice_Close r =
     (if \<not> fd_open r then (kSuccess, r)
      else (kSuccess, r\<lparr>fd_open := False, size_bytes := 0\<rparr>))"

definition RawDevice_Sync :: "raw_device \<Rightarrow> rc \<times> raw_device" where
  "RawDevice_Sync r =
     (if \<not> fd_open r then (kIoBase, r)
      else case fdatasync (kdev r) of
        (ok, d) \<Rightarrow> (if ok then kSuccess else kIoBase, r\<lparr>kdev := d\<rparr>))"

definition RawDevice_SizeBytes :: "raw_device \<Rightarrow> nat" where
  "RawDevice_SizeBytes r = size_bytes r"

text \<open>On failure the caller's buffer is not used, so only a successful read returns one.\<close>

definition RawDevice_ReadAt :: "raw_device \<Rightarrow> nat \<Rightarrow> nat \<Rightarrow> rc \<times> bytes \<times> raw_device" where
  "RawDevice_ReadAt r offset len =
     (if \<not> fd_open r then (kIoBase, [], r)
      else case ReadExact (kdev r) len offset of
        (None, d) \<Rightarrow> (kIoBase, [], r\<lparr>kdev := d\<rparr>)
      | (Some bs, d) \<Rightarrow> (kSuccess, bs, r\<lparr>kdev := d\<rparr>))"

definition RawDevice_WriteAt :: "raw_device \<Rightarrow> nat \<Rightarrow> bytes \<Rightarrow> rc \<times> raw_device" where
  "RawDevice_WriteAt r offset buf =
     (if \<not> fd_open r then (kIoBase, r)
      else case WriteExact (kdev r) buf offset of
        (False, d) \<Rightarrow> (kIoBase, r\<lparr>kdev := d\<rparr>)
      | (True, d) \<Rightarrow> (kSuccess, r\<lparr>kdev := d\<rparr>))"

definition RawDevice_is_open :: "raw_device \<Rightarrow> bool" where
  "RawDevice_is_open r \<longleftrightarrow> fd_open r"

text \<open>\<open>posix_memalign\<close> may fail as well; like a system call it takes its outcome from the
  script of the device the buffer is for.\<close>

definition AllocAligned :: "raw_device \<Rightarrow> bool \<times> raw_device" where
  "AllocAligned r = (case sys_simple (kdev r) of (ok, d) \<Rightarrow> (ok, r\<lparr>kdev := d\<rparr>))"

section \<open>The interface the clients use\<close>

text \<open>\<open>contents\<close> is what reads return, \<open>durable\<close> what survives a power failure. A read
  changes neither; a successful write replaces exactly its range and leaves \<open>durable\<close>
  alone; a failed one may have changed its range; a successful sync makes the contents
  durable.\<close>

locale raw_store =
  fixes rd :: "'d \<Rightarrow> nat \<Rightarrow> nat \<Rightarrow> rc \<times> bytes \<times> 'd"
    and wr :: "'d \<Rightarrow> nat \<Rightarrow> bytes \<Rightarrow> rc \<times> 'd"
    and sync :: "'d \<Rightarrow> rc \<times> 'd"
    and contents :: "'d \<Rightarrow> nat \<Rightarrow> u8"
    and durable :: "'d \<Rightarrow> nat \<Rightarrow> u8"
  assumes rd_same: "rd d off len = (c, bs, d') \<Longrightarrow> contents d' = contents d \<and> durable d' = durable d"
    and rd_ok: "rd d off len = (kSuccess, bs, d') \<Longrightarrow> bs = kread (contents d) off len"
    and wr_durable: "wr d off buf = (c, d') \<Longrightarrow> durable d' = durable d"
    and wr_ok: "wr d off buf = (kSuccess, d') \<Longrightarrow> contents d' = kwrite (contents d) off buf"
    and wr_outside: "wr d off buf = (c, d') \<Longrightarrow> i < off \<or> off + length buf \<le> i \<Longrightarrow>
                       contents d' i = contents d i"
    and sync_contents: "sync d = (c, d') \<Longrightarrow> contents d' = contents d"
    and sync_durable: "sync d = (c, d') \<Longrightarrow>
                       durable d' = (if c = kSuccess then contents d else durable d)"
begin

text \<open>A region that was written and not touched since is read back.\<close>

lemma read_back:
  assumes "wr d off buf = (kSuccess, d1)" "rd d1 off (length buf) = (kSuccess, bs, d2)"
  shows "bs = buf"
  using rd_ok [OF assms(2)] wr_ok [OF assms(1)] by simp

text \<open>Write then sync: the region is durable.\<close>

lemma write_sync_durable:
  assumes "wr d off buf = (kSuccess, d1)" "sync d1 = (kSuccess, d2)"
  shows "kread (durable d2) off (length buf) = buf"
    and "contents d2 = durable d2"
  using wr_ok [OF assms(1)] sync_durable [OF assms(2)] sync_contents [OF assms(2)] by simp_all

text \<open>A write elsewhere, failed or not, leaves a region alone.\<close>

lemma write_elsewhere:
  assumes "wr d off buf = (c, d1)" "a + n \<le> off \<or> off + length buf \<le> a"
  shows "kread (contents d1) a n = kread (contents d) a n"
  by (rule kread_cong) (use wr_outside [OF assms(1)] assms(2) in auto)

text \<open>Two copies, each written and synced before the next step: whenever the second write
  has begun, the first copy is durable.\<close>

lemma ordered_copies:
  assumes "wr d a buf = (kSuccess, d1)" "sync d1 = (kSuccess, d2)" "wr d2 b buf = (c, d3)"
    and "a + length buf \<le> b \<or> b + length buf \<le> a"
  shows "kread (durable d3) a (length buf) = buf" "kread (contents d3) a (length buf) = buf"
proof -
  show "kread (durable d3) a (length buf) = buf"
    using write_sync_durable(1) [OF assms(1,2)] wr_durable [OF assms(3)] by simp
  have "kread (contents d3) a (length buf) = kread (contents d2) a (length buf)"
    using write_elsewhere [OF assms(3)] assms(4) by blast
  then show "kread (contents d3) a (length buf) = buf"
    using write_sync_durable [OF assms(1,2)] by simp
qed

end

definition rd_contents :: "raw_device \<Rightarrow> nat \<Rightarrow> u8" where
  "rd_contents r = kd_data (kdev r)"

definition rd_durable :: "raw_device \<Rightarrow> nat \<Rightarrow> u8" where
  "rd_durable r = kd_durable (kdev r)"

interpretation raw: raw_store RawDevice_ReadAt RawDevice_WriteAt RawDevice_Sync
  rd_contents rd_durable
proof
  fix d d' :: raw_device and off len c bs buf i
  show "RawDevice_ReadAt d off len = (c, bs, d') \<Longrightarrow>
      rd_contents d' = rd_contents d \<and> rd_durable d' = rd_durable d"
    by (auto simp: RawDevice_ReadAt_def rd_contents_def rd_durable_def
        dest: ReadExact_frame split: if_splits prod.splits option.splits)
  show "RawDevice_ReadAt d off len = (kSuccess, bs, d') \<Longrightarrow> bs = kread (rd_contents d) off len"
    by (auto simp: RawDevice_ReadAt_def rd_contents_def
        dest: ReadExact_Some split: if_splits prod.splits option.splits)
  show "RawDevice_WriteAt d off buf = (c, d') \<Longrightarrow> rd_durable d' = rd_durable d"
    by (auto simp: RawDevice_WriteAt_def rd_durable_def
        dest: WriteExact_frame split: if_splits prod.splits bool.splits)
  show "RawDevice_WriteAt d off buf = (kSuccess, d') \<Longrightarrow>
      rd_contents d' = kwrite (rd_contents d) off buf"
    by (auto simp: RawDevice_WriteAt_def rd_contents_def
        dest: WriteExact_True split: if_splits prod.splits bool.splits)
  show "RawDevice_WriteAt d off buf = (c, d') \<Longrightarrow> i < off \<or> off + length buf \<le> i \<Longrightarrow>
      rd_contents d' i = rd_contents d i"
    by (auto simp: RawDevice_WriteAt_def rd_contents_def
        dest: WriteExact_outside split: if_splits prod.splits bool.splits)
  show "RawDevice_Sync d = (c, d') \<Longrightarrow> rd_contents d' = rd_contents d"
    by (auto simp: RawDevice_Sync_def rd_contents_def
        dest: fdatasync_cases split: if_splits prod.splits)
  show "RawDevice_Sync d = (c, d') \<Longrightarrow>
      rd_durable d' = (if c = kSuccess then rd_contents d else rd_durable d)"
    by (auto simp: RawDevice_Sync_def rd_contents_def rd_durable_def
        dest: fdatasync_cases split: if_splits prod.splits)
qed

text \<open>After a power failure each byte is its durable value or the value last written over it.\<close>

definition crash_image :: "raw_device \<Rightarrow> (nat \<Rightarrow> u8) \<Rightarrow> bool" where
  "crash_image r im \<longleftrightarrow> (\<forall>i. im i = rd_durable r i \<or> im i = rd_contents r i)"

lemma crash_image_region:
  assumes "crash_image r im" "kread (rd_durable r) a n = bs" "kread (rd_contents r) a n = bs"
  shows "kread im a n = bs"
proof -
  have eq: "rd_durable r (a + i) = rd_contents r (a + i)" if "i < n" for i
    using that assms(2,3) by (metis nth_kread)
  have "kread im a n = kread (rd_contents r) a n"
  proof (rule kread_cong)
    fix i
    assume "a \<le> i" "i < a + n"
    then have "rd_durable r i = rd_contents r i" using eq [of "i - a"] by simp
    then show "im i = rd_contents r i" using assms(1) by (metis crash_image_def)
  qed
  then show ?thesis using assms(3) by simp
qed

section \<open>What no operation changes\<close>

lemma ReadAt_frame [frame_simps]:
  assumes "RawDevice_ReadAt r off len = (c, bs, r')"
  shows "fd_open r' = fd_open r" "size_bytes r' = size_bytes r"
    "kd_size (kdev r') = kd_size (kdev r)"
  using assms by (auto simp: RawDevice_ReadAt_def dest: ReadExact_frame
      split: if_splits prod.splits option.splits)

lemma WriteAt_frame [frame_simps]:
  assumes "RawDevice_WriteAt r off buf = (c, r')"
  shows "fd_open r' = fd_open r" "size_bytes r' = size_bytes r"
    "kd_size (kdev r') = kd_size (kdev r)"
  using assms by (auto simp: RawDevice_WriteAt_def dest: WriteExact_frame
      split: if_splits prod.splits bool.splits)

lemma Sync_frame [frame_simps]:
  assumes "RawDevice_Sync r = (c, r')"
  shows "fd_open r' = fd_open r" "size_bytes r' = size_bytes r"
    "kd_size (kdev r') = kd_size (kdev r)"
  using assms by (auto simp: RawDevice_Sync_def dest: fdatasync_cases
      split: if_splits prod.splits)

lemma AllocAligned_frame [frame_simps]:
  assumes "AllocAligned r = (c, r')"
  shows "fd_open r' = fd_open r" "size_bytes r' = size_bytes r"
    "kd_size (kdev r') = kd_size (kdev r)" "rd_contents r' = rd_contents r"
    "rd_durable r' = rd_durable r"
  using assms by (auto simp: AllocAligned_def sys_simple_def rd_contents_def rd_durable_def
      split: list.splits sys_result.splits)

lemma Open_cases:
  assumes "RawDevice_Open (raw_closed d) = (c, r)"
  shows "kd_size (kdev r) = kd_size d" "kd_data (kdev r) = kd_data d"
    "kd_durable (kdev r) = kd_durable d"
    "c = kSuccess \<Longrightarrow> fd_open r \<and> size_bytes r = kd_size d"
    "c = kSuccess \<or> c = kIoBase"
  using assms by (auto simp: RawDevice_Open_def raw_closed_def sys_simple_def
      split: list.splits sys_result.splits if_splits)

lemma WriteAt_prefix:
  assumes "RawDevice_WriteAt r off buf = (c, r')"
  shows "\<exists>k \<le> length buf. rd_contents r' = kwrite (rd_contents r) off (take k buf)
           \<and> (c = kSuccess \<longrightarrow> k = length buf)"
proof (cases "fd_open r")
  case True
  obtain ok d where w: "WriteExact (kdev r) buf off = (ok, d)" by fastforce
  show ?thesis
    using WriteExact_prefix [OF w] assms True w
    by (auto simp: RawDevice_WriteAt_def rd_contents_def split: bool.splits)
next
  case False
  then show ?thesis
    using assms by (auto simp: RawDevice_WriteAt_def intro!: exI [of _ 0])
qed

lemma ReadAt_rc: "RawDevice_ReadAt r off len = (c, bs, r') \<Longrightarrow> c = kSuccess \<or> c = kIoBase"
  by (auto simp: RawDevice_ReadAt_def split: if_splits prod.splits option.splits)

lemma WriteAt_rc: "RawDevice_WriteAt r off buf = (c, r') \<Longrightarrow> c = kSuccess \<or> c = kIoBase"
  by (auto simp: RawDevice_WriteAt_def split: if_splits prod.splits bool.splits)

lemma Sync_rc: "RawDevice_Sync r = (c, r') \<Longrightarrow> c = kSuccess \<or> c = kIoBase"
  by (auto simp: RawDevice_Sync_def split: if_splits prod.splits)

lemma ReadAt_length:
  "RawDevice_ReadAt r off len = (kSuccess, bs, r') \<Longrightarrow> length bs = len"
  by (drule raw.rd_ok) simp

text \<open>What operations do when the kernel reports no failure (\<open>healthy\<close>).\<close>

definition healthy :: "raw_device \<Rightarrow> bool" where
  "healthy r \<longleftrightarrow> fd_open r \<and> kd_script (kdev r) = [] \<and> size_bytes r = kd_size (kdev r)"

definition rd_update :: "raw_device \<Rightarrow> nat \<Rightarrow> bytes \<Rightarrow> raw_device" where
  "rd_update r off buf = r\<lparr>kdev := (kdev r)\<lparr>kd_data := kwrite (kd_data (kdev r)) off buf\<rparr>\<rparr>"

definition rd_synced :: "raw_device \<Rightarrow> raw_device" where
  "rd_synced r = r\<lparr>kdev := (kdev r)\<lparr>kd_durable := kd_data (kdev r)\<rparr>\<rparr>"

lemma healthy_ReadAt:
  "healthy r \<Longrightarrow> off + len \<le> size_bytes r \<Longrightarrow>
   RawDevice_ReadAt r off len = (kSuccess, kread (rd_contents r) off len, r)"
  by (simp add: RawDevice_ReadAt_def healthy_def ReadExact_ok rd_contents_def)

lemma healthy_WriteAt:
  "healthy r \<Longrightarrow> off + length buf \<le> size_bytes r \<Longrightarrow>
   RawDevice_WriteAt r off buf = (kSuccess, rd_update r off buf)"
  by (simp add: RawDevice_WriteAt_def healthy_def WriteExact_ok rd_update_def)

lemma healthy_Sync: "healthy r \<Longrightarrow> RawDevice_Sync r = (kSuccess, rd_synced r)"
  by (simp add: RawDevice_Sync_def healthy_def fdatasync_ok rd_synced_def)

lemma healthy_AllocAligned: "healthy r \<Longrightarrow> AllocAligned r = (True, r)"
  by (simp add: AllocAligned_def healthy_def sys_simple_def)

lemma healthy_Open:
  "kd_script d = [] \<Longrightarrow> RawDevice_Open (raw_closed d)
     = (kSuccess, \<lparr>fd_open = True, size_bytes = kd_size d, kdev = d\<rparr>)"
  by (simp add: RawDevice_Open_def raw_closed_def sys_simple_def)

lemma healthy_update [simp]:
  "healthy (rd_update r off buf) = healthy r" "healthy (rd_synced r) = healthy r"
  "size_bytes (rd_update r off buf) = size_bytes r" "size_bytes (rd_synced r) = size_bytes r"
  by (simp_all add: healthy_def rd_update_def rd_synced_def)

lemma contents_update [simp]:
  "rd_contents (rd_update r off buf) = kwrite (rd_contents r) off buf"
  "rd_contents (rd_synced r) = rd_contents r"
  "rd_durable (rd_update r off buf) = rd_durable r"
  "rd_durable (rd_synced r) = rd_contents r"
  by (simp_all add: rd_contents_def rd_durable_def rd_update_def rd_synced_def)

end
