(* ===== verification/Cabe_SuperBlock.thy ===== *)
theory Cabe_SuperBlock
  imports Cabe_RawDevice Cabe_Crc32
begin

text \<open>
  \<open>engine/super_block.{h,cpp}\<close>: the 4096-byte identity record each device carries twice
  (primary at 0, backup at 4096), its byte image, its check, the ordered double write
  and the read with repair.
\<close>

definition kSuperBlockMagic :: u32 where "kSuperBlockMagic = 0x43424553"
definition kSuperBlockVersion :: u32 where "kSuperBlockVersion = 2"
definition kUuidBytes :: nat where "kUuidBytes = 16"

datatype device_type = Data | Wal | Snapshot

definition device_type_word :: "device_type \<Rightarrow> u32" where
  "device_type_word t = (case t of Data \<Rightarrow> 0 | Wal \<Rightarrow> 1 | Snapshot \<Rightarrow> 2)"

record super_block =
  sb_magic :: u32
  sb_version :: u32
  sb_device_type :: u32
  sb_reserved0 :: u32
  sb_engine_uuid :: bytes
  sb_device_uuid :: bytes
  sb_paired_data_uuid :: bytes
  sb_paired_wal_uuid :: bytes
  sb_paired_snapshot_uuid :: bytes
  sb_device_id :: u64
  sb_block_count :: u64
  sb_created_at :: u64
  sb_device_count :: u64
  sb_reserved :: bytes
  sb_crc32c :: u32

definition kSbReserved :: nat where "kSbReserved = 3964"

text \<open>The value-initialised structure \<open>SuperBlock sb{}\<close>.\<close>

definition sb_zero :: super_block where
  "sb_zero = \<lparr>sb_magic = 0, sb_version = 0, sb_device_type = 0, sb_reserved0 = 0,
     sb_engine_uuid = zeros kUuidBytes, sb_device_uuid = zeros kUuidBytes,
     sb_paired_data_uuid = zeros kUuidBytes, sb_paired_wal_uuid = zeros kUuidBytes,
     sb_paired_snapshot_uuid = zeros kUuidBytes,
     sb_device_id = 0, sb_block_count = 0, sb_created_at = 0, sb_device_count = 0,
     sb_reserved = zeros kSbReserved, sb_crc32c = 0\<rparr>"

text \<open>Everything before the trailing checksum, in declaration order, and the whole image.\<close>

definition sb_body :: "super_block \<Rightarrow> bytes" where
  "sb_body sb =
     le_bytes 4 (sb_magic sb) @ le_bytes 4 (sb_version sb) @ le_bytes 4 (sb_device_type sb) @
     le_bytes 4 (sb_reserved0 sb) @ sb_engine_uuid sb @ sb_device_uuid sb @
     sb_paired_data_uuid sb @ sb_paired_wal_uuid sb @ sb_paired_snapshot_uuid sb @
     le_bytes 8 (sb_device_id sb) @ le_bytes 8 (sb_block_count sb) @
     le_bytes 8 (sb_created_at sb) @ le_bytes 8 (sb_device_count sb) @ sb_reserved sb"

definition sb_bytes :: "super_block \<Rightarrow> bytes" where
  "sb_bytes sb = sb_body sb @ le_bytes 4 (sb_crc32c sb)"

definition sb_of_bytes :: "bytes \<Rightarrow> super_block" where
  "sb_of_bytes bs = \<lparr>sb_magic = le_word (peek 0 4 bs), sb_version = le_word (peek 4 4 bs),
     sb_device_type = le_word (peek 8 4 bs), sb_reserved0 = le_word (peek 12 4 bs),
     sb_engine_uuid = peek 16 16 bs, sb_device_uuid = peek 32 16 bs,
     sb_paired_data_uuid = peek 48 16 bs, sb_paired_wal_uuid = peek 64 16 bs,
     sb_paired_snapshot_uuid = peek 80 16 bs,
     sb_device_id = le_word (peek 96 8 bs), sb_block_count = le_word (peek 104 8 bs),
     sb_created_at = le_word (peek 112 8 bs), sb_device_count = le_word (peek 120 8 bs),
     sb_reserved = peek 128 3964 bs, sb_crc32c = le_word (peek 4092 4 bs)\<rparr>"

text \<open>The arrays of the C++ structure have fixed sizes.\<close>

definition sb_wf :: "super_block \<Rightarrow> bool" where
  "sb_wf sb \<longleftrightarrow> length (sb_engine_uuid sb) = 16 \<and> length (sb_device_uuid sb) = 16
     \<and> length (sb_paired_data_uuid sb) = 16 \<and> length (sb_paired_wal_uuid sb) = 16
     \<and> length (sb_paired_snapshot_uuid sb) = 16 \<and> length (sb_reserved sb) = 3964"

lemma sb_body_length [codec_simps]: "sb_wf sb \<Longrightarrow> length (sb_body sb) = 4092"
  by (simp add: sb_body_def sb_wf_def)

lemma sb_bytes_length [codec_simps]: "sb_wf sb \<Longrightarrow> length (sb_bytes sb) = kSuperBlockSize"
  by (simp add: sb_bytes_def sb_body_length kSuperBlockSize_def)

lemma sb_wf_of_bytes: "length bs = kSuperBlockSize \<Longrightarrow> sb_wf (sb_of_bytes bs)"
  by (simp add: sb_wf_def sb_of_bytes_def kSuperBlockSize_def)

lemma sb_of_bytes_bytes: "sb_wf sb \<Longrightarrow> sb_of_bytes (sb_bytes sb) = sb"
  by (simp add: sb_of_bytes_def sb_bytes_def sb_body_def sb_wf_def codec_simps)

lemma sb_bytes_of_bytes: "length bs = kSuperBlockSize \<Longrightarrow> sb_bytes (sb_of_bytes bs) = bs"
  by (simp add: sb_of_bytes_def sb_bytes_def sb_body_def kSuperBlockSize_def codec_simps)

text \<open>The byte image of a super block and its decoding are inverse in both
  directions: every structure is read back from its 4096 bytes field by field, and every
  4096 bytes are the image of the structure they decode to (no byte is lost in the repair
  of a primary copy from the backup).\<close>

theorem SuperBlock_roundtrip:
  "(sb_wf sb \<longrightarrow> length (sb_bytes sb) = kSuperBlockSize \<and> sb_of_bytes (sb_bytes sb) = sb)
   \<and> (length bs = kSuperBlockSize \<longrightarrow> sb_wf (sb_of_bytes bs) \<and> sb_bytes (sb_of_bytes bs) = bs)"
  by (simp add: sb_bytes_length sb_of_bytes_bytes sb_wf_of_bytes sb_bytes_of_bytes)

theorem SuperBlock_roundtrip_witness:
  "sb_of_bytes (sb_bytes (sb_zero\<lparr>sb_block_count := 5\<rparr>)) = sb_zero\<lparr>sb_block_count := 5\<rparr>
   \<and> sb_bytes (sb_of_bytes (zeros kSuperBlockSize)) = zeros kSuperBlockSize"
proof -
  have "sb_wf (sb_zero\<lparr>sb_block_count := 5\<rparr>)"
    by (simp add: sb_wf_def sb_zero_def kUuidBytes_def kSbReserved_def)
  then show ?thesis
    using SuperBlock_roundtrip [of "sb_zero\<lparr>sb_block_count := 5\<rparr>" "zeros kSuperBlockSize"] by simp
qed

section \<open>Checking, writing and reading one device's pair\<close>

definition ComputeCrc :: "super_block \<Rightarrow> u32" where
  "ComputeCrc sb = CRC32 (take (kSuperBlockSize - 4) (sb_bytes sb))"

datatype sb_check = Valid | BadMagic | BadCrc

definition CheckSuperBlock :: "super_block \<Rightarrow> sb_check" where
  "CheckSuperBlock sb =
     (if sb_magic sb \<noteq> kSuperBlockMagic then BadMagic
      else if sb_version sb \<noteq> kSuperBlockVersion then BadMagic
      else if ComputeCrc sb \<noteq> sb_crc32c sb then BadCrc
      else Valid)"

definition WriteSuperBlockPair :: "raw_device \<Rightarrow> super_block \<Rightarrow> rc \<times> raw_device" where
  "WriteSuperBlockPair r sb =
     (case AllocAligned r of (a, r0) \<Rightarrow>
      if \<not> a then (kIoBase, r0) else
      case RawDevice_WriteAt r0 kSuperBlockSize (sb_bytes sb) of (rc1, r1) \<Rightarrow>
      if rc1 \<noteq> kSuccess then (rc1, r1) else
      case RawDevice_Sync r1 of (rc2, r2) \<Rightarrow>
      if rc2 \<noteq> kSuccess then (rc2, r2) else
      case RawDevice_WriteAt r2 0 (sb_bytes sb) of (rc3, r3) \<Rightarrow>
      if rc3 \<noteq> kSuccess then (rc3, r3) else
      RawDevice_Sync r3)"

text \<open>The out parameter is written only on success.\<close>

definition ReadSuperBlockWithRepair ::
  "raw_device \<Rightarrow> rc \<times> super_block option \<times> raw_device" where
  "ReadSuperBlockWithRepair r =
     (case AllocAligned r of (a, r0) \<Rightarrow>
      if \<not> a then (kIoBase, None, r0) else
      case RawDevice_ReadAt r0 0 kSuperBlockSize of (rc1, buf1, r1) \<Rightarrow>
      let primary = sb_of_bytes buf1;
          primary_check = (if rc1 = kSuccess then CheckSuperBlock primary else BadMagic) in
      if rc1 = kSuccess \<and> primary_check = Valid then (kSuccess, Some primary, r1) else
      case RawDevice_ReadAt r1 kSuperBlockSize kSuperBlockSize of (rc2, buf2, r2) \<Rightarrow>
      let backup = sb_of_bytes buf2;
          backup_check = (if rc2 = kSuccess then CheckSuperBlock backup else BadMagic) in
      if rc2 = kSuccess \<and> backup_check = Valid then
        (case RawDevice_WriteAt r2 0 buf2 of (rc3, r3) \<Rightarrow>
         (kSuccess, Some backup, if rc3 \<noteq> kSuccess then r3 else snd (RawDevice_Sync r3)))
      else
        (if rc1 \<noteq> kSuccess \<and> rc2 \<noteq> kSuccess then kSuperBlockReadFailed
         else if primary_check = BadMagic \<and> backup_check = BadMagic then kSuperBlockMagicMismatch
         else if primary_check = BadCrc \<or> backup_check = BadCrc then kSuperBlockCrcMismatch
         else kSuperBlockNoValid, None, r2))"

definition UuidEqual :: "bytes \<Rightarrow> bytes \<Rightarrow> bool" where
  "UuidEqual a b \<longleftrightarrow> a = b"

text \<open>The two copies as a medium holds them.\<close>

definition primary_copy :: "(nat \<Rightarrow> u8) \<Rightarrow> super_block" where
  "primary_copy m = sb_of_bytes (kread m 0 kSuperBlockSize)"

definition backup_copy :: "(nat \<Rightarrow> u8) \<Rightarrow> super_block" where
  "backup_copy m = sb_of_bytes (kread m kSuperBlockSize kSuperBlockSize)"

lemma CheckSuperBlock_Valid:
  "CheckSuperBlock sb = Valid \<longleftrightarrow> sb_magic sb = kSuperBlockMagic
     \<and> sb_version sb = kSuperBlockVersion \<and> sb_crc32c sb = ComputeCrc sb"
  by (auto simp: CheckSuperBlock_def)

lemma ComputeCrc_body: "sb_wf sb \<Longrightarrow> ComputeCrc sb = CRC32 (sb_body sb)"
  by (simp add: ComputeCrc_def sb_bytes_def sb_body_length kSuperBlockSize_def)

text \<open>Storing the checksum does not change what it covers.\<close>

lemma ComputeCrc_set [simp]: "sb_wf sb \<Longrightarrow> ComputeCrc (sb\<lparr>sb_crc32c := c\<rparr>) = ComputeCrc sb"
proof -
  assume w: "sb_wf sb"
  have "sb_wf (sb\<lparr>sb_crc32c := c\<rparr>)" using w by (simp add: sb_wf_def)
  moreover have "sb_body (sb\<lparr>sb_crc32c := c\<rparr>) = sb_body sb" by (simp add: sb_body_def)
  ultimately show ?thesis using w by (simp add: ComputeCrc_body)
qed

section \<open>Crash safety of the double write\<close>

text \<open>What every outcome of the double write leaves: until the backup is durable the primary
  is untouched, and only the two copies are ever touched.\<close>

lemma WriteSuperBlockPair_outcome:
  assumes "WriteSuperBlockPair r sb = (c, r')" "sb_wf sb"
  shows "kread (rd_contents r') 0 kSuperBlockSize = kread (rd_contents r) 0 kSuperBlockSize
           \<and> kread (rd_durable r') 0 kSuperBlockSize \<in>
               {kread (rd_contents r) 0 kSuperBlockSize, kread (rd_durable r) 0 kSuperBlockSize}
         \<or> kread (rd_durable r') kSuperBlockSize kSuperBlockSize = sb_bytes sb
           \<and> kread (rd_contents r') kSuperBlockSize kSuperBlockSize = sb_bytes sb" (is "?A \<or> ?B")
    and "kDataRegionOffset \<le> i \<Longrightarrow> rd_contents r' i = rd_contents r i
           \<and> rd_durable r' i \<in> {rd_contents r i, rd_durable r i}"
    and "c = kSuccess \<Longrightarrow> rd_durable r' = rd_contents r'
           \<and> kread (rd_contents r') 0 kSuperBlockSize = sb_bytes sb
           \<and> kread (rd_contents r') kSuperBlockSize kSuperBlockSize = sb_bytes sb"
proof -
  have len: "length (sb_bytes sb) = kSuperBlockSize" using assms(2) by (rule sb_bytes_length)
  obtain a r0 where a: "AllocAligned r = (a, r0)" by fastforce
  note f0 = AllocAligned_frame [OF a]
  obtain c1 r1 where w1: "RawDevice_WriteAt r0 kSuperBlockSize (sb_bytes sb) = (c1, r1)" by fastforce
  obtain c2 r2 where s1: "RawDevice_Sync r1 = (c2, r2)" by fastforce
  obtain c3 r3 where w2: "RawDevice_WriteAt r2 0 (sb_bytes sb) = (c3, r3)" by fastforce
  obtain c4 r4 where s2: "RawDevice_Sync r3 = (c4, r4)" by fastforce
  have p1: "kread (rd_contents r1) 0 kSuperBlockSize = kread (rd_contents r) 0 kSuperBlockSize"
    using raw.write_elsewhere [OF w1, of 0 kSuperBlockSize] f0 by simp
  have d1: "rd_durable r1 = rd_durable r" using raw.wr_durable [OF w1] f0 by simp
  note y1 = raw.sync_contents [OF s1] raw.sync_durable [OF s1]
  note y2 = raw.sync_contents [OF s2] raw.sync_durable [OF s2]
  consider "\<not> a" "r' = r0" | "a" "c1 \<noteq> kSuccess" "r' = r1" "c = c1"
    | "a" "c1 = kSuccess" "c2 \<noteq> kSuccess" "r' = r2" "c = c2"
    | "a" "c1 = kSuccess" "c2 = kSuccess" "c3 \<noteq> kSuccess" "r' = r3" "c = c3"
    | "a" "c1 = kSuccess" "c2 = kSuccess" "c3 = kSuccess" "r' = r4" "c = c4"
    using assms(1) a w1 s1 w2 s2 by (auto simp: WriteSuperBlockPair_def split: if_splits)
  note cases = this
  have oc: "kread (rd_durable r3) kSuperBlockSize kSuperBlockSize = sb_bytes sb"
      "kread (rd_contents r3) kSuperBlockSize kSuperBlockSize = sb_bytes sb"
    if "c1 = kSuccess" "c2 = kSuccess"
    using raw.ordered_copies [of r0 kSuperBlockSize "sb_bytes sb" r1 r2 0 c3 r3] w1 s1 w2 that len
    by simp_all
  show "?A \<or> ?B"
    by (rule cases) (use f0 p1 d1 y1 y2 oc in auto)
  have o1: "rd_contents r1 i = rd_contents r i" if "kDataRegionOffset \<le> i" for i
    using raw.wr_outside [OF w1] f0 len that by (simp add: kDataRegionOffset_8K kSuperBlockSize_def)
  have o3: "rd_contents r3 i = rd_contents r i" if "kDataRegionOffset \<le> i" for i
    using raw.wr_outside [OF w2] len that o1 [OF that] y1
    by (simp add: kDataRegionOffset_8K kSuperBlockSize_def)
  have d3: "rd_durable r3 = rd_durable r2" using raw.wr_durable [OF w2] .
  show "kDataRegionOffset \<le> i \<Longrightarrow> rd_contents r' i = rd_contents r i
           \<and> rd_durable r' i \<in> {rd_contents r i, rd_durable r i}"
    by (rule cases) (use f0 d1 d3 o1 o3 y1 y2 in \<open>simp_all split: if_splits\<close>)
  show "c = kSuccess \<Longrightarrow> rd_durable r' = rd_contents r'
           \<and> kread (rd_contents r') 0 kSuperBlockSize = sb_bytes sb
           \<and> kread (rd_contents r') kSuperBlockSize kSuperBlockSize = sb_bytes sb"
  proof (rule cases)
    assume "c = kSuccess" "c1 = kSuccess" "c2 = kSuccess" "c3 = kSuccess" "r' = r4" "c = c4"
    moreover from this have "rd_contents r3 = kwrite (rd_contents r2) 0 (sb_bytes sb)"
      using raw.wr_ok [of r2 0 "sb_bytes sb" r3] w2 by simp
    ultimately show ?thesis using oc y2 len by simp
  qed (use assms(1) a in \<open>auto simp: WriteSuperBlockPair_def\<close>)
qed

text \<open>What a read of the pair returns on a device that answers, by the state of the copies.\<close>

lemma Read_healthy:
  assumes "healthy r" "kDataRegionOffset \<le> size_bytes r"
  shows "CheckSuperBlock (primary_copy (rd_contents r)) = Valid \<Longrightarrow>
      ReadSuperBlockWithRepair r = (kSuccess, Some (primary_copy (rd_contents r)), r)"
    and "CheckSuperBlock (primary_copy (rd_contents r)) \<noteq> Valid \<Longrightarrow>
      CheckSuperBlock (backup_copy (rd_contents r)) = Valid \<Longrightarrow>
      ReadSuperBlockWithRepair r = (kSuccess, Some (backup_copy (rd_contents r)),
        rd_synced (rd_update r 0 (kread (rd_contents r) kSuperBlockSize kSuperBlockSize)))"
  using assms
  by (simp_all add: ReadSuperBlockWithRepair_def Let_def healthy_AllocAligned healthy_ReadAt
      healthy_WriteAt healthy_Sync primary_copy_def backup_copy_def
      kDataRegionOffset_8K kSuperBlockSize_def)

lemma pair_crash_image:
  assumes "WriteSuperBlockPair r sb = (c, r')" "sb_wf sb" "rd_durable r = rd_contents r"
    and "crash_image r' im"
  shows "primary_copy im = primary_copy (rd_contents r) \<or> backup_copy im = sb"
    and "kDataRegionOffset \<le> i \<Longrightarrow> im i = rd_contents r i"
    and "c = kSuccess \<Longrightarrow> primary_copy im = sb \<and> backup_copy im = sb"
proof -
  note oc = WriteSuperBlockPair_outcome [OF assms(1,2)]
  note reg = crash_image_region [OF assms(4)]
  show "primary_copy im = primary_copy (rd_contents r) \<or> backup_copy im = sb"
    using oc(1) reg assms(2,3) unfolding primary_copy_def backup_copy_def
    by (auto simp: sb_of_bytes_bytes)
  show "kDataRegionOffset \<le> i \<Longrightarrow> im i = rd_contents r i"
    using oc(2) [of i] assms(3,4) unfolding crash_image_def by (metis insert_iff singletonD)
  show "c = kSuccess \<Longrightarrow> primary_copy im = sb \<and> backup_copy im = sb"
    using oc(3) reg assms(2) unfolding primary_copy_def backup_copy_def
    by (auto simp: sb_of_bytes_bytes)
qed

text \<open>C26: power failure during the double write of a super block. Whatever system call
  failed or was not reached, and whichever of the bytes not yet synced the medium kept, the
  next read of the device returns the old super block or the new one, never neither and
  never a mixture (the backup is durable before the first byte of the primary changes), as
  long as the checksum tells a torn primary from a whole one; the data region is untouched;
  and after a reported success both copies are the new block.\<close>

theorem superblock_pair_crash_safe:
  assumes wr: "WriteSuperBlockPair r sb = (c, r')"
    and wf: "sb_wf sb" and valid: "CheckSuperBlock sb = Valid"
    and synced: "rd_durable r = rd_contents r"
    and old: "CheckSuperBlock (primary_copy (rd_contents r)) = Valid"
    and crash: "crash_image r' im"
    and torn: "CheckSuperBlock (primary_copy im) = Valid \<longrightarrow>
                 primary_copy im \<in> {primary_copy (rd_contents r), sb}"
    and reboot: "healthy r2" "rd_contents r2 = im" "kDataRegionOffset \<le> size_bytes r2"
  shows "(\<exists>r3. ReadSuperBlockWithRepair r2 = (kSuccess, Some (primary_copy (rd_contents r)), r3)
             \<or> ReadSuperBlockWithRepair r2 = (kSuccess, Some sb, r3))
     \<and> (c = kSuccess \<longrightarrow> ReadSuperBlockWithRepair r2 = (kSuccess, Some sb, r2))
     \<and> (\<forall>i \<ge> kDataRegionOffset. im i = rd_contents r i)"
proof -
  note ci = pair_crash_image [OF wr wf synced crash]
  note rh = Read_healthy [OF reboot(1,3)]
  show ?thesis
  proof (cases "CheckSuperBlock (primary_copy im) = Valid")
    case True
    then show ?thesis using torn rh(1) ci(2,3) reboot(2) by auto
  next
    case False
    then have "backup_copy im = sb" using ci(1) old by auto
    then show ?thesis using False rh(2) ci(2,3) reboot(2) valid by auto
  qed
qed

lemma Read_outcome:
  assumes read: "ReadSuperBlockWithRepair r = (c, out, r')"
  shows "(c = kSuccess \<longleftrightarrow> out \<noteq> None)
     \<and> (\<forall>sb. out = Some sb \<longrightarrow> CheckSuperBlock sb = Valid
           \<and> sb \<in> {primary_copy (rd_contents r), backup_copy (rd_contents r)})
     \<and> (\<forall>i \<ge> kSuperBlockSize. rd_contents r' i = rd_contents r i)
     \<and> (rd_contents r' = rd_contents r
         \<or> c = kSuccess \<and> CheckSuperBlock (backup_copy (rd_contents r)) = Valid)
     \<and> c \<in> {kSuccess, kIoBase, kSuperBlockReadFailed, kSuperBlockMagicMismatch, kSuperBlockCrcMismatch}
     \<and> (c = kSuperBlockCrcMismatch \<longrightarrow> BadCrc \<in> {CheckSuperBlock (primary_copy (rd_contents r)),
           CheckSuperBlock (backup_copy (rd_contents r))})
     \<and> (c = kSuperBlockMagicMismatch \<longrightarrow> BadMagic \<in> {CheckSuperBlock (primary_copy (rd_contents r)),
           CheckSuperBlock (backup_copy (rd_contents r))})
     \<and> size_bytes r' = size_bytes r"
proof -
  let ?P = "primary_copy (rd_contents r)" and ?B = "backup_copy (rd_contents r)"
  obtain a r0 where a: "AllocAligned r = (a, r0)" by fastforce
  obtain c1 b1 r1 where rd1: "RawDevice_ReadAt r0 0 kSuperBlockSize = (c1, b1, r1)" by (metis prod_cases3)
  obtain c2 b2 r2 where rd2: "RawDevice_ReadAt r1 kSuperBlockSize kSuperBlockSize = (c2, b2, r2)"
    by (metis prod_cases3)
  obtain c3 r3 where w: "RawDevice_WriteAt r2 0 b2 = (c3, r3)" by fastforce
  obtain c4 r4 where s: "RawDevice_Sync r3 = (c4, r4)" by fastforce
  have sz: "size_bytes r0 = size_bytes r" "size_bytes r2 = size_bytes r"
      "size_bytes r1 = size_bytes r" "size_bytes r3 = size_bytes r" "size_bytes r4 = size_bytes r"
    using AllocAligned_frame [OF a] ReadAt_frame [OF rd1] ReadAt_frame [OF rd2]
      WriteAt_frame [OF w] Sync_frame [OF s] by simp_all
  have k0: "rd_contents r0 = rd_contents r" using AllocAligned_frame [OF a] by simp
  have k1: "rd_contents r1 = rd_contents r" using raw.rd_same [OF rd1] k0 by simp
  have k2: "rd_contents r2 = rd_contents r" using raw.rd_same [OF rd2] k1 by simp
  have P: "c1 = kSuccess \<Longrightarrow> sb_of_bytes b1 = ?P"
    using raw.rd_ok [of r0] rd1 k0 by (simp add: primary_copy_def)
  have B: "c2 = kSuccess \<Longrightarrow> sb_of_bytes b2 = ?B \<and> length b2 = kSuperBlockSize"
    using raw.rd_ok [of r1 kSuperBlockSize kSuperBlockSize b2 r2] rd2 k1 ReadAt_length [of r1]
    by (simp add: backup_copy_def)
  have o3: "rd_contents r3 i = rd_contents r i" if "c2 = kSuccess" "kSuperBlockSize \<le> i" for i
    using raw.wr_outside [OF w, of i] B that k2 by simp
  have o4: "rd_contents r4 = rd_contents r3" using raw.sync_contents [OF s] .
  note R = read [unfolded ReadSuperBlockWithRepair_def a prod.case rd1 Let_def rd2 w s snd_conv]
  consider "\<not> a" "c = kIoBase" "out = None" "r' = r0"
    | "c1 = kSuccess" "CheckSuperBlock ?P = Valid" "c = kSuccess" "out = Some ?P" "r' = r1"
    | "c2 = kSuccess" "CheckSuperBlock ?B = Valid" "c = kSuccess" "out = Some ?B" "r' \<in> {r3, r4}"
    | "out = None" "r' = r2" "c = kSuperBlockReadFailed"
    | "out = None" "r' = r2" "c = kSuperBlockMagicMismatch" "c1 = kSuccess" "CheckSuperBlock ?P = BadMagic"
    | "out = None" "r' = r2" "c = kSuperBlockMagicMismatch" "c2 = kSuccess" "CheckSuperBlock ?B = BadMagic"
    | "out = None" "r' = r2" "c = kSuperBlockCrcMismatch" "c1 = kSuccess" "CheckSuperBlock ?P = BadCrc"
    | "out = None" "r' = r2" "c = kSuperBlockCrcMismatch" "c2 = kSuccess" "CheckSuperBlock ?B = BadCrc"
    using R P B by (auto split: if_splits intro: sb_check.exhaust [of "CheckSuperBlock ?P"]
        sb_check.exhaust [of "CheckSuperBlock ?B"])
  then show ?thesis
    by cases (use k0 k1 k2 o3 o4 sz in auto)
qed

text \<open>Reading with repair, for every pattern of failing reads and writes. Success
  returns a copy that checks out and that the device really holds: the primary, or the backup
  when the primary could not be read or is not valid. Nothing outside the primary copy is
  written, and the primary only when a valid backup was found. \<open>kSuperBlockNoValid\<close> is never
  returned, a checksum or a format error needs a copy with that defect, so a device with two
  valid copies is opened or reported as unreadable, never as unformatted or corrupt.\<close>

theorem superblock_read_repair:
  assumes read: "ReadSuperBlockWithRepair r = (c, out, r')"
  shows "(c = kSuccess \<longleftrightarrow> out \<noteq> None)
     \<and> (\<forall>sb. out = Some sb \<longrightarrow> CheckSuperBlock sb = Valid
           \<and> sb \<in> {primary_copy (rd_contents r), backup_copy (rd_contents r)})
     \<and> (\<forall>i \<ge> kSuperBlockSize. rd_contents r' i = rd_contents r i)
     \<and> (rd_contents r' = rd_contents r
         \<or> c = kSuccess \<and> CheckSuperBlock (backup_copy (rd_contents r)) = Valid)
     \<and> c \<in> {kSuccess, kIoBase, kSuperBlockReadFailed, kSuperBlockMagicMismatch, kSuperBlockCrcMismatch}
     \<and> (c = kSuperBlockCrcMismatch \<longrightarrow> BadCrc \<in> {CheckSuperBlock (primary_copy (rd_contents r)),
           CheckSuperBlock (backup_copy (rd_contents r))})
     \<and> (c = kSuperBlockMagicMismatch \<longrightarrow> BadMagic \<in> {CheckSuperBlock (primary_copy (rd_contents r)),
           CheckSuperBlock (backup_copy (rd_contents r))})"
  using Read_outcome [OF read] by blast

text \<open>On a device that answers the double write succeeds, and both copies are durable.\<close>

definition pair_written :: "raw_device \<Rightarrow> super_block \<Rightarrow> raw_device" where
  "pair_written r sb =
     rd_synced (rd_update (rd_synced (rd_update r kSuperBlockSize (sb_bytes sb))) 0 (sb_bytes sb))"

lemma WriteSuperBlockPair_healthy:
  assumes "healthy r" "kDataRegionOffset \<le> size_bytes r" "sb_wf sb"
  shows "WriteSuperBlockPair r sb = (kSuccess, pair_written r sb)"
  using assms sb_bytes_length [OF assms(3)]
  by (simp add: WriteSuperBlockPair_def healthy_AllocAligned healthy_WriteAt healthy_Sync
      pair_written_def kDataRegionOffset_8K kSuperBlockSize_def)

lemma pair_written_simps [simp]:
  "healthy (pair_written r sb) = healthy r" "size_bytes (pair_written r sb) = size_bytes r"
  "rd_durable (pair_written r sb) = rd_contents (pair_written r sb)"
  by (simp_all add: pair_written_def)

lemma pair_written_copies [simp]:
  assumes "sb_wf sb"
  shows "primary_copy (rd_contents (pair_written r sb)) = sb"
    "backup_copy (rd_contents (pair_written r sb)) = sb"
  using assms sb_bytes_length [OF assms]
  by (simp_all add: pair_written_def primary_copy_def backup_copy_def sb_of_bytes_bytes
      kread_kwrite_disjoint)

definition sb_sealed :: "super_block \<Rightarrow> super_block" where
  "sb_sealed sb = sb\<lparr>sb_crc32c := ComputeCrc sb\<rparr>"

lemma sb_sealed_simps [simp]:
  "sb_wf (sb_sealed sb) = sb_wf sb"
  "sb_magic (sb_sealed sb) = sb_magic sb" "sb_version (sb_sealed sb) = sb_version sb"
  "sb_device_type (sb_sealed sb) = sb_device_type sb"
  "sb_engine_uuid (sb_sealed sb) = sb_engine_uuid sb"
  "sb_device_uuid (sb_sealed sb) = sb_device_uuid sb"
  "sb_paired_data_uuid (sb_sealed sb) = sb_paired_data_uuid sb"
  "sb_paired_wal_uuid (sb_sealed sb) = sb_paired_wal_uuid sb"
  "sb_paired_snapshot_uuid (sb_sealed sb) = sb_paired_snapshot_uuid sb"
  "sb_device_id (sb_sealed sb) = sb_device_id sb"
  "sb_block_count (sb_sealed sb) = sb_block_count sb"
  "sb_device_count (sb_sealed sb) = sb_device_count sb"
  by (simp_all add: sb_sealed_def sb_wf_def)

lemma sb_sealed_Valid:
  "sb_wf sb \<Longrightarrow> CheckSuperBlock (sb_sealed sb) = Valid
     \<longleftrightarrow> sb_magic sb = kSuperBlockMagic \<and> sb_version sb = kSuperBlockVersion"
  by (simp add: CheckSuperBlock_Valid) (simp add: sb_sealed_def)

lemma sb_zero_wf: "sb_wf sb_zero"
  by (simp add: sb_wf_def sb_zero_def kUuidBytes_def kSbReserved_def)

text \<open>A device used in the witnesses.\<close>

definition demo_sb :: "u64 \<Rightarrow> super_block" where
  "demo_sb n = sb_sealed (sb_zero\<lparr>sb_magic := kSuperBlockMagic, sb_version := kSuperBlockVersion,
     sb_block_count := n\<rparr>)"

definition demo_dev :: "nat \<Rightarrow> raw_device" where
  "demo_dev n = \<lparr>fd_open = True, size_bytes = n,
     kdev = \<lparr>kd_size = n, kd_data = (\<lambda>_. 0), kd_durable = (\<lambda>_. 0), kd_script = []\<rparr>\<rparr>"

lemma demo_sb: "sb_wf (demo_sb n)" "CheckSuperBlock (demo_sb n) = Valid" "sb_block_count (demo_sb n) = n"
proof -
  have w: "sb_wf (sb_zero\<lparr>sb_magic := kSuperBlockMagic, sb_version := kSuperBlockVersion,
     sb_block_count := n\<rparr>)" using sb_zero_wf by (simp add: sb_wf_def)
  show "sb_wf (demo_sb n)" "CheckSuperBlock (demo_sb n) = Valid" "sb_block_count (demo_sb n) = n"
    using w by (simp_all add: demo_sb_def sb_sealed_Valid)
qed

lemma demo_dev: "healthy (demo_dev n)" "size_bytes (demo_dev n) = n"
  "rd_contents (demo_dev n) = (\<lambda>_. 0)"
  by (simp_all add: demo_dev_def healthy_def rd_contents_def)

theorem superblock_pair_crash_safe_witness:
  "fst (ReadSuperBlockWithRepair (pair_written (pair_written (demo_dev 9000) (demo_sb 1)) (demo_sb 2)))
     = kSuccess
   \<and> fst (snd (ReadSuperBlockWithRepair (pair_written (pair_written (demo_dev 9000) (demo_sb 1)) (demo_sb 2))))
     = Some (demo_sb 2)"
proof -
  let ?r = "pair_written (demo_dev 9000) (demo_sb 1)"
  have sz: "kDataRegionOffset \<le> 9000" by (simp add: kDataRegionOffset_8K)
  have "WriteSuperBlockPair ?r (demo_sb 2) = (kSuccess, pair_written ?r (demo_sb 2))"
    by (rule WriteSuperBlockPair_healthy) (simp_all add: demo_dev demo_sb sz)
  then show ?thesis
    using superblock_pair_crash_safe [of ?r "demo_sb 2" kSuccess "pair_written ?r (demo_sb 2)"
        "rd_contents (pair_written ?r (demo_sb 2))" "pair_written ?r (demo_sb 2)"]
    by (simp add: demo_dev demo_sb sz crash_image_def)
qed

theorem superblock_read_repair_witness:
  "fst (ReadSuperBlockWithRepair (demo_dev 9000)) \<noteq> kSuperBlockNoValid
   \<and> fst (ReadSuperBlockWithRepair (raw_closed (kdev (demo_dev 9000)))) \<noteq> kSuperBlockNoValid"
proof -
  have "fst (ReadSuperBlockWithRepair r) \<noteq> kSuperBlockNoValid" for r
    using superblock_read_repair [of r] by (cases "ReadSuperBlockWithRepair r") auto
  then show ?thesis by simp
qed

end
