(* ===== verification/Cabe_DeviceGroup.thy ===== *)
theory Cabe_DeviceGroup
  imports Cabe_SuperBlock
begin

text \<open>
  The rest of \<open>engine/super_block.cpp\<close>: UUIDs from the kernel's entropy source, and the
  creation and recovery of a group of data, WAL and snapshot device.
\<close>

section \<open>UUIDs\<close>

text \<open>\<open>getrandom\<close> as a script of answers: interrupted, failed, or some bytes (at most as many
  as asked for). A script that ends leaves the call without an answer; the loop then fails.\<close>

datatype rand_result = RandIntr | RandErr | RandBytes bytes

fun uuid_loop :: "rand_result list \<Rightarrow> bytes \<Rightarrow> bytes option \<times> rand_result list" where
  "uuid_loop script got =
     (if length got < kUuidBytes then
        (case script of
           [] \<Rightarrow> (None, [])
         | RandIntr # rest \<Rightarrow> uuid_loop rest got
         | RandErr # rest \<Rightarrow> (None, rest)
         | RandBytes bs # rest \<Rightarrow>
             (if bs = [] then (None, rest)
              else uuid_loop rest (got @ take (kUuidBytes - length got) bs)))
      else (Some got, script))"

declare uuid_loop.simps [simp del]

definition GenerateUuid :: "rand_result list \<Rightarrow> bytes option \<times> rand_result list" where
  "GenerateUuid script = uuid_loop script []"

lemma uuid_loop_length:
  "uuid_loop script got = (Some u, rest) \<Longrightarrow> length got \<le> 16 \<Longrightarrow> length u = 16"
proof (induction script got rule: uuid_loop.induct)
  case (1 script got)
  show ?case
  proof (cases "length got < kUuidBytes")
    case True
    then show ?thesis
      using 1 by (auto simp: uuid_loop.simps [of script got] kUuidBytes_def
          split: list.splits rand_result.splits if_splits)
  qed (use 1(3,4) in \<open>simp add: uuid_loop.simps [of script got] kUuidBytes_def\<close>)
qed

lemma GenerateUuid_length: "GenerateUuid script = (Some u, rest) \<Longrightarrow> length u = 16"
  unfolding GenerateUuid_def by (drule uuid_loop_length) simp_all

text \<open>The bytes of a UUID are the bytes the entropy source delivered, in order.\<close>

fun delivered :: "rand_result list \<Rightarrow> bytes" where
  "delivered [] = []"
| "delivered (RandBytes bs # rest) = bs @ delivered rest"
| "delivered (_ # rest) = delivered rest"

lemma uuid_loop_delivered:
  "uuid_loop script got = (Some u, rest) \<Longrightarrow> length got \<le> 16 \<Longrightarrow> u = take 16 (got @ delivered script)"
proof (induction script got rule: uuid_loop.induct)
  case (1 script got)
  have tk: "take 16 (got @ take (16 - length got) bs @ ys) = take 16 (got @ bs @ ys)"
    for bs ys :: bytes by (cases "length bs \<le> 16 - length got") (simp_all add: min_def)
  show ?case
  proof (cases "length got < kUuidBytes")
    case True
    then show ?thesis
      using 1 by (auto simp: uuid_loop.simps [of script got] kUuidBytes_def tk
          simp del: take_append split: list.splits rand_result.splits if_splits)
  qed (use 1(3,4) in \<open>simp add: uuid_loop.simps [of script got] kUuidBytes_def\<close>)
qed

lemma GenerateUuid_delivered:
  "GenerateUuid script = (Some u, rest) \<Longrightarrow> u = take 16 (delivered script)"
  unfolding GenerateUuid_def by (drule uuid_loop_delivered) simp_all

section \<open>Device groups\<close>

text \<open>The three devices of a group (\<open>DeviceConfig\<close>'s paths), and the handles the two
  functions open on them; a function's return closes its handles, so it gives back the
  devices.\<close>

record device_group =
  g_data :: kdev
  g_wal :: kdev
  g_snap :: kdev

record group_handles =
  h_data :: raw_device
  h_wal :: raw_device
  h_snap :: raw_device

definition group_of :: "group_handles \<Rightarrow> device_group" where
  "group_of h = \<lparr>g_data = kdev (h_data h), g_wal = kdev (h_wal h), g_snap = kdev (h_snap h)\<rparr>"

text \<open>The opening lines both functions share: open data, WAL, snapshot, then check sizes.\<close>

definition OpenGroup :: "device_group \<Rightarrow> rc \<times> group_handles" where
  "OpenGroup g =
     (case RawDevice_Open (raw_closed (g_data g)) of (c1, d) \<Rightarrow>
      if c1 \<noteq> kSuccess
      then (kIoBase, \<lparr>h_data = d, h_wal = raw_closed (g_wal g), h_snap = raw_closed (g_snap g)\<rparr>) else
      case RawDevice_Open (raw_closed (g_wal g)) of (c2, w) \<Rightarrow>
      if c2 \<noteq> kSuccess
      then (kIoBase, \<lparr>h_data = d, h_wal = w, h_snap = raw_closed (g_snap g)\<rparr>) else
      case RawDevice_Open (raw_closed (g_snap g)) of (c3, s) \<Rightarrow>
      if c3 \<noteq> kSuccess then (kIoBase, \<lparr>h_data = d, h_wal = w, h_snap = s\<rparr>)
      else if RawDevice_SizeBytes d < kDataRegionOffset + kValueSize
           \<or> RawDevice_SizeBytes w < kDataRegionOffset
           \<or> RawDevice_SizeBytes s < kDataRegionOffset
      then (kEngineInvalidOpts, \<lparr>h_data = d, h_wal = w, h_snap = s\<rparr>)
      else (kSuccess, \<lparr>h_data = d, h_wal = w, h_snap = s\<rparr>))"

definition data_blocks :: "raw_device \<Rightarrow> nat" where
  "data_blocks d = (RawDevice_SizeBytes d - kDataRegionOffset) div kValueSize"

definition GroupUuids :: "rand_result list \<Rightarrow> (bytes \<times> bytes \<times> bytes \<times> bytes) option" where
  "GroupUuids s0 =
     (case GenerateUuid s0 of (None, _) \<Rightarrow> None | (Some e, s1) \<Rightarrow>
      case GenerateUuid s1 of (None, _) \<Rightarrow> None | (Some d, s2) \<Rightarrow>
      case GenerateUuid s2 of (None, _) \<Rightarrow> None | (Some w, s3) \<Rightarrow>
      case GenerateUuid s3 of (None, _) \<Rightarrow> None | (Some s, _) \<Rightarrow> Some (e, d, w, s))"

text \<open>The header fields all three super blocks set alike.\<close>

definition sb_common :: "device_type \<Rightarrow> bytes \<Rightarrow> bytes \<Rightarrow> u64 \<Rightarrow> u64 \<Rightarrow> u64 \<Rightarrow> super_block" where
  "sb_common t engine_uuid uuid device_id device_count now =
     sb_zero\<lparr>sb_magic := kSuperBlockMagic, sb_version := kSuperBlockVersion,
       sb_device_type := device_type_word t, sb_engine_uuid := engine_uuid,
       sb_device_uuid := uuid, sb_device_id := device_id, sb_device_count := device_count,
       sb_created_at := now\<rparr>"

definition make_data_sb ::
  "bytes \<times> bytes \<times> bytes \<times> bytes \<Rightarrow> nat \<Rightarrow> u64 \<Rightarrow> u64 \<Rightarrow> u64 \<Rightarrow> super_block" where
  "make_data_sb u block_count device_id device_count now =
     (case u of (e, d, w, s) \<Rightarrow> sb_sealed ((sb_common Data e d device_id device_count now)
        \<lparr>sb_paired_wal_uuid := w, sb_paired_snapshot_uuid := s,
         sb_block_count := of_nat block_count\<rparr>))"

definition make_wal_sb ::
  "bytes \<times> bytes \<times> bytes \<times> bytes \<Rightarrow> u64 \<Rightarrow> u64 \<Rightarrow> u64 \<Rightarrow> super_block" where
  "make_wal_sb u device_id device_count now =
     (case u of (e, d, w, s) \<Rightarrow> sb_sealed ((sb_common Wal e w device_id device_count now)
        \<lparr>sb_paired_data_uuid := d\<rparr>))"

definition make_snap_sb ::
  "bytes \<times> bytes \<times> bytes \<times> bytes \<Rightarrow> u64 \<Rightarrow> u64 \<Rightarrow> u64 \<Rightarrow> super_block" where
  "make_snap_sb u device_id device_count now =
     (case u of (e, d, w, s) \<Rightarrow> sb_sealed ((sb_common Snapshot e s device_id device_count now)
        \<lparr>sb_paired_data_uuid := d\<rparr>))"

definition CreateDeviceGroup ::
  "device_group \<Rightarrow> rand_result list \<Rightarrow> u64 \<Rightarrow> u64 \<Rightarrow> u64
     \<Rightarrow> rc \<times> super_block option \<times> device_group" where
  "CreateDeviceGroup g entropy now device_id device_count =
     (case OpenGroup g of (c, h) \<Rightarrow>
      if c \<noteq> kSuccess then (c, None, group_of h) else
      case GroupUuids entropy of None \<Rightarrow> (kSuperBlockEntropyFailure, None, group_of h)
      | Some u \<Rightarrow>
      let data_sb = make_data_sb u (data_blocks (h_data h)) device_id device_count now in
      case WriteSuperBlockPair (h_wal h) (make_wal_sb u device_id device_count now) of (c1, w) \<Rightarrow>
      let h1 = h\<lparr>h_wal := w\<rparr> in
      if c1 \<noteq> kSuccess then (kIoBase, None, group_of h1) else
      case WriteSuperBlockPair (h_snap h1) (make_snap_sb u device_id device_count now) of (c2, s) \<Rightarrow>
      let h2 = h1\<lparr>h_snap := s\<rparr> in
      if c2 \<noteq> kSuccess then (kIoBase, None, group_of h2) else
      case WriteSuperBlockPair (h_data h2) data_sb of (c3, d) \<Rightarrow>
      let h3 = h2\<lparr>h_data := d\<rparr> in
      if c3 \<noteq> kSuccess then (kIoBase, None, group_of h3)
      else (kSuccess, Some data_sb, group_of h3))"

text \<open>The checks of \<open>RecoverDeviceGroup\<close> on the three super blocks, in the code's order.\<close>

definition CheckDeviceGroup ::
  "super_block \<Rightarrow> super_block \<Rightarrow> super_block \<Rightarrow> u64 \<Rightarrow> u64 \<Rightarrow> nat \<Rightarrow> rc" where
  "CheckDeviceGroup data wal snap device_id device_count actual_blocks =
     (if sb_device_type data \<noteq> device_type_word Data
         \<or> sb_device_type wal \<noteq> device_type_word Wal
         \<or> sb_device_type snap \<noteq> device_type_word Snapshot then kSuperBlockDeviceTypeMismatch
      else if \<not> UuidEqual (sb_engine_uuid data) (sb_engine_uuid wal)
         \<or> \<not> UuidEqual (sb_engine_uuid data) (sb_engine_uuid snap) then kSuperBlockEngineUuidMismatch
      else if \<not> UuidEqual (sb_paired_wal_uuid data) (sb_device_uuid wal)
         \<or> \<not> UuidEqual (sb_paired_data_uuid wal) (sb_device_uuid data)
         \<or> \<not> UuidEqual (sb_paired_snapshot_uuid data) (sb_device_uuid snap)
         \<or> \<not> UuidEqual (sb_paired_data_uuid snap) (sb_device_uuid data) then kSuperBlockPairMismatch
      else if sb_device_id data \<noteq> device_id \<or> sb_device_id wal \<noteq> device_id
         \<or> sb_device_id snap \<noteq> device_id then kSuperBlockDeviceIdMismatch
      else if sb_device_count data \<noteq> device_count \<or> sb_device_count wal \<noteq> device_count
         \<or> sb_device_count snap \<noteq> device_count then kSuperBlockDeviceCountMismatch
      else if unat (sb_block_count data) > actual_blocks then kSuperBlockSizeMismatch
      else kSuccess)"

definition RecoverDeviceGroup ::
  "device_group \<Rightarrow> u64 \<Rightarrow> u64 \<Rightarrow> rc \<times> super_block option \<times> device_group" where
  "RecoverDeviceGroup g device_id device_count =
     (case OpenGroup g of (c, h) \<Rightarrow>
      if c \<noteq> kSuccess then (c, None, group_of h) else
      case ReadSuperBlockWithRepair (h_data h) of (c1, o1, d) \<Rightarrow>
      let h1 = h\<lparr>h_data := d\<rparr> in
      case o1 of None \<Rightarrow> (c1, None, group_of h1) | Some data_sb \<Rightarrow>
      case ReadSuperBlockWithRepair (h_wal h1) of (c2, o2, w) \<Rightarrow>
      let h2 = h1\<lparr>h_wal := w\<rparr> in
      case o2 of None \<Rightarrow> (c2, None, group_of h2) | Some wal_sb \<Rightarrow>
      case ReadSuperBlockWithRepair (h_snap h2) of (c3, o3, s) \<Rightarrow>
      let h3 = h2\<lparr>h_snap := s\<rparr> in
      case o3 of None \<Rightarrow> (c3, None, group_of h3) | Some snap_sb \<Rightarrow>
      let rc = CheckDeviceGroup data_sb wal_sb snap_sb device_id device_count (data_blocks (h_data h3)) in
      if rc \<noteq> kSuccess then (rc, None, group_of h3)
      else (kSuccess, Some data_sb, group_of h3))"

section \<open>Facts about groups\<close>

lemma GroupUuids_lengths:
  "GroupUuids script = Some (e, d, w, s) \<Longrightarrow>
   length e = 16 \<and> length d = 16 \<and> length w = 16 \<and> length s = 16"
  by (auto simp: GroupUuids_def dest: GenerateUuid_length split: prod.splits option.splits)

lemma make_sb_props:
  assumes "GroupUuids script = Some u"
  shows "sb_wf (make_data_sb u n i c t)" "CheckSuperBlock (make_data_sb u n i c t) = Valid"
    "sb_wf (make_wal_sb u i c t)" "CheckSuperBlock (make_wal_sb u i c t) = Valid"
    "sb_wf (make_snap_sb u i c t)" "CheckSuperBlock (make_snap_sb u i c t) = Valid"
proof -
  obtain e d w s where u: "u = (e, d, w, s)" by (cases u) auto
  note l = GroupUuids_lengths [OF assms [unfolded u]]
  have wf: "sb_wf (sb_common ty e d' i c t)" if "length d' = 16" for ty d'
    using sb_zero_wf l that by (simp add: sb_common_def sb_wf_def)
  note wfs = wf [of d Data] wf [of w Wal] wf [of s Snapshot]
  have "sb_wf ((sb_common Data e d i c t)\<lparr>sb_paired_wal_uuid := w, sb_paired_snapshot_uuid := s,
      sb_block_count := of_nat n\<rparr>)"
    "sb_wf ((sb_common Wal e w i c t)\<lparr>sb_paired_data_uuid := d\<rparr>)"
    "sb_wf ((sb_common Snapshot e s i c t)\<lparr>sb_paired_data_uuid := d\<rparr>)"
    using wfs l by (simp_all add: sb_wf_def)
  then show "sb_wf (make_data_sb u n i c t)" "CheckSuperBlock (make_data_sb u n i c t) = Valid"
    "sb_wf (make_wal_sb u i c t)" "CheckSuperBlock (make_wal_sb u i c t) = Valid"
    "sb_wf (make_snap_sb u i c t)" "CheckSuperBlock (make_snap_sb u i c t) = Valid"
    by (simp_all add: u make_data_sb_def make_wal_sb_def make_snap_sb_def sb_sealed_Valid
        sb_common_def)
qed

lemmas make_sb_defs = make_data_sb_def make_wal_sb_def make_snap_sb_def sb_common_def

text \<open>What the checks accept for the blocks create makes.\<close>

lemma CheckDeviceGroup_made:
  "CheckDeviceGroup (make_data_sb u n i c t) (make_wal_sb u i c t) (make_snap_sb u i c t) i' c' m
     = (if i \<noteq> i' then kSuperBlockDeviceIdMismatch
        else if c \<noteq> c' then kSuperBlockDeviceCountMismatch
        else if unat (of_nat n :: u64) > m then kSuperBlockSizeMismatch else kSuccess)"
  by (cases u) (simp add: make_sb_defs CheckDeviceGroup_def UuidEqual_def)

text \<open>A group whose devices answer and are large enough, and the handles opened on it.\<close>

definition group_ok :: "device_group \<Rightarrow> bool" where
  "group_ok g \<longleftrightarrow> kd_script (g_data g) = [] \<and> kd_script (g_wal g) = [] \<and> kd_script (g_snap g) = []
     \<and> kDataRegionOffset + kValueSize \<le> kd_size (g_data g)
     \<and> kDataRegionOffset \<le> kd_size (g_wal g) \<and> kDataRegionOffset \<le> kd_size (g_snap g)"

definition opened :: "kdev \<Rightarrow> raw_device" where
  "opened d = \<lparr>fd_open = True, size_bytes = kd_size d, kdev = d\<rparr>"

lemma opened_simps [simp]:
  "kdev (opened d) = d" "size_bytes (opened d) = kd_size d" "fd_open (opened d)"
  "healthy (opened d) \<longleftrightarrow> kd_script d = []" "rd_contents (opened d) = kd_data d"
  "rd_durable (opened d) = kd_durable d"
  by (simp_all add: opened_def healthy_def rd_contents_def rd_durable_def)

lemma healthy_kdev:
  "healthy r \<Longrightarrow> kd_script (kdev r) = [] \<and> kd_size (kdev r) = size_bytes r \<and> opened (kdev r) = r"
  by (simp add: healthy_def opened_def)

lemma OpenGroup_ok:
  "group_ok g \<Longrightarrow> OpenGroup g = (kSuccess,
     \<lparr>h_data = opened (g_data g), h_wal = opened (g_wal g), h_snap = opened (g_snap g)\<rparr>)"
  by (simp add: OpenGroup_def group_ok_def healthy_Open opened_def RawDevice_SizeBytes_def)

text \<open>The group create leaves behind, and the result of recovering a group of valid devices.\<close>

definition created_group ::
  "device_group \<Rightarrow> bytes \<times> bytes \<times> bytes \<times> bytes \<Rightarrow> u64 \<Rightarrow> u64 \<Rightarrow> u64 \<Rightarrow> device_group" where
  "created_group g u now i c =
     \<lparr>g_data = kdev (pair_written (opened (g_data g))
        (make_data_sb u (data_blocks (opened (g_data g))) i c now)),
      g_wal = kdev (pair_written (opened (g_wal g)) (make_wal_sb u i c now)),
      g_snap = kdev (pair_written (opened (g_snap g)) (make_snap_sb u i c now))\<rparr>"

lemma group_ok_sizes:
  assumes "group_ok g"
  shows "kDataRegionOffset \<le> kd_size (g_data g)" "kDataRegionOffset \<le> kd_size (g_wal g)"
    "kDataRegionOffset \<le> kd_size (g_snap g)"
  using assms by (simp_all add: group_ok_def)

lemma CreateDeviceGroup_ok:
  assumes "group_ok g" "GroupUuids entropy = Some u"
  shows "CreateDeviceGroup g entropy now i c =
    (kSuccess, Some (make_data_sb u (data_blocks (opened (g_data g))) i c now),
     created_group g u now i c)"
  using assms make_sb_props [OF assms(2)] group_ok_sizes [OF assms(1)]
  by (simp add: CreateDeviceGroup_def OpenGroup_ok WriteSuperBlockPair_healthy group_ok_def
      group_of_def created_group_def Let_def)

lemma created_group_ok:
  assumes "group_ok g"
  shows "group_ok (created_group g u now i c)"
proof -
  have s: "kd_script (kdev (pair_written (opened d) sb)) = kd_script d"
      "kd_size (kdev (pair_written (opened d) sb)) = kd_size d" for d sb
    by (simp_all add: pair_written_def rd_synced_def rd_update_def)
  show ?thesis using assms by (simp add: group_ok_def created_group_def s)
qed

lemma kd_pair_written [simp]:
  "kd_data (kdev (pair_written r sb)) = rd_contents (pair_written r sb)"
  "kd_durable (kdev (pair_written r sb)) = rd_contents (pair_written r sb)"
  "kd_size (kdev (pair_written r sb)) = kd_size (kdev r)"
  "kd_script (kdev (pair_written r sb)) = kd_script (kdev r)"
  by (simp_all add: rd_contents_def pair_written_def rd_synced_def rd_update_def)

lemma RecoverDeviceGroup_valid:
  assumes "group_ok g" "CheckSuperBlock (primary_copy (kd_data (g_data g))) = Valid"
    "CheckSuperBlock (primary_copy (kd_data (g_wal g))) = Valid"
    "CheckSuperBlock (primary_copy (kd_data (g_snap g))) = Valid"
  shows "RecoverDeviceGroup g i c =
    (let rc = CheckDeviceGroup (primary_copy (kd_data (g_data g))) (primary_copy (kd_data (g_wal g)))
           (primary_copy (kd_data (g_snap g))) i c (data_blocks (opened (g_data g)))
     in (rc, if rc = kSuccess then Some (primary_copy (kd_data (g_data g))) else None, g))"
  using assms group_ok_sizes [OF assms(1)]
  by (simp add: RecoverDeviceGroup_def OpenGroup_ok group_ok_def Read_healthy Let_def group_of_def)

lemma created_group_copies:
  assumes "GroupUuids entropy = Some u"
  shows "primary_copy (kd_data (g_data (created_group g u now i c)))
           = make_data_sb u (data_blocks (opened (g_data g))) i c now"
    "primary_copy (kd_data (g_wal (created_group g u now i c))) = make_wal_sb u i c now"
    "primary_copy (kd_data (g_snap (created_group g u now i c))) = make_snap_sb u i c now"
  using make_sb_props [OF assms] by (simp_all add: created_group_def)

lemma created_group_blocks [simp]:
  "data_blocks (opened (g_data (created_group g u now i c))) = data_blocks (opened (g_data g))"
  by (simp add: data_blocks_def RawDevice_SizeBytes_def created_group_def)

lemma Recover_created:
  assumes "group_ok g" "GroupUuids entropy = Some u"
  shows "RecoverDeviceGroup (created_group g u now i c) i' c' =
    (let n = data_blocks (opened (g_data g)); sb = make_data_sb u n i c now;
         rc = (if i \<noteq> i' then kSuperBlockDeviceIdMismatch
               else if c \<noteq> c' then kSuperBlockDeviceCountMismatch
               else if unat (of_nat n :: u64) > n then kSuperBlockSizeMismatch else kSuccess)
     in (rc, if rc = kSuccess then Some sb else None, created_group g u now i c))"
  using RecoverDeviceGroup_valid [OF created_group_ok [OF assms(1)], of u now i c i' c']
    make_sb_props [OF assms(2)]
  by (simp add: created_group_copies [OF assms(2)] CheckDeviceGroup_made)

text \<open>C27: creating a group and recovering it. On three devices that answer and are large
  enough, create succeeds, everything it wrote is durable, the data region is untouched, and
  recovering with the same device number and group size succeeds with the super block create
  returned, whose block count is the number of whole 1 MiB blocks behind the 8 KiB header;
  with another device number, or another group size, the group is refused with the code for
  exactly that.\<close>

theorem create_recover_group:
  assumes "group_ok g" "GroupUuids entropy = Some u"
  shows "\<exists>sb g'. CreateDeviceGroup g entropy now i c = (kSuccess, Some sb, g')
     \<and> RecoverDeviceGroup g' i c = (kSuccess, Some sb, g')
     \<and> sb_block_count sb = of_nat ((kd_size (g_data g) - kDataRegionOffset) div kValueSize)
     \<and> (\<forall>i' c'. i' \<noteq> i \<longrightarrow> fst (RecoverDeviceGroup g' i' c') = kSuperBlockDeviceIdMismatch)
     \<and> (\<forall>c'. c' \<noteq> c \<longrightarrow> fst (RecoverDeviceGroup g' i c') = kSuperBlockDeviceCountMismatch)
     \<and> (\<forall>d\<in>{g_data g', g_wal g', g_snap g'}. kd_durable d = kd_data d)
     \<and> (\<forall>k \<ge> kDataRegionOffset. kd_data (g_data g') k = kd_data (g_data g) k)"
proof -
  let ?n = "data_blocks (opened (g_data g))"
  have le: "unat (of_nat ?n :: u64) \<le> ?n"
    by (simp add: unat_of_nat)
  have same: "rd_contents (pair_written r sb) k = rd_contents r k"
    if "sb_wf sb" "kDataRegionOffset \<le> k" for r sb k
    using sb_bytes_length [OF that(1)] that(2)
    by (simp add: pair_written_def kwrite_outside kDataRegionOffset_8K kSuperBlockSize_def)
  show ?thesis
    using CreateDeviceGroup_ok [OF assms, of now i c] Recover_created [OF assms, of now i c] le
      make_sb_props [OF assms(2)]
    by (cases u) (simp add: Let_def created_group_def same,
      simp add: make_data_sb_def sb_common_def data_blocks_def RawDevice_SizeBytes_def)
qed

text \<open>The same device used in a wrong role or with the wrong partners.\<close>

lemma Recover_mixed:
  assumes "group_ok g" "group_ok h" "GroupUuids e1 = Some u" "GroupUuids e2 = Some v"
    and GH: "G = created_group g u t1 i c" "H = created_group h v t2 j k"
  shows "group_ok m \<Longrightarrow> g_data m = g_data G \<Longrightarrow> g_wal m = g_wal H \<Longrightarrow> fst u \<noteq> fst v \<Longrightarrow>
      g_snap m \<in> {g_snap G, g_snap H} \<Longrightarrow>
      RecoverDeviceGroup m i' c' = (kSuperBlockEngineUuidMismatch, None, m)"
    and "group_ok m \<Longrightarrow> g_data m = g_data G \<Longrightarrow> g_snap m = g_snap H \<Longrightarrow> fst u \<noteq> fst v \<Longrightarrow>
      g_wal m \<in> {g_wal G, g_wal H} \<Longrightarrow>
      RecoverDeviceGroup m i' c' = (kSuperBlockEngineUuidMismatch, None, m)"
    and "group_ok m \<Longrightarrow> g_data m = g_data G \<Longrightarrow> g_wal m = g_snap G \<Longrightarrow> g_snap m = g_wal G \<Longrightarrow>
      RecoverDeviceGroup m i' c' = (kSuperBlockDeviceTypeMismatch, None, m)"
  using RecoverDeviceGroup_valid [of m i' c'] make_sb_props [OF assms(3)] make_sb_props [OF assms(4)]
    created_group_copies [OF assms(3), of g t1 i c] created_group_copies [OF assms(4), of h t2 j k]
  by (cases u; cases v; auto simp: GH CheckDeviceGroup_def make_sb_defs UuidEqual_def
      device_type_word_def)+

text \<open>C28: devices of different groups, or in wrong roles, are never opened together. For two
  groups created with different engine UUIDs, any data device combined with a WAL or a
  snapshot device of the other group is refused for its engine UUID, and a group whose WAL and
  snapshot devices are exchanged is refused for the device type; nothing is written.\<close>

theorem recover_rejects_foreign_devices:
  assumes "group_ok g" "group_ok h" "GroupUuids e1 = Some u" "GroupUuids e2 = Some v"
    and "CreateDeviceGroup g e1 t1 i c = (kSuccess, Some sb1, G)"
    and "CreateDeviceGroup h e2 t2 j k = (kSuccess, Some sb2, H)"
    and "fst u \<noteq> fst v"
  shows "RecoverDeviceGroup \<lparr>g_data = g_data G, g_wal = g_wal H, g_snap = g_snap G\<rparr> i c
         = (kSuperBlockEngineUuidMismatch, None, \<lparr>g_data = g_data G, g_wal = g_wal H, g_snap = g_snap G\<rparr>)
     \<and> RecoverDeviceGroup \<lparr>g_data = g_data G, g_wal = g_wal G, g_snap = g_snap H\<rparr> i c
         = (kSuperBlockEngineUuidMismatch, None, \<lparr>g_data = g_data G, g_wal = g_wal G, g_snap = g_snap H\<rparr>)
     \<and> RecoverDeviceGroup \<lparr>g_data = g_data G, g_wal = g_wal H, g_snap = g_snap H\<rparr> i c
         = (kSuperBlockEngineUuidMismatch, None, \<lparr>g_data = g_data G, g_wal = g_wal H, g_snap = g_snap H\<rparr>)
     \<and> RecoverDeviceGroup \<lparr>g_data = g_data G, g_wal = g_snap G, g_snap = g_wal G\<rparr> i c
         = (kSuperBlockDeviceTypeMismatch, None, \<lparr>g_data = g_data G, g_wal = g_snap G, g_snap = g_wal G\<rparr>)"
proof -
  have GH: "G = created_group g u t1 i c" "H = created_group h v t2 j k"
    using assms CreateDeviceGroup_ok [of g e1 u t1 i c] CreateDeviceGroup_ok [of h e2 v t2 j k]
    by simp_all
  have ok: "group_ok G" "group_ok H" using GH assms(1,2) created_group_ok by simp_all
  show ?thesis
    using Recover_mixed [OF assms(1-4) GH, of _ i c] ok assms(7)
    by (simp add: group_ok_def)
qed

section \<open>For every pattern of failures\<close>

lemma OpenGroup_cases:
  assumes "OpenGroup g = (c, h)"
  shows "rd_contents (h_data h) = kd_data (g_data g)" "rd_contents (h_wal h) = kd_data (g_wal g)"
    "rd_contents (h_snap h) = kd_data (g_snap g)" "rd_durable (h_data h) = kd_durable (g_data g)"
    and "c = kSuccess \<Longrightarrow> size_bytes (h_data h) = kd_size (g_data g)
           \<and> kDataRegionOffset + kValueSize \<le> kd_size (g_data g)"
proof -
  obtain c1 d where d: "RawDevice_Open (raw_closed (g_data g)) = (c1, d)" by fastforce
  obtain c2 w where w: "RawDevice_Open (raw_closed (g_wal g)) = (c2, w)" by fastforce
  obtain c3 s where s: "RawDevice_Open (raw_closed (g_snap g)) = (c3, s)" by fastforce
  note O = assms [unfolded OpenGroup_def d w s prod.case]
  note oc = Open_cases [OF d] Open_cases [OF w] Open_cases [OF s]
  have cl: "kd_data (kdev (raw_closed x)) = kd_data x" "kd_durable (kdev (raw_closed x)) = kd_durable x"
    for x by (simp_all add: raw_closed_def)
  show "rd_contents (h_data h) = kd_data (g_data g)" "rd_contents (h_wal h) = kd_data (g_wal g)"
    "rd_contents (h_snap h) = kd_data (g_snap g)" "rd_durable (h_data h) = kd_durable (g_data g)"
    using O oc cl by (auto simp: rd_contents_def rd_durable_def split: if_splits)
  show "c = kSuccess \<Longrightarrow> size_bytes (h_data h) = kd_size (g_data g)
           \<and> kDataRegionOffset + kValueSize \<le> kd_size (g_data g)"
    using O oc by (auto simp: RawDevice_SizeBytes_def split: if_splits)
qed

lemma Read_Some:
  assumes "ReadSuperBlockWithRepair r = (c, Some sb, r')"
  shows "CheckSuperBlock sb = Valid"
    "sb \<in> {primary_copy (rd_contents r), backup_copy (rd_contents r)}"
  using Read_outcome [OF assms] by blast+

lemma Read_size: "ReadSuperBlockWithRepair r = (c, out, r') \<Longrightarrow> size_bytes r' = size_bytes r"
  using Read_outcome by blast

text \<open>The super blocks a device holds, valid or not.\<close>

definition held :: "kdev \<Rightarrow> super_block set" where
  "held d = {primary_copy (kd_data d), backup_copy (kd_data d)}"

text \<open>A successful recovery, whatever reads failed on the way, has found on each of the
  three devices a valid super block of the right type, the three of one engine, paired both
  ways, for the device number and the group size asked for, and every block the data device
  claims to have lies inside the device as it is now.\<close>

theorem recover_group_sound:
  assumes "RecoverDeviceGroup g i c = (kSuccess, Some sb, g')"
  shows "\<exists>w \<in> held (g_wal g). \<exists>s \<in> held (g_snap g). sb \<in> held (g_data g)
     \<and> CheckSuperBlock sb = Valid \<and> CheckSuperBlock w = Valid \<and> CheckSuperBlock s = Valid
     \<and> sb_device_type sb = device_type_word Data \<and> sb_device_type w = device_type_word Wal
     \<and> sb_device_type s = device_type_word Snapshot
     \<and> sb_engine_uuid sb = sb_engine_uuid w \<and> sb_engine_uuid sb = sb_engine_uuid s
     \<and> sb_paired_wal_uuid sb = sb_device_uuid w \<and> sb_paired_data_uuid w = sb_device_uuid sb
     \<and> sb_paired_snapshot_uuid sb = sb_device_uuid s \<and> sb_paired_data_uuid s = sb_device_uuid sb
     \<and> (\<forall>x\<in>{sb, w, s}. sb_device_id x = i \<and> sb_device_count x = c)
     \<and> kDataRegionOffset + unat (sb_block_count sb) * kValueSize \<le> kd_size (g_data g)"
proof -
  obtain oc h where og: "OpenGroup g = (oc, h)" by fastforce
  obtain c1 o1 d where r1: "ReadSuperBlockWithRepair (h_data h) = (c1, o1, d)" by (metis prod_cases3)
  obtain c2 o2 w where r2: "ReadSuperBlockWithRepair (h_wal h) = (c2, o2, w)" by (metis prod_cases3)
  obtain c3 o3 s where r3: "ReadSuperBlockWithRepair (h_snap h) = (c3, o3, s)" by (metis prod_cases3)
  note R = assms [unfolded RecoverDeviceGroup_def og prod.case r1 Let_def]
  obtain wsb ssb where ok: "oc = kSuccess" "o1 = Some sb" "o2 = Some wsb" "o3 = Some ssb"
    "CheckDeviceGroup sb wsb ssb i c (data_blocks d) = kSuccess"
    using R r2 r3 by (auto split: if_splits option.splits)
  note cg = OpenGroup_cases [OF og]
  have held: "sb \<in> held (g_data g)" "wsb \<in> held (g_wal g)" "ssb \<in> held (g_snap g)"
    using Read_Some(2) r1 r2 r3 ok cg unfolding held_def by metis+
  have valid: "CheckSuperBlock sb = Valid" "CheckSuperBlock wsb = Valid" "CheckSuperBlock ssb = Valid"
    using Read_Some(1) r1 r2 r3 ok by metis+
  have "unat (sb_block_count sb) \<le> (kd_size (g_data g) - kDataRegionOffset) div kValueSize"
    using ok(5) Read_size [OF r1] cg(5) [OF ok(1)]
    by (simp add: CheckDeviceGroup_def data_blocks_def RawDevice_SizeBytes_def split: if_splits)
  then have "unat (sb_block_count sb) * kValueSize
      \<le> (kd_size (g_data g) - kDataRegionOffset) div kValueSize * kValueSize"
    by (rule mult_le_mono1)
  also have "\<dots> \<le> kd_size (g_data g) - kDataRegionOffset" by simp
  finally have "kDataRegionOffset + unat (sb_block_count sb) * kValueSize \<le> kd_size (g_data g)"
    using conjunct2 [OF cg(5) [OF ok(1)]] by linarith
  then show ?thesis
    using ok(5) held valid
    by (intro bexI [of _ wsb] bexI [of _ ssb])
      (simp_all add: CheckDeviceGroup_def UuidEqual_def split: if_splits)
qed

text \<open>The order in which create writes the group, for every pattern of failing calls. As
  soon as one byte of the data device has changed, the WAL and the snapshot device carry
  durable, valid super blocks in both copies, paired with each other's data device, so a torn
  create leaves no data device without its partners; a failed create reports no super block.\<close>

theorem create_group_order:
  assumes "CreateDeviceGroup g entropy now i c = (rc, out, g')"
  shows "(rc = kSuccess \<longleftrightarrow> out \<noteq> None)
    \<and> (kd_data (g_data g') \<noteq> kd_data (g_data g) \<or> rc = kSuccess \<longrightarrow>
        (\<exists>u. GroupUuids entropy = Some u
           \<and> kd_durable (g_wal g') = kd_data (g_wal g')
           \<and> held (g_wal g') = {make_wal_sb u i c now}
           \<and> kd_durable (g_snap g') = kd_data (g_snap g')
           \<and> held (g_snap g') = {make_snap_sb u i c now}))
    \<and> (\<forall>sb. out = Some sb \<longrightarrow> held (g_data g') = {sb} \<and> kd_durable (g_data g') = kd_data (g_data g'))"
proof -
  obtain oc h where og: "OpenGroup g = (oc, h)" by fastforce
  note cg = OpenGroup_cases [OF og]
  note C = assms [unfolded CreateDeviceGroup_def og prod.case Let_def]
  show ?thesis
  proof (cases "oc = kSuccess \<and> GroupUuids entropy \<noteq> None")
    case False
    then have "kd_data (g_data g') = kd_data (g_data g)" "rc \<noteq> kSuccess" "out = None"
      using C cg by (cases "oc = kSuccess"; cases "GroupUuids entropy";
        auto simp: group_of_def rd_contents_def)+
    then show ?thesis by simp
  next
    case True
    then obtain u where u: "GroupUuids entropy = Some u" and oc: "oc = kSuccess" by auto
    note wf = make_sb_props [OF u]
    let ?dsb = "make_data_sb u (data_blocks (h_data h)) i c now"
    obtain c1 w where w1: "WriteSuperBlockPair (h_wal h) (make_wal_sb u i c now) = (c1, w)" by fastforce
    obtain c2 s where w2: "WriteSuperBlockPair (h_snap h) (make_snap_sb u i c now) = (c2, s)" by fastforce
    obtain c3 d where w3: "WriteSuperBlockPair (h_data h) ?dsb = (c3, d)" by fastforce
    have pair: "kd_durable (kdev r') = kd_data (kdev r') \<and> held (kdev r') = {sb}"
      if "WriteSuperBlockPair r sb = (kSuccess, r')" "sb_wf sb" for r r' sb
      using WriteSuperBlockPair_outcome(3) [OF that refl] that(2)
      by (simp add: held_def primary_copy_def backup_copy_def rd_contents_def rd_durable_def
          sb_of_bytes_bytes)
    show ?thesis
      using C u oc w1 w2 w3 cg(1) pair wf
      by (auto simp: group_of_def rd_contents_def split: if_splits)
  qed
qed

section \<open>Concrete groups\<close>

definition demo_entropy :: "u8 \<Rightarrow> rand_result list" where
  "demo_entropy k = [RandIntr, RandBytes (replicate 16 k), RandBytes (replicate 16 (k + 1)),
     RandBytes (replicate 16 (k + 2)), RandBytes (replicate 16 (k + 3))]"

definition demo_kdev :: "nat \<Rightarrow> kdev" where
  "demo_kdev n = \<lparr>kd_size = n, kd_data = (\<lambda>_. 0), kd_durable = (\<lambda>_. 0), kd_script = []\<rparr>"

definition demo_group :: device_group where
  "demo_group = \<lparr>g_data = demo_kdev 5000000, g_wal = demo_kdev 20000, g_snap = demo_kdev 20000\<rparr>"

definition demo_uuids :: "u8 \<Rightarrow> bytes \<times> bytes \<times> bytes \<times> bytes" where
  "demo_uuids k = (replicate 16 k, replicate 16 (k + 1), replicate 16 (k + 2), replicate 16 (k + 3))"

lemma demo_group:
  "group_ok demo_group" "GroupUuids (demo_entropy k) = Some (demo_uuids k)"
  by (simp_all add: group_ok_def demo_group_def demo_kdev_def kDataRegionOffset_8K kValueSize_def
      GroupUuids_def demo_entropy_def demo_uuids_def GenerateUuid_def uuid_loop.simps kUuidBytes_def)

lemma demo_created:
  "CreateDeviceGroup demo_group (demo_entropy k) t i c =
     (kSuccess, Some (make_data_sb (demo_uuids k) (data_blocks (opened (g_data demo_group))) i c t),
      created_group demo_group (demo_uuids k) t i c)"
  by (rule CreateDeviceGroup_ok [OF demo_group])

theorem create_recover_group_witness:
  "\<exists>sb g'. CreateDeviceGroup demo_group (demo_entropy 7) 99 0 1 = (kSuccess, Some sb, g')
     \<and> RecoverDeviceGroup g' 0 1 = (kSuccess, Some sb, g')
     \<and> fst (RecoverDeviceGroup g' 1 1) = kSuperBlockDeviceIdMismatch
     \<and> fst (RecoverDeviceGroup g' 0 2) = kSuperBlockDeviceCountMismatch
     \<and> sb_block_count sb = 4"
proof -
  have "of_nat ((kd_size (g_data demo_group) - kDataRegionOffset) div kValueSize) = (4 :: u64)"
    by (simp add: demo_group_def demo_kdev_def kDataRegionOffset_8K kValueSize_def)
  moreover have "(1 :: u64) \<noteq> 0" "(2 :: u64) \<noteq> 1" by simp_all
  ultimately show ?thesis
    using create_recover_group [OF demo_group, of 7 99 0 1] by metis
qed

theorem recover_rejects_foreign_devices_witness:
  "fst (RecoverDeviceGroup
     \<lparr>g_data = g_data (created_group demo_group (demo_uuids 7) 1 0 1),
      g_wal = g_wal (created_group demo_group (demo_uuids 50) 2 0 1),
      g_snap = g_snap (created_group demo_group (demo_uuids 7) 1 0 1)\<rparr> 0 1)
   = kSuperBlockEngineUuidMismatch"
  using recover_rejects_foreign_devices [OF demo_group(1) demo_group(1) demo_group(2) demo_group(2)
      demo_created demo_created, of 7 50]
  by (simp add: demo_uuids_def)

theorem recover_group_sound_witness:
  "sb_device_type (make_data_sb (demo_uuids 7) (data_blocks (opened (g_data demo_group))) 0 1 99)
     = device_type_word Data"
proof -
  let ?n = "data_blocks (opened (g_data demo_group))"
  have "unat (of_nat ?n :: u64) \<le> ?n" by (simp add: unat_of_nat)
  then have "RecoverDeviceGroup (created_group demo_group (demo_uuids 7) 99 0 1) 0 1 =
     (kSuccess, Some (make_data_sb (demo_uuids 7) ?n 0 1 99), created_group demo_group (demo_uuids 7) 99 0 1)"
    using Recover_created [OF demo_group, of 7 99 0 1 0 1] by (simp add: Let_def)
  then show ?thesis using recover_group_sound by blast
qed

theorem create_group_order_witness:
  "held (g_snap (created_group demo_group (demo_uuids 7) 99 0 1)) = {make_snap_sb (demo_uuids 7) 0 1 99}"
  using create_group_order [OF demo_created, of 7 0 1 99] demo_group(2) [of 7] by simp

end
