(* ===== verification/Cabe_BlockAlloc.thy ===== *)
theory Cabe_BlockAlloc
  imports Cabe_Structs
begin

text \<open>
  \<open>slots/\<close>: the allocator of 1 MiB blocks. \<open>ring_block_allocator.cpp\<close> keeps the free blocks
  in a ring buffer with one unused slot; the locale \<open>block_allocator\<close> is the contract of the
  concept \<open>BlockAllocator\<close> the reactor relies on (the free blocks as a list), and the ring is
  shown to meet it.
\<close>

record ring =
  rb_slots :: "block_id list"
  rb_capacity :: nat
  rb_head :: nat
  rb_tail :: nat

definition ring_new :: "nat \<Rightarrow> ring" where
  "ring_new block_count = \<lparr>rb_slots = replicate (block_count + 1) (BlockId 0),
     rb_capacity = block_count + 1, rb_head = 0, rb_tail = 0\<rparr>"

text \<open>The loop body of \<open>Init\<close> and \<open>RebuildFromActive\<close>, which is also \<open>Recycle\<close>.\<close>

definition Recycle :: "ring \<Rightarrow> block_id \<Rightarrow> ring" where
  "Recycle r b = r\<lparr>rb_slots := (rb_slots r)[rb_tail r := b],
     rb_tail := (rb_tail r + 1) mod rb_capacity r\<rparr>"

definition ring_Init :: "device_id \<Rightarrow> nat \<Rightarrow> rc \<times> ring" where
  "ring_Init d block_count =
     (kSuccess, foldl (\<lambda>r i. Recycle r (Make d (of_nat i))) (ring_new block_count) [0..<block_count])"

definition Acquire :: "ring \<Rightarrow> rc \<times> block_id option \<times> ring" where
  "Acquire r =
     (if rb_head r = rb_tail r then (kEngineNoSpace, None, r)
      else (kSuccess, Some (rb_slots r ! rb_head r),
            r\<lparr>rb_head := (rb_head r + 1) mod rb_capacity r\<rparr>))"

definition Available :: "ring \<Rightarrow> nat" where
  "Available r = (rb_tail r + rb_capacity r - rb_head r) mod rb_capacity r"

definition Empty :: "ring \<Rightarrow> bool" where
  "Empty r \<longleftrightarrow> rb_head r = rb_tail r"

text \<open>The bit vector \<open>used\<close> of the rebuild, and its two refusals.\<close>

fun mark_used :: "nat \<Rightarrow> block_id list \<Rightarrow> bool list \<Rightarrow> rc \<times> bool list" where
  "mark_used block_count [] used = (kSuccess, used)"
| "mark_used block_count (b # bs) used =
     (if block_count \<le> unat (block_idx b) then (kEngineBlockOutOfRange, used)
      else if used ! unat (block_idx b) then (kEngineDuplicateBlock, used)
      else mark_used block_count bs (used[unat (block_idx b) := True]))"

definition RebuildFromActive :: "device_id \<Rightarrow> nat \<Rightarrow> block_id list \<Rightarrow> rc \<times> ring" where
  "RebuildFromActive d block_count active =
     (case mark_used block_count active (replicate block_count False) of (c, used) \<Rightarrow>
      if c \<noteq> kSuccess then (c, ring_new block_count)
      else (kSuccess, foldl (\<lambda>r i. if \<not> used ! i then Recycle r (Make d (of_nat i)) else r)
                        (ring_new block_count) [0..<block_count]))"

section \<open>The contract\<close>

text \<open>\<open>free\<close> is the list of free blocks, oldest first. \<open>Acquire\<close> takes the oldest or reports
  that there is none; \<open>Recycle\<close> appends, as long as the list stays below the number of blocks
  the allocator was made for.\<close>

locale block_allocator =
  fixes wf :: "'a \<Rightarrow> bool"
    and free :: "'a \<Rightarrow> block_id list"
    and room :: "'a \<Rightarrow> nat"
    and acquire :: "'a \<Rightarrow> rc \<times> block_id option \<times> 'a"
    and recycle :: "'a \<Rightarrow> block_id \<Rightarrow> 'a"
  assumes acquire_none: "wf a \<Longrightarrow> free a = [] \<Longrightarrow> acquire a = (kEngineNoSpace, None, a)"
    and acquire_some: "wf a \<Longrightarrow> free a = b # bs \<Longrightarrow>
      \<exists>a'. acquire a = (kSuccess, Some b, a') \<and> wf a' \<and> free a' = bs \<and> room a' = room a"
    and recycle: "wf a \<Longrightarrow> length (free a) < room a \<Longrightarrow>
      wf (recycle a b) \<and> free (recycle a b) = free a @ [b] \<and> room (recycle a b) = room a"
begin

text \<open>Ownership: the blocks handed out and the free ones never overlap and together are the
  blocks of the device.\<close>

definition owns :: "'a \<Rightarrow> block_id set \<Rightarrow> block_id set \<Rightarrow> bool" where
  "owns a used all \<longleftrightarrow> wf a \<and> distinct (free a) \<and> set (free a) \<inter> used = {}
     \<and> set (free a) \<union> used = all \<and> finite used \<and> card all = room a"

lemma owns_room:
  assumes "owns a used all" "b \<in> used"
  shows "length (free a) < room a"
proof -
  have "card (set (free a)) + card used = room a"
    using assms(1) unfolding owns_def by (metis List.finite_set card_Un_disjoint)
  moreover have "0 < card used" using assms unfolding owns_def by (metis card_gt_0_iff empty_iff)
  ultimately show ?thesis using assms(1) unfolding owns_def by (metis distinct_card less_add_same_cancel1)
qed

lemma owns_acquire:
  assumes "owns a used all" "acquire a = (kSuccess, Some b, a')"
  shows "b \<in> all" "b \<notin> used" "owns a' (insert b used) all"
proof -
  have w: "wf a" using assms(1) by (simp add: owns_def)
  obtain bs where f: "free a = b # bs" and a': "wf a'" "free a' = bs" "room a' = room a"
    using acquire_none [OF w] acquire_some [OF w] assms(2) by (cases "free a") fastforce+
  show "b \<in> all" "b \<notin> used" "owns a' (insert b used) all"
    using assms(1) f a' by (auto simp: owns_def)
qed

lemma owns_acquire_cases:
  assumes "owns a used all"
  obtains "free a = []" "used = all" "acquire a = (kEngineNoSpace, None, a)"
  | b a' where "acquire a = (kSuccess, Some b, a')"
  using assms acquire_none acquire_some by (cases "free a") (fastforce simp: owns_def)+

lemma owns_recycle:
  assumes "owns a used all" "b \<in> used"
  shows "owns (recycle a b) (used - {b}) all"
  using recycle [of a b] owns_room [OF assms] assms by (auto simp: owns_def)

lemma owns_finite: "owns a used all \<Longrightarrow> finite all"
  by (auto simp: owns_def)

end

section \<open>The ring meets the contract\<close>

definition ring_wf :: "ring \<Rightarrow> bool" where
  "ring_wf r \<longleftrightarrow> 0 < rb_capacity r \<and> length (rb_slots r) = rb_capacity r
     \<and> rb_head r < rb_capacity r \<and> rb_tail r < rb_capacity r"

definition ring_free :: "ring \<Rightarrow> block_id list" where
  "ring_free r = map (\<lambda>i. rb_slots r ! ((rb_head r + i) mod rb_capacity r)) [0..<Available r]"

definition ring_room :: "ring \<Rightarrow> nat" where
  "ring_room r = rb_capacity r - 1"

lemma Available_alt:
  "ring_wf r \<Longrightarrow> Available r =
     (if rb_head r \<le> rb_tail r then rb_tail r - rb_head r
      else rb_tail r + rb_capacity r - rb_head r)"
  by (auto simp: Available_def ring_wf_def mod_if)

lemma length_ring_free [simp]: "length (ring_free r) = Available r"
  by (simp add: ring_free_def)

lemma Empty_iff: "ring_wf r \<Longrightarrow> Empty r \<longleftrightarrow> ring_free r = []"
  by (auto simp: Empty_def ring_free_def Available_alt ring_wf_def)

lemma ring_index:
  assumes "ring_wf r" "i \<le> Available r"
  shows "(rb_head r + i) mod rb_capacity r
    = (if rb_head r + i < rb_capacity r then rb_head r + i else rb_head r + i - rb_capacity r)"
  using assms by (intro mod_once) (auto simp: Available_alt ring_wf_def split: if_splits)

lemma Recycle_ring:
  assumes "ring_wf r" "Available r < ring_room r"
  shows "ring_wf (Recycle r b)" "ring_free (Recycle r b) = ring_free r @ [b]"
    "ring_room (Recycle r b) = ring_room r"
proof -
  show w: "ring_wf (Recycle r b)" using assms(1) by (simp add: ring_wf_def Recycle_def)
  have av: "Available (Recycle r b) = Suc (Available r)"
    unfolding Available_alt [OF w] using assms
    by (auto simp: Available_alt Recycle_def ring_room_def ring_wf_def mod_Suc split: if_splits)
  have idx: "(rb_head r + i) mod rb_capacity r \<noteq> rb_tail r" if "i < Available r" for i
    using assms that ring_index [OF assms(1), of i]
    by (simp add: Available_alt ring_wf_def split: if_splits; linarith)
  have last: "(rb_head r + Available r) mod rb_capacity r = rb_tail r"
    using assms ring_index [OF assms(1), of "Available r"]
    by (simp add: Available_alt ring_wf_def split: if_splits; linarith)
  show "ring_free (Recycle r b) = ring_free r @ [b]"
    unfolding ring_free_def av
    using idx last assms(1)
    by (auto simp: Recycle_def ring_wf_def nth_list_update_neq [OF not_sym [OF idx]])
  show "ring_room (Recycle r b) = ring_room r" by (simp add: ring_room_def Recycle_def)
qed

lemma Acquire_ring:
  assumes "ring_wf r" "ring_free r = b # bs"
  shows "\<exists>r'. Acquire r = (kSuccess, Some b, r') \<and> ring_wf r' \<and> ring_free r' = bs
           \<and> ring_room r' = ring_room r"
proof -
  have av: "Available r = Suc (length bs)"
    using arg_cong [OF assms(2), of length] by simp
  have ne: "rb_head r \<noteq> rb_tail r" using av assms(1) by (auto simp: Available_alt)
  let ?r = "r\<lparr>rb_head := (rb_head r + 1) mod rb_capacity r\<rparr>"
  have w: "ring_wf ?r" using assms(1) by (simp add: ring_wf_def)
  have av': "Available ?r = length bs"
    unfolding Available_alt [OF w] using av ne assms(1)
    by (auto simp: Available_alt ring_wf_def mod_Suc split: if_splits)
  have fr: "ring_free r = rb_slots r ! rb_head r # ring_free ?r"
    unfolding ring_free_def av av' using assms(1)
    by (simp add: upt_conv_Cons map_Suc_upt [symmetric] ring_wf_def mod_add_left_eq del: upt_Suc)
  show ?thesis using fr assms(2) ne w by (simp add: Acquire_def ring_room_def)
qed

interpretation ring: block_allocator ring_wf ring_free ring_room Acquire Recycle
proof
  fix a b bs
  show "ring_wf a \<Longrightarrow> ring_free a = [] \<Longrightarrow> Acquire a = (kEngineNoSpace, None, a)"
    by (simp add: Acquire_def Empty_iff [symmetric] Empty_def)
  show "ring_wf a \<Longrightarrow> ring_free a = b # bs \<Longrightarrow>
      \<exists>a'. Acquire a = (kSuccess, Some b, a') \<and> ring_wf a' \<and> ring_free a' = bs \<and> ring_room a' = ring_room a"
    by (rule Acquire_ring)
  show "ring_wf a \<Longrightarrow> length (ring_free a) < ring_room a \<Longrightarrow>
      ring_wf (Recycle a b) \<and> ring_free (Recycle a b) = ring_free a @ [b]
      \<and> ring_room (Recycle a b) = ring_room a"
    by (simp add: Recycle_ring)
qed

section \<open>Initialisation and rebuild\<close>

lemma ring_new: "ring_wf (ring_new n)" "ring_free (ring_new n) = []" "ring_room (ring_new n) = n"
  by (simp_all add: ring_wf_def ring_new_def ring_free_def Available_def ring_room_def)

lemma foldl_Recycle:
  assumes "ring_wf r" "length (ring_free r) + length (filter P xs) \<le> ring_room r"
  shows "ring_wf (foldl (\<lambda>r i. if P i then Recycle r (f i) else r) r xs)
    \<and> ring_free (foldl (\<lambda>r i. if P i then Recycle r (f i) else r) r xs)
        = ring_free r @ map f (filter P xs)
    \<and> ring_room (foldl (\<lambda>r i. if P i then Recycle r (f i) else r) r xs) = ring_room r"
  using assms
proof (induction xs arbitrary: r)
  case (Cons x xs)
  show ?case
  proof (cases "P x")
    case True
    then have "ring_wf (Recycle r (f x))" "ring_free (Recycle r (f x)) = ring_free r @ [f x]"
      "ring_room (Recycle r (f x)) = ring_room r"
      using ring.recycle [of r "f x"] Cons.prems by auto
    then show ?thesis using Cons.IH [of "Recycle r (f x)"] Cons.prems True by simp
  next
    case False
    then show ?thesis using Cons by simp
  qed
qed simp

definition device_blocks :: "device_id \<Rightarrow> nat \<Rightarrow> block_id set" where
  "device_blocks d n = (\<lambda>i. Make d (of_nat i)) ` {..<n}"

lemma Make_of_nat_inj: "n \<le> 2 ^ 56 \<Longrightarrow> inj_on (\<lambda>i. Make d (of_nat i)) {..<n}"
proof (rule inj_onI)
  fix i j
  assume n: "n \<le> 2 ^ 56" and ij: "i \<in> {..<n}" "j \<in> {..<n}"
    and eq: "Make d (of_nat i) = Make d (of_nat j)"
  have u: "unat (of_nat k :: u64) = k" if "k \<in> {..<n}" for k
    using that n by (simp add: unat_of_nat take_bit_nat_eq_self)
  have "block_idx (Make d (of_nat i)) = (of_nat i :: u64)" "block_idx (Make d (of_nat j)) = (of_nat j :: u64)"
    using u ij n by simp_all
  then show "i = j" using eq u ij by metis
qed

lemma block_idx_of_nat:
  "i < n \<Longrightarrow> n \<le> 2 ^ 56 \<Longrightarrow> unat (block_idx (Make d (of_nat i))) = i"
  by (simp add: unat_of_nat take_bit_nat_eq_self)

lemma card_device_blocks: "n \<le> 2 ^ 56 \<Longrightarrow> card (device_blocks d n) = n"
  by (simp add: device_blocks_def card_image Make_of_nat_inj)

lemma mem_device_blocks:
  "n \<le> 2 ^ 56 \<Longrightarrow> b \<in> device_blocks d n \<longleftrightarrow> dev b = d \<and> unat (block_idx b) < n"
proof
  assume n: "n \<le> 2 ^ 56" and b: "dev b = d \<and> unat (block_idx b) < n"
  have "Make d (of_nat (unat (block_idx b))) = b" using b Make_dev_block_idx [of b] by simp
  then show "b \<in> device_blocks d n" using b by (force simp: device_blocks_def)
next
  assume n: "n \<le> 2 ^ 56" and "b \<in> device_blocks d n"
  then obtain i where "i < n" "b = Make d (of_nat i)" by (auto simp: device_blocks_def)
  then show "dev b = d \<and> unat (block_idx b) < n"
    using block_idx_of_nat [of i n d] n by simp
qed

lemma ring_Init_free:
  assumes "ring_Init d n = (c, r)"
  shows "c = kSuccess" "ring_wf r" "ring_free r = map (\<lambda>i. Make d (of_nat i)) [0..<n]" "ring_room r = n"
  using foldl_Recycle [of "ring_new n" "\<lambda>_. True" "[0..<n]" "\<lambda>i. Make d (of_nat i)"] assms ring_new
  by (auto simp: ring_Init_def)

text \<open>C29: the ring buffer is a correct allocator, over any sequence of calls that returns only
  blocks it was given. After initialisation all blocks of the device are free; a block handed
  out was free and is not in use by anyone else; handing out and taking back keep the free
  blocks and the used blocks a partition of the device; out-of-space is reported exactly when
  every block is in use; the counters tell the number of free blocks.\<close>

theorem ring_allocator_correct:
  assumes n: "n \<le> 2 ^ 56"
  shows "ring.owns (snd (ring_Init d n)) {} (device_blocks d n)
    \<and> (\<forall>r used. ring.owns r used (device_blocks d n) \<longrightarrow>
        (\<forall>b r'. Acquire r = (kSuccess, Some b, r') \<longrightarrow>
           b \<in> device_blocks d n - used \<and> ring.owns r' (insert b used) (device_blocks d n))
        \<and> (fst (Acquire r) = kEngineNoSpace \<longleftrightarrow> used = device_blocks d n)
        \<and> (\<forall>b \<in> used. ring.owns (Recycle r b) (used - {b}) (device_blocks d n))
        \<and> Available r = n - card used \<and> (Empty r \<longleftrightarrow> used = device_blocks d n))"
proof (intro conjI allI impI ballI)
  show "ring.owns (snd (ring_Init d n)) {} (device_blocks d n)"
    using ring_Init_free [of d n] n Make_of_nat_inj [OF n, of d]
    by (cases "ring_Init d n")
      (auto simp: ring.owns_def distinct_map atLeast0LessThan card_image device_blocks_def)
next
  fix r used
  assume o: "ring.owns r used (device_blocks d n)"
  then have w: "ring_wf r" and cd: "card (set (ring_free r)) + card used = card (device_blocks d n)"
    unfolding ring.owns_def by (simp, metis List.finite_set card_Un_disjoint)
  show "Available r = n - card used"
  proof -
    have "card (set (ring_free r)) = Available r" using o by (simp add: ring.owns_def distinct_card)
    then show ?thesis using cd card_device_blocks [OF n, of d] by linarith
  qed
  have full: "ring_free r = [] \<longleftrightarrow> used = device_blocks d n"
  proof -
    have "set (ring_free r) \<inter> used = {}" "set (ring_free r) \<union> used = device_blocks d n"
      using o by (simp_all add: ring.owns_def)
    then show ?thesis by (metis Int_absorb2 Un_upper1 set_empty sup_bot_left)
  qed
  show "Empty r \<longleftrightarrow> used = device_blocks d n"
    using full Empty_iff [OF w] by simp
  show "fst (Acquire r) = kEngineNoSpace \<longleftrightarrow> used = device_blocks d n"
    using full Empty_iff [OF w] by (auto simp: Acquire_def Empty_def)
  fix b
  show "ring.owns (Recycle r b) (used - {b}) (device_blocks d n)" if "b \<in> used"
    by (rule ring.owns_recycle [OF o that])
  fix r'
  assume a: "Acquire r = (kSuccess, Some b, r')"
  show "b \<in> device_blocks d n - used" "ring.owns r' (insert b used) (device_blocks d n)"
    using ring.owns_acquire [OF o a] by auto
qed

theorem ring_allocator_correct_witness:
  "ring.owns (snd (ring_Init 1 4)) {} (device_blocks 1 4) \<and> Available (snd (ring_Init 1 4)) = 4"
proof -
  have "(4 :: nat) \<le> 2 ^ 56" by simp
  then show ?thesis using ring_allocator_correct [of 4 1] by auto
qed

lemma mark_used_outcome:
  "mark_used n bs used = (c, used') \<Longrightarrow> length used = n \<Longrightarrow>
     (c = kSuccess \<longleftrightarrow> (\<forall>b\<in>set bs. unat (block_idx b) < n \<and> \<not> used ! unat (block_idx b))
        \<and> distinct (map (unat \<circ> block_idx) bs))
   \<and> (c = kSuccess \<longrightarrow> length used' = n \<and>
        (\<forall>i<n. used' ! i \<longleftrightarrow> used ! i \<or> (\<exists>b\<in>set bs. unat (block_idx b) = i)))
   \<and> (c \<noteq> kSuccess \<longrightarrow> c = kEngineBlockOutOfRange \<and> (\<exists>b\<in>set bs. n \<le> unat (block_idx b))
        \<or> c = kEngineDuplicateBlock \<and> ((\<exists>b\<in>set bs. unat (block_idx b) < n \<and> used ! unat (block_idx b))
             \<or> \<not> distinct (map (unat \<circ> block_idx) bs)))"
proof (induction n bs used rule: mark_used.induct)
  case (2 n b bs used)
  let ?i = "unat (block_idx b)"
  consider "n \<le> ?i" | "?i < n" "used ! ?i" | "?i < n" "\<not> used ! ?i" by linarith
  then show ?case
  proof cases
    case 3
    then have rec: "mark_used n bs (used[?i := True]) = (c, used')" using 2 by simp
    have upd: "used[?i := True] ! j \<longleftrightarrow> used ! j \<or> j = ?i" if "j < n" for j
      using that 2(3) 3 by (auto simp: nth_list_update)
    have IH: "(c = kSuccess \<longleftrightarrow> (\<forall>b\<in>set bs. unat (block_idx b) < n \<and> \<not> used[?i := True] ! unat (block_idx b))
        \<and> distinct (map (unat \<circ> block_idx) bs))
   \<and> (c = kSuccess \<longrightarrow> length used' = n \<and>
        (\<forall>i<n. used' ! i \<longleftrightarrow> used[?i := True] ! i \<or> (\<exists>b\<in>set bs. unat (block_idx b) = i)))
   \<and> (c \<noteq> kSuccess \<longrightarrow> c = kEngineBlockOutOfRange \<and> (\<exists>b\<in>set bs. n \<le> unat (block_idx b))
        \<or> c = kEngineDuplicateBlock \<and> ((\<exists>b\<in>set bs. unat (block_idx b) < n \<and> used[?i := True] ! unat (block_idx b))
             \<or> \<not> distinct (map (unat \<circ> block_idx) bs)))"
      by (rule 2(1)) (use 3 rec 2(3) in auto)
    have a: "(\<forall>b\<in>set bs. unat (block_idx b) < n \<and> \<not> used[?i := True] ! unat (block_idx b))
        \<longleftrightarrow> (\<forall>b\<in>set bs. unat (block_idx b) < n \<and> \<not> used ! unat (block_idx b)) \<and> ?i \<notin> (unat \<circ> block_idx) ` set bs"
    proof -
      have "(\<forall>b\<in>set bs. unat (block_idx b) < n \<and> \<not> used[?i := True] ! unat (block_idx b))
        \<longleftrightarrow> (\<forall>b\<in>set bs. unat (block_idx b) < n \<and> \<not> used ! unat (block_idx b) \<and> unat (block_idx b) \<noteq> ?i)"
        using upd by (intro ball_cong) auto
      then show ?thesis by (auto simp: image_iff)
    qed
    have b: "(\<exists>b\<in>set bs. unat (block_idx b) < n \<and> used[?i := True] ! unat (block_idx b))
        \<longleftrightarrow> (\<exists>b\<in>set bs. unat (block_idx b) < n \<and> used ! unat (block_idx b)) \<or> ?i \<in> (unat \<circ> block_idx) ` set bs"
    proof -
      have "(\<exists>b\<in>set bs. unat (block_idx b) < n \<and> used[?i := True] ! unat (block_idx b))
        \<longleftrightarrow> (\<exists>b\<in>set bs. unat (block_idx b) < n \<and> used ! unat (block_idx b) \<or> unat (block_idx b) = ?i)"
        using upd 3 by (intro bex_cong) auto
      then show ?thesis by (auto simp: image_iff)
    qed
    have d: "distinct (map (unat \<circ> block_idx) (b # bs)) \<longleftrightarrow>
        ?i \<notin> (unat \<circ> block_idx) ` set bs \<and> distinct (map (unat \<circ> block_idx) bs)" by simp
    have s: "(c = kSuccess \<longleftrightarrow> (\<forall>b\<in>set (b # bs). unat (block_idx b) < n \<and> \<not> used ! unat (block_idx b))
        \<and> distinct (map (unat \<circ> block_idx) (b # bs)))"
      unfolding d using IH [unfolded a, THEN conjunct1] 3 by (simp; blast)
    have u: "c = kSuccess \<longrightarrow> length used' = n \<and>
        (\<forall>i<n. used' ! i \<longleftrightarrow> used ! i \<or> (\<exists>b\<in>set (b # bs). unat (block_idx b) = i))"
      using IH [THEN conjunct2, THEN conjunct1] upd by fastforce
    have f: "c \<noteq> kSuccess \<longrightarrow> c = kEngineBlockOutOfRange \<and> (\<exists>b\<in>set (b # bs). n \<le> unat (block_idx b))
        \<or> c = kEngineDuplicateBlock \<and> ((\<exists>b\<in>set (b # bs). unat (block_idx b) < n \<and> used ! unat (block_idx b))
             \<or> \<not> distinct (map (unat \<circ> block_idx) (b # bs)))"
      unfolding d using IH [unfolded b, THEN conjunct2, THEN conjunct2] by (simp; blast)
    show ?thesis using s u f by (intro conjI)
  qed (use 2(2) in auto)
qed auto

lemma distinct_map_idx:
  assumes "\<forall>b\<in>set bs. dev b = d"
  shows "distinct (map (unat \<circ> block_idx) bs) \<longleftrightarrow> distinct bs"
proof -
  have "inj_on (unat \<circ> block_idx) (set bs)"
    by (rule inj_onI) (use assms in \<open>auto intro!: block_id_eqI simp: unsigned_word_eqI\<close>)
  then show ?thesis by (auto simp: distinct_map)
qed

lemma RebuildFromActive_outcome:
  assumes n: "n \<le> 2 ^ 56" and on: "\<forall>b \<in> set active. dev b = d"
    and run: "RebuildFromActive d n active = (c, r)"
  shows "(c = kSuccess \<longleftrightarrow> set active \<subseteq> device_blocks d n \<and> distinct active)
    \<and> (c = kSuccess \<longrightarrow> ring.owns r (set active) (device_blocks d n))
    \<and> (c \<noteq> kSuccess \<longrightarrow> ring_free r = []
         \<and> (c = kEngineBlockOutOfRange \<and> \<not> set active \<subseteq> device_blocks d n
            \<or> c = kEngineDuplicateBlock \<and> \<not> distinct active))"
proof -
  obtain c' used where m: "mark_used n active (replicate n False) = (c', used)" by fastforce
  note mu = mark_used_outcome [OF m, simplified, unfolded distinct_map_idx [OF on, unfolded comp_def]
      distinct_map_idx [OF on]]
  have inb: "b \<in> device_blocks d n \<longleftrightarrow> unat (block_idx b) < n" if "b \<in> set active" for b
    using mem_device_blocks [OF n] on that by auto
  have cc: "c = c'" using run m by (auto simp: RebuildFromActive_def split: if_splits)
  let ?free = "filter (\<lambda>i. \<not> used ! i) [0..<n]"
  have fold: "c = kSuccess \<Longrightarrow> ring_wf r \<and> ring_free r = map (\<lambda>i. Make d (of_nat i)) ?free \<and> ring_room r = n"
    using foldl_Recycle [of "ring_new n" "\<lambda>i. \<not> used ! i" "[0..<n]" "\<lambda>i. Make d (of_nat i)"]
      run m cc ring_new length_filter_le [of "\<lambda>i. \<not> used ! i" "[0..<n]"]
    by (auto simp: RebuildFromActive_def)
  have owns: "ring.owns r (set active) (device_blocks d n)" if ok: "c = kSuccess"
  proof -
    have u: "used ! i \<longleftrightarrow> (\<exists>b\<in>set active. unat (block_idx b) = i)" if "i < n" for i
      using mu ok cc that by auto
    have sub: "set active \<subseteq> device_blocks d n" using mu ok cc inb by auto
    have "used ! i \<longleftrightarrow> Make d (of_nat i) \<in> set active" if i: "i < n" for i
    proof
      assume "used ! i"
      then obtain b where b: "b \<in> set active" "unat (block_idx b) = i" using u i by auto
      have "Make d (of_nat i) = b" using Make_dev_block_idx [of b] on b by auto
      then show "Make d (of_nat i) \<in> set active" using b by simp
    next
      assume "Make d (of_nat i) \<in> set active"
      then show "used ! i" using u [OF i] block_idx_of_nat [OF i n] by blast
    qed
    then have "set (ring_free r) = device_blocks d n - set active"
      using fold [OF ok] by (auto simp: device_blocks_def)
    moreover have "distinct (ring_free r)"
      using fold [OF ok] inj_on_subset [OF Make_of_nat_inj [OF n, of d]]
      by (simp add: distinct_map) (metis (no_types, lifting) atLeastLessThan_iff lessThan_iff
        mem_Collect_eq set_filter set_upt subsetI)
    ultimately show ?thesis
      using fold [OF ok] sub card_device_blocks [OF n, of d] by (auto simp: ring.owns_def)
  qed
  have free: "c \<noteq> kSuccess \<Longrightarrow> ring_free r = []"
    using run m ring_new by (auto simp: RebuildFromActive_def split: if_splits)
  show ?thesis
    using mu owns free inb unfolding cc by (auto simp: subset_iff)
qed

text \<open>C30: rebuilding the allocator from the blocks a recovered index refers to. The rebuild
  succeeds exactly when these blocks lie on the device and no block is claimed twice; then the
  free blocks are exactly the others, so no live value can be handed out and overwritten; an
  out-of-range or a doubly claimed block is reported as such and leaves no block to hand out.\<close>

theorem rebuild_partition:
  assumes n: "n \<le> 2 ^ 56" and on: "\<forall>b \<in> set active. dev b = d"
    and run: "RebuildFromActive d n active = (c, r)"
  shows "(c = kSuccess \<longleftrightarrow> set active \<subseteq> device_blocks d n \<and> distinct active)
    \<and> (c = kSuccess \<longrightarrow> ring.owns r (set active) (device_blocks d n))
    \<and> (c \<noteq> kSuccess \<longrightarrow> ring_free r = []
         \<and> (c = kEngineBlockOutOfRange \<and> \<not> set active \<subseteq> device_blocks d n
            \<or> c = kEngineDuplicateBlock \<and> \<not> distinct active))"
  by (rule RebuildFromActive_outcome [OF assms])

theorem rebuild_partition_witness:
  "fst (RebuildFromActive 2 5 [Make 2 1, Make 2 3]) = kSuccess
   \<and> fst (RebuildFromActive 2 5 [Make 2 1, Make 2 1]) = kEngineDuplicateBlock
   \<and> fst (RebuildFromActive 2 5 [Make 2 9]) = kEngineBlockOutOfRange
   \<and> ring.owns (snd (RebuildFromActive 2 5 [Make 2 1, Make 2 3])) {Make 2 1, Make 2 3} (device_blocks 2 5)"
proof -
  have n: "(5 :: nat) \<le> 2 ^ 56" by simp
  have ins: "Make 2 1 \<in> device_blocks 2 5" "Make 2 3 \<in> device_blocks 2 5"
      "Make 2 9 \<notin> device_blocks 2 5"
    by (simp_all add: mem_device_blocks)
  have ne: "Make 2 1 \<noteq> Make 2 3"
  proof -
    have "block_idx (Make 2 1) = 1" "block_idx (Make 2 3) = 3" by simp_all
    moreover have "(1 :: u64) \<noteq> 3" by simp
    ultimately show ?thesis by metis
  qed
  have part: "fst (RebuildFromActive 2 5 bs) = c \<and> snd (RebuildFromActive 2 5 bs) = r
      \<Longrightarrow> RebuildFromActive 2 5 bs = (c, r)" for bs c r by (metis prod.collapse)
  show ?thesis
    using rebuild_partition [OF n _ part, of "[Make 2 1, Make 2 3]"]
      rebuild_partition [OF n _ part, of "[Make 2 1, Make 2 1]"]
      rebuild_partition [OF n _ part, of "[Make 2 9]"] ins ne by simp
qed

end
