(* ===== verification/Cabe_MetaIndex.thy ===== *)
theory Cabe_MetaIndex
  imports Cabe_Structs "HOL-Library.AList"
begin

text \<open>
  \<open>index/\<close>: the in-memory index from keys to \<open>ValueMeta\<close>. The hash map of
  \<open>hash_meta_index.cpp\<close> is an association list with distinct keys, whose order stands for the
  iteration order of \<open>ForEach\<close>; the locale \<open>meta_index\<close> is the contract of the concept
  \<open>MetaIndexBackend\<close>, stated over the abstract map from keys to entries.
\<close>

type_synonym hash_index = "(bytes \<times> value_meta) list"

definition index_empty :: hash_index where
  "index_empty = []"

definition Insert :: "hash_index \<Rightarrow> bytes \<Rightarrow> value_meta \<Rightarrow> rc \<times> hash_index" where
  "Insert m key meta = (kSuccess, AList.update key meta m)"

definition Lookup :: "hash_index \<Rightarrow> bytes \<Rightarrow> rc \<times> value_meta option" where
  "Lookup m key = (case map_of m key of None \<Rightarrow> (kIndexKeyNotFound, None)
                   | Some meta \<Rightarrow> (kSuccess, Some meta))"

definition Delete :: "hash_index \<Rightarrow> bytes \<Rightarrow> rc \<times> hash_index" where
  "Delete m key = (case map_of m key of None \<Rightarrow> (kIndexKeyNotFound, m)
                   | Some _ \<Rightarrow> (kSuccess, AList.delete key m))"

definition Size :: "hash_index \<Rightarrow> nat" where
  "Size m = length m"

definition Contains :: "hash_index \<Rightarrow> bytes \<Rightarrow> bool" where
  "Contains m key \<longleftrightarrow> map_of m key \<noteq> None"

text \<open>\<open>ForEach\<close> with a visitor that updates a state (the snapshot writer's) and may stop the
  traversal with an error.\<close>

fun ForEach :: "hash_index \<Rightarrow> (bytes \<Rightarrow> value_meta \<Rightarrow> 's \<Rightarrow> rc \<times> 's) \<Rightarrow> 's \<Rightarrow> rc \<times> 's" where
  "ForEach [] visitor s = (kSuccess, s)"
| "ForEach ((key, meta) # m) visitor s =
     (case visitor key meta s of (c, s') \<Rightarrow> if c \<noteq> kSuccess then (c, s') else ForEach m visitor s')"

section \<open>The contract\<close>

locale meta_index =
  fixes wf :: "'i \<Rightarrow> bool"
    and entries :: "'i \<Rightarrow> bytes \<rightharpoonup> value_meta"
    and insert_op :: "'i \<Rightarrow> bytes \<Rightarrow> value_meta \<Rightarrow> rc \<times> 'i"
    and lookup_op :: "'i \<Rightarrow> bytes \<Rightarrow> rc \<times> value_meta option"
    and delete_op :: "'i \<Rightarrow> bytes \<Rightarrow> rc \<times> 'i"
    and size_op :: "'i \<Rightarrow> nat"
  assumes insert_law: "wf i \<Longrightarrow> \<exists>i'. insert_op i k v = (kSuccess, i') \<and> wf i' \<and> entries i' = (entries i)(k \<mapsto> v)"
    and lookup_law: "wf i \<Longrightarrow> lookup_op i k =
          (case entries i k of None \<Rightarrow> (kIndexKeyNotFound, None) | Some v \<Rightarrow> (kSuccess, Some v))"
    and delete_law: "wf i \<Longrightarrow> \<exists>i'. delete_op i k =
          (if entries i k = None then kIndexKeyNotFound else kSuccess, i')
          \<and> wf i' \<and> entries i' = (entries i)(k := None)"
    and size_law: "wf i \<Longrightarrow> finite (dom (entries i)) \<and> size_op i = card (dom (entries i))"
begin

lemma lookup_after_insert:
  assumes "wf i" "insert_op i k v = (c, i')"
  shows "lookup_op i' k' = (if k' = k then (kSuccess, Some v) else lookup_op i k')"
  using insert_law [OF assms(1), of k v] assms lookup_law by auto

lemma lookup_after_delete:
  assumes "wf i" "delete_op i k = (c, i')"
  shows "lookup_op i' k' = (if k' = k then (kIndexKeyNotFound, None) else lookup_op i k')"
  using delete_law [OF assms(1), of k] assms lookup_law by auto

lemma size_after_insert:
  assumes "wf i" "insert_op i k v = (c, i')"
  shows "size_op i' = (if entries i k = None then Suc (size_op i) else size_op i)"
proof -
  have i': "wf i'" "entries i' = (entries i)(k \<mapsto> v)" using insert_law [OF assms(1), of k v] assms by auto
  have "finite (dom (entries i))" using size_law [OF assms(1)] by simp
  then show ?thesis
    using size_law [OF assms(1)] size_law [OF i'(1)] i'(2)
    by (auto simp: domIff insert_absorb card_insert_if)
qed

end

definition index_wf :: "hash_index \<Rightarrow> bool" where
  "index_wf m \<longleftrightarrow> distinct (map fst m)"

definition index_map :: "hash_index \<Rightarrow> bytes \<rightharpoonup> value_meta" where
  "index_map m = map_of m"

interpretation idx: meta_index index_wf index_map Insert Lookup Delete Size
proof
  fix i :: hash_index and k v
  assume w: "index_wf i"
  show "\<exists>i'. Insert i k v = (kSuccess, i') \<and> index_wf i' \<and> index_map i' = (index_map i)(k \<mapsto> v)"
    using w by (simp add: Insert_def index_wf_def index_map_def distinct_update update_conv')
  show "Lookup i k = (case index_map i k of None \<Rightarrow> (kIndexKeyNotFound, None) | Some v \<Rightarrow> (kSuccess, Some v))"
    by (simp add: Lookup_def index_map_def)
  show "\<exists>i'. Delete i k = (if index_map i k = None then kIndexKeyNotFound else kSuccess, i')
          \<and> index_wf i' \<and> index_map i' = (index_map i)(k := None)"
    using w by (auto simp: Delete_def index_wf_def index_map_def distinct_delete delete_conv'
        split: option.splits)
  show "finite (dom (index_map i)) \<and> Size i = card (dom (index_map i))"
    using w distinct_card [of "map fst i"]
    by (simp add: Size_def index_map_def index_wf_def finite_dom_map_of dom_map_of_conv_image_fst)
qed

lemma index_wf_empty [simp]: "index_wf index_empty" "index_map index_empty = Map.empty"
  by (simp_all add: index_wf_def index_map_def index_empty_def)

section \<open>Traversal\<close>

text \<open>A traversal visits a prefix of the entries, all of them on success, and stops at the
  first visitor error, which it returns.\<close>

lemma ForEach_fold:
  "(\<And>k v s. fst (visitor k v s) = kSuccess) \<Longrightarrow>
   ForEach m visitor s = (kSuccess, foldl (\<lambda>s (k, v). snd (visitor k v s)) s m)"
proof (induction m arbitrary: s)
  case (Cons e m)
  obtain k v where e: "e = (k, v)" by fastforce
  have "fst (visitor k v s) = kSuccess" by (rule Cons.prems)
  then show ?case using Cons.IH [OF Cons.prems] e by (cases "visitor k v s") simp
qed simp

lemma ForEach_append:
  "ForEach (m @ n) visitor s =
     (case ForEach m visitor s of (c, s') \<Rightarrow> if c \<noteq> kSuccess then (c, s') else ForEach n visitor s')"
  by (induction m visitor s rule: ForEach.induct) (auto split: prod.splits)

text \<open>The index is a map. Insert, lookup and delete act on the abstract map as update,
  application and removal; a key is found exactly until it is deleted; the size is the number
  of keys; and a traversal with a visitor that never fails visits every key exactly once, with
  the entry the map has for it.\<close>

theorem hash_index_is_map:
  assumes w: "index_wf m"
  shows "(\<exists>m'. Insert m k v = (kSuccess, m') \<and> index_wf m' \<and> index_map m' = (index_map m)(k \<mapsto> v))
    \<and> (\<exists>m'. Delete m k = (if index_map m k = None then kIndexKeyNotFound else kSuccess, m')
           \<and> index_wf m' \<and> index_map m' = (index_map m)(k := None))
    \<and> Lookup m k = (case index_map m k of None \<Rightarrow> (kIndexKeyNotFound, None) | Some v \<Rightarrow> (kSuccess, Some v))
    \<and> Size m = card (dom (index_map m)) \<and> (Contains m k \<longleftrightarrow> fst (Lookup m k) = kSuccess)
    \<and> ForEach m (\<lambda>k v s. (kSuccess, s @ [(k, v)])) [] = (kSuccess, m)
    \<and> distinct (map fst m) \<and> (\<forall>k v. (k, v) \<in> set m \<longleftrightarrow> index_map m k = Some v)"
proof -
  have "foldl (\<lambda>s (k, v). s @ [(k, v)]) s m = s @ m" for s
    by (induction m arbitrary: s) auto
  then have "ForEach m (\<lambda>k v s. (kSuccess, s @ [(k, v)])) [] = (kSuccess, m)"
    by (simp add: ForEach_fold)
  moreover have "distinct (map fst m)" "\<forall>k v. (k, v) \<in> set m \<longleftrightarrow> index_map m k = Some v"
    using w by (simp_all add: index_wf_def index_map_def)
  moreover have "Contains m k \<longleftrightarrow> fst (Lookup m k) = kSuccess"
    by (simp add: Contains_def Lookup_def split: option.splits)
  ultimately show ?thesis
    using idx.insert_law [OF w] idx.delete_law [OF w] idx.lookup_law [OF w] idx.size_law [OF w] by blast
qed

theorem hash_index_is_map_witness:
  "\<forall>x y. \<exists>m'. Delete [([1], x), ([2], y)] [1] = (kSuccess, m') \<and> index_map m' [2] = Some y"
proof (intro allI)
  fix x y
  have "index_wf [([1], x), ([2], y)]" by (simp add: index_wf_def)
  then show "\<exists>m'. Delete [([1], x), ([2], y)] [1] = (kSuccess, m') \<and> index_map m' [2] = Some y"
    using hash_index_is_map [of "[([1], x), ([2], y)]" "[1]"] by (force simp: index_map_def)
qed

end
