(* ===== verification/Cabe_Buffers.thy ===== *)
theory Cabe_Buffers
  imports Cabe_Structs
begin

text \<open>
  \<open>engine/buffer_pool.cpp\<close>, the reactor's private pool of 1 MiB staging buffers, and
  \<open>engine/put_path.cpp\<close>, which decides whether a value is written from the caller's memory
  or copied into a staging buffer first. A buffer is its address (\<open>base + i * 1 MiB\<close>).
\<close>

section \<open>The staging pool\<close>

record buffer_pool =
  bp_base :: nat
  bp_block_count :: nat
  bp_free_list :: "nat list"

definition BufferPool_new :: "nat \<Rightarrow> nat \<Rightarrow> buffer_pool" where
  "BufferPool_new base n = \<lparr>bp_base = base, bp_block_count = n,
     bp_free_list = map (\<lambda>i. base + i * kValueSize) [0..<n]\<rparr>"

definition Allocate :: "buffer_pool \<Rightarrow> nat option \<times> buffer_pool" where
  "Allocate p = (if bp_free_list p = [] then (None, p)
     else (Some (last (bp_free_list p)), p\<lparr>bp_free_list := butlast (bp_free_list p)\<rparr>))"

definition Free :: "buffer_pool \<Rightarrow> nat \<Rightarrow> buffer_pool" where
  "Free p buf = p\<lparr>bp_free_list := bp_free_list p @ [buf]\<rparr>"

definition pool_available :: "buffer_pool \<Rightarrow> nat" where
  "pool_available p = length (bp_free_list p)"

definition pool_capacity :: "buffer_pool \<Rightarrow> nat" where
  "pool_capacity p = bp_block_count p"

text \<open>The addresses of the pool's buffers; \<open>pool_owns p used\<close>: those in use and the free ones
  partition them.\<close>

definition pool_buffers :: "buffer_pool \<Rightarrow> nat set" where
  "pool_buffers p = (\<lambda>i. bp_base p + i * kValueSize) ` {..<bp_block_count p}"

definition pool_owns :: "buffer_pool \<Rightarrow> nat set \<Rightarrow> bool" where
  "pool_owns p used \<longleftrightarrow> distinct (bp_free_list p) \<and> set (bp_free_list p) \<inter> used = {}
     \<and> set (bp_free_list p) \<union> used = pool_buffers p"

lemma pool_buffers_apart:
  assumes "a \<in> pool_buffers p" "b \<in> pool_buffers p" "a < b"
  shows "a + kValueSize \<le> b"
proof -
  obtain i j where ij: "a = bp_base p + i * kValueSize" "b = bp_base p + j * kValueSize"
    using assms by (auto simp: pool_buffers_def)
  then have "Suc i \<le> j" using assms(3) by simp
  then have "Suc i * kValueSize \<le> j * kValueSize" by (rule mult_le_mono1)
  then show ?thesis using ij by simp
qed

lemma pool_owns_new: "pool_owns (BufferPool_new base n) {}"
proof -
  have "inj_on (\<lambda>i. base + i * kValueSize) {0..<n}" by (auto intro!: inj_onI simp: kValueSize_def)
  then show ?thesis
    by (simp add: pool_owns_def BufferPool_new_def pool_buffers_def distinct_map atLeast0LessThan)
qed

lemma Allocate_owns:
  assumes "pool_owns p used" "Allocate p = (Some b, p')"
  shows "b \<in> pool_buffers p - used" "pool_owns p' (insert b used)" "pool_buffers p' = pool_buffers p"
proof -
  have ne: "bp_free_list p \<noteq> []" and b: "b = last (bp_free_list p)"
    and p': "p' = p\<lparr>bp_free_list := butlast (bp_free_list p)\<rparr>"
    using assms(2) by (auto simp: Allocate_def split: if_splits)
  obtain xs where fl: "bp_free_list p = xs @ [b]" using ne b by (metis append_butlast_last_id)
  show "pool_buffers p' = pool_buffers p" by (simp add: p' pool_buffers_def)
  show "b \<in> pool_buffers p - used" "pool_owns p' (insert b used)"
    using assms(1) fl by (auto simp: pool_owns_def p' pool_buffers_def)
qed

lemma Free_owns:
  assumes "pool_owns p used" "b \<in> used"
  shows "pool_owns (Free p b) (used - {b})"
  using assms by (auto simp: pool_owns_def Free_def pool_buffers_def)

text \<open>The staging pool hands out each buffer to one user at a time, a buffer it hands out
  is one of its own and overlaps no other, and giving a used buffer back makes it available
  again; allocation fails only when every buffer is in use.\<close>

theorem buffer_pool_exclusive:
  "pool_owns (BufferPool_new base n) {}
   \<and> (pool_owns p used \<longrightarrow>
        (\<forall>b p'. Allocate p = (Some b, p') \<longrightarrow> b \<in> pool_buffers p - used \<and> pool_owns p' (insert b used)
            \<and> (\<forall>c \<in> used. b + kValueSize \<le> c \<or> c + kValueSize \<le> b))
      \<and> (\<forall>b \<in> used. pool_owns (Free p b) (used - {b}))
      \<and> (fst (Allocate p) = None \<longleftrightarrow> used = pool_buffers p))"
proof (intro conjI impI allI ballI)
  show "pool_owns (BufferPool_new base n) {}" by (rule pool_owns_new)
next
  fix b p'
  assume o: "pool_owns p used" and a: "Allocate p = (Some b, p')"
  show "b \<in> pool_buffers p - used" "pool_owns p' (insert b used)" by (rule Allocate_owns [OF o a])+
  fix c
  assume "c \<in> used"
  then have "c \<in> pool_buffers p" "c \<noteq> b" using o Allocate_owns(1) [OF o a] by (auto simp: pool_owns_def)
  then show "b + kValueSize \<le> c \<or> c + kValueSize \<le> b"
    using pool_buffers_apart [of b p c] pool_buffers_apart [of c p b] Allocate_owns(1) [OF o a]
    by (metis DiffD1 linorder_neqE_nat)
next
  show "pool_owns p used \<Longrightarrow> b \<in> used \<Longrightarrow> pool_owns (Free p b) (used - {b})" for b
    by (rule Free_owns)
  assume o: "pool_owns p used"
  then have "set (bp_free_list p) \<inter> used = {}" "set (bp_free_list p) \<union> used = pool_buffers p"
    by (simp_all add: pool_owns_def)
  then have "bp_free_list p = [] \<longleftrightarrow> used = pool_buffers p"
    by (metis Int_absorb2 Un_upper1 set_empty sup_bot_left)
  then show "fst (Allocate p) = None \<longleftrightarrow> used = pool_buffers p" by (simp add: Allocate_def)
qed

theorem buffer_pool_exclusive_witness:
  "pool_owns (snd (Allocate (BufferPool_new 4096 2))) {4096 + kValueSize}
   \<and> fst (Allocate (BufferPool_new 4096 0)) = None"
proof -
  have a: "Allocate (BufferPool_new 4096 2)
      = (Some (4096 + kValueSize), snd (Allocate (BufferPool_new 4096 2)))"
    by (simp add: Allocate_def BufferPool_new_def numeral_2_eq_2)
  show ?thesis
    using buffer_pool_exclusive [of 4096 2 "BufferPool_new 4096 2" "{}"] a pool_owns_new [of 4096 2]
    by (auto simp: Allocate_def BufferPool_new_def)
qed

section \<open>Direct write or copy\<close>

datatype put_value_source_kind =
    ExternalValueMemory | TargetKeyValueBuffer | OtherKeyValueBuffer
  | OtherDeviceValueBuffer | PoolAddressNotAllocated

record put_value_source =
  src_kind :: put_value_source_kind
  src_owner_device_id :: device_id
  src_pool_id :: u64
  src_slot_index :: u32
  src_slot_generation :: u32

datatype put_write_path = Direct | CopyFallback

record backend_direct_write_caps =
  allow_external_value_memory :: bool
  external_memory_alignment :: nat

text \<open>A view of caller memory: address (0 is the null pointer) and size.\<close>

record data_view =
  dv_addr :: nat
  dv_size :: nat

definition IsAddressAligned :: "nat \<Rightarrow> nat \<Rightarrow> bool" where
  "IsAddressAligned ptr alignment \<longleftrightarrow> \<not> (ptr = 0 \<or> alignment = 0) \<and> ptr mod alignment = 0"

definition BuildPutWritePlan ::
  "data_view \<Rightarrow> put_value_source \<Rightarrow> backend_direct_write_caps \<Rightarrow> put_write_path" where
  "BuildPutWritePlan value source caps =
     (if dv_size value \<noteq> kValueSize \<or> dv_addr value = 0 then CopyFallback
      else case src_kind source of
        TargetKeyValueBuffer \<Rightarrow> Direct
      | ExternalValueMemory \<Rightarrow>
          (if allow_external_value_memory caps
              \<and> IsAddressAligned (dv_addr value) (external_memory_alignment caps)
           then Direct else CopyFallback)
      | _ \<Rightarrow> CopyFallback)"

text \<open>A value is written without a copy only if it is a whole non-null value and either
  lies in a buffer the application got for this very key's device, or the backend takes
  external memory and the address is aligned as it asks; memory of another key's or another
  device's buffer, or a pool address that is not handed out, is always copied.\<close>

theorem direct_write_safe:
  "BuildPutWritePlan value source caps = Direct \<longleftrightarrow>
     dv_size value = kValueSize \<and> dv_addr value \<noteq> 0
     \<and> (src_kind source = TargetKeyValueBuffer
        \<or> src_kind source = ExternalValueMemory \<and> allow_external_value_memory caps
            \<and> 0 < external_memory_alignment caps
            \<and> external_memory_alignment caps dvd dv_addr value)"
  by (auto simp: BuildPutWritePlan_def IsAddressAligned_def split: put_value_source_kind.splits)

end
