(* ===== verification/Cabe_IoBackend.thy ===== *)
theory Cabe_IoBackend
  imports Cabe_RawDevice
begin

text \<open>
  \<open>io/\<close>: the backends that read and write whole values on the data device.
  \<open>sync_io_backend.cpp\<close> on the retry loops, with \<open>fdatasync\<close> at the levels that make values
  durable. The locale \<open>value_store\<close> is the contract of the concept \<open>IoBackend\<close> the reactor
  relies on.
\<close>

text \<open>\<open>opts_\<close> is the level in force, \<open>None\<close> when the backend was opened without options.\<close>

record sync_io =
  io_open :: bool
  io_block_count :: nat
  io_level :: "wal_level option"
  io_kdev :: kdev

definition sync_io_closed :: "kdev \<Rightarrow> sync_io" where
  "sync_io_closed d = \<lparr>io_open = False, io_block_count = 0, io_level = None, io_kdev = d\<rparr>"

definition SyncIo_Open :: "sync_io \<Rightarrow> wal_level option \<Rightarrow> rc \<times> sync_io" where
  "SyncIo_Open io lvl =
     (if io_open io then (kIoBase, io) else
      case sys_simple (io_kdev io) of (ok1, d1) \<Rightarrow>
      let io1 = io\<lparr>io_level := lvl, io_kdev := d1\<rparr> in
      if \<not> ok1 then (kIoBase, io1) else
      case sys_simple d1 of (ok2, d2) \<Rightarrow>
      let io2 = io1\<lparr>io_kdev := d2\<rparr>; dev_bytes = kd_size d2;
          block_count = (dev_bytes - kDataRegionOffset) div kValueSize in
      if \<not> ok2 then (kIoBase, io2)
      else if dev_bytes \<le> kDataRegionOffset then (kEngineInvalidOpts, io2)
      else if block_count = 0 then (kEngineInvalidOpts, io2\<lparr>io_block_count := block_count\<rparr>)
      else (kSuccess, io2\<lparr>io_open := True, io_block_count := block_count\<rparr>))"

definition SyncIo_RebindOptions :: "sync_io \<Rightarrow> wal_level option \<Rightarrow> sync_io" where
  "SyncIo_RebindOptions io lvl = io\<lparr>io_level := lvl\<rparr>"

definition SyncIo_Close :: "sync_io \<Rightarrow> rc \<times> sync_io" where
  "SyncIo_Close io =
     (if \<not> io_open io then (kSuccess, io)
      else (kSuccess, io\<lparr>io_open := False, io_block_count := 0\<rparr>))"

definition SyncIo_BlockCount :: "sync_io \<Rightarrow> nat" where
  "SyncIo_BlockCount io = io_block_count io"

definition SyncIo_RegisterWriteBuffers :: "'b list \<Rightarrow> rc" where
  "SyncIo_RegisterWriteBuffers buffers = kSuccess"

definition block_offset :: "nat \<Rightarrow> nat" where
  "block_offset blk = kDataRegionOffset + blk * kValueSize"

text \<open>\<open>None\<close> is the null data pointer. A closed backend has no block, so its range check
  fails.\<close>

definition SyncIo_Write :: "sync_io \<Rightarrow> nat \<Rightarrow> bytes option \<Rightarrow> rc \<times> sync_io" where
  "SyncIo_Write io blk buffer =
     (if io_block_count io \<le> blk then (kIoBase, io)
      else case buffer of None \<Rightarrow> (kIoBase, io)
      | Some data \<Rightarrow>
      if length data \<noteq> kValueSize then (kIoBase, io) else
      case WriteExact (io_kdev io) data (block_offset blk) of (ok, d) \<Rightarrow>
      if \<not> ok then (kIoBase, io\<lparr>io_kdev := d\<rparr>)
      else if IsValueFuaLevel (case io_level io of Some l \<Rightarrow> l | None \<Rightarrow> WalSync) then
        (case fdatasync d of (ok2, d2) \<Rightarrow>
         (if ok2 then kSuccess else kIoBase, io\<lparr>io_kdev := d2\<rparr>))
      else (kSuccess, io\<lparr>io_kdev := d\<rparr>))"

definition SyncIo_Read :: "sync_io \<Rightarrow> nat \<Rightarrow> rc \<times> bytes \<times> sync_io" where
  "SyncIo_Read io blk =
     (if io_block_count io \<le> blk then (kIoBase, [], io) else
      case ReadExact (io_kdev io) kValueSize (block_offset blk) of
        (None, d) \<Rightarrow> (kIoBase, [], io\<lparr>io_kdev := d\<rparr>)
      | (Some bs, d) \<Rightarrow> (kSuccess, bs, io\<lparr>io_kdev := d\<rparr>))"

section \<open>The contract\<close>

text \<open>\<open>content io i\<close> is the value stored in block \<open>i\<close>, \<open>stable io i\<close> what a power failure
  leaves of it. A read returns the content and changes nothing; a successful write replaces one
  block, a failed one at most damages that block; at a durable level success means stable.\<close>

locale value_store =
  fixes valid :: "'d \<Rightarrow> bool"
    and blocks :: "'d \<Rightarrow> nat"
    and fua :: "'d \<Rightarrow> bool"
    and content :: "'d \<Rightarrow> nat \<Rightarrow> bytes"
    and stable :: "'d \<Rightarrow> nat \<Rightarrow> bytes"
    and wr :: "'d \<Rightarrow> nat \<Rightarrow> bytes option \<Rightarrow> rc \<times> 'd"
    and rd :: "'d \<Rightarrow> nat \<Rightarrow> rc \<times> bytes \<times> 'd"
  assumes read_same: "valid d \<Longrightarrow> rd d i = (c, bs, d') \<Longrightarrow> valid d' \<and> blocks d' = blocks d \<and> fua d' = fua d
        \<and> content d' = content d \<and> stable d' = stable d"
    and read_ok: "valid d \<Longrightarrow> rd d i = (kSuccess, bs, d') \<Longrightarrow> bs = content d i \<and> i < blocks d"
    and read_rc: "rd d i = (c, bs, d') \<Longrightarrow> c = kSuccess \<or> c = kIoBase"
    and write_frame: "valid d \<Longrightarrow> wr d i buf = (c, d') \<Longrightarrow> valid d' \<and> blocks d' = blocks d \<and> fua d' = fua d"
    and write_other: "valid d \<Longrightarrow> wr d i buf = (c, d') \<Longrightarrow> j \<noteq> i \<Longrightarrow> content d' j = content d j"
    and write_ok: "valid d \<Longrightarrow> wr d i buf = (kSuccess, d') \<Longrightarrow>
        buf = Some (content d' i) \<and> length (content d' i) = kValueSize \<and> i < blocks d
        \<and> (fua d \<longrightarrow> stable d' = content d')"
    and write_unstable: "valid d \<Longrightarrow> wr d i buf = (c, d') \<Longrightarrow> stable d' = stable d \<or> stable d' = content d'"
    and write_rc: "wr d i buf = (c, d') \<Longrightarrow> c = kSuccess \<or> c = kIoBase"
begin

lemma read_after_write:
  assumes "valid d" "wr d i (Some v) = (kSuccess, d1)" "rd d1 j = (kSuccess, bs, d2)"
  shows "bs = (if j = i then v else content d j)"
  using write_ok [OF assms(1,2)] write_other [OF assms(1,2)] read_ok [OF _ assms(3)]
    write_frame [OF assms(1,2)] by auto

lemma untouched_by_failed_write:
  assumes "valid d" "wr d i buf = (c, d1)" "j \<noteq> i" "rd d1 j = (kSuccess, bs, d2)"
  shows "bs = content d j"
  using write_other [OF assms(1,2,3)] read_ok [OF _ assms(4)] write_frame [OF assms(1,2)] by auto

end

section \<open>The synchronous backend meets it\<close>

definition io_content :: "sync_io \<Rightarrow> nat \<Rightarrow> bytes" where
  "io_content io i = kread (kd_data (io_kdev io)) (block_offset i) kValueSize"

definition io_stable :: "sync_io \<Rightarrow> nat \<Rightarrow> bytes" where
  "io_stable io i = kread (kd_durable (io_kdev io)) (block_offset i) kValueSize"

definition io_fua :: "sync_io \<Rightarrow> bool" where
  "io_fua io = IsValueFuaLevel (case io_level io of Some l \<Rightarrow> l | None \<Rightarrow> WalSync)"

definition io_valid :: "sync_io \<Rightarrow> bool" where
  "io_valid io \<longleftrightarrow> True"

lemma block_offset_apart:
  assumes "i \<noteq> j"
  shows "block_offset i + kValueSize \<le> block_offset j \<or> block_offset j + kValueSize \<le> block_offset i"
proof -
  have "block_offset a + kValueSize \<le> block_offset b" if "a < b" for a b
    using mult_le_mono1 [of "Suc a" b kValueSize] that by (simp add: block_offset_def)
  then show ?thesis using assms by (meson linorder_neqE_nat)
qed

text \<open>The three ways through \<open>SyncIo_Write\<close>.\<close>

lemma SyncIo_Write_cases:
  assumes "SyncIo_Write io i buf = (c, io')"
  obtains (none) "io' = io" "c = kIoBase"
  | (wr) data ok d where "buf = Some data" "length data = kValueSize" "i < io_block_count io"
      "WriteExact (io_kdev io) data (block_offset i) = (ok, d)" "io' = io\<lparr>io_kdev := d\<rparr>"
      "c = (if ok then kSuccess else kIoBase)" "ok \<longrightarrow> \<not> io_fua io"
  | (sync) data d ok2 d2 where "buf = Some data" "length data = kValueSize" "i < io_block_count io"
      "WriteExact (io_kdev io) data (block_offset i) = (True, d)" "fdatasync d = (ok2, d2)"
      "io' = io\<lparr>io_kdev := d2\<rparr>" "c = (if ok2 then kSuccess else kIoBase)"
proof (cases "io_block_count io \<le> i \<or> buf = None \<or> length (the buf) \<noteq> kValueSize")
  case True
  then have "io' = io" "c = kIoBase"
    using assms by (cases buf; auto simp: SyncIo_Write_def split: if_splits)+
  then show thesis by (rule none)
next
  case False
  then obtain data where b: "buf = Some data" "length data = kValueSize" "i < io_block_count io" by auto
  obtain ok d where w: "WriteExact (io_kdev io) data (block_offset i) = (ok, d)" by fastforce
  obtain ok2 d2 where s: "fdatasync d = (ok2, d2)" by fastforce
  note D = assms [unfolded SyncIo_Write_def b(1) option.case w s prod.case]
  show thesis
  proof (cases "ok \<and> io_fua io")
    case True
    then show thesis using sync [OF b(1,2,3) _ s] w D b by (simp add: io_fua_def)
  next
    case False
    then show thesis using wr [OF b(1,2,3) w] D b by (auto simp: io_fua_def split: if_splits)
  qed
qed

lemma fdatasync_both:
  "fdatasync d = (ok, d') \<Longrightarrow>
   kd_data d' = kd_data d \<and> kd_durable d' = (if ok then kd_data d else kd_durable d)"
  using fdatasync_cases by blast

lemma WriteExact_both:
  "WriteExact d data off = (ok, d') \<Longrightarrow>
   kd_durable d' = kd_durable d \<and> (ok \<longrightarrow> kd_data d' = kwrite (kd_data d) off data)"
  by (cases ok) (auto dest: WriteExact_frame(2) WriteExact_True)

lemma SyncIo_Write_outcome:
  assumes "SyncIo_Write io i buf = (c, io')"
  shows "io_open io' = io_open io \<and> io_block_count io' = io_block_count io \<and> io_level io' = io_level io
      \<and> kd_size (io_kdev io') = kd_size (io_kdev io)"
    "j \<noteq> i \<Longrightarrow> io_content io' j = io_content io j"
    "io_stable io' = io_stable io \<or> io_stable io' = io_content io'"
    "c = kSuccess \<Longrightarrow> buf = Some (io_content io' i) \<and> i < io_block_count io
        \<and> (io_fua io \<longrightarrow> io_stable io' = io_content io')"
    "c = kSuccess \<or> c = kIoBase"
proof -
  have other: "kread (kd_data d) (block_offset j) kValueSize = kread (kd_data (io_kdev io)) (block_offset j) kValueSize"
    if "WriteExact (io_kdev io) data (block_offset i) = (ok, d)" "length data = kValueSize" "j \<noteq> i"
    for data ok d j
  proof (rule kread_cong)
    fix k
    assume "block_offset j \<le> k" "k < block_offset j + kValueSize"
    then have "k < block_offset i \<or> block_offset i + length data \<le> k"
      using block_offset_apart [OF that(3)] that(2) by linarith
    then show "kd_data d k = kd_data (io_kdev io) k" by (rule WriteExact_outside [OF that(1)])
  qed
  show "io_open io' = io_open io \<and> io_block_count io' = io_block_count io \<and> io_level io' = io_level io
      \<and> kd_size (io_kdev io') = kd_size (io_kdev io)"
    by (rule SyncIo_Write_cases [OF assms])
      (auto dest!: WriteExact_frame(1) fdatasync_cases(1))
  show "j \<noteq> i \<Longrightarrow> io_content io' j = io_content io j"
    by (rule SyncIo_Write_cases [OF assms])
      (auto simp: io_content_def other dest: fdatasync_cases(2))
  show "io_stable io' = io_stable io \<or> io_stable io' = io_content io'"
    by (rule SyncIo_Write_cases [OF assms])
      (auto simp: io_stable_def [abs_def] io_content_def [abs_def] dest!: WriteExact_both
        fdatasync_both split: if_splits)
  show "c = kSuccess \<Longrightarrow> buf = Some (io_content io' i) \<and> i < io_block_count io
        \<and> (io_fua io \<longrightarrow> io_stable io' = io_content io')"
    by (rule SyncIo_Write_cases [OF assms])
      (auto simp: io_stable_def [abs_def] io_content_def [abs_def] dest!: WriteExact_both
        fdatasync_both split: if_splits)
  show "c = kSuccess \<or> c = kIoBase"
    by (rule SyncIo_Write_cases [OF assms]) auto
qed

lemma SyncIo_Read_outcome:
  assumes "SyncIo_Read io i = (c, bs, io')"
  shows "io_block_count io' = io_block_count io" "io_level io' = io_level io" "io_open io' = io_open io"
    "io_content io' = io_content io" "io_stable io' = io_stable io"
    "c = kSuccess \<Longrightarrow> bs = io_content io i \<and> i < io_block_count io"
    "c = kSuccess \<or> c = kIoBase"
  using assms
  by (auto simp: SyncIo_Read_def io_content_def [abs_def] io_stable_def [abs_def]
      dest: ReadExact_frame ReadExact_Some split: if_splits prod.splits option.splits)

interpretation sio: value_store io_valid io_block_count io_fua io_content io_stable SyncIo_Write SyncIo_Read
proof
  fix d d' :: sync_io and i j c bs buf
  show "SyncIo_Read d i = (c, bs, d') \<Longrightarrow> io_valid d' \<and> io_block_count d' = io_block_count d
      \<and> io_fua d' = io_fua d \<and> io_content d' = io_content d \<and> io_stable d' = io_stable d"
    using SyncIo_Read_outcome by (simp add: io_valid_def io_fua_def)
  show "SyncIo_Read d i = (kSuccess, bs, d') \<Longrightarrow> bs = io_content d i \<and> i < io_block_count d"
    using SyncIo_Read_outcome(6) by blast
  show "SyncIo_Read d i = (c, bs, d') \<Longrightarrow> c = kSuccess \<or> c = kIoBase"
    by (rule SyncIo_Read_outcome(7))
  show "SyncIo_Write d i buf = (c, d') \<Longrightarrow> io_valid d' \<and> io_block_count d' = io_block_count d \<and> io_fua d' = io_fua d"
    using SyncIo_Write_outcome by (simp add: io_valid_def io_fua_def)
  show "SyncIo_Write d i buf = (c, d') \<Longrightarrow> j \<noteq> i \<Longrightarrow> io_content d' j = io_content d j"
    by (rule SyncIo_Write_outcome(2))
  show "SyncIo_Write d i buf = (kSuccess, d') \<Longrightarrow> buf = Some (io_content d' i)
      \<and> length (io_content d' i) = kValueSize \<and> i < io_block_count d \<and> (io_fua d \<longrightarrow> io_stable d' = io_content d')"
    using SyncIo_Write_outcome(4) [of d i buf kSuccess d'] by (simp add: io_content_def)
  show "SyncIo_Write d i buf = (c, d') \<Longrightarrow> io_stable d' = io_stable d \<or> io_stable d' = io_content d'"
    by (rule SyncIo_Write_outcome(3))
  show "SyncIo_Write d i buf = (c, d') \<Longrightarrow> c = kSuccess \<or> c = kIoBase"
    by (rule SyncIo_Write_outcome(5))
qed

text \<open>C31: the synchronous backend, for every pattern of failing system calls. A value read
  after a successful write of a block is that value, and every other block still holds what it
  held, even when the write failed; at the levels that make values durable (1 and 2), a
  successful write has made the device's contents survive a power failure; no block outside
  the device's count is read or written.\<close>

theorem sync_backend_contract:
  assumes w: "SyncIo_Write io i buf = (c, io1)" and r: "SyncIo_Read io1 j = (kSuccess, bs, io2)"
  shows "(c = kSuccess \<longrightarrow> buf = Some (io_content io1 i) \<and> i < io_block_count io)
    \<and> (j \<noteq> i \<longrightarrow> bs = io_content io j)
    \<and> (c = kSuccess \<and> j = i \<longrightarrow> buf = Some bs)
    \<and> (c = kSuccess \<and> IsValueFuaLevel (case io_level io of Some l \<Rightarrow> l | None \<Rightarrow> WalSync)
         \<longrightarrow> io_stable io1 = io_content io1)
    \<and> j < io_block_count io \<and> length bs = kValueSize"
proof -
  have v: "io_valid io" "io_valid io1" by (simp_all add: io_valid_def)
  have bs: "bs = io_content io1 j" "j < io_block_count io1" using sio.read_ok [OF v(2) r] by auto
  then have "length bs = kValueSize" by (simp add: io_content_def)
  then show ?thesis
    using bs sio.write_ok [OF v(1), of i buf io1] w sio.write_other [OF v(1) w, of j]
      sio.write_frame [OF v(1) w] by (auto simp: io_fua_def)
qed

theorem sync_backend_contract_witness:
  "SyncIo_Read \<lparr>io_open = True, io_block_count = 2, io_level = None,
       io_kdev = \<lparr>kd_size = kDataRegionOffset + 2 * kValueSize, kd_data = (\<lambda>_. 7),
         kd_durable = (\<lambda>_. 7), kd_script = []\<rparr>\<rparr> 1
     = (kSuccess, replicate kValueSize 7, \<lparr>io_open = True, io_block_count = 2, io_level = None,
       io_kdev = \<lparr>kd_size = kDataRegionOffset + 2 * kValueSize, kd_data = (\<lambda>_. 7),
         kd_durable = (\<lambda>_. 7), kd_script = []\<rparr>\<rparr>)
   \<and> length (replicate kValueSize (7 :: u8)) = kValueSize"
proof -
  let ?io = "\<lparr>io_open = True, io_block_count = 2, io_level = None,
       io_kdev = \<lparr>kd_size = kDataRegionOffset + 2 * kValueSize, kd_data = (\<lambda>_. 7),
         kd_durable = (\<lambda>_. 7), kd_script = []\<rparr>\<rparr>"
  have k: "kread (\<lambda>_. 7 :: u8) off kValueSize = replicate kValueSize 7" for off
    by (rule nth_equalityI) auto
  have r: "SyncIo_Read ?io 1 = (kSuccess, replicate kValueSize 7, ?io)"
    by (simp add: SyncIo_Read_def ReadExact_ok block_offset_def k)
  have w: "SyncIo_Write ?io 0 None = (kIoBase, ?io)" by (simp add: SyncIo_Write_def)
  show ?thesis using sync_backend_contract [OF w r] r by blast
qed

end
