(* ===== verification/Cabe_WalFrame.thy ===== *)
theory Cabe_WalFrame
  imports Cabe_Structs Cabe_Crc32
begin

text \<open>
  \<open>wal/wal_frame.h\<close> and the frame functions of \<open>wal/wal.cpp\<close>: the 128-byte log frame, its
  byte image, encoding a logical record into a frame, and the validity check that recovery
  applies to every slot.
\<close>

definition kWalMagic :: u32 where "kWalMagic = 0x45424143"
definition kWalFrameVersion :: u8 where "kWalFrameVersion = 1"
definition kWalFrameSize :: nat where "kWalFrameSize = 128"
definition kWalKeyMax :: nat where "kWalKeyMax = 84"
definition kWalBlockSize :: nat where "kWalBlockSize = 4096"
definition kWalFramesPerBlock :: nat where "kWalFramesPerBlock = kWalBlockSize div kWalFrameSize"

lemma kWalFramesPerBlock_32 [simp]: "kWalFramesPerBlock = 32"
  by (simp add: kWalFramesPerBlock_def kWalBlockSize_def kWalFrameSize_def)

text \<open>The entry type is an 8-bit enumeration; recovery passes the byte on unchecked.\<close>

datatype wal_entry_type = WalEntryType u8

abbreviation EntryPut :: wal_entry_type where "EntryPut \<equiv> WalEntryType 1"
abbreviation EntryDelete :: wal_entry_type where "EntryDelete \<equiv> WalEntryType 2"

fun entry_type_byte :: "wal_entry_type \<Rightarrow> u8" where
  "entry_type_byte (WalEntryType b) = b"

record wal_entry =
  e_type :: wal_entry_type
  e_key :: bytes
  e_block :: block_id
  e_value_crc :: u32
  e_timestamp :: u64

record wal_frame =
  f_magic :: u32
  f_version :: u8
  f_flags :: u8
  f_entry_type :: u8
  f_reserved0 :: u8
  f_seq :: u64
  f_block :: u64
  f_timestamp :: u64
  f_value_crc :: u32
  f_key_len :: u16
  f_reserved1 :: u16
  f_key :: bytes
  f_frame_crc32c :: u32

definition frame_body :: "wal_frame \<Rightarrow> bytes" where
  "frame_body f =
     le_bytes 4 (f_magic f) @ le_bytes 1 (f_version f) @ le_bytes 1 (f_flags f) @
     le_bytes 1 (f_entry_type f) @ le_bytes 1 (f_reserved0 f) @ le_bytes 8 (f_seq f) @
     le_bytes 8 (f_block f) @ le_bytes 8 (f_timestamp f) @ le_bytes 4 (f_value_crc f) @
     le_bytes 2 (f_key_len f) @ le_bytes 2 (f_reserved1 f) @ f_key f"

definition frame_bytes :: "wal_frame \<Rightarrow> bytes" where
  "frame_bytes f = frame_body f @ le_bytes 4 (f_frame_crc32c f)"

definition frame_of_bytes :: "bytes \<Rightarrow> wal_frame" where
  "frame_of_bytes bs = \<lparr>f_magic = le_word (peek 0 4 bs), f_version = le_word (peek 4 1 bs),
     f_flags = le_word (peek 5 1 bs), f_entry_type = le_word (peek 6 1 bs),
     f_reserved0 = le_word (peek 7 1 bs), f_seq = le_word (peek 8 8 bs),
     f_block = le_word (peek 16 8 bs), f_timestamp = le_word (peek 24 8 bs),
     f_value_crc = le_word (peek 32 4 bs), f_key_len = le_word (peek 36 2 bs),
     f_reserved1 = le_word (peek 38 2 bs), f_key = peek 40 84 bs,
     f_frame_crc32c = le_word (peek 124 4 bs)\<rparr>"

definition ComputeFrameCrc :: "wal_frame \<Rightarrow> u32" where
  "ComputeFrameCrc f = CRC32 (take (kWalFrameSize - 4) (frame_bytes f))"

text \<open>\<open>EncodeFrame\<close> copies the key into a zeroed array of 84 bytes; callers have checked that
  it fits.\<close>

definition EncodeFrame :: "wal_entry \<Rightarrow> u64 \<Rightarrow> wal_frame" where
  "EncodeFrame e seq =
     (let f = \<lparr>f_magic = kWalMagic, f_version = kWalFrameVersion, f_flags = 0,
        f_entry_type = entry_type_byte (e_type e), f_reserved0 = 0, f_seq = seq,
        f_block = raw (e_block e), f_timestamp = e_timestamp e, f_value_crc = e_value_crc e,
        f_key_len = of_nat (length (e_key e)), f_reserved1 = 0,
        f_key = poke 0 (e_key e) (zeros kWalKeyMax), f_frame_crc32c = 0\<rparr>
      in f\<lparr>f_frame_crc32c := ComputeFrameCrc f\<rparr>)"

definition VerifyFrame :: "wal_frame \<Rightarrow> bool" where
  "VerifyFrame f \<longleftrightarrow>
     (if f_magic f \<noteq> kWalMagic then False
      else if f_version f \<noteq> kWalFrameVersion then False
      else if kWalKeyMax < unat (f_key_len f) then False
      else ComputeFrameCrc f = f_frame_crc32c f)"

text \<open>What \<open>Recover\<close> hands to its callback for a frame.\<close>

definition DecodeFrame :: "wal_frame \<Rightarrow> wal_entry" where
  "DecodeFrame f = \<lparr>e_type = WalEntryType (f_entry_type f),
     e_key = take (unat (f_key_len f)) (f_key f), e_block = BlockId (f_block f),
     e_value_crc = f_value_crc f, e_timestamp = f_timestamp f\<rparr>"

section \<open>Byte images\<close>

definition frame_wf :: "wal_frame \<Rightarrow> bool" where
  "frame_wf f \<longleftrightarrow> length (f_key f) = 84"

lemma frame_body_length [codec_simps]: "frame_wf f \<Longrightarrow> length (frame_body f) = 124"
  by (simp add: frame_body_def frame_wf_def)

lemma frame_bytes_length [codec_simps]: "frame_wf f \<Longrightarrow> length (frame_bytes f) = kWalFrameSize"
  by (simp add: frame_bytes_def frame_body_length kWalFrameSize_def)

lemma frame_of_bytes_bytes: "frame_wf f \<Longrightarrow> frame_of_bytes (frame_bytes f) = f"
  by (simp add: frame_of_bytes_def frame_bytes_def frame_body_def frame_wf_def codec_simps)

lemma frame_bytes_of_bytes: "length bs = kWalFrameSize \<Longrightarrow> frame_bytes (frame_of_bytes bs) = bs"
  by (simp add: frame_of_bytes_def frame_bytes_def frame_body_def kWalFrameSize_def codec_simps)

lemma frame_wf_of_bytes: "length bs = kWalFrameSize \<Longrightarrow> frame_wf (frame_of_bytes bs)"
  by (simp add: frame_wf_def frame_of_bytes_def kWalFrameSize_def)

lemma ComputeFrameCrc_body: "frame_wf f \<Longrightarrow> ComputeFrameCrc f = CRC32 (frame_body f)"
  by (simp add: ComputeFrameCrc_def frame_bytes_def frame_body_length kWalFrameSize_def)

lemma ComputeFrameCrc_set [simp]:
  "frame_wf f \<Longrightarrow> ComputeFrameCrc (f\<lparr>f_frame_crc32c := c\<rparr>) = ComputeFrameCrc f"
proof -
  assume w: "frame_wf f"
  then have "frame_wf (f\<lparr>f_frame_crc32c := c\<rparr>)" by (simp add: frame_wf_def)
  moreover have "frame_body (f\<lparr>f_frame_crc32c := c\<rparr>) = frame_body f" by (simp add: frame_body_def)
  ultimately show ?thesis using w by (simp add: ComputeFrameCrc_body)
qed

text \<open>The keys \<open>WriteWal\<close> accepts.\<close>

definition entry_ok :: "wal_entry \<Rightarrow> bool" where
  "entry_ok e \<longleftrightarrow> length (e_key e) \<le> kWalKeyMax"

lemma poke_zeros_key:
  "length k \<le> kWalKeyMax \<Longrightarrow> poke 0 k (zeros kWalKeyMax) = k @ zeros (kWalKeyMax - length k)"
  by (simp add: poke_def)

lemma EncodeFrame_wf: "entry_ok e \<Longrightarrow> frame_wf (EncodeFrame e s)"
  by (simp add: frame_wf_def EncodeFrame_def Let_def entry_ok_def poke_zeros_key kWalKeyMax_def)

lemma EncodeFrame_bytes_length [simp]:
  "entry_ok e \<Longrightarrow> length (frame_bytes (EncodeFrame e s)) = kWalFrameSize"
  by (simp add: frame_bytes_length EncodeFrame_wf)

lemma key_len_unat: "entry_ok e \<Longrightarrow> unat (of_nat (length (e_key e)) :: u16) = length (e_key e)"
  by (simp add: entry_ok_def kWalKeyMax_def unat_of_nat take_bit_nat_eq_self)

lemma EncodeFrame_seq [simp]: "f_seq (EncodeFrame e s) = s"
  by (simp add: EncodeFrame_def Let_def)

lemma VerifyFrame_Encode: "entry_ok e \<Longrightarrow> VerifyFrame (EncodeFrame e s)"
proof -
  assume ok: "entry_ok e"
  let ?f = "\<lparr>f_magic = kWalMagic, f_version = kWalFrameVersion, f_flags = 0,
        f_entry_type = entry_type_byte (e_type e), f_reserved0 = 0, f_seq = s,
        f_block = raw (e_block e), f_timestamp = e_timestamp e, f_value_crc = e_value_crc e,
        f_key_len = of_nat (length (e_key e)), f_reserved1 = 0,
        f_key = poke 0 (e_key e) (zeros kWalKeyMax), f_frame_crc32c = 0\<rparr>"
  have w: "frame_wf ?f" using EncodeFrame_wf [OF ok, of s] by (simp add: EncodeFrame_def Let_def frame_wf_def)
  have "EncodeFrame e s = ?f\<lparr>f_frame_crc32c := ComputeFrameCrc ?f\<rparr>" by (simp add: EncodeFrame_def Let_def)
  then show ?thesis
    using ComputeFrameCrc_set [OF w, of "ComputeFrameCrc ?f"] ok
    by (simp add: VerifyFrame_def key_len_unat entry_ok_def)
qed

lemma DecodeFrame_Encode: "entry_ok e \<Longrightarrow> DecodeFrame (EncodeFrame e s) = e"
  by (cases "e_type e")
    (simp add: DecodeFrame_def EncodeFrame_def Let_def key_len_unat poke_zeros_key entry_ok_def)

text \<open>A slot that was never written, or zeroed, is no frame.\<close>

lemma VerifyFrame_zeros: "\<not> VerifyFrame (frame_of_bytes (zeros kWalFrameSize))"
proof -
  have "le_word (zeros 4) = (0 :: u32)"
    by (rule bit_word_eqI) (simp add: bit_le_word)
  then have "f_magic (frame_of_bytes (zeros kWalFrameSize)) = 0"
    by (simp add: frame_of_bytes_def peek_zeros kWalFrameSize_def)
  then show ?thesis by (simp add: VerifyFrame_def kWalMagic_def)
qed

text \<open>A log record survives its trip through the disk format. For a key of at most 84
  bytes the frame is 128 bytes, the recovery check accepts it, decoding it gives back the
  record and its sequence number bit for bit; and an empty (zeroed) slot is never taken for a
  frame.\<close>

theorem WalFrame_roundtrip:
  assumes "length (e_key e) \<le> kWalKeyMax"
  shows "length (frame_bytes (EncodeFrame e s)) = kWalFrameSize
    \<and> VerifyFrame (frame_of_bytes (frame_bytes (EncodeFrame e s)))
    \<and> DecodeFrame (frame_of_bytes (frame_bytes (EncodeFrame e s))) = e
    \<and> f_seq (frame_of_bytes (frame_bytes (EncodeFrame e s))) = s
    \<and> \<not> VerifyFrame (frame_of_bytes (zeros kWalFrameSize))"
proof -
  have ok: "entry_ok e" using assms by (simp add: entry_ok_def)
  show ?thesis
    using EncodeFrame_wf [OF ok] VerifyFrame_Encode [OF ok] DecodeFrame_Encode [OF ok] ok
      VerifyFrame_zeros
    by (simp add: frame_of_bytes_bytes)
qed

theorem WalFrame_roundtrip_witness:
  "DecodeFrame (frame_of_bytes (frame_bytes (EncodeFrame
     \<lparr>e_type = EntryPut, e_key = [107, 49], e_block = BlockId 5, e_value_crc = 77, e_timestamp = 9\<rparr> 42)))
   = \<lparr>e_type = EntryPut, e_key = [107, 49], e_block = BlockId 5, e_value_crc = 77, e_timestamp = 9\<rparr>"
  using WalFrame_roundtrip [of "\<lparr>e_type = EntryPut, e_key = [107, 49], e_block = BlockId 5,
     e_value_crc = 77, e_timestamp = 9\<rparr>" 42] by (simp add: kWalKeyMax_def)

end
