(* ===== verification/Cabe_Wal.thy ===== *)
theory Cabe_Wal
  imports Cabe_WalFrame Cabe_RawDevice Cabe_Util
begin

text \<open>
  \<open>wal/wal.cpp\<close>, the write side: opening, the window buffer over the ring, the batch
  processing of the commit group, the batching levels, flush, reclaim and close. Offsets and
  sizes are \<open>nat\<close> (they stay below the device size); the sequence number wraps at $2^{64}$
  and the frame counter at $2^{32}$, as their types do.
\<close>

text \<open>\<open>w_buf = None\<close> is the null buffer pointer.\<close>

record wal =
  w_dev :: raw_device
  w_buf :: "bytes option"
  w_buf_size :: nat
  w_cur_off :: nat
  w_n_frames :: nat
  w_seq_next :: nat
  w_level :: wal_level
  w_ring_start :: nat
  w_ring_end :: nat
  w_head_off :: nat
  w_window_bytes :: nat

definition wal_closed :: "kdev \<Rightarrow> wal" where
  "wal_closed d = \<lparr>w_dev = raw_closed d, w_buf = None, w_buf_size = 0, w_cur_off = 0,
     w_n_frames = 0, w_seq_next = 1, w_level = WalSync, w_ring_start = 0, w_ring_end = 0,
     w_head_off = 0, w_window_bytes = 0\<rparr>"

definition WalRingSize :: "nat \<Rightarrow> nat" where
  "WalRingSize device_bytes =
     (if device_bytes \<le> kDataRegionOffset then 0
      else (device_bytes - kDataRegionOffset) div kWalBlockSize * kWalBlockSize)"

definition sync_level :: "wal \<Rightarrow> bool" where
  "sync_level w \<longleftrightarrow> IsWalSyncLevel (w_level w)"

definition ring_bytes :: "wal \<Rightarrow> nat" where
  "ring_bytes w = w_ring_end w - w_ring_start w"

text \<open>The capacity of a window opened at \<open>pos\<close>: the buffer, the way to the seam of the ring,
  and the room left when one block always stays free.\<close>

definition WindowAt :: "wal \<Rightarrow> nat \<Rightarrow> nat" where
  "WindowAt w pos =
     (let ring = ring_bytes w;
          to_seam = w_ring_end w - pos;
          live = (pos + ring - w_head_off w) mod ring;
          limit = ring - kWalBlockSize;
          adm = (if limit \<le> live then 0 else limit - live)
      in min (w_buf_size w) (min to_seam adm))"

definition Wal_Open :: "wal \<Rightarrow> options \<Rightarrow> rc \<times> wal" where
  "Wal_Open w opts =
     (case RawDevice_Open (w_dev w) of (c, d) \<Rightarrow>
      if c \<noteq> kSuccess then (c, w\<lparr>w_dev := d\<rparr>) else
      let buf_size = RoundUpBufferSize (o_wal_buffer_size opts) kWalBlockSize;
          ring_size = WalRingSize (RawDevice_SizeBytes d);
          w1 = w\<lparr>w_dev := d, w_level := o_wal_level opts, w_buf_size := buf_size,
                 w_ring_start := kDataRegionOffset, w_ring_end := kDataRegionOffset + ring_size\<rparr>;
          thr = o_snapshot_threshold_bytes opts;
          need_run = (if (2 ^ 64 - 1) div 2 < thr then 2 ^ 64 - 1 else thr * 2);
          need_floor = (buf_size + kWalBlockSize) mod 2 ^ 64;
          need = max need_run need_floor
      in if ring_size < need then (kDeviceTooSmall, w1\<lparr>w_dev := snd (RawDevice_Close d)\<rparr>)
      else
        let w2 = w1\<lparr>w_cur_off := w_ring_start w1, w_head_off := w_ring_start w1,
                    w_n_frames := 0, w_seq_next := 1\<rparr>
        in if \<not> o_create opts then (kSuccess, w2\<lparr>w_buf := None, w_window_bytes := 0\<rparr>)
        else case AllocAligned d of (a, d2) \<Rightarrow>
          if \<not> a then (kIoBase, w1\<lparr>w_dev := snd (RawDevice_Close d2)\<rparr>)
          else let w3 = w2\<lparr>w_dev := d2, w_buf := Some (zeros buf_size)\<rparr>
               in (kSuccess, w3\<lparr>w_window_bytes := WindowAt w3 (w_cur_off w3)\<rparr>))"

definition Wal_RebindOptions :: "wal \<Rightarrow> wal_level \<Rightarrow> wal" where
  "Wal_RebindOptions w lvl = w\<lparr>w_level := lvl\<rparr>"

definition last_seq :: "wal \<Rightarrow> nat" where
  "last_seq w = (w_seq_next w + 2 ^ 64 - 1) mod 2 ^ 64"

section \<open>The window\<close>

text \<open>Encode, copy, count; the frame goes behind the frames already in the buffer.\<close>

definition Append :: "wal \<Rightarrow> wal_entry \<Rightarrow> rc \<times> wal" where
  "Append w e =
     (case w_buf w of None \<Rightarrow> (kWalWriteFailed, w)
      | Some buf \<Rightarrow>
        let f = EncodeFrame e (of_nat (w_seq_next w)) in
        (kSuccess, w\<lparr>w_buf := Some (poke (w_n_frames w * kWalFrameSize) (frame_bytes f) buf),
           w_seq_next := (w_seq_next w + 1) mod 2 ^ 64,
           w_n_frames := (w_n_frames w + 1) mod 2 ^ 32\<rparr>))"

definition used_bytes :: "wal \<Rightarrow> nat" where
  "used_bytes w = w_n_frames w * kWalFrameSize"

text \<open>Callers hold a buffer; with the null pointer the code would not be reached.\<close>

definition buffer :: "wal \<Rightarrow> bytes" where
  "buffer w = (case w_buf w of Some buf \<Rightarrow> buf | None \<Rightarrow> [])"

definition WriteWindowSpan :: "wal \<Rightarrow> rc \<times> wal" where
  "WriteWindowSpan w =
     (let bytes = AlignUp (used_bytes w) kWalBlockSize in
      case RawDevice_WriteAt (w_dev w) (w_cur_off w) (take bytes (buffer w)) of (c, d) \<Rightarrow>
      (if c \<noteq> kSuccess then kWalWriteFailed else kSuccess, w\<lparr>w_dev := d\<rparr>))"

text \<open>Whole blocks advance the tail, a partial last block stays in the window.\<close>

definition AdvanceAfterWrite :: "wal \<Rightarrow> wal" where
  "AdvanceAfterWrite w =
     (let used = used_bytes w;
          partial = used mod kWalBlockSize;
          advance = used - partial;
          next0 = w_cur_off w + advance;
          cur = (if 0 < advance then (if next0 = w_ring_end w then w_ring_start w else next0)
                 else w_cur_off w);
          keep = peek (if 0 < advance \<and> 0 < partial then advance else 0) partial (buffer w);
          w1 = w\<lparr>w_cur_off := cur, w_n_frames := partial div kWalFrameSize,
                 w_buf := Some (keep @ zeros (w_buf_size w - partial))\<rparr>
      in w1\<lparr>w_window_bytes := WindowAt w1 cur\<rparr>)"

definition WriteOutWindow :: "wal \<Rightarrow> rc \<times> wal" where
  "WriteOutWindow w =
     (if w_n_frames w = 0 then (kSuccess, w)
      else case WriteWindowSpan w of (c, w1) \<Rightarrow>
        if c \<noteq> kSuccess then (c, w1) else (kSuccess, AdvanceAfterWrite w1))"

definition wal_Sync :: "wal \<Rightarrow> rc \<times> wal" where
  "wal_Sync w = (case RawDevice_Sync (w_dev w) of (c, d) \<Rightarrow> (c, w\<lparr>w_dev := d\<rparr>))"

definition Flush :: "wal \<Rightarrow> rc \<times> wal" where
  "Flush w =
     (if w_buf w = None then (kSuccess, w)
      else if sync_level w then (kSuccess, w)
      else if w_n_frames w = 0 then (kSuccess, w)
      else case WriteWindowSpan w of (c, w1) \<Rightarrow>
        if c \<noteq> kSuccess then (c, w1)
        else case wal_Sync w1 of (c2, w2) \<Rightarrow>
          if c2 \<noteq> kSuccess then (kWalWriteFailed, w2)
          else (kSuccess, AdvanceAfterWrite w2))"

section \<open>The commit group's batch\<close>

text \<open>The admission and encoding loop of \<open>ProcessBatch\<close>: the result is the failure code (or
  success), the writers not reached, and the flags \<open>wrote\<close> and \<open>dirty\<close>.\<close>

definition reopen :: "wal \<Rightarrow> wal" where
  "reopen w = (if w_window_bytes w = 0 then w\<lparr>w_window_bytes := WindowAt w (w_cur_off w)\<rparr> else w)"

fun batch_loop ::
  "wal_entry list \<Rightarrow> bool \<Rightarrow> bool \<Rightarrow> wal \<Rightarrow> rc \<times> wal_entry list \<times> bool \<times> bool \<times> wal" where
  "batch_loop [] wrote dirty w = (kSuccess, [], wrote, dirty, w)"
| "batch_loop (e # es) wrote dirty w =
     (let w1 = reopen w in
      if w_window_bytes w1 = 0 then (kWalFull, e # es, wrote, dirty, w1)
      else
        let full = w_window_bytes w1 \<le> used_bytes w1;
            (c, w2) = (if full then WriteOutWindow w1 else (kSuccess, w1))
        in if c \<noteq> kSuccess then (c, e # es, wrote, dirty, w2)
        else
          let wrote = (wrote \<or> full); dirty = (dirty \<and> \<not> full) in
          if full \<and> w_window_bytes w2 = 0 then (kWalFull, e # es, wrote, dirty, w2)
          else case Append w2 e of (c3, w3) \<Rightarrow>
            if c3 \<noteq> kSuccess then (c3, e # es, wrote, dirty, w3)
            else batch_loop es wrote True w3)"

text \<open>The whole batch: the results of the writers, in order, and the new state.\<close>

definition ProcessBatch :: "wal_entry list \<Rightarrow> wal \<Rightarrow> rc list \<times> wal" where
  "ProcessBatch batch w =
     (case batch_loop batch False False w of (fail_rc, rest, wrote, dirty, w1) \<Rightarrow>
      let (prefix_rc, w4) =
        (if fail_rc \<noteq> kSuccess \<and> fail_rc \<noteq> kWalFull then (fail_rc, w1)
         else
           let (c, w2) = (if dirty then WriteOutWindow w1 else (kSuccess, w1));
               wrote = (wrote \<or> dirty \<and> c = kSuccess);
               (c2, w3) = (if c = kSuccess \<and> wrote then
                             (case wal_Sync w2 of (cs, w3) \<Rightarrow>
                              (if cs \<noteq> kSuccess then kWalWriteFailed else kSuccess, w3))
                           else (c, w2))
           in (if c2 = kSuccess then kSuccess else kWalWriteFailed, w3));
        suffix_rc = (if fail_rc = kWalFull then kWalFull else prefix_rc)
      in (replicate (length batch - length rest) prefix_rc @ replicate (length rest) suffix_rc, w4))"

section \<open>The operations of the component\<close>

text \<open>The single writer's \<open>WriteWal\<close>: at the synchronous levels it is the leader of a batch of
  its own.\<close>

definition WriteWal :: "wal \<Rightarrow> wal_entry \<Rightarrow> rc \<times> wal" where
  "WriteWal w e =
     (if kWalKeyMax < length (e_key e) then (kWalKeyTooLong, w)
      else if w_buf w = None then (kWalWriteFailed, w)
      else if sync_level w then (case ProcessBatch [e] w of (rs, w') \<Rightarrow> (hd rs, w'))
      else
        let w1 = reopen w in
        if w_window_bytes w1 = 0 then (kWalFull, w1)
        else
          let full = w_window_bytes w1 \<le> used_bytes w1;
              (c, w2) = (if full then Flush w1 else (kSuccess, w1))
          in if c \<noteq> kSuccess then (c, w2)
          else if full \<and> w_window_bytes w2 = 0 then (kWalFull, w2)
          else case Append w2 e of (c3, w3) \<Rightarrow>
            if c3 \<noteq> kSuccess then (c3, w3)
            else if w_window_bytes w3 \<le> used_bytes w3 then Flush w3
            else (kSuccess, w3))"

definition reclaim_boundary :: "wal \<Rightarrow> nat" where
  "reclaim_boundary w = w_cur_off w"

definition ReclaimUpTo :: "wal \<Rightarrow> nat \<Rightarrow> rc \<times> wal" where
  "ReclaimUpTo w boundary =
     (let ring = ring_bytes w;
          ok = (w_buf w \<noteq> None \<and> ring \<noteq> 0 \<and> boundary mod kWalBlockSize = 0
                \<and> w_ring_start w \<le> boundary \<and> boundary < w_ring_end w
                \<and> (boundary + ring - w_head_off w) mod ring \<le> (w_cur_off w + ring - w_head_off w) mod ring)
      in if \<not> ok then (kWalInvalidReclaim, w) else (kSuccess, w\<lparr>w_head_off := boundary\<rparr>))"

definition Wal_Close :: "wal \<Rightarrow> rc \<times> wal" where
  "Wal_Close w =
     (let (frc, w1) = (if w_buf w = None then (kSuccess, w)
                       else case Flush w of (c, w') \<Rightarrow> (c, w'\<lparr>w_buf := None\<rparr>));
          (crc, d) = RawDevice_Close (w_dev w1)
      in (if frc \<noteq> kSuccess then frc else crc, w1\<lparr>w_dev := d\<rparr>))"

end
