(* ===== verification/Cabe_WalInv.thy ===== *)
theory Cabe_WalInv
  imports Cabe_Wal
begin

text \<open>
  The log as an abstract list of records and the invariant that ties the window buffer, the
  ring on the device and the durable state to it: frame \<open>k\<close> (sequence number \<open>k + 1\<close>) has its
  fixed slot in the ring; the frames not yet reclaimed never overlap, nor does the window.
\<close>

section \<open>Ring arithmetic\<close>

lemma mod_forward:
  assumes "y mod ring + d < (ring :: nat)"
  shows "(y + d) mod ring = y mod ring + d"
proof -
  have "(y + d) mod ring = (y mod ring + d) mod ring" by (simp only: mod_add_left_eq)
  then show ?thesis using assms by simp
qed

lemma mod_back:
  assumes "x \<le> y" "y - x < (ring :: nat)"
  shows "x mod ring = (if y - x \<le> y mod ring then y mod ring - (y - x)
                       else y mod ring + ring - (y - x))"
proof -
  define d p q where "d = y - x" and "p = x mod ring" and "q = y mod ring"
  have d: "d < ring" using assms by (simp add: d_def)
  have r: "p < ring" using d by (simp add: p_def)
  have "y mod ring = (x + d) mod ring" using assms by (simp add: d_def)
  also have "\<dots> = (p + d) mod ring" by (simp only: mod_add_left_eq p_def)
  also have "\<dots> = (if p + d < ring then p + d else p + d - ring)"
    using r d by (intro mod_once) linarith
  finally have "q = (if p + d < ring then p + d else p + d - ring)" by (simp only: q_def)
  then have "p = (if d \<le> q then q - d else q + ring - d)"
    using r d by (simp split: if_splits)
  then show ?thesis by (simp only: d_def p_def q_def)
qed

lemma mod_distance:
  assumes "x \<le> y" "y - x < (ring :: nat)"
  shows "(y mod ring + ring - x mod ring) mod ring = y - x"
proof -
  define d p q where "d = y - x" and "p = x mod ring" and "q = y mod ring"
  have d: "d < ring" using assms by (simp add: d_def)
  have r: "q < ring" using d by (simp add: q_def)
  have "p = (if d \<le> q then q - d else q + ring - d)"
    using mod_back [OF assms] by (simp only: d_def p_def q_def)
  then have "q + ring - p = (if d \<le> q then ring + d else d)"
    using r d by (simp split: if_splits)
  then have "(q + ring - p) mod ring = d" using d by (simp split: if_splits)
  then show ?thesis by (simp only: d_def p_def q_def)
qed

section \<open>Frames and slots\<close>

text \<open>Frame \<open>k\<close> of a log, and a run of frames.\<close>

definition fb :: "wal_entry list \<Rightarrow> nat \<Rightarrow> bytes" where
  "fb log k = frame_bytes (EncodeFrame (log ! k) (of_nat (k + 1)))"

definition frames :: "wal_entry list \<Rightarrow> nat \<Rightarrow> nat \<Rightarrow> bytes" where
  "frames log a b = concat (map (fb log) [a..<b])"

definition slot_off :: "wal \<Rightarrow> nat \<Rightarrow> nat" where
  "slot_off w k = w_ring_start w + (128 * k) mod ring_bytes w"

definition entries_ok :: "wal_entry list \<Rightarrow> bool" where
  "entries_ok log \<longleftrightarrow> (\<forall>e \<in> set log. entry_ok e)"

lemma fb_length [simp]: "entries_ok log \<Longrightarrow> k < length log \<Longrightarrow> length (fb log k) = 128"
  by (simp add: fb_def entries_ok_def kWalFrameSize_def)

lemma fb_append [simp]: "k < length log \<Longrightarrow> fb (log @ xs) k = fb log k"
  by (simp add: fb_def nth_append)

lemma frames_append [simp]: "b \<le> length log \<Longrightarrow> frames (log @ xs) a b = frames log a b"
  unfolding frames_def by (intro arg_cong [of _ _ concat] map_cong) auto

lemma frames_Suc: "a \<le> b \<Longrightarrow> frames log a (Suc b) = frames log a b @ fb log b"
  by (simp add: frames_def)

lemma frames_Nil [simp]: "b \<le> a \<Longrightarrow> frames log a b = []"
  by (simp add: frames_def)

lemma frames_split: "a \<le> b \<Longrightarrow> b \<le> c \<Longrightarrow> frames log a c = frames log a b @ frames log b c"
  by (metis frames_def concat_append map_append upt_add_eq_append le_Suc_ex)

lemma length_frames [simp]:
  "entries_ok log \<Longrightarrow> a \<le> b \<Longrightarrow> b \<le> length log \<Longrightarrow> length (frames log a b) = 128 * (b - a)"
proof (induction b)
  case (Suc b)
  show ?case
  proof (cases "a \<le> b")
    case True
    then show ?thesis using Suc by (simp add: frames_Suc Suc_diff_le)
  qed (use Suc.prems in simp)
qed simp

lemma peek_frames:
  assumes "entries_ok log" "a \<le> k" "k < b" "b \<le> length log"
  shows "peek (128 * (k - a)) 128 (frames log a b @ zs) = fb log k"
proof -
  have s: "frames log a b = frames log a k @ fb log k @ frames log (Suc k) b"
    using assms by (metis frames_split frames_Suc less_imp_le_nat Suc_leI append.assoc le_SucI)
  show ?thesis
    unfolding s append.assoc using assms by (simp add: codec_simps)
qed

text \<open>The geometry that never changes after opening.\<close>

definition wal_geo :: "wal \<Rightarrow> bool" where
  "wal_geo w \<longleftrightarrow> w_ring_start w = kDataRegionOffset \<and> w_ring_start w \<le> w_ring_end w
     \<and> 4096 dvd ring_bytes w \<and> 4096 dvd w_buf_size w \<and> 0 < w_buf_size w
     \<and> w_buf_size w \<le> 2 ^ 38 \<and> w_buf_size w + 4096 \<le> ring_bytes w"

lemma wal_geoD:
  assumes "wal_geo w"
  shows "8192 \<le> ring_bytes w" "0 < ring_bytes w" "w_ring_end w = w_ring_start w + ring_bytes w"
    "4096 dvd ring_bytes w" "4096 dvd w_buf_size w" "4096 \<le> w_buf_size w"
proof -
  have b: "4096 \<le> w_buf_size w" using assms unfolding wal_geo_def by (intro dvd_imp_le) auto
  then show "8192 \<le> ring_bytes w" "0 < ring_bytes w" "4096 \<le> w_buf_size w"
    using assms by (auto simp: wal_geo_def)
  show "w_ring_end w = w_ring_start w + ring_bytes w" "4096 dvd ring_bytes w" "4096 dvd w_buf_size w"
    using assms by (auto simp: wal_geo_def ring_bytes_def)
qed

lemma dvd_mod_4096: "4096 dvd ring \<Longrightarrow> 32 dvd k \<Longrightarrow> 4096 dvd (128 * k) mod (ring :: nat)"
proof -
  assume r: "4096 dvd ring" and "32 dvd k"
  then obtain j where "k = 32 * j" by (auto simp: dvd_def)
  then have "4096 dvd 128 * k" by simp
  then show ?thesis using r by (simp add: dvd_mod_iff)
qed

text \<open>How much room the window has when \<open>a\<close> frames are reclaimed and \<open>b\<close> written out.\<close>

lemma WindowAt_slot:
  assumes g: "wal_geo w" and ab: "a \<le> b" "128 * (b - a) < ring_bytes w"
    and hd: "w_head_off w = slot_off w a"
  shows "WindowAt w (slot_off w b) =
    min (w_buf_size w) (min (ring_bytes w - (128 * b) mod ring_bytes w)
      (ring_bytes w - 4096 - 128 * (b - a)))"
proof -
  have "(slot_off w b + ring_bytes w - w_head_off w) mod ring_bytes w
      = ((128 * b) mod ring_bytes w + ring_bytes w - (128 * a) mod ring_bytes w) mod ring_bytes w"
    by (simp add: slot_off_def hd)
  also have "\<dots> = 128 * (b - a)"
    using mod_distance [of "128 * a" "128 * b" "ring_bytes w"] ab by (simp add: diff_mult_distrib2)
  finally have live: "(slot_off w b + ring_bytes w - w_head_off w) mod ring_bytes w = 128 * (b - a)" .
  have seam: "w_ring_end w - slot_off w b = ring_bytes w - (128 * b) mod ring_bytes w"
    using wal_geoD(3) [OF g] by (simp add: slot_off_def)
  show ?thesis
    unfolding WindowAt_def Let_def live seam kWalBlockSize_def by simp
qed

section \<open>The invariant\<close>

text \<open>\<open>log\<close> is every record appended since creation, \<open>h\<close> the number of reclaimed frames,
  \<open>m\<close> the number of frames known to be durable. The frames kept are the live ones and those of
  the block before the head, which always stays free (recovery finds its anchor there). Written out and advanced over are
  \<open>length log - w_n_frames w\<close> frames; the rest sits in the buffer.\<close>

definition written :: "wal \<Rightarrow> wal_entry list \<Rightarrow> nat" where
  "written w log = length log - w_n_frames w"

definition on_disk :: "wal \<Rightarrow> (nat \<Rightarrow> u8) \<Rightarrow> wal_entry list \<Rightarrow> nat \<Rightarrow> nat \<Rightarrow> bool" where
  "on_disk w medium log a b \<longleftrightarrow> (\<forall>k. a \<le> k \<and> k < b \<longrightarrow> kread medium (slot_off w k) 128 = fb log k)"

definition wal_win :: "wal \<Rightarrow> wal_entry list \<Rightarrow> nat \<Rightarrow> bool" where
  "wal_win w log h \<longleftrightarrow>
     wal_geo w \<and> entries_ok log \<and> length log + 1 < 2 ^ 64
     \<and> w_seq_next w = length log + 1 \<and> w_n_frames w \<le> length log
     \<and> 32 dvd written w log \<and> 32 dvd h \<and> h \<le> written w log
     \<and> w_head_off w = slot_off w h \<and> w_cur_off w = slot_off w (written w log)
     \<and> 128 * (written w log - h) + 4096 \<le> ring_bytes w
     \<and> 4096 dvd w_window_bytes w \<and> used_bytes w \<le> w_window_bytes w
     \<and> w_window_bytes w \<le> WindowAt w (w_cur_off w)
     \<and> w_buf w = Some (frames log (written w log) (length log) @ zeros (w_buf_size w - used_bytes w))"

definition wal_inv :: "wal \<Rightarrow> wal_entry list \<Rightarrow> nat \<Rightarrow> nat \<Rightarrow> bool" where
  "wal_inv w log h m \<longleftrightarrow> wal_win w log h \<and> m \<le> length log
     \<and> on_disk w (rd_contents (w_dev w)) log (h - 32) (max (written w log) m)
     \<and> on_disk w (rd_durable (w_dev w)) log (h - 32) m"

lemma wal_winD:
  assumes "wal_win w log h"
  shows "wal_geo w" "entries_ok log" "w_seq_next w = length log + 1" "length log + 1 < 2 ^ 64"
    "w_n_frames w \<le> length log" "32 dvd written w log" "32 dvd h" "h \<le> written w log"
    "w_head_off w = slot_off w h" "w_cur_off w = slot_off w (written w log)"
    "128 * (written w log - h) + 4096 \<le> ring_bytes w"
    "4096 dvd w_window_bytes w" "used_bytes w \<le> w_window_bytes w"
    "w_window_bytes w \<le> WindowAt w (w_cur_off w)"
    "w_buf w = Some (frames log (written w log) (length log) @ zeros (w_buf_size w - used_bytes w))"
    "used_bytes w = 128 * (length log - written w log)" "written w log \<le> length log"
proof -
  show "wal_geo w" "entries_ok log" "w_seq_next w = length log + 1" "length log + 1 < 2 ^ 64"
    "w_n_frames w \<le> length log" "32 dvd written w log" "32 dvd h" "h \<le> written w log"
    "w_head_off w = slot_off w h" "w_cur_off w = slot_off w (written w log)"
    "128 * (written w log - h) + 4096 \<le> ring_bytes w"
    "4096 dvd w_window_bytes w" "used_bytes w \<le> w_window_bytes w"
    "w_window_bytes w \<le> WindowAt w (w_cur_off w)"
    "w_buf w = Some (frames log (written w log) (length log) @ zeros (w_buf_size w - used_bytes w))"
    using assms unfolding wal_win_def by blast+
  then show "used_bytes w = 128 * (length log - written w log)" "written w log \<le> length log"
    by (simp_all add: written_def used_bytes_def kWalFrameSize_def)
qed

lemma wal_window:
  assumes "wal_win w log h"
  shows "WindowAt w (w_cur_off w) = min (w_buf_size w)
      (min (ring_bytes w - (128 * written w log) mod ring_bytes w)
        (ring_bytes w - 4096 - 128 * (written w log - h)))"
    "4096 dvd WindowAt w (w_cur_off w)" "w_window_bytes w \<le> w_buf_size w"
    "(128 * written w log) mod ring_bytes w + w_window_bytes w \<le> ring_bytes w"
    "128 * (written w log - h) + w_window_bytes w + 4096 \<le> ring_bytes w"
proof -
  note d = wal_winD [OF assms] and g = wal_geoD [OF wal_winD(1) [OF assms]]
  show W: "WindowAt w (w_cur_off w) = min (w_buf_size w)
      (min (ring_bytes w - (128 * written w log) mod ring_bytes w)
        (ring_bytes w - 4096 - 128 * (written w log - h)))"
    using WindowAt_slot [OF d(1) d(8) _ d(9)] d(10,11) by simp
  have "4096 dvd (128 * written w log) mod ring_bytes w" by (rule dvd_mod_4096 [OF g(4) d(6)])
  moreover have "32 dvd written w log - h" using d(6,7) by (rule dvd_diff_nat)
  then have "4096 dvd 128 * (written w log - h)" by (auto simp: dvd_def)
  ultimately show "4096 dvd WindowAt w (w_cur_off w)"
    unfolding W using g(4,5) by (simp add: min_def dvd_diff_nat)
  show "w_window_bytes w \<le> w_buf_size w" using d(14) W by simp
  have "(128 * written w log) mod ring_bytes w < ring_bytes w" using g(2) by simp
  then show "(128 * written w log) mod ring_bytes w + w_window_bytes w \<le> ring_bytes w"
    using d(14) W by linarith
  show "128 * (written w log - h) + w_window_bytes w + 4096 \<le> ring_bytes w"
    using d(11,14) W by linarith
qed

text \<open>Slots of the frames in the window follow the tail without a gap; the slots of older live
  frames, and of the last reclaimed block, lie outside the window.\<close>

lemma slot_window:
  assumes "wal_win w log h" "written w log \<le> k" "128 * (k - written w log) < w_window_bytes w"
  shows "slot_off w k = w_cur_off w + 128 * (k - written w log)"
proof -
  have "(128 * written w log + 128 * (k - written w log)) mod ring_bytes w
      = (128 * written w log) mod ring_bytes w + 128 * (k - written w log)"
    by (rule mod_forward) (use wal_window(4) [OF assms(1)] assms(3) in linarith)
  moreover have "128 * written w log + 128 * (k - written w log) = 128 * k" using assms(2) by simp
  ultimately show ?thesis using wal_winD(10) [OF assms(1)] by (simp add: slot_off_def)
qed

lemma slot_before:
  assumes n: "k < b" "128 * (b - k) + n \<le> ring_bytes w" "(128 * b) mod ring_bytes w + n \<le> ring_bytes w"
  shows "slot_off w k + 128 \<le> slot_off w b \<or> slot_off w b + n \<le> slot_off w k"
proof -
  define x y R p q D where "x = 128 * k" and "y = 128 * b" and "R = ring_bytes w"
    and "p = x mod R" and "q = y mod R" and "D = y - x"
  have D: "128 \<le> D" "D + n \<le> R" "x \<le> y" using n by (auto simp: D_def x_def y_def R_def)
  have q: "q + n \<le> R" using n(3) by (simp add: q_def y_def R_def)
  have "p + 128 \<le> q \<or> q + n \<le> p"
  proof (cases "D < R")
    case True
    have "p = (if D \<le> q then q - D else q + R - D)"
      using mod_back [OF D(3), of R] True by (simp add: D_def p_def q_def)
    then show ?thesis using D q by (auto split: if_splits)
  next
    case False
    then have "n = 0" "y = x + R" using D by (simp_all add: D_def)
    then show ?thesis by (simp add: p_def q_def)
  qed
  then show ?thesis by (simp add: slot_off_def p_def q_def x_def y_def R_def)
qed

lemma slot_behind:
  assumes "wal_win w log h" "h - 32 \<le> k" "k < written w log"
  shows "slot_off w k + 128 \<le> w_cur_off w \<or> w_cur_off w + w_window_bytes w \<le> slot_off w k"
  unfolding wal_winD(10) [OF assms(1)]
  by (rule slot_before [OF assms(3)])
    (use assms wal_window(4,5) [OF assms(1)] wal_winD(8) [OF assms(1)] in auto)

text \<open>Frames the invariant promises survive a power failure.\<close>

lemma inv_crash_kept:
  assumes "wal_inv w log h m" "crash_image (w_dev w) im" "h - 32 \<le> k" "k < m"
  shows "kread im (slot_off w k) 128 = fb log k"
  using assms by (intro crash_image_region [OF assms(2)]) (auto simp: wal_inv_def on_disk_def)

lemma inv_crash:
  assumes "wal_inv w log h m" "crash_image (w_dev w) im" "h \<le> k" "k < m"
  shows "kread im (slot_off w k) 128 = fb log k"
  by (rule inv_crash_kept [OF assms(1,2) _ assms(4)]) (use assms(3) in simp)

lemma inv_weaken: "wal_inv w log h m \<Longrightarrow> m' \<le> m \<Longrightarrow> wal_inv w log h m'"
  by (auto simp: wal_inv_def on_disk_def)

section \<open>Appending\<close>

lemma poke_zeros:
  "length xs = a \<Longrightarrow> length ys \<le> n \<Longrightarrow> poke a ys (xs @ zeros n) = xs @ ys @ zeros (n - length ys)"
  by (simp add: poke_def)

lemma on_disk_append:
  "b \<le> length log \<Longrightarrow> on_disk w medium (log @ xs) a b = on_disk w medium log a b"
  by (auto simp: on_disk_def)

lemma slot_off_cong:
  "w_ring_start w' = w_ring_start w \<Longrightarrow> w_ring_end w' = w_ring_end w \<Longrightarrow> slot_off w' = slot_off w"
  by (rule ext) (simp add: slot_off_def ring_bytes_def)

lemma on_disk_cong:
  "w_ring_start w' = w_ring_start w \<Longrightarrow> w_ring_end w' = w_ring_end w \<Longrightarrow>
   on_disk w' medium log a b = on_disk w medium log a b"
  by (simp add: on_disk_def slot_off_cong [of w' w])

lemma geo_cong:
  assumes "w_ring_start w' = w_ring_start w" "w_ring_end w' = w_ring_end w" "w_buf_size w' = w_buf_size w"
  shows "wal_geo w' = wal_geo w" "ring_bytes w' = ring_bytes w"
    "w_head_off w' = w_head_off w \<Longrightarrow> WindowAt w' x = WindowAt w x"
proof -
  show r: "ring_bytes w' = ring_bytes w" using assms by (simp add: ring_bytes_def)
  show "wal_geo w' = wal_geo w" unfolding wal_geo_def r assms by (rule refl)
  show "w_head_off w' = w_head_off w \<Longrightarrow> WindowAt w' x = WindowAt w x"
    unfolding WindowAt_def r assms by simp
qed

lemma used_128:
  "wal_win w log h \<Longrightarrow> used_bytes w < w_window_bytes w \<Longrightarrow> used_bytes w + 128 \<le> w_window_bytes w"
proof -
  assume w: "wal_win w log h" and u: "used_bytes w < w_window_bytes w"
  obtain j where "w_window_bytes w = 4096 * j" using wal_winD(12) [OF w] by (auto simp: dvd_def)
  then have "w_window_bytes w = 128 * (32 * j)" by simp
  then show ?thesis using u wal_winD(16) [OF w] mult_less_Suc_bound by (simp; linarith)
qed

lemma Append_win:
  assumes w: "wal_win w log h" and u: "used_bytes w < w_window_bytes w" and e: "entry_ok e"
    and s: "length log + 2 < 2 ^ 64" and a: "Append w e = (c, w')"
  shows "c = kSuccess" "wal_win w' (log @ [e]) h" "w_dev w' = w_dev w" "w_level w' = w_level w"
    "written w' (log @ [e]) = written w log" "w_window_bytes w' = w_window_bytes w"
    "w_ring_start w' = w_ring_start w" "w_ring_end w' = w_ring_end w" "used_bytes w' = used_bytes w + 128"
proof -
  note d = wal_winD [OF w]
  let ?f = "frame_bytes (EncodeFrame e (of_nat (w_seq_next w)))"
  have room: "used_bytes w + 128 \<le> w_buf_size w" using used_128 [OF w u] wal_window(3) [OF w] by simp
  have n: "w_n_frames w < 2 ^ 31"
    using room d(1) by (simp add: used_bytes_def kWalFrameSize_def wal_geo_def)
  let ?w = "w\<lparr>w_buf := Some (poke (used_bytes w) ?f (buffer w)), w_seq_next := w_seq_next w + 1,
    w_n_frames := w_n_frames w + 1\<rparr>"
  have w': "c = kSuccess" "w' = ?w"
    using a d(3,4,15) n s by (simp_all add: Append_def Let_def used_bytes_def buffer_def)
  then show "c = kSuccess" "w_dev w' = w_dev w" "w_level w' = w_level w" "w_window_bytes w' = w_window_bytes w"
    "w_ring_start w' = w_ring_start w" "w_ring_end w' = w_ring_end w"
    by simp_all
  show wr: "written w' (log @ [e]) = written w log" using w' d(5) by (simp add: written_def)
  show us: "used_bytes w' = used_bytes w + 128" by (simp add: w' used_bytes_def kWalFrameSize_def)
  have eqs: "w_ring_start w' = w_ring_start w" "w_ring_end w' = w_ring_end w"
    "w_buf_size w' = w_buf_size w" "w_head_off w' = w_head_off w" "w_cur_off w' = w_cur_off w"
    "w_window_bytes w' = w_window_bytes w" "w_seq_next w' = w_seq_next w + 1"
    "w_n_frames w' = w_n_frames w + 1"
    by (simp_all add: w')
  note geo = geo_cong [OF eqs(1,2,3)] slot_off_cong [OF eqs(1,2)]
  have f: "?f = fb (log @ [e]) (length log)" by (simp add: fb_def d(3))
  have lf: "length ?f = 128" using e by (simp add: kWalFrameSize_def)
  have "length (frames log (written w log) (length log)) = used_bytes w"
    using d(2,16,17) by simp
  then have "poke (used_bytes w) ?f (buffer w)
      = frames log (written w log) (length log) @ ?f @ zeros (w_buf_size w - used_bytes w - 128)"
    using d(15) room lf poke_zeros [of "frames log (written w log) (length log)" "used_bytes w" ?f
        "w_buf_size w - used_bytes w"] by (simp add: buffer_def)
  also have "\<dots> = frames (log @ [e]) (written w log) (length (log @ [e]))
      @ zeros (w_buf_size w - used_bytes w')"
    using f d(17) us by (simp add: frames_Suc)
  finally have buf: "w_buf w' = Some (frames (log @ [e]) (written w log) (length (log @ [e]))
      @ zeros (w_buf_size w' - used_bytes w'))" unfolding eqs by (simp add: w' eqs)
  have eo: "entries_ok (log @ [e])" using d(2) e by (simp add: entries_ok_def)
  show "wal_win w' (log @ [e]) h"
    unfolding wal_win_def wr geo(1,2,4) geo(3) [OF eqs(4)]
  proof (intro conjI)
    show "w_buf w' = Some (frames (log @ [e]) (written w log) (length (log @ [e]))
        @ zeros (w_buf_size w' - used_bytes w'))" by (rule buf)
  qed (use d eqs eo us used_128 [OF w u] s in simp_all)
qed

lemma Append_inv:
  assumes w: "wal_inv w log h m" and u: "used_bytes w < w_window_bytes w" and e: "entry_ok e"
    and s: "length log + 2 < 2 ^ 64" and a: "Append w e = (c, w')"
  shows "wal_inv w' (log @ [e]) h m"
proof -
  have win: "wal_win w log h" and m: "m \<le> length log" using w by (simp_all add: wal_inv_def)
  note A = Append_win [OF win u e s a]
  show ?thesis
    using w A wal_winD(17) [OF win]
    by (simp add: wal_inv_def on_disk_cong [OF A(7,8)] on_disk_append)
qed

section \<open>Writing the window out\<close>

lemma kread_kwrite_agree:
  assumes "kread f a n = bs" "peek (a - off) n buf = bs" "off \<le> a" "a + n \<le> off + length buf"
  shows "kread (kwrite f off (take j buf)) a n = bs"
proof (rule nth_equalityI)
  have len: "length bs = n" using assms(1) by auto
  then show "length (kread (kwrite f off (take j buf)) a n) = length bs" by simp
  fix i
  assume "i < length (kread (kwrite f off (take j buf)) a n)"
  then have i: "i < n" by simp
  have "bs ! i = f (a + i)" using assms(1) i by auto
  moreover have "a - off + n \<le> length buf" using assms(3,4) by linarith
  then have "bs ! i = buf ! (a - off + i)" using nth_peek [of "a - off" n buf i] i assms(2) by simp
  ultimately show "kread (kwrite f off (take j buf)) a n ! i = bs ! i"
    using i assms(3,4) by (simp add: kwrite_def)
qed

lemma peek_take: "a + n \<le> s \<Longrightarrow> peek a n (take s xs) = peek a n xs"
  by (simp add: peek_def drop_take take_take min_def)

lemma span_size:
  assumes "wal_win w log h"
  shows "used_bytes w \<le> AlignUp (used_bytes w) kWalBlockSize"
    "AlignUp (used_bytes w) kWalBlockSize \<le> w_window_bytes w"
    "length (buffer w) = w_buf_size w"
proof -
  note d = wal_winD [OF assms]
  have "used_bytes w \<le> 2 ^ 38" using d(1,13) wal_window(3) [OF assms] by (simp add: wal_geo_def)
  then have nw: "used_bytes w + kWalBlockSize \<le> 2 ^ 64" by (simp add: kWalBlockSize_def)
  show "used_bytes w \<le> AlignUp (used_bytes w) kWalBlockSize"
    by (rule AlignUp_ge [OF _ nw]) (simp add: kWalBlockSize_def)
  show "AlignUp (used_bytes w) kWalBlockSize \<le> w_window_bytes w"
    by (rule AlignUp_least [OF _ nw]) (use d(12,13) in \<open>simp_all add: kWalBlockSize_def\<close>)
  show "length (buffer w) = w_buf_size w"
    using d(2,13,15,16,17) wal_window(3) [OF assms] by (simp add: buffer_def)
qed

lemma buffer_frame:
  assumes "wal_win w log h" "written w log \<le> k" "k < length log"
  shows "peek (128 * (k - written w log)) 128 (buffer w) = fb log k"
    "128 * (k - written w log) + 128 \<le> used_bytes w"
    "slot_off w k = w_cur_off w + 128 * (k - written w log)"
proof -
  note d = wal_winD [OF assms(1)]
  show "peek (128 * (k - written w log)) 128 (buffer w) = fb log k"
    using peek_frames [OF d(2) assms(2,3) order_refl] d(15) by (simp add: buffer_def)
  have "Suc (k - written w log) \<le> length log - written w log" using assms by simp
  then show u: "128 * (k - written w log) + 128 \<le> used_bytes w" unfolding d(16) by linarith
  show "slot_off w k = w_cur_off w + 128 * (k - written w log)"
    by (rule slot_window [OF assms(1,2)]) (use u d(13) in linarith)
qed

lemma wal_inv_dev:
  assumes "wal_inv w log h m"
    and "on_disk w (rd_contents d) log (h - 32) (max (written w log) m)" "on_disk w (rd_durable d) log (h - 32) m'"
    and "m' \<le> length log" "on_disk w (rd_contents d) log (h - 32) m'"
  shows "wal_inv (w\<lparr>w_dev := d\<rparr>) log h m'"
proof -
  have same: "slot_off (w\<lparr>w_dev := d\<rparr>) = slot_off w" "WindowAt (w\<lparr>w_dev := d\<rparr>) x = WindowAt w x"
    "wal_geo (w\<lparr>w_dev := d\<rparr>) = wal_geo w" "ring_bytes (w\<lparr>w_dev := d\<rparr>) = ring_bytes w"
    "written (w\<lparr>w_dev := d\<rparr>) log = written w log" "used_bytes (w\<lparr>w_dev := d\<rparr>) = used_bytes w" for x
    using slot_off_cong [of "w\<lparr>w_dev := d\<rparr>" w] geo_cong [of "w\<lparr>w_dev := d\<rparr>" w]
    by (simp_all add: written_def used_bytes_def)
  have "wal_win (w\<lparr>w_dev := d\<rparr>) log h"
  proof -
    have "wal_win (w\<lparr>w_dev := d\<rparr>) log h = wal_win w log h"
      unfolding wal_win_def same by simp
    then show ?thesis using assms(1) by (simp add: wal_inv_def)
  qed
  moreover have "on_disk (w\<lparr>w_dev := d\<rparr>) medium log a b = on_disk w medium log a b" for medium a b
    by (rule on_disk_cong) simp_all
  moreover have "on_disk w (rd_contents d) log (h - 32) (max (written w log) m')"
    using assms(2,5) by (auto simp: on_disk_def max_def split: if_splits)
  ultimately show ?thesis
    using assms(3,4) same by (simp add: wal_inv_def)
qed

lemma WriteWindowSpan_inv:
  assumes inv: "wal_inv w log h m" and run: "WriteWindowSpan w = (c, w')"
  shows "w' = w\<lparr>w_dev := w_dev w'\<rparr>" "wal_inv w' log h m" "c = kSuccess \<or> c = kWalWriteFailed"
    "c = kSuccess \<Longrightarrow> on_disk w' (rd_contents (w_dev w')) log (h - 32) (length log)"
proof -
  have win: "wal_win w log h" and m: "m \<le> length log"
    and con: "on_disk w (rd_contents (w_dev w)) log (h - 32) (max (written w log) m)"
    and dur: "on_disk w (rd_durable (w_dev w)) log (h - 32) m" using inv by (auto simp: wal_inv_def)
  let ?S = "AlignUp (used_bytes w) kWalBlockSize"
  note sp = span_size [OF win] and d = wal_winD [OF win]
  obtain c0 dv where wr: "RawDevice_WriteAt (w_dev w) (w_cur_off w) (take ?S (buffer w)) = (c0, dv)"
    by fastforce
  have w': "w' = w\<lparr>w_dev := dv\<rparr>" "c = (if c0 \<noteq> kSuccess then kWalWriteFailed else kSuccess)"
    using run wr by (simp_all add: WriteWindowSpan_def Let_def)
  then show "w' = w\<lparr>w_dev := w_dev w'\<rparr>" "c = kSuccess \<or> c = kWalWriteFailed" by auto
  have len: "length (take ?S (buffer w)) = ?S" using sp wal_window(3) [OF win] by simp
  obtain j where j: "rd_contents dv = kwrite (rd_contents (w_dev w)) (w_cur_off w) (take j (take ?S (buffer w)))"
    "c0 = kSuccess \<Longrightarrow> j = ?S"
    using WriteAt_prefix [OF wr] len by auto
  have behind: "kread (rd_contents dv) (slot_off w k) 128 = fb log k" if "h - 32 \<le> k" "k < written w log" for k
  proof -
    have "kread (rd_contents (w_dev w)) (slot_off w k) 128 = fb log k" using con that by (simp add: on_disk_def)
    moreover have "slot_off w k + 128 \<le> w_cur_off w \<or> w_cur_off w + length (take j (take ?S (buffer w))) \<le> slot_off w k"
      using slot_behind [OF win that] len sp(2) by (auto simp: min_def)
    ultimately show ?thesis unfolding j(1) by (simp add: kread_kwrite_disjoint)
  qed
  have inside: "kread (rd_contents dv) (slot_off w k) 128 = fb log k"
    if k: "written w log \<le> k" "k < length log"
      and old: "c0 = kSuccess \<or> kread (rd_contents (w_dev w)) (slot_off w k) 128 = fb log k" for k
  proof -
    note b = buffer_frame [OF win k]
    have pk: "peek (slot_off w k - w_cur_off w) 128 (take ?S (buffer w)) = fb log k"
      using b sp(1) by (simp add: peek_take)
    have rng: "w_cur_off w \<le> slot_off w k" "slot_off w k + 128 \<le> w_cur_off w + length (take ?S (buffer w))"
      unfolding len using b sp(1) by linarith+
    show ?thesis
    proof (cases "c0 = kSuccess")
      case True
      then have "rd_contents dv = kwrite (rd_contents (w_dev w)) (w_cur_off w) (take ?S (buffer w))"
        using j len by simp
      then show ?thesis using kread_kwrite_inside [OF rng] pk by simp
    next
      case False
      then show ?thesis unfolding j(1) using kread_kwrite_agree [OF _ pk rng] old by blast
    qed
  qed
  have con': "on_disk w (rd_contents dv) log (h - 32) (max (written w log) m)"
    unfolding on_disk_def
  proof (intro allI impI)
    fix k
    assume k: "h - 32 \<le> k \<and> k < max (written w log) m"
    show "kread (rd_contents dv) (slot_off w k) 128 = fb log k"
    proof (cases "k < written w log")
      case False
      then show ?thesis using inside [of k] k m con by (auto simp: on_disk_def)
    qed (use behind k in blast)
  qed
  then have "on_disk w (rd_contents dv) log (h - 32) m" by (auto simp: on_disk_def)
  moreover have "on_disk w (rd_durable dv) log (h - 32) m" using dur raw.wr_durable [OF wr] by simp
  ultimately show "wal_inv w' log h m" unfolding w' by (intro wal_inv_dev [OF inv con'] m)
  show "c = kSuccess \<Longrightarrow> on_disk w' (rd_contents (w_dev w')) log (h - 32) (length log)"
  proof -
    assume "c = kSuccess"
    then have ok: "c0 = kSuccess" using w' by (auto split: if_splits)
    have "on_disk w (rd_contents dv) log (h - 32) (length log)"
      unfolding on_disk_def using behind inside ok by (metis not_less)
    then show ?thesis unfolding w' using on_disk_cong [of "w\<lparr>w_dev := dv\<rparr>" w] by simp
  qed
qed

section \<open>Advancing over what was written\<close>

lemma WindowAt_dvd:
  assumes g: "wal_geo w" and ab: "a \<le> b" "128 * (b - a) + 4096 \<le> ring_bytes w" "32 dvd a" "32 dvd b"
    and hd: "w_head_off w = slot_off w a"
  shows "4096 dvd WindowAt w (slot_off w b)"
proof -
  have "4096 dvd (128 * b) mod ring_bytes w" by (rule dvd_mod_4096 [OF wal_geoD(4) [OF g] ab(4)])
  moreover have "32 dvd b - a" using ab(3,4) by (simp add: dvd_diff_nat)
  then have "4096 dvd 128 * (b - a)" by (auto simp: dvd_def)
  moreover have "128 * (b - a) < ring_bytes w" using ab(2) by linarith
  ultimately show ?thesis
    using WindowAt_slot [OF g ab(1) _ hd] wal_geoD(4,5) [OF g] by (simp add: min_def dvd_diff_nat)
qed

text \<open>Where the tail goes: \<open>q\<close> whole blocks, \<open>r\<close> frames left in the window.\<close>

lemma Advance_numbers:
  assumes w: "wal_win w log h"
  defines "n \<equiv> length log - written w log"
  shows "used_bytes w mod 4096 = 128 * (n mod 32)"
    and "used_bytes w - used_bytes w mod 4096 = 128 * (32 * (n div 32))"
    and "(if 0 < 128 * (32 * (n div 32))
          then (if w_cur_off w + 128 * (32 * (n div 32)) = w_ring_end w then w_ring_start w
                else w_cur_off w + 128 * (32 * (n div 32)))
          else w_cur_off w) = slot_off w (written w log + 32 * (n div 32))"
    and "128 * (written w log + 32 * (n div 32) - h) + 4096 \<le> ring_bytes w"
    and "0 < n mod 32 \<Longrightarrow> (128 * written w log) mod ring_bytes w + 128 * (32 * (n div 32)) + 4096 \<le> ring_bytes w
           \<and> 128 * (written w log + 32 * (n div 32) - h) + 8192 \<le> ring_bytes w"
proof -
  note d = wal_winD [OF w] and ww = wal_window [OF w] and g = wal_geoD [OF wal_winD(1) [OF w]]
  have nm: "n = 32 * (n div 32) + n mod 32" by simp
  have u: "used_bytes w = 128 * n" using d(16) by (simp add: n_def)
  have "128 * n mod 4096 = 128 * (n mod 32)" using mult_mod_right [of 128 n 32] by simp
  then show m: "used_bytes w mod 4096 = 128 * (n mod 32)" using u by simp
  show a: "used_bytes w - used_bytes w mod 4096 = 128 * (32 * (n div 32))"
    using m u nm by linarith
  have adv: "128 * (32 * (n div 32)) \<le> w_window_bytes w" using d(13) u nm by linarith
  show le: "128 * (written w log + 32 * (n div 32) - h) + 4096 \<le> ring_bytes w"
    using ww(5) adv d(8) by (simp add: add_mult_distrib2 diff_mult_distrib2)
  show "0 < n mod 32 \<Longrightarrow> (128 * written w log) mod ring_bytes w + 128 * (32 * (n div 32)) + 4096 \<le> ring_bytes w
           \<and> 128 * (written w log + 32 * (n div 32) - h) + 8192 \<le> ring_bytes w"
  proof -
    assume p: "0 < n mod 32"
    obtain j where j: "w_window_bytes w = 4096 * j" using d(12) by (auto simp: dvd_def)
    have "4096 * (n div 32) < 4096 * j" using d(13) u nm j p by linarith
    then have "4096 * (n div 32) + 4096 \<le> 4096 * j" by simp
    then have "128 * (32 * (n div 32)) + 4096 \<le> w_window_bytes w" using j by linarith
    moreover have "128 * (written w log + 32 * (n div 32) - h) = 128 * (written w log - h) + 128 * (32 * (n div 32))"
      using d(8) by simp
    ultimately show ?thesis using ww(4,5) by linarith
  qed
  define p where "p = (128 * written w log) mod ring_bytes w"
  define A where "A = 128 * (32 * (n div 32))"
  have cur: "w_cur_off w = w_ring_start w + p" using d(10) by (simp add: slot_off_def p_def)
  have bound: "p + A \<le> ring_bytes w" using ww(4) adv by (simp add: p_def A_def)
  have "slot_off w (written w log + 32 * (n div 32)) = w_ring_start w + (128 * written w log + A) mod ring_bytes w"
    by (simp add: slot_off_def A_def add_mult_distrib2)
  also have "(128 * written w log + A) mod ring_bytes w = (p + A) mod ring_bytes w"
    unfolding p_def by (simp only: mod_add_left_eq)
  also have "\<dots> = (if p + A = ring_bytes w then 0 else p + A)" using bound by auto
  finally have s: "slot_off w (written w log + 32 * (n div 32))
      = w_ring_start w + (if p + A = ring_bytes w then 0 else p + A)" .
  have "p < ring_bytes w" using g(2) by (simp add: p_def)
  then show "(if 0 < 128 * (32 * (n div 32))
          then (if w_cur_off w + 128 * (32 * (n div 32)) = w_ring_end w then w_ring_start w
                else w_cur_off w + 128 * (32 * (n div 32)))
          else w_cur_off w) = slot_off w (written w log + 32 * (n div 32))"
    unfolding s cur A_def [symmetric] g(3) by auto
qed

lemma peek_mid: "length A = a \<Longrightarrow> length B = n \<Longrightarrow> peek a n (A @ B @ Z) = B"
  by (simp add: peek_def)

lemma Advance_inv:
  assumes inv: "wal_inv w log h m" and disk: "on_disk w (rd_contents (w_dev w)) log (h - 32) (length log)"
  shows "wal_inv (AdvanceAfterWrite w) log h m" "w_dev (AdvanceAfterWrite w) = w_dev w"
    "w_level (AdvanceAfterWrite w) = w_level w"
    "slot_off (AdvanceAfterWrite w) = slot_off w" "ring_bytes (AdvanceAfterWrite w) = ring_bytes w"
    "w_buf (AdvanceAfterWrite w) \<noteq> None"
    "w_window_bytes (AdvanceAfterWrite w) = WindowAt (AdvanceAfterWrite w) (w_cur_off (AdvanceAfterWrite w))"
proof -
  have w: "wal_win w log h" and m: "m \<le> length log"
    and dur: "on_disk w (rd_durable (w_dev w)) log (h - 32) m" using inv by (auto simp: wal_inv_def)
  note d = wal_winD [OF w] and N = Advance_numbers [OF w]
  define n where "n = length log - written w log"
  define wr where "wr = written w log + 32 * (n div 32)"
  let ?w = "AdvanceAfterWrite w"
  have nr: "length log = wr + n mod 32" using d(17) by (simp add: wr_def n_def)
  define keep where "keep = peek (if 0 < 128 * (32 * (n div 32)) \<and> 0 < 128 * (n mod 32)
      then 128 * (32 * (n div 32)) else 0) (128 * (n mod 32)) (buffer w)"
  have keep: "keep = frames log wr (length log)"
  proof (cases "n mod 32 = 0")
    case True
    then show ?thesis using nr by (simp add: keep_def peek_def)
  next
    case False
    have "keep = peek (128 * (32 * (n div 32))) (128 * (n mod 32)) (buffer w)"
      using False by (cases "n div 32 = 0") (simp_all add: keep_def)
    also have "buffer w = frames log (written w log) wr @ frames log wr (length log)
        @ zeros (w_buf_size w - used_bytes w)"
      using d(15) frames_split [of "written w log" wr "length log" log] nr
      by (simp add: buffer_def wr_def)
    also have "peek (128 * (32 * (n div 32))) (128 * (n mod 32)) \<dots> = frames log wr (length log)"
    proof (rule peek_mid)
      show "length (frames log (written w log) wr) = 128 * (32 * (n div 32))"
        using d(2) nr by (simp add: wr_def)
      show "length (frames log wr (length log)) = 128 * (n mod 32)"
        using d(2) nr by simp
    qed
    finally show ?thesis .
  qed
  have N2: "used_bytes w - 128 * (n mod 32) = 128 * (32 * (n div 32))"
    using N(1,2) [folded n_def] by simp
  have W: "?w = (let w1 = w\<lparr>w_cur_off := slot_off w wr, w_n_frames := n mod 32,
      w_buf := Some (keep @ zeros (w_buf_size w - 128 * (n mod 32)))\<rparr>
      in w1\<lparr>w_window_bytes := WindowAt w1 (slot_off w wr)\<rparr>)"
    unfolding AdvanceAfterWrite_def Let_def kWalBlockSize_def kWalFrameSize_def
      N(1) [folded n_def] N2 N(3) [folded n_def] wr_def [symmetric] keep_def [symmetric]
    by simp
  have eqs: "w_ring_start ?w = w_ring_start w" "w_ring_end ?w = w_ring_end w"
    "w_buf_size ?w = w_buf_size w" "w_head_off ?w = w_head_off w" "w_cur_off ?w = slot_off w wr"
    "w_seq_next ?w = w_seq_next w" "w_n_frames ?w = n mod 32" "w_dev ?w = w_dev w"
    "w_buf ?w = Some (keep @ zeros (w_buf_size w - 128 * (n mod 32)))" "w_level ?w = w_level w"
    by (simp_all add: W Let_def)
  note geo = geo_cong [OF eqs(1,2,3)] slot_off_cong [OF eqs(1,2)]
  have win: "w_window_bytes ?w = WindowAt w (slot_off w wr)"
    unfolding W Let_def
    using geo_cong(3) [of "w\<lparr>w_cur_off := slot_off w wr, w_n_frames := n mod 32,
      w_buf := Some (keep @ zeros (w_buf_size w - 128 * (n mod 32)))\<rparr>" w] by simp
  have wr': "written ?w log = wr" using nr eqs(7) by (simp add: written_def)
  have us: "used_bytes ?w = 128 * (n mod 32)" using eqs(7) by (simp add: used_bytes_def kWalFrameSize_def)
  have h: "h \<le> wr" "32 dvd wr" using d(6,8) by (simp_all add: wr_def)
  have le: "128 * (wr - h) + 4096 \<le> ring_bytes w" using N(4) [folded n_def] by (simp add: wr_def)
  have dv: "4096 dvd WindowAt w (slot_off w wr)"
    by (rule WindowAt_dvd [OF d(1) h(1) le d(7) h(2) d(9)])
  have fit: "128 * (n mod 32) \<le> WindowAt w (slot_off w wr)"
  proof (cases "n mod 32 = 0")
    case False
    have "n mod 32 < 32" by simp
    then have b: "128 * (n mod 32) \<le> 4096" by linarith
    have "(128 * wr) mod ring_bytes w + 4096 \<le> ring_bytes w"
    proof -
      have x: "(128 * written w log) mod ring_bytes w + 128 * (32 * (n div 32)) + 4096 \<le> ring_bytes w"
        using N(5) [folded n_def] False by simp
      have "128 * wr = 128 * written w log + 128 * (32 * (n div 32))" by (simp add: wr_def)
      then have "(128 * wr) mod ring_bytes w = (128 * written w log) mod ring_bytes w + 128 * (32 * (n div 32))"
        using mod_forward [of "128 * written w log" "ring_bytes w" "128 * (32 * (n div 32))"] x by simp
      then show ?thesis using x by linarith
    qed
    then have c2: "4096 \<le> ring_bytes w - (128 * wr) mod ring_bytes w" by linarith
    have "128 * (wr - h) + 8192 \<le> ring_bytes w" using N(5) [folded n_def] False by (simp add: wr_def)
    then have c3: "4096 \<le> ring_bytes w - 4096 - 128 * (wr - h)" and lt: "128 * (wr - h) < ring_bytes w"
      by linarith+
    show ?thesis
      unfolding WindowAt_slot [OF d(1) h(1) lt d(9)]
      by (intro min.boundedI order_trans [OF b] wal_geoD(6) [OF d(1)] c2 c3)
  qed simp
  have "wal_win ?w log h"
    unfolding wal_win_def wr' us win geo(1,2,4) geo(3) [OF eqs(4)] eqs
    using d(1-9) h le dv fit keep nr by simp
  moreover have "on_disk ?w medium log a b = on_disk w medium log a b" for medium a b
    by (rule on_disk_cong [OF eqs(1,2)])
  moreover have "on_disk w (rd_contents (w_dev w)) log (h - 32) (max wr m)"
    using disk m nr by (auto simp: on_disk_def)
  ultimately show "wal_inv ?w log h m" using m dur eqs(8) wr' by (simp add: wal_inv_def)
  show "w_dev ?w = w_dev w" "w_level ?w = w_level w" "slot_off ?w = slot_off w"
    "ring_bytes ?w = ring_bytes w" "w_buf ?w \<noteq> None" using eqs geo by simp_all
  show "w_window_bytes ?w = WindowAt ?w (w_cur_off ?w)"
    unfolding win geo(3) [OF eqs(4)] eqs(5) by (rule refl)
qed

section \<open>Writing out, syncing, flushing\<close>

lemma WriteOutWindow_inv:
  assumes inv: "wal_inv w log h m" and run: "WriteOutWindow w = (c, w')"
  shows "wal_inv w' log h m" "c = kSuccess \<or> c = kWalWriteFailed" "w_level w' = w_level w"
    "c = kSuccess \<Longrightarrow> w_n_frames w \<noteq> 0 \<Longrightarrow> on_disk w' (rd_contents (w_dev w')) log (h - 32) (length log)"
    "c = kSuccess \<Longrightarrow> used_bytes w = w_window_bytes w \<Longrightarrow> w_n_frames w' = 0"
    "c = kSuccess \<Longrightarrow> w_n_frames w \<noteq> 0 \<Longrightarrow> w_window_bytes w' = WindowAt w' (w_cur_off w')"
proof -
  have win: "wal_win w log h" using inv by (simp add: wal_inv_def)
  obtain c1 w1 where sp: "WriteWindowSpan w = (c1, w1)" by fastforce
  note S = WriteWindowSpan_inv [OF inv sp]
  have lv: "w_level w1 = w_level w" "w_n_frames w1 = w_n_frames w"
    using S(1) by (metis wal.surjective wal.ext_inject wal.update_convs(1))+
  note A = Advance_inv [OF S(2) S(4)]
  note R = run [unfolded WriteOutWindow_def sp prod.case]
  consider "w_n_frames w = 0" "c = kSuccess" "w' = w"
    | "w_n_frames w \<noteq> 0" "c1 \<noteq> kSuccess" "c = c1" "w' = w1"
    | "w_n_frames w \<noteq> 0" "c1 = kSuccess" "c = kSuccess" "w' = AdvanceAfterWrite w1"
    using R by (auto split: if_splits)
  note cases = this
  show "wal_inv w' log h m" using cases by cases (use inv S A in auto)
  show "c = kSuccess \<or> c = kWalWriteFailed" using cases by cases (use S in auto)
  show "w_level w' = w_level w" using cases by cases (use lv A in auto)
  show "c = kSuccess \<Longrightarrow> w_n_frames w \<noteq> 0 \<Longrightarrow> w_window_bytes w' = WindowAt w' (w_cur_off w')"
    using cases by cases (use A(7) in auto)
  show "c = kSuccess \<Longrightarrow> w_n_frames w \<noteq> 0 \<Longrightarrow> on_disk w' (rd_contents (w_dev w')) log (h - 32) (length log)"
    using cases by cases (use S(4) A in \<open>auto simp: on_disk_def\<close>)
  show "c = kSuccess \<Longrightarrow> used_bytes w = w_window_bytes w \<Longrightarrow> w_n_frames w' = 0"
  proof -
    assume c: "c = kSuccess" and full: "used_bytes w = w_window_bytes w"
    have "w_n_frames (AdvanceAfterWrite w1) = used_bytes w1 mod 4096 div 128"
      by (simp add: AdvanceAfterWrite_def Let_def kWalBlockSize_def kWalFrameSize_def)
    moreover have "used_bytes w1 = used_bytes w" using lv by (simp add: used_bytes_def)
    moreover have "4096 dvd used_bytes w" using full wal_winD(12) [OF win] by simp
    ultimately have "w_n_frames (AdvanceAfterWrite w1) = 0" by (simp add: dvd_imp_mod_0)
    then show ?thesis using cases c by cases auto
  qed
qed

lemma wal_Sync_inv:
  assumes inv: "wal_inv w log h m" and run: "wal_Sync w = (c, w')"
    and disk: "on_disk w (rd_contents (w_dev w)) log (h - 32) m'" "m' \<le> length log"
  shows "wal_inv w' log h m" "w_level w' = w_level w" "w' = w\<lparr>w_dev := w_dev w'\<rparr>"
    "c = kSuccess \<Longrightarrow> wal_inv w' log h m'"
    "rd_contents (w_dev w') = rd_contents (w_dev w)"
proof -
  obtain d where s: "RawDevice_Sync (w_dev w) = (c, d)" "w' = w\<lparr>w_dev := d\<rparr>"
    using run by (auto simp: wal_Sync_def split: prod.splits)
  note sc = raw.sync_contents [OF s(1)] and sd = raw.sync_durable [OF s(1)]
  have win: "m \<le> length log" "on_disk w (rd_contents (w_dev w)) log (h - 32) (max (written w log) m)"
    "on_disk w (rd_durable (w_dev w)) log (h - 32) m"
    using inv by (auto simp: wal_inv_def)
  then have cm: "on_disk w (rd_contents (w_dev w)) log (h - 32) m" by (auto simp: on_disk_def)
  have dm: "on_disk w (rd_durable d) log (h - 32) m" using sd cm win(3) by simp
  show "wal_inv w' log h m"
    unfolding s(2) using wal_inv_dev [OF inv, of d m] win cm dm sc by simp
  show "w_level w' = w_level w" "w' = w\<lparr>w_dev := w_dev w'\<rparr>" "rd_contents (w_dev w') = rd_contents (w_dev w)"
    using s sc by simp_all
  show "c = kSuccess \<Longrightarrow> wal_inv w' log h m'"
    unfolding s(2) using wal_inv_dev [OF inv, of d m'] win disk sc sd by simp
qed

lemma on_disk_w_dev:
  "w' = w\<lparr>w_dev := d\<rparr> \<Longrightarrow> on_disk w' medium log a b = on_disk w medium log a b"
  by (intro on_disk_cong) simp_all

lemma Flush_inv:
  assumes inv: "wal_inv w log h m" and run: "Flush w = (c, w')"
  shows "wal_inv w' log h m" "c = kSuccess \<or> c = kWalWriteFailed" "w_level w' = w_level w"
    "c = kSuccess \<Longrightarrow> \<not> sync_level w \<Longrightarrow> w_n_frames w \<noteq> 0 \<Longrightarrow> wal_inv w' log h (length log)"
    "c = kSuccess \<Longrightarrow> \<not> sync_level w \<Longrightarrow> used_bytes w = w_window_bytes w \<Longrightarrow> w_n_frames w' = 0"
    "c = kSuccess \<Longrightarrow> \<not> sync_level w \<Longrightarrow> w_n_frames w \<noteq> 0 \<Longrightarrow> w_window_bytes w' = WindowAt w' (w_cur_off w')"
proof -
  have win: "wal_win w log h" using inv by (simp add: wal_inv_def)
  obtain c1 w1 where sp: "WriteWindowSpan w = (c1, w1)" by fastforce
  obtain c2 w2 where sy: "wal_Sync w1 = (c2, w2)" by fastforce
  note S = WriteWindowSpan_inv [OF inv sp]
  have lv: "w_level w1 = w_level w" "w_n_frames w1 = w_n_frames w"
    using S(1) by (metis wal.surjective wal.ext_inject wal.update_convs(1))+
  have Y: "wal_inv w2 log h m" "w_level w2 = w_level w" "w_n_frames w2 = w_n_frames w"
    if "c1 = kSuccess"
    using wal_Sync_inv [OF S(2) sy S(4) order_refl] that lv
    by (auto, metis wal.surjective wal.ext_inject wal.update_convs(1))
  have Z: "wal_inv w2 log h (length log)" "on_disk w2 (rd_contents (w_dev w2)) log (h - 32) (length log)"
    if "c1 = kSuccess" "c2 = kSuccess"
    using wal_Sync_inv [OF S(2) sy S(4) order_refl] that
    by (auto simp: wal_inv_def on_disk_def max_def split: if_splits)
  note A = Advance_inv [OF Z(1) Z(2)]
  consider (nop) "c = kSuccess" "w' = w" "w_buf w = None \<or> sync_level w \<or> w_n_frames w = 0"
    | (f1) "c1 \<noteq> kSuccess" "c = c1" "w' = w1"
    | (f2) "c1 = kSuccess" "c2 \<noteq> kSuccess" "c = kWalWriteFailed" "w' = w2"
    | (ok) "c1 = kSuccess" "c2 = kSuccess" "c = kSuccess" "w' = AdvanceAfterWrite w2"
    using run [unfolded Flush_def sp prod.case sy] by (auto split: if_splits)
  note cases = this
  have m: "m \<le> length log" using inv by (simp add: wal_inv_def)
  have Am: "c1 = kSuccess \<Longrightarrow> c2 = kSuccess \<Longrightarrow> wal_inv (AdvanceAfterWrite w2) log h m"
    using inv_weaken [OF A(1)] m by blast
  show "wal_inv w' log h m" using cases by cases (use inv S Y Am in auto)
  show "c = kSuccess \<or> c = kWalWriteFailed" using cases by cases (use S in auto)
  show "w_level w' = w_level w" using cases by cases (use lv Y A in auto)
  show "c = kSuccess \<Longrightarrow> \<not> sync_level w \<Longrightarrow> w_n_frames w \<noteq> 0 \<Longrightarrow> wal_inv w' log h (length log)"
    using cases by cases (use wal_winD(15) [OF win] A in auto)
  show "c = kSuccess \<Longrightarrow> \<not> sync_level w \<Longrightarrow> w_n_frames w \<noteq> 0 \<Longrightarrow> w_window_bytes w' = WindowAt w' (w_cur_off w')"
    using cases by cases (use wal_winD(15) [OF win] A(7) in auto)
  show "c = kSuccess \<Longrightarrow> \<not> sync_level w \<Longrightarrow> used_bytes w = w_window_bytes w \<Longrightarrow> w_n_frames w' = 0"
  proof -
    assume c: "c = kSuccess" "\<not> sync_level w" and full: "used_bytes w = w_window_bytes w"
    have "w_n_frames (AdvanceAfterWrite w2) = used_bytes w2 mod 4096 div 128"
      by (simp add: AdvanceAfterWrite_def Let_def kWalBlockSize_def kWalFrameSize_def)
    moreover have "4096 dvd used_bytes w" using full wal_winD(12) [OF win] by simp
    ultimately have "c1 = kSuccess \<Longrightarrow> w_n_frames (AdvanceAfterWrite w2) = 0"
      using Y(3) by (simp add: used_bytes_def dvd_imp_mod_0)
    then show ?thesis using cases c wal_winD(15) [OF win] by cases auto
  qed
qed

lemma reopen_inv:
  assumes inv: "wal_inv w log h m"
  shows "wal_inv (reopen w) log h m" "w_level (reopen w) = w_level w" "w_dev (reopen w) = w_dev w"
    "w_window_bytes (reopen w) = 0 \<Longrightarrow> WindowAt w (w_cur_off w) = 0 \<and> w_n_frames w = 0"
    "w_n_frames (reopen w) = w_n_frames w" "w_head_off (reopen w) = w_head_off w" "w_cur_off (reopen w) = w_cur_off w"
    "ring_bytes (reopen w) = ring_bytes w" "WindowAt (reopen w) x = WindowAt w x"
proof -
  have win: "wal_win w log h" using inv by (simp add: wal_inv_def)
  note d = wal_winD [OF win]
  have n0: "w_window_bytes w = 0 \<Longrightarrow> w_n_frames w = 0"
    using d(13) by (simp add: used_bytes_def kWalFrameSize_def)
  let ?w = "w\<lparr>w_window_bytes := WindowAt w (w_cur_off w)\<rparr>"
  have "wal_inv ?w log h m" if z: "w_window_bytes w = 0"
  proof -
    note geo = geo_cong [of ?w w, simplified] slot_off_cong [of ?w w, simplified]
    have "wal_win ?w log h"
      unfolding wal_win_def geo written_def used_bytes_def
      using d(1-11,14-15) wal_window(2) [OF win] n0 [OF z] by (simp add: written_def used_bytes_def)
    then show ?thesis
      using inv on_disk_cong [of ?w w] by (simp add: wal_inv_def written_def)
  qed
  then show "wal_inv (reopen w) log h m" using inv by (simp add: reopen_def)
  show "w_level (reopen w) = w_level w" "w_dev (reopen w) = w_dev w"
    "w_window_bytes (reopen w) = 0 \<Longrightarrow> WindowAt w (w_cur_off w) = 0 \<and> w_n_frames w = 0"
    "w_n_frames (reopen w) = w_n_frames w" "w_head_off (reopen w) = w_head_off w" "w_cur_off (reopen w) = w_cur_off w"
    "ring_bytes (reopen w) = ring_bytes w"
    using n0 by (cases "w_window_bytes w = 0"; simp add: reopen_def ring_bytes_def)+
  show "WindowAt (reopen w) x = WindowAt w x"
    by (rule geo_cong(3)) (simp_all add: reopen_def)
qed

end
