(* ===== verification/Cabe_WalSpec.thy ===== *)
theory Cabe_WalSpec
  imports Cabe_WalInv
begin

text \<open>
  What the log promises: the batch of the commit group, the single writer at every level,
  flush, reclaim, opening and closing, each as an operation on the abstract log of records,
  with the durability it gives.
\<close>

lemma window_zero_full:
  assumes "wal_win w log h" "WindowAt w (w_cur_off w) = 0" "w_n_frames w = 0"
  shows "128 * (length log - h) + 4096 = ring_bytes w"
proof -
  note d = wal_winD [OF assms(1)] and g = wal_geoD [OF wal_winD(1) [OF assms(1)]]
  have wr: "written w log = length log" using assms(3) by (simp add: written_def)
  define A where "A = ring_bytes w - (128 * written w log) mod ring_bytes w"
  define B where "B = ring_bytes w - 4096 - 128 * (written w log - h)"
  have "(128 * written w log) mod ring_bytes w < ring_bytes w" using g(2) by simp
  then have "A \<noteq> 0" by (simp add: A_def)
  moreover have "min (w_buf_size w) (min A B) = 0"
    using assms(2) wal_window(1) [OF assms(1)] by (simp only: A_def B_def)
  ultimately have "B = 0" using g(6) by (simp add: min_def split: if_splits)
  then show ?thesis using d(11) wr by (simp add: B_def)
qed

text \<open>The admission and encoding loop: a prefix \<open>done\<close> of the batch is appended to the log.\<close>

lemma batch_loop_inv:
  "batch_loop batch wrote dirty w = (f, rest, wrote', dirty', w') \<Longrightarrow> wal_inv w log h m \<Longrightarrow>
   entries_ok batch \<Longrightarrow> length log + length batch + 1 < 2 ^ 64 \<Longrightarrow>
   (wrote \<and> \<not> dirty \<longrightarrow> on_disk w (rd_contents (w_dev w)) log (h - 32) (length log)) \<Longrightarrow>
   (dirty \<longrightarrow> w_n_frames w \<noteq> 0) \<Longrightarrow>
   \<exists>done. batch = done @ rest \<and> wal_inv w' (log @ done) h m \<and> w_level w' = w_level w
     \<and> (f \<noteq> kWalWriteFailed \<longrightarrow>
          (wrote' \<and> \<not> dirty' \<longrightarrow> on_disk w' (rd_contents (w_dev w')) (log @ done) (h - 32) (length (log @ done)))
          \<and> (dirty' \<longrightarrow> w_n_frames w' \<noteq> 0))
     \<and> (done \<noteq> [] \<or> dirty \<or> wrote \<longrightarrow> dirty' \<or> wrote')
     \<and> f \<in> {kSuccess, kWalFull, kWalWriteFailed} \<and> (f = kSuccess \<longleftrightarrow> rest = [])
     \<and> (f = kWalFull \<longrightarrow> 128 * (length (log @ done) - h) + 4096 = ring_bytes w')"
proof (induction batch arbitrary: wrote dirty w log)
  case Nil
  then show ?case by auto
next
  case (Cons e es)
  note inv = Cons.prems(2)
  have e: "entry_ok e" "entries_ok es" using Cons.prems(3) by (simp_all add: entries_ok_def)
  note R = reopen_inv [OF inv]
  let ?w1 = "reopen w"
  have disk1: "wrote \<and> \<not> dirty \<longrightarrow> on_disk ?w1 (rd_contents (w_dev ?w1)) log (h - 32) (length log)"
    using Cons.prems(5) R(3) on_disk_cong [of ?w1 w] by (auto simp: reopen_def)
  have win1: "wal_win ?w1 log h" using R(1) by (simp add: wal_inv_def)
  show ?case
  proof (cases "w_window_bytes ?w1 = 0")
    case True
    then have res: "f = kWalFull" "rest = e # es" "wrote' = wrote" "dirty' = dirty" "w' = ?w1"
      using Cons.prems(1) by (simp_all add: Let_def)
    have "128 * (length log - h) + 4096 = ring_bytes ?w1"
      using window_zero_full [OF win1] R(4) [OF True] R(5,7,9) by simp
    then show ?thesis using res R disk1 Cons.prems(6) by auto
  next
    case False
    let ?full = "w_window_bytes ?w1 \<le> used_bytes ?w1"
    obtain c w2 where wo: "(if ?full then WriteOutWindow ?w1 else (kSuccess, ?w1)) = (c, w2)" by fastforce
    have full: "?full \<Longrightarrow> used_bytes ?w1 = w_window_bytes ?w1 \<and> w_n_frames ?w1 \<noteq> 0"
      using wal_winD(13) [OF win1] False by (cases "w_n_frames ?w1 = 0") (auto simp: used_bytes_def)
    note O = WriteOutWindow_inv [OF R(1)]
    have i2: "wal_inv w2 log h m" "w_level w2 = w_level w" "c = kSuccess \<or> c = kWalWriteFailed"
      using wo O(1-3) R(1,2) by (auto split: if_splits)
    have cp: "\<not> ?full \<Longrightarrow> w2 = ?w1 \<and> c = kSuccess" using wo by simp
    note L = Cons.prems(1) [unfolded batch_loop.simps Let_def wo prod.case]
    show ?thesis
    proof (cases "c = kSuccess")
      case False
      then have res: "f = c" "rest = e # es" "wrote' = wrote" "dirty' = dirty" "w' = w2"
        using L \<open>w_window_bytes ?w1 \<noteq> 0\<close> by simp_all
      then show ?thesis using i2 False by auto
    next
      case True
      have w2: "?full \<Longrightarrow> on_disk w2 (rd_contents (w_dev w2)) log (h - 32) (length log) \<and> w_n_frames w2 = 0
          \<and> w_window_bytes w2 = WindowAt w2 (w_cur_off w2)"
        using wo True full O(4,5,6) by simp
      have win2: "wal_win w2 log h" using i2 by (simp add: wal_inv_def)
      show ?thesis
      proof (cases "?full \<and> w_window_bytes w2 = 0")
        case fz: True
        then have res: "f = kWalFull" "rest = e # es" "wrote' = True" "dirty' = False" "w' = w2"
          using L \<open>w_window_bytes ?w1 \<noteq> 0\<close> True by simp_all
        have "128 * (length log - h) + 4096 = ring_bytes w2"
          using window_zero_full [OF win2] w2 fz by simp
        then show ?thesis using res i2 w2 fz by auto
      next
        case nz: False
        have u2: "used_bytes w2 < w_window_bytes w2"
          using nz cp w2 by (cases ?full) (auto simp: used_bytes_def)
        obtain c3 w3 where ap: "Append w2 e = (c3, w3)" by fastforce
        have len: "length log + 2 < 2 ^ 64" using Cons.prems(4) by simp
        note A = Append_win [OF win2 u2 e(1) len ap]
        have i3: "wal_inv w3 (log @ [e]) h m" by (rule Append_inv [OF i2(1) u2 e(1) len ap])
        have nf: "w_n_frames w3 \<noteq> 0" using A(9) by (simp add: used_bytes_def kWalFrameSize_def)
        have rec: "batch_loop es (wrote \<or> ?full) True w3 = (f, rest, wrote', dirty', w')"
          using L \<open>w_window_bytes ?w1 \<noteq> 0\<close> True nz A(1) by (simp add: ap)
        have "\<exists>done. es = done @ rest \<and> wal_inv w' ((log @ [e]) @ done) h m \<and> w_level w' = w_level w3
          \<and> (f \<noteq> kWalWriteFailed \<longrightarrow>
               (wrote' \<and> \<not> dirty' \<longrightarrow> on_disk w' (rd_contents (w_dev w')) ((log @ [e]) @ done) (h - 32) (length ((log @ [e]) @ done)))
               \<and> (dirty' \<longrightarrow> w_n_frames w' \<noteq> 0))
          \<and> (done \<noteq> [] \<or> True \<or> (wrote \<or> ?full) \<longrightarrow> dirty' \<or> wrote')
          \<and> f \<in> {kSuccess, kWalFull, kWalWriteFailed} \<and> (f = kSuccess \<longleftrightarrow> rest = [])
          \<and> (f = kWalFull \<longrightarrow> 128 * (length ((log @ [e]) @ done) - h) + 4096 = ring_bytes w')"
          by (rule Cons.IH [OF rec i3 e(2)]) (use Cons.prems(4) nf in simp_all)
        then obtain dn where dn: "es = dn @ rest" "wal_inv w' ((log @ [e]) @ dn) h m" "w_level w' = w_level w3"
          "f \<noteq> kWalWriteFailed \<longrightarrow>
               (wrote' \<and> \<not> dirty' \<longrightarrow> on_disk w' (rd_contents (w_dev w')) ((log @ [e]) @ dn) (h - 32) (length ((log @ [e]) @ dn)))
               \<and> (dirty' \<longrightarrow> w_n_frames w' \<noteq> 0)"
          "dirty' \<or> wrote'" "f \<in> {kSuccess, kWalFull, kWalWriteFailed} \<and> (f = kSuccess \<longleftrightarrow> rest = [])"
          "f = kWalFull \<longrightarrow> 128 * (length ((log @ [e]) @ dn) - h) + 4096 = ring_bytes w'"
          by blast
        show ?thesis
          by (rule exI [of _ "e # dn"]) (use dn A(4) i2(2) in auto)
      qed
    qed
  qed
qed

section \<open>A batch of the commit group\<close>

text \<open>The closing part of \<open>ProcessBatch\<close>: write the rest out, one sync for the batch.\<close>

lemma batch_end:
  assumes inv: "wal_inv w log h m"
    and disk: "wrote \<and> \<not> dirty \<longrightarrow> on_disk w (rd_contents (w_dev w)) log (h - 32) (length log)"
    and dn: "dirty \<longrightarrow> w_n_frames w \<noteq> 0"
    and wo: "(if dirty then WriteOutWindow w else (kSuccess, w)) = (c, w2)"
    and sy: "(if c = kSuccess \<and> (wrote \<or> dirty \<and> c = kSuccess) then
                (case wal_Sync w2 of (cs, w3) \<Rightarrow> (if cs \<noteq> kSuccess then kWalWriteFailed else kSuccess, w3))
              else (c, w2)) = (c2, w3)"
  shows "wal_inv w3 log h m" "w_level w3 = w_level w" "c2 = kSuccess \<or> c2 = kWalWriteFailed"
    "c2 = kSuccess \<Longrightarrow> wrote \<or> dirty \<Longrightarrow> wal_inv w3 log h (length log)"
    "ring_bytes w3 = ring_bytes w"
proof -
  have i2: "wal_inv w2 log h m" "w_level w2 = w_level w" "c = kSuccess \<or> c = kWalWriteFailed"
    using wo WriteOutWindow_inv [OF inv] inv by (auto split: if_splits)
  have rb: "ring_bytes w2 = ring_bytes w"
  proof (cases dirty)
    case True
    then have "WriteOutWindow w = (c, w2)" using wo by simp
    then show ?thesis
      using WriteWindowSpan_inv(1) [OF inv]
      by (auto simp: WriteOutWindow_def AdvanceAfterWrite_def Let_def ring_bytes_def
          split: if_splits prod.splits) (metis wal.surjective wal.ext_inject wal.update_convs(1))+
  qed (use wo in auto)
  obtain cs w4 where s: "wal_Sync w2 = (cs, w4)" by fastforce
  have m: "m \<le> length log" using inv by (simp add: wal_inv_def)
  have d2: "c = kSuccess \<and> (wrote \<or> dirty) \<Longrightarrow> on_disk w2 (rd_contents (w_dev w2)) log (h - 32) (length log)"
    using wo WriteOutWindow_inv(4) [OF inv] dn disk by (auto split: if_splits)
  have dm: "on_disk w2 (rd_contents (w_dev w2)) log (h - 32) m" using i2(1) by (auto simp: wal_inv_def on_disk_def)
  note S = wal_Sync_inv [OF i2(1) s dm m] wal_Sync_inv(4) [OF i2(1) s d2 order_refl]
  have rb4: "ring_bytes w4 = ring_bytes w2" using S(3) by (metis geo_cong(2) wal.surjective wal.ext_inject wal.update_convs(1))
  show "wal_inv w3 log h m" "w_level w3 = w_level w" "c2 = kSuccess \<or> c2 = kWalWriteFailed"
    "c2 = kSuccess \<Longrightarrow> wrote \<or> dirty \<Longrightarrow> wal_inv w3 log h (length log)"
    "ring_bytes w3 = ring_bytes w"
    using sy s S i2 rb rb4 by (auto split: if_splits)
qed

lemma ProcessBatch_inv:
  assumes inv: "wal_inv w log h m" and ok: "entries_ok batch"
    and len: "length log + length batch + 1 < 2 ^ 64" and run: "ProcessBatch batch w = (rs, w')"
  shows "\<exists>done rest. batch = done @ rest \<and> wal_inv w' (log @ done) h m \<and> w_level w' = w_level w
    \<and> length rs = length batch \<and> set rs \<subseteq> {kSuccess, kWalFull, kWalWriteFailed}
    \<and> (kSuccess \<in> set rs \<longrightarrow> wal_inv w' (log @ done) h (length (log @ done)))
    \<and> (\<forall>i < length batch. rs ! i = kSuccess \<longrightarrow> i < length done)
    \<and> (\<forall>i < length batch. rs ! i = kWalFull \<longrightarrow> length done \<le> i)
    \<and> (kWalFull \<in> set rs \<longrightarrow> 128 * (length (log @ done) - h) + 4096 = ring_bytes w')"
proof -
  obtain f rest wrote dirty w1 where bl: "batch_loop batch False False w = (f, rest, wrote, dirty, w1)"
    by (metis prod_cases5)
  obtain dn where D: "batch = dn @ rest" "wal_inv w1 (log @ dn) h m" "w_level w1 = w_level w"
    "f \<noteq> kWalWriteFailed \<longrightarrow> (wrote \<and> \<not> dirty \<longrightarrow> on_disk w1 (rd_contents (w_dev w1)) (log @ dn) (h - 32) (length (log @ dn)))
        \<and> (dirty \<longrightarrow> w_n_frames w1 \<noteq> 0)"
    "dn \<noteq> [] \<longrightarrow> dirty \<or> wrote" "f \<in> {kSuccess, kWalFull, kWalWriteFailed}" "f = kSuccess \<longleftrightarrow> rest = []"
    "f = kWalFull \<longrightarrow> 128 * (length (log @ dn) - h) + 4096 = ring_bytes w1"
    using batch_loop_inv [OF bl inv ok len] by auto
  have n: "length batch - length rest = length dn" "length batch = length dn + length rest" using D(1) by simp_all
  have nth: "(replicate a x @ replicate b y) ! i = (if i < a then x else y)" if "i < a + b"
    for a b x y i using that by (simp add: nth_append)
  show ?thesis
  proof (cases "f = kWalWriteFailed")
    case True
    then have r: "rs = replicate (length dn) kWalWriteFailed @ replicate (length rest) kWalWriteFailed" "w' = w1"
      using run bl n by (simp_all add: ProcessBatch_def Let_def)
    show ?thesis
      by (rule exI [of _ dn], rule exI [of _ rest]) (use D n r nth in \<open>auto simp: nth_append\<close>)
  next
    case False
    obtain c w2 where wo: "(if dirty then WriteOutWindow w1 else (kSuccess, w1)) = (c, w2)" by fastforce
    obtain c2 w3 where sy: "(if c = kSuccess \<and> (wrote \<or> dirty \<and> c = kSuccess) then
                (case wal_Sync w2 of (cs, w3) \<Rightarrow> (if cs \<noteq> kSuccess then kWalWriteFailed else kSuccess, w3))
              else (c, w2)) = (c2, w3)" by fastforce
    have E: "wal_inv w3 (log @ dn) h m" "w_level w3 = w_level w1" "c2 = kSuccess \<or> c2 = kWalWriteFailed"
      "c2 = kSuccess \<Longrightarrow> wrote \<or> dirty \<Longrightarrow> wal_inv w3 (log @ dn) h (length (log @ dn))"
      "ring_bytes w3 = ring_bytes w1"
      using batch_end [OF D(2) _ _ wo sy] D(4) False by blast+
    have r: "w' = w3" "rs = replicate (length dn) (if c2 = kSuccess then kSuccess else kWalWriteFailed)
        @ replicate (length rest) (if f = kWalFull then kWalFull else
             (if c2 = kSuccess then kSuccess else kWalWriteFailed))"
      using run False D(6) n unfolding ProcessBatch_def bl prod.case Let_def wo sy by auto
    have sfx: "rest \<noteq> [] \<Longrightarrow> f = kWalFull" using D(6,7) False by auto
    show ?thesis
      by (rule exI [of _ dn], rule exI [of _ rest])
        (use D n r nth E sfx in \<open>auto simp: nth_append split: if_splits\<close>)
  qed
qed

section \<open>The single writer\<close>

lemma WriteWal_inv:
  assumes inv: "wal_inv w log h m" and len: "length log + 2 < 2 ^ 64" and run: "WriteWal w e = (c, w')"
  shows "\<exists>log'. (log' = log \<or> log' = log @ [e]) \<and> wal_inv w' log' h m \<and> w_level w' = w_level w
    \<and> c \<in> {kSuccess, kWalFull, kWalWriteFailed, kWalKeyTooLong}
    \<and> (c = kWalKeyTooLong \<longleftrightarrow> kWalKeyMax < length (e_key e))
    \<and> (c = kSuccess \<longrightarrow> log' = log @ [e])
    \<and> (c = kSuccess \<and> sync_level w \<longrightarrow> wal_inv w' log' h (length log'))
    \<and> (c \<in> {kWalFull, kWalKeyTooLong} \<longrightarrow> log' = log)
    \<and> (c = kWalFull \<longrightarrow> 128 * (length log - h) + 4096 = ring_bytes w')"
proof -
  have win: "wal_win w log h" using inv by (simp add: wal_inv_def)
  have buf: "w_buf w \<noteq> None" using wal_winD(15) [OF win] by simp
  show ?thesis
  proof (cases "kWalKeyMax < length (e_key e)")
    case True
    then have "c = kWalKeyTooLong" "w' = w" using run by (simp_all add: WriteWal_def)
    then show ?thesis using inv True by auto
  next
    case key: False
    then have ok: "entries_ok [e]" "entry_ok e" by (simp_all add: entries_ok_def entry_ok_def)
    show ?thesis
    proof (cases "sync_level w")
      case True
      obtain rs w2 where pb: "ProcessBatch [e] w = (rs, w2)" by fastforce
      then have c: "c = hd rs" "w' = w2" using run key buf True by (simp_all add: WriteWal_def)
      obtain dn rest where D: "[e] = dn @ rest" "wal_inv w2 (log @ dn) h m" "w_level w2 = w_level w"
        "length rs = 1" "set rs \<subseteq> {kSuccess, kWalFull, kWalWriteFailed}"
        "kSuccess \<in> set rs \<longrightarrow> wal_inv w2 (log @ dn) h (length (log @ dn))"
        "rs ! 0 = kSuccess \<longrightarrow> 0 < length dn" "rs ! 0 = kWalFull \<longrightarrow> length dn \<le> 0"
        "kWalFull \<in> set rs \<longrightarrow> 128 * (length (log @ dn) - h) + 4096 = ring_bytes w2"
        using ProcessBatch_inv [OF inv ok(1) _ pb] len by auto
      obtain r where r: "rs = [r]" using D(4) by (auto simp: length_Suc_conv)
      have dn: "dn = [] \<or> dn = [e]" using D(1) by (cases dn) auto
      show ?thesis
        by (rule exI [of _ "log @ dn"]) (use D dn c r key in auto)
    next
      case False
      note R = reopen_inv [OF inv]
      let ?w1 = "reopen w"
      have win1: "wal_win ?w1 log h" using R(1) by (simp add: wal_inv_def)
      have ns: "\<not> sync_level ?w1" using False R(2) by (simp add: sync_level_def)
      show ?thesis
      proof (cases "w_window_bytes ?w1 = 0")
        case True
        then have res: "c = kWalFull" "w' = ?w1" using run key buf False by (simp_all add: WriteWal_def Let_def)
        have "128 * (length log - h) + 4096 = ring_bytes ?w1"
          using window_zero_full [OF win1] R(4) [OF True] R(5,7,9) by simp
        then show ?thesis using res R(1,2) key by auto
      next
        case nz: False
        let ?full = "w_window_bytes ?w1 \<le> used_bytes ?w1"
        obtain c1 w2 where wo: "(if ?full then Flush ?w1 else (kSuccess, ?w1)) = (c1, w2)" by fastforce
        have full: "?full \<Longrightarrow> used_bytes ?w1 = w_window_bytes ?w1 \<and> w_n_frames ?w1 \<noteq> 0"
          using wal_winD(13) [OF win1] nz by (cases "w_n_frames ?w1 = 0") (auto simp: used_bytes_def)
        note O = Flush_inv [OF R(1)]
        have i2: "wal_inv w2 log h m" "w_level w2 = w_level w" "c1 = kSuccess \<or> c1 = kWalWriteFailed"
          using wo O(1-3) R(1,2) by (auto split: if_splits)
        note L = run [unfolded WriteWal_def Let_def wo prod.case]
        show ?thesis
        proof (cases "c1 = kSuccess")
          case f: False
          then have "c = c1" "w' = w2" using L key buf False nz by simp_all
          then show ?thesis using i2 f key by auto
        next
          case c1: True
          have w2: "?full \<Longrightarrow> w_n_frames w2 = 0 \<and> w_window_bytes w2 = WindowAt w2 (w_cur_off w2)"
            using wo c1 full O(5,6) ns by simp
          have win2: "wal_win w2 log h" using i2 by (simp add: wal_inv_def)
          show ?thesis
          proof (cases "?full \<and> w_window_bytes w2 = 0")
            case fz: True
            then have res: "c = kWalFull" "w' = w2" using L key buf False nz c1 by simp_all
            have "128 * (length log - h) + 4096 = ring_bytes w2"
              using window_zero_full [OF win2] w2 fz by simp
            then show ?thesis using res i2 key by auto
          next
            case az: False
            have u2: "used_bytes w2 < w_window_bytes w2"
              using az wo w2 c1 nz by (cases ?full) (auto simp: used_bytes_def)
            obtain c3 w3 where ap: "Append w2 e = (c3, w3)" by fastforce
            note A = Append_win [OF win2 u2 ok(2) len ap]
            have i3: "wal_inv w3 (log @ [e]) h m" by (rule Append_inv [OF i2(1) u2 ok(2) len ap])
            have fin: "(if w_window_bytes w3 \<le> used_bytes w3 then Flush w3 else (kSuccess, w3)) = (c, w')"
              using L key buf False nz c1 az A(1) by (simp add: ap)
            have "wal_inv w' (log @ [e]) h m \<and> w_level w' = w_level w3 \<and> (c = kSuccess \<or> c = kWalWriteFailed)"
              using fin Flush_inv(1-3) [OF i3] i3 by (auto split: if_splits)
            then show ?thesis
              using A(4) i2(2) key False by (intro exI [of _ "log @ [e]"]) auto
          qed
        qed
      qed
    qed
  qed
qed

section \<open>Reclaiming\<close>

lemma WindowAt_mono:
  assumes g: "wal_geo w" and ab: "a \<le> a'" "a' \<le> b" "128 * (b - a) < ring_bytes w"
    and hd: "w_head_off w = slot_off w a"
  shows "WindowAt w (slot_off w b) \<le> WindowAt (w\<lparr>w_head_off := slot_off w a'\<rparr>) (slot_off w b)"
proof -
  let ?w = "w\<lparr>w_head_off := slot_off w a'\<rparr>"
  have g': "wal_geo ?w" "ring_bytes ?w = ring_bytes w" "slot_off ?w = slot_off w"
    using geo_cong [of ?w w] slot_off_cong [of ?w w] g by simp_all
  have "WindowAt ?w (slot_off ?w b) = min (w_buf_size ?w) (min (ring_bytes ?w - (128 * b) mod ring_bytes ?w)
      (ring_bytes ?w - 4096 - 128 * (b - a')))"
    by (rule WindowAt_slot [OF g'(1) ab(2)]) (use ab g' in simp_all)
  then have e: "WindowAt ?w (slot_off w b) = min (w_buf_size w) (min (ring_bytes w - (128 * b) mod ring_bytes w)
      (ring_bytes w - 4096 - 128 * (b - a')))" using g' by simp
  have "128 * (b - a') \<le> 128 * (b - a)" using ab by simp
  then show ?thesis
    unfolding e WindowAt_slot [OF g order_trans [OF ab(1,2)] ab(3) hd]
    by (intro min.mono order_refl diff_le_mono2)
qed

lemma reclaim_slot:
  assumes inv: "wal_inv w log h m" and k: "h \<le> k" "k \<le> written w log" "32 dvd k"
  shows "ReclaimUpTo w (slot_off w k) = (kSuccess, w\<lparr>w_head_off := slot_off w k\<rparr>)"
    "wal_inv (w\<lparr>w_head_off := slot_off w k\<rparr>) log k m"
proof -
  have win: "wal_win w log h" using inv by (simp add: wal_inv_def)
  note d = wal_winD [OF win] and g = wal_geoD [OF wal_winD(1) [OF win]]
  let ?w = "w\<lparr>w_head_off := slot_off w k\<rparr>"
  have r: "128 * (written w log - h) < ring_bytes w" using d(11) by linarith
  have dist: "(slot_off w j + ring_bytes w - w_head_off w) mod ring_bytes w = 128 * (j - h)"
    if "h \<le> j" "j \<le> written w log" for j
  proof -
    have "128 * (j - h) < ring_bytes w" using r that by (meson diff_le_mono le_trans mult_le_mono2 not_less)
    then show ?thesis
      using mod_distance [of "128 * h" "128 * j" "ring_bytes w"] that d(9)
      by (simp add: slot_off_def diff_mult_distrib2)
  qed
  have al: "slot_off w k mod 4096 = 0"
  proof -
    have "4096 dvd (128 * k) mod ring_bytes w" by (rule dvd_mod_4096 [OF g(4) k(3)])
    moreover have "4096 dvd w_ring_start w" using d(1) by (simp add: wal_geo_def kDataRegionOffset_8K)
    ultimately show ?thesis by (simp add: slot_off_def)
  qed
  have rng: "w_ring_start w \<le> slot_off w k" "slot_off w k < w_ring_end w"
    using g(2,3) by (simp_all add: slot_off_def)
  have "(slot_off w k + ring_bytes w - w_head_off w) mod ring_bytes w
      \<le> (w_cur_off w + ring_bytes w - w_head_off w) mod ring_bytes w"
    unfolding d(10) dist [OF k(1,2)] dist [OF d(8) order_refl] using k by simp
  then show "ReclaimUpTo w (slot_off w k) = (kSuccess, ?w)"
    using d(15) al rng g(2) by (simp add: ReclaimUpTo_def kWalBlockSize_def)
  have same: "slot_off ?w = slot_off w" "wal_geo ?w = wal_geo w" "ring_bytes ?w = ring_bytes w"
    "written ?w log = written w log" "used_bytes ?w = used_bytes w"
    using slot_off_cong [of ?w w] geo_cong [of ?w w] by (simp_all add: written_def used_bytes_def)
  have wn: "w_window_bytes w \<le> WindowAt ?w (slot_off w (written w log))"
    using WindowAt_mono [OF d(1) k(1,2) r d(9)] d(14) d(10) by simp
  have "128 * (written w log - k) \<le> 128 * (written w log - h)" using k by simp
  then have "wal_win ?w log k"
    unfolding wal_win_def same using d(1-7) d(10-13) d(15) k wn by simp
  moreover have "on_disk ?w medium log a b = on_disk w medium log a b" for medium a b
    by (rule on_disk_cong) simp_all
  ultimately show "wal_inv ?w log k m"
    using inv k same by (auto simp: wal_inv_def on_disk_def)
qed

end
