(* ===== verification/Cabe_WalTheorems.thy ===== *)
theory Cabe_WalTheorems
  imports Cabe_WalSpec
begin

text \<open>
  The properties of the log's write side: opening, durability of what was acknowledged across
  a power failure, the commit group's batch, progress on devices that answer, reclaiming and
  the retry after a rescue.
\<close>

section \<open>Opening\<close>

lemma RoundUp_props:
  assumes "x \<le> 2 ^ 38"
  shows "4096 dvd RoundUpBufferSize x kWalBlockSize" "0 < RoundUpBufferSize x kWalBlockSize"
    "RoundUpBufferSize x kWalBlockSize \<le> 2 ^ 38"
proof -
  let ?y = "if x < kWalBlockSize then kWalBlockSize else x"
  have y: "?y + kWalBlockSize \<le> 2 ^ 64" "?y \<le> 2 ^ 38" "0 < ?y" using assms by (auto simp: kWalBlockSize_def)
  have p: "0 < kWalBlockSize" by (simp add: kWalBlockSize_def)
  show "4096 dvd RoundUpBufferSize x kWalBlockSize"
    using AlignUp_dvd [of kWalBlockSize] by (simp add: RoundUpBufferSize_def kWalBlockSize_def)
  show "0 < RoundUpBufferSize x kWalBlockSize"
    using AlignUp_ge [OF p y(1)] y(3) by (simp add: RoundUpBufferSize_def)
  have "kWalBlockSize dvd 2 ^ 38" by (simp add: kWalBlockSize_def)
  then show "RoundUpBufferSize x kWalBlockSize \<le> 2 ^ 38"
    using AlignUp_least [OF p y(1) _ y(2)] by (simp add: RoundUpBufferSize_def)
qed

lemma WalRingSize_dvd: "4096 dvd WalRingSize n"
  by (simp add: WalRingSize_def kWalBlockSize_def)

lemma WalRingSize_le: "0 < WalRingSize n \<Longrightarrow> kDataRegionOffset + WalRingSize n \<le> n"
proof -
  assume "0 < WalRingSize n"
  then have k: "kDataRegionOffset < n" "WalRingSize n = (n - kDataRegionOffset) div kWalBlockSize * kWalBlockSize"
    by (auto simp: WalRingSize_def split: if_splits)
  have "(n - kDataRegionOffset) div kWalBlockSize * kWalBlockSize \<le> n - kDataRegionOffset" by simp
  then show ?thesis using k by linarith
qed

text \<open>The device the log lives on answers and holds the ring.\<close>

definition dev_ok :: "wal \<Rightarrow> bool" where
  "dev_ok w \<longleftrightarrow> healthy (w_dev w) \<and> w_ring_end w \<le> size_bytes (w_dev w)"

lemma wal_inv_fresh:
  assumes g: "wal_geo w" and z: "w_buf w = Some (zeros (w_buf_size w))" "w_cur_off w = w_ring_start w"
    "w_head_off w = w_ring_start w" "w_n_frames w = 0" "w_seq_next w = 1"
    "w_window_bytes w = WindowAt w (w_cur_off w)"
  shows "wal_inv w [] 0 0"
proof -
  have s0: "slot_off w 0 = w_ring_start w" by (simp add: slot_off_def)
  have hd: "w_head_off w = slot_off w 0" using s0 z by simp
  have fits: "128 * (0 - 0) + 4096 \<le> ring_bytes w" using wal_geoD(1) [OF g] by simp
  have "4096 dvd WindowAt w (slot_off w 0)"
    by (rule WindowAt_dvd [OF g order_refl fits _ _ hd]) simp_all
  then show ?thesis
    using g z s0 fits
    by (simp add: wal_inv_def wal_win_def written_def used_bytes_def on_disk_def entries_ok_def)
qed

lemma Wal_Open_create:
  assumes run: "Wal_Open (wal_closed d) opts = (kSuccess, w)" and cr: "o_create opts"
    and sz: "o_wal_buffer_size opts \<le> 2 ^ 38"
  shows "wal_inv w [] 0 0" "w_level w = o_wal_level opts" "w_head_off w = w_cur_off w"
    "2 * o_snapshot_threshold_bytes opts \<le> ring_bytes w \<or> 2 ^ 63 \<le> o_snapshot_threshold_bytes opts"
    "w_ring_end w \<le> kd_size d" "rd_contents (w_dev w) = kd_data d"
    "w_window_bytes w = WindowAt w (w_cur_off w)"
    "w_buf_size w = RoundUpBufferSize (o_wal_buffer_size opts) kWalBlockSize"
proof -
  let ?b = "RoundUpBufferSize (o_wal_buffer_size opts) kWalBlockSize"
  note B = RoundUp_props [OF sz]
  obtain c0 dv where op: "RawDevice_Open (raw_closed d) = (c0, dv)" by fastforce
  obtain a d2 where al: "AllocAligned dv = (a, d2)" by fastforce
  have dz: "w_dev (wal_closed d) = raw_closed d" by (simp add: wal_closed_def)
  note O = run [unfolded Wal_Open_def dz op prod.case Let_def al]
  let ?ring = "WalRingSize (RawDevice_SizeBytes dv)"
  let ?thr = "o_snapshot_threshold_bytes opts"
  have c0: "c0 = kSuccess" using O by (auto split: if_splits)
  note oc = Open_cases [OF op]
  have size: "RawDevice_SizeBytes dv = kd_size d" using oc c0 by (simp add: RawDevice_SizeBytes_def)
  let ?need = "max (if (2 ^ 64 - 1) div 2 < ?thr then 2 ^ 64 - 1 else ?thr * 2) ((?b + kWalBlockSize) mod 2 ^ 64)"
  have need: "\<not> ?ring < ?need" and a: "a" using O c0 cr by (auto split: if_splits)
  have fl: "(?b + kWalBlockSize) mod 2 ^ 64 = ?b + 4096" using B(3) by (simp add: kWalBlockSize_def)
  have ring: "?b + 4096 \<le> ?ring" using need fl by simp
  have geo: "w_ring_start w = kDataRegionOffset" "w_ring_end w = kDataRegionOffset + ?ring"
    "w_buf_size w = ?b" "w_buf w = Some (zeros ?b)" "w_cur_off w = kDataRegionOffset"
    "w_head_off w = kDataRegionOffset" "w_n_frames w = 0" "w_seq_next w = 1" "w_dev w = d2"
    "w_window_bytes w = WindowAt w (w_cur_off w)" "w_level w = o_wal_level opts"
  proof -
    define w3 where "w3 = (wal_closed d)\<lparr>w_level := o_wal_level opts, w_buf_size := ?b,
      w_ring_start := kDataRegionOffset, w_ring_end := kDataRegionOffset + ?ring,
      w_cur_off := kDataRegionOffset, w_head_off := kDataRegionOffset, w_n_frames := 0,
      w_seq_next := 1, w_dev := d2, w_buf := Some (zeros ?b)\<rparr>"
    have "w3\<lparr>w_window_bytes := WindowAt w3 (w_cur_off w3)\<rparr> = w"
      using O c0 need a cr by (simp add: w3_def)
    then have W: "w = w3\<lparr>w_window_bytes := WindowAt w3 (w_cur_off w3)\<rparr>" by (rule sym)
    then show "w_ring_start w = kDataRegionOffset" "w_ring_end w = kDataRegionOffset + ?ring"
      "w_buf_size w = ?b" "w_buf w = Some (zeros ?b)" "w_cur_off w = kDataRegionOffset"
      "w_head_off w = kDataRegionOffset" "w_n_frames w = 0" "w_seq_next w = 1" "w_dev w = d2"
      "w_level w = o_wal_level opts"
      by (simp_all add: w3_def)
    have "WindowAt w x = WindowAt w3 x" for x by (rule geo_cong(3)) (simp_all add: W)
    then show "w_window_bytes w = WindowAt w (w_cur_off w)" by (simp add: W)
  qed
  have rb: "ring_bytes w = ?ring" using geo by (simp add: ring_bytes_def)
  have wg: "wal_geo w"
    using B ring WalRingSize_dvd geo rb by (simp add: wal_geo_def)
  show "wal_inv w [] 0 0" by (rule wal_inv_fresh [OF wg]) (use geo in simp_all)
  show "w_level w = o_wal_level opts" "w_head_off w = w_cur_off w"
    "w_window_bytes w = WindowAt w (w_cur_off w)" "w_buf_size w = ?b" using geo by simp_all
  show "2 * ?thr \<le> ring_bytes w \<or> 2 ^ 63 \<le> ?thr" using need rb by (auto split: if_splits)
  show "w_ring_end w \<le> kd_size d" using WalRingSize_le [of "kd_size d"] ring geo size by simp
  show "rd_contents (w_dev w) = kd_data d"
    using AllocAligned_frame(4) [OF al] oc(2) geo by (simp add: rd_contents_def)
qed

section \<open>Devices that answer\<close>

lemma dev_ok_span:
  assumes inv: "wal_inv w log h m" and ok: "dev_ok w"
  shows "\<exists>d. WriteWindowSpan w = (kSuccess, w\<lparr>w_dev := d\<rparr>) \<and> dev_ok (w\<lparr>w_dev := d\<rparr>)"
proof -
  have win: "wal_win w log h" using inv by (simp add: wal_inv_def)
  note d = wal_winD [OF win] and g = wal_geoD [OF wal_winD(1) [OF win]] and sp = span_size [OF win]
  let ?S = "AlignUp (used_bytes w) kWalBlockSize"
  have len: "length (take ?S (buffer w)) = ?S" using sp wal_window(3) [OF win] by simp
  have "w_cur_off w + ?S \<le> w_ring_end w"
    using wal_window(4) [OF win] sp(2) d(10) g(3) by (simp add: slot_off_def)
  then have "w_cur_off w + length (take ?S (buffer w)) \<le> size_bytes (w_dev w)"
    using ok len by (simp add: dev_ok_def)
  then show ?thesis
    using healthy_WriteAt [of "w_dev w" "w_cur_off w" "take ?S (buffer w)"] ok
    by (auto simp: WriteWindowSpan_def Let_def dev_ok_def)
qed

lemma dev_ok_advance: "dev_ok (AdvanceAfterWrite w) = dev_ok w"
  by (simp add: dev_ok_def AdvanceAfterWrite_def Let_def)

lemma dev_ok_writeout:
  assumes "wal_inv w log h m" "dev_ok w" "WriteOutWindow w = (c, w')"
  shows "c = kSuccess" "dev_ok w'"
  using dev_ok_span [OF assms(1,2)] assms(2,3)
  by (auto simp: WriteOutWindow_def dev_ok_advance split: if_splits)

lemma dev_ok_sync: "dev_ok w \<Longrightarrow> \<exists>d. wal_Sync w = (kSuccess, w\<lparr>w_dev := d\<rparr>) \<and> dev_ok (w\<lparr>w_dev := d\<rparr>)"
  by (rule exI [of _ "rd_synced (w_dev w)"]) (simp add: wal_Sync_def healthy_Sync dev_ok_def)

lemma dev_ok_reopen: "dev_ok (reopen w) = dev_ok w"
  by (simp add: dev_ok_def reopen_def)

lemma dev_ok_append: "Append w e = (c, w') \<Longrightarrow> dev_ok w \<Longrightarrow> dev_ok w'"
  by (auto simp: Append_def Let_def dev_ok_def split: option.splits)

lemma dev_ok_flush:
  assumes "wal_inv w log h m" "dev_ok w" "Flush w = (c, w')"
  shows "c = kSuccess" "dev_ok w'"
proof -
  obtain d where sp: "WriteWindowSpan w = (kSuccess, w\<lparr>w_dev := d\<rparr>)" "dev_ok (w\<lparr>w_dev := d\<rparr>)"
    using dev_ok_span [OF assms(1,2)] by blast
  obtain d2 where sy: "wal_Sync (w\<lparr>w_dev := d\<rparr>) = (kSuccess, w\<lparr>w_dev := d2\<rparr>)" "dev_ok (w\<lparr>w_dev := d2\<rparr>)"
    using dev_ok_sync [OF sp(2)] by auto
  show "c = kSuccess" "dev_ok w'"
    using assms(2,3) sp sy by (auto simp: Flush_def dev_ok_advance split: if_splits)
qed

lemma batch_loop_ok:
  "batch_loop batch wrote dirty w = (f, rest, wrote', dirty', w') \<Longrightarrow> wal_inv w log h m \<Longrightarrow> dev_ok w \<Longrightarrow>
   entries_ok batch \<Longrightarrow> length log + length batch + 1 < 2 ^ 64 \<Longrightarrow> f \<noteq> kWalWriteFailed \<and> dev_ok w'"
proof (induction batch arbitrary: wrote dirty w log)
  case (Cons e es)
  have e: "entry_ok e" "entries_ok es" using Cons.prems(4) by (simp_all add: entries_ok_def)
  note R = reopen_inv [OF Cons.prems(2)]
  let ?w1 = "reopen w"
  have ok1: "dev_ok ?w1" using Cons.prems(3) dev_ok_reopen by simp
  have win1: "wal_win ?w1 log h" using R(1) by (simp add: wal_inv_def)
  show ?case
  proof (cases "w_window_bytes ?w1 = 0")
    case True
    then show ?thesis using Cons.prems(1) ok1 by (auto simp: Let_def)
  next
    case nz: False
    let ?full = "w_window_bytes ?w1 \<le> used_bytes ?w1"
    obtain c w2 where wo: "(if ?full then WriteOutWindow ?w1 else (kSuccess, ?w1)) = (c, w2)" by fastforce
    have full: "?full \<Longrightarrow> used_bytes ?w1 = w_window_bytes ?w1 \<and> w_n_frames ?w1 \<noteq> 0"
      using wal_winD(13) [OF win1] nz by (cases "w_n_frames ?w1 = 0") (auto simp: used_bytes_def)
    have i2: "wal_inv w2 log h m" "c = kSuccess" "dev_ok w2"
      using wo WriteOutWindow_inv(1) [OF R(1)] dev_ok_writeout [OF R(1) ok1] R(1) ok1 by (auto split: if_splits)
    have w2: "?full \<Longrightarrow> w_n_frames w2 = 0" using wo i2(2) full WriteOutWindow_inv(5) [OF R(1)] by simp
    have win2: "wal_win w2 log h" using i2 by (simp add: wal_inv_def)
    note L = Cons.prems(1) [unfolded batch_loop.simps Let_def wo prod.case]
    show ?thesis
    proof (cases "?full \<and> w_window_bytes w2 = 0")
      case True
      then show ?thesis using L nz i2 by simp
    next
      case False
      have u2: "used_bytes w2 < w_window_bytes w2"
        using False wo w2 nz by (cases ?full) (auto simp: used_bytes_def)
      obtain c3 w3 where ap: "Append w2 e = (c3, w3)" by fastforce
      have len: "length log + 2 < 2 ^ 64" using Cons.prems(5) by simp
      have i3: "wal_inv w3 (log @ [e]) h m" "c3 = kSuccess"
        using Append_inv [OF i2(1) u2 e(1) len ap] Append_win(1) [OF win2 u2 e(1) len ap] by simp_all
      have rec: "batch_loop es (wrote \<or> ?full) True w3 = (f, rest, wrote', dirty', w')"
        using L nz i2(2) False i3(2) by (simp add: ap)
      show ?thesis
        by (rule Cons.IH [OF rec i3(1) dev_ok_append [OF ap i2(3)] e(2)]) (use Cons.prems(5) in simp)
    qed
  qed
qed auto

lemma ProcessBatch_ok:
  assumes inv: "wal_inv w log h m" and dok: "dev_ok w" and ok: "entries_ok batch"
    and len: "length log + length batch + 1 < 2 ^ 64" and run: "ProcessBatch batch w = (rs, w')"
  shows "set rs \<subseteq> {kSuccess, kWalFull}" "dev_ok w'"
proof -
  obtain f rest wrote dirty w1 where bl: "batch_loop batch False False w = (f, rest, wrote, dirty, w1)"
    by (metis prod_cases5)
  have f: "f \<noteq> kWalWriteFailed" "dev_ok w1" using batch_loop_ok [OF bl inv dok ok len] by simp_all
  obtain dn where D: "wal_inv w1 (log @ dn) h m" "f \<in> {kSuccess, kWalFull, kWalWriteFailed}"
    using batch_loop_inv [OF bl inv ok len] by auto
  obtain c w2 where wo: "(if dirty then WriteOutWindow w1 else (kSuccess, w1)) = (c, w2)" by fastforce
  have c: "c = kSuccess" "dev_ok w2"
    using wo dev_ok_writeout [OF D(1) f(2)] f(2) by (auto split: if_splits)
  obtain d where sy: "wal_Sync w2 = (kSuccess, w2\<lparr>w_dev := d\<rparr>)" "dev_ok (w2\<lparr>w_dev := d\<rparr>)"
    using dev_ok_sync [OF c(2)] by blast
  show "set rs \<subseteq> {kSuccess, kWalFull}" "dev_ok w'"
    using run f D(2) c sy unfolding ProcessBatch_def bl prod.case Let_def wo
    by (auto split: if_splits)
qed

section \<open>What no write changes\<close>

definition same_ring :: "wal \<Rightarrow> wal \<Rightarrow> bool" where
  "same_ring w w' \<longleftrightarrow> w_ring_start w' = w_ring_start w \<and> w_ring_end w' = w_ring_end w
     \<and> w_head_off w' = w_head_off w \<and> w_buf_size w' = w_buf_size w \<and> w_level w' = w_level w"

lemma same_ring_refl [simp]: "same_ring w w"
  by (simp add: same_ring_def)

lemma same_ring_trans: "same_ring a b \<Longrightarrow> same_ring b c \<Longrightarrow> same_ring a c"
  by (simp add: same_ring_def)

lemma same_ring_basic [simp]:
  "same_ring w (reopen w)" "same_ring w (AdvanceAfterWrite w)" "same_ring w (w\<lparr>w_dev := d\<rparr>)"
  by (simp_all add: same_ring_def reopen_def AdvanceAfterWrite_def Let_def)

lemma same_ring_span: "WriteWindowSpan w = (c, w') \<Longrightarrow> same_ring w w'"
  by (auto simp: WriteWindowSpan_def Let_def split: prod.splits)

lemma same_ring_writeout: "WriteOutWindow w = (c, w') \<Longrightarrow> same_ring w w'"
  by (auto simp: WriteOutWindow_def dest: same_ring_span intro: same_ring_trans split: if_splits prod.splits)

lemma same_ring_sync: "wal_Sync w = (c, w') \<Longrightarrow> same_ring w w'"
  by (auto simp: wal_Sync_def split: prod.splits)

lemma same_ring_flush: "Flush w = (c, w') \<Longrightarrow> same_ring w w'"
  by (auto simp: Flush_def dest!: same_ring_span same_ring_sync split: if_splits prod.splits)
    (meson same_ring_basic same_ring_trans)+

lemma same_ring_append: "Append w e = (c, w') \<Longrightarrow> same_ring w w'"
  by (auto simp: Append_def Let_def same_ring_def split: option.splits)

lemma same_ring_batch_loop:
  "batch_loop batch wrote dirty w = (f, rest, wrote', dirty', w') \<Longrightarrow> same_ring w w'"
proof (induction batch arbitrary: wrote dirty w)
  case (Cons e es)
  obtain c w2 where wo: "(if w_window_bytes (reopen w) \<le> used_bytes (reopen w) then WriteOutWindow (reopen w)
      else (kSuccess, reopen w)) = (c, w2)" by fastforce
  obtain c3 w3 where ap: "Append w2 e = (c3, w3)" by fastforce
  have s2: "same_ring w w2"
    using wo same_ring_writeout [of "reopen w" c w2] same_ring_trans [OF same_ring_basic(1), of w w2]
    by (auto split: if_splits)
  have s3: "same_ring w w3" using s2 same_ring_append [OF ap] by (rule same_ring_trans)
  have rec: "batch_loop es x True w3 = (f, rest, wrote', dirty', w') \<Longrightarrow> same_ring w w'" for x
    using Cons.IH s3 same_ring_trans by blast
  show ?case
    using Cons.prems [unfolded batch_loop.simps Let_def wo prod.case ap] s2 s3 rec
    by (auto split: if_splits)
qed simp

lemma same_ring_batch: "ProcessBatch batch w = (rs, w') \<Longrightarrow> same_ring w w'"
proof -
  assume run: "ProcessBatch batch w = (rs, w')"
  obtain f rest wrote dirty w1 where bl: "batch_loop batch False False w = (f, rest, wrote, dirty, w1)"
    by (metis prod_cases5)
  obtain c w2 where wo: "(if dirty then WriteOutWindow w1 else (kSuccess, w1)) = (c, w2)" by fastforce
  obtain cs w3 where sy: "wal_Sync w2 = (cs, w3)" by fastforce
  have s1: "same_ring w w1" by (rule same_ring_batch_loop [OF bl])
  have s2: "same_ring w w2" using wo s1 same_ring_writeout [of w1 c w2]
    by (auto intro: same_ring_trans split: if_splits)
  have s3: "same_ring w w3" using s2 same_ring_sync [OF sy] by (rule same_ring_trans)
  show ?thesis
    using run s1 s2 s3 unfolding ProcessBatch_def bl prod.case Let_def wo sy by (auto split: if_splits)
qed

lemma same_ring_write: "WriteWal w e = (c, w') \<Longrightarrow> same_ring w w'"
proof -
  assume run: "WriteWal w e = (c, w')"
  obtain rs wb where pb: "ProcessBatch [e] w = (rs, wb)" by fastforce
  obtain c1 w2 where wo: "(if w_window_bytes (reopen w) \<le> used_bytes (reopen w) then Flush (reopen w)
      else (kSuccess, reopen w)) = (c1, w2)" by fastforce
  obtain c3 w3 where ap: "Append w2 e = (c3, w3)" by fastforce
  obtain c4 w4 where fl: "Flush w3 = (c4, w4)" by fastforce
  have sb: "same_ring w wb" by (rule same_ring_batch [OF pb])
  have s2: "same_ring w w2"
    using wo same_ring_flush [of "reopen w" c1 w2] same_ring_trans [OF same_ring_basic(1), of w w2]
    by (auto split: if_splits)
  have s3: "same_ring w w3" using s2 same_ring_append [OF ap] by (rule same_ring_trans)
  have s4: "same_ring w w4" using s3 same_ring_flush [OF fl] by (rule same_ring_trans)
  show ?thesis
    using run [unfolded WriteWal_def Let_def wo prod.case ap fl pb] sb s2 s3 s4 by (auto split: if_splits)
qed

lemma WriteWal_ok:
  assumes inv: "wal_inv w log h m" and ok: "dev_ok w" and len: "length log + 2 < 2 ^ 64"
    and run: "WriteWal w e = (c, w')"
  shows "c \<noteq> kWalWriteFailed" "dev_ok w'"
proof -
  have win: "wal_win w log h" using inv by (simp add: wal_inv_def)
  have buf: "w_buf w \<noteq> None" using wal_winD(15) [OF win] by simp
  have eo: "\<not> kWalKeyMax < length (e_key e) \<Longrightarrow> entries_ok [e] \<and> entry_ok e"
    by (simp add: entries_ok_def entry_ok_def)
  obtain rs wb where pb: "ProcessBatch [e] w = (rs, wb)" by fastforce
  have B: "\<not> kWalKeyMax < length (e_key e) \<Longrightarrow> hd rs \<noteq> kWalWriteFailed \<and> dev_ok wb"
  proof -
    assume k: "\<not> kWalKeyMax < length (e_key e)"
    have "set rs \<subseteq> {kSuccess, kWalFull}" "dev_ok wb" "length rs = 1"
      using ProcessBatch_ok [OF inv ok _ _ pb] ProcessBatch_inv [OF inv _ _ pb] eo [OF k] len by auto
    then show ?thesis by (auto simp: length_Suc_conv)
  qed
  note R = reopen_inv [OF inv]
  have ok1: "dev_ok (reopen w)" using ok dev_ok_reopen by simp
  have win1: "wal_win (reopen w) log h" using R(1) by (simp add: wal_inv_def)
  let ?full = "w_window_bytes (reopen w) \<le> used_bytes (reopen w)"
  obtain c1 w2 where wo: "(if ?full then Flush (reopen w) else (kSuccess, reopen w)) = (c1, w2)" by fastforce
  have i2: "wal_inv w2 log h m" "c1 = kSuccess" "dev_ok w2"
    using wo Flush_inv(1) [OF R(1)] dev_ok_flush [OF R(1) ok1] R(1) ok1 by (auto split: if_splits)
  obtain c3 w3 where ap: "Append w2 e = (c3, w3)" by fastforce
  have ok3: "dev_ok w3" by (rule dev_ok_append [OF ap i2(3)])
  obtain c4 w4 where fl: "Flush w3 = (c4, w4)" by fastforce
  have A: "c3 = kSuccess \<and> wal_inv w3 (log @ [e]) h m"
    if "\<not> sync_level w" "w_window_bytes (reopen w) \<noteq> 0" "\<not> (?full \<and> w_window_bytes w2 = 0)"
      "\<not> kWalKeyMax < length (e_key e)"
  proof -
    have ns: "\<not> sync_level (reopen w)" using that(1) R(2) by (simp add: sync_level_def)
    have "?full \<Longrightarrow> used_bytes (reopen w) = w_window_bytes (reopen w)" using wal_winD(13) [OF win1] by simp
    then have "?full \<Longrightarrow> w_n_frames w2 = 0" using wo i2(2) Flush_inv(5) [OF R(1)] ns by simp
    then have u2: "used_bytes w2 < w_window_bytes w2"
      using that wo by (cases ?full) (auto simp: used_bytes_def)
    have win2: "wal_win w2 log h" using i2 by (simp add: wal_inv_def)
    show ?thesis
      using Append_inv [OF i2(1) u2 _ len ap] Append_win(1) [OF win2 u2 _ len ap] eo [OF that(4)] by simp
  qed
  note L = run [unfolded WriteWal_def Let_def wo prod.case ap fl pb]
  show "c \<noteq> kWalWriteFailed"
    using L buf B i2 A dev_ok_flush(1) [OF _ ok3 fl] by (auto split: if_splits)
  show "dev_ok w'"
    using L ok buf B ok1 i2 ok3 A dev_ok_flush(2) [OF _ ok3 fl] by (auto split: if_splits)
qed

section \<open>A concrete log\<close>

text \<open>A 1 MiB device that answers, opened in create mode; the runs of the examples below.\<close>

definition demo_dev :: kdev where
  "demo_dev = \<lparr>kd_size = kValueSize, kd_data = (\<lambda>_. 0), kd_durable = (\<lambda>_. 0), kd_script = []\<rparr>"

definition demo_opts :: "wal_level \<Rightarrow> options" where
  "demo_opts lvl = \<lparr>o_create = True, o_wal_level = lvl, o_wal_buffer_size = 32768,
     o_snapshot_threshold_bytes = 65536, o_snapshot_buffer_size = 65536, o_verify_value_crc = True\<rparr>"

definition demo_wal :: "wal_level \<Rightarrow> wal" where
  "demo_wal lvl = snd (Wal_Open (wal_closed demo_dev) (demo_opts lvl))"

definition demo_entry :: wal_entry where
  "demo_entry = \<lparr>e_type = EntryPut, e_key = [107, 49], e_block = BlockId 5, e_value_crc = 77, e_timestamp = 9\<rparr>"

lemma demo_open:
  "Wal_Open (wal_closed demo_dev) (demo_opts lvl) = (kSuccess, demo_wal lvl)"
  "w_dev (demo_wal lvl) = \<lparr>fd_open = True, size_bytes = kValueSize, kdev = demo_dev\<rparr>"
  "ring_bytes (demo_wal lvl) = 1040384" "w_n_frames (demo_wal lvl) = 0"
proof -
  have r: "RoundUpBufferSize 32768 kWalBlockSize = 32768"
    by (simp add: RoundUpBufferSize_def kWalBlockSize_def AlignUp_def)
  have o: "RawDevice_Open (raw_closed demo_dev) = (kSuccess, \<lparr>fd_open = True, size_bytes = kValueSize, kdev = demo_dev\<rparr>)"
    using healthy_Open [of demo_dev] by (simp add: demo_dev_def)
  have a: "AllocAligned \<lparr>fd_open = True, size_bytes = kValueSize, kdev = demo_dev\<rparr>
      = (True, \<lparr>fd_open = True, size_bytes = kValueSize, kdev = demo_dev\<rparr>)"
    by (rule healthy_AllocAligned) (simp add: healthy_def demo_dev_def)
  have w: "WalRingSize kValueSize = 1040384"
    by (simp add: WalRingSize_def kValueSize_def kDataRegionOffset_8K kWalBlockSize_def)
  have c: "w_dev (wal_closed demo_dev) = raw_closed demo_dev" by (simp add: wal_closed_def)
  note U = Wal_Open_def Let_def c o a r demo_opts_def RawDevice_SizeBytes_def w kWalBlockSize_def
  show op: "Wal_Open (wal_closed demo_dev) (demo_opts lvl) = (kSuccess, demo_wal lvl)"
    by (simp add: demo_wal_def U r [unfolded kWalBlockSize_def])
  show "w_dev (demo_wal lvl) = \<lparr>fd_open = True, size_bytes = kValueSize, kdev = demo_dev\<rparr>"
    "ring_bytes (demo_wal lvl) = 1040384" "w_n_frames (demo_wal lvl) = 0"
    by (simp_all add: demo_wal_def U r [unfolded kWalBlockSize_def] ring_bytes_def)
qed

lemma demo_inv: "wal_inv (demo_wal lvl) [] 0 0" "w_level (demo_wal lvl) = lvl"
  using Wal_Open_create [OF demo_open(1)] by (simp_all add: demo_opts_def)

lemma demo_ok: "dev_ok (demo_wal lvl)"
proof -
  have "w_ring_end (demo_wal lvl) \<le> kValueSize"
    using Wal_Open_create(5) [OF demo_open(1)] by (simp add: demo_opts_def demo_dev_def)
  then show ?thesis by (simp add: dev_ok_def healthy_def demo_open(2)) (simp add: demo_dev_def)
qed

lemma demo_write:
  obtains w where "WriteWal (demo_wal lvl) demo_entry = (kSuccess, w)" "dev_ok w"
    "wal_inv w [demo_entry] 0 0" "same_ring (demo_wal lvl) w"
proof -
  obtain c w where run: "WriteWal (demo_wal lvl) demo_entry = (c, w)" by fastforce
  have key: "length (e_key demo_entry) \<le> 84" by (simp add: demo_entry_def)
  have rb: "ring_bytes w = 1040384"
    using same_ring_write [OF run] demo_open(3) by (simp add: same_ring_def ring_bytes_def)
  have "c \<noteq> kWalWriteFailed" "dev_ok w" using WriteWal_ok [OF demo_inv(1) demo_ok _ run] by simp_all
  then have "c = kSuccess" "wal_inv w [demo_entry] 0 0"
    using WriteWal_inv [OF demo_inv(1) _ run] key rb by (auto simp: kWalKeyMax_def)
  then show thesis using that run \<open>dev_ok w\<close> same_ring_write [OF run] by auto
qed

lemma demo_async_frames: "w_n_frames (snd (WriteWal (demo_wal Async) demo_entry)) = 1"
proof -
  let ?w = "demo_wal Async"
  have win: "wal_win ?w [] 0" using demo_inv(1) by (simp add: wal_inv_def)
  obtain b where b: "w_buf ?w = Some b" using wal_winD(15) [OF win] by auto
  have g: "wal_geo ?w" "w_cur_off ?w = slot_off ?w 0" "w_head_off ?w = slot_off ?w 0"
    using wal_winD [OF win] demo_open(4) by (simp_all add: written_def)
  have "RoundUpBufferSize 32768 kWalBlockSize = 32768"
    by (simp add: RoundUpBufferSize_def kWalBlockSize_def AlignUp_def)
  then have "w_buf_size ?w = 32768" "w_window_bytes ?w = WindowAt ?w (w_cur_off ?w)"
    using Wal_Open_create(7,8) [OF demo_open(1)] by (simp_all add: demo_opts_def)
  then have wb: "w_window_bytes ?w = 32768"
    using WindowAt_slot [OF g(1) order_refl _ g(3)] g(2) demo_open(3) by simp
  have n: "\<not> sync_level ?w" using demo_inv(2) by (simp add: sync_level_def IsWalSyncLevel_def)
  show ?thesis
    using b n wb demo_open(4)
    by (simp add: WriteWal_def demo_entry_def kWalKeyMax_def reopen_def used_bytes_def Append_def Let_def kWalFrameSize_def)
qed

section \<open>Properties\<close>

text \<open>C6: what the log acknowledges at a synchronous level survives a power failure. Starting
  from a consistent log and for every pattern of failing writes and syncs: a successful
  \<open>WriteWal\<close> has appended exactly this record, and whatever part of the unsynced bytes the
  medium keeps, every record not yet reclaimed, this one included, is found in its slot as a
  valid frame with its own sequence number and decodes to what was written. When the call
  reports a full ring or an overlong key the log is unchanged.\<close>

theorem wal_ack_survives_crash:
  assumes inv: "wal_inv w log h m" and len: "length log + 2 < 2 ^ 64" and lvl: "sync_level w"
    and run: "WriteWal w e = (c, w')"
  shows "(c = kSuccess \<longrightarrow>
        wal_inv w' (log @ [e]) h (length log + 1)
        \<and> (\<forall>im. crash_image (w_dev w') im \<longrightarrow> (\<forall>k. h \<le> k \<and> k \<le> length log \<longrightarrow>
             (let f = frame_of_bytes (kread im (slot_off w' k) kWalFrameSize)
              in VerifyFrame f \<and> f_seq f = of_nat (k + 1) \<and> DecodeFrame f = (log @ [e]) ! k))))
    \<and> (c \<in> {kWalFull, kWalKeyTooLong} \<longrightarrow> wal_inv w' log h m)"
proof -
  obtain log' where W: "wal_inv w' log' h m" "c = kSuccess \<longrightarrow> log' = log @ [e]"
    "c = kSuccess \<and> sync_level w \<longrightarrow> wal_inv w' log' h (length log')"
    "c \<in> {kWalFull, kWalKeyTooLong} \<longrightarrow> log' = log"
    using WriteWal_inv [OF inv len run] by auto
  have "let f = frame_of_bytes (kread im (slot_off w' k) kWalFrameSize)
      in VerifyFrame f \<and> f_seq f = of_nat (k + 1) \<and> DecodeFrame f = (log @ [e]) ! k"
    if c: "c = kSuccess" and im: "crash_image (w_dev w') im" and k: "h \<le> k" "k \<le> length log" for im k
  proof -
    have i: "wal_inv w' (log @ [e]) h (length log + 1)" using W c lvl by auto
    then have "wal_win w' (log @ [e]) h" by (simp add: wal_inv_def)
    then have ok: "entry_ok ((log @ [e]) ! k)"
      using wal_winD(2) k nth_mem [of k "log @ [e]"] by (auto simp: entries_ok_def simp del: nth_mem)
    have "kread im (slot_off w' k) 128 = fb (log @ [e]) k"
      using inv_crash [OF i im k(1)] k(2) by simp
    then show ?thesis
      using EncodeFrame_wf [OF ok] VerifyFrame_Encode [OF ok] DecodeFrame_Encode [OF ok]
      by (simp add: fb_def kWalFrameSize_def frame_of_bytes_bytes)
  qed
  then show ?thesis using W lvl by auto
qed

theorem wal_ack_survives_crash_witness:
  "fst (WriteWal (demo_wal Strict) demo_entry) = kSuccess
   \<and> wal_inv (snd (WriteWal (demo_wal Strict) demo_entry)) [demo_entry] 0 1"
proof -
  obtain w where w: "WriteWal (demo_wal Strict) demo_entry = (kSuccess, w)" by (rule demo_write)
  have "sync_level (demo_wal Strict)" by (simp add: sync_level_def demo_inv IsWalSyncLevel_def)
  then show ?thesis using wal_ack_survives_crash [OF demo_inv(1) _ _ w] w by simp
qed

text \<open>C19: a batch of the commit group. Its records enter the log in arrival order up to some
  point; every writer told "success" is among them and everything up to the end of that prefix
  is durable; a writer told "full" is not in the log, and the ring really has no free block;
  on a device that answers no writer is told anything else.\<close>

theorem commit_batch_correct:
  assumes inv: "wal_inv w log h m" and ok: "\<forall>e \<in> set batch. length (e_key e) \<le> kWalKeyMax"
    and len: "length log + length batch + 1 < 2 ^ 64" and run: "ProcessBatch batch w = (rs, w')"
  shows "\<exists>k \<le> length batch. wal_inv w' (log @ take k batch) h m
    \<and> length rs = length batch \<and> set rs \<subseteq> {kSuccess, kWalFull, kWalWriteFailed}
    \<and> (kSuccess \<in> set rs \<longrightarrow> wal_inv w' (log @ take k batch) h (length log + k))
    \<and> (\<forall>i < length batch. rs ! i = kSuccess \<longrightarrow> i < k)
    \<and> (\<forall>i < length batch. rs ! i = kWalFull \<longrightarrow> k \<le> i)
    \<and> (kWalFull \<in> set rs \<longrightarrow> 128 * (length log + k - h) + kWalBlockSize = ring_bytes w')
    \<and> (dev_ok w \<longrightarrow> kWalWriteFailed \<notin> set rs)"
proof -
  have eo: "entries_ok batch" using ok by (simp add: entries_ok_def entry_ok_def)
  obtain dn rest where D: "batch = dn @ rest" "wal_inv w' (log @ dn) h m"
    "length rs = length batch" "set rs \<subseteq> {kSuccess, kWalFull, kWalWriteFailed}"
    "kSuccess \<in> set rs \<longrightarrow> wal_inv w' (log @ dn) h (length (log @ dn))"
    "\<forall>i < length batch. rs ! i = kSuccess \<longrightarrow> i < length dn"
    "\<forall>i < length batch. rs ! i = kWalFull \<longrightarrow> length dn \<le> i"
    "kWalFull \<in> set rs \<longrightarrow> 128 * (length (log @ dn) - h) + 4096 = ring_bytes w'"
    using ProcessBatch_inv [OF inv eo len run] by blast
  have "dev_ok w \<longrightarrow> kWalWriteFailed \<notin> set rs" using ProcessBatch_ok(1) [OF inv _ eo len run] by auto
  then show ?thesis
    using D by (intro exI [of _ "length dn"]) (auto simp: kWalBlockSize_def)
qed

theorem commit_batch_correct_witness:
  "set (fst (ProcessBatch [demo_entry, demo_entry] (demo_wal WalSync))) \<subseteq> {kSuccess, kWalFull}
   \<and> length (fst (ProcessBatch [demo_entry, demo_entry] (demo_wal WalSync))) = 2"
proof -
  obtain rs w where run: "ProcessBatch [demo_entry, demo_entry] (demo_wal WalSync) = (rs, w)" by fastforce
  have "\<forall>e \<in> set [demo_entry, demo_entry]. length (e_key e) \<le> kWalKeyMax"
    by (simp add: demo_entry_def kWalKeyMax_def)
  from commit_batch_correct [OF demo_inv(1) this _ run] show ?thesis using demo_ok run by auto
qed

text \<open>C25: progress. On a device that answers, at every level, a record with a key of at most
  84 bytes is refused only when the ring has no free block left; otherwise it is accepted.\<close>

theorem wal_progress:
  assumes inv: "wal_inv w log h m" and ok: "dev_ok w" and len: "length log + 2 < 2 ^ 64"
    and key: "length (e_key e) \<le> kWalKeyMax" and run: "WriteWal w e = (c, w')"
    and room: "128 * (length log - h) + kWalBlockSize < ring_bytes w"
  shows "c = kSuccess \<and> wal_inv w' (log @ [e]) h m \<and> dev_ok w'"
proof -
  have rb: "ring_bytes w' = ring_bytes w"
    using same_ring_write [OF run] by (simp add: same_ring_def ring_bytes_def)
  have "c \<noteq> kWalWriteFailed" "dev_ok w'" using WriteWal_ok [OF inv ok len run] by simp_all
  then show ?thesis
    using WriteWal_inv [OF inv len run] key room rb by (auto simp: kWalBlockSize_def)
qed

theorem wal_progress_witness:
  "fst (WriteWal (demo_wal Async) demo_entry) = kSuccess"
proof -
  obtain c w where run: "WriteWal (demo_wal Async) demo_entry = (c, w)" by fastforce
  show ?thesis
    using wal_progress [OF demo_inv(1) demo_ok _ _ run] demo_open(3) run
    by (simp add: demo_entry_def kWalKeyMax_def kWalBlockSize_def)
qed

text \<open>C20: reclaiming. Whatever boundary it is given, \<open>ReclaimUpTo\<close> either refuses and changes
  nothing, or moves the head to a whole-block boundary between the old head and the tail and
  keeps the log consistent: it never gives up a record behind the boundary, and never one
  beyond the tail. The boundary the snapshot captures (\<open>reclaim_boundary\<close>) is always
  accepted.\<close>

theorem wal_reclaim_safe:
  assumes inv: "wal_inv w log h m" and run: "ReclaimUpTo w b = (c, w')"
  shows "(c = kSuccess \<and> (\<exists>k. h \<le> k \<and> k \<le> written w log \<and> b = slot_off w k \<and> wal_inv w' log k m)
       \<or> c = kWalInvalidReclaim \<and> w' = w)
    \<and> (b = reclaim_boundary w \<longrightarrow> c = kSuccess \<and> wal_inv w' log (written w log) m)"
proof -
  have win: "wal_win w log h" using inv by (simp add: wal_inv_def)
  note d = wal_winD [OF win] and g = wal_geoD [OF wal_winD(1) [OF win]]
  have found: "\<exists>k. h \<le> k \<and> k \<le> written w log \<and> 32 dvd k \<and> b = slot_off w k" if "c = kSuccess"
  proof -
    define R H p where "R = ring_bytes w" and "H = (128 * h) mod ring_bytes w" and "p = b - w_ring_start w"
    define D where "D = (b + R - w_head_off w) mod R"
    have G: "b mod 4096 = 0" "w_ring_start w \<le> b" "b < w_ring_end w"
      "D \<le> (w_cur_off w + R - w_head_off w) mod R"
      using run that by (auto simp: ReclaimUpTo_def Let_def kWalBlockSize_def D_def R_def split: if_splits)
    have H: "H < R" using g(2) by (simp add: H_def R_def)
    have p: "p < R" using G g(3) by (simp add: p_def R_def)
    have D: "D = (p + R - H) mod R" using G(2) d(9) H by (simp add: D_def p_def slot_off_def H_def R_def)
    have "128 * (written w log - h) < R" using d(11) by (simp add: R_def)
    then have tail: "(w_cur_off w + R - w_head_off w) mod R = 128 * (written w log - h)"
      using mod_distance [of "128 * h" "128 * written w log" R] d(8,9,10)
      by (simp add: slot_off_def R_def diff_mult_distrib2)
    have "4096 dvd w_ring_start w" using d(1) by (simp add: wal_geo_def kDataRegionOffset_8K)
    then have "4096 dvd p" using G(1) by (simp add: p_def dvd_diff_nat mod_eq_0_iff_dvd)
    moreover have "4096 dvd H" unfolding H_def by (rule dvd_mod_4096 [OF g(4) d(7)])
    ultimately have "4096 dvd p + R - H" using g(4) by (simp add: R_def dvd_diff_nat)
    then have "4096 dvd D" unfolding D using g(4) by (simp add: R_def dvd_mod)
    then obtain q where q: "D = 4096 * q" by (auto simp: dvd_def)
    let ?k = "h + 32 * q"
    have "?k \<le> written w log" using G(4) tail q d(8) by simp
    moreover have "32 dvd ?k" using d(7) by simp
    moreover have "(128 * ?k) mod R = p"
    proof -
      have "(128 * ?k) mod R = (H + (p + R - H) mod R) mod R"
        using q D by (simp add: H_def R_def add_mult_distrib2 mod_add_left_eq)
      also have "\<dots> = (H + (p + R - H)) mod R" by (simp only: mod_add_right_eq)
      also have "\<dots> = p" using H p by simp
      finally show ?thesis .
    qed
    then have "b = slot_off w ?k" using G(2) by (simp add: slot_off_def p_def R_def)
    ultimately show ?thesis by (intro exI [of _ ?k]) simp
  qed
  have "c = kSuccess \<or> c = kWalInvalidReclaim \<and> w' = w"
    using run by (auto simp: ReclaimUpTo_def Let_def split: if_splits)
  moreover have "c = kSuccess \<Longrightarrow> \<exists>k. h \<le> k \<and> k \<le> written w log \<and> b = slot_off w k \<and> wal_inv w' log k m"
    using found reclaim_slot [OF inv] run by fastforce
  moreover have "b = reclaim_boundary w \<Longrightarrow> c = kSuccess \<and> wal_inv w' log (written w log) m"
    using reclaim_slot [OF inv d(8) order_refl d(6)] run d(10) by (simp add: reclaim_boundary_def)
  ultimately show ?thesis by blast
qed

theorem wal_reclaim_safe_witness:
  "fst (ReclaimUpTo (demo_wal WalSync) (reclaim_boundary (demo_wal WalSync))) = kSuccess"
proof -
  obtain c w where run: "ReclaimUpTo (demo_wal WalSync) (reclaim_boundary (demo_wal WalSync)) = (c, w)" by fastforce
  show ?thesis using wal_reclaim_safe [OF demo_inv(1) run] run by simp
qed

text \<open>C21: the rescue always helps. After a snapshot has reclaimed up to the tail (with at most
  a partial block left in the window, as after a flush), the retried write is not refused for
  lack of space; on a device that answers it succeeds.\<close>

theorem wal_rescue_retry:
  assumes inv: "wal_inv w log h m" and part: "w_n_frames w < kWalFramesPerBlock"
    and len: "length log + 2 < 2 ^ 64" and key: "length (e_key e) \<le> kWalKeyMax"
    and rec: "ReclaimUpTo w (reclaim_boundary w) = (c1, w1)" and run: "WriteWal w1 e = (c2, w2)"
  shows "c1 = kSuccess \<and> c2 \<noteq> kWalFull \<and> (dev_ok w \<longrightarrow> c2 = kSuccess)"
proof -
  have win: "wal_win w log h" using inv by (simp add: wal_inv_def)
  note d = wal_winD [OF win] and g = wal_geoD [OF wal_winD(1) [OF win]]
  have w1: "c1 = kSuccess" "w1 = w\<lparr>w_head_off := slot_off w (written w log)\<rparr>"
    "wal_inv w1 log (written w log) m"
    using reclaim_slot [OF inv d(8) order_refl d(6)] rec d(10) by (simp_all add: reclaim_boundary_def)
  have rb: "ring_bytes w2 = ring_bytes w" "ring_bytes w1 = ring_bytes w"
    using same_ring_write [OF run] w1(2) by (simp_all add: same_ring_def ring_bytes_def)
  have "length log - written w log < 32" using part d(5) by (simp add: written_def)
  then have room: "128 * (length log - written w log) + 4096 < ring_bytes w" using g(1) by linarith
  have "dev_ok w \<Longrightarrow> dev_ok w1" using w1(2) by (simp add: dev_ok_def)
  then have "dev_ok w \<Longrightarrow> c2 \<noteq> kWalWriteFailed" using WriteWal_ok(1) [OF w1(3) _ len run] by blast
  then show ?thesis using WriteWal_inv [OF w1(3) len run] w1(1) room rb key by auto
qed

theorem wal_rescue_retry_witness:
  "fst (ReclaimUpTo (demo_wal WalSync) (reclaim_boundary (demo_wal WalSync))) = kSuccess
   \<and> fst (WriteWal (snd (ReclaimUpTo (demo_wal WalSync) (reclaim_boundary (demo_wal WalSync)))) demo_entry)
     = kSuccess"
proof -
  obtain c1 w1 where rec: "ReclaimUpTo (demo_wal WalSync) (reclaim_boundary (demo_wal WalSync)) = (c1, w1)" by fastforce
  obtain c2 w2 where run: "WriteWal w1 demo_entry = (c2, w2)" by fastforce
  show ?thesis
    using wal_rescue_retry [OF demo_inv(1) _ _ _ rec run] demo_open(4) demo_ok rec run
    by (simp add: demo_entry_def kWalKeyMax_def kWalFramesPerBlock_def)
qed

text \<open>At the batching levels a successful flush with frames pending makes the whole log
  durable; whatever happens, no record is lost from the log, and a failed flush can be
  repeated.\<close>

theorem wal_flush_durable:
  assumes inv: "wal_inv w log h m" and lvl: "\<not> sync_level w" and run: "Flush w = (c, w')"
  shows "wal_inv w' log h m \<and> (c = kSuccess \<or> c = kWalWriteFailed)
    \<and> (c = kSuccess \<and> 0 < w_n_frames w \<longrightarrow> wal_inv w' log h (length log))
    \<and> (dev_ok w \<longrightarrow> c = kSuccess)"
  using Flush_inv [OF inv run] lvl dev_ok_flush(1) [OF inv _ run] by auto

theorem wal_flush_durable_witness:
  "fst (Flush (snd (WriteWal (demo_wal Async) demo_entry))) = kSuccess
   \<and> wal_inv (snd (Flush (snd (WriteWal (demo_wal Async) demo_entry)))) [demo_entry] 0 1"
proof -
  obtain w where w: "WriteWal (demo_wal Async) demo_entry = (kSuccess, w)" "dev_ok w"
    "wal_inv w [demo_entry] 0 0" "same_ring (demo_wal Async) w" by (rule demo_write)
  have n: "w_n_frames w = 1" using demo_async_frames w(1) by simp
  obtain c w' where run: "Flush w = (c, w')" by fastforce
  have "\<not> sync_level w" using w(4) demo_inv(2) by (simp add: same_ring_def sync_level_def IsWalSyncLevel_def)
  from wal_flush_durable [OF w(3) this run] show ?thesis using w n run by simp
qed

text \<open>Opening in create mode establishes the empty consistent log with the configured
  level; it refuses a device whose ring is smaller than twice the snapshot threshold or than
  the buffer plus one block (buffers of at most 256 GiB), and writes nothing.\<close>

theorem wal_open_create:
  assumes run: "Wal_Open (wal_closed d) opts = (c, w)" and cr: "o_create opts"
    and sz: "o_wal_buffer_size opts \<le> 2 ^ 38" and ok: "c = kSuccess"
  shows "wal_inv w [] 0 0 \<and> w_level w = o_wal_level opts
    \<and> w_ring_end w \<le> kd_size d \<and> rd_contents (w_dev w) = kd_data d
    \<and> (2 * o_snapshot_threshold_bytes opts \<le> ring_bytes w \<or> 2 ^ 63 \<le> o_snapshot_threshold_bytes opts)
    \<and> w_buf_size w + kWalBlockSize \<le> ring_bytes w"
proof -
  note O = Wal_Open_create [OF run [unfolded ok] cr sz]
  have "wal_geo w" using O(1) by (simp add: wal_inv_def wal_win_def)
  then show ?thesis using O by (simp add: wal_geo_def kWalBlockSize_def)
qed

theorem wal_open_create_witness:
  "Wal_Open (wal_closed demo_dev) (demo_opts Strict) = (kSuccess, demo_wal Strict)
   \<and> wal_inv (demo_wal Strict) [] 0 0"
  using wal_open_create [OF demo_open(1) _ _ refl, of Strict] demo_open(1)
  by (simp add: demo_opts_def)

end
