(* ===== verification/Cabe_SnapshotFormat.thy ===== *)
theory Cabe_SnapshotFormat
  imports Cabe_WalFrame
begin

text \<open>
  \<open>snapshot/snapshot_format.h\<close>: the 128-byte snapshot record (one entry of the index), the
  4096-byte slot header, their byte images, and the check of the header.
\<close>

definition kSnapshotRecordSize :: nat where "kSnapshotRecordSize = 128"
definition kSnapshotKeyMax :: nat where "kSnapshotKeyMax = 96"
definition kSnapshotBlockSize :: nat where "kSnapshotBlockSize = 4096"
definition kSnapshotSlotHeaderSize :: nat where "kSnapshotSlotHeaderSize = 4096"
definition kSnapshotSlotMagic :: u32 where "kSnapshotSlotMagic = 0x50414E53"
definition kSnapshotSlotVersion :: u32 where "kSnapshotSlotVersion = 1"

definition SnapshotSlotSize :: "nat \<Rightarrow> nat" where
  "SnapshotSlotSize device_bytes =
     (if device_bytes \<le> kDataRegionOffset then 0
      else (device_bytes - kDataRegionOffset) div 2 div kSnapshotBlockSize * kSnapshotBlockSize)"

record snapshot_record =
  sr_key_len :: u16
  sr_state :: u8
  sr_reserved0 :: u8
  sr_value_crc :: u32
  sr_block :: u64
  sr_timestamp :: u64
  sr_key :: bytes
  sr_reserved1 :: bytes

record slot_header =
  sh_magic :: u32
  sh_version :: u32
  sh_generation :: u64
  sh_covered_seq :: u64
  sh_entry_count :: u64
  sh_data_len :: u64
  sh_data_crc :: u32
  sh_reserved0 :: u32
  sh_created_at :: u64
  sh_engine_uuid :: bytes
  sh_reserved :: bytes
  sh_header_crc32c :: u32

section \<open>Byte images\<close>

definition record_bytes :: "snapshot_record \<Rightarrow> bytes" where
  "record_bytes r = le_bytes 2 (sr_key_len r) @ le_bytes 1 (sr_state r) @
     le_bytes 1 (sr_reserved0 r) @ le_bytes 4 (sr_value_crc r) @ le_bytes 8 (sr_block r) @
     le_bytes 8 (sr_timestamp r) @ sr_key r @ sr_reserved1 r"

definition record_of_bytes :: "bytes \<Rightarrow> snapshot_record" where
  "record_of_bytes bs = \<lparr>sr_key_len = le_word (peek 0 2 bs), sr_state = le_word (peek 2 1 bs),
     sr_reserved0 = le_word (peek 3 1 bs), sr_value_crc = le_word (peek 4 4 bs),
     sr_block = le_word (peek 8 8 bs), sr_timestamp = le_word (peek 16 8 bs),
     sr_key = peek 24 96 bs, sr_reserved1 = peek 120 8 bs\<rparr>"

definition header_body :: "slot_header \<Rightarrow> bytes" where
  "header_body h = le_bytes 4 (sh_magic h) @ le_bytes 4 (sh_version h) @
     le_bytes 8 (sh_generation h) @ le_bytes 8 (sh_covered_seq h) @ le_bytes 8 (sh_entry_count h) @
     le_bytes 8 (sh_data_len h) @ le_bytes 4 (sh_data_crc h) @ le_bytes 4 (sh_reserved0 h) @
     le_bytes 8 (sh_created_at h) @ sh_engine_uuid h @ sh_reserved h"

definition header_bytes :: "slot_header \<Rightarrow> bytes" where
  "header_bytes h = header_body h @ le_bytes 4 (sh_header_crc32c h)"

definition header_of_bytes :: "bytes \<Rightarrow> slot_header" where
  "header_of_bytes bs = \<lparr>sh_magic = le_word (peek 0 4 bs), sh_version = le_word (peek 4 4 bs),
     sh_generation = le_word (peek 8 8 bs), sh_covered_seq = le_word (peek 16 8 bs),
     sh_entry_count = le_word (peek 24 8 bs), sh_data_len = le_word (peek 32 8 bs),
     sh_data_crc = le_word (peek 40 4 bs), sh_reserved0 = le_word (peek 44 4 bs),
     sh_created_at = le_word (peek 48 8 bs), sh_engine_uuid = peek 56 16 bs,
     sh_reserved = peek 72 4020 bs, sh_header_crc32c = le_word (peek 4092 4 bs)\<rparr>"

section \<open>Encoding, decoding, checking\<close>

definition EncodeSnapshotRecord :: "bytes \<Rightarrow> value_meta \<Rightarrow> snapshot_record" where
  "EncodeSnapshotRecord key meta =
     \<lparr>sr_key_len = of_nat (length key), sr_state = value_state_byte (state meta),
      sr_reserved0 = 0, sr_value_crc = crc meta, sr_block = raw (block meta),
      sr_timestamp = timestamp meta, sr_key = poke 0 key (zeros kSnapshotKeyMax),
      sr_reserved1 = zeros 8\<rparr>"

definition DecodeSnapshotRecord :: "snapshot_record \<Rightarrow> bytes \<times> value_meta" where
  "DecodeSnapshotRecord r =
     (take (unat (sr_key_len r)) (sr_key r),
      \<lparr>block = BlockId (sr_block r), timestamp = sr_timestamp r, crc = sr_value_crc r,
       state = ValueState (sr_state r)\<rparr>)"

definition ComputeSlotHeaderCrc :: "slot_header \<Rightarrow> u32" where
  "ComputeSlotHeaderCrc h = CRC32 (take (kSnapshotSlotHeaderSize - 4) (header_bytes h))"

definition VerifySlotHeader :: "slot_header \<Rightarrow> bool" where
  "VerifySlotHeader h \<longleftrightarrow>
     (if sh_magic h \<noteq> kSnapshotSlotMagic then False
      else if sh_version h \<noteq> kSnapshotSlotVersion then False
      else ComputeSlotHeaderCrc h = sh_header_crc32c h)"

section \<open>Properties of the format\<close>

definition record_wf :: "snapshot_record \<Rightarrow> bool" where
  "record_wf r \<longleftrightarrow> length (sr_key r) = 96 \<and> length (sr_reserved1 r) = 8"

definition header_wf :: "slot_header \<Rightarrow> bool" where
  "header_wf h \<longleftrightarrow> length (sh_engine_uuid h) = 16 \<and> length (sh_reserved h) = 4020"

lemma record_bytes_length [codec_simps]: "record_wf r \<Longrightarrow> length (record_bytes r) = 128"
  by (simp add: record_bytes_def record_wf_def)

lemma record_of_bytes_bytes: "record_wf r \<Longrightarrow> record_of_bytes (record_bytes r) = r"
  by (simp add: record_of_bytes_def record_bytes_def record_wf_def codec_simps)

lemma header_body_length [codec_simps]: "header_wf h \<Longrightarrow> length (header_body h) = 4092"
  by (simp add: header_body_def header_wf_def)

lemma header_bytes_length [codec_simps]: "header_wf h \<Longrightarrow> length (header_bytes h) = 4096"
  by (simp add: header_bytes_def header_body_length)

lemma header_of_bytes_bytes: "header_wf h \<Longrightarrow> header_of_bytes (header_bytes h) = h"
  by (simp add: header_of_bytes_def header_bytes_def header_body_def header_wf_def codec_simps)

lemma ComputeSlotHeaderCrc_body: "header_wf h \<Longrightarrow> ComputeSlotHeaderCrc h = CRC32 (header_body h)"
  by (simp add: ComputeSlotHeaderCrc_def header_bytes_def header_body_length kSnapshotSlotHeaderSize_def)

text \<open>A header sealed with its checksum passes the check.\<close>

lemma VerifySlotHeader_sealed:
  assumes "header_wf h" "sh_magic h = kSnapshotSlotMagic" "sh_version h = kSnapshotSlotVersion"
  shows "VerifySlotHeader (h\<lparr>sh_header_crc32c := ComputeSlotHeaderCrc h\<rparr>)"
proof -
  let ?h = "h\<lparr>sh_header_crc32c := ComputeSlotHeaderCrc h\<rparr>"
  have "header_wf ?h" "header_body ?h = header_body h" using assms(1) by (simp_all add: header_wf_def header_body_def)
  then have "ComputeSlotHeaderCrc ?h = ComputeSlotHeaderCrc h" using assms(1) by (simp add: ComputeSlotHeaderCrc_body)
  then show ?thesis using assms by (simp add: VerifySlotHeader_def)
qed

text \<open>A zeroed header is no header.\<close>

lemma VerifySlotHeader_zeros: "\<not> VerifySlotHeader (header_of_bytes (zeros kSnapshotSlotHeaderSize))"
proof -
  have "le_word (zeros 4) = (0 :: u32)" by (rule bit_word_eqI) (simp add: bit_le_word)
  then have "sh_magic (header_of_bytes (zeros kSnapshotSlotHeaderSize)) = 0"
    by (simp add: header_of_bytes_def peek_zeros kSnapshotSlotHeaderSize_def)
  then show ?thesis by (simp add: VerifySlotHeader_def kSnapshotSlotMagic_def)
qed

lemma EncodeSnapshotRecord_wf: "length key \<le> kSnapshotKeyMax \<Longrightarrow> record_wf (EncodeSnapshotRecord key meta)"
  by (simp add: record_wf_def EncodeSnapshotRecord_def kSnapshotKeyMax_def)

lemma record_key_len:
  "length key \<le> kSnapshotKeyMax \<Longrightarrow> unat (sr_key_len (EncodeSnapshotRecord key meta)) = length key"
  by (simp add: EncodeSnapshotRecord_def kSnapshotKeyMax_def unat_of_nat take_bit_nat_eq_self)

lemma DecodeSnapshotRecord_Encode:
  "length key \<le> kSnapshotKeyMax \<Longrightarrow> DecodeSnapshotRecord (EncodeSnapshotRecord key meta) = (key, meta)"
proof -
  assume k: "length key \<le> kSnapshotKeyMax"
  have "poke 0 key (zeros kSnapshotKeyMax) = key @ zeros (kSnapshotKeyMax - length key)"
    using k by (simp add: poke_def)
  then show ?thesis
    using record_key_len [OF k, of meta]
    by (cases "state meta") (simp add: DecodeSnapshotRecord_def EncodeSnapshotRecord_def)
qed

lemma kSnapshot_numbers:
  "kSnapshotRecordSize = 128" "kSnapshotBlockSize = 4096" "kSnapshotSlotHeaderSize = 4096"
  by (simp_all add: kSnapshotRecordSize_def kSnapshotBlockSize_def kSnapshotSlotHeaderSize_def)

lemma SnapshotSlotSize_dvd: "4096 dvd SnapshotSlotSize n"
  by (simp add: SnapshotSlotSize_def kSnapshotBlockSize_def)

lemma SnapshotSlotSize_le: "0 < SnapshotSlotSize n \<Longrightarrow> kDataRegionOffset + 2 * SnapshotSlotSize n \<le> n"
proof -
  assume "0 < SnapshotSlotSize n"
  then have k: "kDataRegionOffset < n"
    "SnapshotSlotSize n = (n - kDataRegionOffset) div 2 div kSnapshotBlockSize * kSnapshotBlockSize"
    by (auto simp: SnapshotSlotSize_def split: if_splits)
  have "SnapshotSlotSize n \<le> (n - kDataRegionOffset) div 2" unfolding k(2) by simp
  then have "2 * SnapshotSlotSize n \<le> n - kDataRegionOffset" by simp
  then show ?thesis using k(1) by linarith
qed

text \<open>A snapshot record gives back the key and the index entry it was made from, for every
  key of at most 96 bytes, through its 128 byte image; a slot header is read back field by
  field from its 4096 bytes; and a zeroed header is never taken for a snapshot.\<close>

theorem snapshot_format_roundtrip:
  assumes "length key \<le> kSnapshotKeyMax"
  shows "length (record_bytes (EncodeSnapshotRecord key meta)) = kSnapshotRecordSize
    \<and> DecodeSnapshotRecord (record_of_bytes (record_bytes (EncodeSnapshotRecord key meta))) = (key, meta)
    \<and> (header_wf h \<longrightarrow> length (header_bytes h) = kSnapshotSlotHeaderSize
         \<and> header_of_bytes (header_bytes h) = h)
    \<and> \<not> VerifySlotHeader (header_of_bytes (zeros kSnapshotSlotHeaderSize))"
  using EncodeSnapshotRecord_wf [OF assms] DecodeSnapshotRecord_Encode [OF assms] VerifySlotHeader_zeros
  by (simp add: record_bytes_length record_of_bytes_bytes header_bytes_length header_of_bytes_bytes
      kSnapshot_numbers)

theorem snapshot_format_roundtrip_witness:
  "DecodeSnapshotRecord (record_of_bytes (record_bytes (EncodeSnapshotRecord [107, 49]
     \<lparr>block = BlockId 9, timestamp = 4, crc = 3, state = Active\<rparr>)))
   = ([107, 49], \<lparr>block = BlockId 9, timestamp = 4, crc = 3, state = Active\<rparr>)"
  using snapshot_format_roundtrip [of "[107, 49]" "\<lparr>block = BlockId 9, timestamp = 4, crc = 3, state = Active\<rparr>"]
  by (simp add: kSnapshotKeyMax_def)

end
