(* ===== verification/Cabe_Snapshot.thy ===== *)
theory Cabe_Snapshot
  imports Cabe_SnapshotFormat Cabe_SuperBlock Cabe_MetaIndex Cabe_Util
begin

text \<open>
  \<open>snapshot/snapshot.cpp\<close>: the two slots of the snapshot device. \<open>Write\<close> streams the index
  into the slot that is not active, header last, one sync at the end; opening for recovery
  judges the two slots and \<open>Load\<close> replays the chosen one.

  A loop that makes no progress (only possible when a size computation has wrapped to zero)
  does not end in C++; the two reading loops give \<open>None\<close> there.
\<close>

record snapshot =
  sn_dev :: raw_device
  sn_slot_a :: nat
  sn_slot_b :: nat
  sn_slot_size :: nat
  sn_next_gen :: nat
  sn_last_covered :: nat
  sn_last_trigger :: nat
  sn_entry_count :: nat
  sn_active :: int
  sn_uuid :: bytes
  sn_buffer_size :: nat

definition snapshot_fresh :: "kdev \<Rightarrow> snapshot" where
  "snapshot_fresh d = \<lparr>sn_dev = raw_closed d, sn_slot_a = 0, sn_slot_b = 0, sn_slot_size = 0,
     sn_next_gen = 1, sn_last_covered = 0, sn_last_trigger = 0, sn_entry_count = 0,
     sn_active = -1, sn_uuid = zeros kUuidBytes, sn_buffer_size = 0\<rparr>"

definition snap_slot :: "snapshot \<Rightarrow> int \<Rightarrow> nat" where
  "snap_slot s slot = (if slot = 0 then sn_slot_a s else sn_slot_b s)"

definition Snapshot_Close :: "snapshot \<Rightarrow> rc \<times> snapshot" where
  "Snapshot_Close s = (case RawDevice_Close (sn_dev s) of (c, d) \<Rightarrow> (c, s\<lparr>sn_dev := d\<rparr>))"

definition NoteTriggerAttempt :: "snapshot \<Rightarrow> nat \<Rightarrow> snapshot" where
  "NoteTriggerAttempt s seq = s\<lparr>sn_last_trigger := seq\<rparr>"

definition snap_failed :: "rc \<Rightarrow> snapshot \<Rightarrow> rc \<times> snapshot" where
  "snap_failed c s = (c, snd (Snapshot_Close s))"

section \<open>Writing\<close>

text \<open>The state of the encoding visitor: the device, the bytes pending in the buffer, the next
  offset, the number of records and the running checksum.\<close>

record snap_enc =
  en_dev :: raw_device
  en_pending :: bytes
  en_off :: nat
  en_count :: nat
  en_crc :: u32

definition snap_visit ::
  "nat \<Rightarrow> nat \<Rightarrow> bytes \<Rightarrow> value_meta \<Rightarrow> snap_enc \<Rightarrow> rc \<times> snap_enc" where
  "snap_visit buf_size data_end key meta en =
     (if kSnapshotKeyMax < length key then (kSnapshotWriteFailed, en) else
      let rec = record_bytes (EncodeSnapshotRecord key meta);
          en1 = en\<lparr>en_pending := en_pending en @ rec, en_crc := CRC32CStreamUpdate (en_crc en) rec,
                   en_count := en_count en + 1\<rparr>
      in if length (en_pending en1) \<noteq> buf_size then (kSuccess, en1)
      else if data_end < en_off en1 + buf_size then (kDeviceTooSmall, en1)
      else case RawDevice_WriteAt (en_dev en1) (en_off en1) (en_pending en1) of (c, d) \<Rightarrow>
        if c \<noteq> kSuccess then (kSnapshotWriteFailed, en1\<lparr>en_dev := d\<rparr>)
        else (kSuccess, en1\<lparr>en_dev := d, en_off := en_off en1 + buf_size, en_pending := []\<rparr>))"

definition slot_header_for :: "bytes \<Rightarrow> nat \<Rightarrow> nat \<Rightarrow> nat \<Rightarrow> u32 \<Rightarrow> u64 \<Rightarrow> slot_header" where
  "slot_header_for uuid gen covered_seq count data_crc now =
     (let h = \<lparr>sh_magic = kSnapshotSlotMagic, sh_version = kSnapshotSlotVersion,
        sh_generation = of_nat gen, sh_covered_seq = of_nat covered_seq,
        sh_entry_count = of_nat count, sh_data_len = of_nat (count * kSnapshotRecordSize),
        sh_data_crc = data_crc, sh_reserved0 = 0, sh_created_at = now,
        sh_engine_uuid = uuid, sh_reserved = zeros 4020, sh_header_crc32c = 0\<rparr>
      in h\<lparr>sh_header_crc32c := ComputeSlotHeaderCrc h\<rparr>)"

text \<open>The remainder is padded with zeros to a block; the padding is not part of the checksum.\<close>

definition flush_tail :: "nat \<Rightarrow> snap_enc \<Rightarrow> rc \<times> snap_enc" where
  "flush_tail data_end en =
     (let used = length (en_pending en); bytes = AlignUp used kSnapshotBlockSize in
      if used = 0 then (kSuccess, en)
      else if data_end < en_off en + bytes then (kDeviceTooSmall, en)
      else case RawDevice_WriteAt (en_dev en) (en_off en) (en_pending en @ zeros (bytes - used)) of (c, d) \<Rightarrow>
        (if c \<noteq> kSuccess then kSnapshotWriteFailed else kSuccess, en\<lparr>en_dev := d\<rparr>))"

text \<open>\<open>scan\<close> runs the visitor over the index (the engine passes the index's \<open>ForEach\<close>).\<close>

definition Snapshot_Write ::
  "snapshot \<Rightarrow> nat \<Rightarrow> ((bytes \<Rightarrow> value_meta \<Rightarrow> snap_enc \<Rightarrow> rc \<times> snap_enc) \<Rightarrow> snap_enc \<Rightarrow> rc \<times> snap_enc)
     \<Rightarrow> u64 \<Rightarrow> rc \<times> snapshot" where
  "Snapshot_Write s covered_seq scan now =
     (if \<not> RawDevice_is_open (sn_dev s) then (kSnapshotWriteFailed, s) else
      let target = (if sn_active s = 0 then 1 else 0 :: int);
          slot = snap_slot s target;
          data_end = slot + sn_slot_size s;
          buf_size = RoundUpBufferSize (sn_buffer_size s) kSnapshotBlockSize
      in case AllocAligned (sn_dev s) of (a, d0) \<Rightarrow>
      if \<not> a then (kSnapshotWriteFailed, s\<lparr>sn_dev := d0\<rparr>) else
      case scan (snap_visit buf_size data_end) \<lparr>en_dev = d0, en_pending = [],
          en_off = slot + kSnapshotSlotHeaderSize, en_count = 0, en_crc = 0xFFFFFFFF\<rparr> of (c1, en1) \<Rightarrow>
      if c1 \<noteq> kSuccess then (c1, s\<lparr>sn_dev := en_dev en1\<rparr>) else
      case flush_tail data_end en1 of (c2, en2) \<Rightarrow>
      if c2 \<noteq> kSuccess then (c2, s\<lparr>sn_dev := en_dev en2\<rparr>) else
      let hdr = slot_header_for (sn_uuid s) (sn_next_gen s) covered_seq (en_count en2) (NOT (en_crc en2)) now in
      case RawDevice_WriteAt (en_dev en2) slot (header_bytes hdr) of (c3, d3) \<Rightarrow>
      if c3 \<noteq> kSuccess then (kSnapshotWriteFailed, s\<lparr>sn_dev := d3\<rparr>) else
      case RawDevice_Sync d3 of (c4, d4) \<Rightarrow>
      if c4 \<noteq> kSuccess then (kSnapshotWriteFailed, s\<lparr>sn_dev := d4\<rparr>) else
      (kSuccess, s\<lparr>sn_dev := d4, sn_active := target, sn_last_covered := covered_seq,
        sn_entry_count := en_count en2, sn_next_gen := (sn_next_gen s + 1) mod 2 ^ 64\<rparr>))"

section \<open>Judging a slot\<close>

definition slot_ok :: "snapshot \<Rightarrow> slot_header \<Rightarrow> bool" where
  "slot_ok s h \<longleftrightarrow> VerifySlotHeader h \<and> sh_engine_uuid h = sn_uuid s
     \<and> sh_data_len h = sh_entry_count h * of_nat kSnapshotRecordSize
     \<and> (kSnapshotSlotHeaderSize + unat (sh_data_len h)) mod 2 ^ 64 \<le> sn_slot_size s"

definition read_want :: "nat \<Rightarrow> nat \<Rightarrow> nat" where
  "read_want buf_size remaining = min buf_size (AlignUp (min remaining buf_size) kSnapshotBlockSize)"

function verify_loop ::
  "nat \<Rightarrow> nat \<Rightarrow> nat \<Rightarrow> u32 \<Rightarrow> raw_device \<Rightarrow> (rc \<times> u32 \<times> raw_device) option" where
  "verify_loop buf_size off remaining acc d =
     (if remaining = 0 then Some (kSuccess, acc, d) else
      let want = read_want buf_size remaining; use = min remaining want in
      case RawDevice_ReadAt d off want of (c, buf, d1) \<Rightarrow>
      if c \<noteq> kSuccess then Some (kSnapshotReadFailed, acc, d1)
      else if use = 0 then None
      else verify_loop buf_size (off + want) (remaining - use) (CRC32CStreamUpdate acc (take use buf)) d1)"
  by pat_completeness auto
termination
  by (relation "measure (\<lambda>(_, _, r, _, _). r)") auto

definition VerifySlotData :: "snapshot \<Rightarrow> int \<Rightarrow> slot_header \<Rightarrow> (rc \<times> snapshot) option" where
  "VerifySlotData s slot h =
     (if sh_data_len h = 0 then
        Some (if sh_data_crc h = 0 then kSuccess else kSnapshotCorrupted, s)
      else
        let data_off = snap_slot s slot + kSnapshotSlotHeaderSize;
            buf_size = RoundUpBufferSize (sn_buffer_size s) kSnapshotBlockSize
        in case AllocAligned (sn_dev s) of (a, d) \<Rightarrow>
        if \<not> a then Some (kSnapshotReadFailed, s\<lparr>sn_dev := d\<rparr>)
        else map_option (\<lambda>(c, acc, d1).
          (if c \<noteq> kSuccess then c else if NOT acc = sh_data_crc h then kSuccess else kSnapshotCorrupted,
           s\<lparr>sn_dev := d1\<rparr>)) (verify_loop buf_size data_off (unat (sh_data_len h)) 0xFFFFFFFF d))"

section \<open>Opening\<close>

definition open_create :: "snapshot \<Rightarrow> rc \<times> snapshot" where
  "open_create s =
     (case AllocAligned (sn_dev s) of (a, d0) \<Rightarrow>
      if \<not> a then snap_failed kSnapshotWriteFailed (s\<lparr>sn_dev := d0\<rparr>) else
      case RawDevice_WriteAt d0 (sn_slot_a s) (zeros kSnapshotSlotHeaderSize) of (wa, d1) \<Rightarrow>
      case RawDevice_WriteAt d1 (sn_slot_b s) (zeros kSnapshotSlotHeaderSize) of (wb, d2) \<Rightarrow>
      if wa \<noteq> kSuccess \<or> wb \<noteq> kSuccess then snap_failed kSnapshotWriteFailed (s\<lparr>sn_dev := d2\<rparr>) else
      case RawDevice_Sync d2 of (sc, d3) \<Rightarrow>
      if sc \<noteq> kSuccess then snap_failed kSnapshotWriteFailed (s\<lparr>sn_dev := d3\<rparr>) else
      (kSuccess, s\<lparr>sn_dev := d3, sn_next_gen := 1, sn_active := -1, sn_last_covered := 0,
         sn_last_trigger := 0, sn_entry_count := 0\<rparr>))"

text \<open>The state rebuilt from the chosen slot; the generation goes on above every valid header.\<close>

definition snap_chosen :: "snapshot \<Rightarrow> int \<Rightarrow> slot_header \<Rightarrow> slot_header \<Rightarrow> rc \<times> snapshot" where
  "snap_chosen s chosen h0 h1 =
     (let h = (if chosen = 0 then h0 else h1);
          max_gen = max (if slot_ok s h0 then unat (sh_generation h0) else 0)
                        (if slot_ok s h1 then unat (sh_generation h1) else 0)
      in (kSuccess, s\<lparr>sn_active := chosen, sn_next_gen := (max_gen + 1) mod 2 ^ 64,
            sn_last_covered := unat (sh_covered_seq h), sn_last_trigger := unat (sh_covered_seq h),
            sn_entry_count := unat (sh_entry_count h)\<rparr>))"

definition snap_candidate :: "snapshot \<Rightarrow> slot_header \<Rightarrow> slot_header \<Rightarrow> int" where
  "snap_candidate s h0 h1 =
     (if slot_ok s h0 \<and> slot_ok s h1 then (if sh_generation h1 < sh_generation h0 then 0 else 1)
      else if slot_ok s h0 then 0 else if slot_ok s h1 then 1 else -1)"

definition snap_judge :: "snapshot \<Rightarrow> slot_header \<Rightarrow> slot_header \<Rightarrow> (rc \<times> snapshot) option" where
  "snap_judge s h0 h1 =
     (if slot_ok s h0 \<and> slot_ok s h1 \<and> sh_generation h0 = sh_generation h1
      then Some (snap_failed kSnapshotCorrupted s) else
      let cand = snap_candidate s h0 h1 in
      if cand < 0 then
        Some (kSuccess, s\<lparr>sn_next_gen := 1, sn_active := -1, sn_last_covered := 0,
                          sn_last_trigger := 0, sn_entry_count := 0\<rparr>)
      else
      case VerifySlotData s cand (if cand = 0 then h0 else h1) of None \<Rightarrow> None | Some (c, s1) \<Rightarrow>
      if c = kSuccess then Some (snap_chosen s1 cand h0 h1)
      else if c = kSnapshotReadFailed then Some (snap_failed c s1)
      else
        let other = 1 - cand in
        if \<not> slot_ok s1 (if other = 0 then h0 else h1) then Some (snap_failed kSnapshotCorrupted s1)
        else case VerifySlotData s1 other (if other = 0 then h0 else h1) of None \<Rightarrow> None | Some (c2, s2) \<Rightarrow>
          Some (if c2 = kSuccess then snap_chosen s2 other h0 h1
                else if c2 = kSnapshotReadFailed then snap_failed c2 s2
                else snap_failed kSnapshotCorrupted s2))"

definition open_recover :: "snapshot \<Rightarrow> (rc \<times> snapshot) option" where
  "open_recover s =
     (case AllocAligned (sn_dev s) of (a, d0) \<Rightarrow>
      if \<not> a then Some (snap_failed kSnapshotReadFailed (s\<lparr>sn_dev := d0\<rparr>)) else
      case RawDevice_ReadAt d0 (sn_slot_a s) kSnapshotSlotHeaderSize of (c0, b0, d1) \<Rightarrow>
      if c0 \<noteq> kSuccess then Some (snap_failed kSnapshotReadFailed (s\<lparr>sn_dev := d1\<rparr>)) else
      case RawDevice_ReadAt d1 (sn_slot_b s) kSnapshotSlotHeaderSize of (c1, b1, d2) \<Rightarrow>
      if c1 \<noteq> kSuccess then Some (snap_failed kSnapshotReadFailed (s\<lparr>sn_dev := d2\<rparr>)) else
      snap_judge (s\<lparr>sn_dev := d2\<rparr>) (header_of_bytes b0) (header_of_bytes b1))"

definition Snapshot_Open :: "snapshot \<Rightarrow> options \<Rightarrow> super_block \<Rightarrow> (rc \<times> snapshot) option" where
  "Snapshot_Open s opts data_sb =
     (case RawDevice_Open (sn_dev s) of (c, d) \<Rightarrow>
      if c \<noteq> kSuccess then Some (c, s\<lparr>sn_dev := d\<rparr>) else
      let s1 = s\<lparr>sn_dev := d, sn_buffer_size := o_snapshot_buffer_size opts,
                 sn_uuid := sb_engine_uuid data_sb,
                 sn_slot_size := SnapshotSlotSize (RawDevice_SizeBytes d)\<rparr> in
      if sn_slot_size s1 = 0 then Some (snap_failed kDeviceTooSmall s1) else
      let s2 = s1\<lparr>sn_slot_a := kDataRegionOffset, sn_slot_b := kDataRegionOffset + sn_slot_size s1\<rparr>;
          need = (kSnapshotSlotHeaderSize
            + AlignUp (unat (sb_block_count data_sb) * kSnapshotRecordSize mod 2 ^ 64) kSnapshotBlockSize) mod 2 ^ 64
      in if sn_slot_size s2 < need then Some (snap_failed kDeviceTooSmall s2)
      else if o_create opts then Some (open_create s2)
      else open_recover s2)"

definition Snapshot_RebindOptions :: "snapshot \<Rightarrow> options \<Rightarrow> snapshot" where
  "Snapshot_RebindOptions s opts = s\<lparr>sn_buffer_size := o_snapshot_buffer_size opts\<rparr>"

section \<open>Loading\<close>

fun deliver :: "snapshot_record list \<Rightarrow> (bytes \<Rightarrow> value_meta \<Rightarrow> 's \<Rightarrow> rc \<times> 's) \<Rightarrow> 's \<Rightarrow> rc \<times> 's" where
  "deliver [] visitor st = (kSuccess, st)"
| "deliver (r # rs) visitor st =
     (if kSnapshotKeyMax < unat (sr_key_len r) then (kSnapshotCorrupted, st)
      else case DecodeSnapshotRecord r of (key, meta) \<Rightarrow>
        (case visitor key meta st of (c, st1) \<Rightarrow>
         if c \<noteq> kSuccess then (c, st1) else deliver rs visitor st1))"

definition records_in :: "nat \<Rightarrow> bytes \<Rightarrow> snapshot_record list" where
  "records_in n buf = map (\<lambda>i. record_of_bytes (peek (i * kSnapshotRecordSize) kSnapshotRecordSize buf)) [0..<n]"

function load_loop ::
  "nat \<Rightarrow> nat \<Rightarrow> nat \<Rightarrow> (bytes \<Rightarrow> value_meta \<Rightarrow> 's \<Rightarrow> rc \<times> 's) \<Rightarrow> 's \<Rightarrow> raw_device
     \<Rightarrow> (rc \<times> 's \<times> raw_device) option" where
  "load_loop buf_size off remaining visitor st d =
     (if remaining = 0 then Some (kSuccess, st, d) else
      let want = read_want buf_size (remaining * kSnapshotRecordSize mod 2 ^ 64);
          recs_here = min remaining (want div kSnapshotRecordSize) in
      case RawDevice_ReadAt d off want of (c, buf, d1) \<Rightarrow>
      if c \<noteq> kSuccess then Some (kSnapshotReadFailed, st, d1) else
      case deliver (records_in recs_here buf) visitor st of (c1, st1) \<Rightarrow>
      if c1 \<noteq> kSuccess then Some (c1, st1, d1)
      else if recs_here = 0 then None
      else load_loop buf_size (off + want) (remaining - recs_here) visitor st1 d1)"
  by pat_completeness auto
termination
  by (relation "measure (\<lambda>(_, _, r, _, _, _). r)") auto

definition Snapshot_Load ::
  "snapshot \<Rightarrow> (bytes \<Rightarrow> value_meta \<Rightarrow> 's \<Rightarrow> rc \<times> 's) \<Rightarrow> 's \<Rightarrow> (rc \<times> 's \<times> snapshot) option" where
  "Snapshot_Load s visitor st =
     (if \<not> RawDevice_is_open (sn_dev s) then Some (kSnapshotReadFailed, st, s)
      else if sn_active s < 0 \<or> sn_entry_count s = 0 then Some (kSuccess, st, s)
      else
        let buf_size = RoundUpBufferSize (sn_buffer_size s) kSnapshotBlockSize in
        case AllocAligned (sn_dev s) of (a, d) \<Rightarrow>
        if \<not> a then Some (kSnapshotReadFailed, st, s\<lparr>sn_dev := d\<rparr>)
        else map_option (\<lambda>(c, st1, d1). (c, st1, s\<lparr>sn_dev := d1\<rparr>))
          (load_loop buf_size (snap_slot s (sn_active s) + kSnapshotSlotHeaderSize) (sn_entry_count s) visitor st d))"

end
