(* ===== verification/Cabe_SnapshotSpec.thy ===== *)
theory Cabe_SnapshotSpec
  imports Cabe_Snapshot
begin

text \<open>
  What the snapshot device promises: at every moment, whatever fails, one complete snapshot is
  readable from it. The invariant \<open>snap_inv s cov idx W\<close> says that the active slot holds the
  entries \<open>idx\<close> covering the log up to \<open>cov\<close>, on the medium as well, and that the other slot
  holds nothing newer, except for attempts listed in \<open>W\<close> that did not report success.
\<close>

declare verify_loop.simps [simp del] load_loop.simps [simp del]

type_synonym entries = "(bytes \<times> value_meta) list"

definition recs :: "entries \<Rightarrow> bytes" where
  "recs idx = concat (map (\<lambda>(k, v). record_bytes (EncodeSnapshotRecord k v)) idx)"

definition keys_ok :: "entries \<Rightarrow> bool" where
  "keys_ok idx \<longleftrightarrow> (\<forall>(k, v) \<in> set idx. length k \<le> kSnapshotKeyMax)"

lemma recs_simps [simp]:
  "recs [] = []" "recs ((k, v) # idx) = record_bytes (EncodeSnapshotRecord k v) @ recs idx"
  "recs (xs @ ys) = recs xs @ recs ys"
  by (simp_all add: recs_def)

lemma keys_ok_simps [simp]:
  "keys_ok []" "keys_ok ((k, v) # idx) \<longleftrightarrow> length k \<le> kSnapshotKeyMax \<and> keys_ok idx"
  by (auto simp: keys_ok_def)

lemma record_length [simp]:
  "length k \<le> kSnapshotKeyMax \<Longrightarrow> length (record_bytes (EncodeSnapshotRecord k v)) = 128"
  by (simp add: record_bytes_length EncodeSnapshotRecord_wf)

lemma recs_length [simp]: "keys_ok idx \<Longrightarrow> length (recs idx) = 128 * length idx"
  by (induction idx) auto

section \<open>The encoding visitor\<close>

text \<open>\<open>enc_frame\<close>: what no step of the writer changes; \<open>enc_inv\<close>: the bytes \<open>all\<close> encoded so
  far are on the device up to the offset and in the buffer from there on.\<close>

definition enc_frame :: "nat \<Rightarrow> nat \<Rightarrow> raw_device \<Rightarrow> raw_device \<Rightarrow> bool" where
  "enc_frame base data_end d0 d \<longleftrightarrow>
     fd_open d = fd_open d0 \<and> size_bytes d = size_bytes d0 \<and> kd_size (kdev d) = kd_size (kdev d0)
     \<and> rd_durable d = rd_durable d0
     \<and> (\<forall>i. i < base \<or> data_end \<le> i \<longrightarrow> rd_contents d i = rd_contents d0 i)"

definition enc_inv :: "nat \<Rightarrow> nat \<Rightarrow> nat \<Rightarrow> bytes \<Rightarrow> snap_enc \<Rightarrow> bool" where
  "enc_inv B base data_end all en \<longleftrightarrow>
     (\<exists>bs. all = bs @ en_pending en \<and> en_off en = base + length bs
        \<and> kread (rd_contents (en_dev en)) base (length bs) = bs)
     \<and> length (en_pending en) < B \<and> 128 dvd length (en_pending en) \<and> en_off en \<le> data_end
     \<and> en_crc en = CRC32CStreamUpdate 0xFFFFFFFF all \<and> 128 * en_count en = length all"

lemma enc_frame_refl [simp]: "enc_frame base e d d"
  by (simp add: enc_frame_def)

lemma enc_frame_trans: "enc_frame base e a b \<Longrightarrow> enc_frame base e b c \<Longrightarrow> enc_frame base e a c"
  by (auto simp: enc_frame_def)

lemma enc_frame_write:
  assumes "RawDevice_WriteAt d off buf = (c, d')" "base \<le> off" "off + length buf \<le> e"
  shows "enc_frame base e d d'"
  using WriteAt_frame [OF assms(1)] raw.wr_durable [OF assms(1)] raw.wr_outside [OF assms(1)] assms(2,3)
  by (auto simp: enc_frame_def)

lemma kread_extend:
  "kread f base (length bs) = bs \<Longrightarrow>
   kread (kwrite f (base + length bs) p) base (length bs + length p) = bs @ p"
  by (simp add: kread_append [symmetric] kread_kwrite_disjoint)

lemma snap_visit_spec:
  assumes inv: "enc_inv B base e all en" and B: "128 dvd B" and base: "base \<le> en_off en"
    and run: "snap_visit B e key meta en = (c, en')"
  shows "enc_frame base e (en_dev en) (en_dev en')"
    "c = kSuccess \<Longrightarrow> length key \<le> kSnapshotKeyMax
       \<and> enc_inv B base e (all @ record_bytes (EncodeSnapshotRecord key meta)) en'"
    "c \<in> {kSuccess, kSnapshotWriteFailed, kDeviceTooSmall}"
proof -
  let ?rec = "record_bytes (EncodeSnapshotRecord key meta)"
  let ?p = "en_pending en @ ?rec"
  obtain bs where I: "all = bs @ en_pending en" "en_off en = base + length bs"
    "kread (rd_contents (en_dev en)) base (length bs) = bs" "length (en_pending en) < B"
    "128 dvd length (en_pending en)" "en_off en \<le> e"
    "en_crc en = CRC32CStreamUpdate 0xFFFFFFFF all" "128 * en_count en = length all"
    using inv by (auto simp: enc_inv_def)
  note R = run [unfolded snap_visit_def Let_def]
  have "enc_frame base e (en_dev en) (en_dev en')
    \<and> (c = kSuccess \<longrightarrow> length key \<le> kSnapshotKeyMax \<and> enc_inv B base e (all @ ?rec) en')
    \<and> c \<in> {kSuccess, kSnapshotWriteFailed, kDeviceTooSmall}"
  proof (cases "kSnapshotKeyMax < length key")
    case True
    then show ?thesis using R by auto
  next
    case False
    then have k: "length key \<le> kSnapshotKeyMax" and lr: "length ?rec = 128" by simp_all
    obtain p q where pq: "length (en_pending en) = 128 * p" "B = 128 * q" using I(5) B by (auto simp: dvd_def)
    then have le: "length ?p \<le> B" using I(4) lr by simp
    show ?thesis
    proof (cases "length ?p = B")
      case full: False
      then have "length ?p < B" "128 dvd length ?p" using le lr pq by simp_all
      then show ?thesis using R False full I k lr by (auto simp: enc_inv_def)
    next
      case full: True
      obtain c1 d where wr: "RawDevice_WriteAt (en_dev en) (en_off en) ?p = (c1, d)" by fastforce
      show ?thesis
      proof (cases "e < en_off en + B")
        case True
        then show ?thesis using R False full k by auto
      next
        case fits: False
        have fr: "enc_frame base e (en_dev en) d"
          using enc_frame_write [OF wr base] fits full by simp
        show ?thesis
        proof (cases "c1 = kSuccess")
          case False
          then show ?thesis using R full fits k wr fr by (auto split: if_splits)
        next
          case True
          have "rd_contents d = kwrite (rd_contents (en_dev en)) (en_off en) ?p"
            using raw.wr_ok wr True by blast
          then have "kread (rd_contents d) base (length (bs @ ?p)) = bs @ ?p"
            using kread_extend [OF I(3), of ?p] I(2) by simp
          then have "enc_inv B base e (all @ ?rec) (en\<lparr>en_dev := d, en_off := en_off en + B, en_pending := [],
              en_crc := CRC32CStreamUpdate (en_crc en) ?rec, en_count := en_count en + 1\<rparr>)"
            using I fits full lr by (auto simp: enc_inv_def)
          moreover have "en' = en\<lparr>en_dev := d, en_off := en_off en + B, en_pending := [],
              en_crc := CRC32CStreamUpdate (en_crc en) ?rec, en_count := en_count en + 1\<rparr>" "c = kSuccess"
            using R False full fits wr True by (auto split: if_splits)
          ultimately show ?thesis using fr k by simp
        qed
      qed
    qed
  qed
  then show "enc_frame base e (en_dev en) (en_dev en')"
    "c = kSuccess \<Longrightarrow> length key \<le> kSnapshotKeyMax \<and> enc_inv B base e (all @ ?rec) en'"
    "c \<in> {kSuccess, kSnapshotWriteFailed, kDeviceTooSmall}" by blast+
qed

lemma ForEach_spec:
  assumes B: "128 dvd B"
  shows "enc_inv B base e all en \<Longrightarrow> base \<le> en_off en \<Longrightarrow> ForEach idx (snap_visit B e) en = (c, en') \<Longrightarrow>
    enc_frame base e (en_dev en) (en_dev en')
    \<and> (c = kSuccess \<longrightarrow> keys_ok idx \<and> enc_inv B base e (all @ recs idx) en' \<and> base \<le> en_off en')
    \<and> c \<in> {kSuccess, kSnapshotWriteFailed, kDeviceTooSmall}"
proof (induction idx arbitrary: all en)
  case Nil
  then show ?case by auto
next
  case (Cons kv idx)
  obtain k v where kv: "kv = (k, v)" by fastforce
  obtain c1 en1 where st: "snap_visit B e k v en = (c1, en1)" by fastforce
  note S = snap_visit_spec [OF Cons.prems(1) B Cons.prems(2) st]
  show ?case
  proof (cases "c1 = kSuccess")
    case True
    then have run: "ForEach idx (snap_visit B e) en1 = (c, en')" using Cons.prems(3) kv st by simp
    have i1: "enc_inv B base e (all @ record_bytes (EncodeSnapshotRecord k v)) en1" "length k \<le> kSnapshotKeyMax"
      using S True by blast+
    then have "base \<le> en_off en1" by (auto simp: enc_inv_def)
    from Cons.IH [OF i1(1) this run] show ?thesis
      using S(1) i1(2) kv by (auto intro: enc_frame_trans)
  next
    case False
    then show ?thesis using Cons.prems(3) kv st S by auto
  qed
qed

text \<open>The tail, then the bytes on the device are the whole record stream and its padding.\<close>

lemma flush_tail_spec:
  assumes inv: "enc_inv B base e all en" and base: "base \<le> en_off en" and B: "B \<le> 2 ^ 38"
    and run: "flush_tail e en = (c, en')"
  shows "enc_frame base e (en_dev en) (en_dev en')"
    "c = kSuccess \<Longrightarrow> base + length all \<le> e \<and> kread (rd_contents (en_dev en')) base (length all) = all"
    "en_count en' = en_count en" "en_crc en' = en_crc en"
    "c \<in> {kSuccess, kSnapshotWriteFailed, kDeviceTooSmall}"
proof -
  obtain bs where I: "all = bs @ en_pending en" "en_off en = base + length bs"
    "kread (rd_contents (en_dev en)) base (length bs) = bs" "length (en_pending en) < B" "en_off en \<le> e"
    using inv by (auto simp: enc_inv_def)
  let ?used = "length (en_pending en)"
  let ?bytes = "AlignUp ?used kSnapshotBlockSize"
  let ?buf = "en_pending en @ zeros (?bytes - ?used)"
  have ge: "?used \<le> ?bytes" by (rule AlignUp_ge) (use I(4) B in \<open>simp_all add: kSnapshotBlockSize_def\<close>)
  obtain c1 d where wr: "RawDevice_WriteAt (en_dev en) (en_off en) ?buf = (c1, d)" by fastforce
  note R = run [unfolded flush_tail_def Let_def wr prod.case]
  have "enc_frame base e (en_dev en) (en_dev en') \<and> en_count en' = en_count en \<and> en_crc en' = en_crc en
    \<and> (c = kSuccess \<longrightarrow> base + length all \<le> e \<and> kread (rd_contents (en_dev en')) base (length all) = all)
    \<and> c \<in> {kSuccess, kSnapshotWriteFailed, kDeviceTooSmall}"
  proof (cases "?used = 0")
    case True
    then show ?thesis using R I by auto
  next
    case used: False
    show ?thesis
    proof (cases "e < en_off en + ?bytes")
      case True
      then show ?thesis using R used by auto
    next
      case fits: False
      have fr: "enc_frame base e (en_dev en) d" using enc_frame_write [OF wr base] fits ge by simp
      have r: "en' = en\<lparr>en_dev := d\<rparr>" "c = (if c1 \<noteq> kSuccess then kSnapshotWriteFailed else kSuccess)"
        using R used fits by auto
      have "kread (rd_contents d) base (length all) = all" if "c1 = kSuccess"
      proof -
        have "rd_contents d = kwrite (rd_contents (en_dev en)) (en_off en) ?buf"
          using raw.wr_ok wr that by blast
        then have "kread (rd_contents d) base (length bs + length ?buf) = bs @ ?buf"
          using kread_extend [OF I(3), of ?buf] I(2) by simp
        then have "peek 0 (length all) (kread (rd_contents d) base (length bs + length ?buf)) = all"
          using I(1) by (simp add: peek_def)
        then show ?thesis using I(1) by (simp add: peek_kread)
      qed
      then show ?thesis using fr r fits ge I by auto
    qed
  qed
  then show "enc_frame base e (en_dev en) (en_dev en')"
    "c = kSuccess \<Longrightarrow> base + length all \<le> e \<and> kread (rd_contents (en_dev en')) base (length all) = all"
    "en_count en' = en_count en" "en_crc en' = en_crc en"
    "c \<in> {kSuccess, kSnapshotWriteFailed, kDeviceTooSmall}" by blast+
qed

text \<open>The buffer is a positive number of blocks.\<close>

lemma RoundUp_block:
  assumes "x \<le> 2 ^ 38"
  shows "4096 dvd RoundUpBufferSize x kSnapshotBlockSize" "128 dvd RoundUpBufferSize x kSnapshotBlockSize"
    "0 < RoundUpBufferSize x kSnapshotBlockSize" "RoundUpBufferSize x kSnapshotBlockSize \<le> 2 ^ 38"
proof -
  let ?y = "if x < kSnapshotBlockSize then kSnapshotBlockSize else x"
  have y: "?y + kSnapshotBlockSize \<le> 2 ^ 64" "?y \<le> 2 ^ 38" "0 < ?y"
    using assms by (auto simp: kSnapshotBlockSize_def)
  have p: "0 < kSnapshotBlockSize" "kSnapshotBlockSize dvd 2 ^ 38" by (simp_all add: kSnapshotBlockSize_def)
  show d: "4096 dvd RoundUpBufferSize x kSnapshotBlockSize"
    using AlignUp_dvd [of kSnapshotBlockSize] by (simp add: RoundUpBufferSize_def kSnapshotBlockSize_def)
  show "128 dvd RoundUpBufferSize x kSnapshotBlockSize" using d by (rule dvd_trans [rotated]) simp
  show "0 < RoundUpBufferSize x kSnapshotBlockSize"
    using AlignUp_ge [OF p(1) y(1)] y(3) by (simp add: RoundUpBufferSize_def)
  show "RoundUpBufferSize x kSnapshotBlockSize \<le> 2 ^ 38"
    using AlignUp_least [OF p(1) y(1) p(2) y(2)] by (simp add: RoundUpBufferSize_def)
qed

section \<open>The invariant\<close>

type_synonym attempt = "nat \<times> nat \<times> entries"

definition snap_geo :: "snapshot \<Rightarrow> bool" where
  "snap_geo s \<longleftrightarrow> sn_slot_a s = kDataRegionOffset \<and> sn_slot_b s = kDataRegionOffset + sn_slot_size s
     \<and> 4096 dvd sn_slot_size s \<and> 4096 \<le> sn_slot_size s \<and> sn_slot_size s < 2 ^ 63
     \<and> length (sn_uuid s) = kUuidBytes \<and> sn_buffer_size s \<le> 2 ^ 38"

definition snap_target :: "snapshot \<Rightarrow> int" where
  "snap_target s = (if sn_active s = 0 then 1 else 0)"

definition att_ok :: "snapshot \<Rightarrow> attempt \<Rightarrow> bool" where
  "att_ok s a = (case a of (gen, cov, idx) \<Rightarrow>
     keys_ok idx \<and> 4096 + 128 * length idx \<le> sn_slot_size s \<and> gen < 2 ^ 64 \<and> cov < 2 ^ 64)"

definition is_header :: "snapshot \<Rightarrow> (nat \<Rightarrow> u8) \<Rightarrow> int \<Rightarrow> attempt \<Rightarrow> bool" where
  "is_header s im slot a = (case a of (gen, cov, idx) \<Rightarrow>
     (\<exists>now. kread im (snap_slot s slot) 4096
        = header_bytes (slot_header_for (sn_uuid s) gen cov (length idx) (CRC32 (recs idx)) now)))"

definition slot_holds :: "snapshot \<Rightarrow> (nat \<Rightarrow> u8) \<Rightarrow> int \<Rightarrow> attempt \<Rightarrow> bool" where
  "slot_holds s im slot a \<longleftrightarrow> att_ok s a \<and> is_header s im slot a
     \<and> kread im (snap_slot s slot + 4096) (128 * length (snd (snd a))) = recs (snd (snd a))"

definition slot_stale :: "snapshot \<Rightarrow> (nat \<Rightarrow> u8) \<Rightarrow> int \<Rightarrow> nat \<Rightarrow> attempt set \<Rightarrow> bool" where
  "slot_stale s im slot g W \<longleftrightarrow>
     (let h = header_of_bytes (kread im (snap_slot s slot) 4096) in
      slot_ok s h \<longrightarrow> unat (sh_generation h) < g
        \<or> (\<exists>a \<in> W. att_ok s a \<and> is_header s im slot a \<and> g < fst a \<and> fst a \<le> sn_next_gen s))"

definition snap_image :: "snapshot \<Rightarrow> (nat \<Rightarrow> u8) \<Rightarrow> nat \<Rightarrow> nat \<Rightarrow> entries \<Rightarrow> attempt set \<Rightarrow> bool" where
  "snap_image s im g cov idx W \<longleftrightarrow>
     (if sn_active s = -1 then g = 0 \<and> cov = 0 \<and> idx = [] \<and> slot_stale s im 1 0 {}
      else sn_active s \<in> {0, 1} \<and> 0 < g \<and> slot_holds s im (sn_active s) (g, cov, idx))
     \<and> slot_stale s im (snap_target s) g W"

definition snap_inv :: "snapshot \<Rightarrow> nat \<Rightarrow> entries \<Rightarrow> attempt set \<Rightarrow> bool" where
  "snap_inv s cov idx W \<longleftrightarrow> snap_geo s \<and> sn_last_covered s = cov \<and> sn_entry_count s = length idx
     \<and> (\<exists>g < sn_next_gen s. snap_image s (rd_contents (sn_dev s)) g cov idx W
          \<and> snap_image s (rd_durable (sn_dev s)) g cov idx W)"

lemma view_cong:
  assumes "sn_slot_a s' = sn_slot_a s" "sn_slot_b s' = sn_slot_b s"
    "sn_slot_size s' = sn_slot_size s" "sn_uuid s' = sn_uuid s"
  shows "snap_slot s' = snap_slot s" "att_ok s' = att_ok s" "is_header s' = is_header s"
    "slot_holds s' = slot_holds s" "slot_ok s' = slot_ok s"
    "sn_next_gen s' = sn_next_gen s \<Longrightarrow> slot_stale s' = slot_stale s"
    "sn_buffer_size s' = sn_buffer_size s \<Longrightarrow> snap_geo s' = snap_geo s"
    "sn_next_gen s' = sn_next_gen s \<Longrightarrow> sn_active s' = sn_active s \<Longrightarrow> snap_image s' = snap_image s"
proof -
  show sl: "snap_slot s' = snap_slot s" using assms by (simp add: snap_slot_def fun_eq_iff)
  show at: "att_ok s' = att_ok s" using assms by (simp add: att_ok_def fun_eq_iff)
  show hd: "is_header s' = is_header s" using assms sl by (simp add: is_header_def fun_eq_iff)
  show ho: "slot_holds s' = slot_holds s" using sl at hd by (simp add: slot_holds_def fun_eq_iff)
  show ok: "slot_ok s' = slot_ok s" using assms by (simp add: slot_ok_def fun_eq_iff)
  show st: "sn_next_gen s' = sn_next_gen s \<Longrightarrow> slot_stale s' = slot_stale s"
    by (intro ext) (simp add: slot_stale_def sl at hd ok)
  show "sn_buffer_size s' = sn_buffer_size s \<Longrightarrow> snap_geo s' = snap_geo s"
    using assms by (simp add: snap_geo_def)
  show "sn_next_gen s' = sn_next_gen s \<Longrightarrow> sn_active s' = sn_active s \<Longrightarrow> snap_image s' = snap_image s"
    using ho st by (simp add: snap_image_def snap_target_def fun_eq_iff)
qed

text \<open>A slot's predicates look at its own bytes only.\<close>

lemma slot_region_cong:
  assumes "kread im' (snap_slot s slot) (sn_slot_size s) = kread im (snap_slot s slot) (sn_slot_size s)"
    and "4096 \<le> sn_slot_size s"
  shows "is_header s im' slot a = is_header s im slot a" "slot_holds s im' slot a = slot_holds s im slot a"
    "slot_stale s im' slot g W = slot_stale s im slot g W"
proof -
  have sub: "kread im' (snap_slot s slot + a) n = kread im (snap_slot s slot + a) n"
    if "a + n \<le> sn_slot_size s" for a n
    using arg_cong [OF assms(1), of "peek a n"] that by (simp add: peek_kread)
  have h: "kread im' (snap_slot s slot) 4096 = kread im (snap_slot s slot) 4096"
    using sub [of 0 4096] assms(2) by simp
  show ih: "is_header s im' slot a = is_header s im slot a" for a by (simp add: is_header_def h)
  show "slot_holds s im' slot a = slot_holds s im slot a"
    using sub [of 4096 "128 * length (snd (snd a))"] by (cases a) (auto simp: slot_holds_def ih att_ok_def)
  show "slot_stale s im' slot g W = slot_stale s im slot g W"
    by (simp add: slot_stale_def h ih)
qed

lemma slot_header_for_wf:
  assumes "length uuid = kUuidBytes"
  shows "header_wf (slot_header_for uuid gen cov n dc now)"
    "VerifySlotHeader (slot_header_for uuid gen cov n dc now)"
    "sh_engine_uuid (slot_header_for uuid gen cov n dc now) = uuid"
    "sh_generation (slot_header_for uuid gen cov n dc now) = of_nat gen"
    "sh_covered_seq (slot_header_for uuid gen cov n dc now) = of_nat cov"
    "sh_entry_count (slot_header_for uuid gen cov n dc now) = of_nat n"
    "sh_data_len (slot_header_for uuid gen cov n dc now) = of_nat (n * kSnapshotRecordSize)"
    "sh_data_crc (slot_header_for uuid gen cov n dc now) = dc"
proof -
  define h where "h = \<lparr>sh_magic = kSnapshotSlotMagic, sh_version = kSnapshotSlotVersion,
        sh_generation = of_nat gen, sh_covered_seq = of_nat cov,
        sh_entry_count = of_nat n, sh_data_len = of_nat (n * kSnapshotRecordSize),
        sh_data_crc = dc, sh_reserved0 = 0, sh_created_at = now,
        sh_engine_uuid = uuid, sh_reserved = zeros 4020, sh_header_crc32c = 0\<rparr>"
  have eq: "slot_header_for uuid gen cov n dc now = h\<lparr>sh_header_crc32c := ComputeSlotHeaderCrc h\<rparr>"
    by (simp add: slot_header_for_def Let_def h_def)
  have wf: "header_wf h" using assms by (simp add: header_wf_def h_def kUuidBytes_def)
  then show "header_wf (slot_header_for uuid gen cov n dc now)" unfolding eq by (simp add: header_wf_def)
  show "VerifySlotHeader (slot_header_for uuid gen cov n dc now)"
    unfolding eq by (rule VerifySlotHeader_sealed [OF wf]) (simp_all add: h_def)
  show "sh_engine_uuid (slot_header_for uuid gen cov n dc now) = uuid"
    "sh_generation (slot_header_for uuid gen cov n dc now) = of_nat gen"
    "sh_covered_seq (slot_header_for uuid gen cov n dc now) = of_nat cov"
    "sh_entry_count (slot_header_for uuid gen cov n dc now) = of_nat n"
    "sh_data_len (slot_header_for uuid gen cov n dc now) = of_nat (n * kSnapshotRecordSize)"
    "sh_data_crc (slot_header_for uuid gen cov n dc now) = dc"
    unfolding eq by (simp_all add: h_def)
qed

lemma snap_slots:
  assumes "snap_geo s" "slot = 0 \<or> slot = 1" "slot' = 0 \<or> slot' = 1" "slot \<noteq> slot'"
  shows "snap_slot s slot + sn_slot_size s \<le> snap_slot s slot'
    \<or> snap_slot s slot' + sn_slot_size s \<le> snap_slot s slot"
  using assms by (auto simp: snap_geo_def snap_slot_def)

lemma is_header_eq:
  assumes "snap_geo s" "is_header s im slot (gen, cov, idx)"
  shows "\<exists>now. header_of_bytes (kread im (snap_slot s slot) 4096)
    = slot_header_for (sn_uuid s) gen cov (length idx) (CRC32 (recs idx)) now"
  using assms header_of_bytes_bytes slot_header_for_wf(1) by (fastforce simp: is_header_def snap_geo_def)

lemma slot_ok_header:
  assumes g: "snap_geo s" and a: "att_ok s (gen, cov, idx)"
  shows "slot_ok s (slot_header_for (sn_uuid s) gen cov (length idx) dc now)"
proof -
  have u: "length (sn_uuid s) = kUuidBytes" and sz: "sn_slot_size s < 2 ^ 63" using g by (simp_all add: snap_geo_def)
  have n: "4096 + 128 * length idx \<le> sn_slot_size s" using a by (simp add: att_ok_def)
  have "unat (of_nat m :: u64) = m" if "m < 2 ^ 63" for m
    using that by (simp add: unat_of_nat take_bit_nat_eq_self)
  then have "unat (of_nat (length idx * 128) :: u64) = length idx * 128" using n sz by (simp del: of_nat_mult)
  then show ?thesis
    using slot_header_for_wf [OF u] n sz by (simp add: slot_ok_def kSnapshot_numbers)
qed

section \<open>Writing\<close>

text \<open>The header is one 4096-byte block; the block device writes it whole or not at all.\<close>

definition header_atomic :: "snapshot \<Rightarrow> snapshot \<Rightarrow> attempt \<Rightarrow> bool" where
  "header_atomic s s' a \<longleftrightarrow>
     kread (rd_contents (sn_dev s')) (snap_slot s (snap_target s)) 4096
       = kread (rd_contents (sn_dev s)) (snap_slot s (snap_target s)) 4096
     \<or> is_header s (rd_contents (sn_dev s')) (snap_target s) a"

text \<open>What one call does to the device, before any judgement: it only writes the target slot;
  only success makes anything durable; and on success the slot holds the new snapshot.\<close>

lemma Write_effect:
  assumes g: "snap_geo s" and cov: "cov < 2 ^ 64" and gen: "sn_next_gen s < 2 ^ 64"
    and run: "Snapshot_Write s cov (ForEach idx) now = (c, s')"
  shows "\<exists>d. (\<forall>i. i < snap_slot s (snap_target s) \<or> snap_slot s (snap_target s) + sn_slot_size s \<le> i \<longrightarrow>
             rd_contents d i = rd_contents (sn_dev s) i)
      \<and> fd_open d = fd_open (sn_dev s) \<and> size_bytes d = size_bytes (sn_dev s)
      \<and> kd_size (kdev d) = kd_size (kdev (sn_dev s))
      \<and> c \<in> {kSuccess, kSnapshotWriteFailed, kDeviceTooSmall}
      \<and> (if c = kSuccess then rd_durable d = rd_contents d
            \<and> slot_holds s (rd_contents d) (snap_target s) (sn_next_gen s, cov, idx)
            \<and> s' = s\<lparr>sn_dev := d, sn_active := snap_target s, sn_last_covered := cov,
                 sn_entry_count := length idx, sn_next_gen := (sn_next_gen s + 1) mod 2 ^ 64\<rparr>
         else rd_durable d = rd_durable (sn_dev s) \<and> s' = s\<lparr>sn_dev := d\<rparr>)
      \<and> (c \<noteq> kSuccess \<longrightarrow> header_atomic s s' (sn_next_gen s, cov, idx) \<longrightarrow>
          kread (rd_contents d) (snap_slot s (snap_target s)) 4096
            = kread (rd_contents (sn_dev s)) (snap_slot s (snap_target s)) 4096
          \<or> is_header s (rd_contents d) (snap_target s) (sn_next_gen s, cov, idx)
             \<and> att_ok s (sn_next_gen s, cov, idx))"
proof (cases "RawDevice_is_open (sn_dev s)")
  case False
  then show ?thesis
    using run by (auto simp: Snapshot_Write_def intro!: exI [of _ "sn_dev s"])
next
  case True
  let ?t = "snap_target s"
  let ?slot = "snap_slot s ?t"
  let ?e = "?slot + sn_slot_size s"
  let ?B = "RoundUpBufferSize (sn_buffer_size s) kSnapshotBlockSize"
  have u: "length (sn_uuid s) = kUuidBytes" and sz: "4096 \<le> sn_slot_size s"
    and B: "128 dvd ?B" "0 < ?B" "?B \<le> 2 ^ 38"
    using g RoundUp_block [of "sn_buffer_size s"] by (auto simp: snap_geo_def)
  obtain a d0 where al: "AllocAligned (sn_dev s) = (a, d0)" by fastforce
  note F0 = AllocAligned_frame [OF al]
  let ?en0 = "\<lparr>en_dev = d0, en_pending = [], en_off = ?slot + kSnapshotSlotHeaderSize, en_count = 0, en_crc = 0xFFFFFFFF\<rparr>"
  obtain c1 en1 where sc: "ForEach idx (snap_visit ?B ?e) ?en0 = (c1, en1)" by fastforce
  obtain c2 en2 where ft: "flush_tail ?e en1 = (c2, en2)" by fastforce
  let ?hdr = "slot_header_for (sn_uuid s) (sn_next_gen s) cov (en_count en2) (NOT (en_crc en2)) now"
  obtain c3 d3 where wh: "RawDevice_WriteAt (en_dev en2) ?slot (header_bytes ?hdr) = (c3, d3)" by fastforce
  obtain c4 d4 where sy: "RawDevice_Sync d3 = (c4, d4)" by fastforce
  have tt: "(if sn_active s = 0 then 1 else 0) = ?t" by (simp add: snap_target_def)
  note R = run [unfolded Snapshot_Write_def Let_def tt al prod.case sc ft wh sy]
  let ?base = "?slot + 4096"
  have i0: "enc_inv ?B ?base ?e [] ?en0" using B sz by (simp add: enc_inv_def kSnapshot_numbers)
  have e1: "enc_frame ?base ?e d0 (en_dev en1)" "c1 \<in> {kSuccess, kSnapshotWriteFailed, kDeviceTooSmall}"
    "c1 = kSuccess \<Longrightarrow> keys_ok idx \<and> enc_inv ?B ?base ?e (recs idx) en1 \<and> ?base \<le> en_off en1"
    using ForEach_spec [OF B(1) i0 _ sc] by (auto simp: kSnapshot_numbers)
  have e2: "enc_frame ?base ?e d0 (en_dev en2)" "c2 \<in> {kSuccess, kSnapshotWriteFailed, kDeviceTooSmall}"
    "c2 = kSuccess \<Longrightarrow> ?base + 128 * length idx \<le> ?e
       \<and> kread (rd_contents (en_dev en2)) ?base (128 * length idx) = recs idx"
    "en_count en2 = length idx" "NOT (en_crc en2) = CRC32 (recs idx)" if "c1 = kSuccess"
  proof -
    have k: "keys_ok idx" "enc_inv ?B ?base ?e (recs idx) en1" "?base \<le> en_off en1" using e1(3) that by auto
    note T = flush_tail_spec [OF k(2,3) B(3) ft]
    show "enc_frame ?base ?e d0 (en_dev en2)" using e1(1) T(1) by (rule enc_frame_trans)
    show "c2 \<in> {kSuccess, kSnapshotWriteFailed, kDeviceTooSmall}" by (rule T(5))
    show "c2 = kSuccess \<Longrightarrow> ?base + 128 * length idx \<le> ?e
       \<and> kread (rd_contents (en_dev en2)) ?base (128 * length idx) = recs idx" using T(2) k(1) by simp
    show "en_count en2 = length idx" "NOT (en_crc en2) = CRC32 (recs idx)"
      using T(3,4) k(1,2) by (simp_all add: enc_inv_def CRC32_stream_one)
  qed
  have fr: "\<forall>i. i < ?slot \<or> ?e \<le> i \<longrightarrow> rd_contents d i = rd_contents (sn_dev s) i"
    "fd_open d = fd_open (sn_dev s)" "size_bytes d = size_bytes (sn_dev s)"
    "kd_size (kdev d) = kd_size (kdev (sn_dev s))" "rd_durable d = rd_durable (sn_dev s)"
    "kread (rd_contents d) ?slot 4096 = kread (rd_contents (sn_dev s)) ?slot 4096"
    if "enc_frame ?base ?e d0 d" for d
    using that F0 by (auto simp: enc_frame_def intro!: kread_cong)
  show ?thesis
  proof (cases "a \<and> c1 = kSuccess \<and> c2 = kSuccess")
    case False
    define d where "d = (if \<not> a then d0 else if c1 \<noteq> kSuccess then en_dev en1 else en_dev en2)"
    have d: "enc_frame ?base ?e d0 d" using e1(1) e2(1) by (simp add: d_def)
    have "c \<in> {kSnapshotWriteFailed, kDeviceTooSmall} \<and> s' = s\<lparr>sn_dev := d\<rparr>"
      using R True False e1(2) e2(2) by (auto simp: d_def split: if_splits)
    then show ?thesis using fr [OF d] by (auto intro!: exI [of _ d])
  next
    case ok: True
    note E = e2 [OF conjunct1 [OF conjunct2 [OF ok]]]
    have keys: "keys_ok idx" using e1(3) ok by blast
    have D: "?base + 128 * length idx \<le> ?e" "kread (rd_contents (en_dev en2)) ?base (128 * length idx) = recs idx"
      using E(3) ok by blast+
    have at: "att_ok s (sn_next_gen s, cov, idx)" using keys D(1) gen cov by (simp add: att_ok_def)
    have hl: "length (header_bytes ?hdr) = 4096" using slot_header_for_wf(1) [OF u] by (simp add: header_bytes_length)
    note F3 = WriteAt_frame [OF wh] and F4 = Sync_frame [OF sy] and W3 = raw.wr_outside [OF wh, unfolded hl]
    note f2 = fr [OF E(1)]
    have o3: "\<forall>i. i < ?slot \<or> ?base \<le> i \<longrightarrow> rd_contents d3 i = rd_contents (en_dev en2) i" using W3 by blast
    have o3': "\<forall>i. i < ?slot \<or> ?e \<le> i \<longrightarrow> rd_contents d3 i = rd_contents (sn_dev s) i"
      using o3 f2(1) sz by auto
    have d3: "rd_durable d3 = rd_durable (sn_dev s)" using raw.wr_durable [OF wh] f2(5) by simp
    have c4: "rd_contents d4 = rd_contents d3" using raw.sync_contents [OF sy] .
    show ?thesis
    proof (cases "c3 = kSuccess \<and> c4 = kSuccess")
      case False
      define d where "d = (if c3 \<noteq> kSuccess then d3 else d4)"
      have "rd_contents d = rd_contents d3" "rd_durable d = rd_durable (sn_dev s)"
        "fd_open d = fd_open (sn_dev s)" "size_bytes d = size_bytes (sn_dev s)"
        "kd_size (kdev d) = kd_size (kdev (sn_dev s))"
        using False c4 d3 F3 F4 f2 raw.sync_durable [OF sy] by (auto simp: d_def)
      moreover have "c = kSnapshotWriteFailed \<and> s' = s\<lparr>sn_dev := d\<rparr>"
        using R True ok False by (auto simp: d_def split: if_splits)
      ultimately show ?thesis using o3' at by (auto simp: header_atomic_def intro!: exI [of _ d])
    next
      case True': True
      have cw: "rd_contents d3 = kwrite (rd_contents (en_dev en2)) ?slot (header_bytes ?hdr)"
        using raw.wr_ok wh True' by blast
      have "kread (rd_contents d3) ?slot 4096 = header_bytes ?hdr" using hl by (simp add: cw)
      then have "is_header s (rd_contents d3) ?t (sn_next_gen s, cov, idx)" using E(4,5) by (auto simp: is_header_def)
      moreover have "kread (rd_contents d3) ?base (128 * length idx) = recs idx"
        using D(2) hl by (simp add: cw kread_kwrite_disjoint)
      ultimately have "slot_holds s (rd_contents d4) ?t (sn_next_gen s, cov, idx)"
        using at by (simp add: slot_holds_def c4)
      moreover have "rd_durable d4 = rd_contents d4" using raw.sync_durable [OF sy] True' c4 by simp
      moreover have "c = kSuccess \<and> s' = s\<lparr>sn_dev := d4, sn_active := ?t, sn_last_covered := cov,
                 sn_entry_count := length idx, sn_next_gen := (sn_next_gen s + 1) mod 2 ^ 64\<rparr>"
        using R True ok True' E(4) by auto
      ultimately show ?thesis using o3' c4 F3 F4 f2 by (auto intro!: exI [of _ d4])
    qed
  qed
qed

end
