(* ===== verification/Cabe_SnapshotRecover.thy ===== *)
theory Cabe_SnapshotRecover
  imports Cabe_SnapshotSpec
begin

text \<open>
  The reading side of the snapshot on a device that answers: verifying a slot, loading it, and
  the choice between the two slots.
\<close>

section \<open>Reading a region in chunks\<close>

lemma read_want_props:
  assumes B: "4096 dvd B" "0 < B" "B \<le> 2 ^ 38" and r: "0 < r" "r \<le> L" "4096 dvd L"
  shows "4096 dvd read_want B r" "read_want B r \<le> L" "min r B \<le> read_want B r"
    "B < r \<Longrightarrow> read_want B r = B"
proof -
  let ?x = "min r B"
  have x: "?x + kSnapshotBlockSize \<le> 2 ^ 64" using B(3) by (simp add: kSnapshotBlockSize_def)
  have p: "0 < kSnapshotBlockSize" by (simp add: kSnapshotBlockSize_def)
  have le: "AlignUp ?x kSnapshotBlockSize \<le> y" if "?x \<le> y" "4096 dvd y" for y
    using AlignUp_least [OF p x _ that(1)] that(2) by (simp add: kSnapshotBlockSize_def)
  have w: "read_want B r = AlignUp ?x kSnapshotBlockSize"
    using le [of B] B(1) by (simp add: read_want_def)
  show "4096 dvd read_want B r"
    unfolding w using AlignUp_dvd [of kSnapshotBlockSize ?x] by (simp add: kSnapshotBlockSize_def)
  show "read_want B r \<le> L" unfolding w by (rule le) (use r in auto)
  show "min r B \<le> read_want B r" unfolding w by (rule AlignUp_ge [OF p x])
  show "B < r \<Longrightarrow> read_want B r = B"
    unfolding w using le [of B] B(1) AlignUp_ge [OF p x] by simp
qed

lemma take_kread: "n \<le> len \<Longrightarrow> take n (kread f off len) = kread f off n"
  using peek_kread [of 0 n len f off] by (simp add: peek_def)

lemma verify_loop_healthy:
  assumes h: "healthy d" and B: "4096 dvd B" "0 < B" "B \<le> 2 ^ 38"
  shows "r \<le> L \<Longrightarrow> 4096 dvd L \<Longrightarrow> off + L \<le> size_bytes d \<Longrightarrow> verify_loop B off r acc d
    = Some (kSuccess, CRC32CStreamUpdate acc (kread (rd_contents d) off r), d)"
proof (induction r arbitrary: off acc L rule: less_induct)
  case (less r)
  show ?case
  proof (cases "r = 0")
    case True
    then show ?thesis by (simp add: verify_loop.simps [of B off 0])
  next
    case False
    let ?w = "read_want B r"
    note W = read_want_props [OF B _ less.prems(1,2)]
    have w: "4096 dvd ?w" "?w \<le> L" "min r B \<le> ?w" "B < r \<Longrightarrow> ?w = B" using W False by simp_all
    have rd: "RawDevice_ReadAt d off ?w = (kSuccess, kread (rd_contents d) off ?w, d)"
      by (rule healthy_ReadAt [OF h]) (use w less.prems in simp)
    define use where "use = min r ?w"
    have u: "0 < use" "use \<le> r" "use \<le> ?w" "use = r \<or> use = ?w" using False w(3) B(2) by (auto simp: use_def)
    have "verify_loop B (off + ?w) (r - use) (CRC32CStreamUpdate acc (kread (rd_contents d) off use)) d
        = Some (kSuccess, CRC32CStreamUpdate (CRC32CStreamUpdate acc (kread (rd_contents d) off use))
            (kread (rd_contents d) (off + ?w) (r - use)), d)"
    proof (rule less.IH [where L = "L - ?w"])
      show "r - use < r" using u by simp
      show "r - use \<le> L - ?w"
        using less.prems(1) w by (cases "B < r") (auto simp: use_def)
      show "4096 dvd L - ?w" using w less.prems(2) by (simp add: dvd_diff_nat)
      show "off + ?w + (L - ?w) \<le> size_bytes d" using w less.prems(3) by simp
    qed
    moreover have "kread (rd_contents d) off use @ kread (rd_contents d) (off + ?w) (r - use)
        = kread (rd_contents d) off r"
      using u kread_append [of "rd_contents d" off use "r - use"] by (cases "use = r") auto
    ultimately show ?thesis
      using False rd u by (simp add: verify_loop.simps [of B off r] Let_def use_def [symmetric] take_kread)
  qed
qed

section \<open>Loading\<close>

lemma peek_recs:
  "keys_ok es \<Longrightarrow> i < length es \<Longrightarrow>
   peek (i * 128) 128 (recs es) = record_bytes (case es ! i of (k, v) \<Rightarrow> EncodeSnapshotRecord k v)"
proof (induction es arbitrary: i)
  case (Cons kv es)
  obtain k v where kv: "kv = (k, v)" by fastforce
  then have k: "length k \<le> kSnapshotKeyMax" "keys_ok es" using Cons.prems by auto
  show ?case
  proof (cases i)
    case 0
    then show ?thesis using kv k by (simp add: peek_hit)
  next
    case (Suc j)
    then show ?thesis using kv k Cons by (simp add: peek_append_right)
  qed
qed simp

lemma records_in_recs:
  assumes "keys_ok es" "n \<le> length es" "take (n * 128) buf = recs (take n es)"
  shows "records_in n buf = map (\<lambda>(k, v). EncodeSnapshotRecord k v) (take n es)"
proof (rule nth_equalityI)
  show "length (records_in n buf) = length (map (\<lambda>(k, v). EncodeSnapshotRecord k v) (take n es))"
    using assms(2) by (simp add: records_in_def)
  fix i
  assume "i < length (records_in n buf)"
  then have i: "i < n" by (simp add: records_in_def)
  have ko: "keys_ok (take n es)" using assms(1) by (auto simp: keys_ok_def dest: in_set_takeD)
  have "peek (i * 128) 128 buf = peek (i * 128) 128 (take (n * 128) buf)"
  proof -
    have "i * 128 + 128 \<le> n * 128" using i by simp
    then show ?thesis by (simp add: peek_def take_drop min_def)
  qed
  also have "\<dots> = record_bytes (case es ! i of (k, v) \<Rightarrow> EncodeSnapshotRecord k v)"
    using peek_recs [OF ko, of i] i assms(2,3) by simp
  finally have p: "peek (i * 128) 128 buf = record_bytes (case es ! i of (k, v) \<Rightarrow> EncodeSnapshotRecord k v)" .
  obtain k v where kv: "es ! i = (k, v)" by fastforce
  have "(k, v) \<in> set es" using kv i assms(2) by (metis nth_mem order_less_le_trans)
  then have "length k \<le> kSnapshotKeyMax" using assms(1) by (auto simp: keys_ok_def)
  then show "records_in n buf ! i = map (\<lambda>(k, v). EncodeSnapshotRecord k v) (take n es) ! i"
    using p kv i assms(2) by (simp add: records_in_def kSnapshot_numbers record_of_bytes_bytes EncodeSnapshotRecord_wf)
qed

lemma deliver_encoded:
  "keys_ok es \<Longrightarrow> deliver (map (\<lambda>(k, v). EncodeSnapshotRecord k v) es) visitor st = ForEach es visitor st"
  by (induction es arbitrary: st)
    (auto simp: record_key_len DecodeSnapshotRecord_Encode split: prod.splits)

lemma visit_ForEach_append:
  "ForEach (xs @ ys) visitor st = (case ForEach xs visitor st of (c, st1) \<Rightarrow>
     if c \<noteq> kSuccess then (c, st1) else ForEach ys visitor st1)"
  by (induction xs arbitrary: st) (auto split: prod.splits)

lemma load_loop_healthy:
  assumes h: "healthy d" and B: "4096 dvd B" "0 < B" "B \<le> 2 ^ 38"
  shows "keys_ok es \<Longrightarrow> kread (rd_contents d) off (128 * length es) = recs es \<Longrightarrow> 128 * length es \<le> L \<Longrightarrow>
    L < 2 ^ 63 \<Longrightarrow> 4096 dvd L \<Longrightarrow> off + L \<le> size_bytes d \<Longrightarrow>
    load_loop B off (length es) visitor st d
    = (case ForEach es visitor st of (c, st') \<Rightarrow> Some (c, st', d))"
proof (induction "length es" arbitrary: es off st L rule: less_induct)
  case less
  let ?r = "length es"
  show ?case
  proof (cases "?r = 0")
    case True
    then show ?thesis by (simp add: load_loop.simps [of B off 0])
  next
    case False
    have m: "?r * 128 mod 2 ^ 64 = ?r * 128" using less.prems(3,4) by simp
    let ?w = "read_want B (?r * 128)"
    have w: "4096 dvd ?w" "?w \<le> L" "min (?r * 128) B \<le> ?w" "B < ?r * 128 \<Longrightarrow> ?w = B"
      using read_want_props [OF B, of "?r * 128" L] False less.prems(3,5) by (simp_all add: mult.commute)
    have rd: "RawDevice_ReadAt d off ?w = (kSuccess, kread (rd_contents d) off ?w, d)"
      by (rule healthy_ReadAt [OF h]) (use w less.prems in simp)
    define n where "n = min ?r (?w div 128)"
    obtain q where q: "B = 128 * q" "0 < q" using B(1,2) by (auto simp: dvd_def)
    have "?r \<le> ?w div 128 \<or> ?w = B \<and> q < ?r"
    proof (cases "B < ?r * 128")
      case True
      then show ?thesis using w(4) q by simp
    next
      case False
      then have "128 * ?r \<le> ?w" using w(3) by simp
      then show ?thesis using div_le_mono [of "128 * ?r" ?w 128] by simp
    qed
    then have n: "0 < n" "n \<le> ?r" "128 * n \<le> ?w" "n = ?r \<or> 128 * n = ?w"
    proof -
      define wd where "wd = ?w div 128"
      have "?r \<le> wd \<or> wd = q \<and> 128 * wd = ?w \<and> q < ?r"
        using \<open>?r \<le> ?w div 128 \<or> ?w = B \<and> q < ?r\<close> q(1) by (auto simp: wd_def)
      moreover have "128 * wd \<le> ?w" by (simp add: wd_def)
      moreover have "0 < ?r" using False by simp
      ultimately show "0 < n" "n \<le> ?r" "128 * n \<le> ?w" "n = ?r \<or> 128 * n = ?w"
        using q(2) unfolding n_def wd_def [symmetric] by linarith+
    qed
    have data: "kread (rd_contents d) off (128 * n) = recs (take n es)"
      "kread (rd_contents d) (off + 128 * n) (128 * (?r - n)) = recs (drop n es)"
    proof -
      have k: "keys_ok (take n es)" using less.prems(1) by (auto simp: keys_ok_def dest: in_set_takeD)
      have "kread (rd_contents d) off (128 * n) @ kread (rd_contents d) (off + 128 * n) (128 * (?r - n))
          = recs (take n es @ drop n es)"
        using less.prems(2) n(2) by (simp add: kread_append diff_mult_distrib2 del: recs_simps)
      then show "kread (rd_contents d) off (128 * n) = recs (take n es)"
        "kread (rd_contents d) (off + 128 * n) (128 * (?r - n)) = recs (drop n es)"
        using k n(2) by (simp_all add: append_eq_append_conv min_absorb2 del: append_take_drop_id)
    qed
    have dl: "deliver (records_in n (kread (rd_contents d) off ?w)) visitor st = ForEach (take n es) visitor st"
    proof -
      have "keys_ok (take n es)" using less.prems(1) by (auto simp: keys_ok_def dest: in_set_takeD)
      then show ?thesis
        using records_in_recs [OF less.prems(1) n(2)] data(1) n(3) deliver_encoded
        by (simp add: take_kread mult.commute)
    qed
    have rest: "load_loop B (off + ?w) (?r - n) visitor st1 d
        = (case ForEach (drop n es) visitor st1 of (c, st') \<Rightarrow> Some (c, st', d))" for st1
    proof (cases "n = ?r")
      case True
      then show ?thesis by (simp add: load_loop.simps [of B "off + ?w" 0])
    next
      case False
      then have wn: "?w = 128 * n" using n by auto
      have "load_loop B (off + ?w) (length (drop n es)) visitor st1 d
        = (case ForEach (drop n es) visitor st1 of (c, st') \<Rightarrow> Some (c, st', d))"
      proof (rule less.hyps [where L = "L - ?w"])
        show "length (drop n es) < ?r" using n by simp
        show "keys_ok (drop n es)" using less.prems(1) by (auto simp: keys_ok_def dest: in_set_dropD)
        show "kread (rd_contents d) (off + ?w) (128 * length (drop n es)) = recs (drop n es)"
          using data(2) by (simp add: wn)
        show "128 * length (drop n es) \<le> L - ?w" using less.prems(3) n(2) by (simp add: wn diff_mult_distrib2)
        show "L - ?w < 2 ^ 63" using less.prems(4) by simp
        show "4096 dvd L - ?w" using w(1,2) less.prems(5) by (simp add: dvd_diff_nat)
        show "off + ?w + (L - ?w) \<le> size_bytes d" using w(2) less.prems(6) by simp
      qed
      then show ?thesis by simp
    qed
    obtain c1 st1 where f1: "ForEach (take n es) visitor st = (c1, st1)" by fastforce
    have fe: "ForEach es visitor st = (if c1 \<noteq> kSuccess then (c1, st1) else ForEach (drop n es) visitor st1)"
      using visit_ForEach_append [of "take n es" "drop n es" visitor st] f1 by simp
    show ?thesis
      unfolding load_loop.simps [of B off ?r] fe
      using False m rd n(1) rest dl f1
      by (simp add: Let_def kSnapshot_numbers n_def [symmetric])
  qed
qed

end
