(* ===== verification/Cabe_SnapshotTheorems.thy ===== *)
theory Cabe_SnapshotTheorems
  imports Cabe_SnapshotRecover
begin

text \<open>
  The properties of the snapshot component: a write keeps the previous snapshot until it
  reports success, recovery after a crash finds the newest complete one, and what is loaded
  is what was written. One reachable crash is not survived: a torn first snapshot.
\<close>

section \<open>Writing keeps the invariant\<close>

lemma unat_of_nat_id: "n < 2 ^ 64 \<Longrightarrow> unat (of_nat n :: u64) = n"
  by (simp add: unat_of_nat take_bit_nat_eq_self)

lemma holds_stale:
  assumes g: "snap_geo s" and h: "slot_holds s im slot (gen, cov, idx)" and less: "gen < g'"
  shows "slot_stale s im slot g' W"
proof -
  have a: "att_ok s (gen, cov, idx)" "is_header s im slot (gen, cov, idx)" using h by (simp_all add: slot_holds_def)
  obtain now where now: "header_of_bytes (kread im (snap_slot s slot) 4096)
    = slot_header_for (sn_uuid s) gen cov (length idx) (CRC32 (recs idx)) now"
    using is_header_eq [OF g a(2)] by blast
  have u: "length (sn_uuid s) = kUuidBytes" using g by (simp add: snap_geo_def)
  have "unat (of_nat gen :: u64) = gen" using a(1) by (intro unat_of_nat_id) (simp add: att_ok_def)
  then show ?thesis using slot_header_for_wf(4) [OF u] less by (simp add: slot_stale_def now)
qed

lemma stale_mono: "slot_stale s im slot g W \<Longrightarrow> W \<subseteq> W' \<Longrightarrow> slot_stale s im slot g W'"
  by (auto simp: slot_stale_def Let_def)

lemma stale_header:
  assumes "kread im' (snap_slot s slot) 4096 = kread im (snap_slot s slot) 4096"
  shows "slot_stale s im' slot g W = slot_stale s im slot g W"
  by (simp add: slot_stale_def is_header_def assms)

lemma snap_geo_4096: "snap_geo s \<Longrightarrow> 4096 \<le> sn_slot_size s"
  by (simp add: snap_geo_def)

lemma region_unchanged:
  assumes g: "snap_geo s" and t: "t = 0 \<or> t = 1" "slot = 0 \<or> slot = 1" "slot \<noteq> t"
    and out: "\<forall>i. i < snap_slot s t \<or> snap_slot s t + sn_slot_size s \<le> i \<longrightarrow> f' i = f i"
  shows "slot_holds s f' slot a = slot_holds s f slot a" "slot_stale s f' slot gg W = slot_stale s f slot gg W"
proof -
  have "kread f' (snap_slot s slot) (sn_slot_size s) = kread f (snap_slot s slot) (sn_slot_size s)"
    by (rule kread_cong) (use snap_slots [OF g t(2) t(1) t(3)] out in auto)
  then show "slot_holds s f' slot a = slot_holds s f slot a" "slot_stale s f' slot gg W = slot_stale s f slot gg W"
    using slot_region_cong snap_geo_4096 [OF g] by blast+
qed

lemma Write_fail_image:
  assumes g: "snap_geo s" and im: "snap_image s f gg cov idx W" and gn: "gg < sn_next_gen s"
    and out: "\<forall>i. i < snap_slot s (snap_target s) \<or> snap_slot s (snap_target s) + sn_slot_size s \<le> i \<longrightarrow> f' i = f i"
    and hd: "kread f' (snap_slot s (snap_target s)) 4096 = kread f (snap_slot s (snap_target s)) 4096
      \<or> is_header s f' (snap_target s) (sn_next_gen s, c, e) \<and> att_ok s (sn_next_gen s, c, e)"
  shows "snap_image s f' gg cov idx (insert (sn_next_gen s, c, e) W)"
proof -
  have tgt: "snap_target s = 0 \<or> snap_target s = 1" by (simp add: snap_target_def)
  have "slot_stale s f' (snap_target s) gg (insert (sn_next_gen s, c, e) W)"
    using hd
  proof
    assume "kread f' (snap_slot s (snap_target s)) 4096 = kread f (snap_slot s (snap_target s)) 4096"
    then show ?thesis using stale_header stale_mono im by (metis snap_image_def subset_insertI)
  next
    assume "is_header s f' (snap_target s) (sn_next_gen s, c, e) \<and> att_ok s (sn_next_gen s, c, e)"
    then show ?thesis using gn by (auto simp: slot_stale_def Let_def)
  qed
  moreover have "slot_stale s f' 1 0 {} = slot_stale s f 1 0 {}" if "sn_active s = -1"
    by (rule region_unchanged(2) [OF g tgt _ _ out]) (use that in \<open>auto simp: snap_target_def\<close>)
  moreover have "slot_holds s f' (sn_active s) a = slot_holds s f (sn_active s) a"
    if "sn_active s \<noteq> -1" "sn_active s \<in> {0, 1}" for a
    by (rule region_unchanged(1) [OF g tgt _ _ out]) (use that in \<open>auto simp: snap_target_def\<close>)
  ultimately show ?thesis using im by (auto simp: snap_image_def)
qed

lemma Write_ok_image:
  assumes g: "snap_geo s" and im: "snap_image s f gg cov idx W" and gn: "gg < sn_next_gen s" "0 < sn_next_gen s"
    and out: "\<forall>i. i < snap_slot s (snap_target s) \<or> snap_slot s (snap_target s) + sn_slot_size s \<le> i \<longrightarrow> f' i = f i"
    and new: "slot_holds s f' (snap_target s) (sn_next_gen s, c, e)"
    and s': "sn_slot_a s' = sn_slot_a s" "sn_slot_b s' = sn_slot_b s"
      "sn_slot_size s' = sn_slot_size s" "sn_uuid s' = sn_uuid s" "sn_active s' = snap_target s"
  shows "snap_image s' f' (sn_next_gen s) c e {}"
proof -
  note V = view_cong [OF s'(1-4)]
  have tgt: "snap_target s = 0 \<or> snap_target s = 1" by (simp add: snap_target_def)
  let ?o = "1 - snap_target s"
  have t': "snap_target s' = ?o" using s'(5) by (auto simp: snap_target_def)
  have same: "slot_holds s f' ?o a = slot_holds s f ?o a" "slot_stale s f' ?o x Y = slot_stale s f ?o x Y" for a x Y
    using region_unchanged [OF g tgt _ _ out, of ?o] tgt by (auto simp: snap_target_def)
  have "slot_stale s f ?o (sn_next_gen s) {}"
  proof (cases "sn_active s = -1")
    case True
    then have "slot_stale s f ?o 0 {}" using im by (simp add: snap_image_def snap_target_def)
    then show ?thesis by (auto simp: slot_stale_def Let_def)
  next
    case False
    then have a: "sn_active s \<in> {0, 1}" "slot_holds s f (sn_active s) (gg, cov, idx)" using im by (auto simp: snap_image_def)
    then have "?o = sn_active s" by (auto simp: snap_target_def)
    then show ?thesis using holds_stale [OF g] a gn by simp
  qed
  then have "slot_stale s f' ?o (sn_next_gen s) {}" by (simp only: same(2))
  moreover have "slot_stale s' f' ?o (sn_next_gen s) {} = slot_stale s f' ?o (sn_next_gen s) {}"
    by (simp add: slot_stale_def V)
  ultimately have "slot_stale s' f' ?o (sn_next_gen s) {}" by simp
  moreover have "snap_target s \<noteq> -1" "snap_target s \<in> {0, 1}" by (simp_all add: snap_target_def)
  ultimately show ?thesis using new gn(2) s'(5) t' by (simp add: snap_image_def V)
qed

lemma Write_step:
  assumes inv: "snap_inv s cov idx W" and cov': "cov' < 2 ^ 64" and gen: "sn_next_gen s + 1 < 2 ^ 64"
    and run: "Snapshot_Write s cov' (ForEach idx') now = (c, s')"
    and atomic: "c \<noteq> kSuccess \<longrightarrow> header_atomic s s' (sn_next_gen s, cov', idx')"
  shows "(c = kSuccess \<longrightarrow> snap_inv s' cov' idx' {} \<and> rd_durable (sn_dev s') = rd_contents (sn_dev s'))
    \<and> (c \<noteq> kSuccess \<longrightarrow> snap_inv s' cov idx (insert (sn_next_gen s, cov', idx') W)
         \<and> c \<in> {kSnapshotWriteFailed, kDeviceTooSmall} \<and> s' = s\<lparr>sn_dev := sn_dev s'\<rparr>)"
proof -
  have g: "snap_geo s" using inv by (simp add: snap_inv_def)
  obtain gg where G: "gg < sn_next_gen s" "snap_image s (rd_contents (sn_dev s)) gg cov idx W"
    "snap_image s (rd_durable (sn_dev s)) gg cov idx W" using inv by (auto simp: snap_inv_def)
  let ?t = "snap_target s"
  obtain d where D: "\<forall>i. i < snap_slot s ?t \<or> snap_slot s ?t + sn_slot_size s \<le> i \<longrightarrow>
        rd_contents d i = rd_contents (sn_dev s) i"
    "c \<in> {kSuccess, kSnapshotWriteFailed, kDeviceTooSmall}"
    "if c = kSuccess then rd_durable d = rd_contents d
            \<and> slot_holds s (rd_contents d) ?t (sn_next_gen s, cov', idx')
            \<and> s' = s\<lparr>sn_dev := d, sn_active := ?t, sn_last_covered := cov',
                 sn_entry_count := length idx', sn_next_gen := (sn_next_gen s + 1) mod 2 ^ 64\<rparr>
         else rd_durable d = rd_durable (sn_dev s) \<and> s' = s\<lparr>sn_dev := d\<rparr>"
    "c \<noteq> kSuccess \<longrightarrow> header_atomic s s' (sn_next_gen s, cov', idx') \<longrightarrow>
          kread (rd_contents d) (snap_slot s ?t) 4096 = kread (rd_contents (sn_dev s)) (snap_slot s ?t) 4096
          \<or> is_header s (rd_contents d) ?t (sn_next_gen s, cov', idx') \<and> att_ok s (sn_next_gen s, cov', idx')"
    using Write_effect [OF g cov' _ run] gen by auto
  show ?thesis
  proof (cases "c = kSuccess")
    case True
    then have s': "s' = s\<lparr>sn_dev := d, sn_active := ?t, sn_last_covered := cov',
                 sn_entry_count := length idx', sn_next_gen := sn_next_gen s + 1\<rparr>"
      and new: "slot_holds s (rd_contents d) ?t (sn_next_gen s, cov', idx')"
      and du: "rd_durable d = rd_contents d" using D(3) gen by simp_all
    have "snap_image s' (rd_contents d) (sn_next_gen s) cov' idx' {}"
      by (rule Write_ok_image [OF g G(2) G(1) _ D(1) new]) (use G(1) s' in auto)
    moreover have "snap_geo s'" using g by (simp add: s' snap_geo_def)
    ultimately have "snap_inv s' cov' idx' {}" using du by (auto simp: snap_inv_def s')
    then show ?thesis using True du s' by simp
  next
    case False
    then have s': "s' = s\<lparr>sn_dev := d\<rparr>" and du: "rd_durable d = rd_durable (sn_dev s)" using D(3) by simp_all
    let ?W = "insert (sn_next_gen s, cov', idx') W"
    have hd: "kread (rd_contents d) (snap_slot s ?t) 4096 = kread (rd_contents (sn_dev s)) (snap_slot s ?t) 4096
          \<or> is_header s (rd_contents d) ?t (sn_next_gen s, cov', idx') \<and> att_ok s (sn_next_gen s, cov', idx')"
      using D(4) False atomic by blast
    have "snap_image s (rd_contents d) gg cov idx ?W"
      by (rule Write_fail_image [OF g G(2) G(1) D(1) hd])
    moreover have "snap_image s (rd_durable d) gg cov idx ?W"
      unfolding du by (rule Write_fail_image [OF g G(3) G(1)]) simp_all
    moreover have "snap_image s' = snap_image s" "snap_geo s' = snap_geo s" unfolding s' by (rule view_cong; simp)+
    ultimately have "snap_inv s' cov idx ?W" using g G(1) inv by (auto simp: snap_inv_def s')
    then show ?thesis using False D(2) s' by auto
  qed
qed

section \<open>Recovery\<close>

text \<open>An opened snapshot object on a device that answers.\<close>

definition snap_ready :: "snapshot \<Rightarrow> bool" where
  "snap_ready s \<longleftrightarrow> snap_geo s \<and> healthy (sn_dev s)
     \<and> kDataRegionOffset + 2 * sn_slot_size s \<le> size_bytes (sn_dev s)"

lemma snap_ready_slot:
  assumes "snap_ready s" "slot = 0 \<or> slot = 1" "a \<le> sn_slot_size s"
  shows "snap_slot s slot + a \<le> size_bytes (sn_dev s)"
  using assms by (auto simp: snap_ready_def snap_geo_def snap_slot_def)

lemma VerifySlotData_healthy:
  assumes r: "snap_ready s" and slot: "slot = 0 \<or> slot = 1"
    and len: "4096 + unat (sh_data_len h) \<le> sn_slot_size s"
  shows "VerifySlotData s slot h = Some
    (if CRC32 (kread (rd_contents (sn_dev s)) (snap_slot s slot + 4096) (unat (sh_data_len h))) = sh_data_crc h
     then kSuccess else kSnapshotCorrupted, s)"
proof (cases "sh_data_len h = 0")
  case True
  then show ?thesis by (auto simp: VerifySlotData_def CRC32_Nil)
next
  case False
  have g: "snap_geo s" and h: "healthy (sn_dev s)" using r by (simp_all add: snap_ready_def)
  have bs: "sn_buffer_size s \<le> 2 ^ 38" and d: "4096 dvd sn_slot_size s" using g by (simp_all add: snap_geo_def)
  let ?L = "sn_slot_size s - 4096"
  have "verify_loop (RoundUpBufferSize (sn_buffer_size s) kSnapshotBlockSize) (snap_slot s slot + 4096)
      (unat (sh_data_len h)) 0xFFFFFFFF (sn_dev s)
    = Some (kSuccess, CRC32CStreamUpdate 0xFFFFFFFF
        (kread (rd_contents (sn_dev s)) (snap_slot s slot + 4096) (unat (sh_data_len h))), sn_dev s)"
  proof (rule verify_loop_healthy [OF h RoundUp_block(1,3,4) [OF bs], where L = ?L])
    show "unat (sh_data_len h) \<le> ?L" using len by simp
    show "4096 dvd ?L" using d by (simp add: dvd_diff_nat)
    show "snap_slot s slot + 4096 + ?L \<le> size_bytes (sn_dev s)"
      using snap_ready_slot [OF r slot, of "sn_slot_size s"] snap_geo_4096 [OF g] by simp
  qed
  then show ?thesis
    using False by (simp add: VerifySlotData_def Let_def healthy_AllocAligned [OF h] kSnapshot_numbers CRC32_stream_one)
qed

text \<open>The checksum tells the slot data of an unfinished attempt from other bytes.\<close>

definition crc_honest :: "snapshot \<Rightarrow> (nat \<Rightarrow> u8) \<Rightarrow> attempt set \<Rightarrow> bool" where
  "crc_honest s im W \<longleftrightarrow> (\<forall>(gen, cov, idx) \<in> W. \<forall>slot \<in> {0, 1}.
     CRC32 (kread im (snap_slot s slot + 4096) (128 * length idx)) = CRC32 (recs idx)
     \<longrightarrow> kread im (snap_slot s slot + 4096) (128 * length idx) = recs idx)"

lemma header_facts:
  assumes g: "snap_geo s" and a: "att_ok s (gen, cov, idx)" and h: "is_header s im slot (gen, cov, idx)"
  shows "slot_ok s (header_of_bytes (kread im (snap_slot s slot) 4096))"
    "unat (sh_generation (header_of_bytes (kread im (snap_slot s slot) 4096))) = gen"
    "unat (sh_covered_seq (header_of_bytes (kread im (snap_slot s slot) 4096))) = cov"
    "unat (sh_entry_count (header_of_bytes (kread im (snap_slot s slot) 4096))) = length idx"
    "unat (sh_data_len (header_of_bytes (kread im (snap_slot s slot) 4096))) = 128 * length idx"
    "sh_data_crc (header_of_bytes (kread im (snap_slot s slot) 4096)) = CRC32 (recs idx)"
proof -
  obtain now where now: "header_of_bytes (kread im (snap_slot s slot) 4096)
    = slot_header_for (sn_uuid s) gen cov (length idx) (CRC32 (recs idx)) now"
    using is_header_eq [OF g h] by blast
  have u: "length (sn_uuid s) = kUuidBytes" and sz: "sn_slot_size s < 2 ^ 63" using g by (simp_all add: snap_geo_def)
  have n: "4096 + 128 * length idx \<le> sn_slot_size s" "gen < 2 ^ 64" "cov < 2 ^ 64" using a by (simp_all add: att_ok_def)
  note F = slot_header_for_wf [OF u, of gen cov "length idx" "CRC32 (recs idx)" now]
  show "slot_ok s (header_of_bytes (kread im (snap_slot s slot) 4096))" unfolding now by (rule slot_ok_header [OF g a])
  show "unat (sh_generation (header_of_bytes (kread im (snap_slot s slot) 4096))) = gen"
    "unat (sh_covered_seq (header_of_bytes (kread im (snap_slot s slot) 4096))) = cov"
    "unat (sh_entry_count (header_of_bytes (kread im (snap_slot s slot) 4096))) = length idx"
    "sh_data_crc (header_of_bytes (kread im (snap_slot s slot) 4096)) = CRC32 (recs idx)"
    unfolding now F using n sz by (simp_all add: unat_of_nat_id)
  show "unat (sh_data_len (header_of_bytes (kread im (snap_slot s slot) 4096))) = 128 * length idx"
    unfolding now F using n sz unat_of_nat_id [of "length idx * kSnapshotRecordSize"]
    by (simp add: kSnapshot_numbers del: of_nat_mult)
qed

lemma Load_healthy:
  assumes r: "snap_ready s" and a: "slot_holds s (rd_contents (sn_dev s)) (sn_active s) (gen, cov, idx)"
    and act: "sn_active s = 0 \<or> sn_active s = 1" and n: "sn_entry_count s = length idx"
  shows "Snapshot_Load s visitor st = (case ForEach idx visitor st of (c, st') \<Rightarrow> Some (c, st', s))"
proof (cases "idx = []")
  case True
  then show ?thesis using n r by (simp add: Snapshot_Load_def snap_ready_def healthy_def RawDevice_is_open_def)
next
  case False
  have g: "snap_geo s" and h: "healthy (sn_dev s)" using r by (simp_all add: snap_ready_def)
  have bs: "sn_buffer_size s \<le> 2 ^ 38" and d: "4096 dvd sn_slot_size s" "sn_slot_size s < 2 ^ 63"
    using g by (simp_all add: snap_geo_def)
  have A: "keys_ok idx" "4096 + 128 * length idx \<le> sn_slot_size s"
    "kread (rd_contents (sn_dev s)) (snap_slot s (sn_active s) + 4096) (128 * length idx) = recs idx"
    using a by (simp_all add: slot_holds_def att_ok_def)
  let ?L = "sn_slot_size s - 4096"
  have "load_loop (RoundUpBufferSize (sn_buffer_size s) kSnapshotBlockSize) (snap_slot s (sn_active s) + 4096)
      (length idx) visitor st (sn_dev s)
    = (case ForEach idx visitor st of (c, st') \<Rightarrow> Some (c, st', sn_dev s))"
  proof (rule load_loop_healthy [OF h RoundUp_block(1,3,4) [OF bs] A(1) A(3), where L = ?L])
    show "128 * length idx \<le> ?L" "?L < 2 ^ 63" using A(2) d by simp_all
    show "4096 dvd ?L" using d by (simp add: dvd_diff_nat)
    show "snap_slot s (sn_active s) + 4096 + ?L \<le> size_bytes (sn_dev s)"
      using snap_ready_slot [OF r act, of "sn_slot_size s"] snap_geo_4096 [OF g] by simp
  qed
  then show ?thesis
    using False n act h
    by (auto simp: Snapshot_Load_def Let_def healthy_AllocAligned kSnapshot_numbers RawDevice_is_open_def
        healthy_def split: prod.splits)
qed

text \<open>The two headers as recovery reads them, and what is known of the slot that was not chosen.\<close>

definition slot_head :: "snapshot \<Rightarrow> int \<Rightarrow> slot_header" where
  "slot_head s slot = header_of_bytes (kread (rd_contents (sn_dev s)) (snap_slot s slot) 4096)"

definition loser :: "snapshot \<Rightarrow> int \<Rightarrow> nat \<Rightarrow> attempt set \<Rightarrow> bool" where
  "loser s slot gen W \<longleftrightarrow> (slot_ok s (slot_head s slot) \<longrightarrow> unat (sh_generation (slot_head s slot)) < gen
     \<or> (\<exists>a \<in> W. att_ok s a \<and> is_header s (rd_contents (sn_dev s)) slot a \<and> gen < fst a \<and> fst a + 1 < 2 ^ 64))"

lemma chosen_inv:
  assumes r: "snap_ready s" and du: "rd_durable (sn_dev s) = rd_contents (sn_dev s)"
    and C: "C = 0 \<or> C = 1" and hold: "slot_holds s (rd_contents (sn_dev s)) C (gen, cov, idx)"
    and gen: "0 < gen" "gen + 1 < 2 ^ 64" and lose: "loser s (1 - C) gen W"
  shows "\<exists>s'. snap_chosen s C (slot_head s 0) (slot_head s 1) = (kSuccess, s') \<and> snap_inv s' cov idx W
    \<and> snap_ready s' \<and> sn_active s' = C \<and> sn_dev s' = sn_dev s
    \<and> slot_holds s' (rd_contents (sn_dev s')) C (gen, cov, idx)"
proof -
  let ?im = "rd_contents (sn_dev s)"
  have g: "snap_geo s" using r by (simp add: snap_ready_def)
  have a: "att_ok s (gen, cov, idx)" "is_header s ?im C (gen, cov, idx)" using hold by (simp_all add: slot_holds_def)
  note H = header_facts [OF g a, folded slot_head_def]
  define M where "M = max (if slot_ok s (slot_head s 0) then unat (sh_generation (slot_head s 0)) else 0)
                (if slot_ok s (slot_head s 1) then unat (sh_generation (slot_head s 1)) else 0)"
  have M: "M + 1 < 2 ^ 64 \<and> gen \<le> M \<and>
    (slot_ok s (slot_head s (1 - C)) \<longrightarrow> unat (sh_generation (slot_head s (1 - C))) < gen
     \<or> (\<exists>a \<in> W. att_ok s a \<and> is_header s ?im (1 - C) a \<and> gen < fst a \<and> fst a \<le> M + 1))"
  proof (cases "slot_ok s (slot_head s (1 - C)) \<and> \<not> unat (sh_generation (slot_head s (1 - C))) < gen")
    case True
    then obtain b where b: "b \<in> W" "att_ok s b" "is_header s ?im (1 - C) b" "gen < fst b" "fst b + 1 < 2 ^ 64"
      using lose by (auto simp: loser_def)
    obtain g' c' i' where b': "b = (g', c', i')" by (cases b)
    have "unat (sh_generation (slot_head s (1 - C))) = g'"
      using header_facts(2) [OF g, of g' c' i' ?im "1 - C"] b b' by (simp add: slot_head_def)
    then have "M = g'" unfolding M_def using H(1,2) C True b(4) b' by auto
    then have "M + 1 < 2 ^ 64" "gen \<le> M" "fst b \<le> M + 1" using b b' by simp_all
    then show ?thesis using b(1-4) by blast
  next
    case False
    then have "M = gen" unfolding M_def using H(1,2) C by auto
    then show ?thesis using False gen by auto
  qed
  define s' where "s' = s\<lparr>sn_active := C, sn_next_gen := M + 1, sn_last_covered := cov,
     sn_last_trigger := cov, sn_entry_count := length idx\<rparr>"
  have run: "snap_chosen s C (slot_head s 0) (slot_head s 1) = (kSuccess, s')"
  proof -
    have mm: "(M + 1) mod 2 ^ 64 = M + 1" using M by (intro mod_less) blast
    have hc: "(if C = 0 then slot_head s 0 else slot_head s 1) = slot_head s C" using C by auto
    show ?thesis
      unfolding snap_chosen_def Let_def M_def [symmetric] hc mm s'_def by (simp add: H(3,4))
  qed
  have v: "sn_slot_a s' = sn_slot_a s" "sn_slot_b s' = sn_slot_b s" "sn_slot_size s' = sn_slot_size s"
    "sn_uuid s' = sn_uuid s" "sn_buffer_size s' = sn_buffer_size s" "sn_dev s' = sn_dev s" "sn_active s' = C"
    "sn_next_gen s' = M + 1" "sn_last_covered s' = cov" "sn_entry_count s' = length idx"
    by (simp_all add: s'_def)
  note V = view_cong [OF v(1-4)]
  have tg: "snap_target s' = 1 - C" using C v by (auto simp: snap_target_def)
  have g': "snap_geo s'" using g V(7) v by simp
  have "slot_stale s' ?im (1 - C) gen W"
  proof -
    have n: "sn_next_gen s' = M + 1" by (simp add: s'_def)
    show ?thesis using M unfolding slot_stale_def Let_def V n slot_head_def by blast
  qed
  then have "snap_image s' ?im gen cov idx W"
    using hold gen C v tg by (auto simp: snap_image_def V)
  moreover have "gen < sn_next_gen s'" using M v by simp
  ultimately have "snap_inv s' cov idx W" using g' du v unfolding snap_inv_def by auto
  moreover have "snap_ready s'" using r g' v by (simp add: snap_ready_def)
  ultimately show ?thesis using run v hold by (intro exI [of _ s']) (simp add: V)
qed

text \<open>An active slot holds its snapshot, whatever the other slot is: recovery succeeds.\<close>

lemma judge_active:
  assumes r: "snap_ready s" and du: "rd_durable (sn_dev s) = rd_contents (sn_dev s)"
    and C: "C = 0 \<or> C = 1" and hold: "slot_holds s (rd_contents (sn_dev s)) C (gen, cov, idx)"
    and gen: "0 < gen" "gen + 1 < 2 ^ 64" and lose: "loser s (1 - C) gen W"
    and honest: "crc_honest s (rd_contents (sn_dev s)) W"
  shows "\<exists>s' gen' cov' idx' W'. snap_judge s (slot_head s 0) (slot_head s 1) = Some (kSuccess, s')
    \<and> (gen', cov', idx') \<in> insert (gen, cov, idx) W \<and> W' \<subseteq> W \<and> snap_inv s' cov' idx' W'
    \<and> snap_ready s' \<and> sn_active s' \<in> {0, 1}
    \<and> slot_holds s' (rd_contents (sn_dev s')) (sn_active s') (gen', cov', idx')"
proof -
  let ?im = "rd_contents (sn_dev s)"
  let ?T = "1 - C"
  have g: "snap_geo s" using r by (simp add: snap_ready_def)
  have T: "?T = 0 \<or> ?T = 1" "1 - ?T = C" using C by auto
  have a: "att_ok s (gen, cov, idx)" "is_header s ?im C (gen, cov, idx)"
    "kread ?im (snap_slot s C + 4096) (128 * length idx) = recs idx" using hold by (simp_all add: slot_holds_def)
  note H = header_facts [OF g a(1,2), folded slot_head_def]
  have vC: "VerifySlotData s C (slot_head s C) = Some (kSuccess, s)"
    using VerifySlotData_healthy [OF r C, of "slot_head s C"] H(5,6) a by (simp add: att_ok_def)
  have pick: "(if x = 0 then slot_head s 0 else slot_head s 1) = slot_head s x" if "x = 0 \<or> x = 1" for x :: int
    using that by auto
  obtain s1 where s1: "snap_chosen s C (slot_head s 0) (slot_head s 1) = (kSuccess, s1)" "snap_inv s1 cov idx W"
    "snap_ready s1" "sn_active s1 = C" "slot_holds s1 (rd_contents (sn_dev s1)) C (gen, cov, idx)"
    using chosen_inv [OF r du C hold gen lose] by blast
  have good: ?thesis if "snap_judge s (slot_head s 0) (slot_head s 1) = Some (kSuccess, s1)"
    using that s1 C by (intro exI [of _ s1] exI [of _ gen] exI [of _ cov] exI [of _ idx] exI [of _ W]) auto
  show ?thesis
  proof (cases "slot_ok s (slot_head s ?T) \<and> \<not> unat (sh_generation (slot_head s ?T)) < gen")
    case False
    have cand: "snap_candidate s (slot_head s 0) (slot_head s 1) = C"
      "\<not> (slot_ok s (slot_head s 0) \<and> slot_ok s (slot_head s 1)
          \<and> sh_generation (slot_head s 0) = sh_generation (slot_head s 1))"
      using False H(1,2) C by (auto simp: snap_candidate_def word_less_nat_alt)
    have "0 \<le> C" using C by auto
    then have "snap_judge s (slot_head s 0) (slot_head s 1) = Some (kSuccess, s1)"
      unfolding snap_judge_def if_not_P [OF cand(2)] Let_def cand(1) pick [OF C] by (simp add: vC s1)
    then show ?thesis by (rule good)
  next
    case True
    then obtain b where b: "b \<in> W" "att_ok s b" "is_header s ?im ?T b" "gen < fst b" "fst b + 1 < 2 ^ 64"
      using lose by (auto simp: loser_def)
    obtain g' c' i' where b': "b = (g', c', i')" by (cases b)
    note B = header_facts [OF g, of g' c' i' ?im ?T, folded slot_head_def]
    have b2: "att_ok s (g', c', i')" "is_header s ?im ?T (g', c', i')" using b b' by simp_all
    have cand: "snap_candidate s (slot_head s 0) (slot_head s 1) = ?T"
      "\<not> (slot_ok s (slot_head s 0) \<and> slot_ok s (slot_head s 1)
          \<and> sh_generation (slot_head s 0) = sh_generation (slot_head s 1))"
      using True H(1,2) B(2) [OF b2] C b(4) b' by (auto simp: snap_candidate_def word_less_nat_alt)
    let ?ok = "CRC32 (kread ?im (snap_slot s ?T + 4096) (128 * length i')) = CRC32 (recs i')"
    have vT: "VerifySlotData s ?T (slot_head s ?T) = Some (if ?ok then kSuccess else kSnapshotCorrupted, s)"
      using VerifySlotData_healthy [OF r T(1), of "slot_head s ?T"] B(5,6) [OF b2] b2(1) by (simp add: att_ok_def)
    have nn: "0 \<le> ?T" using C by auto
    show ?thesis
    proof (cases ?ok)
      case ok: True
      have "kread ?im (snap_slot s ?T + 4096) (128 * length i') = recs i'"
        using honest b(1) b' ok T(1) by (auto simp: crc_honest_def)
      then have hT: "slot_holds s ?im ?T (g', c', i')" using b2 by (simp add: slot_holds_def)
      have "loser s C g' {}" using H(1,2) b(4) b' by (simp add: loser_def)
      then have "\<exists>s'. snap_chosen s ?T (slot_head s 0) (slot_head s 1) = (kSuccess, s') \<and> snap_inv s' c' i' {}
        \<and> snap_ready s' \<and> sn_active s' = ?T \<and> sn_dev s' = sn_dev s
        \<and> slot_holds s' (rd_contents (sn_dev s')) ?T (g', c', i')"
        using chosen_inv [OF r du T(1) hT _ _ , of "{}"] b(4,5) b' T(2) by simp
      then obtain s2 where s2: "snap_chosen s ?T (slot_head s 0) (slot_head s 1) = (kSuccess, s2)" "snap_inv s2 c' i' {}"
        "snap_ready s2" "sn_active s2 = ?T" "slot_holds s2 (rd_contents (sn_dev s2)) ?T (g', c', i')" by blast
      have "snap_judge s (slot_head s 0) (slot_head s 1) = Some (kSuccess, s2)"
        unfolding snap_judge_def if_not_P [OF cand(2)] Let_def cand(1) pick [OF T(1)] using nn ok by (simp add: vT s2)
      then show ?thesis
        using s2 T(1) b(1) b'
        by (intro exI [of _ s2] exI [of _ g'] exI [of _ c'] exI [of _ i'] exI [of _ "{}"]) auto
    next
      case False
      have "snap_judge s (slot_head s 0) (slot_head s 1) = Some (kSuccess, s1)"
        unfolding snap_judge_def if_not_P [OF cand(2)] Let_def cand(1) pick [OF T(1)] T(2) pick [OF C]
        using nn False H(1) by (simp add: vT vC s1)
      then show ?thesis by (rule good)
    qed
  qed
qed

text \<open>What opening a device for recovery needs of its surroundings: it is the same device after a
  restart, with the same group's super block.\<close>

definition snap_config :: "snapshot \<Rightarrow> kdev \<Rightarrow> options \<Rightarrow> super_block \<Rightarrow> bool" where
  "snap_config s d opts sb \<longleftrightarrow> kd_script d = [] \<and> kd_durable d = kd_data d \<and> \<not> o_create opts
     \<and> o_snapshot_buffer_size opts \<le> 2 ^ 38 \<and> sb_engine_uuid sb = sn_uuid s
     \<and> sn_slot_size s = SnapshotSlotSize (kd_size d)
     \<and> (kSnapshotSlotHeaderSize + AlignUp (unat (sb_block_count sb) * kSnapshotRecordSize mod 2 ^ 64)
          kSnapshotBlockSize) mod 2 ^ 64 \<le> sn_slot_size s"

lemma Open_judge:
  assumes g: "snap_geo s" and cf: "snap_config s d opts sb"
  shows "\<exists>s0. Snapshot_Open (snapshot_fresh d) opts sb = snap_judge s0 (slot_head s0 0) (slot_head s0 1)
    \<and> snap_ready s0 \<and> rd_contents (sn_dev s0) = kd_data d \<and> rd_durable (sn_dev s0) = kd_data d
    \<and> sn_slot_a s0 = sn_slot_a s \<and> sn_slot_b s0 = sn_slot_b s \<and> sn_slot_size s0 = sn_slot_size s
    \<and> sn_uuid s0 = sn_uuid s"
proof -
  have C: "kd_script d = []" "kd_durable d = kd_data d" "\<not> o_create opts" "o_snapshot_buffer_size opts \<le> 2 ^ 38"
    "sb_engine_uuid sb = sn_uuid s" "SnapshotSlotSize (kd_size d) = sn_slot_size s"
    "(kSnapshotSlotHeaderSize + AlignUp (unat (sb_block_count sb) * kSnapshotRecordSize mod 2 ^ 64)
          kSnapshotBlockSize) mod 2 ^ 64 \<le> sn_slot_size s"
    using cf by (simp_all add: snap_config_def)
  have G: "sn_slot_a s = kDataRegionOffset" "sn_slot_b s = kDataRegionOffset + sn_slot_size s" "4096 \<le> sn_slot_size s"
    using g by (simp_all add: snap_geo_def)
  let ?dv = "\<lparr>fd_open = True, size_bytes = kd_size d, kdev = d\<rparr>"
  define s0 where "s0 = (snapshot_fresh d)\<lparr>sn_dev := ?dv, sn_buffer_size := o_snapshot_buffer_size opts,
     sn_uuid := sn_uuid s, sn_slot_size := sn_slot_size s, sn_slot_a := kDataRegionOffset,
     sn_slot_b := kDataRegionOffset + sn_slot_size s\<rparr>"
  have v: "sn_dev s0 = ?dv" "sn_slot_a s0 = kDataRegionOffset" "sn_slot_b s0 = kDataRegionOffset + sn_slot_size s"
    "sn_slot_size s0 = sn_slot_size s" "sn_uuid s0 = sn_uuid s" "sn_buffer_size s0 = o_snapshot_buffer_size opts"
    by (simp_all add: s0_def)
  have sz: "kDataRegionOffset + 2 * sn_slot_size s \<le> kd_size d"
    using SnapshotSlotSize_le [of "kd_size d"] C(6) G(3) by simp
  have op: "RawDevice_Open (sn_dev (snapshot_fresh d)) = (kSuccess, ?dv)"
    using healthy_Open [OF C(1)] by (simp add: snapshot_fresh_def)
  have h: "healthy ?dv" using C(1) by (simp add: healthy_def)
  have ready: "snap_ready s0"
    using h sz g C(4) unfolding snap_ready_def snap_geo_def v by simp
  have "Snapshot_Open (snapshot_fresh d) opts sb = open_recover s0"
    using C G(3) by (simp add: Snapshot_Open_def op Let_def RawDevice_SizeBytes_def s0_def)
  also have "\<dots> = snap_judge s0 (slot_head s0 0) (slot_head s0 1)"
  proof -
    have rd: "RawDevice_ReadAt ?dv (snap_slot s0 x) 4096 = (kSuccess, kread (kd_data d) (snap_slot s0 x) 4096, ?dv)"
      if "x = 0 \<or> x = 1" for x
      using healthy_ReadAt [OF h, of "snap_slot s0 x" 4096] snap_ready_slot [OF ready that, of 4096] G(3) v
      by (simp add: rd_contents_def)
    have "snap_slot s0 0 = sn_slot_a s0" "snap_slot s0 1 = sn_slot_b s0" by (simp_all add: snap_slot_def)
    moreover have upd: "s0\<lparr>sn_dev := ?dv\<rparr> = s0" by (simp add: s0_def)
    ultimately show ?thesis
      using rd [of 0] rd [of 1] healthy_AllocAligned [OF h] v(1)
      by (simp add: upd open_recover_def kSnapshot_numbers slot_head_def rd_contents_def)
  qed
  finally show ?thesis
    using ready v G C(2) by (intro exI [of _ s0]) (simp add: rd_contents_def rd_durable_def)
qed

lemma judge_none:
  assumes r: "snap_ready s" and du: "rd_durable (sn_dev s) = rd_contents (sn_dev s)"
    and no: "\<not> slot_ok s (slot_head s 0)" "\<not> slot_ok s (slot_head s 1)"
  shows "\<exists>s'. snap_judge s (slot_head s 0) (slot_head s 1) = Some (kSuccess, s') \<and> snap_inv s' 0 [] {}
    \<and> fd_open (sn_dev s') \<and> sn_active s' = -1"
proof -
  define s' where "s' = s\<lparr>sn_next_gen := 1, sn_active := -1, sn_last_covered := 0, sn_last_trigger := 0, sn_entry_count := 0\<rparr>"
  have v: "sn_slot_a s' = sn_slot_a s" "sn_slot_b s' = sn_slot_b s" "sn_slot_size s' = sn_slot_size s"
    "sn_uuid s' = sn_uuid s" "sn_buffer_size s' = sn_buffer_size s" "sn_dev s' = sn_dev s" "sn_active s' = -1"
    "sn_next_gen s' = 1" "sn_last_covered s' = 0" "sn_entry_count s' = 0"
    by (simp_all add: s'_def)
  note V = view_cong [OF v(1-4)]
  have "snap_image s' (rd_contents (sn_dev s)) 0 0 [] {}"
    using no v unfolding snap_image_def slot_stale_def snap_target_def Let_def V slot_head_def by simp
  then have "snap_inv s' 0 [] {}"
    using r du v V(7) unfolding snap_inv_def snap_ready_def by simp
  moreover have "snap_judge s (slot_head s 0) (slot_head s 1) = Some (kSuccess, s')"
    using no by (simp add: snap_judge_def snap_candidate_def Let_def s'_def)
  moreover have "fd_open (sn_dev s')" using r v by (simp add: snap_ready_def healthy_def)
  ultimately show ?thesis using v by blast
qed

text \<open>A power failure: every header block is its durable or its last written version, every other
  byte is either.\<close>

definition snap_crash :: "snapshot \<Rightarrow> (nat \<Rightarrow> u8) \<Rightarrow> bool" where
  "snap_crash s im \<longleftrightarrow> crash_image (sn_dev s) im
     \<and> (\<forall>slot \<in> {0, 1}. kread im (snap_slot s slot) 4096 = kread (rd_contents (sn_dev s)) (snap_slot s slot) 4096
          \<or> kread im (snap_slot s slot) 4096 = kread (rd_durable (sn_dev s)) (snap_slot s slot) 4096)"

lemma crash_snap_image:
  assumes inv: "snap_inv s cov idx W" and cr: "snap_crash s im"
  shows "\<exists>g < sn_next_gen s. snap_image s im g cov idx W"
proof -
  obtain g where g: "g < sn_next_gen s" "snap_image s (rd_contents (sn_dev s)) g cov idx W"
    "snap_image s (rd_durable (sn_dev s)) g cov idx W" using inv by (auto simp: snap_inv_def)
  have ci: "crash_image (sn_dev s) im" and hd: "kread im (snap_slot s slot) 4096 = kread (rd_contents (sn_dev s)) (snap_slot s slot) 4096
          \<or> kread im (snap_slot s slot) 4096 = kread (rd_durable (sn_dev s)) (snap_slot s slot) 4096"
    if "slot = 0 \<or> slot = 1" for slot using cr that by (auto simp: snap_crash_def)
  have st: "slot_stale s im slot gg V"
    if "slot = 0 \<or> slot = 1" "slot_stale s (rd_contents (sn_dev s)) slot gg V" "slot_stale s (rd_durable (sn_dev s)) slot gg V"
    for slot gg V using hd [OF that(1)] stale_header that(2,3) by metis
  have ho: "slot_holds s im slot a"
    if "slot = 0 \<or> slot = 1" "slot_holds s (rd_contents (sn_dev s)) slot a" "slot_holds s (rd_durable (sn_dev s)) slot a"
    for slot a
  proof -
    have "is_header s im slot a" using hd [OF that(1)] that(2,3) by (auto simp: slot_holds_def is_header_def)
    then show ?thesis using that(2,3) crash_image_region [OF ci [OF that(1)]] by (simp add: slot_holds_def)
  qed
  have "snap_target s = 0 \<or> snap_target s = 1" by (simp add: snap_target_def)
  then have "snap_image s im g cov idx W"
    using g(2,3) st ho by (auto simp: snap_image_def)
  then show ?thesis using g(1) by blast
qed

lemma snap_recover:
  assumes g: "snap_geo s" and im: "snap_image s (kd_data d) gen cov idx W"
    and gen: "gen < sn_next_gen s" "sn_next_gen s + 1 < 2 ^ 64"
    and honest: "crc_honest s (kd_data d) W" and cf: "snap_config s d opts sb"
  shows "(\<exists>s' cov' idx' W'. Snapshot_Open (snapshot_fresh d) opts sb = Some (kSuccess, s')
      \<and> ((cov', idx') = (cov, idx) \<or> (\<exists>gen'. (gen', cov', idx') \<in> W)) \<and> W' \<subseteq> W \<and> snap_inv s' cov' idx' W'
      \<and> Snapshot_Load s' visitor st = (case ForEach idx' visitor st of (c, st') \<Rightarrow> Some (c, st', s')))
    \<or> (sn_active s = -1 \<and> W \<noteq> {} \<and> (\<exists>s'. Snapshot_Open (snapshot_fresh d) opts sb = Some (kSnapshotCorrupted, s')))"
proof -
  obtain s0 where S: "Snapshot_Open (snapshot_fresh d) opts sb = snap_judge s0 (slot_head s0 0) (slot_head s0 1)"
    "snap_ready s0" "rd_contents (sn_dev s0) = kd_data d" "rd_durable (sn_dev s0) = rd_contents (sn_dev s0)"
    "sn_slot_a s0 = sn_slot_a s" "sn_slot_b s0 = sn_slot_b s" "sn_slot_size s0 = sn_slot_size s" "sn_uuid s0 = sn_uuid s"
    using Open_judge [OF g cf] by auto
  note V = view_cong [OF S(5-8)]
  have g0: "snap_geo s0" using S(2) by (simp add: snap_ready_def)
  have honest0: "crc_honest s0 (rd_contents (sn_dev s0)) W" using honest by (simp add: crc_honest_def V S)
  have hd: "slot_head s0 x = header_of_bytes (kread (kd_data d) (snap_slot s x) 4096)" for x
    by (simp add: slot_head_def S V)
  have lose: "loser s0 slot gg W" if "slot_stale s (kd_data d) slot gg W" "gg \<le> gen" for slot gg
  proof -
    have le: "\<And>a. fst a \<le> sn_next_gen s \<Longrightarrow> fst a + 1 < 2 ^ 64" using gen(2) by auto
    show ?thesis using that(1) le unfolding slot_stale_def loser_def Let_def hd V S by blast
  qed
  show ?thesis
  proof (cases "sn_active s = -1")
    case False
    then have A: "sn_active s = 0 \<or> sn_active s = 1" "0 < gen" "slot_holds s (kd_data d) (sn_active s) (gen, cov, idx)"
      "slot_stale s (kd_data d) (snap_target s) gen W" using im by (auto simp: snap_image_def)
    have tg: "snap_target s = 1 - sn_active s" using A(1) by (auto simp: snap_target_def)
    have h0: "slot_holds s0 (rd_contents (sn_dev s0)) (sn_active s) (gen, cov, idx)" using A(3) by (simp add: S V)
    have l0: "loser s0 (1 - sn_active s) gen W" using lose [OF A(4) order_refl] tg by simp
    have "gen + 1 < 2 ^ 64" using gen by linarith
    note JA = judge_active [OF S(2,4) A(1) h0 A(2) this l0 honest0]
    obtain s' gen' cov' idx' W' where J: "snap_judge s0 (slot_head s0 0) (slot_head s0 1) = Some (kSuccess, s')"
      "(gen', cov', idx') \<in> insert (gen, cov, idx) W" "W' \<subseteq> W" "snap_inv s' cov' idx' W'" "snap_ready s'"
      "sn_active s' \<in> {0, 1}" "slot_holds s' (rd_contents (sn_dev s')) (sn_active s') (gen', cov', idx')"
      using JA by blast
    have "sn_entry_count s' = length idx'" using J(4) by (simp add: snap_inv_def)
    then have "Snapshot_Load s' visitor st = (case ForEach idx' visitor st of (c, st') \<Rightarrow> Some (c, st', s'))"
      using Load_healthy [OF J(5) J(7)] J(6) by auto
    then show ?thesis using J S(1)
      by (intro disjI1 exI [of _ s'] exI [of _ cov'] exI [of _ idx'] exI [of _ W']) auto
  next
    case none: True
    then have N: "gen = 0" "cov = 0" "idx = []" "slot_stale s (kd_data d) 1 0 {}" "slot_stale s (kd_data d) 0 0 W"
      using im by (auto simp: snap_image_def snap_target_def)
    have no1: "\<not> slot_ok s0 (slot_head s0 1)" using N(4) by (auto simp: slot_stale_def Let_def hd V)
    show ?thesis
    proof (cases "slot_ok s0 (slot_head s0 0)")
      case False
      obtain s' where J: "snap_judge s0 (slot_head s0 0) (slot_head s0 1) = Some (kSuccess, s')" "snap_inv s' 0 [] {}"
        "fd_open (sn_dev s')" "sn_active s' = -1" using judge_none [OF S(2,4) False no1] by blast
      have "Snapshot_Load s' visitor st = Some (kSuccess, st, s')"
        using J(3,4) by (simp add: Snapshot_Load_def RawDevice_is_open_def)
      then show ?thesis using J S(1) N
        by (intro disjI1 exI [of _ s'] exI [of _ 0] exI [of _ "[]"] exI [of _ "{}"]) auto
    next
      case True
      then obtain b where b: "b \<in> W" "att_ok s0 b" "is_header s0 (rd_contents (sn_dev s0)) 0 b" "0 < fst b" "fst b + 1 < 2 ^ 64"
        using lose [OF N(5)] by (auto simp: loser_def)
      obtain g' c' i' where b': "b = (g', c', i')" by (cases b)
      have b2: "att_ok s0 (g', c', i')" "is_header s0 (rd_contents (sn_dev s0)) 0 (g', c', i')" using b b' by simp_all
      note B = header_facts [OF g0 b2, folded slot_head_def]
      let ?ok = "CRC32 (kread (rd_contents (sn_dev s0)) (snap_slot s0 0 + 4096) (128 * length i')) = CRC32 (recs i')"
      have vT: "VerifySlotData s0 0 (slot_head s0 0) = Some (if ?ok then kSuccess else kSnapshotCorrupted, s0)"
        using VerifySlotData_healthy [OF S(2), of 0 "slot_head s0 0"] B(5,6) b2(1) by (simp add: att_ok_def)
      have J0: "snap_judge s0 (slot_head s0 0) (slot_head s0 1) = (if ?ok
          then Some (snap_chosen s0 0 (slot_head s0 0) (slot_head s0 1)) else Some (snap_failed kSnapshotCorrupted s0))"
        using True no1 vT by (simp add: snap_judge_def snap_candidate_def Let_def)
      show ?thesis
      proof (cases ?ok)
        case False
        then show ?thesis using J0 S(1) none b(1) by (intro disjI2) (auto simp: snap_failed_def)
      next
        case ok: True
        then have "kread (rd_contents (sn_dev s0)) (snap_slot s0 0 + 4096) (128 * length i') = recs i'"
          using honest0 b(1) b' by (auto simp: crc_honest_def)
        then have hT: "slot_holds s0 (rd_contents (sn_dev s0)) 0 (g', c', i')" using b2 by (simp add: slot_holds_def)
        have lz: "loser s0 (1 - 0) g' {}" using no1 by (simp add: loser_def)
        have "0 < g'" "g' + 1 < 2 ^ 64" using b(4,5) b' by simp_all
        then obtain s' where s': "snap_chosen s0 0 (slot_head s0 0) (slot_head s0 1) = (kSuccess, s')" "snap_inv s' c' i' {}"
          "snap_ready s'" "sn_active s' = 0" "slot_holds s' (rd_contents (sn_dev s')) 0 (g', c', i')"
          using chosen_inv [OF S(2,4) _ hT _ _ lz] by blast
        have "sn_entry_count s' = length i'" using s'(2) by (simp add: snap_inv_def)
        then have "Snapshot_Load s' visitor st = (case ForEach i' visitor st of (c, st') \<Rightarrow> Some (c, st', s'))"
          using Load_healthy [OF s'(3), of g' c' i'] s'(4,5) by simp
        then show ?thesis using s' J0 ok S(1) b(1) b'
          by (intro disjI1 exI [of _ s'] exI [of _ c'] exI [of _ i'] exI [of _ "{}"]) auto
      qed
    qed
  qed
qed


lemma Open_create_inv:
  assumes run: "Snapshot_Open (snapshot_fresh d) opts sb = Some (c, s)" and cr: "o_create opts" and ok: "c = kSuccess"
    and bs: "o_snapshot_buffer_size opts \<le> 2 ^ 38" and uu: "length (sb_engine_uuid sb) = kUuidBytes"
    and sz: "kd_size d < 2 ^ 63"
  shows "snap_inv s 0 [] {} \<and> rd_durable (sn_dev s) = rd_contents (sn_dev s) \<and> sn_active s = -1
    \<and> sn_next_gen s = 1 \<and> sn_uuid s = sb_engine_uuid sb \<and> sn_slot_size s = SnapshotSlotSize (kd_size d)
    \<and> (\<forall>i < kDataRegionOffset. rd_contents (sn_dev s) i = kd_data d i)"
proof -
  obtain c0 d0 where op: "RawDevice_Open (raw_closed d) = (c0, d0)" by fastforce
  note O = Open_cases [OF op]
  obtain a d1 where al: "AllocAligned d0 = (a, d1)" by fastforce
  let ?S = "SnapshotSlotSize (RawDevice_SizeBytes d0)"
  obtain wa d2 where wa: "RawDevice_WriteAt d1 kDataRegionOffset (zeros 4096) = (wa, d2)" by fastforce
  obtain wb d3 where wb: "RawDevice_WriteAt d2 (kDataRegionOffset + ?S) (zeros 4096) = (wb, d3)" by fastforce
  obtain sc d4 where sy: "RawDevice_Sync d3 = (sc, d4)" by fastforce
  have fd: "sn_dev (snapshot_fresh d) = raw_closed d" by (simp add: snapshot_fresh_def)
  note R = run [unfolded ok Snapshot_Open_def fd op prod.case Let_def]
  have c0: "c0 = kSuccess" and S0: "?S \<noteq> 0" using R by (auto simp: snap_failed_def split: if_splits)
  have steps: "a \<and> wa = kSuccess \<and> wb = kSuccess \<and> sc = kSuccess"
    and s: "s = (snapshot_fresh d)\<lparr>sn_dev := d4, sn_buffer_size := o_snapshot_buffer_size opts,
      sn_uuid := sb_engine_uuid sb, sn_slot_size := ?S, sn_slot_a := kDataRegionOffset,
      sn_slot_b := kDataRegionOffset + ?S, sn_next_gen := 1, sn_active := -1, sn_last_covered := 0,
      sn_last_trigger := 0, sn_entry_count := 0\<rparr>"
    using R c0 S0 cr by (auto simp: snap_failed_def open_create_def al wa wb sy kSnapshot_numbers split: if_splits)
  have size: "RawDevice_SizeBytes d0 = kd_size d" using O(4) c0 by (simp add: RawDevice_SizeBytes_def)
  have v: "sn_dev s = d4" "sn_slot_a s = kDataRegionOffset" "sn_slot_b s = kDataRegionOffset + ?S" "sn_slot_size s = ?S"
    "sn_uuid s = sb_engine_uuid sb" "sn_buffer_size s = o_snapshot_buffer_size opts" "sn_next_gen s = 1"
    "sn_active s = -1" "sn_last_covered s = 0" "sn_entry_count s = 0"
    by (simp_all add: s)
  obtain q where q: "?S = 4096 * q" using SnapshotSlotSize_dvd by (auto simp: dvd_def)
  then have S1: "4096 \<le> ?S" using S0 by (cases q) auto
  have "?S \<le> kd_size d" using SnapshotSlotSize_le [of "kd_size d"] S0 size by simp
  then have g: "snap_geo s"
    using S1 bs uu sz SnapshotSlotSize_dvd unfolding snap_geo_def v by simp
  have w2: "rd_contents d2 = kwrite (rd_contents d1) kDataRegionOffset (zeros 4096)"
    and w3: "rd_contents d3 = kwrite (rd_contents d2) (kDataRegionOffset + ?S) (zeros 4096)"
    using raw.wr_ok wa wb steps by blast+
  have ct: "rd_contents d4 = rd_contents d3" "rd_durable d4 = rd_contents d3"
    using raw.sync_contents [OF sy] raw.sync_durable [OF sy] steps by simp_all
  have z: "kread (rd_contents d3) (snap_slot s 0) 4096 = zeros 4096" "kread (rd_contents d3) (snap_slot s 1) 4096 = zeros 4096"
    using S1 by (simp_all add: snap_slot_def v w2 w3 kread_kwrite_disjoint)
  have "\<not> slot_ok s (header_of_bytes (zeros 4096))"
    using VerifySlotHeader_zeros by (simp add: slot_ok_def kSnapshot_numbers)
  then have "snap_image s (rd_contents d3) 0 0 [] {}"
    using z by (simp add: snap_image_def slot_stale_def snap_target_def v)
  then have "snap_inv s 0 [] {}" using g ct v by (simp add: snap_inv_def)
  moreover have "rd_contents d1 = kd_data d" using AllocAligned_frame(4) [OF al] O(2) by (simp add: rd_contents_def)
  then have "\<forall>i < kDataRegionOffset. rd_contents d4 i = kd_data d i" by (simp add: ct w2 w3 kwrite_def)
  ultimately show ?thesis using v ct size by simp
qed

section \<open>A device that answers\<close>

text \<open>With room for the records, the writer reaches the end.\<close>

definition enc_ok :: "nat \<Rightarrow> nat \<Rightarrow> snap_enc \<Rightarrow> bool" where
  "enc_ok base e en \<longleftrightarrow> healthy (en_dev en) \<and> e \<le> size_bytes (en_dev en) \<and> 4096 dvd en_off en - base"

lemma visit_healthy:
  assumes inv: "enc_inv B base e all en" and B: "4096 dvd B" and ok: "enc_ok base e en"
    and room: "base + length all + 128 \<le> e" and key: "length k \<le> kSnapshotKeyMax"
  shows "\<exists>en'. snap_visit B e k v en = (kSuccess, en') \<and> enc_ok base e en'"
proof -
  obtain bs where I: "all = bs @ en_pending en" "en_off en = base + length bs"
    using inv by (auto simp: enc_inv_def)
  let ?p = "en_pending en @ record_bytes (EncodeSnapshotRecord k v)"
  have fits: "en_off en + length ?p \<le> e" using I room key by simp
  have wr: "RawDevice_WriteAt (en_dev en) (en_off en) ?p = (kSuccess, rd_update (en_dev en) (en_off en) ?p)"
    by (rule healthy_WriteAt) (use ok fits in \<open>auto simp: enc_ok_def\<close>)
  have "4096 dvd en_off en + B - base" if "4096 dvd en_off en - base" "4096 dvd B"
    using that I(2) by simp
  then show ?thesis
    using key fits ok B wr by (auto simp: snap_visit_def Let_def enc_ok_def)
qed

lemma ForEach_healthy:
  assumes B: "4096 dvd B" "128 dvd B"
  shows "enc_inv B base e all en \<Longrightarrow> base \<le> en_off en \<Longrightarrow> enc_ok base e en \<Longrightarrow> keys_ok idx \<Longrightarrow>
    base + length all + 128 * length idx \<le> e \<Longrightarrow>
    \<exists>en'. ForEach idx (snap_visit B e) en = (kSuccess, en') \<and> enc_ok base e en'"
proof (induction idx arbitrary: all en)
  case (Cons kv idx)
  obtain k v where kv: "kv = (k, v)" by fastforce
  have k: "length k \<le> kSnapshotKeyMax" "keys_ok idx" using Cons.prems(4) kv by auto
  obtain en1 where st: "snap_visit B e k v en = (kSuccess, en1)" "enc_ok base e en1"
    using visit_healthy [OF Cons.prems(1) B(1) Cons.prems(3) _ k(1)] Cons.prems(5) by auto
  have i1: "enc_inv B base e (all @ record_bytes (EncodeSnapshotRecord k v)) en1"
    using snap_visit_spec(2) [OF Cons.prems(1) B(2) Cons.prems(2) st(1)] by simp
  then have b1: "base \<le> en_off en1" by (auto simp: enc_inv_def)
  have "\<exists>en'. ForEach idx (snap_visit B e) en1 = (kSuccess, en') \<and> enc_ok base e en'"
    by (rule Cons.IH [OF i1 b1 st(2) k(2)]) (use Cons.prems(5) k in simp)
  then show ?case using kv st(1) by simp
qed simp

lemma flush_tail_healthy:
  assumes inv: "enc_inv B base e all en" and base: "base \<le> en_off en" and B: "B \<le> 2 ^ 38"
    and ok: "enc_ok base e en" and room: "base + length all \<le> e" "4096 dvd e - base"
  shows "\<exists>en'. flush_tail e en = (kSuccess, en') \<and> enc_ok base e en'"
proof -
  obtain bs where I: "all = bs @ en_pending en" "en_off en = base + length bs" "length (en_pending en) < B"
    using inv by (auto simp: enc_inv_def)
  let ?u = "length (en_pending en)"
  let ?b = "AlignUp ?u kSnapshotBlockSize"
  have x: "?u + kSnapshotBlockSize \<le> 2 ^ 64" "0 < kSnapshotBlockSize" using I(3) B by (simp_all add: kSnapshotBlockSize_def)
  have "4096 dvd (e - base) - (en_off en - base)" by (rule dvd_diff_nat) (use ok room(2) in \<open>simp_all add: enc_ok_def\<close>)
  moreover have "(e - base) - (en_off en - base) = e - en_off en" using base by simp
  ultimately have "4096 dvd e - en_off en" by simp
  then have le: "?b \<le> e - en_off en"
    using AlignUp_least [OF x(2,1)] I(1,2) room(1) by (simp add: kSnapshotBlockSize_def)
  have ge: "?u \<le> ?b" by (rule AlignUp_ge [OF x(2,1)])
  let ?buf = "en_pending en @ zeros (?b - ?u)"
  have "en_off en + ?b \<le> e" using le I(1,2) room(1) by simp
  then have wr: "RawDevice_WriteAt (en_dev en) (en_off en) ?buf = (kSuccess, rd_update (en_dev en) (en_off en) ?buf)"
    by (intro healthy_WriteAt) (use ok ge in \<open>auto simp: enc_ok_def\<close>)
  show ?thesis
    using \<open>en_off en + ?b \<le> e\<close> ok wr by (auto simp: flush_tail_def Let_def enc_ok_def)
qed

lemma Write_healthy:
  assumes r: "snap_ready s" and keys: "keys_ok idx" and room: "4096 + 128 * length idx \<le> sn_slot_size s"
  shows "\<exists>s'. Snapshot_Write s cov (ForEach idx) now = (kSuccess, s') \<and> snap_ready s'"
proof -
  let ?t = "snap_target s"
  let ?slot = "snap_slot s ?t"
  let ?e = "?slot + sn_slot_size s"
  let ?B = "RoundUpBufferSize (sn_buffer_size s) kSnapshotBlockSize"
  let ?base = "?slot + 4096"
  have g: "snap_geo s" and h: "healthy (sn_dev s)" using r by (simp_all add: snap_ready_def)
  have u: "length (sn_uuid s) = kUuidBytes" and d: "4096 dvd sn_slot_size s" and B: "4096 dvd ?B" "128 dvd ?B" "0 < ?B" "?B \<le> 2 ^ 38"
    using g RoundUp_block [of "sn_buffer_size s"] by (auto simp: snap_geo_def)
  have tt: "(if sn_active s = 0 then 1 else 0) = ?t" by (simp add: snap_target_def)
  have end_in: "?e \<le> size_bytes (sn_dev s)"
    using snap_ready_slot [OF r, of ?t "sn_slot_size s"] by (simp add: snap_target_def)
  let ?en0 = "\<lparr>en_dev = sn_dev s, en_pending = [], en_off = ?slot + kSnapshotSlotHeaderSize, en_count = 0, en_crc = 0xFFFFFFFF\<rparr>"
  have i0: "enc_inv ?B ?base ?e [] ?en0" "enc_ok ?base ?e ?en0"
    using B room end_in h by (simp_all add: enc_inv_def enc_ok_def kSnapshot_numbers)
  obtain en1 where en1: "ForEach idx (snap_visit ?B ?e) ?en0 = (kSuccess, en1)" "enc_ok ?base ?e en1"
    using ForEach_healthy [OF B(1,2) i0(1) _ i0(2) keys] room by (auto simp: kSnapshot_numbers)
  have i1: "enc_inv ?B ?base ?e (recs idx) en1" "?base \<le> en_off en1"
    using ForEach_spec [OF B(2) i0(1) _ en1(1)] by (auto simp: kSnapshot_numbers)
  obtain en2 where en2: "flush_tail ?e en1 = (kSuccess, en2)" "enc_ok ?base ?e en2"
    using flush_tail_healthy [OF i1 B(4) en1(2)] room keys d by (auto simp: dvd_diff_nat)
  let ?hdr = "header_bytes (slot_header_for (sn_uuid s) (sn_next_gen s) cov (en_count en2) (NOT (en_crc en2)) now)"
  have hl: "length ?hdr = 4096" using slot_header_for_wf(1) [OF u] by (simp add: header_bytes_length)
  have wr: "RawDevice_WriteAt (en_dev en2) ?slot ?hdr = (kSuccess, rd_update (en_dev en2) ?slot ?hdr)"
    by (rule healthy_WriteAt) (use en2(2) room hl in \<open>auto simp: enc_ok_def\<close>)
  have sy: "RawDevice_Sync (rd_update (en_dev en2) ?slot ?hdr) = (kSuccess, rd_synced (rd_update (en_dev en2) ?slot ?hdr))"
    by (rule healthy_Sync) (use en2(2) in \<open>simp add: enc_ok_def\<close>)
  have op: "RawDevice_is_open (sn_dev s)" using h by (simp add: healthy_def RawDevice_is_open_def)
  define s' where "s' = s\<lparr>sn_dev := rd_synced (rd_update (en_dev en2) ?slot ?hdr), sn_active := ?t, sn_last_covered := cov,
        sn_entry_count := en_count en2, sn_next_gen := (sn_next_gen s + 1) mod 2 ^ 64\<rparr>"
  have run: "Snapshot_Write s cov (ForEach idx) now = (kSuccess, s')"
    unfolding Snapshot_Write_def Let_def tt using op healthy_AllocAligned [OF h] en1(1) en2(1) wr sy by (simp add: s'_def)
  have "size_bytes (sn_dev s') = size_bytes (sn_dev s)"
  proof -
    have "enc_frame ?base ?e (sn_dev s) (en_dev en1)" using ForEach_spec [OF B(2) i0(1) _ en1(1)] by (simp add: kSnapshot_numbers)
    moreover have "enc_frame ?base ?e (en_dev en1) (en_dev en2)" by (rule flush_tail_spec(1) [OF i1 B(4) en2(1)])
    ultimately show ?thesis by (simp add: enc_frame_def s'_def)
  qed
  moreover have "healthy (sn_dev s')" using en2(2) by (simp add: s'_def enc_ok_def)
  moreover have "snap_geo s'" "sn_slot_size s' = sn_slot_size s" using g by (simp_all add: s'_def snap_geo_def)
  ultimately have "snap_ready s'" using r by (simp add: snap_ready_def)
  then show ?thesis using run by blast
qed

section \<open>A concrete device\<close>

lemma Open_create_healthy:
  assumes d: "kd_script d = []" "kd_size d < 2 ^ 63" and o: "o_create opts" "o_snapshot_buffer_size opts \<le> 2 ^ 38"
    and u: "length (sb_engine_uuid sb) = kUuidBytes" and S: "SnapshotSlotSize (kd_size d) \<noteq> 0"
    "(kSnapshotSlotHeaderSize + AlignUp (unat (sb_block_count sb) * kSnapshotRecordSize mod 2 ^ 64)
       kSnapshotBlockSize) mod 2 ^ 64 \<le> SnapshotSlotSize (kd_size d)"
  shows "\<exists>s. Snapshot_Open (snapshot_fresh d) opts sb = Some (kSuccess, s) \<and> snap_ready s \<and> size_bytes (sn_dev s) = kd_size d"
proof -
  let ?dv = "\<lparr>fd_open = True, size_bytes = kd_size d, kdev = d\<rparr>"
  let ?S = "SnapshotSlotSize (kd_size d)"
  have h: "healthy ?dv" using d by (simp add: healthy_def)
  have fit: "kDataRegionOffset + 2 * ?S \<le> kd_size d" using SnapshotSlotSize_le [of "kd_size d"] S by simp
  obtain q where "?S = 4096 * q" using SnapshotSlotSize_dvd by (auto simp: dvd_def)
  then have S1: "4096 \<le> ?S" using S by (cases q) auto
  let ?z = "zeros kSnapshotSlotHeaderSize"
  let ?d1 = "rd_update ?dv kDataRegionOffset ?z"
  let ?d2 = "rd_update ?d1 (kDataRegionOffset + ?S) ?z"
  have w: "RawDevice_WriteAt ?dv kDataRegionOffset ?z = (kSuccess, ?d1)"
    "RawDevice_WriteAt ?d1 (kDataRegionOffset + ?S) ?z = (kSuccess, ?d2)" "RawDevice_Sync ?d2 = (kSuccess, rd_synced ?d2)"
    using h fit S1 by (simp_all add: healthy_WriteAt healthy_Sync kSnapshot_numbers)
  have op: "RawDevice_Open (sn_dev (snapshot_fresh d)) = (kSuccess, ?dv)"
    using healthy_Open [OF d(1)] by (simp add: snapshot_fresh_def)
  obtain s where run: "Snapshot_Open (snapshot_fresh d) opts sb = Some (kSuccess, s)" and sd: "sn_dev s = rd_synced ?d2"
    using S o(1) by (auto simp: Snapshot_Open_def op Let_def RawDevice_SizeBytes_def open_create_def
        healthy_AllocAligned [OF h] w)
  have I: "snap_inv s 0 [] {}" "sn_slot_size s = ?S" using Open_create_inv [OF run o(1) refl o(2) u d(2)] by auto
  have "snap_ready s" using I fit h sd by (simp add: snap_ready_def snap_inv_def)
  moreover have "size_bytes (sn_dev s) = kd_size d" using sd by (simp add: rd_synced_def rd_update_def)
  ultimately show ?thesis using run by blast
qed

definition snap_demo_dev :: kdev where
  "snap_demo_dev = \<lparr>kd_size = kValueSize, kd_data = (\<lambda>_. 0), kd_durable = (\<lambda>_. 0), kd_script = []\<rparr>"

definition snap_demo_opts :: "bool \<Rightarrow> options" where
  "snap_demo_opts create = \<lparr>o_create = create, o_wal_level = WalSync, o_wal_buffer_size = 32768,
     o_snapshot_threshold_bytes = 65536, o_snapshot_buffer_size = 65536, o_verify_value_crc = True\<rparr>"

definition snap_demo_sb :: super_block where
  "snap_demo_sb = sb_zero\<lparr>sb_block_count := 4\<rparr>"

definition snap_demo :: snapshot where
  "snap_demo = snd (the (Snapshot_Open (snapshot_fresh snap_demo_dev) (snap_demo_opts True) snap_demo_sb))"

definition snap_demo_idx :: entries where
  "snap_demo_idx = [([107, 49], \<lparr>block = BlockId 9, timestamp = 4, crc = 3, state = Active\<rparr>)]"

lemma snap_demo_numbers:
  "SnapshotSlotSize kValueSize = 520192" "length (sb_engine_uuid snap_demo_sb) = kUuidBytes"
  "(kSnapshotSlotHeaderSize + AlignUp (unat (sb_block_count snap_demo_sb) * kSnapshotRecordSize mod 2 ^ 64)
       kSnapshotBlockSize) mod 2 ^ 64 = 8192" "o_create (snap_demo_opts b) = b"
  "o_snapshot_buffer_size (snap_demo_opts b) \<le> 2 ^ 38" "keys_ok snap_demo_idx"
  by (simp_all add: SnapshotSlotSize_def kValueSize_def kDataRegionOffset_8K kSnapshotBlockSize_def snap_demo_sb_def
      sb_zero_def kSnapshotSlotHeaderSize_def kSnapshotRecordSize_def AlignUp_def snap_demo_opts_def
      snap_demo_idx_def kSnapshotKeyMax_def kUuidBytes_def)

lemma snap_demo_open:
  "Snapshot_Open (snapshot_fresh snap_demo_dev) (snap_demo_opts True) snap_demo_sb = Some (kSuccess, snap_demo)"
  "snap_ready snap_demo"
proof -
  have k: "kd_script snap_demo_dev = []" "kd_size snap_demo_dev = kValueSize" by (simp_all add: snap_demo_dev_def)
  obtain s where "Snapshot_Open (snapshot_fresh snap_demo_dev) (snap_demo_opts True) snap_demo_sb = Some (kSuccess, s)"
    "snap_ready s"
    using Open_create_healthy [of snap_demo_dev "snap_demo_opts True" snap_demo_sb] snap_demo_numbers k
    by (auto simp: kValueSize_def)
  then show "Snapshot_Open (snapshot_fresh snap_demo_dev) (snap_demo_opts True) snap_demo_sb = Some (kSuccess, snap_demo)"
    "snap_ready snap_demo" by (simp_all add: snap_demo_def)
qed

lemma snap_demo_inv: "snap_inv snap_demo 0 [] {}" "sn_slot_size snap_demo = 520192" "sn_uuid snap_demo = sb_engine_uuid snap_demo_sb"
  "sn_active snap_demo = -1" "sn_next_gen snap_demo = 1"
proof -
  have k: "kd_size snap_demo_dev = kValueSize" by (simp add: snap_demo_dev_def)
  note O = Open_create_inv [OF snap_demo_open(1) _ refl]
  show i: "snap_inv snap_demo 0 [] {}" and "sn_slot_size snap_demo = 520192" "sn_uuid snap_demo = sb_engine_uuid snap_demo_sb"
    and a: "sn_active snap_demo = -1" "sn_next_gen snap_demo = 1"
    using O snap_demo_numbers k by (simp_all add: kValueSize_def)
qed

definition snap_demo1 :: snapshot where
  "snap_demo1 = snd (Snapshot_Write snap_demo 1 (ForEach snap_demo_idx) 7)"

lemma snap_demo1_run: "Snapshot_Write snap_demo 1 (ForEach snap_demo_idx) 7 = (kSuccess, snap_demo1)" "snap_ready snap_demo1"
proof -
  have "4096 + 128 * length snap_demo_idx \<le> sn_slot_size snap_demo" by (simp add: snap_demo_inv(2) snap_demo_idx_def)
  then obtain s' where "Snapshot_Write snap_demo 1 (ForEach snap_demo_idx) 7 = (kSuccess, s')" "snap_ready s'"
    using Write_healthy [OF snap_demo_open(2) snap_demo_numbers(6)] by blast
  then show "Snapshot_Write snap_demo 1 (ForEach snap_demo_idx) 7 = (kSuccess, snap_demo1)" "snap_ready snap_demo1"
    by (simp_all add: snap_demo1_def)
qed

lemma snap_demo1_inv: "snap_inv snap_demo1 1 snap_demo_idx {}" "rd_durable (sn_dev snap_demo1) = rd_contents (sn_dev snap_demo1)"
  using Write_step [OF snap_demo_inv(1) _ _ snap_demo1_run(1)] snap_demo_inv(5) by simp_all

lemma snap_demo1_holds: "slot_holds snap_demo1 (rd_contents (sn_dev snap_demo1)) 0 (1, 1, snap_demo_idx)"
  "sn_active snap_demo1 = 0" "sn_slot_size snap_demo1 = 520192" "sn_uuid snap_demo1 = sb_engine_uuid snap_demo_sb"
  "sn_next_gen snap_demo1 = 2"
proof -
  have g: "snap_geo snap_demo" using snap_demo_open(2) by (simp add: snap_ready_def)
  obtain d where d: "slot_holds snap_demo (rd_contents d) 0 (1, 1, snap_demo_idx)"
    "snap_demo1 = snap_demo\<lparr>sn_dev := d, sn_active := 0, sn_last_covered := 1,
       sn_entry_count := length snap_demo_idx, sn_next_gen := Suc (Suc 0)\<rparr>"
    using Write_effect [OF g _ _ snap_demo1_run(1)] snap_demo_inv(4,5) by (auto simp: snap_target_def)
  have "slot_holds snap_demo1 = slot_holds snap_demo" unfolding d(2) by (rule view_cong) simp_all
  moreover have "sn_dev snap_demo1 = d" by (simp add: d(2))
  ultimately show "slot_holds snap_demo1 (rd_contents (sn_dev snap_demo1)) 0 (1, 1, snap_demo_idx)" using d(1) by simp
  show "sn_active snap_demo1 = 0" "sn_slot_size snap_demo1 = 520192" "sn_uuid snap_demo1 = sb_engine_uuid snap_demo_sb"
    "sn_next_gen snap_demo1 = 2" using snap_demo_inv by (simp_all add: d(2))
qed

lemma snap_demo1_slot1: "\<not> slot_ok snap_demo1 (header_of_bytes (kread (rd_contents (sn_dev snap_demo1)) (snap_slot snap_demo1 1) 4096))"
proof -
  have g: "snap_geo snap_demo" using snap_demo_open(2) by (simp add: snap_ready_def)
  obtain d where d: "\<forall>i. i < snap_slot snap_demo 0 \<or> snap_slot snap_demo 0 + sn_slot_size snap_demo \<le> i \<longrightarrow>
       rd_contents d i = rd_contents (sn_dev snap_demo) i"
    "snap_demo1 = snap_demo\<lparr>sn_dev := d, sn_active := 0, sn_last_covered := 1,
       sn_entry_count := length snap_demo_idx, sn_next_gen := Suc (Suc 0)\<rparr>"
    using Write_effect [OF g _ _ snap_demo1_run(1)] snap_demo_inv(4,5) by (auto simp: snap_target_def)
  have "slot_stale snap_demo (rd_contents (sn_dev snap_demo)) 1 0 {}"
    using snap_demo_inv(1,4) by (auto simp: snap_inv_def snap_image_def)
  then have "slot_stale snap_demo (rd_contents d) 1 0 {}"
    using region_unchanged(2) [OF g _ _ _ d(1)] by simp
  then have no: "\<not> slot_ok snap_demo (header_of_bytes (kread (rd_contents d) (snap_slot snap_demo 1) 4096))"
    by (auto simp: slot_stale_def Let_def)
  have "slot_ok snap_demo1 = slot_ok snap_demo" "snap_slot snap_demo1 = snap_slot snap_demo"
    unfolding d(2) by (rule view_cong; simp)+
  moreover have "sn_dev snap_demo1 = d" by (simp add: d(2))
  ultimately show ?thesis using no by simp
qed

text \<open>The machine restarted on a given medium.\<close>

definition snap_demo_restart :: "(nat \<Rightarrow> u8) \<Rightarrow> kdev" where
  "snap_demo_restart im = \<lparr>kd_size = kValueSize, kd_data = im, kd_durable = im, kd_script = []\<rparr>"

lemma snap_demo_config: "snap_config snap_demo1 (snap_demo_restart im) (snap_demo_opts False) snap_demo_sb"
  unfolding snap_config_def
  using snap_demo_numbers snap_demo1_holds(3,4) by (simp add: snap_demo_restart_def)

section \<open>Properties\<close>

text \<open>C24: writing a snapshot, for every pattern of failing device operations. If it reports
  success, the new entries are the device's snapshot, on the medium as well, and nothing of
  the device is newer. If it reports failure, the previous snapshot is still the device's
  snapshot, in the cache and on the medium, and the unfinished attempt is confined to the
  other slot (given that the header block is written whole or not at all); the caller's view
  is unchanged.\<close>

theorem snapshot_write_step:
  assumes inv: "snap_inv s cov idx W" and cov': "cov' < 2 ^ 64" and gen: "sn_next_gen s + 1 < 2 ^ 64"
    and run: "Snapshot_Write s cov' (ForEach idx') now = (c, s')"
    and atomic: "c \<noteq> kSuccess \<longrightarrow> header_atomic s s' (sn_next_gen s, cov', idx')"
  shows "(c = kSuccess \<longrightarrow> snap_inv s' cov' idx' {} \<and> rd_durable (sn_dev s') = rd_contents (sn_dev s'))
    \<and> (c \<noteq> kSuccess \<longrightarrow> snap_inv s' cov idx (insert (sn_next_gen s, cov', idx') W)
         \<and> c \<in> {kSnapshotWriteFailed, kDeviceTooSmall} \<and> s' = s\<lparr>sn_dev := sn_dev s'\<rparr>)"
  by (rule Write_step [OF assms])

theorem snapshot_write_step_witness:
  "fst (Snapshot_Write snap_demo 1 (ForEach snap_demo_idx) 7) = kSuccess
   \<and> snap_inv (snd (Snapshot_Write snap_demo 1 (ForEach snap_demo_idx) 7)) 1 snap_demo_idx {}"
  using snapshot_write_step [OF snap_demo_inv(1) _ _ snap_demo1_run(1)] snap_demo_inv(5) snap_demo1_run(1) by simp

text \<open>C23: recovery after a power failure, from any state of the device reached by writes, failed
  ones included. Opening finds the last snapshot that reported success or a later attempt
  that is complete (with no attempt outstanding: exactly the last one); loading delivers its
  entries, all of them, in the order they were written; and the device is again in a state
  from which the next snapshot is safe. The one exception, which the code accepts by refusing
  to open, is a torn attempt when no snapshot has ever succeeded.\<close>

theorem snapshot_crash_recover:
  assumes inv: "snap_inv s cov idx W" and cr: "snap_crash s (kd_data d)"
    and honest: "crc_honest s (kd_data d) W" and gen: "sn_next_gen s + 1 < 2 ^ 64"
    and cf: "snap_config s d opts sb"
  shows "((\<exists>s' cov' idx' W'. Snapshot_Open (snapshot_fresh d) opts sb = Some (kSuccess, s')
      \<and> ((cov', idx') = (cov, idx) \<or> (\<exists>gen'. (gen', cov', idx') \<in> W)) \<and> W' \<subseteq> W \<and> snap_inv s' cov' idx' W'
      \<and> Snapshot_Load s' visitor st = (case ForEach idx' visitor st of (c, st') \<Rightarrow> Some (c, st', s')))
    \<or> (sn_active s = -1 \<and> W \<noteq> {} \<and> (\<exists>s'. Snapshot_Open (snapshot_fresh d) opts sb = Some (kSnapshotCorrupted, s'))))
    \<and> (W = {} \<longrightarrow> (\<exists>s'. Snapshot_Open (snapshot_fresh d) opts sb = Some (kSuccess, s') \<and> snap_inv s' cov idx {}
         \<and> Snapshot_Load s' visitor st = (case ForEach idx visitor st of (c, st') \<Rightarrow> Some (c, st', s'))))"
proof -
  have g: "snap_geo s" using inv by (simp add: snap_inv_def)
  obtain gg where G: "gg < sn_next_gen s" "snap_image s (kd_data d) gg cov idx W"
    using crash_snap_image [OF inv cr] by blast
  note R = snap_recover [OF g G(2) G(1) gen honest cf, of visitor st]
  then show ?thesis by auto
qed

theorem snapshot_crash_recover_witness:
  "\<exists>s'. Snapshot_Open (snapshot_fresh (snap_demo_restart (rd_contents (sn_dev snap_demo1))))
        (snap_demo_opts False) snap_demo_sb = Some (kSuccess, s')
    \<and> Snapshot_Load s' (\<lambda>k v st. (kSuccess, st @ [(k, v)])) [] = Some (kSuccess, snap_demo_idx, s')"
proof -
  let ?d = "snap_demo_restart (rd_contents (sn_dev snap_demo1))"
  have "snap_crash snap_demo1 (kd_data ?d)"
    by (simp add: snap_crash_def crash_image_def snap_demo_restart_def)
  moreover have "crc_honest snap_demo1 (kd_data ?d) {}" by (simp add: crc_honest_def)
  ultimately show ?thesis
    using snapshot_crash_recover [OF snap_demo1_inv(1) _ _ _ snap_demo_config, of "rd_contents (sn_dev snap_demo1)"
      "\<lambda>k v st. (kSuccess, st @ [(k, v)])" "[]"] snap_demo1_holds(5)
    by (auto simp: snap_demo_idx_def)
qed

text \<open>C39: a power failure during the very first snapshot can make the group unopenable. Header and
  records are made durable by one sync, so the header may survive without its records; with
  no older snapshot to fall back to, opening refuses although the log still holds everything
  since the creation.\<close>

theorem first_snapshot_torn_refused:
  assumes g: "snap_geo s" and cf: "snap_config s d opts sb"
    and hdr: "is_header s (kd_data d) 0 (gen, cov, idx)" "att_ok s (gen, cov, idx)"
    and none: "\<not> slot_ok s (header_of_bytes (kread (kd_data d) (snap_slot s 1) 4096))"
    and torn: "CRC32 (kread (kd_data d) (snap_slot s 0 + 4096) (128 * length idx)) \<noteq> CRC32 (recs idx)"
  shows "\<exists>s'. Snapshot_Open (snapshot_fresh d) opts sb = Some (kSnapshotCorrupted, s')"
proof -
  obtain s0 where S: "Snapshot_Open (snapshot_fresh d) opts sb = snap_judge s0 (slot_head s0 0) (slot_head s0 1)"
    "snap_ready s0" "rd_contents (sn_dev s0) = kd_data d"
    "sn_slot_a s0 = sn_slot_a s" "sn_slot_b s0 = sn_slot_b s" "sn_slot_size s0 = sn_slot_size s" "sn_uuid s0 = sn_uuid s"
    using Open_judge [OF g cf] by auto
  note V = view_cong [OF S(4-7)]
  have g0: "snap_geo s0" using S(2) by (simp add: snap_ready_def)
  have b2: "att_ok s0 (gen, cov, idx)" "is_header s0 (rd_contents (sn_dev s0)) 0 (gen, cov, idx)"
    using hdr by (simp_all add: V S)
  note B = header_facts [OF g0 b2, folded slot_head_def]
  have no1: "\<not> slot_ok s0 (slot_head s0 1)" using none by (simp add: slot_head_def S V)
  have vT: "VerifySlotData s0 0 (slot_head s0 0) = Some (kSnapshotCorrupted, s0)"
    using VerifySlotData_healthy [OF S(2), of 0 "slot_head s0 0"] B(5,6) b2(1) torn by (simp add: att_ok_def S V)
  have "snap_judge s0 (slot_head s0 0) (slot_head s0 1) = Some (snap_failed kSnapshotCorrupted s0)"
    using B(1) no1 vT by (simp add: snap_judge_def snap_candidate_def Let_def)
  then show ?thesis using S(1) by (simp add: snap_failed_def)
qed

theorem first_snapshot_torn_refused_witness:
  "\<exists>s'. Snapshot_Open (snapshot_fresh (snap_demo_restart ((rd_contents (sn_dev snap_demo1))(kDataRegionOffset + 4096 := 0))))
     (snap_demo_opts False) snap_demo_sb = Some (kSnapshotCorrupted, s')"
proof -
  let ?f = "rd_contents (sn_dev snap_demo1)"
  let ?im = "?f(kDataRegionOffset + 4096 := 0)"
  let ?s = "snap_demo1"
  have g: "snap_geo ?s" using snap_demo1_inv(1) by (simp add: snap_inv_def)
  then have a: "snap_slot ?s 0 = kDataRegionOffset" "snap_slot ?s 1 = kDataRegionOffset + 520192"
    using snap_demo1_holds(3) by (simp_all add: snap_geo_def snap_slot_def)
  have H: "is_header ?s ?f 0 (1, 1, snap_demo_idx)" "att_ok ?s (1, 1, snap_demo_idx)"
    "kread ?f (kDataRegionOffset + 4096) 128 = recs snap_demo_idx"
    using snap_demo1_holds(1) by (simp_all add: slot_holds_def a snap_demo_idx_def)
  have k0: "kread ?im kDataRegionOffset 4096 = kread ?f kDataRegionOffset 4096"
    "kread ?im (kDataRegionOffset + 520192) 4096 = kread ?f (kDataRegionOffset + 520192) 4096"
    by (rule kread_cong, simp)+
  have hdr: "is_header ?s ?im 0 (1, 1, snap_demo_idx)" using H(1) by (simp add: is_header_def a k0)
  have none: "\<not> slot_ok ?s (header_of_bytes (kread ?im (snap_slot ?s 1) 4096))"
    using snap_demo1_slot1 by (simp add: a k0)
  have n1: "length snap_demo_idx = 1" by (simp add: snap_demo_idx_def)
  have len: "length (recs snap_demo_idx) = 128" using snap_demo_numbers(6) n1 by simp
  have upd: "kread ?im (kDataRegionOffset + 4096) 128 = (recs snap_demo_idx)[0 := 0]"
    by (rule nth_equalityI) (auto simp: H(3) [symmetric] nth_list_update)
  have "recs snap_demo_idx ! 0 \<noteq> 0"
  proof -
    have "le_bytes 2 w = ucast w # le_bytes 1 (drop_bit 8 w)" for w :: u16
      using le_bytes_Suc [of 1 w] by (simp add: numeral_2_eq_2)
    then show ?thesis by (simp add: snap_demo_idx_def record_bytes_def EncodeSnapshotRecord_def)
  qed
  then have torn: "CRC32 (kread ?im (snap_slot ?s 0 + 4096) (128 * length snap_demo_idx)) \<noteq> CRC32 (recs snap_demo_idx)"
    using CRC32_byte_change [of 0 "recs snap_demo_idx" 0] len upd by (simp add: a n1)
  show ?thesis
    using first_snapshot_torn_refused [OF g snap_demo_config, of ?im 1 1 snap_demo_idx] hdr H(2) none torn
    by (simp add: snap_demo_restart_def)
qed

text \<open>Creating the device establishes the empty snapshot state, on the medium as well, so that
  nothing written before the creation is ever taken for a snapshot.\<close>

theorem snapshot_create_inv:
  assumes run: "Snapshot_Open (snapshot_fresh d) opts sb = Some (c, s)" and cr: "o_create opts" and ok: "c = kSuccess"
    and bs: "o_snapshot_buffer_size opts \<le> 2 ^ 38" and uu: "length (sb_engine_uuid sb) = kUuidBytes"
    and sz: "kd_size d < 2 ^ 63"
  shows "snap_inv s 0 [] {} \<and> rd_durable (sn_dev s) = rd_contents (sn_dev s) \<and> sn_active s = -1
    \<and> sn_next_gen s = 1 \<and> sn_uuid s = sb_engine_uuid sb \<and> sn_slot_size s = SnapshotSlotSize (kd_size d)
    \<and> (\<forall>i < kDataRegionOffset. rd_contents (sn_dev s) i = kd_data d i)"
  by (rule Open_create_inv [OF assms])

theorem snapshot_create_inv_witness:
  "Snapshot_Open (snapshot_fresh snap_demo_dev) (snap_demo_opts True) snap_demo_sb = Some (kSuccess, snap_demo)
   \<and> snap_inv snap_demo 0 [] {}"
  using snapshot_create_inv [OF snap_demo_open(1)] snap_demo_open(1) snap_demo_numbers
  by (simp add: snap_demo_dev_def kValueSize_def)

end
