(* ===== verification/Cabe_Reactor.thy ===== *)
theory Cabe_Reactor
  imports Cabe_Wal Cabe_Snapshot Cabe_BlockAlloc Cabe_MetaIndex Cabe_Buffers Cabe_IoBackend
begin

text \<open>
  \<open>engine/reactor.cpp\<close>: the execution bodies of one device's operations. The reactor owns the
  device context (\<open>engine/device_context.h\<close>) and runs one operation at a time, so each body is
  a function on its state. The backend is the synchronous one. The event loop and its inbox
  are in \<open>Cabe_ReactorLoop\<close>.
\<close>

section \<open>State\<close>

record device_context =
  dc_io :: sync_io
  dc_wal :: wal
  dc_snapshot :: snapshot
  dc_pool :: buffer_pool
  dc_alloc :: ring
  dc_index :: hash_index
  dc_super_block :: super_block

text \<open>The reactor's members beside its device context. \<open>rx_clock\<close> holds the successive readings
  of the wall clock and \<open>rx_ticks\<close> counts the readings taken.\<close>

record reactor = device_context +
  rx_options :: options
  rx_close_result :: rc
  rx_dc_closed :: bool
  rx_clock :: "nat \<Rightarrow> u64"
  rx_ticks :: nat

text \<open>The components keep a pointer to the options; the model's components keep the fields they
  read through it, and whoever writes the options rebinds them.\<close>

definition Reactor_new :: "device_context \<Rightarrow> options \<Rightarrow> (nat \<Rightarrow> u64) \<Rightarrow> reactor" where
  "Reactor_new dc opts clock =
     device_context.extend
       (dc\<lparr>dc_io := SyncIo_RebindOptions (dc_io dc) (Some (o_wal_level opts)),
           dc_wal := Wal_RebindOptions (dc_wal dc) (o_wal_level opts),
           dc_snapshot := Snapshot_RebindOptions (dc_snapshot dc) opts\<rparr>)
       (reactor.fields opts kSuccess False clock 0)"

definition GetWallTimeNs :: "reactor \<Rightarrow> u64 \<times> reactor" where
  "GetWallTimeNs r = (rx_clock r (rx_ticks r), r\<lparr>rx_ticks := rx_ticks r + 1\<rparr>)"

section \<open>Operation nodes\<close>

text \<open>The operation type is an 8-bit enumeration. \<open>op_memory\<close> is the caller's memory, which
  stays as it is while the caller is blocked; the value is a view into it. The output buffer of
  a get is the second component of the execution's result.\<close>

datatype op_type = OpType u8

abbreviation OpGet :: op_type where "OpGet \<equiv> OpType 1"
abbreviation OpStop :: op_type where "OpStop \<equiv> OpType 2"
abbreviation OpPut :: op_type where "OpPut \<equiv> OpType 3"
abbreviation OpDelete :: op_type where "OpDelete \<equiv> OpType 4"
abbreviation OpSetWalLevel :: op_type where "OpSetWalLevel \<equiv> OpType 5"
abbreviation OpSnapshot :: op_type where "OpSnapshot \<equiv> OpType 6"

record op_node =
  op_kind :: op_type
  op_key :: bytes
  op_value :: data_view
  op_value_source :: put_value_source
  op_new_level :: wal_level
  op_memory :: "nat \<Rightarrow> u8"

definition op_bytes :: "op_node \<Rightarrow> bytes" where
  "op_bytes op = kread (op_memory op) (dv_addr (op_value op)) kValueSize"

section \<open>Snapshots and the log\<close>

definition DoSnapshot :: "reactor \<Rightarrow> rc \<times> reactor" where
  "DoSnapshot r =
     (let r0 = r\<lparr>dc_snapshot := NoteTriggerAttempt (dc_snapshot r) (last_seq (dc_wal r))\<rparr> in
      case Flush (dc_wal r0) of (c, w) \<Rightarrow>
      let r1 = r0\<lparr>dc_wal := w\<rparr> in
      if c \<noteq> kSuccess then (c, r1) else
      let covered_seq = last_seq w; boundary = reclaim_boundary w in
      case GetWallTimeNs r1 of (now, r2) \<Rightarrow>
      case Snapshot_Write (dc_snapshot r2) covered_seq (ForEach (dc_index r2)) now of (c2, s) \<Rightarrow>
      let r3 = r2\<lparr>dc_snapshot := s\<rparr> in
      if c2 \<noteq> kSuccess then (c2, r3) else
      case ReclaimUpTo (dc_wal r3) boundary of (rrc, w2) \<Rightarrow> (kSuccess, r3\<lparr>dc_wal := w2\<rparr>))"

definition RequestSnapshot :: "reactor \<Rightarrow> reactor" where
  "RequestSnapshot r = snd (DoSnapshot r)"

definition MaybeRequestSnapshot :: "reactor \<Rightarrow> reactor" where
  "MaybeRequestSnapshot r =
     (let grown = ((last_seq (dc_wal r) + 2 ^ 64 - sn_last_trigger (dc_snapshot r)) mod 2 ^ 64
                   * kWalFrameSize) mod 2 ^ 64
      in if o_snapshot_threshold_bytes (rx_options r) \<le> grown then RequestSnapshot r else r)"

definition WriteWalRescuing :: "reactor \<Rightarrow> wal_entry \<Rightarrow> rc \<times> reactor" where
  "WriteWalRescuing r e =
     (case WriteWal (dc_wal r) e of (c, w) \<Rightarrow>
      let r1 = r\<lparr>dc_wal := w\<rparr> in
      if c \<noteq> kWalFull then (c, r1) else
      case DoSnapshot r1 of (c2, r2) \<Rightarrow>
      if c2 \<noteq> kSuccess then (kWalFull, r2) else
      case WriteWal (dc_wal r2) e of (c3, w3) \<Rightarrow> (c3, r2\<lparr>dc_wal := w3\<rparr>))"

section \<open>Get\<close>

definition ExecuteGet :: "reactor \<Rightarrow> op_node \<Rightarrow> rc \<times> bytes option \<times> reactor" where
  "ExecuteGet r op =
     (case Lookup (dc_index r) (op_key op) of (c, found) \<Rightarrow>
      if c \<noteq> kSuccess then (c, None, r) else
      let meta = the found in
      case Allocate (dc_pool r) of
        (None, p) \<Rightarrow> (kEnginePoolExhausted, None, r\<lparr>dc_pool := p\<rparr>)
      | (Some buf, p) \<Rightarrow>
        (case SyncIo_Read (dc_io r) (unat (block_idx (block meta))) of (c2, bs, io) \<Rightarrow>
         let r1 = r\<lparr>dc_io := io, dc_pool := Free p buf\<rparr> in
         if c2 \<noteq> kSuccess then (c2, None, r1)
         else if CRC32 bs \<noteq> crc meta then (kEngineDataCorrupted, None, r1)
         else (kSuccess, Some bs, r1)))"

section \<open>Put\<close>

definition DefaultBackendDirectWriteCaps :: backend_direct_write_caps where
  "DefaultBackendDirectWriteCaps =
     \<lparr>allow_external_value_memory = True, external_memory_alignment = 4096\<rparr>"

datatype io_write_buffer_kind = ExternalMemory | ValueBufferSlot | CopyFallbackBuffer

record io_write_buffer =
  iw_data :: bytes
  iw_kind :: io_write_buffer_kind
  iw_device_id :: device_id
  iw_pool_id :: u64
  iw_slot_index :: u32
  iw_slot_generation :: u32

text \<open>The buffer handed to the backend, and the staging buffer leased for it (none on the direct
  path); \<open>None\<close> when the pool is exhausted. A copy has the bytes of the original.\<close>

definition StagePut :: "buffer_pool \<Rightarrow> op_node \<Rightarrow> (io_write_buffer \<times> nat option) option \<times> buffer_pool" where
  "StagePut p op =
     (let path = BuildPutWritePlan (op_value op) (op_value_source op) DefaultBackendDirectWriteCaps;
          src = op_value_source op;
          slot = (path = Direct \<and> src_kind src = TargetKeyValueBuffer);
          buf = \<lparr>iw_data = op_bytes op,
                 iw_kind = (if slot then ValueBufferSlot
                            else if path = CopyFallback then CopyFallbackBuffer else ExternalMemory),
                 iw_device_id = (if slot then src_owner_device_id src else 0),
                 iw_pool_id = (if slot then src_pool_id src else 0),
                 iw_slot_index = (if slot then src_slot_index src else 0),
                 iw_slot_generation = (if slot then src_slot_generation src else 0)\<rparr>
      in if path = CopyFallback then
           (case Allocate p of (None, p1) \<Rightarrow> (None, p1)
            | (Some lease, p1) \<Rightarrow> (Some (buf, Some lease), p1))
         else (Some (buf, None), p))"

definition ReleaseLease :: "nat option \<Rightarrow> reactor \<Rightarrow> reactor" where
  "ReleaseLease lease r =
     (case lease of None \<Rightarrow> r | Some buf \<Rightarrow> r\<lparr>dc_pool := Free (dc_pool r) buf\<rparr>)"

definition RecycleBlock :: "block_id \<Rightarrow> reactor \<Rightarrow> reactor" where
  "RecycleBlock b r = r\<lparr>dc_alloc := Recycle (dc_alloc r) b\<rparr>"

definition put_entry :: "op_node \<Rightarrow> block_id \<Rightarrow> u64 \<Rightarrow> wal_entry" where
  "put_entry op b now = \<lparr>e_type = EntryPut, e_key = op_key op, e_block = b,
     e_value_crc = CRC32 (op_bytes op), e_timestamp = now\<rparr>"

definition put_meta :: "op_node \<Rightarrow> block_id \<Rightarrow> u64 \<Rightarrow> value_meta" where
  "put_meta op b now = \<lparr>block = b, timestamp = now, crc = CRC32 (op_bytes op), state = Active\<rparr>"

text \<open>The last part: the index takes the new entry, the old block returns to the allocator
  (\<open>TrimDeviceBlock\<close> does nothing yet), and the log's growth may ask for a snapshot.\<close>

definition CommitPut :: "reactor \<Rightarrow> op_node \<Rightarrow> block_id \<Rightarrow> u64 \<Rightarrow> reactor" where
  "CommitPut r op b now =
     (case Lookup (dc_index r) (op_key op) of (c, old) \<Rightarrow>
      let r1 = r\<lparr>dc_index := snd (Insert (dc_index r) (op_key op) (put_meta op b now))\<rparr>;
          r2 = (if c = kSuccess then RecycleBlock (block (the old)) r1 else r1)
      in MaybeRequestSnapshot r2)"

definition ExecutePut :: "reactor \<Rightarrow> op_node \<Rightarrow> rc \<times> reactor" where
  "ExecutePut r op =
     (case Acquire (dc_alloc r) of (c, acquired, a) \<Rightarrow>
      let r0 = r\<lparr>dc_alloc := a\<rparr> in
      if c \<noteq> kSuccess then (c, r0) else
      let b = the acquired in
      case StagePut (dc_pool r0) op of (staged, p) \<Rightarrow>
      let r1 = r0\<lparr>dc_pool := p\<rparr> in
      case staged of None \<Rightarrow> (kEnginePoolExhausted, RecycleBlock b r1)
      | Some (io_buffer, lease) \<Rightarrow>
        (case GetWallTimeNs r1 of (now, r2) \<Rightarrow>
         case SyncIo_Write (dc_io r2) (unat (block_idx b)) (Some (iw_data io_buffer)) of (c2, io) \<Rightarrow>
         let r3 = ReleaseLease lease (r2\<lparr>dc_io := io\<rparr>) in
         if c2 \<noteq> kSuccess then (c2, RecycleBlock b r3) else
         case WriteWalRescuing r3 (put_entry op b now) of (c3, r4) \<Rightarrow>
         if c3 \<noteq> kSuccess then (c3, RecycleBlock b r4)
         else (kSuccess, CommitPut r4 op b now)))"

section \<open>Delete, level changes, snapshots\<close>

definition delete_entry :: "op_node \<Rightarrow> u64 \<Rightarrow> wal_entry" where
  "delete_entry op now = \<lparr>e_type = EntryDelete, e_key = op_key op, e_block = BlockId 0,
     e_value_crc = 0, e_timestamp = now\<rparr>"

definition ExecuteDelete :: "reactor \<Rightarrow> op_node \<Rightarrow> rc \<times> reactor" where
  "ExecuteDelete r op =
     (case Lookup (dc_index r) (op_key op) of (c, found) \<Rightarrow>
      if c \<noteq> kSuccess then (c, r) else
      case GetWallTimeNs r of (now, r1) \<Rightarrow>
      case WriteWalRescuing r1 (delete_entry op now) of (c2, r2) \<Rightarrow>
      if c2 \<noteq> kSuccess then (c2, r2) else
      (kSuccess, MaybeRequestSnapshot
         (RecycleBlock (block (the found)) (r2\<lparr>dc_index := snd (Delete (dc_index r2) (op_key op))\<rparr>))))"

text \<open>The level lives in the reactor's options, which the backend and the log read.\<close>

definition set_level :: "wal_level \<Rightarrow> reactor \<Rightarrow> reactor" where
  "set_level l r = r\<lparr>rx_options := (rx_options r)\<lparr>o_wal_level := l\<rparr>,
     dc_io := SyncIo_RebindOptions (dc_io r) (Some l), dc_wal := Wal_RebindOptions (dc_wal r) l\<rparr>"

definition ExecuteSetWalLevel :: "reactor \<Rightarrow> op_node \<Rightarrow> rc \<times> reactor" where
  "ExecuteSetWalLevel r op =
     (let old = o_wal_level (rx_options r);
          (c, w) = (if \<not> IsWalSyncLevel old \<and> IsWalSyncLevel (op_new_level op)
                    then Flush (dc_wal r) else (kSuccess, dc_wal r));
          r1 = r\<lparr>dc_wal := w\<rparr>
      in if c \<noteq> kSuccess then (c, r1) else (kSuccess, set_level (op_new_level op) r1))"

definition ExecuteSnapshot :: "reactor \<Rightarrow> rc \<times> reactor" where
  "ExecuteSnapshot r = DoSnapshot r"

text \<open>The dispatch of the event loop.\<close>

definition Execute :: "reactor \<Rightarrow> op_node \<Rightarrow> rc \<times> bytes option \<times> reactor" where
  "Execute r op =
     (if op_kind op = OpGet then ExecuteGet r op
      else if op_kind op = OpPut then (case ExecutePut r op of (c, r') \<Rightarrow> (c, None, r'))
      else if op_kind op = OpDelete then (case ExecuteDelete r op of (c, r') \<Rightarrow> (c, None, r'))
      else if op_kind op = OpSetWalLevel then (case ExecuteSetWalLevel r op of (c, r') \<Rightarrow> (c, None, r'))
      else if op_kind op = OpSnapshot then (case ExecuteSnapshot r of (c, r') \<Rightarrow> (c, None, r'))
      else (kEngineNotImplemented, None, r))"

section \<open>Closing\<close>

definition CloseDc :: "reactor \<Rightarrow> reactor" where
  "CloseDc r =
     (case Snapshot_Close (dc_snapshot r) of (src, s) \<Rightarrow>
      case Wal_Close (dc_wal r) of (wrc, w) \<Rightarrow>
      case SyncIo_Close (dc_io r) of (irc, io) \<Rightarrow>
      r\<lparr>dc_snapshot := s, dc_wal := w, dc_io := io, rx_dc_closed := True,
        rx_close_result := (if rx_close_result r = kSuccess then
            (if src \<noteq> kSuccess then src else if wrc \<noteq> kSuccess then wrc else irc)
          else rx_close_result r)\<rparr>)"

end
