(* ===== verification/Cabe_ReactorMap.thy ===== *)
theory Cabe_ReactorMap
  imports Cabe_Reactor
begin

text \<open>
  The reactor as a map from keys to values. The invariant \<open>rx_holds\<close> ties the index, the
  blocks on the device, the allocator and the staging pool to an abstract map; every execution
  body keeps it, for every pattern of failing device operations. The proof rests on the
  contracts of the components: the locales \<open>block_allocator\<close>, \<open>meta_index\<close> and
  \<open>value_store\<close>, interpreted on the code's ring, hash index and synchronous backend.
\<close>

section \<open>The abstract map\<close>

type_synonym kv = "bytes \<rightharpoonup> bytes"

definition rx_device :: "reactor \<Rightarrow> device_id" where
  "rx_device r = ucast (sb_device_id (dc_super_block r))"

definition rx_blocks :: "reactor \<Rightarrow> nat" where
  "rx_blocks r = unat (sb_block_count (dc_super_block r))"

definition live_blocks :: "hash_index \<Rightarrow> block_id set" where
  "live_blocks m = {block e | k e. index_map m k = Some e}"

text \<open>Every entry's block holds the key's value and the entry has its checksum; no two keys share
  a block.\<close>

definition one_owner :: "hash_index \<Rightarrow> bool" where
  "one_owner m \<longleftrightarrow>
     (\<forall>k k' e e'. index_map m k = Some e \<and> index_map m k' = Some e' \<and> block e = block e' \<longrightarrow> k = k')"

fun entry_for :: "(nat \<Rightarrow> bytes) \<Rightarrow> value_meta option \<Rightarrow> bytes option \<Rightarrow> bool" where
  "entry_for content None y \<longleftrightarrow> y = None"
| "entry_for content (Some e) y \<longleftrightarrow>
     y = Some (content (unat (block_idx (block e)))) \<and> crc e = CRC32 (content (unat (block_idx (block e))))"

definition entries_hold :: "hash_index \<Rightarrow> (nat \<Rightarrow> bytes) \<Rightarrow> kv \<Rightarrow> bool" where
  "entries_hold m content kv \<longleftrightarrow> index_wf m \<and> one_owner m
     \<and> (\<forall>k. entry_for content (index_map m k) (kv k))"

text \<open>The state between two operations has \<open>pending = {}\<close> and \<open>leased = {}\<close>; during a put the
  acquired block is pending and the staging buffer leased.\<close>

definition rx_state :: "reactor \<Rightarrow> kv \<Rightarrow> block_id set \<Rightarrow> nat set \<Rightarrow> bool" where
  "rx_state r kv pending leased \<longleftrightarrow>
     entries_hold (dc_index r) (io_content (dc_io r)) kv
     \<and> live_blocks (dc_index r) \<inter> pending = {}
     \<and> ring.owns (dc_alloc r) (live_blocks (dc_index r) \<union> pending)
         (device_blocks (rx_device r) (rx_blocks r))
     \<and> pool_owns (dc_pool r) leased \<and> 0 < bp_block_count (dc_pool r)
     \<and> rx_blocks r \<le> 2 ^ 56 \<and> rx_blocks r \<le> io_block_count (dc_io r)"

abbreviation rx_holds :: "reactor \<Rightarrow> kv \<Rightarrow> bool" where
  "rx_holds r kv \<equiv> rx_state r kv {} {}"

text \<open>What an operation that returned \<open>c\<close> has done to the map.\<close>

definition kv_after :: "op_node \<Rightarrow> rc \<Rightarrow> kv \<Rightarrow> kv" where
  "kv_after op c kv =
     (if c \<noteq> kSuccess then kv
      else if op_kind op = OpPut then kv(op_key op \<mapsto> op_bytes op)
      else if op_kind op = OpDelete then kv(op_key op := None)
      else kv)"

section \<open>Entries\<close>

lemma entries_holdD:
  assumes "entries_hold m content kv"
  shows "index_wf m" "one_owner m" "entry_for content (index_map m k) (kv k)"
  using assms by (simp_all add: entries_hold_def)

lemma one_ownerD:
  "one_owner m \<Longrightarrow> index_map m k = Some e \<Longrightarrow> index_map m k' = Some e' \<Longrightarrow> block e = block e' \<Longrightarrow> k = k'"
  unfolding one_owner_def by blast

lemma entries_hold_None:
  assumes "entries_hold m content kv"
  shows "kv k = None \<longleftrightarrow> index_map m k = None"
  using entries_holdD(3) [OF assms, of k] by (cases "index_map m k") simp_all

lemma entries_hold_lookup:
  assumes "entries_hold m content kv"
  shows "kv k = None \<Longrightarrow> Lookup m k = (kIndexKeyNotFound, None) \<and> index_map m k = None"
    "kv k = Some v \<Longrightarrow> \<exists>e. Lookup m k = (kSuccess, Some e) \<and> index_map m k = Some e
       \<and> content (unat (block_idx (block e))) = v \<and> crc e = CRC32 v"
  using idx.lookup_law [OF entries_holdD(1) [OF assms], of k] entries_holdD(3) [OF assms, of k]
  by (cases "index_map m k"; simp)+

lemma live_blocksI: "index_map m k = Some e \<Longrightarrow> block e \<in> live_blocks m"
  by (auto simp: live_blocks_def)

lemma live_blocks_mem: "b \<in> live_blocks m \<longleftrightarrow> (\<exists>k e. index_map m k = Some e \<and> block e = b)"
  by (auto simp: live_blocks_def)

lemma card_live_blocks:
  assumes "entries_hold m content kv"
  shows "card (live_blocks m) = card (dom kv)" "finite (dom kv)"
proof -
  note D = entries_holdD [OF assms]
  let ?f = "\<lambda>k. block (the (index_map m k))"
  have dm: "dom kv = dom (index_map m)" by (simp add: dom_def entries_hold_None [OF assms])
  have "live_blocks m = ?f ` dom (index_map m)"
  proof (intro set_eqI iffI)
    fix b
    assume "b \<in> live_blocks m"
    then obtain k e where "index_map m k = Some e" "block e = b" unfolding live_blocks_mem by blast
    then show "b \<in> ?f ` dom (index_map m)" by (intro image_eqI [of _ _ k]) auto
  qed (auto intro: live_blocksI)
  moreover have "inj_on ?f (dom (index_map m))"
    by (rule inj_onI) (metis D(2) domD one_ownerD option.sel)
  ultimately show "card (live_blocks m) = card (dom kv)" by (simp add: dm card_image)
  show "finite (dom kv)" using idx.size_law [OF D(1)] by (simp add: dm)
qed

text \<open>Inserting an entry for a fresh block; the old block of the key, if any, stops being live.\<close>

lemma entries_insert:
  assumes h: "entries_hold m content kv" and fresh: "block e \<notin> live_blocks m"
    and c: "content (unat (block_idx (block e))) = v" "crc e = CRC32 v"
  shows "entries_hold (snd (Insert m k e)) content (kv(k \<mapsto> v))"
    "index_map m k = None \<Longrightarrow> live_blocks (snd (Insert m k e)) = insert (block e) (live_blocks m)"
    "index_map m k = Some old \<Longrightarrow>
       live_blocks (snd (Insert m k e)) = insert (block e) (live_blocks m - {block old})"
proof -
  note D = entries_holdD [OF h]
  obtain m' where m': "Insert m k e = (kSuccess, m')" "index_wf m'" "index_map m' = (index_map m)(k \<mapsto> e)"
    using idx.insert_law [OF D(1)] by blast
  have fr: "block e' \<noteq> block e" if "index_map m k' = Some e'" for k' e'
    using fresh live_blocksI [OF that] by metis
  have "one_owner m'"
    unfolding one_owner_def m' fun_upd_apply by (metis D(2) fr one_ownerD option.sel)
  then show "entries_hold (snd (Insert m k e)) content (kv(k \<mapsto> v))"
    using m' c D(3) by (simp add: entries_hold_def)
  show "index_map m k = None \<Longrightarrow> live_blocks (snd (Insert m k e)) = insert (block e) (live_blocks m)"
    unfolding set_eq_iff live_blocks_mem insert_iff m' snd_conv fun_upd_apply
    by (metis option.distinct(1) option.sel)
  assume old: "index_map m k = Some old"
  have one: "k' = k" if "index_map m k' = Some e'" "block e' = block old" for k' e'
    by (rule one_ownerD [OF D(2) that(1) old that(2)])
  show "live_blocks (snd (Insert m k e)) = insert (block e) (live_blocks m - {block old})"
    unfolding set_eq_iff live_blocks_mem insert_iff Diff_iff empty_iff m' snd_conv fun_upd_apply
    by (metis one old option.sel)
qed

lemma entries_delete:
  assumes h: "entries_hold m content kv" and e: "index_map m k = Some e"
  shows "entries_hold (snd (Delete m k)) content (kv(k := None))"
    "live_blocks (snd (Delete m k)) = live_blocks m - {block e}"
proof -
  note D = entries_holdD [OF h]
  obtain m' where m': "Delete m k = (kSuccess, m')" "index_wf m'" "index_map m' = (index_map m)(k := None)"
    using idx.delete_law [OF D(1), of k] e by auto
  have "one_owner m'"
    unfolding one_owner_def m' fun_upd_apply by (metis D(2) one_ownerD option.distinct(1))
  then show "entries_hold (snd (Delete m k)) content (kv(k := None))"
    using m' D(3) by (simp add: entries_hold_def)
  have one: "k' = k" if "index_map m k' = Some e'" "block e' = block e" for k' e'
    by (rule one_ownerD [OF D(2) that(1) e that(2)])
  show "live_blocks (snd (Delete m k)) = live_blocks m - {block e}"
    unfolding set_eq_iff live_blocks_mem insert_iff Diff_iff empty_iff m' snd_conv fun_upd_apply
    by (metis one e option.distinct(1) option.sel)
qed

text \<open>The entries do not depend on blocks that are not live.\<close>

lemma entries_content_cong:
  assumes h: "entries_hold m content kv"
    and c: "\<And>b. b \<in> live_blocks m \<Longrightarrow> content' (unat (block_idx b)) = content (unat (block_idx b))"
  shows "entries_hold m content' kv"
proof -
  have "entry_for content' (index_map m k) (kv k)" for k
    using entries_holdD(3) [OF h, of k] c [OF live_blocksI, of k] by (cases "index_map m k") simp_all
  then show ?thesis using entries_holdD(1,2) [OF h] by (simp add: entries_hold_def)
qed

section \<open>The log and the snapshot leave the map alone\<close>

definition same_core :: "reactor \<Rightarrow> reactor \<Rightarrow> bool" where
  "same_core r r' \<longleftrightarrow> dc_io r' = dc_io r \<and> dc_pool r' = dc_pool r \<and> dc_alloc r' = dc_alloc r
     \<and> dc_index r' = dc_index r \<and> dc_super_block r' = dc_super_block r \<and> rx_options r' = rx_options r
     \<and> rx_clock r' = rx_clock r"

lemma same_core_trans: "same_core a b \<Longrightarrow> same_core b c \<Longrightarrow> same_core a c"
  by (simp add: same_core_def)

lemma DoSnapshot_core: "DoSnapshot r = (c, r') \<Longrightarrow> same_core r r'"
  by (auto simp: DoSnapshot_def GetWallTimeNs_def Let_def same_core_def split: prod.splits if_splits)

lemma MaybeRequestSnapshot_core: "same_core r (MaybeRequestSnapshot r)"
  using DoSnapshot_core [of r] by (cases "DoSnapshot r")
    (simp add: MaybeRequestSnapshot_def RequestSnapshot_def Let_def same_core_def)

lemma WriteWalRescuing_core: "WriteWalRescuing r e = (c, r') \<Longrightarrow> same_core r r'"
  by (auto simp: WriteWalRescuing_def Let_def same_core_def
      dest!: DoSnapshot_core split: prod.splits if_splits)

lemma rx_state_core: "same_core r r' \<Longrightarrow> rx_state r' kv pd ls = rx_state r kv pd ls"
  by (simp add: rx_state_def same_core_def rx_device_def rx_blocks_def)

lemma rx_state_ticks [simp]: "rx_state (r\<lparr>rx_ticks := n\<rparr>) kv pd ls = rx_state r kv pd ls"
  by (simp add: rx_state_def rx_device_def rx_blocks_def)

section \<open>Blocks and buffers\<close>

lemma rx_alloc:
  assumes "rx_state r kv {} ls" "Acquire (dc_alloc r) = (kSuccess, Some b, a)"
  shows "rx_state (r\<lparr>dc_alloc := a\<rparr>) kv {b} ls"
  using assms ring.owns_acquire [OF _ assms(2)] by (auto simp: rx_state_def rx_device_def rx_blocks_def)

lemma rx_alloc_cases:
  assumes "rx_state r kv {} ls"
  obtains "card (dom kv) = rx_blocks r" "Acquire (dc_alloc r) = (kEngineNoSpace, None, dc_alloc r)"
  | b a where "card (dom kv) < rx_blocks r" "Acquire (dc_alloc r) = (kSuccess, Some b, a)"
proof -
  let ?all = "device_blocks (rx_device r) (rx_blocks r)" and ?live = "live_blocks (dc_index r)"
  have o: "ring.owns (dc_alloc r) ?live ?all" and n: "rx_blocks r \<le> 2 ^ 56"
    and e: "entries_hold (dc_index r) (io_content (dc_io r)) kv"
    using assms by (simp_all add: rx_state_def)
  have cd: "card ?live = card (dom kv)" "card ?all = rx_blocks r"
    using card_live_blocks [OF e] card_device_blocks [OF n] by simp_all
  show thesis
  proof (rule ring.owns_acquire_cases [OF o])
    assume "?live = ?all" "Acquire (dc_alloc r) = (kEngineNoSpace, None, dc_alloc r)"
    then show thesis using that(1) cd by simp
  next
    fix b a
    assume a: "Acquire (dc_alloc r) = (kSuccess, Some b, a)"
    have "?live \<subset> ?all" using ring.owns_acquire(1,2) [OF o a] o by (auto simp: ring.owns_def)
    then have "card ?live < card ?all" using ring.owns_finite [OF o] psubset_card_mono by blast
    then show thesis using that(2) [OF _ a] cd by simp
  qed
qed

lemma rx_recycle:
  assumes "rx_state r kv {b} ls"
  shows "rx_state (RecycleBlock b r) kv {} ls"
proof -
  have "ring.owns (dc_alloc r) (live_blocks (dc_index r) \<union> {b}) (device_blocks (rx_device r) (rx_blocks r))"
    "live_blocks (dc_index r) \<union> {b} - {b} = live_blocks (dc_index r)"
    using assms by (auto simp: rx_state_def)
  then show ?thesis
    using assms ring.owns_recycle [of "dc_alloc r" _ _ b]
    by (fastforce simp: rx_state_def RecycleBlock_def rx_device_def rx_blocks_def)
qed

lemma rx_lease:
  assumes "rx_state r kv pd {}" "Allocate (dc_pool r) = (x, p)"
  shows "x \<noteq> None" "rx_state (r\<lparr>dc_pool := p\<rparr>) kv pd {the x}"
proof -
  have o: "pool_owns (dc_pool r) {}" and n: "0 < bp_block_count (dc_pool r)"
    using assms(1) by (simp_all add: rx_state_def)
  have "bp_free_list (dc_pool r) \<noteq> []"
    using o n by (auto simp: pool_owns_def pool_buffers_def)
  then show x: "x \<noteq> None" using assms(2) by (auto simp: Allocate_def)
  then obtain buf where buf: "x = Some buf" by blast
  have "bp_block_count p = bp_block_count (dc_pool r)"
    using assms(2) by (auto simp: Allocate_def split: if_splits)
  then show "rx_state (r\<lparr>dc_pool := p\<rparr>) kv pd {the x}"
    using assms(1) Allocate_owns(2) [OF o assms(2) [unfolded buf]] buf
    by (simp add: rx_state_def rx_device_def rx_blocks_def)
qed

lemma rx_free:
  assumes "rx_state r kv pd {buf}"
  shows "rx_state (r\<lparr>dc_pool := Free (dc_pool r) buf\<rparr>) kv pd {}"
proof -
  have "pool_owns (Free (dc_pool r) buf) ({buf} - {buf})"
    by (rule Free_owns) (use assms in \<open>simp_all add: rx_state_def\<close>)
  then show ?thesis using assms by (simp add: rx_state_def rx_device_def rx_blocks_def Free_def)
qed

text \<open>Two blocks of the device with the same number are the same block.\<close>

lemma rx_block_apart:
  assumes "rx_state r kv {b} ls" "b' \<in> live_blocks (dc_index r)"
  shows "unat (block_idx b') \<noteq> unat (block_idx b)"
proof
  assume eq: "unat (block_idx b') = unat (block_idx b)"
  have n: "rx_blocks r \<le> 2 ^ 56" and all: "{b, b'} \<subseteq> device_blocks (rx_device r) (rx_blocks r)"
    and ne: "b \<noteq> b'"
    using assms by (auto simp: rx_state_def ring.owns_def)
  then have "dev b = dev b'" using mem_device_blocks [OF n] by auto
  then show False using ne eq block_id_eqI [of b b'] by (simp add: word_unat_eq_iff)
qed

lemma rx_write:
  assumes h: "rx_state r kv {b} ls" and w: "SyncIo_Write (dc_io r) (unat (block_idx b)) (Some v) = (c, io)"
  shows "rx_state (r\<lparr>dc_io := io\<rparr>) kv {b} ls" "c = kSuccess \<or> c = kIoBase"
    "c = kSuccess \<Longrightarrow> io_content io (unat (block_idx b)) = v"
proof -
  have v: "io_valid (dc_io r)" by (simp add: io_valid_def)
  show "c = kSuccess \<or> c = kIoBase" by (rule sio.write_rc [OF w])
  show "c = kSuccess \<Longrightarrow> io_content io (unat (block_idx b)) = v" using sio.write_ok [OF v] w by auto
  have "entries_hold (dc_index r) (io_content io) kv"
  proof (rule entries_content_cong)
    show "entries_hold (dc_index r) (io_content (dc_io r)) kv" using h by (simp add: rx_state_def)
    show "io_content io (unat (block_idx b')) = io_content (dc_io r) (unat (block_idx b'))"
      if "b' \<in> live_blocks (dc_index r)" for b'
      by (rule sio.write_other [OF v w rx_block_apart [OF h that]])
  qed
  then show "rx_state (r\<lparr>dc_io := io\<rparr>) kv {b} ls"
    using h sio.write_frame [OF v w] by (simp add: rx_state_def rx_device_def rx_blocks_def)
qed

lemma rx_read:
  assumes h: "rx_state r kv pd ls" and w: "SyncIo_Read (dc_io r) i = (c, bs, io)"
  shows "rx_state (r\<lparr>dc_io := io\<rparr>) kv pd ls" "c = kSuccess \<or> c = kIoBase"
    "c = kSuccess \<Longrightarrow> bs = io_content (dc_io r) i"
  using h sio.read_same [OF _ w] sio.read_rc [OF w] sio.read_ok [of "dc_io r"] w
  by (auto simp: rx_state_def rx_device_def rx_blocks_def io_valid_def)

section \<open>The execution bodies\<close>

lemma WriteWindowSpan_rc: "WriteWindowSpan w = (c, w') \<Longrightarrow> c = kSuccess \<or> c = kWalWriteFailed"
  by (auto simp: WriteWindowSpan_def Let_def split: prod.splits if_splits)

lemma WriteOutWindow_rc: "WriteOutWindow w = (c, w') \<Longrightarrow> c = kSuccess \<or> c = kWalWriteFailed"
  by (auto simp: WriteOutWindow_def dest: WriteWindowSpan_rc split: prod.splits if_splits)

lemma Flush_rc: "Flush w = (c, w') \<Longrightarrow> c = kSuccess \<or> c = kWalWriteFailed"
  by (auto simp: Flush_def dest: WriteWindowSpan_rc split: prod.splits if_splits)

lemma Append_rc: "Append w e = (c, w') \<Longrightarrow> c = kSuccess \<or> c = kWalWriteFailed"
  by (auto simp: Append_def Let_def split: option.splits)

lemma batch_loop_rc:
  "batch_loop es wrote dirty w = (c, rest, wrote', dirty', w') \<Longrightarrow> c \<in> {kSuccess, kWalWriteFailed, kWalFull}"
proof (induction es wrote dirty w rule: batch_loop.induct)
  case (2 e es wrote dirty w)
  let ?w1 = "reopen w"
  obtain c1 w2 where wo: "(if w_window_bytes ?w1 \<le> used_bytes ?w1 then WriteOutWindow ?w1 else (kSuccess, ?w1)) = (c1, w2)"
    by fastforce
  have c1: "c1 = kSuccess \<or> c1 = kWalWriteFailed" using wo WriteOutWindow_rc by (metis prod.inject)
  obtain c3 w3 where ap: "Append w2 e = (c3, w3)" by fastforce
  show ?case
    using 2 c1 Append_rc [OF ap]
    by (simp add: Let_def wo ap split: if_splits)
qed simp

lemma ProcessBatch_one_rc:
  assumes "ProcessBatch [e] w = (rs, w')"
  shows "hd rs \<in> {kSuccess, kWalWriteFailed, kWalFull}"
proof -
  obtain f rest wrote dirty w1 where bl: "batch_loop [e] False False w = (f, rest, wrote, dirty, w1)"
    by (metis prod_cases5)
  obtain p s where rs: "rs = replicate (1 - length rest) p @ replicate (length rest) s"
    and p: "p \<in> {f, kSuccess, kWalWriteFailed}" and s: "s \<in> {kWalFull, p}"
  proof (cases "f \<noteq> kSuccess \<and> f \<noteq> kWalFull")
    case True
    then have "rs = replicate (1 - length rest) f @ replicate (length rest) f"
      using assms unfolding ProcessBatch_def bl prod.case Let_def by auto
    then show thesis using that [of f f] by simp
  next
    case False
    obtain c w2 where wo: "(if dirty then WriteOutWindow w1 else (kSuccess, w1)) = (c, w2)" by fastforce
    obtain c2 w3 where sy: "(if c = kSuccess \<and> (wrote \<or> dirty \<and> c = kSuccess) then
                (case wal_Sync w2 of (cs, w3) \<Rightarrow> (if cs \<noteq> kSuccess then kWalWriteFailed else kSuccess, w3))
              else (c, w2)) = (c2, w3)" by fastforce
    define p where "p = (if c2 = kSuccess then kSuccess else kWalWriteFailed)"
    have "rs = replicate (1 - length rest) p @ replicate (length rest) (if f = kWalFull then kWalFull else p)"
      using assms False unfolding ProcessBatch_def bl prod.case Let_def wo sy by (auto simp: p_def)
    then show thesis using that [of p "if f = kWalFull then kWalFull else p"] by (simp add: p_def)
  qed
  have "hd rs \<in> set rs" unfolding rs by (intro hd_in_set) (cases rest; simp)
  then have "hd rs \<in> {p, s}" unfolding rs by auto
  then show ?thesis using p s batch_loop_rc [OF bl] by auto
qed

lemma WriteWal_rc:
  assumes "WriteWal w e = (c, w')"
  shows "c \<in> {kSuccess, kWalKeyTooLong, kWalWriteFailed, kWalFull}"
  using assms
  by (auto simp: WriteWal_def Let_def dest: Flush_rc Append_rc ProcessBatch_one_rc
      split: prod.splits if_splits)

lemma WriteWalRescuing_rc:
  assumes "WriteWalRescuing r e = (c, r')"
  shows "c \<in> {kSuccess, kWalKeyTooLong, kWalWriteFailed, kWalFull}"
  using assms WriteWal_rc
  by (auto simp: WriteWalRescuing_def Let_def split: prod.splits if_splits; blast)

lemma ExecuteGet_holds:
  assumes h: "rx_holds r kv" and run: "ExecuteGet r op = (c, out, r')"
  shows "rx_holds r' kv"
    "kv (op_key op) = None \<and> c = kIndexKeyNotFound \<and> out = None
     \<or> kv (op_key op) \<noteq> None \<and> (c = kSuccess \<and> out = kv (op_key op) \<or> c = kIoBase \<and> out = None)"
proof -
  have e: "entries_hold (dc_index r) (io_content (dc_io r)) kv" using h by (simp add: rx_state_def)
  have "rx_holds r' kv \<and> (kv (op_key op) = None \<and> c = kIndexKeyNotFound \<and> out = None
     \<or> kv (op_key op) \<noteq> None \<and> (c = kSuccess \<and> out = kv (op_key op) \<or> c = kIoBase \<and> out = None))"
  proof (cases "kv (op_key op)")
    case None
    then show ?thesis
      using run entries_hold_lookup(1) [OF e None] h by (simp add: ExecuteGet_def)
  next
    case (Some v)
    obtain m where m: "Lookup (dc_index r) (op_key op) = (kSuccess, Some m)"
      "io_content (dc_io r) (unat (block_idx (block m))) = v" "crc m = CRC32 v"
      using entries_hold_lookup(2) [OF e Some] by blast
    obtain x p where al: "Allocate (dc_pool r) = (x, p)" by fastforce
    note L = rx_lease [OF h al]
    obtain buf where buf: "x = Some buf" using L(1) by blast
    obtain c2 bs io where rd: "SyncIo_Read (dc_io r) (unat (block_idx (block m))) = (c2, bs, io)"
      by (metis prod_cases3)
    have rd': "SyncIo_Read (dc_io (r\<lparr>dc_pool := p\<rparr>)) (unat (block_idx (block m))) = (c2, bs, io)"
      using rd by simp
    have st: "rx_holds (r\<lparr>dc_io := io, dc_pool := Free p buf\<rparr>) kv"
      using rx_free [of "r\<lparr>dc_pool := p, dc_io := io\<rparr>" kv "{}" buf] rx_read(1) [OF L(2) rd'] buf by simp
    show ?thesis
      using run Some m rx_read(2,3) [OF h rd] st
      by (simp add: ExecuteGet_def al buf rd Let_def split: if_splits)
  qed
  then show "rx_holds r' kv"
    "kv (op_key op) = None \<and> c = kIndexKeyNotFound \<and> out = None
     \<or> kv (op_key op) \<noteq> None \<and> (c = kSuccess \<and> out = kv (op_key op) \<or> c = kIoBase \<and> out = None)"
    by blast+
qed

lemma StagePut_holds:
  assumes h: "rx_state r kv {b} {}" and run: "StagePut (dc_pool r) op = (staged, p)"
  shows "\<exists>buf lease. staged = Some (buf, lease) \<and> iw_data buf = op_bytes op
    \<and> rx_state (r\<lparr>dc_pool := p\<rparr>) kv {b} (set_option lease)"
proof -
  obtain x q where al: "Allocate (dc_pool r) = (x, q)" by fastforce
  note L = rx_lease [OF h al]
  show ?thesis
    using run L h by (auto simp: StagePut_def Let_def al split: if_splits)
qed

lemma ReleaseLease_holds:
  assumes "rx_state r kv pd (set_option lease)"
  shows "rx_state (ReleaseLease lease r) kv pd {}" "dc_io (ReleaseLease lease r) = dc_io r"
  using assms rx_free [of r kv pd] by (cases lease; simp add: ReleaseLease_def)+

lemma CommitPut_holds:
  assumes h: "rx_state r kv {b} {}" and v: "io_content (dc_io r) (unat (block_idx b)) = op_bytes op"
  shows "rx_holds (CommitPut r op b now) (kv(op_key op \<mapsto> op_bytes op))"
proof -
  let ?m = "put_meta op b now" and ?k = "op_key op"
  let ?i = "snd (Insert (dc_index r) ?k ?m)"
  let ?r1 = "r\<lparr>dc_index := ?i\<rparr>"
  have e: "entries_hold (dc_index r) (io_content (dc_io r)) kv" and fr: "block ?m \<notin> live_blocks (dc_index r)"
    using h by (simp_all add: rx_state_def put_meta_def)
  have c: "io_content (dc_io r) (unat (block_idx (block ?m))) = op_bytes op" "crc ?m = CRC32 (op_bytes op)"
    using v by (simp_all add: put_meta_def)
  note I = entries_insert [OF e fr c, of ?k]
  have bm: "block ?m = b" by (simp add: put_meta_def)
  define r2 where "r2 = (case Lookup (dc_index r) ?k of (c, old) \<Rightarrow>
    if c = kSuccess then RecycleBlock (block (the old)) ?r1 else ?r1)"
  have "rx_holds r2 (kv(?k \<mapsto> op_bytes op))"
  proof (cases "kv ?k")
    case None
    note L = entries_hold_lookup(1) [OF e None]
    have "live_blocks ?i = live_blocks (dc_index r) \<union> {b}" using I(2) L bm by simp
    then show ?thesis
      using h I(1) L by (simp add: r2_def rx_state_def rx_device_def rx_blocks_def)
  next
    case (Some old)
    obtain m where L: "Lookup (dc_index r) ?k = (kSuccess, Some m)" "index_map (dc_index r) ?k = Some m"
      using entries_hold_lookup(2) [OF e Some] by blast
    have "block m \<in> live_blocks (dc_index r)" by (rule live_blocksI [OF L(2)])
    then have "block m \<noteq> b" "live_blocks ?i \<union> {block m} = live_blocks (dc_index r) \<union> {b}"
      "live_blocks ?i \<inter> {block m} = {}"
      using I(3) [OF L(2)] bm fr by auto
    then have "rx_state ?r1 (kv(?k \<mapsto> op_bytes op)) {block m} {}"
      using h I(1) by (simp add: rx_state_def rx_device_def rx_blocks_def)
    then show ?thesis using rx_recycle L by (simp add: r2_def)
  qed
  then show ?thesis
    using rx_state_core [OF MaybeRequestSnapshot_core]
    by (cases "Lookup (dc_index r) ?k") (simp add: CommitPut_def r2_def Let_def)
qed

lemma ExecutePut_holds:
  assumes h: "rx_holds r kv" and run: "ExecutePut r op = (c, r')"
  shows "rx_holds r' (if c = kSuccess then kv(op_key op \<mapsto> op_bytes op) else kv)
    \<and> (c = kEngineNoSpace \<longleftrightarrow> card (dom kv) = rx_blocks r)
    \<and> c \<in> {kSuccess, kEngineNoSpace, kIoBase, kWalKeyTooLong, kWalWriteFailed, kWalFull}"
proof (rule rx_alloc_cases [OF h])
  assume "card (dom kv) = rx_blocks r" "Acquire (dc_alloc r) = (kEngineNoSpace, None, dc_alloc r)"
  then show ?thesis using run h by (auto simp: ExecutePut_def)
next
  fix b a
  assume sp: "card (dom kv) < rx_blocks r" and aq: "Acquire (dc_alloc r) = (kSuccess, Some b, a)"
  let ?r0 = "r\<lparr>dc_alloc := a\<rparr>"
  obtain staged p where sg: "StagePut (dc_pool r) op = (staged, p)" by fastforce
  obtain buf lease where st: "staged = Some (buf, lease)" "iw_data buf = op_bytes op"
    and h1: "rx_state (?r0\<lparr>dc_pool := p\<rparr>) kv {b} (set_option lease)"
    using StagePut_holds [OF rx_alloc [OF h aq], of op staged p] sg by auto
  obtain now r2 where nw: "GetWallTimeNs (?r0\<lparr>dc_pool := p\<rparr>) = (now, r2)" by fastforce
  have h2: "rx_state r2 kv {b} (set_option lease)" using h1 nw by (auto simp: GetWallTimeNs_def)
  obtain c2 io where wr: "SyncIo_Write (dc_io r2) (unat (block_idx b)) (Some (op_bytes op)) = (c2, io)"
    by fastforce
  note W = rx_write [OF h2 wr]
  define r3 where "r3 = ReleaseLease lease (r2\<lparr>dc_io := io\<rparr>)"
  have h3: "rx_state r3 kv {b} {}" and io3: "dc_io r3 = io"
    unfolding r3_def using ReleaseLease_holds [OF W(1)] by simp_all
  obtain c3 r4 where wl: "WriteWalRescuing r3 (put_entry op b now) = (c3, r4)" by fastforce
  have core: "same_core r3 r4" by (rule WriteWalRescuing_core [OF wl])
  have h4: "rx_state r4 kv {b} {}" and io4: "dc_io r4 = io"
    using h3 rx_state_core [OF core] core io3 by (simp_all add: same_core_def)
  have res: "(c, r') = (if c2 \<noteq> kSuccess then (c2, RecycleBlock b r3)
      else if c3 \<noteq> kSuccess then (c3, RecycleBlock b r4) else (kSuccess, CommitPut r4 op b now))"
    using run by (simp add: ExecutePut_def aq sg st nw wr r3_def [symmetric] wl cong: if_cong)
  show ?thesis
    using res sp W(2) WriteWalRescuing_rc [OF wl] rx_recycle [OF h3] rx_recycle [OF h4]
      CommitPut_holds [OF h4] W(3) io4
    by (auto split: if_splits)
qed

lemma ExecuteDelete_holds:
  assumes h: "rx_holds r kv" and run: "ExecuteDelete r op = (c, r')"
  shows "rx_holds r' (if c = kSuccess then kv(op_key op := None) else kv)
    \<and> (c = kIndexKeyNotFound \<longleftrightarrow> kv (op_key op) = None)
    \<and> c \<in> {kSuccess, kIndexKeyNotFound, kWalKeyTooLong, kWalWriteFailed, kWalFull}"
proof -
  have e: "entries_hold (dc_index r) (io_content (dc_io r)) kv" using h by (simp add: rx_state_def)
  show ?thesis
  proof (cases "kv (op_key op)")
    case None
    then show ?thesis using run h entries_hold_lookup(1) [OF e None] by (simp add: ExecuteDelete_def)
  next
    case (Some v)
    obtain m where L: "Lookup (dc_index r) (op_key op) = (kSuccess, Some m)" "index_map (dc_index r) (op_key op) = Some m"
      using entries_hold_lookup(2) [OF e Some] by blast
    obtain now r1 where nw: "GetWallTimeNs r = (now, r1)" by fastforce
    have h1: "rx_holds r1 kv" using h nw by (auto simp: GetWallTimeNs_def)
    obtain c2 r2 where wl: "WriteWalRescuing r1 (delete_entry op now) = (c2, r2)" by fastforce
    have core: "same_core r1 r2" by (rule WriteWalRescuing_core [OF wl])
    have h2: "rx_holds r2 kv" using h1 rx_state_core [OF core] by simp
    have ix: "dc_index r2 = dc_index r" using core nw by (auto simp: same_core_def GetWallTimeNs_def)
    let ?r3 = "r2\<lparr>dc_index := snd (Delete (dc_index r2) (op_key op))\<rparr>"
    have e2: "entries_hold (dc_index r2) (io_content (dc_io r2)) kv" using h2 by (simp add: rx_state_def)
    have L2: "index_map (dc_index r2) (op_key op) = Some m" using L(2) ix by simp
    note D = entries_delete [OF e2 L2]
    have "block m \<in> live_blocks (dc_index r2)" by (rule live_blocksI [OF L2])
    then have "live_blocks (dc_index r2) - {block m} \<union> {block m} = live_blocks (dc_index r2)" by blast
    then have "rx_state ?r3 (kv(op_key op := None)) {block m} {}"
      using h2 D by (simp add: rx_state_def rx_device_def rx_blocks_def)
    then have "rx_holds (MaybeRequestSnapshot (RecycleBlock (block m) ?r3)) (kv(op_key op := None))"
      using rx_recycle rx_state_core [OF MaybeRequestSnapshot_core] by simp
    then show ?thesis
      using run h2 Some L(1) WriteWalRescuing_rc [OF wl] by (auto simp: ExecuteDelete_def nw wl split: if_splits)
  qed
qed

lemma set_level_holds: "rx_state (set_level l r) kv pd ls = rx_state r kv pd ls"
proof -
  have "io_content (SyncIo_RebindOptions io x) = io_content io" for io x
    by (rule ext) (simp add: io_content_def SyncIo_RebindOptions_def)
  then show ?thesis by (simp add: set_level_def rx_state_def rx_device_def rx_blocks_def SyncIo_RebindOptions_def)
qed

lemma ExecuteSetWalLevel_holds:
  assumes h: "rx_holds r kv" and run: "ExecuteSetWalLevel r op = (c, r')"
  shows "rx_holds r' kv" "c = kSuccess \<or> c = kWalWriteFailed"
proof -
  obtain c1 w where fl: "(if \<not> IsWalSyncLevel (o_wal_level (rx_options r)) \<and> IsWalSyncLevel (op_new_level op)
      then Flush (dc_wal r) else (kSuccess, dc_wal r)) = (c1, w)" by fastforce
  have c1: "c1 = kSuccess \<or> c1 = kWalWriteFailed" using fl Flush_rc by (metis prod.inject)
  have "rx_holds (r\<lparr>dc_wal := w\<rparr>) kv" using h by (simp add: rx_state_def rx_device_def rx_blocks_def)
  then show "rx_holds r' kv" "c = kSuccess \<or> c = kWalWriteFailed"
    using run c1 by (auto simp: ExecuteSetWalLevel_def Let_def fl set_level_holds split: if_splits)
qed

end
