(* ===== verification/Cabe_ReactorTheorems.thy ===== *)
theory Cabe_ReactorTheorems
  imports Cabe_ReactorMap Cabe_WalTheorems Cabe_SnapshotTheorems
begin

text \<open>
  What the reactor promises as a store: every operation, failed or not, acts on an abstract map
  from keys to values, and a sequence of operations is a sequence of steps of that map.
\<close>

section \<open>A fresh device\<close>

text \<open>A device context as opening in create mode leaves it: all blocks free, empty index, all
  staging buffers free.\<close>

definition fresh_context :: "sync_io \<Rightarrow> wal \<Rightarrow> snapshot \<Rightarrow> super_block \<Rightarrow> nat \<Rightarrow> nat \<Rightarrow> device_context" where
  "fresh_context io w s sb base pool_blocks =
     \<lparr>dc_io = io, dc_wal = w, dc_snapshot = s, dc_pool = BufferPool_new base pool_blocks,
      dc_alloc = snd (ring_Init (ucast (sb_device_id sb)) (unat (sb_block_count sb))),
      dc_index = index_empty, dc_super_block = sb\<rparr>"

lemma fresh_holds:
  assumes n: "unat (sb_block_count sb) \<le> 2 ^ 56" "unat (sb_block_count sb) \<le> io_block_count io"
    and p: "0 < pool_blocks"
  shows "rx_holds (Reactor_new (fresh_context io w s sb base pool_blocks) opts clock) Map.empty"
proof -
  let ?r = "Reactor_new (fresh_context io w s sb base pool_blocks) opts clock"
  have f: "dc_index ?r = index_empty" "dc_io ?r = SyncIo_RebindOptions io (Some (o_wal_level opts))"
    "dc_pool ?r = BufferPool_new base pool_blocks" "dc_super_block ?r = sb"
    "dc_alloc ?r = snd (ring_Init (ucast (sb_device_id sb)) (unat (sb_block_count sb)))"
    by (simp_all add: Reactor_new_def fresh_context_def device_context.extend_def reactor.fields_def)
  have e: "entries_hold index_empty c Map.empty" for c
    by (simp add: entries_hold_def one_owner_def)
  have l: "live_blocks index_empty = {}" by (simp add: live_blocks_def)
  obtain c a where a: "ring_Init (ucast (sb_device_id sb)) (unat (sb_block_count sb)) = (c, a)" by fastforce
  have "ring.owns a {} (device_blocks (ucast (sb_device_id sb)) (unat (sb_block_count sb)))"
    using ring_Init_free [OF a] Make_of_nat_inj [OF n(1)]
    by (auto simp: ring.owns_def distinct_map atLeast0LessThan card_image device_blocks_def)
  then show ?thesis
    using f e l n p pool_owns_new a
    by (simp add: rx_state_def rx_device_def rx_blocks_def BufferPool_new_def SyncIo_RebindOptions_def)
qed

section \<open>One operation\<close>

lemma Execute_map:
  assumes h: "rx_holds r kv" and run: "Execute r op = (c, out, r')"
  shows "rx_holds r' (kv_after op c kv)
    \<and> (op_kind op = OpGet \<longrightarrow>
        kv (op_key op) = None \<and> c = kIndexKeyNotFound
        \<or> kv (op_key op) \<noteq> None \<and> (c = kSuccess \<and> out = kv (op_key op) \<or> c = kIoBase \<and> out = None))
    \<and> (op_kind op = OpPut \<longrightarrow> (c = kEngineNoSpace \<longleftrightarrow> card (dom kv) = rx_blocks r)
        \<and> c \<in> {kSuccess, kEngineNoSpace, kIoBase, kWalKeyTooLong, kWalWriteFailed, kWalFull})
    \<and> (op_kind op = OpDelete \<longrightarrow> (c = kIndexKeyNotFound \<longleftrightarrow> kv (op_key op) = None)
        \<and> c \<in> {kSuccess, kIndexKeyNotFound, kWalKeyTooLong, kWalWriteFailed, kWalFull})"
proof -
  consider (get) "op_kind op = OpGet" | (put) "op_kind op = OpPut" | (del) "op_kind op = OpDelete"
    | (lvl) "op_kind op = OpSetWalLevel" | (snap) "op_kind op = OpSnapshot"
    | (other) "op_kind op \<notin> {OpGet, OpPut, OpDelete, OpSetWalLevel, OpSnapshot}" by blast
  then show ?thesis
  proof cases
    case get
    then have "ExecuteGet r op = (c, out, r')" using run by (simp add: Execute_def)
    then show ?thesis using ExecuteGet_holds [OF h, of op c out r'] get by (auto simp: kv_after_def)
  next
    case put
    then have "ExecutePut r op = (c, r')" using run by (simp add: Execute_def split: prod.splits)
    then show ?thesis using ExecutePut_holds [OF h, of op c r'] put by (auto simp: kv_after_def)
  next
    case del
    then have "ExecuteDelete r op = (c, r')" using run by (simp add: Execute_def split: prod.splits)
    then show ?thesis using ExecuteDelete_holds [OF h, of op c r'] del by (auto simp: kv_after_def)
  next
    case lvl
    then have "ExecuteSetWalLevel r op = (c, r')" using run by (simp add: Execute_def split: prod.splits)
    then show ?thesis using ExecuteSetWalLevel_holds [OF h, of op c r'] lvl by (simp add: kv_after_def)
  next
    case snap
    then have "DoSnapshot r = (c, r')" using run by (simp add: Execute_def ExecuteSnapshot_def split: prod.splits)
    then show ?thesis using rx_state_core [OF DoSnapshot_core] h snap by (simp add: kv_after_def)
  next
    case other
    then show ?thesis using run h by (simp add: Execute_def kv_after_def)
  qed
qed

text \<open>The reactor works off its operations in order.\<close>

fun run_ops :: "reactor \<Rightarrow> op_node list \<Rightarrow> (rc \<times> bytes option) list \<times> reactor" where
  "run_ops r [] = ([], r)"
| "run_ops r (op # ops) =
     (case Execute r op of (c, out, r1) \<Rightarrow>
      case run_ops r1 ops of (res, r2) \<Rightarrow> ((c, out) # res, r2))"

text \<open>The map after a sequence of operations with these results.\<close>

fun kv_run :: "op_node list \<Rightarrow> (rc \<times> bytes option) list \<Rightarrow> kv \<Rightarrow> kv" where
  "kv_run (op # ops) ((c, out) # res) kv = kv_run ops res (kv_after op c kv)"
| "kv_run _ _ kv = kv"

lemma run_ops_map:
  "rx_holds r kv \<Longrightarrow> run_ops r ops = (res, r') \<Longrightarrow>
   length res = length ops \<and> rx_holds r' (kv_run ops res kv)
   \<and> (\<forall>i < length ops. op_kind (ops ! i) = OpGet \<longrightarrow>
        (let v = kv_run (take i ops) (take i res) kv (op_key (ops ! i)); (c, out) = res ! i in
         if v = None then c = kIndexKeyNotFound else c = kSuccess \<and> out = v \<or> c = kIoBase \<and> out = None))"
proof (induction ops arbitrary: r kv res r')
  case (Cons op ops)
  obtain c out r1 where ex: "Execute r op = (c, out, r1)" by (metis prod_cases3)
  obtain res1 r2 where rn: "run_ops r1 ops = (res1, r2)" by fastforce
  have res: "res = (c, out) # res1" "r' = r2" using Cons.prems(2) by (auto simp: ex rn)
  note E = Execute_map [OF Cons.prems(1) ex]
  note I = Cons.IH [OF conjunct1 [OF E] rn]
  show ?case
  proof (intro conjI allI impI)
    show "length res = length (op # ops)" "rx_holds r' (kv_run (op # ops) res kv)" using I res by simp_all
    fix i
    assume "i < length (op # ops)" "op_kind ((op # ops) ! i) = OpGet"
    then show "let v = kv_run (take i (op # ops)) (take i res) kv (op_key ((op # ops) ! i)); (c, out) = res ! i in
         if v = None then c = kIndexKeyNotFound else c = kSuccess \<and> out = v \<or> c = kIoBase \<and> out = None"
      using E I res by (cases i) (auto simp: Let_def split: prod.splits)
  qed
qed simp

section \<open>A concrete reactor\<close>

definition rx_demo_sb :: super_block where
  "rx_demo_sb = sb_zero\<lparr>sb_block_count := 2\<rparr>"

definition rx_demo_io :: sync_io where
  "rx_demo_io = \<lparr>io_open = True, io_block_count = 2, io_level = Some Strict,
     io_kdev = \<lparr>kd_size = 8192 + 2 * 1048576, kd_data = \<lambda>_. 0, kd_durable = \<lambda>_. 0, kd_script = []\<rparr>\<rparr>"

definition rx_demo :: reactor where
  "rx_demo = Reactor_new (fresh_context rx_demo_io (demo_wal Strict) snap_demo rx_demo_sb 4096 1)
     (demo_opts Strict) (\<lambda>_. 7)"

definition rx_demo_put :: op_node where
  "rx_demo_put = \<lparr>op_kind = OpPut, op_key = [1], op_value = \<lparr>dv_addr = 4096, dv_size = kValueSize\<rparr>,
     op_value_source = \<lparr>src_kind = ExternalValueMemory, src_owner_device_id = 0, src_pool_id = 0,
       src_slot_index = 0, src_slot_generation = 0\<rparr>,
     op_new_level = WalSync, op_memory = \<lambda>_. 5\<rparr>"

lemma rx_demo_holds: "rx_holds rx_demo Map.empty"
  unfolding rx_demo_def by (rule fresh_holds) (simp_all add: rx_demo_sb_def sb_zero_def rx_demo_io_def)

section \<open>Properties\<close>

text \<open>C4: the reactor implements a map from keys to values, whatever its three devices do. Between
  operations every key's entry points to a block of its own that holds the key's value and
  carries its checksum, the free blocks are exactly the other blocks of the device, and all
  staging buffers are free. An operation that reports success has had exactly its effect on
  the map; one that reports failure, at whatever point, has had none and leaks neither block
  nor buffer. A get answers the map's value, never another key's and never a corrupted one; a
  put is refused for space exactly when every block holds a value.\<close>

theorem reactor_refines_map:
  assumes h: "rx_holds r kv" and run: "Execute r op = (c, out, r')"
  shows "rx_holds r' (kv_after op c kv)
    \<and> (op_kind op = OpGet \<longrightarrow>
        kv (op_key op) = None \<and> c = kIndexKeyNotFound
        \<or> kv (op_key op) \<noteq> None \<and> (c = kSuccess \<and> out = kv (op_key op) \<or> c = kIoBase \<and> out = None))
    \<and> (op_kind op = OpPut \<longrightarrow> (c = kEngineNoSpace \<longleftrightarrow> card (dom kv) = rx_blocks r)
        \<and> c \<in> {kSuccess, kEngineNoSpace, kIoBase, kWalKeyTooLong, kWalWriteFailed, kWalFull})
    \<and> (op_kind op = OpDelete \<longrightarrow> (c = kIndexKeyNotFound \<longleftrightarrow> kv (op_key op) = None)
        \<and> c \<in> {kSuccess, kIndexKeyNotFound, kWalKeyTooLong, kWalWriteFailed, kWalFull})"
  by (rule Execute_map [OF assms])

theorem reactor_refines_map_witness:
  "fst (Execute rx_demo (rx_demo_put\<lparr>op_kind := OpGet\<rparr>)) = kIndexKeyNotFound
   \<and> (\<exists>c out r. Execute rx_demo rx_demo_put = (c, out, r) \<and> rx_holds r (kv_after rx_demo_put c Map.empty)
        \<and> c \<noteq> kEngineNoSpace)"
proof -
  obtain c out r where g: "Execute rx_demo (rx_demo_put\<lparr>op_kind := OpGet\<rparr>) = (c, out, r)" by (metis prod_cases3)
  obtain c2 out2 r2 where p: "Execute rx_demo rx_demo_put = (c2, out2, r2)" by (metis prod_cases3)
  have "rx_blocks rx_demo = 2"
    by (simp add: rx_demo_def rx_blocks_def Reactor_new_def fresh_context_def device_context.extend_def
        reactor.fields_def rx_demo_sb_def)
  then show ?thesis
    using reactor_refines_map [OF rx_demo_holds g] reactor_refines_map [OF rx_demo_holds p] g p
    by (simp add: rx_demo_put_def)
qed

text \<open>Sequences of operations. Every get of a sequence answers with the last acknowledged put
  of its key among the operations before it, or "not found" if there is none or an
  acknowledged delete came after it, or reports a device error; what failed operations were
  asked to do never shows.\<close>

theorem reactor_read_your_writes:
  assumes h: "rx_holds r kv" and run: "run_ops r ops = (res, r')"
  shows "length res = length ops \<and> rx_holds r' (kv_run ops res kv)
   \<and> (\<forall>i < length ops. op_kind (ops ! i) = OpGet \<longrightarrow>
        (let v = kv_run (take i ops) (take i res) kv (op_key (ops ! i)); (c, out) = res ! i in
         if v = None then c = kIndexKeyNotFound else c = kSuccess \<and> out = v \<or> c = kIoBase \<and> out = None))"
  by (rule run_ops_map [OF assms])

theorem reactor_read_your_writes_witness:
  "(let (res, r) = run_ops rx_demo [rx_demo_put, rx_demo_put\<lparr>op_kind := OpGet\<rparr>]; (c, out) = res ! 1 in
    fst (res ! 0) = kSuccess \<longrightarrow> out \<in> {None, Some (op_bytes rx_demo_put)})
   \<and> fst (fst (run_ops rx_demo [rx_demo_put\<lparr>op_kind := OpGet\<rparr>]) ! 0) = kIndexKeyNotFound"
proof
  let ?ops = "[rx_demo_put, rx_demo_put\<lparr>op_kind := OpGet\<rparr>]"
  obtain res r where run: "run_ops rx_demo ?ops = (res, r)" by fastforce
  obtain c out where x: "res ! 1 = (c, out)" by fastforce
  obtain c0 out0 where y: "res ! 0 = (c0, out0)" by fastforce
  note T = reactor_read_your_writes [OF rx_demo_holds run]
  have l: "length res = 2" using T by simp
  have tk: "take 1 res = [(c0, out0)]" using l y by (cases res) auto
  have g: "op_kind (?ops ! 1) = OpGet" by simp
  have F: "let v = kv_run (take 1 ?ops) (take 1 res) Map.empty (op_key (?ops ! 1)); (c, out) = res ! 1 in
         if v = None then c = kIndexKeyNotFound else c = kSuccess \<and> out = v \<or> c = kIoBase \<and> out = None"
    by (rule T [THEN conjunct2, THEN conjunct2, THEN spec, THEN mp, THEN mp, OF _ g]) simp
  have G: "kv_run (take 1 ?ops) (take 1 res) Map.empty (op_key (?ops ! 1))
      = (if c0 = kSuccess then Some (op_bytes rx_demo_put) else None)"
    unfolding tk by (simp add: kv_after_def) (simp add: rx_demo_put_def)
  have "c0 = kSuccess \<longrightarrow> out \<in> {None, Some (op_bytes rx_demo_put)}"
    using F unfolding G Let_def x prod.case by (auto split: if_splits)
  then show "let (res, r) = run_ops rx_demo ?ops; (c, out) = res ! 1 in
    fst (res ! 0) = kSuccess \<longrightarrow> out \<in> {None, Some (op_bytes rx_demo_put)}"
    by (simp only: run Let_def prod.case x y fst_conv)
  obtain res' r' where run': "run_ops rx_demo [rx_demo_put\<lparr>op_kind := OpGet\<rparr>] = (res', r')" by fastforce
  show "fst (fst (run_ops rx_demo [rx_demo_put\<lparr>op_kind := OpGet\<rparr>]) ! 0) = kIndexKeyNotFound"
    using reactor_read_your_writes [OF rx_demo_holds run'] unfolding run' fst_conv
    by (auto simp: Let_def split: prod.splits)
qed

end
