(* ===== verification/Cabe_WalRecover.thy ===== *)
theory Cabe_WalRecover
  imports Cabe_Wal
begin

text \<open>
  \<open>wal/wal.cpp\<close>, recovery: the census of the whole ring, the walk that delivers the frames in
  sequence order from the first live one, the sweep of the rest of the ring, the erasure of
  torn fragments, the rebuilt window and the closing self-check.

  Sequence numbers and counters are \<open>uint64_t\<close>; \<open>nat\<close> with the wrap-around written out where an
  addition could wrap. A loop whose step is zero (only if the buffer size has wrapped to zero)
  does not end in C++ and gives \<open>None\<close> here. Scalars kept only for log messages are left out.
\<close>

definition BlockFloor :: "nat \<Rightarrow> nat" where
  "BlockFloor off = (off div kWalBlockSize) * kWalBlockSize"

section \<open>The census\<close>

record recover_census =
  cn_valid_count :: nat
  cn_live_count :: nat
  cn_min_live_seq :: nat
  cn_min_live_off :: nat
  cn_max_live_seq :: nat
  cn_max_live_off :: nat
  cn_max_valid_seq :: nat
  cn_max_valid_off :: nat

definition census_zero :: recover_census where
  "census_zero = \<lparr>cn_valid_count = 0, cn_live_count = 0, cn_min_live_seq = 0, cn_min_live_off = 0,
     cn_max_live_seq = 0, cn_max_live_off = 0, cn_max_valid_seq = 0, cn_max_valid_off = 0\<rparr>"

definition census_slot :: "nat \<Rightarrow> nat \<Rightarrow> bytes \<Rightarrow> recover_census \<Rightarrow> recover_census" where
  "census_slot covered_seq fo bs c =
     (let f = frame_of_bytes bs; sq = unat (f_seq f) in
      if \<not> VerifyFrame f then c else
      let c1 = c\<lparr>cn_valid_count := cn_valid_count c + 1\<rparr>;
          c2 = (if cn_max_valid_seq c1 < sq then c1\<lparr>cn_max_valid_seq := sq, cn_max_valid_off := fo\<rparr> else c1)
      in if sq \<le> covered_seq then c2 else
      let c3 = c2\<lparr>cn_live_count := cn_live_count c2 + 1\<rparr>;
          c4 = (if cn_live_count c3 = 1 \<or> sq < cn_min_live_seq c3
                then c3\<lparr>cn_min_live_seq := sq, cn_min_live_off := fo\<rparr> else c3)
      in if cn_max_live_seq c4 < sq then c4\<lparr>cn_max_live_seq := sq, cn_max_live_off := fo\<rparr> else c4)"

text \<open>The slots of one chunk, in order.\<close>

definition census_chunk :: "nat \<Rightarrow> nat \<Rightarrow> bytes \<Rightarrow> recover_census \<Rightarrow> recover_census" where
  "census_chunk covered_seq off buf c =
     foldl (\<lambda>c i. census_slot covered_seq (off + i * kWalFrameSize) (peek (i * kWalFrameSize) kWalFrameSize buf) c)
       c [0..<length buf div kWalFrameSize]"

function census_loop ::
  "nat \<Rightarrow> nat \<Rightarrow> nat \<Rightarrow> nat \<Rightarrow> recover_census \<Rightarrow> raw_device \<Rightarrow> (rc \<times> recover_census \<times> raw_device) option" where
  "census_loop buf_size ring_end covered_seq off c d =
     (if ring_end \<le> off then Some (kSuccess, c, d) else
      let len = min buf_size (ring_end - off) in
      case RawDevice_ReadAt d off len of (rc, buf, d1) \<Rightarrow>
      if rc \<noteq> kSuccess then Some (kWalRecoveryReadFailed, c, d1)
      else if len = 0 then None
      else census_loop buf_size ring_end covered_seq (off + len) (census_chunk covered_seq off buf c) d1)"
  by pat_completeness auto
termination
  by (relation "measure (\<lambda>(_, e, _, off, _, _). e - off)") auto

definition CensusScan :: "wal \<Rightarrow> nat \<Rightarrow> (rc \<times> recover_census \<times> wal) option" where
  "CensusScan w covered_seq =
     map_option (\<lambda>(c, cn, d). (c, cn, w\<lparr>w_dev := d\<rparr>))
       (census_loop (w_buf_size w) (w_ring_end w) covered_seq (w_ring_start w) census_zero (w_dev w))"

section \<open>The walk\<close>

text \<open>The variables of the second pass; the chunk cache is its offset and its bytes.\<close>

record 's wal_walk =
  wk_replayed :: nat
  wk_t_stop :: nat
  wk_anchor :: "(nat \<times> nat) option"
  wk_stop_off :: nat
  wk_fragments :: nat
  wk_blocks_crossed :: nat
  wk_prev_block :: nat
  wk_expected :: nat
  wk_in_run :: bool
  wk_pos :: nat
  wk_chunk :: "(nat \<times> bytes) option"
  wk_dev :: raw_device
  wk_state :: 's

definition walk_init :: "nat \<Rightarrow> nat \<Rightarrow> raw_device \<Rightarrow> 's \<Rightarrow> 's wal_walk" where
  "walk_init covered_seq pos d st =
     \<lparr>wk_replayed = 0, wk_t_stop = covered_seq, wk_anchor = None, wk_stop_off = 0, wk_fragments = 0,
      wk_blocks_crossed = 0, wk_prev_block = 2 ^ 64 - 1, wk_expected = (covered_seq + 1) mod 2 ^ 64,
      wk_in_run = True, wk_pos = pos, wk_chunk = None, wk_dev = d, wk_state = st\<rparr>"

definition chunk_covers :: "(nat \<times> bytes) option \<Rightarrow> nat \<Rightarrow> bool" where
  "chunk_covers ch pos = (case ch of None \<Rightarrow> False
     | Some (off, buf) \<Rightarrow> off \<le> pos \<and> pos + kWalFrameSize \<le> off + length buf)"

definition walk_fetch :: "wal \<Rightarrow> 's wal_walk \<Rightarrow> rc \<times> 's wal_walk" where
  "walk_fetch w k =
     (if chunk_covers (wk_chunk k) (wk_pos k) then (kSuccess, k) else
      let off = BlockFloor (wk_pos k); len = min (w_buf_size w) (w_ring_end w - off) in
      case RawDevice_ReadAt (wk_dev k) off len of (c, buf, d) \<Rightarrow>
      if c \<noteq> kSuccess then (kWalRecoveryReadFailed, k\<lparr>wk_dev := d\<rparr>)
      else (kSuccess, k\<lparr>wk_chunk := Some (off, buf), wk_dev := d\<rparr>))"

definition walk_frame :: "'s wal_walk \<Rightarrow> wal_frame" where
  "walk_frame k = (case wk_chunk k of None \<Rightarrow> frame_of_bytes []
     | Some (off, buf) \<Rightarrow> frame_of_bytes (peek (wk_pos k - off) kWalFrameSize buf))"

text \<open>Delivery of the expected frame.\<close>

definition walk_deliver ::
  "(wal_entry \<Rightarrow> u64 \<Rightarrow> 's \<Rightarrow> rc \<times> 's) \<Rightarrow> wal_frame \<Rightarrow> 's wal_walk \<Rightarrow> rc \<times> 's wal_walk" where
  "walk_deliver fn f k =
     (case fn (DecodeFrame f) (f_seq f) (wk_state k) of (c, st) \<Rightarrow>
      if c \<noteq> kSuccess then (c, k\<lparr>wk_state := st\<rparr>) else
      let blk = wk_pos k div kWalBlockSize in
      (kSuccess, k\<lparr>wk_state := st, wk_replayed := wk_replayed k + 1,
         wk_blocks_crossed := (if blk \<noteq> wk_prev_block k then wk_blocks_crossed k + 1 else wk_blocks_crossed k),
         wk_prev_block := blk, wk_anchor := Some (wk_pos k, unat (f_seq f)),
         wk_t_stop := unat (f_seq f), wk_expected := (wk_expected k + 1) mod 2 ^ 64\<rparr>))"

text \<open>A live frame outside the run must lie in the window behind the stop, with a sequence number
  of one window.\<close>

definition walk_sweep :: "wal \<Rightarrow> nat \<Rightarrow> wal_frame \<Rightarrow> 's wal_walk \<Rightarrow> rc \<times> 's wal_walk" where
  "walk_sweep w covered_seq f k =
     (let sq = unat (f_seq f) in
      if \<not> (VerifyFrame f \<and> covered_seq < sq) then (kSuccess, k) else
      let zone_end = min (BlockFloor (wk_stop_off k) + w_buf_size w) (w_ring_end w);
          max_frag_seq = (wk_t_stop k + w_buf_size w div kWalFrameSize) mod 2 ^ 64;
          phys_ok = (wk_stop_off k \<le> wk_pos k \<and> wk_pos k < zone_end);
          seq_ok = (wk_t_stop k < sq \<and> sq \<le> max_frag_seq)
      in if \<not> phys_ok \<or> \<not> seq_ok then (kWalRecoveryCorrupted, k)
         else (kSuccess, k\<lparr>wk_fragments := wk_fragments k + 1\<rparr>))"

definition walk_slot ::
  "wal \<Rightarrow> nat \<Rightarrow> (wal_entry \<Rightarrow> u64 \<Rightarrow> 's \<Rightarrow> rc \<times> 's) \<Rightarrow> 's wal_walk \<Rightarrow> rc \<times> 's wal_walk" where
  "walk_slot w covered_seq fn k =
     (case walk_fetch w k of (c, k1) \<Rightarrow>
      if c \<noteq> kSuccess then (c, k1) else
      let f = walk_frame k1 in
      case (if wk_in_run k1 then
              if VerifyFrame f \<and> unat (f_seq f) = wk_expected k1 then walk_deliver fn f k1
              else walk_sweep w covered_seq f (k1\<lparr>wk_in_run := False, wk_stop_off := wk_pos k1\<rparr>)
            else walk_sweep w covered_seq f k1) of (c2, k2) \<Rightarrow>
      if c2 \<noteq> kSuccess then (c2, k2) else
      let p = wk_pos k2 + kWalFrameSize in
      (kSuccess, k2\<lparr>wk_pos := (if p = w_ring_end w then w_ring_start w else p)\<rparr>))"

fun walk_loop ::
  "nat \<Rightarrow> wal \<Rightarrow> nat \<Rightarrow> (wal_entry \<Rightarrow> u64 \<Rightarrow> 's \<Rightarrow> rc \<times> 's) \<Rightarrow> 's wal_walk \<Rightarrow> rc \<times> 's wal_walk" where
  "walk_loop 0 w covered_seq fn k = (kSuccess, k)"
| "walk_loop (Suc n) w covered_seq fn k =
     (case walk_slot w covered_seq fn k of (c, k1) \<Rightarrow>
      if c \<noteq> kSuccess then (c, k1) else walk_loop n w covered_seq fn k1)"

section \<open>Rebuilding\<close>

text \<open>The fragments' zone behind the tail block is overwritten with zeros.\<close>

function erase_loop :: "nat \<Rightarrow> nat \<Rightarrow> nat \<Rightarrow> raw_device \<Rightarrow> (rc \<times> raw_device) option" where
  "erase_loop buf_size zone_end off d =
     (if zone_end \<le> off then Some (kSuccess, d) else
      let len = min buf_size (zone_end - off) in
      case RawDevice_WriteAt d off (zeros len) of (c, d1) \<Rightarrow>
      if c \<noteq> kSuccess then Some (kWalWriteFailed, d1)
      else if len = 0 then None
      else erase_loop buf_size zone_end (off + len) d1)"
  by pat_completeness auto
termination
  by (relation "measure (\<lambda>(_, e, off, _). e - off)") auto

definition set_anchor :: "wal \<Rightarrow> nat \<Rightarrow> nat \<Rightarrow> recover_census \<Rightarrow> wal" where
  "set_anchor w anchor_off anchor_seq cn =
     (let off0 = BlockFloor anchor_off;
          n0 = (anchor_off - off0) div kWalFrameSize + 1;
          full = (n0 = kWalFramesPerBlock);
          next0 = off0 + kWalBlockSize;
          off = (if full then (if next0 = w_ring_end w then w_ring_start w else next0) else off0)
      in w\<lparr>w_cur_off := off, w_n_frames := (if full then 0 else n0),
           w_head_off := (if 0 < cn_live_count cn then BlockFloor (cn_min_live_off cn) else off),
           w_seq_next := (anchor_seq + 1) mod 2 ^ 64\<rparr>)"

text \<open>Erase, read the tail block back into the buffer, rewrite it without the fragments, sync.\<close>

definition refill :: "wal \<Rightarrow> 's wal_walk \<Rightarrow> (rc \<times> wal) option" where
  "refill w k =
     (let stop_block = BlockFloor (wk_stop_off k);
          zone_end = min (stop_block + w_buf_size w) (w_ring_end w);
          zero_begin = (if 0 < w_n_frames w then w_cur_off w + kWalBlockSize else w_cur_off w)
      in case (if 0 < wk_fragments k then erase_loop (w_buf_size w) zone_end zero_begin (w_dev w)
               else Some (kSuccess, w_dev w)) of None \<Rightarrow> None | Some (c, d) \<Rightarrow>
      let w1 = w\<lparr>w_dev := d, w_buf := Some (zeros (w_buf_size w))\<rparr> in
      if c \<noteq> kSuccess then Some (c, w1) else
      case (if 0 < w_n_frames w then
              case RawDevice_ReadAt d (w_cur_off w) kWalBlockSize of (c1, blk, d1) \<Rightarrow>
              if c1 \<noteq> kSuccess then (kWalRecoveryReadFailed, w1\<lparr>w_dev := d1\<rparr>) else
              let used = w_n_frames w * kWalFrameSize;
                  buf = take used blk @ zeros (w_buf_size w - used);
                  w2 = w1\<lparr>w_dev := d1, w_buf := Some buf\<rparr> in
              if 0 < wk_fragments k then
                case RawDevice_WriteAt d1 (w_cur_off w) (take kWalBlockSize buf) of (c2, d2) \<Rightarrow>
                (if c2 \<noteq> kSuccess then kWalWriteFailed else kSuccess, w2\<lparr>w_dev := d2\<rparr>)
              else (kSuccess, w2)
            else (kSuccess, w1)) of (c3, w3) \<Rightarrow>
      if c3 \<noteq> kSuccess then Some (c3, w3)
      else if 0 < wk_fragments k then
        (case RawDevice_Sync (w_dev w3) of (c4, d4) \<Rightarrow>
         Some (if c4 \<noteq> kSuccess then kWalWriteFailed else kSuccess, w3\<lparr>w_dev := d4\<rparr>))
      else Some (kSuccess, w3))"

definition recover_check :: "wal \<Rightarrow> nat \<Rightarrow> recover_census \<Rightarrow> 's wal_walk \<Rightarrow> bool" where
  "recover_check w covered_seq cn k \<longleftrightarrow>
     (let ring = ring_bytes w;
          live_geo = (w_cur_off w + ring - w_head_off w) mod ring;
          expect_live = (if 0 < cn_live_count cn
            then (wk_blocks_crossed k - (if 0 < w_n_frames w then 1 else 0)) * kWalBlockSize else 0)
      in w_cur_off w mod kWalBlockSize = 0 \<and> w_head_off w mod kWalBlockSize = 0
       \<and> w_ring_start w \<le> w_cur_off w \<and> w_cur_off w < w_ring_end w
       \<and> w_ring_start w \<le> w_head_off w \<and> w_head_off w < w_ring_end w
       \<and> live_geo = expect_live \<and> (covered_seq + 1) mod 2 ^ 64 \<le> w_seq_next w
       \<and> w_n_frames w < kWalFramesPerBlock \<and> w_window_bytes w = WindowAt w (w_cur_off w)
       \<and> wk_replayed k + wk_fragments k = cn_live_count cn)"

definition recover_finish :: "wal \<Rightarrow> nat \<Rightarrow> recover_census \<Rightarrow> 's wal_walk \<Rightarrow> (rc \<times> 's \<times> wal) option" where
  "recover_finish w covered_seq cn k =
     (let (anchor_off, anchor_seq) =
        (case wk_anchor k of Some a \<Rightarrow> a | None \<Rightarrow> (cn_max_valid_off cn, cn_max_valid_seq cn)) in
      case refill (set_anchor w anchor_off anchor_seq cn) k of None \<Rightarrow> None | Some (c, w1) \<Rightarrow>
      if c \<noteq> kSuccess then Some (c, wk_state k, w1) else
      let w2 = w1\<lparr>w_window_bytes := WindowAt w1 (w_cur_off w1)\<rparr> in
      Some (if recover_check w2 covered_seq cn k then kSuccess else kWalRecoveryInvariant, wk_state k, w2))"

text \<open>The empty ring: as created.\<close>

definition recover_empty :: "wal \<Rightarrow> wal" where
  "recover_empty w =
     (let w1 = w\<lparr>w_buf := Some (zeros (w_buf_size w)), w_cur_off := w_ring_start w,
                 w_head_off := w_ring_start w, w_n_frames := 0, w_seq_next := 1\<rparr>
      in w1\<lparr>w_window_bytes := WindowAt w1 (w_cur_off w1)\<rparr>)"

section \<open>Recover\<close>

definition Wal_Recover ::
  "wal \<Rightarrow> nat \<Rightarrow> (wal_entry \<Rightarrow> u64 \<Rightarrow> 's \<Rightarrow> rc \<times> 's) \<Rightarrow> 's \<Rightarrow> (rc \<times> 's \<times> wal) option" where
  "Wal_Recover w covered_seq fn st =
     (if \<not> RawDevice_is_open (w_dev w) then Some (kEngineInvalidOpts, st, w)
      else if w_buf w \<noteq> None then Some (kEngineInvalidOpts, st, w) else
      case AllocAligned (w_dev w) of (a, d0) \<Rightarrow>
      if \<not> a then Some (kIoBase, st, w\<lparr>w_dev := d0\<rparr>) else
      let w0 = w\<lparr>w_dev := d0, w_buf := Some (zeros (w_buf_size w))\<rparr> in
      case CensusScan w0 covered_seq of None \<Rightarrow> None | Some (c, cn, w1) \<Rightarrow>
      if c \<noteq> kSuccess then Some (c, st, w1)
      else if cn_valid_count cn = 0 \<and> 0 < covered_seq then Some (kWalRecoveryCorrupted, st, w1)
      else if 0 < cn_live_count cn \<and> cn_min_live_seq cn \<noteq> (covered_seq + 1) mod 2 ^ 64
      then Some (kWalRecoveryCorrupted, st, w1) else
      let k0 = walk_init covered_seq (cn_min_live_off cn) (w_dev w1) st in
      case (if 0 < cn_live_count cn
            then walk_loop (ring_bytes w1 div kWalFrameSize) w1 covered_seq fn k0
            else (kSuccess, k0)) of (c2, k) \<Rightarrow>
      let w2 = w1\<lparr>w_dev := wk_dev k\<rparr> in
      if c2 \<noteq> kSuccess then Some (c2, wk_state k, w2)
      else if wk_anchor k = None \<and> cn_valid_count cn = 0 then Some (kSuccess, wk_state k, recover_empty w2)
      else recover_finish w2 covered_seq cn k)"

declare census_loop.simps [simp del] erase_loop.simps [simp del]

end
