(* ===== verification/Cabe_ValuePool.thy ===== *)
theory Cabe_ValuePool
  imports Cabe_WalFrame Cabe_Buffers
begin

text \<open>
  \<open>engine/value_buffer_pool.cpp\<close> and \<open>engine/value_buffer.cpp\<close>: the value buffers an
  application may fill in place and hand to a put. The free slots form a stack linked by slot
  number, whose head packs a tag and an index into 64 bits; a slot has a generation that moves
  on with every release. Each operation here is one caller running alone, so the compare-and-
  swap loops succeed at their first try. A buffer is its address.
\<close>

section \<open>The packed head\<close>

definition kInvalidSlot :: u32 where "kInvalidSlot = 0xFFFFFFFF"

definition PackHead :: "u32 \<Rightarrow> u32 \<Rightarrow> u64" where
  "PackHead tag index = push_bit 32 (ucast tag) OR ucast index"

definition HeadTag :: "u64 \<Rightarrow> u32" where
  "HeadTag head = ucast (drop_bit 32 head)"

definition HeadIndex :: "u64 \<Rightarrow> u32" where
  "HeadIndex head = ucast (head AND 0xFFFFFFFF)"

section \<open>State\<close>

record value_slot =
  vs_next_free :: u32
  vs_allocated :: bool
  vs_generation :: u32
  vs_bound_key :: bytes
  vs_data :: nat

record value_pool =
  vp_device_id :: device_id
  vp_pool_id :: u64
  vp_slot_count :: nat
  vp_total_size :: nat
  vp_base :: nat
  vp_slots :: "value_slot list"
  vp_closing :: bool
  vp_active_count :: u32
  vp_free_head :: u64

text \<open>The result of \<open>Create\<close>: \<open>base\<close> is what \<open>aligned_alloc\<close> returned and \<open>heap\<close> tells whether
  the other allocations succeed.\<close>

definition Create_pool :: "device_id \<Rightarrow> u64 \<Rightarrow> nat \<Rightarrow> nat option \<Rightarrow> bool \<Rightarrow> rc \<times> value_pool option" where
  "Create_pool d pid slot_count base heap =
     (if unat kInvalidSlot \<le> slot_count then (kEngineInvalidOpts, None)
      else if (2 ^ 64 - 1) div kValueSize < slot_count then (kEngineInvalidOpts, None)
      else if \<not> heap then (kEnginePoolExhausted, None)
      else if slot_count = 0 then
        (kSuccess, Some \<lparr>vp_device_id = d, vp_pool_id = pid, vp_slot_count = 0, vp_total_size = 0,
           vp_base = 0, vp_slots = [], vp_closing = False, vp_active_count = 0,
           vp_free_head = PackHead 0 kInvalidSlot\<rparr>)
      else case base of None \<Rightarrow> (kEnginePoolExhausted, None)
      | Some b \<Rightarrow>
        (kSuccess, Some \<lparr>vp_device_id = d, vp_pool_id = pid, vp_slot_count = slot_count,
           vp_total_size = slot_count * kValueSize, vp_base = b,
           vp_slots = map (\<lambda>i. \<lparr>vs_next_free = (if i + 1 = slot_count then kInvalidSlot else of_nat (i + 1)),
             vs_allocated = False, vs_generation = 1, vs_bound_key = [], vs_data = b + i * kValueSize\<rparr>)
             [0..<slot_count],
           vp_closing = False, vp_active_count = 0, vp_free_head = PackHead 0 0\<rparr>))"

section \<open>Release\<close>

definition DropActiveRef :: "value_pool \<Rightarrow> value_pool" where
  "DropActiveRef p = p\<lparr>vp_active_count := vp_active_count p - 1\<rparr>"

definition PushFreeSlot :: "nat \<Rightarrow> value_pool \<Rightarrow> value_pool" where
  "PushFreeSlot index p =
     (let head = vp_free_head p in
      p\<lparr>vp_slots := (vp_slots p)[index := (vp_slots p ! index)\<lparr>vs_next_free := HeadIndex head\<rparr>],
        vp_free_head := PackHead (HeadTag head + 1) (of_nat index)\<rparr>)"

definition ReleaseSlot :: "nat \<Rightarrow> u32 \<Rightarrow> value_pool \<Rightarrow> value_pool" where
  "ReleaseSlot index generation p =
     (if vp_slot_count p \<le> index then DropActiveRef p else
      let slot = vp_slots p ! index in
      if vs_generation slot \<noteq> generation then DropActiveRef p
      else if \<not> vs_allocated slot then DropActiveRef p
      else DropActiveRef (PushFreeSlot index
        (p\<lparr>vp_slots := (vp_slots p)[index := slot\<lparr>vs_allocated := False,
             vs_generation := vs_generation slot + 1\<rparr>]\<rparr>)))"

section \<open>Buffers\<close>

text \<open>A value buffer owns its control block (slot, generation, released flag); the moved-from and
  the reset buffer have none.\<close>

record value_control =
  vc_slot_index :: nat
  vc_slot_generation :: u32
  vc_released :: bool

record value_buffer =
  vb_control :: "value_control option"
  vb_data :: nat

definition ValueBuffer_empty :: value_buffer where
  "ValueBuffer_empty = \<lparr>vb_control = None, vb_data = 0\<rparr>"

definition vb_valid :: "value_buffer \<Rightarrow> bool" where
  "vb_valid b \<longleftrightarrow> (case vb_control b of None \<Rightarrow> False
     | Some c \<Rightarrow> vb_data b \<noteq> 0 \<and> \<not> vc_released c)"

definition vb_view :: "value_buffer \<Rightarrow> data_view" where
  "vb_view b = (if vb_valid b then \<lparr>dv_addr = vb_data b, dv_size = kValueSize\<rparr>
                else \<lparr>dv_addr = 0, dv_size = 0\<rparr>)"

definition control_Release :: "value_control \<Rightarrow> value_pool \<Rightarrow> value_control \<times> value_pool" where
  "control_Release c p =
     (if vc_released c then (c, p)
      else (c\<lparr>vc_released := True\<rparr>, ReleaseSlot (vc_slot_index c) (vc_slot_generation c) p))"

definition vb_reset :: "value_buffer \<Rightarrow> value_pool \<Rightarrow> value_buffer \<times> value_pool" where
  "vb_reset b p =
     (case vb_control b of None \<Rightarrow> (b\<lparr>vb_data := 0\<rparr>, p)
      | Some c \<Rightarrow> (ValueBuffer_empty, snd (control_Release c p)))"

text \<open>Move construction and move assignment: the source is left empty, the target's old buffer
  is released.\<close>

definition vb_move :: "value_buffer \<Rightarrow> value_buffer \<times> value_buffer" where
  "vb_move other = (\<lparr>vb_control = vb_control other, vb_data = vb_data other\<rparr>, ValueBuffer_empty)"

definition vb_assign ::
  "value_buffer \<Rightarrow> value_buffer \<Rightarrow> value_pool \<Rightarrow> value_buffer \<times> value_buffer \<times> value_pool" where
  "vb_assign this other p =
     (case vb_reset this p of (_, p') \<Rightarrow> (other, ValueBuffer_empty, p'))"

section \<open>Allocation\<close>

text \<open>\<open>heap\<close> tells whether the control block can be allocated.\<close>

definition vp_Allocate :: "value_pool \<Rightarrow> bytes \<Rightarrow> bool \<Rightarrow> rc \<times> value_buffer \<times> value_pool" where
  "vp_Allocate p bound_key heap =
     (if bound_key = [] then (kMemEmptyKey, ValueBuffer_empty, p)
      else if kWalKeyMax < length bound_key then (kWalKeyTooLong, ValueBuffer_empty, p)
      else if vp_closing p then (kEngineNotOpen, ValueBuffer_empty, p) else
      let p1 = p\<lparr>vp_active_count := vp_active_count p + 1\<rparr>;
          head = vp_free_head p1; index = HeadIndex head in
      if index = kInvalidSlot then (kEnginePoolExhausted, ValueBuffer_empty, DropActiveRef p1) else
      let slot = vp_slots p1 ! unat index;
          slot' = slot\<lparr>vs_bound_key := bound_key, vs_allocated := True\<rparr>;
          p2 = p1\<lparr>vp_free_head := PackHead (HeadTag head + 1) (vs_next_free slot),
                   vp_slots := (vp_slots p1)[unat index := slot']\<rparr>
      in if heap then
           (kSuccess, \<lparr>vb_control = Some \<lparr>vc_slot_index = unat index,
              vc_slot_generation = vs_generation slot', vc_released = False\<rparr>, vb_data = vs_data slot'\<rparr>, p2)
         else (kEnginePoolExhausted, ValueBuffer_empty, ReleaseSlot (unat index) (vs_generation slot') p2))"

section \<open>Identification\<close>

datatype probe_kind = NotInPool | AllocatedSlot | ProbePoolAddressNotAllocated

record source_info =
  si_kind :: probe_kind
  si_matched :: bool
  si_device_id :: device_id
  si_pool_id :: u64
  si_slot_index :: u32
  si_slot_generation :: u32
  si_bound_key :: bytes

definition info_none :: source_info where
  "info_none = \<lparr>si_kind = NotInPool, si_matched = False, si_device_id = 0, si_pool_id = 0,
     si_slot_index = 0, si_slot_generation = 0, si_bound_key = []\<rparr>"

text \<open>The second check of generation and state, against a release in between, always agrees when
  the call runs alone.\<close>

definition Identify :: "value_pool \<Rightarrow> data_view \<Rightarrow> source_info" where
  "Identify p value =
     (let addr = dv_addr value; offset = addr - vp_base p; slot_index = offset div kValueSize;
          outside = info_none\<lparr>si_kind := ProbePoolAddressNotAllocated, si_device_id := vp_device_id p,
                              si_pool_id := vp_pool_id p\<rparr>;
          slot = vp_slots p ! slot_index
      in if addr = 0 \<or> vp_slot_count p = 0 \<or> vp_base p = 0 then info_none
      else if addr < vp_base p \<or> vp_base p + vp_total_size p \<le> addr then info_none
      else if dv_size value \<noteq> kValueSize then outside
      else if offset mod kValueSize \<noteq> 0 then outside
      else if vp_slot_count p \<le> slot_index then outside
      else if \<not> vs_allocated slot then outside
      else outside\<lparr>si_kind := AllocatedSlot, si_matched := True,
             si_slot_index := of_nat slot_index, si_slot_generation := vs_generation slot,
             si_bound_key := vs_bound_key slot\<rparr>)"

definition BoundKeyEquals :: "source_info \<Rightarrow> bytes \<Rightarrow> bool" where
  "BoundKeyEquals info key \<longleftrightarrow> si_matched info \<and> si_bound_key info = key"

section \<open>Closing and registration\<close>

definition BeginClose :: "value_pool \<Rightarrow> value_pool" where
  "BeginClose p = p\<lparr>vp_closing := True\<rparr>"

text \<open>\<open>WaitUntilIdle\<close> returns when this holds.\<close>

definition pool_idle :: "value_pool \<Rightarrow> bool" where
  "pool_idle p \<longleftrightarrow> vp_active_count p = 0"

record slot_view =
  sv_data :: nat
  sv_size :: nat
  sv_slot_index :: u32

definition ExportSlotViews :: "value_pool \<Rightarrow> nat \<Rightarrow> slot_view list" where
  "ExportSlotViews p out_size =
     (if vp_slot_count p = 0 then []
      else map (\<lambda>i. \<lparr>sv_data = vs_data (vp_slots p ! i), sv_size = kValueSize, sv_slot_index = of_nat i\<rparr>)
             [0..<min out_size (vp_slot_count p)])"

end
