(* ===== verification/Cabe_SpdkConfig.thy ===== *)
theory Cabe_SpdkConfig
  imports Cabe_Structs "HOL-Library.Char_ord"
begin

text \<open>
  \<open>engine/spdk_config.cpp\<close>: validation of the SPDK device configuration into an immutable plan.
  The three fixed phases run over all groups and roles in turn (addresses, namespace ids, byte
  ranges); then every pair of entries is checked for overlap. Only the return code tells which
  check failed; log messages are left out.
\<close>

section \<open>Configuration and plan\<close>

record spdk_byte_range =
  rg_offset :: u64
  rg_length :: u64

record spdk_namespace_config =
  nc_bdf :: string
  nc_nsid :: u32
  nc_range :: "spdk_byte_range option"

record spdk_device_config =
  sd_data :: spdk_namespace_config
  sd_wal :: spdk_namespace_config
  sd_snapshot :: spdk_namespace_config

datatype device_config_family = Raw | Spdk
datatype spdk_role = RoleData | RoleWal | RoleSnapshot

record canonical_bdf =
  cb_domain :: u16
  cb_bus :: u8
  cb_device :: u8
  cb_function :: u8
  cb_text :: string

record namespace_plan =
  np_bdf :: canonical_bdf
  np_nsid :: u32
  np_range :: "spdk_byte_range option"

record device_plan =
  dp_data :: namespace_plan
  dp_wal :: namespace_plan
  dp_snapshot :: namespace_plan

definition kMaxSpdkDeviceGroups :: nat where "kMaxSpdkDeviceGroups = 256"
definition kNvmeGlobalNamespaceId :: u32 where "kNvmeGlobalNamespaceId = 0xFFFFFFFF"

definition kRoles :: "spdk_role list" where
  "kRoles = [RoleData, RoleWal, RoleSnapshot]"

fun NamespaceConfig :: "spdk_device_config \<Rightarrow> spdk_role \<Rightarrow> spdk_namespace_config" where
  "NamespaceConfig c RoleData = sd_data c"
| "NamespaceConfig c RoleWal = sd_wal c"
| "NamespaceConfig c RoleSnapshot = sd_snapshot c"

section \<open>Addresses\<close>

fun hex_digit :: "char \<Rightarrow> nat option" where
  "hex_digit ch =
     (let n = of_char ch :: nat in
      if 48 \<le> n \<and> n \<le> 57 then Some (n - 48)
      else if 97 \<le> n \<and> n \<le> 102 then Some (n - 97 + 10)
      else if 65 \<le> n \<and> n \<le> 70 then Some (n - 65 + 10)
      else None)"

fun parse_hex_from :: "nat \<Rightarrow> string \<Rightarrow> nat option" where
  "parse_hex_from value [] = Some value"
| "parse_hex_from value (ch # text) =
     (case hex_digit ch of None \<Rightarrow> None
      | Some digit \<Rightarrow> parse_hex_from ((value * 16 + digit) mod 2 ^ 32) text)"

definition ParseHex :: "string \<Rightarrow> nat option" where
  "ParseHex text = parse_hex_from 0 text"

text \<open>\<open>std::tolower\<close> in the C locale.\<close>

definition to_lower :: "char \<Rightarrow> char" where
  "to_lower ch = (let n = of_char ch :: nat in if 65 \<le> n \<and> n \<le> 90 then char_of (n + 32) else ch)"

definition substr :: "nat \<Rightarrow> nat \<Rightarrow> string \<Rightarrow> string" where
  "substr pos n text = take n (drop pos text)"

definition ParseBdf :: "string \<Rightarrow> canonical_bdf option" where
  "ParseBdf text =
     (if length text \<noteq> 12 \<or> text ! 4 \<noteq> CHR '':'' \<or> text ! 7 \<noteq> CHR '':'' \<or> text ! 10 \<noteq> CHR ''.''
      then None else
      case (ParseHex (substr 0 4 text), ParseHex (substr 5 2 text), ParseHex (substr 8 2 text),
            ParseHex (substr 11 1 text)) of
        (Some domain, Some bus, Some device, Some function) \<Rightarrow>
          if 0x1F < device \<or> 7 < function then None
          else Some \<lparr>cb_domain = of_nat domain, cb_bus = of_nat bus, cb_device = of_nat device,
                     cb_function = of_nat function, cb_text = map to_lower text\<rparr>
      | _ \<Rightarrow> None)"

section \<open>Ranges and namespaces\<close>

definition ValidRange :: "spdk_byte_range \<Rightarrow> bool" where
  "ValidRange r \<longleftrightarrow>
     (if rg_length r = 0 then False
      else if unat (rg_offset r) mod kSuperBlockSize \<noteq> 0 \<or> unat (rg_length r) mod kSuperBlockSize \<noteq> 0 then False
      else rg_offset r \<le> - 1 - rg_length r)"

definition SameNamespace :: "namespace_plan \<Rightarrow> namespace_plan \<Rightarrow> bool" where
  "SameNamespace l r \<longleftrightarrow> cb_domain (np_bdf l) = cb_domain (np_bdf r) \<and> cb_bus (np_bdf l) = cb_bus (np_bdf r)
     \<and> cb_device (np_bdf l) = cb_device (np_bdf r) \<and> cb_function (np_bdf l) = cb_function (np_bdf r)
     \<and> np_nsid l = np_nsid r"

definition RangesOverlap :: "namespace_plan \<Rightarrow> namespace_plan \<Rightarrow> bool" where
  "RangesOverlap l r \<longleftrightarrow>
     (case (np_range l, np_range r) of
        (Some a, Some b) \<Rightarrow> rg_offset a < rg_offset b + rg_length b \<and> rg_offset b < rg_offset a + rg_length a
      | _ \<Rightarrow> True)"

section \<open>The plan\<close>

definition ValidateDeviceConfigFamily :: "'r list \<Rightarrow> 's list \<Rightarrow> device_config_family \<Rightarrow> rc" where
  "ValidateDeviceConfigFamily devices spdk_devices expected =
     (let has_raw = (devices \<noteq> []); has_spdk = (spdk_devices \<noteq> []);
          exactly_one = (has_raw \<noteq> has_spdk);
          expected_present = (case expected of Raw \<Rightarrow> has_raw | Spdk \<Rightarrow> has_spdk)
      in if \<not> exactly_one \<or> \<not> expected_present then kSpdkInvalidConfig else kSuccess)"

text \<open>A configuration with its position in the nested loops: the groups in order, the roles of a
  group in order.\<close>

definition all_namespaces :: "spdk_device_config list \<Rightarrow> spdk_namespace_config list" where
  "all_namespaces devices = concat (map (\<lambda>c. map (NamespaceConfig c) kRoles) devices)"

definition bdf_phase :: "spdk_namespace_config list \<Rightarrow> bool" where
  "bdf_phase ns \<longleftrightarrow> (\<forall>c \<in> set ns. ParseBdf (nc_bdf c) \<noteq> None)"

definition nsid_phase :: "spdk_namespace_config list \<Rightarrow> bool" where
  "nsid_phase ns \<longleftrightarrow> (\<forall>c \<in> set ns. \<not> (nc_nsid c = 0 \<or> nc_nsid c = kNvmeGlobalNamespaceId))"

definition range_phase :: "spdk_namespace_config list \<Rightarrow> bool" where
  "range_phase ns \<longleftrightarrow> (\<forall>c \<in> set ns. \<not> (nc_range c \<noteq> None \<and> \<not> ValidRange (the (nc_range c))))"

definition plan_of :: "spdk_namespace_config \<Rightarrow> namespace_plan" where
  "plan_of c = \<lparr>np_bdf = the (ParseBdf (nc_bdf c)), np_nsid = nc_nsid c, np_range = nc_range c\<rparr>"

definition device_plan_of :: "spdk_device_config \<Rightarrow> device_plan" where
  "device_plan_of c = \<lparr>dp_data = plan_of (sd_data c), dp_wal = plan_of (sd_wal c),
     dp_snapshot = plan_of (sd_snapshot c)\<rparr>"

text \<open>The pairs \<open>left < right\<close> of the two loops.\<close>

fun pairwise_conflict :: "namespace_plan list \<Rightarrow> bool" where
  "pairwise_conflict [] = False"
| "pairwise_conflict (l # rs) \<longleftrightarrow>
     (\<exists>r \<in> set rs. SameNamespace l r \<and> RangesOverlap l r) \<or> pairwise_conflict rs"

definition BuildSpdkOpenPlan :: "'r list \<Rightarrow> spdk_device_config list \<Rightarrow> rc \<times> device_plan list" where
  "BuildSpdkOpenPlan devices spdk_devices =
     (let ns = all_namespaces spdk_devices in
      if ValidateDeviceConfigFamily devices spdk_devices Spdk \<noteq> kSuccess then (kSpdkInvalidConfig, [])
      else if kMaxSpdkDeviceGroups < length spdk_devices then (kSpdkInvalidConfig, [])
      else if \<not> bdf_phase ns then (kSpdkInvalidConfig, [])
      else if \<not> nsid_phase ns then (kSpdkInvalidConfig, [])
      else if \<not> range_phase ns then (kSpdkInvalidConfig, [])
      else if pairwise_conflict (map plan_of ns) then (kSpdkNamespaceOverlap, [])
      else (kSuccess, map device_plan_of spdk_devices))"

section \<open>What an accepted plan guarantees\<close>

text \<open>The entries of a plan in the order of the loops; the byte interval of an entry, and
  "disjoint": another namespace, or ranges without a common byte.\<close>

definition plan_entries :: "device_plan list \<Rightarrow> namespace_plan list" where
  "plan_entries plan = concat (map (\<lambda>d. [dp_data d, dp_wal d, dp_snapshot d]) plan)"

definition range_bytes :: "spdk_byte_range \<Rightarrow> nat set" where
  "range_bytes r = {unat (rg_offset r)..<unat (rg_offset r) + unat (rg_length r)}"

definition apart :: "namespace_plan \<Rightarrow> namespace_plan \<Rightarrow> bool" where
  "apart l r \<longleftrightarrow> SameNamespace l r \<longrightarrow>
     (\<exists>a b. np_range l = Some a \<and> np_range r = Some b \<and> range_bytes a \<inter> range_bytes b = {})"

lemma plan_entries_of: "plan_entries (map device_plan_of ds) = map plan_of (all_namespaces ds)"
  by (induction ds) (simp_all add: plan_entries_def all_namespaces_def device_plan_of_def kRoles_def)

lemma ValidRange_bounds:
  assumes "ValidRange r"
  shows "unat (rg_offset r) + unat (rg_length r) < 2 ^ 64" "0 < unat (rg_length r)"
    "4096 dvd unat (rg_offset r)" "4096 dvd unat (rg_length r)"
    "unat (rg_offset r + rg_length r) = unat (rg_offset r) + unat (rg_length r)"
proof -
  have le: "rg_offset r \<le> - 1 - rg_length r" and nz: "rg_length r \<noteq> 0"
    using assms by (auto simp: ValidRange_def split: if_splits)
  have "unat (- 1 - rg_length r) = 2 ^ 64 - 1 - unat (rg_length r)"
    by (simp add: unat_sub [OF word_n1_ge] unsigned_minus_1_eq_mask mask_eq_exp_minus_1)
  then have "unat (rg_offset r) \<le> 2 ^ 64 - 1 - unat (rg_length r)"
    using le by (simp add: word_le_nat_alt)
  moreover have "unat (rg_length r) < 2 ^ 64" using unsigned_less [of "rg_length r"] by simp
  ultimately show lt: "unat (rg_offset r) + unat (rg_length r) < 2 ^ 64" by linarith
  show "0 < unat (rg_length r)" using nz by (simp add: unat_gt_0)
  show "4096 dvd unat (rg_offset r)" "4096 dvd unat (rg_length r)"
    using assms by (auto simp: ValidRange_def kSuperBlockSize_def split: if_splits)
  show "unat (rg_offset r + rg_length r) = unat (rg_offset r) + unat (rg_length r)"
    using lt by (simp add: unat_word_ariths)
qed

lemma RangesOverlap_iff:
  assumes "\<And>a. np_range l = Some a \<Longrightarrow> ValidRange a" "\<And>b. np_range r = Some b \<Longrightarrow> ValidRange b"
  shows "\<not> (SameNamespace l r \<and> RangesOverlap l r) \<longleftrightarrow> apart l r"
proof (cases "np_range l")
  case (Some a)
  show ?thesis
  proof (cases "np_range r")
    case b: (Some b)
    note A = ValidRange_bounds [OF assms(1) [OF Some]] and B = ValidRange_bounds [OF assms(2) [OF b]]
    have "RangesOverlap l r \<longleftrightarrow> range_bytes a \<inter> range_bytes b \<noteq> {}"
      using A B by (auto simp: RangesOverlap_def Some b range_bytes_def word_less_nat_alt)
    then show ?thesis by (auto simp: apart_def Some b)
  qed (simp add: apart_def RangesOverlap_def Some)
qed (simp add: apart_def RangesOverlap_def)

lemma SameNamespace_sym: "SameNamespace l r = SameNamespace r l"
  by (auto simp: SameNamespace_def)

lemma apart_sym: "apart l r = apart r l"
  unfolding apart_def SameNamespace_sym [of l r] by blast

lemma pairwise_conflict_iff:
  assumes "\<And>p a. p \<in> set ps \<Longrightarrow> np_range p = Some a \<Longrightarrow> ValidRange a"
  shows "\<not> pairwise_conflict ps \<longleftrightarrow> (\<forall>j < length ps. \<forall>i < j. apart (ps ! i) (ps ! j))"
  using assms
proof (induction ps)
  case (Cons l rs)
  have R: "\<not> (SameNamespace l r \<and> RangesOverlap l r) \<longleftrightarrow> apart l r" if "r \<in> set rs" for r
    by (rule RangesOverlap_iff) (use Cons.prems that in auto)
  have IH: "\<not> pairwise_conflict rs \<longleftrightarrow> (\<forall>j < length rs. \<forall>i < j. apart (rs ! i) (rs ! j))"
    by (rule Cons.IH) (use Cons.prems in auto)
  have "(\<forall>r \<in> set rs. apart l r) \<longleftrightarrow> (\<forall>j < length rs. apart l (rs ! j))" by (simp add: all_set_conv_all_nth)
  then have "\<not> pairwise_conflict (l # rs) \<longleftrightarrow>
     (\<forall>j < length rs. apart l (rs ! j)) \<and> (\<forall>j < length rs. \<forall>i < j. apart (rs ! i) (rs ! j))"
    using R IH by simp
  also have "\<dots> \<longleftrightarrow> (\<forall>j < length (l # rs). \<forall>i < j. apart ((l # rs) ! i) ((l # rs) ! j))" (is "?L \<longleftrightarrow> ?R")
  proof
    assume L: ?L
    show ?R
    proof (intro allI impI)
      fix j i
      assume "j < length (l # rs)" "i < j"
      then show "apart ((l # rs) ! i) ((l # rs) ! j)" using L by (cases j; cases i; simp)
    qed
  next
    assume R: ?R
    then have R': "apart ((l # rs) ! i) ((l # rs) ! j)" if "j < length (l # rs)" "i < j" for i j
      using that by blast
    show ?L
    proof (intro conjI allI impI)
      show "apart l (rs ! j)" if "j < length rs" for j using R' [of "Suc j" 0] that by simp
      show "apart (rs ! i) (rs ! j)" if "j < length rs" "i < j" for i j using R' [of "Suc j" "Suc i"] that by simp
    qed
  qed
  finally show ?case .
qed simp


text \<open>Two groups on one controller: ranges of namespace 1, and namespace 2 as a whole.\<close>

definition demo_bdf :: string where "demo_bdf = ''0000:1A:00.0''"

definition demo_ns :: "u32 \<Rightarrow> spdk_byte_range option \<Rightarrow> spdk_namespace_config" where
  "demo_ns nsid r = \<lparr>nc_bdf = demo_bdf, nc_nsid = nsid, nc_range = r\<rparr>"

definition demo_spdk :: "u64 \<Rightarrow> spdk_device_config list" where
  "demo_spdk second = [\<lparr>sd_data = demo_ns 1 (Some \<lparr>rg_offset = 0, rg_length = 8192\<rparr>),
     sd_wal = demo_ns 1 (Some \<lparr>rg_offset = second, rg_length = 4096\<rparr>), sd_snapshot = demo_ns 2 None\<rparr>]"

lemma demo_bdf_parse: "ParseBdf demo_bdf =
    Some \<lparr>cb_domain = 0, cb_bus = 26, cb_device = 0, cb_function = 0, cb_text = ''0000:1a:00.0''\<rparr>"
  by (simp add: ParseBdf_def demo_bdf_def substr_def ParseHex_def to_lower_def Let_def
      of_char_def char_of_def bit_Suc_0_iff)

lemma demo_plan: "fst (BuildSpdkOpenPlan ([] :: unit list) (demo_spdk x))
    = (if x = 8192 then kSuccess else if x = 4096 then kSpdkNamespaceOverlap
       else fst (BuildSpdkOpenPlan ([] :: unit list) (demo_spdk x)))"
  by (simp add: BuildSpdkOpenPlan_def demo_spdk_def demo_ns_def ValidateDeviceConfigFamily_def
      all_namespaces_def kRoles_def bdf_phase_def demo_bdf_parse nsid_phase_def range_phase_def
      kNvmeGlobalNamespaceId_def kMaxSpdkDeviceGroups_def ValidRange_def kSuperBlockSize_def
      plan_of_def SameNamespace_def RangesOverlap_def Let_def)


section \<open>Canonical addresses\<close>

text \<open>The textual form of an address.\<close>

definition hex_char :: "nat \<Rightarrow> char" where
  "hex_char n = char_of (if n < 10 then 48 + n else 87 + n)"

definition format_bdf :: "canonical_bdf \<Rightarrow> string" where
  "format_bdf b =
     (let d = unat (cb_domain b); u = unat (cb_bus b); v = unat (cb_device b) in
      [hex_char (d div 4096), hex_char (d div 256 mod 16), hex_char (d div 16 mod 16), hex_char (d mod 16),
       CHR '':'', hex_char (u div 16), hex_char (u mod 16), CHR '':'', hex_char (v div 16), hex_char (v mod 16),
       CHR ''.'', hex_char (unat (cb_function b))])"

lemma of_char_of_small: "n < 256 \<Longrightarrow> of_char (char_of n :: char) = (n :: nat)"
  by simp

lemma hex_digit_lower:
  assumes "hex_digit c = Some d"
  shows "d < 16" "to_lower c = hex_char d"
proof -
  obtain n where n: "of_char c = (n :: nat)" "c = char_of n" by (metis char_of_char)
  show "d < 16" "to_lower c = hex_char d"
    using assms by (auto simp: n Let_def to_lower_def hex_char_def split: if_splits)
qed

lemma hex_digit_char:
  assumes "d < 16"
  shows "hex_digit (hex_char d) = Some d" "to_lower (hex_char d) = hex_char d"
  using assms of_char_of_small [of "48 + d"] of_char_of_small [of "87 + d"]
  by (simp_all add: hex_char_def Let_def to_lower_def del: of_char_of)

lemma ParseHex_1: "ParseHex [a] = Some n \<longleftrightarrow> hex_digit a = Some n"
  by (auto simp: ParseHex_def simp del: hex_digit.simps dest: hex_digit_lower split: option.splits)

lemma ParseHex_2: "ParseHex [a, b] = Some n \<longleftrightarrow>
   (\<exists>x y. hex_digit a = Some x \<and> hex_digit b = Some y \<and> n = 16 * x + y)"
  by (auto simp: ParseHex_def simp del: hex_digit.simps dest!: hex_digit_lower(1) split: option.splits)

lemma ParseHex_4: "ParseHex [a, b, c, d] = Some n \<longleftrightarrow>
   (\<exists>x y z w. hex_digit a = Some x \<and> hex_digit b = Some y \<and> hex_digit c = Some z \<and> hex_digit d = Some w
      \<and> n = 4096 * x + 256 * y + 16 * z + w)"
  by (auto simp: ParseHex_def simp del: hex_digit.simps dest!: hex_digit_lower(1) split: option.splits)

lemma lower_punct: "to_lower CHR '':'' = CHR '':''" "to_lower CHR ''.'' = CHR ''.''"
  by (simp_all add: to_lower_def Let_def of_char_def)

text \<open>A text that parses is an address written digit by digit.\<close>

lemma ParseBdf_digits:
  assumes "ParseBdf text = Some b"
  obtains a0 a1 a2 a3 b0 b1 d0 d1 f c0 c1 c2 c3 c4 c5 c6 c7 c8 where
    "text = [c0, c1, c2, c3, CHR '':'', c4, c5, CHR '':'', c6, c7, CHR ''.'', c8]"
    "hex_digit c0 = Some a0" "hex_digit c1 = Some a1" "hex_digit c2 = Some a2" "hex_digit c3 = Some a3"
    "hex_digit c4 = Some b0" "hex_digit c5 = Some b1" "hex_digit c6 = Some d0" "hex_digit c7 = Some d1"
    "hex_digit c8 = Some f" "16 * d0 + d1 \<le> 31" "f \<le> 7"
    "b = \<lparr>cb_domain = of_nat (4096 * a0 + 256 * a1 + 16 * a2 + a3), cb_bus = of_nat (16 * b0 + b1),
       cb_device = of_nat (16 * d0 + d1), cb_function = of_nat f, cb_text = map to_lower text\<rparr>"
proof -
  have len: "length text = Suc (Suc (Suc (Suc (Suc (Suc (Suc (Suc (Suc (Suc (Suc (Suc 0)))))))))))"
    using assms by (simp add: ParseBdf_def split: if_splits)
  obtain c0 c1 c2 c3 p c4 c5 q c6 c7 r c8 where t: "text = [c0, c1, c2, c3, p, c4, c5, q, c6, c7, r, c8]"
    using len unfolding length_Suc_conv length_0_conv by blast
  have punct: "p = CHR '':''" "q = CHR '':''" "r = CHR ''.''"
    using assms by (auto simp: ParseBdf_def t split: if_splits)
  obtain dm bs dv fn where P: "ParseHex [c0, c1, c2, c3] = Some dm" "ParseHex [c4, c5] = Some bs"
    "ParseHex [c6, c7] = Some dv" "ParseHex [c8] = Some fn" "dv \<le> 31" "fn \<le> 7"
    "b = \<lparr>cb_domain = of_nat dm, cb_bus = of_nat bs, cb_device = of_nat dv, cb_function = of_nat fn,
          cb_text = map to_lower text\<rparr>"
    using assms by (auto simp: ParseBdf_def t punct substr_def split: option.splits if_splits)
  obtain a0 a1 a2 a3 where A: "hex_digit c0 = Some a0" "hex_digit c1 = Some a1" "hex_digit c2 = Some a2"
    "hex_digit c3 = Some a3" "dm = 4096 * a0 + 256 * a1 + 16 * a2 + a3"
    using P(1) unfolding ParseHex_4 by blast
  obtain b0 b1 where B: "hex_digit c4 = Some b0" "hex_digit c5 = Some b1" "bs = 16 * b0 + b1"
    using P(2) unfolding ParseHex_2 by blast
  obtain d0 d1 where D: "hex_digit c6 = Some d0" "hex_digit c7 = Some d1" "dv = 16 * d0 + d1"
    using P(3) unfolding ParseHex_2 by blast
  have f: "hex_digit c8 = Some fn" using P(4) unfolding ParseHex_1 .
  show thesis
    by (rule that [OF t [unfolded punct] A(1-4) B(1,2) D(1,2) f P(5) [unfolded D(3)] P(6)
        P(7) [unfolded A(5) B(3) D(3)]])
qed

lemma ParseBdf_chars:
  assumes "a0 < 16" "a1 < 16" "a2 < 16" "a3 < 16" "b0 < 16" "b1 < 16" "d0 < 16" "d1 < 16"
    and "16 * d0 + d1 \<le> 31" "f \<le> 7"
  shows "ParseBdf [hex_char a0, hex_char a1, hex_char a2, hex_char a3, CHR '':'', hex_char b0, hex_char b1,
       CHR '':'', hex_char d0, hex_char d1, CHR ''.'', hex_char f]
    = Some \<lparr>cb_domain = of_nat (4096 * a0 + 256 * a1 + 16 * a2 + a3), cb_bus = of_nat (16 * b0 + b1),
        cb_device = of_nat (16 * d0 + d1), cb_function = of_nat f,
        cb_text = [hex_char a0, hex_char a1, hex_char a2, hex_char a3, CHR '':'', hex_char b0, hex_char b1,
          CHR '':'', hex_char d0, hex_char d1, CHR ''.'', hex_char f]\<rparr>"
proof -
  have f16: "f < 16" using assms(10) by simp
  have "ParseHex [hex_char a0, hex_char a1, hex_char a2, hex_char a3]
      = Some (4096 * a0 + 256 * a1 + 16 * a2 + a3)"
    "ParseHex [hex_char b0, hex_char b1] = Some (16 * b0 + b1)"
    "ParseHex [hex_char d0, hex_char d1] = Some (16 * d0 + d1)" "ParseHex [hex_char f] = Some f"
    unfolding ParseHex_4 ParseHex_2 ParseHex_1 using assms f16 hex_digit_char(1) by blast+
  then show ?thesis
    using assms f16 by (simp add: ParseBdf_def substr_def hex_digit_char(2) lower_punct)
qed

lemma ParseBdf_format:
  assumes "ParseBdf text = Some b"
  shows "cb_text b = format_bdf b \<and> ParseBdf (cb_text b) = Some b
    \<and> unat (cb_device b) < 32 \<and> unat (cb_function b) < 8"
proof (rule ParseBdf_digits [OF assms])
  fix a0 a1 a2 a3 b0 b1 d0 d1 f :: nat and c0 c1 c2 c3 c4 c5 c6 c7 c8
  assume t: "text = [c0, c1, c2, c3, CHR '':'', c4, c5, CHR '':'', c6, c7, CHR ''.'', c8]"
    and h: "hex_digit c0 = Some a0" "hex_digit c1 = Some a1" "hex_digit c2 = Some a2" "hex_digit c3 = Some a3"
      "hex_digit c4 = Some b0" "hex_digit c5 = Some b1" "hex_digit c6 = Some d0" "hex_digit c7 = Some d1"
      "hex_digit c8 = Some f"
    and le: "16 * d0 + d1 \<le> 31" "f \<le> 7"
    and b: "b = \<lparr>cb_domain = of_nat (4096 * a0 + 256 * a1 + 16 * a2 + a3), cb_bus = of_nat (16 * b0 + b1),
       cb_device = of_nat (16 * d0 + d1), cb_function = of_nat f, cb_text = map to_lower text\<rparr>"
  note dg = h [THEN hex_digit_lower(1)] and lo = h [THEN hex_digit_lower(2)]
  let ?dm = "4096 * a0 + 256 * a1 + 16 * a2 + a3"
  have bounds: "?dm < 2 ^ 16" "16 * b0 + b1 < 2 ^ 8" "16 * d0 + d1 < 2 ^ 8" "f < 2 ^ 8"
    using dg le by simp_all
  have un: "unat (cb_domain b) = ?dm" "unat (cb_bus b) = 16 * b0 + b1" "unat (cb_device b) = 16 * d0 + d1"
    "unat (cb_function b) = f"
    using bounds by (simp_all add: b unat_of_nat take_bit_nat_eq_self del: of_nat_add of_nat_mult)
  have q: "?dm div 4096 = a0" "?dm div 256 = 16 * a0 + a1" "?dm div 16 = 16 * (16 * a0 + a1) + a2"
    using dg by (simp_all add: div_nat_eqI)
  have m16: "y < 16 \<Longrightarrow> (16 * n + y) mod 16 = y" "y < 16 \<Longrightarrow> (16 * n + y) div 16 = n" for y n :: nat
    by simp_all
  have q3: "?dm mod 16 = a3"
    using m16(1) [OF dg(4), of "256 * a0 + 16 * a1 + a2"] by (simp add: distrib_left mult.assoc [symmetric])
  have dv: "?dm div 4096 = a0" "?dm div 256 mod 16 = a1" "?dm div 16 mod 16 = a2" "?dm mod 16 = a3"
    "(16 * b0 + b1) div 16 = b0" "(16 * b0 + b1) mod 16 = b1" "(16 * d0 + d1) div 16 = d0"
    "(16 * d0 + d1) mod 16 = d1"
    by (simp_all only: q q3 m16 dg)
  have tx: "cb_text b = [hex_char a0, hex_char a1, hex_char a2, hex_char a3, CHR '':'', hex_char b0, hex_char b1,
          CHR '':'', hex_char d0, hex_char d1, CHR ''.'', hex_char f]"
    by (simp add: b t lo lower_punct)
  show ?thesis
  proof (intro conjI)
    show "cb_text b = format_bdf b" unfolding format_bdf_def Let_def un dv by (rule tx)
    show "ParseBdf (cb_text b) = Some b"
      unfolding tx ParseBdf_chars [OF dg(1-8) le] using tx by (simp add: b)
  qed (use un le in simp_all)
qed

text \<open>Addresses have one canonical text. An accepted text denotes an address with device below
  32 and function below 8; its canonical text is the address printed with lower-case digits, is
  accepted again and gives the same result; and two accepted texts with the same address give
  the same result.\<close>

theorem bdf_canonical:
  assumes "ParseBdf text = Some b"
  shows "cb_text b = format_bdf b \<and> ParseBdf (cb_text b) = Some b
    \<and> unat (cb_device b) < 32 \<and> unat (cb_function b) < 8
    \<and> (\<forall>text' b'. ParseBdf text' = Some b' \<and> cb_domain b' = cb_domain b \<and> cb_bus b' = cb_bus b
         \<and> cb_device b' = cb_device b \<and> cb_function b' = cb_function b \<longrightarrow> b' = b)"
proof (intro conjI allI impI)
  note F = ParseBdf_format [OF assms]
  show "cb_text b = format_bdf b" "ParseBdf (cb_text b) = Some b" "unat (cb_device b) < 32"
    "unat (cb_function b) < 8" using F by blast+
  fix text' b'
  assume A: "ParseBdf text' = Some b' \<and> cb_domain b' = cb_domain b \<and> cb_bus b' = cb_bus b
         \<and> cb_device b' = cb_device b \<and> cb_function b' = cb_function b"
  then have "cb_text b' = cb_text b" using F ParseBdf_format [of text' b'] by (simp add: format_bdf_def)
  then show "b' = b" using A by (simp add: canonical_bdf.equality)
qed

theorem bdf_canonical_witness:
  "\<exists>b. ParseBdf demo_bdf = Some b \<and> format_bdf b = ''0000:1a:00.0'' \<and> ParseBdf ''0000:1a:00.0'' = Some b"
  using bdf_canonical [OF demo_bdf_parse] demo_bdf_parse by auto

end
