(* ===== verification/Cabe_Engine.thy ===== *)
theory Cabe_Engine
  imports Cabe_Reactor Cabe_WalRecover Cabe_ValuePool Cabe_DeviceGroup Cabe_SpdkConfig Cabe_Util
begin

text \<open>
  \<open>engine/engine.cpp\<close>: opening (create or recover each device, then start the reactors), the
  recovery of one device, the public operations with their argument checks and routing, and
  closing. The build is the one with the raw devices and the synchronous backend. An operation
  is submitted to its reactor and executed there; the hash function is a parameter.
\<close>

section \<open>Options and state\<close>

record engine_options = options +
  eo_devices :: "device_group list"
  eo_spdk_devices :: "spdk_device_config list"
  eo_value_buffer_pool_blocks :: nat

definition kDefaultPoolBlocks :: nat where "kDefaultPoolBlocks = 16"

record engine =
  eg_opened :: bool
  eg_options :: options
  eg_reactors :: "reactor list"
  eg_pools :: "value_pool list"
  eg_next_pool_id :: u64

definition engine_new :: "options \<Rightarrow> engine" where
  "engine_new opts = \<lparr>eg_opened = False, eg_options = opts, eg_reactors = [], eg_pools = [],
     eg_next_pool_id = 1\<rparr>"

text \<open>What opening one device takes from its surroundings: random bytes and the clock for the super
  blocks, the address of the staging pool, the outcome of the value pool's allocations, whether
  the reactor's thread starts, and the reactor's clock.\<close>

record open_env =
  en_entropy :: "rand_result list"
  en_now :: u64
  en_pool_base :: nat
  en_value_base :: "nat option"
  en_heap :: bool
  en_thread :: bool
  en_clock :: "nat \<Rightarrow> u64"

section \<open>Recovery of one device\<close>

definition ValidateRecoveredMeta :: "super_block \<Rightarrow> bytes \<Rightarrow> block_id \<Rightarrow> bool \<Rightarrow> bool" where
  "ValidateRecoveredMeta sb key b has_block \<longleftrightarrow>
     \<not> (if key = [] \<or> kWalKeyMax < length key then True
        else if has_block \<and> dev b \<noteq> ucast (sb_device_id sb) then True
        else has_block \<and> sb_block_count sb \<le> block_idx b)"

definition ApplyRecoveredEntry :: "super_block \<Rightarrow> bytes \<Rightarrow> value_meta \<Rightarrow> hash_index \<Rightarrow> rc \<times> hash_index" where
  "ApplyRecoveredEntry sb key meta m =
     (if \<not> ValidateRecoveredMeta sb key (block meta) True then (kSnapshotCorrupted, m)
      else Insert m key meta)"

definition ApplyWalEntry :: "super_block \<Rightarrow> wal_entry \<Rightarrow> u64 \<Rightarrow> hash_index \<Rightarrow> rc \<times> hash_index" where
  "ApplyWalEntry sb e seq m =
     (if e_type e = EntryPut then
        if \<not> ValidateRecoveredMeta sb (e_key e) (e_block e) True then (kWalRecoveryCorrupted, m)
        else Insert m (e_key e) \<lparr>block = e_block e, timestamp = e_timestamp e, crc = e_value_crc e,
                                 state = Active\<rparr>
      else if e_type e = EntryDelete then
        if \<not> ValidateRecoveredMeta sb (e_key e) (BlockId 0) False then (kWalRecoveryCorrupted, m)
        else case Delete m (e_key e) of (c, m') \<Rightarrow>
          if c = kIndexKeyNotFound then (kWalRecoveryCorrupted, m') else (c, m')
      else (kWalRecoveryCorrupted, m))"

definition active_blocks :: "hash_index \<Rightarrow> block_id list" where
  "active_blocks m = snd (ForEach m (\<lambda>k v bs. (kSuccess, bs @ [block v])) [])"

definition RebuildAllocator :: "device_context \<Rightarrow> rc \<times> device_context" where
  "RebuildAllocator dc =
     (let sb = dc_super_block dc in
      case RebuildFromActive (ucast (sb_device_id sb)) (unat (sb_block_count sb)) (active_blocks (dc_index dc)) of
        (c, a) \<Rightarrow> (c, dc\<lparr>dc_alloc := a\<rparr>))"

text \<open>The number of bad values only reaches the log; a bad value is not a failure.\<close>

definition verify_visit :: "bytes \<Rightarrow> value_meta \<Rightarrow> sync_io \<times> nat \<Rightarrow> rc \<times> sync_io \<times> nat" where
  "verify_visit key m st =
     (case st of (io, bad) \<Rightarrow>
      case SyncIo_Read io (unat (block_idx (block m))) of (c, bs, io') \<Rightarrow>
      if c \<noteq> kSuccess then (c, io', bad)
      else (kSuccess, io', if CRC32 bs \<noteq> crc m then bad + 1 else bad))"

definition VerifyValuesCrc :: "device_context \<Rightarrow> rc \<times> device_context" where
  "VerifyValuesCrc dc =
     (case Allocate (dc_pool dc) of
        (None, p) \<Rightarrow> (kEnginePoolExhausted, dc\<lparr>dc_pool := p\<rparr>)
      | (Some buf, p) \<Rightarrow>
        (case ForEach (dc_index dc) verify_visit (dc_io dc, 0) of (c, io, bad) \<Rightarrow>
         (c, dc\<lparr>dc_io := io, dc_pool := Free p buf\<rparr>)))"

definition RecoverDevice :: "options \<Rightarrow> device_context \<Rightarrow> (rc \<times> device_context) option" where
  "RecoverDevice opts dc =
     (let sb = dc_super_block dc in
      case Snapshot_Open (dc_snapshot dc) opts sb of None \<Rightarrow> None | Some (c1, s1) \<Rightarrow>
      let dc1 = dc\<lparr>dc_snapshot := s1\<rparr> in
      if c1 \<noteq> kSuccess then Some (c1, dc1) else
      case Snapshot_Load s1 (ApplyRecoveredEntry sb) (dc_index dc1) of None \<Rightarrow> None | Some (c2, m2, s2) \<Rightarrow>
      let dc2 = dc1\<lparr>dc_snapshot := s2, dc_index := m2\<rparr> in
      if c2 \<noteq> kSuccess then Some (c2, dc2) else
      case Wal_Open (dc_wal dc2) opts of (c3, w3) \<Rightarrow>
      let dc3 = dc2\<lparr>dc_wal := w3\<rparr> in
      if c3 \<noteq> kSuccess then Some (c3, dc3) else
      case Wal_Recover w3 (sn_last_covered s2) (ApplyWalEntry sb) m2 of None \<Rightarrow> None | Some (c4, m4, w4) \<Rightarrow>
      let dc4 = dc3\<lparr>dc_wal := w4, dc_index := m4\<rparr> in
      if c4 \<noteq> kSuccess then Some (c4, dc4) else
      case RebuildAllocator dc4 of (c5, dc5) \<Rightarrow>
      if c5 \<noteq> kSuccess then Some (c5, dc5)
      else if o_verify_value_crc opts then Some (VerifyValuesCrc dc5)
      else Some (kSuccess, dc5))"

section \<open>Opening\<close>

definition dc_default :: "device_group \<Rightarrow> device_context" where
  "dc_default g = \<lparr>dc_io = sync_io_closed (g_data g), dc_wal = wal_closed (g_wal g),
     dc_snapshot = snapshot_fresh (g_snap g), dc_pool = BufferPool_new 0 0, dc_alloc = ring_new 0,
     dc_index = index_empty, dc_super_block = sb_zero\<rparr>"

definition RegisterValueBufferPool :: "device_context \<Rightarrow> value_pool \<Rightarrow> rc" where
  "RegisterValueBufferPool dc pool =
     (let views = ExportSlotViews pool (vp_slot_count pool) in
      if length views \<noteq> vp_slot_count pool then kIoBase else SyncIo_RegisterWriteBuffers views)"

text \<open>Opening one device: the result code, the context (whose handles a failure leaves open for
  \<open>AbortOpen\<close>), the value pool if one was made, and the next pool id.\<close>

definition OpenDevice ::
  "engine_options \<Rightarrow> open_env \<Rightarrow> nat \<Rightarrow> nat \<Rightarrow> u64 \<Rightarrow> device_group
     \<Rightarrow> (rc \<times> device_context \<times> value_pool option \<times> u64) option" where
  "OpenDevice eopts env i device_count pid g =
     (let opts = options.truncate eopts in
      case (if o_create opts
            then CreateDeviceGroup g (en_entropy env) (en_now env) (of_nat i) (of_nat device_count)
            else RecoverDeviceGroup g (of_nat i) (of_nat device_count)) of (c, sbo, g') \<Rightarrow>
      if c \<noteq> kSuccess then Some (c, dc_default g', None, pid) else
      let sb = the sbo; dc = (dc_default g')\<lparr>dc_super_block := sb\<rparr> in
      case SyncIo_Open (dc_io dc) (Some (o_wal_level opts)) of (c1, io) \<Rightarrow>
      let dc1 = dc\<lparr>dc_io := io\<rparr> in
      if c1 \<noteq> kSuccess then Some (c1, dc1, None, pid)
      else if SyncIo_BlockCount io < unat (sb_block_count sb) then Some (kSuperBlockSizeMismatch, dc1, None, pid) else
      let dc2 = dc1\<lparr>dc_pool := BufferPool_new (en_pool_base env) kDefaultPoolBlocks\<rparr> in
      case Create_pool (ucast (sb_device_id sb)) pid (eo_value_buffer_pool_blocks eopts)
             (en_value_base env) (en_heap env) of (c2, po) \<Rightarrow>
      if c2 \<noteq> kSuccess then Some (c2, dc2, None, pid + 1) else
      let c3 = RegisterValueBufferPool dc2 (the po) in
      if c3 \<noteq> kSuccess then Some (c3, dc2, po, pid + 1) else
      let dc3 = dc2\<lparr>dc_alloc := snd (ring_Init (ucast (sb_device_id sb)) (unat (sb_block_count sb)))\<rparr> in
      if o_create opts then
        (case Wal_Open (dc_wal dc3) opts of (c4, w) \<Rightarrow>
         let dc4 = dc3\<lparr>dc_wal := w\<rparr> in
         if c4 \<noteq> kSuccess then Some (c4, dc4, po, pid + 1) else
         map_option (\<lambda>(c5, s). (c5, dc4\<lparr>dc_snapshot := s\<rparr>, po, pid + 1))
           (Snapshot_Open (dc_snapshot dc4) opts sb))
      else map_option (\<lambda>(c6, dc6). (c6, dc6, po, pid + 1)) (RecoverDevice opts dc3))"

definition AbortOpen :: "device_context \<Rightarrow> device_context" where
  "AbortOpen dc = dc\<lparr>dc_snapshot := snd (Snapshot_Close (dc_snapshot dc)),
     dc_wal := snd (Wal_Close (dc_wal dc)), dc_io := snd (SyncIo_Close (dc_io dc))\<rparr>"

text \<open>Phase one: the devices in order; the first failure aborts the failed context and those already
  ready.\<close>

fun open_devices ::
  "engine_options \<Rightarrow> nat \<Rightarrow> nat \<Rightarrow> u64 \<Rightarrow> (open_env \<times> device_group) list \<Rightarrow> (device_context \<times> value_pool) list
     \<Rightarrow> (rc \<times> (device_context \<times> value_pool) list \<times> device_context list \<times> u64) option" where
  "open_devices eopts i count pid [] acc = Some (kSuccess, acc, [], pid)"
| "open_devices eopts i count pid ((env, g) # gs) acc =
     (case OpenDevice eopts env i count pid g of None \<Rightarrow> None
      | Some (c, dc, po, pid') \<Rightarrow>
        if c \<noteq> kSuccess
        then Some (c, [], map (\<lambda>(d, _). AbortOpen d) acc @ [AbortOpen dc], pid')
        else open_devices eopts (i + 1) count pid' gs (acc @ [(dc, the po)]))"

text \<open>Phase two: a reactor per context. If a thread does not start, the reactors started are
  stopped, this one's destructor closes its context, and the rest is aborted; the contexts,
  closed, are given back.\<close>

fun start_reactors ::
  "options \<Rightarrow> (open_env \<times> device_context) list \<Rightarrow> reactor list \<Rightarrow> rc \<times> reactor list \<times> reactor list \<times> device_context list" where
  "start_reactors opts [] acc = (kSuccess, acc, [], [])"
| "start_reactors opts ((env, dc) # rest) acc =
     (let r = Reactor_new dc opts (en_clock env) in
      if \<not> en_thread env
      then (kEngineReactorStartFailed, [], map CloseDc acc @ [CloseDc r], map (\<lambda>(_, d). AbortOpen d) rest)
      else start_reactors opts rest (acc @ [r]))"

text \<open>\<open>Open\<close>: the code, the engine, and what is left of the contexts of a failed opening.\<close>

definition Engine_Open ::
  "engine \<Rightarrow> engine_options \<Rightarrow> open_env list \<Rightarrow> (rc \<times> engine \<times> device_context list) option" where
  "Engine_Open e eopts envs =
     (let devices = eo_devices eopts; opts = options.truncate eopts in
      if eg_opened e then Some (kEngineAlreadyOpen, e, [])
      else if devices = [] \<and> eo_spdk_devices eopts = [] then Some (kEngineInvalidOpts, e, [])
      else if ValidateDeviceConfigFamily devices (eo_spdk_devices eopts) Raw \<noteq> kSuccess
      then Some (ValidateDeviceConfigFamily devices (eo_spdk_devices eopts) Raw, e, [])
      else if 256 < length devices then Some (kEngineInvalidOpts, e, []) else
      let e1 = e\<lparr>eg_options := opts\<rparr> in
      case open_devices eopts 0 (length devices) (eg_next_pool_id e) (zip envs devices) [] of None \<Rightarrow> None
      | Some (c, ready, aborted, pid) \<Rightarrow>
        let e2 = e1\<lparr>eg_next_pool_id := pid\<rparr> in
        if c \<noteq> kSuccess then Some (c, e2, aborted) else
        case start_reactors opts (zip envs (map fst ready)) [] of (c2, rs, closed, unwrapped) \<Rightarrow>
        if c2 \<noteq> kSuccess then Some (c2, e2\<lparr>eg_reactors := []\<rparr>, map device_context.truncate closed @ unwrapped)
        else Some (kSuccess, e2\<lparr>eg_reactors := rs, eg_pools := map snd ready, eg_opened := True\<rparr>, []))"

section \<open>Operations\<close>

text \<open>The source of a value among the engine's pools.\<close>

definition source_of :: "put_value_source_kind \<Rightarrow> source_info \<Rightarrow> put_value_source" where
  "source_of kind info = \<lparr>src_kind = kind, src_owner_device_id = si_device_id info, src_pool_id = si_pool_id info,
     src_slot_index = si_slot_index info, src_slot_generation = si_slot_generation info\<rparr>"

definition source_default :: put_value_source where
  "source_default = \<lparr>src_kind = ExternalValueMemory, src_owner_device_id = 0, src_pool_id = 0,
     src_slot_index = 0, src_slot_generation = 0\<rparr>"

fun classify_loop ::
  "value_pool list \<Rightarrow> device_id \<Rightarrow> bytes \<Rightarrow> data_view \<Rightarrow> put_value_source option \<Rightarrow> put_value_source" where
  "classify_loop [] target key value saw = (case saw of Some s \<Rightarrow> s | None \<Rightarrow> source_default)"
| "classify_loop (pool # pools) target key value saw =
     (let info = Identify pool value in
      if si_kind info = NotInPool then classify_loop pools target key value saw
      else if si_kind info = ProbePoolAddressNotAllocated
      then classify_loop pools target key value (Some (source_of PoolAddressNotAllocated info))
      else if si_device_id info \<noteq> target then source_of OtherDeviceValueBuffer info
      else if \<not> BoundKeyEquals info key then source_of OtherKeyValueBuffer info
      else source_of TargetKeyValueBuffer info)"

definition ClassifyPutValueSource ::
  "value_pool list \<Rightarrow> device_id \<Rightarrow> bytes \<Rightarrow> data_view \<Rightarrow> put_value_source" where
  "ClassifyPutValueSource pools target key value = classify_loop pools target key value None"

definition RouteKey :: "(bytes \<Rightarrow> u64) \<Rightarrow> engine \<Rightarrow> bytes \<Rightarrow> nat" where
  "RouteKey Hash e key =
     (case RouteToDevice Hash key (length (eg_reactors e)) of None \<Rightarrow> 0 | Some d \<Rightarrow> unat d)"

text \<open>Submitting an operation to a reactor and waiting for it.\<close>

definition SubmitAndWait :: "engine \<Rightarrow> nat \<Rightarrow> op_node \<Rightarrow> rc \<times> bytes option \<times> engine" where
  "SubmitAndWait e target op =
     (case Execute (eg_reactors e ! target) op of (c, out, r) \<Rightarrow>
      (c, out, e\<lparr>eg_reactors := (eg_reactors e)[target := r]\<rparr>))"

definition op_default :: op_node where
  "op_default = \<lparr>op_kind = OpType 0, op_key = [], op_value = \<lparr>dv_addr = 0, dv_size = 0\<rparr>,
     op_value_source = source_default, op_new_level = WalSync, op_memory = \<lambda>_. 0\<rparr>"

definition Engine_AllocateValueBuffer ::
  "(bytes \<Rightarrow> u64) \<Rightarrow> engine \<Rightarrow> bytes \<Rightarrow> bool \<Rightarrow> rc \<times> value_buffer \<times> engine" where
  "Engine_AllocateValueBuffer Hash e key heap =
     (if \<not> eg_opened e then (kEngineNotOpen, ValueBuffer_empty, e)
      else if key = [] then (kMemEmptyKey, ValueBuffer_empty, e)
      else if kWalKeyMax < length key then (kWalKeyTooLong, ValueBuffer_empty, e) else
      let device = RouteKey Hash e key in
      if length (eg_pools e) \<le> device then (kEngineNotOpen, ValueBuffer_empty, e) else
      case vp_Allocate (eg_pools e ! device) key heap of (c, b, p) \<Rightarrow>
      (c, b, e\<lparr>eg_pools := (eg_pools e)[device := p]\<rparr>))"

definition Engine_Put ::
  "(bytes \<Rightarrow> u64) \<Rightarrow> engine \<Rightarrow> bytes \<Rightarrow> data_view \<Rightarrow> (nat \<Rightarrow> u8) \<Rightarrow> rc \<times> engine" where
  "Engine_Put Hash e key value mem =
     (if \<not> eg_opened e then (kEngineNotOpen, e)
      else if key = [] then (kMemEmptyKey, e)
      else if dv_size value \<noteq> kValueSize then (kEngineInvalidValue, e)
      else if kWalKeyMax < length key then (kWalKeyTooLong, e) else
      let target = RouteKey Hash e key;
          source = ClassifyPutValueSource (eg_pools e) (of_nat target) key value;
          op = op_default\<lparr>op_kind := OpPut, op_key := key, op_value := value, op_value_source := source,
                          op_memory := mem\<rparr>
      in case SubmitAndWait e target op of (c, _, e') \<Rightarrow> (c, e'))"

text \<open>The output buffer's size is checked; what is written to it is returned.\<close>

definition Engine_Get :: "(bytes \<Rightarrow> u64) \<Rightarrow> engine \<Rightarrow> bytes \<Rightarrow> nat \<Rightarrow> rc \<times> bytes option \<times> engine" where
  "Engine_Get Hash e key out_size =
     (if \<not> eg_opened e then (kEngineNotOpen, None, e)
      else if key = [] then (kMemEmptyKey, None, e)
      else if out_size \<noteq> kValueSize then (kEngineInvalidValue, None, e)
      else SubmitAndWait e (RouteKey Hash e key) (op_default\<lparr>op_kind := OpGet, op_key := key\<rparr>))"

definition Engine_Delete :: "(bytes \<Rightarrow> u64) \<Rightarrow> engine \<Rightarrow> bytes \<Rightarrow> rc \<times> engine" where
  "Engine_Delete Hash e key =
     (if \<not> eg_opened e then (kEngineNotOpen, e)
      else if key = [] then (kMemEmptyKey, e)
      else case SubmitAndWait e (RouteKey Hash e key) (op_default\<lparr>op_kind := OpDelete, op_key := key\<rparr>) of
        (c, _, e') \<Rightarrow> (c, e'))"

text \<open>A broadcast returns the first error, and goes on after it.\<close>

fun broadcast :: "nat \<Rightarrow> nat \<Rightarrow> op_node \<Rightarrow> rc \<Rightarrow> engine \<Rightarrow> rc \<times> engine" where
  "broadcast i 0 op first_err e = (first_err, e)"
| "broadcast i (Suc n) op first_err e =
     (case SubmitAndWait e i op of (c, _, e') \<Rightarrow>
      broadcast (i + 1) n op (if c \<noteq> kSuccess \<and> first_err = kSuccess then c else first_err) e')"

definition Engine_SetWalLevel :: "engine \<Rightarrow> wal_level \<Rightarrow> rc \<times> engine" where
  "Engine_SetWalLevel e level =
     (if \<not> eg_opened e then (kEngineNotOpen, e)
      else if \<not> IsValidWalLevel level then (kEngineInvalidOpts, e)
      else broadcast 0 (length (eg_reactors e))
        (op_default\<lparr>op_kind := OpSetWalLevel, op_new_level := level\<rparr>) kSuccess e)"

definition Engine_Snapshot :: "engine \<Rightarrow> rc \<times> engine" where
  "Engine_Snapshot e =
     (if \<not> eg_opened e then (kEngineNotOpen, e)
      else broadcast 0 (length (eg_reactors e)) (op_default\<lparr>op_kind := OpSnapshot\<rparr>) kSuccess e)"

definition Engine_is_open :: "engine \<Rightarrow> bool" where
  "Engine_is_open e = eg_opened e"

text \<open>Closing waits until every value buffer has been given back; \<open>None\<close>: it waits. The closed
  reactors are given back.\<close>

definition Engine_Close :: "engine \<Rightarrow> (rc \<times> engine \<times> reactor list) option" where
  "Engine_Close e =
     (if \<not> eg_opened e then Some (kEngineNotOpen, e, []) else
      let pools = map BeginClose (eg_pools e); closed = map CloseDc (eg_reactors e);
          first_err = foldl (\<lambda>c r. if c = kSuccess then rx_close_result r else c) kSuccess closed in
      if \<not> list_all pool_idle pools then None
      else Some (first_err, e\<lparr>eg_opened := False, eg_reactors := [], eg_pools := []\<rparr>, closed))"

end
