(* ===== verification/Cabe_WalScan.thy ===== *)
theory Cabe_WalScan
  imports Cabe_WalRecover Cabe_WalTheorems
begin

text \<open>
  The two passes of WAL recovery over the ring of a device that answers: the census sees every
  slot once, the walk visits the slots in order from the first live frame. Both are described
  slot by slot, without the chunks they read.
\<close>

section \<open>Slots of the ring\<close>

definition slots :: "wal \<Rightarrow> nat" where
  "slots w = ring_bytes w div 128"

lemma slots_props:
  assumes "wal_geo w"
  shows "ring_bytes w = 128 * slots w" "32 dvd slots w" "64 \<le> slots w"
proof -
  note g = wal_geoD [OF assms]
  obtain j where j: "ring_bytes w = 4096 * j" using g(4) by (rule dvdE)
  then have n: "slots w = 32 * j" by (simp add: slots_def)
  then show "ring_bytes w = 128 * slots w" "32 dvd slots w" using j by simp_all
  show "64 \<le> slots w" using g(1) j n by linarith
qed

lemma slot_off_mod:
  assumes "wal_geo w"
  shows "slot_off w k = w_ring_start w + 128 * (k mod slots w)"
  by (simp only: slot_off_def slots_props(1) [OF assms] mult_mod_right)

lemma slot_off_lt: "wal_geo w \<Longrightarrow> k < slots w \<Longrightarrow> slot_off w k = w_ring_start w + 128 * k"
  by (simp add: slot_off_mod)

lemma slot_off_bounds:
  assumes "wal_geo w"
  shows "w_ring_start w \<le> slot_off w k" "slot_off w k + 128 \<le> w_ring_end w"
proof -
  have "k mod slots w < slots w" using slots_props(3) [OF assms] by simp
  then have "128 * (k mod slots w) + 128 \<le> ring_bytes w" using slots_props(1) [OF assms] by linarith
  then show "w_ring_start w \<le> slot_off w k" "slot_off w k + 128 \<le> w_ring_end w"
    using wal_geoD(3) [OF assms] by (simp_all add: slot_off_mod [OF assms])
qed

lemma slot_off_eq:
  assumes "wal_geo w"
  shows "slot_off w i = slot_off w j \<longleftrightarrow> i mod slots w = j mod slots w"
  by (simp add: slot_off_mod [OF assms])

lemma slot_off_Suc:
  assumes "wal_geo w"
  shows "(if slot_off w k + 128 = w_ring_end w then w_ring_start w else slot_off w k + 128) = slot_off w (Suc k)"
proof -
  have n: "0 < slots w" using slots_props(3) [OF assms] by simp
  show ?thesis
  proof (cases "Suc (k mod slots w) = slots w")
    case True
    then have "Suc k mod slots w = 0" by (simp add: mod_Suc)
    moreover have "128 * (k mod slots w) + 128 = ring_bytes w"
      using True slots_props(1) [OF assms] by (metis add.commute mult_Suc_right)
    ultimately show ?thesis
      using wal_geoD(3) [OF assms] by (simp add: slot_off_mod [OF assms])
  next
    case False
    then have "Suc k mod slots w = Suc (k mod slots w)" by (simp add: mod_Suc)
    moreover have "k mod slots w < slots w" using n by simp
    then have "Suc (k mod slots w) < slots w" using False by linarith
    then have "128 * (k mod slots w) + 128 < ring_bytes w" using slots_props(1) [OF assms] by linarith
    ultimately show ?thesis
      using wal_geoD(3) [OF assms] by (simp add: slot_off_mod [OF assms])
  qed
qed

text \<open>The block of a slot.\<close>

lemma split_32: "128 * r = 4096 * (r div 32) + 128 * (r mod (32 :: nat))"
proof -
  have "r = 32 * a + b \<Longrightarrow> 128 * r = 4096 * a + 128 * b" for a b by simp
  then show ?thesis by (metis mult_div_mod_eq)
qed

lemma div_block: "b < 4096 \<Longrightarrow> (4096 * a + b) div 4096 = (a :: nat)"
  by simp

lemma slot_block:
  assumes "wal_geo w"
  shows "slot_off w i = slot_off w (32 * (i div 32)) + 128 * (i mod 32)"
    "BlockFloor (slot_off w i) = slot_off w (32 * (i div 32))"
    "slot_off w i div 4096 = 2 + (i mod slots w) div 32"
    "4096 dvd slot_off w (32 * j)"
proof -
  define r where "r = i mod slots w"
  obtain n where n: "slots w = 32 * n" using slots_props(2) [OF assms] by (rule dvdE)
  have st: "w_ring_start w = 8192" using assms by (simp add: wal_geo_def kDataRegionOffset_8K)
  have rm: "r mod 32 = i mod 32" unfolding r_def n by (simp add: mod_mult2_eq)
  have rd: "32 * (i div 32) mod slots w = 32 * (r div 32)"
  proof -
    have "32 * (i div 32) mod slots w = 32 * ((i div 32) mod n)" unfolding n by simp
    also have "(i div 32) mod n = r div 32" unfolding r_def n by (simp add: mod_mult2_eq div_mult2_eq)
    finally show ?thesis .
  qed
  have r: "r = 32 * (r div 32) + r mod 32" by simp
  show a: "slot_off w i = slot_off w (32 * (i div 32)) + 128 * (i mod 32)"
    unfolding slot_off_mod [OF assms] rd r_def [symmetric] rm [symmetric] using r by linarith
  have v: "slot_off w i = 4096 * (2 + r div 32) + 128 * (r mod 32)"
    unfolding slot_off_mod [OF assms] r_def [symmetric] st
    using split_32 [of r] by (simp add: distrib_left)
  have lt: "128 * (r mod 32) < 4096"
  proof -
    have "r mod 32 < 32" by simp
    then show ?thesis by linarith
  qed
  show d: "slot_off w i div 4096 = 2 + (i mod slots w) div 32"
    unfolding v r_def [symmetric] by (rule div_block [OF lt])
  have "BlockFloor (slot_off w i) = 4096 * (2 + r div 32)"
    unfolding BlockFloor_def kWalBlockSize_def d r_def by simp
  then show "BlockFloor (slot_off w i) = slot_off w (32 * (i div 32))"
    unfolding slot_off_mod [OF assms] rd st by simp
  have "4096 dvd (128 * (32 * j)) mod ring_bytes w"
    by (rule dvd_mod_4096 [OF wal_geoD(4) [OF assms]]) simp
  then show "4096 dvd slot_off w (32 * j)" by (simp add: slot_off_def st)
qed

text \<open>Within a lap of the ring the slot determines the frame.\<close>

lemma mod_eq_lap:
  assumes "i mod n = j mod n" "i \<le> j" "j < i + (n :: nat)"
  shows "i = j"
proof (rule ccontr)
  assume ne: "i \<noteq> j"
  have "n dvd j - i" using assms(1,2) mod_eq_dvd_iff_nat [of i j n] by simp
  then have "n \<le> j - i" using ne assms(2) by (intro dvd_imp_le) auto
  then show False using assms(2,3) by linarith
qed

lemma slot_inj:
  assumes "wal_geo w" "slot_off w i = slot_off w j" "a \<le> i" "i < a + slots w" "a \<le> j" "j < a + slots w"
  shows "i = j"
proof -
  have m: "i mod slots w = j mod slots w" using assms slot_off_eq by blast
  show ?thesis
  proof (cases "i \<le> j")
    case True
    show ?thesis by (rule mod_eq_lap [OF m True]) (use assms in linarith)
  next
    case False
    have "j = i" by (rule mod_eq_lap [OF m [symmetric]]) (use False assms in linarith)+
    then show ?thesis by simp
  qed
qed

text \<open>The frame a slot holds.\<close>

definition slot_bytes :: "(nat \<Rightarrow> u8) \<Rightarrow> wal \<Rightarrow> nat \<Rightarrow> bytes" where
  "slot_bytes im w k = kread im (slot_off w k) 128"

definition is_frame :: "bytes \<Rightarrow> bool" where
  "is_frame bs \<longleftrightarrow> VerifyFrame (frame_of_bytes bs)"

definition frame_seq :: "bytes \<Rightarrow> nat" where
  "frame_seq bs = unat (f_seq (frame_of_bytes bs))"

lemma fb_frame:
  assumes "entries_ok log" "k < length log" "length log + 1 < 2 ^ 64"
  shows "is_frame (fb log k)" "frame_seq (fb log k) = k + 1" "DecodeFrame (frame_of_bytes (fb log k)) = log ! k"
    "f_seq (frame_of_bytes (fb log k)) = of_nat (k + 1)"
proof -
  have ok: "entry_ok (log ! k)" using assms by (simp add: entries_ok_def)
  show "is_frame (fb log k)" "DecodeFrame (frame_of_bytes (fb log k)) = log ! k"
    "f_seq (frame_of_bytes (fb log k)) = of_nat (k + 1)"
    using VerifyFrame_Encode [OF ok] DecodeFrame_Encode [OF ok] EncodeFrame_wf [OF ok]
    by (simp_all add: is_frame_def fb_def frame_of_bytes_bytes)
  then have "frame_seq (fb log k) = unat (of_nat (k + 1) :: u64)" by (simp only: frame_seq_def)
  also have "\<dots> = k + 1"
    unfolding unat_of_nat using assms by simp
  finally show "frame_seq (fb log k) = k + 1" .
qed

section \<open>The census\<close>

definition census_at :: "(nat \<Rightarrow> u8) \<Rightarrow> wal \<Rightarrow> nat \<Rightarrow> recover_census \<Rightarrow> nat \<Rightarrow> recover_census" where
  "census_at im w cov c k = census_slot cov (slot_off w k) (slot_bytes im w k) c"

lemma census_chunk_slots:
  assumes g: "wal_geo w" and s: "i + n \<le> slots w"
  shows "census_chunk cov (slot_off w i) (kread im (slot_off w i) (128 * n)) c
    = foldl (census_at im w cov) c [i..<i + n]"
proof (cases "n = 0")
  case False
  then have i: "i < slots w" using s by simp
  have up: "[i..<i + n] = map (\<lambda>j. i + j) [0..<n]"
    using map_add_upt [of i n] by (simp add: add.commute)
  have "foldl (census_at im w cov) c [i..<i + n]
      = foldl (\<lambda>c j. census_at im w cov c (i + j)) c [0..<n]"
    by (simp only: up foldl_map)
  also have "\<dots> = foldl (\<lambda>c j. census_slot cov (slot_off w i + j * kWalFrameSize)
        (peek (j * kWalFrameSize) kWalFrameSize (kread im (slot_off w i) (128 * n))) c) c [0..<n]"
  proof (rule foldl_cong [OF refl refl])
    fix c j
    assume "j \<in> set [0..<n]"
    then have j: "j < n" by simp
    have "slot_off w (i + j) = slot_off w i + 128 * j"
      using s j i by (simp add: slot_off_lt [OF g])
    moreover have "peek (j * 128) 128 (kread im (slot_off w i) (128 * n)) = kread im (slot_off w i + j * 128) 128"
      using j by (intro peek_kread) linarith
    ultimately show "census_at im w cov c (i + j) = census_slot cov (slot_off w i + j * kWalFrameSize)
        (peek (j * kWalFrameSize) kWalFrameSize (kread im (slot_off w i) (128 * n))) c"
      by (simp add: census_at_def slot_bytes_def kWalFrameSize_def mult.commute)
  qed
  finally show ?thesis by (simp add: census_chunk_def kWalFrameSize_def)
qed (simp add: census_chunk_def)

lemma census_loop_slots:
  assumes g: "wal_geo w" and d: "healthy d" "w_ring_end w \<le> size_bytes d"
  shows "i \<le> slots w \<Longrightarrow> 32 dvd i \<Longrightarrow>
    census_loop (w_buf_size w) (w_ring_end w) cov (w_ring_start w + 128 * i) c d
      = Some (kSuccess, foldl (census_at (rd_contents d) w cov) c [i..<slots w], d)"
proof (induction "slots w - i" arbitrary: i c rule: less_induct)
  case less
  note S = slots_props [OF g] and G = wal_geoD [OF g]
  have e: "w_ring_end w = w_ring_start w + 128 * slots w" using G(3) S(1) by simp
  show ?case
  proof (cases "i = slots w")
    case True
    then show ?thesis using e by (simp add: census_loop.simps)
  next
    case False
    then have i: "i < slots w" using less.prems by simp
    obtain b where b: "w_buf_size w = 4096 * b" "0 < b" using G(5,6) by (auto simp: dvd_def)
    define n where "n = min (32 * b) (slots w - i)"
    have n: "0 < n" "i + n \<le> slots w" using i b by (auto simp: n_def)
    have len: "min (w_buf_size w) (w_ring_end w - (w_ring_start w + 128 * i)) = 128 * n"
      using b e by (simp add: n_def min_def diff_mult_distrib2 [symmetric])
    have off: "slot_off w i = w_ring_start w + 128 * i" using slot_off_lt [OF g i] .
    have rd: "RawDevice_ReadAt d (w_ring_start w + 128 * i) (128 * n)
        = (kSuccess, kread (rd_contents d) (w_ring_start w + 128 * i) (128 * n), d)"
      by (rule healthy_ReadAt [OF d(1)]) (use d(2) e n in linarith)
    have "32 dvd n"
      using S(2) less.prems(2) by (simp add: n_def min_def dvd_diff_nat)
    then have dv: "32 dvd i + n" using less.prems(2) by simp
    have IH: "census_loop (w_buf_size w) (w_ring_end w) cov (w_ring_start w + 128 * (i + n)) c' d
      = Some (kSuccess, foldl (census_at (rd_contents d) w cov) c' [i + n..<slots w], d)" for c'
      by (rule less.hyps [OF _ n(2) dv]) (use n i in linarith)
    have sp: "[i..<slots w] = [i..<i + n] @ [i + n..<slots w]"
      using n(2) by (metis le_add1 le_add_diff_inverse upt_add_eq_append)
    have pos: "\<not> w_ring_end w \<le> w_ring_start w + 128 * i" using i e by simp
    have nx: "w_ring_start w + 128 * i + 128 * n = w_ring_start w + 128 * (i + n)" by simp
    have ch: "census_chunk cov (w_ring_start w + 128 * i) (kread (rd_contents d) (w_ring_start w + 128 * i) (128 * n)) c
      = foldl (census_at (rd_contents d) w cov) c [i..<i + n]"
      using census_chunk_slots [OF g n(2), of cov "rd_contents d" c] unfolding off .
    have nz: "128 * n \<noteq> 0" using n(1) by simp
    show ?thesis
      unfolding census_loop.simps [of _ _ _ "w_ring_start w + 128 * i"] if_not_P [OF pos] Let_def len rd
        prod.case if_not_P [OF nz] ch nx IH sp foldl_append
      by simp
  qed
qed

text \<open>What the census found after the slots below \<open>n\<close>.\<close>

definition live_frame :: "(nat \<Rightarrow> u8) \<Rightarrow> wal \<Rightarrow> nat \<Rightarrow> nat \<Rightarrow> bool" where
  "live_frame im w cov k \<longleftrightarrow> is_frame (slot_bytes im w k) \<and> cov < frame_seq (slot_bytes im w k)"

definition census_inv :: "(nat \<Rightarrow> u8) \<Rightarrow> wal \<Rightarrow> nat \<Rightarrow> nat \<Rightarrow> recover_census \<Rightarrow> bool" where
  "census_inv im w cov n c \<longleftrightarrow>
     cn_valid_count c = card {k. k < n \<and> is_frame (slot_bytes im w k)}
     \<and> cn_live_count c = card {k. k < n \<and> live_frame im w cov k}
     \<and> (cn_live_count c \<noteq> 0 \<longrightarrow> (\<exists>k < n. live_frame im w cov k \<and> cn_min_live_off c = slot_off w k
          \<and> cn_min_live_seq c = frame_seq (slot_bytes im w k)))
     \<and> (\<forall>k < n. live_frame im w cov k \<longrightarrow> cn_min_live_seq c \<le> frame_seq (slot_bytes im w k))
     \<and> (cn_max_valid_seq c \<noteq> 0 \<longrightarrow> (\<exists>k < n. is_frame (slot_bytes im w k) \<and> cn_max_valid_off c = slot_off w k
          \<and> cn_max_valid_seq c = frame_seq (slot_bytes im w k)))
     \<and> (\<forall>k < n. is_frame (slot_bytes im w k) \<longrightarrow> frame_seq (slot_bytes im w k) \<le> cn_max_valid_seq c)"

lemma card_less_Suc_if:
  "card {k. k < Suc n \<and> P k} = (if P n then Suc (card {k. k < n \<and> P k}) else card {k. k < n \<and> P k})"
proof -
  have "{k. k < Suc n \<and> P k} = (if P n then insert n {k. k < n \<and> P k} else {k. k < n \<and> P k})"
    by (auto simp: less_Suc_eq)
  then show ?thesis by (simp add: card_insert_disjoint)
qed

lemma census_slot_fields:
  fixes c off cov bs
  defines "c' \<equiv> census_slot cov off bs c" and "L \<equiv> is_frame bs \<and> cov < frame_seq bs"
  shows "cn_valid_count c' = (if is_frame bs then cn_valid_count c + 1 else cn_valid_count c)"
    "cn_live_count c' = (if L then cn_live_count c + 1 else cn_live_count c)"
    "cn_min_live_seq c' = (if L \<and> (cn_live_count c = 0 \<or> frame_seq bs < cn_min_live_seq c)
       then frame_seq bs else cn_min_live_seq c)"
    "cn_min_live_off c' = (if L \<and> (cn_live_count c = 0 \<or> frame_seq bs < cn_min_live_seq c)
       then off else cn_min_live_off c)"
    "cn_max_valid_seq c' = (if is_frame bs \<and> cn_max_valid_seq c < frame_seq bs then frame_seq bs
       else cn_max_valid_seq c)"
    "cn_max_valid_off c' = (if is_frame bs \<and> cn_max_valid_seq c < frame_seq bs then off
       else cn_max_valid_off c)"
  unfolding c'_def L_def by (auto simp: census_slot_def Let_def is_frame_def frame_seq_def)

lemma census_step:
  assumes inv: "census_inv im w cov n c"
  shows "census_inv im w cov (Suc n) (census_at im w cov c n)"
proof -
  let ?b = "slot_bytes im w n"
  note F = census_slot_fields [of cov "slot_off w n" ?b c]
  have lv: "live_frame im w cov n \<longleftrightarrow> is_frame ?b \<and> cov < frame_seq ?b" by (simp add: live_frame_def)
  note I = inv [unfolded census_inv_def]
  have I1: "cn_valid_count c = card {k. k < n \<and> is_frame (slot_bytes im w k)}"
    and I2: "cn_live_count c = card {k. k < n \<and> live_frame im w cov k}"
    and I3: "cn_live_count c \<noteq> 0 \<Longrightarrow> \<exists>k < n. live_frame im w cov k \<and> cn_min_live_off c = slot_off w k
          \<and> cn_min_live_seq c = frame_seq (slot_bytes im w k)"
    and I4: "\<And>k. k < n \<Longrightarrow> live_frame im w cov k \<Longrightarrow> cn_min_live_seq c \<le> frame_seq (slot_bytes im w k)"
    and I5: "cn_max_valid_seq c \<noteq> 0 \<Longrightarrow> \<exists>k < n. is_frame (slot_bytes im w k) \<and> cn_max_valid_off c = slot_off w k
          \<and> cn_max_valid_seq c = frame_seq (slot_bytes im w k)"
    and I6: "\<And>k. k < n \<Longrightarrow> is_frame (slot_bytes im w k) \<Longrightarrow> frame_seq (slot_bytes im w k) \<le> cn_max_valid_seq c"
    using I by blast+
  have z: "cn_live_count c = 0 \<Longrightarrow> k < n \<Longrightarrow> \<not> live_frame im w cov k" for k
    using I2 by auto
  have ex: "(\<exists>k < Suc n. P k) \<longleftrightarrow> (\<exists>k < n. P k) \<or> P n" for P by (auto simp: less_Suc_eq)
  have al: "(\<forall>k < Suc n. P k) \<longleftrightarrow> (\<forall>k < n. P k) \<and> P n" for P by (auto simp: less_Suc_eq)
  define tm where "tm \<longleftrightarrow> live_frame im w cov n \<and> (cn_live_count c = 0 \<or> frame_seq ?b < cn_min_live_seq c)"
  define tx where "tx \<longleftrightarrow> is_frame ?b \<and> cn_max_valid_seq c < frame_seq ?b"
  show ?thesis
    unfolding census_inv_def census_at_def F card_less_Suc_if lv [symmetric] ex al
      tm_def [symmetric] tx_def [symmetric]
  proof (intro conjI allI impI)
    show "(if is_frame ?b then cn_valid_count c + 1 else cn_valid_count c)
      = (if is_frame ?b then Suc (card {k. k < n \<and> is_frame (slot_bytes im w k)})
         else card {k. k < n \<and> is_frame (slot_bytes im w k)})"
      by (simp add: I1)
    show "(if live_frame im w cov n then cn_live_count c + 1 else cn_live_count c)
      = (if live_frame im w cov n then Suc (card {k. k < n \<and> live_frame im w cov k})
         else card {k. k < n \<and> live_frame im w cov k})"
      by (simp add: I2)
  next
    assume nz: "(if live_frame im w cov n then cn_live_count c + 1 else cn_live_count c) \<noteq> 0"
    show "(\<exists>k < n. live_frame im w cov k \<and> (if tm then slot_off w n else cn_min_live_off c) = slot_off w k
        \<and> (if tm then frame_seq ?b else cn_min_live_seq c) = frame_seq (slot_bytes im w k))
      \<or> live_frame im w cov n \<and> (if tm then slot_off w n else cn_min_live_off c) = slot_off w n
        \<and> (if tm then frame_seq ?b else cn_min_live_seq c) = frame_seq ?b"
    proof (cases tm)
      case False
      then have "cn_live_count c \<noteq> 0" using nz by (auto simp: tm_def split: if_splits)
      then show ?thesis using I3 False by simp
    qed (simp add: tm_def)
  next
    fix k
    assume k: "k < n" "live_frame im w cov k"
    then have "cn_live_count c \<noteq> 0" using z by blast
    then show "(if tm then frame_seq ?b else cn_min_live_seq c) \<le> frame_seq (slot_bytes im w k)"
      using I4 [OF k] by (auto simp: tm_def)
  next
    assume "live_frame im w cov n"
    then show "(if tm then frame_seq ?b else cn_min_live_seq c) \<le> frame_seq ?b" by (auto simp: tm_def)
  next
    assume nz: "(if tx then frame_seq ?b else cn_max_valid_seq c) \<noteq> 0"
    show "(\<exists>k < n. is_frame (slot_bytes im w k) \<and> (if tx then slot_off w n else cn_max_valid_off c) = slot_off w k
        \<and> (if tx then frame_seq ?b else cn_max_valid_seq c) = frame_seq (slot_bytes im w k))
      \<or> is_frame ?b \<and> (if tx then slot_off w n else cn_max_valid_off c) = slot_off w n
        \<and> (if tx then frame_seq ?b else cn_max_valid_seq c) = frame_seq ?b"
    proof (cases tx)
      case False
      then have "cn_max_valid_seq c \<noteq> 0" using nz by simp
      then show ?thesis using I5 False by simp
    qed (simp add: tx_def)
  next
    fix k
    assume k: "k < n" "is_frame (slot_bytes im w k)"
    show "frame_seq (slot_bytes im w k) \<le> (if tx then frame_seq ?b else cn_max_valid_seq c)"
      using I6 [OF k] by (auto simp: tx_def)
  next
    assume "is_frame ?b"
    then show "frame_seq ?b \<le> (if tx then frame_seq ?b else cn_max_valid_seq c)" by (auto simp: tx_def)
  qed
qed

lemma census_fold: "census_inv im w cov n (foldl (census_at im w cov) census_zero [0..<n])"
proof (induction n)
  case 0
  show ?case by (simp add: census_inv_def census_zero_def)
next
  case (Suc n)
  then show ?case by (simp add: census_step)
qed

lemma CensusScan_inv:
  assumes g: "wal_geo w" and d: "healthy (w_dev w)" "w_ring_end w \<le> size_bytes (w_dev w)"
  obtains c where "CensusScan w cov = Some (kSuccess, c, w)"
    "census_inv (rd_contents (w_dev w)) w cov (slots w) c"
proof
  show "CensusScan w cov = Some (kSuccess, foldl (census_at (rd_contents (w_dev w)) w cov) census_zero [0..<slots w], w)"
    using census_loop_slots [OF g d, of 0 cov census_zero] by (simp add: CensusScan_def)
  show "census_inv (rd_contents (w_dev w)) w cov (slots w)
      (foldl (census_at (rd_contents (w_dev w)) w cov) census_zero [0..<slots w])"
    by (rule census_fold)
qed

section \<open>The walk's view of a slot\<close>

definition chunk_ok :: "(nat \<Rightarrow> u8) \<Rightarrow> (nat \<times> bytes) option \<Rightarrow> bool" where
  "chunk_ok im ch \<longleftrightarrow> (case ch of None \<Rightarrow> True | Some (off, buf) \<Rightarrow> buf = kread im off (length buf))"

text \<open>Fetching finds the frame of the position, and changes nothing but the cache.\<close>

lemma walk_fetch_slot:
  assumes g: "wal_geo w" and d: "healthy (wk_dev k)" "w_ring_end w \<le> size_bytes (wk_dev k)"
    and im: "im = rd_contents (wk_dev k)" and p: "wk_pos k = slot_off w i" and c: "chunk_ok im (wk_chunk k)"
  obtains ch where "walk_fetch w k = (kSuccess, k\<lparr>wk_chunk := ch\<rparr>)" "chunk_ok im ch"
    "walk_frame (k\<lparr>wk_chunk := ch\<rparr>) = frame_of_bytes (slot_bytes im w i)"
proof (cases "chunk_covers (wk_chunk k) (wk_pos k)")
  case True
  then obtain off buf where ch: "wk_chunk k = Some (off, buf)" "off \<le> wk_pos k"
    "wk_pos k + 128 \<le> off + length buf"
    by (auto simp: chunk_covers_def kWalFrameSize_def split: option.splits)
  have "buf = kread im off (length buf)" using c ch by (simp add: chunk_ok_def)
  then have "peek (wk_pos k - off) 128 buf = peek (wk_pos k - off) 128 (kread im off (length buf))" by simp
  also have "\<dots> = kread im (wk_pos k) 128" using ch by (subst peek_kread) auto
  finally have "walk_frame k = frame_of_bytes (slot_bytes im w i)"
    using ch p by (simp add: walk_frame_def slot_bytes_def kWalFrameSize_def)
  moreover have "k\<lparr>wk_chunk := wk_chunk k\<rparr> = k" by simp
  ultimately show ?thesis
    using that [of "wk_chunk k"] True c by (simp add: walk_fetch_def)
next
  case False
  note G = wal_geoD [OF g] and B = slot_off_bounds [OF g, of i] and K = slot_block [OF g]
  define off where "off = BlockFloor (wk_pos k)"
  define len where "len = min (w_buf_size w) (w_ring_end w - off)"
  have o: "off = slot_off w (32 * (i div 32))" "wk_pos k = off + 128 * (i mod 32)"
    using p K(1,2) [of i] by (simp_all add: off_def)
  have "i mod 32 < 32" by simp
  then have in_block: "off \<le> wk_pos k" "wk_pos k + 128 \<le> off + 4096" using o(2) by linarith+
  have "4096 dvd w_ring_end w" "4096 dvd off"
    using g G(3,4) K(4) o by (auto simp: wal_geo_def kDataRegionOffset_8K)
  then have dv: "4096 dvd w_ring_end w - off" by (rule dvd_diff_nat)
  have "0 < w_ring_end w - off" using in_block(1) B p by linarith
  then have "4096 \<le> w_ring_end w - off" using dv by (intro dvd_imp_le)
  then have len: "4096 \<le> len" "off + len \<le> w_ring_end w"
    using G(6) by (auto simp: len_def)
  have rd: "RawDevice_ReadAt (wk_dev k) off len = (kSuccess, kread im off len, wk_dev k)"
    unfolding im by (rule healthy_ReadAt [OF d(1)]) (use len(2) d(2) in linarith)
  have up: "k\<lparr>wk_chunk := Some (off, kread im off len), wk_dev := wk_dev k\<rparr>
      = k\<lparr>wk_chunk := Some (off, kread im off len)\<rparr>" by simp
  have pk: "peek (wk_pos k - off) 128 (kread im off len) = kread im (wk_pos k) 128"
    using in_block len(1) by (subst peek_kread) auto
  show ?thesis
  proof (rule that [of "Some (off, kread im off len)"])
    show "walk_fetch w k = (kSuccess, k\<lparr>wk_chunk := Some (off, kread im off len)\<rparr>)"
      unfolding walk_fetch_def if_not_P [OF False] Let_def off_def [symmetric] len_def [symmetric] rd
        prod.case up by simp
    show "chunk_ok im (Some (off, kread im off len))" by (simp add: chunk_ok_def)
    show "walk_frame (k\<lparr>wk_chunk := Some (off, kread im off len)\<rparr>) = frame_of_bytes (slot_bytes im w i)"
      using pk p by (simp add: walk_frame_def slot_bytes_def kWalFrameSize_def)
  qed
qed

end
