(* ===== verification/Cabe_WalReplay.thy ===== *)
theory Cabe_WalReplay
  imports Cabe_WalScan
begin

text \<open>
  What WAL recovery relies on and what its walk does then: it hands the records from the first
  uncovered one up to the first missing one to the callback, in order, and counts what lies
  beyond as fragments.
\<close>

section \<open>A ring that can be recovered\<close>

text \<open>Whatever passes the frame check in a slot of the ring is a record of the log, in its own
  slot: no checksum collides, and no older life of the device left frames behind.\<close>

definition honest_ring :: "(nat \<Rightarrow> u8) \<Rightarrow> wal \<Rightarrow> wal_entry list \<Rightarrow> bool" where
  "honest_ring im w log \<longleftrightarrow> (\<forall>k < slots w. is_frame (slot_bytes im w k) \<longrightarrow>
     (\<exists>j < length log. slot_off w j = slot_off w k \<and> slot_bytes im w k = fb log j))"

text \<open>What is not known to be durable lies in one window, which does not cross the seam.\<close>

definition one_window :: "wal \<Rightarrow> wal_entry list \<Rightarrow> nat \<Rightarrow> bool" where
  "one_window w log m \<longleftrightarrow> (\<exists>b. 32 dvd b \<and> b \<le> m \<and> 128 * (length log - b) \<le> w_buf_size w
     \<and> (128 * b) mod ring_bytes w + 128 * (length log - b) \<le> ring_bytes w)"

definition recoverable :: "wal \<Rightarrow> wal_entry list \<Rightarrow> nat \<Rightarrow> nat \<Rightarrow> nat \<Rightarrow> bool" where
  "recoverable w log h cov m \<longleftrightarrow>
     wal_geo w \<and> w_buf w = None \<and> healthy (w_dev w) \<and> w_ring_end w \<le> size_bytes (w_dev w)
     \<and> w_ring_end w < 2 ^ 64 \<and> rd_durable (w_dev w) = rd_contents (w_dev w)
     \<and> entries_ok log \<and> length log + 2 ^ 32 < 2 ^ 64
     \<and> 32 dvd h \<and> h \<le> cov \<and> cov \<le> m \<and> m \<le> length log
     \<and> 128 * (length log - h) + 4096 \<le> ring_bytes w
     \<and> on_disk w (rd_contents (w_dev w)) log (h - 32) m
     \<and> honest_ring (rd_contents (w_dev w)) w log \<and> one_window w log m"

definition present :: "(nat \<Rightarrow> u8) \<Rightarrow> wal \<Rightarrow> wal_entry list \<Rightarrow> nat \<Rightarrow> bool" where
  "present im w log k \<longleftrightarrow> k < length log \<and> slot_bytes im w k = fb log k"

text \<open>The first record from \<open>cov\<close> on that is missing.\<close>

definition stop_at :: "(nat \<Rightarrow> u8) \<Rightarrow> wal \<Rightarrow> wal_entry list \<Rightarrow> nat \<Rightarrow> nat" where
  "stop_at im w log cov = cov + length (takeWhile (present im w log) [cov..<length log])"

lemma stop_at_props:
  assumes "cov \<le> length log"
  shows "cov \<le> stop_at im w log cov" "stop_at im w log cov \<le> length log"
    "cov \<le> k \<Longrightarrow> k < stop_at im w log cov \<Longrightarrow> present im w log k"
    "\<not> present im w log (stop_at im w log cov)"
proof -
  let ?t = "takeWhile (present im w log) [cov..<length log]"
  show "cov \<le> stop_at im w log cov" by (simp add: stop_at_def)
  have l: "length ?t \<le> length log - cov" using length_takeWhile_le [of _ "[cov..<length log]"] by simp
  then show "stop_at im w log cov \<le> length log" using assms by (simp add: stop_at_def)
  show "present im w log k" if "cov \<le> k" "k < stop_at im w log cov"
  proof -
    have i: "k - cov < length ?t" using that by (simp add: stop_at_def)
    then have "?t ! (k - cov) \<in> set ?t" by simp
    moreover have "?t ! (k - cov) = [cov..<length log] ! (k - cov)" using i by (rule takeWhile_nth)
    moreover have "[cov..<length log] ! (k - cov) = k" using i l that(1) by simp
    ultimately show ?thesis by (metis set_takeWhileD)
  qed
  show "\<not> present im w log (stop_at im w log cov)"
  proof
    assume p: "present im w log (stop_at im w log cov)"
    then have lt: "length ?t < length [cov..<length log]" by (simp add: present_def stop_at_def) linarith
    have "\<not> present im w log ([cov..<length log] ! length ?t)" using lt by (rule nth_length_takeWhile)
    then show False using p lt by (simp add: stop_at_def)
  qed
qed

lemma stop_at_ge:
  assumes "cov \<le> m" "m \<le> length log" "\<And>k. cov \<le> k \<Longrightarrow> k < m \<Longrightarrow> present im w log k"
  shows "m \<le> stop_at im w log cov"
  using stop_at_props(1,4) [of cov log im w] assms by (meson le_trans not_le)

lemma recoverableD:
  assumes "recoverable w log h cov m"
  shows "wal_geo w" "w_buf w = None" "healthy (w_dev w)" "w_ring_end w \<le> size_bytes (w_dev w)"
    "entries_ok log" "length log + 2 ^ 32 < 2 ^ 64" "32 dvd h" "h \<le> cov" "cov \<le> m" "m \<le> length log"
    "128 * (length log - h) + 4096 \<le> ring_bytes w" "on_disk w (rd_contents (w_dev w)) log (h - 32) m"
    "length log + 1 < 2 ^ 64" "length log < h + slots w"
    "rd_durable (w_dev w) = rd_contents (w_dev w)" "one_window w log m" "w_ring_end w < 2 ^ 64"
proof -
  show g: "wal_geo w" and "w_buf w = None" "healthy (w_dev w)" "w_ring_end w \<le> size_bytes (w_dev w)"
    "entries_ok log" and l: "length log + 2 ^ 32 < 2 ^ 64" and "32 dvd h" "h \<le> cov" "cov \<le> m" "m \<le> length log"
    and r: "128 * (length log - h) + 4096 \<le> ring_bytes w" and "on_disk w (rd_contents (w_dev w)) log (h - 32) m"
    "rd_durable (w_dev w) = rd_contents (w_dev w)" "one_window w log m" "w_ring_end w < 2 ^ 64"
    using assms unfolding recoverable_def by blast+
  show "length log + 1 < 2 ^ 64" using l by simp
  show "length log < h + slots w" using r slots_props(1) [OF g] by linarith
qed

lemma slot_off_lap: "wal_geo w \<Longrightarrow> slot_off w (k mod slots w) = slot_off w k"
  by (simp add: slot_off_mod)

lemma slot_bytes_lap: "wal_geo w \<Longrightarrow> slot_bytes im w (k mod slots w) = slot_bytes im w k"
  by (simp add: slot_bytes_def slot_off_lap)

lemma honest_slot:
  assumes r: "recoverable w log h cov m" and f: "is_frame (slot_bytes (rd_contents (w_dev w)) w k)"
  obtains j where "j < length log" "slot_off w j = slot_off w k" "slot_bytes (rd_contents (w_dev w)) w k = fb log j"
    "frame_seq (slot_bytes (rd_contents (w_dev w)) w k) = j + 1"
proof -
  note d = recoverableD [OF r]
  have "k mod slots w < slots w" using slots_props(3) [OF d(1)] by simp
  moreover have "is_frame (slot_bytes (rd_contents (w_dev w)) w (k mod slots w))"
    using f by (simp add: slot_bytes_lap [OF d(1)])
  ultimately obtain j where j: "j < length log" "slot_off w j = slot_off w (k mod slots w)"
    "slot_bytes (rd_contents (w_dev w)) w (k mod slots w) = fb log j"
    using r by (auto simp: recoverable_def honest_ring_def)
  show ?thesis
    by (rule that [OF j(1)])
      (use j fb_frame(2) [OF d(5) j(1) d(13)] in \<open>simp_all add: slot_bytes_lap [OF d(1)] slot_off_lap [OF d(1)]\<close>)
qed

text \<open>A live frame in the lap behind the snapshot is the record of its slot.\<close>

lemma live_present:
  assumes r: "recoverable w log h cov m" and k: "cov \<le> k" "k < cov + slots w"
  shows "live_frame (rd_contents (w_dev w)) w cov k \<longleftrightarrow> present (rd_contents (w_dev w)) w log k"
proof
  note d = recoverableD [OF r]
  assume "live_frame (rd_contents (w_dev w)) w cov k"
  then have f: "is_frame (slot_bytes (rd_contents (w_dev w)) w k)"
    "cov < frame_seq (slot_bytes (rd_contents (w_dev w)) w k)" by (simp_all add: live_frame_def)
  obtain j where j: "j < length log" "slot_off w j = slot_off w k"
    "slot_bytes (rd_contents (w_dev w)) w k = fb log j" "frame_seq (slot_bytes (rd_contents (w_dev w)) w k) = j + 1"
    by (rule honest_slot [OF r f(1)])
  have "j = k" by (rule slot_inj [OF d(1) j(2), of cov]) (use j f(2) k d(8,14) in linarith)+
  then show "present (rd_contents (w_dev w)) w log k" using j by (simp add: present_def)
next
  note d = recoverableD [OF r]
  assume "present (rd_contents (w_dev w)) w log k"
  then show "live_frame (rd_contents (w_dev w)) w cov k"
    using fb_frame [OF d(5) _ d(13), of k] k by (simp add: present_def live_frame_def)
qed

lemma kept_present:
  assumes r: "recoverable w log h cov m" and k: "h - 32 \<le> k" "k < m"
  shows "present (rd_contents (w_dev w)) w log k"
  using recoverableD [OF r] k by (simp add: present_def slot_bytes_def on_disk_def)

lemma stop_bounds:
  assumes r: "recoverable w log h cov m"
  defines "M \<equiv> stop_at (rd_contents (w_dev w)) w log cov"
  shows "m \<le> M" "M \<le> length log" "cov \<le> M" "M < cov + slots w"
    "cov \<le> k \<Longrightarrow> k < M \<Longrightarrow> present (rd_contents (w_dev w)) w log k"
    "\<not> present (rd_contents (w_dev w)) w log M"
proof -
  note d = recoverableD [OF r]
  have c: "cov \<le> length log" using d by simp
  note S = stop_at_props [OF c, where im = "rd_contents (w_dev w)" and w = w, folded M_def]
  show "M \<le> length log" "cov \<le> M" "\<not> present (rd_contents (w_dev w)) w log M" using S by blast+
  show "cov \<le> k \<Longrightarrow> k < M \<Longrightarrow> present (rd_contents (w_dev w)) w log k" using S by blast
  show "m \<le> M"
    unfolding M_def using kept_present [OF r] d by (intro stop_at_ge) auto
  show "M < cov + slots w" using S(2) d(8,14) by linarith
qed

section \<open>The run\<close>

fun replay_log ::
  "(wal_entry \<Rightarrow> u64 \<Rightarrow> 's \<Rightarrow> rc \<times> 's) \<Rightarrow> nat \<Rightarrow> wal_entry list \<Rightarrow> 's \<Rightarrow> rc \<times> 's" where
  "replay_log fn s [] st = (kSuccess, st)"
| "replay_log fn s (e # es) st =
     (case fn e (of_nat (s + 1)) st of (c, st1) \<Rightarrow>
      if c \<noteq> kSuccess then (c, st1) else replay_log fn (s + 1) es st1)"

definition run_state :: "wal \<Rightarrow> nat \<Rightarrow> nat \<Rightarrow> (nat \<times> bytes) option \<Rightarrow> 's \<Rightarrow> 's wal_walk" where
  "run_state w cov j ch st =
     \<lparr>wk_replayed = j, wk_t_stop = cov + j,
      wk_anchor = (if j = 0 then None else Some (slot_off w (cov + j - 1), cov + j)), wk_stop_off = 0,
      wk_fragments = 0, wk_blocks_crossed = (if j = 0 then 0 else (cov + j - 1) div 32 - cov div 32 + 1),
      wk_prev_block = (if j = 0 then 2 ^ 64 - 1 else slot_off w (cov + j - 1) div 4096),
      wk_expected = cov + j + 1, wk_in_run = True, wk_pos = slot_off w (cov + j), wk_chunk = ch,
      wk_dev = w_dev w, wk_state = st\<rparr>"

lemma next_block:
  assumes g: "wal_geo w"
  shows "slot_off w (Suc k) div 4096 = slot_off w k div 4096 \<longleftrightarrow> Suc k div 32 = k div 32"
proof -
  note K = slot_block [OF g]
  have n: "32 dvd slots w" "64 \<le> slots w" using slots_props [OF g] by simp_all
  define r where "r = k mod slots w"
  have r: "r < slots w" "r mod 32 = k mod 32"
    using n by (simp_all add: r_def mod_mod_cancel)
  have s: "Suc k div 32 = k div 32 \<longleftrightarrow> Suc (k mod 32) \<noteq> 32" by (simp add: div_Suc mod_Suc)
  have e: "Suc k mod slots w = (if Suc r = slots w then 0 else Suc r)"
    by (simp add: r_def mod_Suc)
  show ?thesis
  proof (cases "Suc r = slots w")
    case True
    then have "Suc r mod 32 = 0" using n(1) by (simp add: dvd_imp_mod_0)
    then have "Suc (r mod 32) = 32" by (simp add: mod_Suc split: if_splits)
    moreover have "0 < r div 32" using True n(2) by (simp add: div_greater_zero_iff)
    ultimately show ?thesis using s r(2) e True K(3) by (simp add: r_def [symmetric])
  next
    case False
    then show ?thesis
      using e s r(2) K(3) by (simp add: r_def [symmetric] div_Suc mod_Suc)
  qed
qed

lemma blocks_step:
  assumes g: "wal_geo w" and b: "w_ring_end w < 2 ^ 64"
  shows "(if slot_off w (cov + j) div 4096
            \<noteq> (if j = 0 then 2 ^ 64 - 1 else slot_off w (cov + j - 1) div 4096)
          then (if j = 0 then 0 else (cov + j - 1) div 32 - cov div 32 + 1) + 1
          else (if j = 0 then 0 else (cov + j - 1) div 32 - cov div 32 + 1))
      = (cov + j) div 32 - cov div 32 + 1"
proof (cases j)
  case 0
  have "slot_off w cov div 4096 \<le> slot_off w cov" by (rule div_le_dividend)
  then have "slot_off w cov div 4096 < 2 ^ 64 - 1"
    using slot_off_bounds(2) [OF g, of cov] b by linarith
  then show ?thesis using 0 by simp
next
  case (Suc i)
  have "cov div 32 \<le> (cov + i) div 32" by (simp add: div_le_mono)
  moreover have "Suc (cov + i) div 32 = (cov + i) div 32 \<or> Suc (cov + i) div 32 = Suc ((cov + i) div 32)"
    by (simp add: div_Suc)
  ultimately show ?thesis using next_block [OF g, of "cov + i"] Suc by (auto simp: Suc_diff_le)
qed

lemma fetch_run:
  assumes r: "recoverable w log h cov m" and d: "wk_dev k = w_dev w" "wk_pos k = slot_off w i"
    and c: "chunk_ok (rd_contents (w_dev w)) (wk_chunk k)"
  obtains ch where "walk_fetch w k = (kSuccess, k\<lparr>wk_chunk := ch\<rparr>)"
    "chunk_ok (rd_contents (w_dev w)) ch"
    "walk_frame (k\<lparr>wk_chunk := ch\<rparr>) = frame_of_bytes (slot_bytes (rd_contents (w_dev w)) w i)"
  using walk_fetch_slot [OF recoverableD(1) [OF r], of k "rd_contents (w_dev w)" i]
    recoverableD(3,4) [OF r] d c by metis

lemma run_step:
  fixes st :: 's
  assumes r: "recoverable w log h cov m" and j: "cov + j < stop_at (rd_contents (w_dev w)) w log cov"
    and c: "chunk_ok (rd_contents (w_dev w)) ch"
  obtains ch' where "chunk_ok (rd_contents (w_dev w)) ch'"
    "walk_slot w cov fn (run_state w cov j ch st) =
       (case fn (log ! (cov + j)) (of_nat (cov + j + 1)) st of (c, st') \<Rightarrow>
        if c \<noteq> kSuccess then (c, run_state w cov j ch' st') else (kSuccess, run_state w cov (j + 1) ch' st'))"
proof -
  note d = recoverableD [OF r]
  let ?im = "rd_contents (w_dev w)" and ?k = "run_state w cov j ch st"
  have pr: "present ?im w log (cov + j)" using stop_bounds(5) [OF r, of "cov + j"] j by simp
  then have sl: "cov + j < length log" "slot_bytes ?im w (cov + j) = fb log (cov + j)"
    by (simp_all add: present_def)
  note F = fb_frame [OF d(5) sl(1) d(13)]
  have dv: "wk_dev ?k = w_dev w" "wk_pos ?k = slot_off w (cov + j)" by (simp_all add: run_state_def)
  obtain ch' where ch: "walk_fetch w ?k = (kSuccess, ?k\<lparr>wk_chunk := ch'\<rparr>)"
    "chunk_ok ?im ch'"
    "walk_frame (?k\<lparr>wk_chunk := ch'\<rparr>) = frame_of_bytes (slot_bytes ?im w (cov + j))"
    by (rule fetch_run [OF r dv]) (use c in \<open>auto simp: run_state_def\<close>)
  have up: "?k\<lparr>wk_chunk := ch'\<rparr> = run_state w cov j ch' st" by (simp add: run_state_def)
  have ok: "VerifyFrame (frame_of_bytes (fb log (cov + j)))" using F(1) by (simp add: is_frame_def)
  have sq: "unat (f_seq (frame_of_bytes (fb log (cov + j)))) = cov + j + 1"
    using F(2) by (simp add: frame_seq_def)
  have m64: "(cov + j + 1 + 1) mod 2 ^ 64 = cov + j + 1 + 1" using sl(1) d(6) by simp
  have fields: "wk_in_run (run_state w cov j ch' st)" "wk_expected (run_state w cov j ch' st) = cov + j + 1"
    "wk_state (run_state w cov j ch' st) = st" "wk_pos (run_state w cov j ch' st) = slot_off w (cov + j)"
    by (simp_all add: run_state_def)
  have deliver: "walk_deliver fn (frame_of_bytes (fb log (cov + j))) (run_state w cov j ch' st) =
      (case fn (log ! (cov + j)) (of_nat (cov + j + 1)) st of (c, st') \<Rightarrow>
       if c \<noteq> kSuccess then (c, run_state w cov j ch' st')
       else (kSuccess, (run_state w cov (j + 1) ch' st')\<lparr>wk_pos := slot_off w (cov + j)\<rparr>))"
  proof -
    obtain c1 st1 where fn: "fn (log ! (cov + j)) (of_nat (cov + j + 1)) st = (c1, st1)" by fastforce
    have b: "wk_blocks_crossed (run_state w cov j ch' st)
        = (if j = 0 then 0 else (cov + j - 1) div 32 - cov div 32 + 1)"
      "wk_prev_block (run_state w cov j ch' st)
        = (if j = 0 then 2 ^ 64 - 1 else slot_off w (cov + j - 1) div 4096)"
      by (simp_all add: run_state_def)
    show ?thesis
      unfolding walk_deliver_def F(3) F(4) fields fn prod.case Let_def kWalBlockSize_def b
        blocks_step [OF d(1,17)] sq [unfolded F(4)] m64
      by (simp add: run_state_def)
  qed
  have nx: "(if slot_off w (cov + j) + kWalFrameSize = w_ring_end w then w_ring_start w
      else slot_off w (cov + j) + kWalFrameSize) = slot_off w (cov + (j + 1))"
    using slot_off_Suc [OF d(1), of "cov + j"] by (simp add: kWalFrameSize_def split: if_splits)
  have fin: "(run_state w cov (j + 1) ch' st')\<lparr>wk_pos := slot_off w (cov + j),
      wk_pos := slot_off w (cov + (j + 1))\<rparr> = run_state w cov (j + 1) ch' st'" for st' :: 's
    by (simp add: run_state_def)
  show ?thesis
  proof (rule that [of ch'])
    show "chunk_ok ?im ch'" by (rule ch(2))
    obtain c1 st1 where fn: "fn (log ! (cov + j)) (of_nat (cov + j + 1)) st = (c1, st1)" by fastforce
    show "walk_slot w cov fn ?k =
       (case fn (log ! (cov + j)) (of_nat (cov + j + 1)) st of (c, st') \<Rightarrow>
        if c \<noteq> kSuccess then (c, run_state w cov j ch' st') else (kSuccess, run_state w cov (j + 1) ch' st'))"
      unfolding walk_slot_def ch(1) prod.case Let_def ch(3) [unfolded up] up sl(2) deliver fn
      using fields ok sq nx fin by (simp split: if_splits)
  qed
qed

lemma run_loop:
  fixes st :: 's
  assumes r: "recoverable w log h cov m"
  defines "M \<equiv> stop_at (rd_contents (w_dev w)) w log cov"
  shows "cov + j + t = M \<Longrightarrow> chunk_ok (rd_contents (w_dev w)) ch \<Longrightarrow>
    \<exists>j' ch'. chunk_ok (rd_contents (w_dev w)) ch' \<and> walk_loop (t + n) w cov fn (run_state w cov j ch st)
        = (case replay_log fn (cov + j) (drop (cov + j) (take M log)) st of (c, st') \<Rightarrow>
           if c \<noteq> kSuccess then (c, run_state w cov j' ch' st')
           else walk_loop n w cov fn (run_state w cov (j + t) ch' st'))"
proof (induction t arbitrary: j ch st)
  case 0
  then have "drop (cov + j) (take M log) = []" by simp
  then show ?case using 0(2) by (intro exI [of _ j] exI [of _ ch]) simp
next
  case (Suc t)
  have j: "cov + j < stop_at (rd_contents (w_dev w)) w log cov" using Suc.prems(1) by (simp add: M_def)
  obtain ch1 where C: "chunk_ok (rd_contents (w_dev w)) ch1"
    and S: "walk_slot w cov fn (run_state w cov j ch st) =
       (case fn (log ! (cov + j)) (of_nat (cov + j + 1)) st of (c, st') \<Rightarrow>
        if c \<noteq> kSuccess then (c, run_state w cov j ch1 st') else (kSuccess, run_state w cov (j + 1) ch1 st'))"
    by (rule run_step [OF r j Suc.prems(2), where fn = fn])
  have "M \<le> length log" using stop_bounds(2) [OF r] by (simp only: M_def)
  moreover have "cov + j < M" using j by (simp only: M_def)
  ultimately have lt: "cov + j < length (take M log)" and nt: "take M log ! (cov + j) = log ! (cov + j)"
    by simp_all
  have dr: "drop (cov + j) (take M log) = log ! (cov + j) # drop (cov + (j + 1)) (take M log)"
    using Cons_nth_drop_Suc [OF lt] by (simp add: nt)
  obtain c1 st1 where fn: "fn (log ! (cov + j)) (of_nat (cov + j + 1)) st = (c1, st1)" by fastforce
  have lp: "walk_loop (Suc t + n) w cov fn (run_state w cov j ch st) =
      (if c1 \<noteq> kSuccess then (c1, run_state w cov j ch1 st1)
       else walk_loop (t + n) w cov fn (run_state w cov (j + 1) ch1 st1))"
    unfolding add_Suc walk_loop.simps S fn prod.case by simp
  show ?case
  proof (cases "c1 = kSuccess")
    case False
    then show ?thesis
      unfolding lp dr replay_log.simps fn prod.case
      by (intro exI [of _ j] exI [of _ ch1]) (use C in simp)
  next
    case True
    have "cov + (j + 1) + t = M" using Suc.prems(1) by simp
    from Suc.IH [OF this C] obtain j' ch' where
      "chunk_ok (rd_contents (w_dev w)) ch'"
      "walk_loop (t + n) w cov fn (run_state w cov (j + 1) ch1 st1)
        = (case replay_log fn (cov + (j + 1)) (drop (cov + (j + 1)) (take M log)) st1 of (c, st') \<Rightarrow>
           if c \<noteq> kSuccess then (c, run_state w cov j' ch' st')
           else walk_loop n w cov fn (run_state w cov (j + 1 + t) ch' st'))" by blast
    then show ?thesis
      unfolding lp dr replay_log.simps fn prod.case
      by (intro exI [of _ j'] exI [of _ ch']) (simp add: True split: prod.split)
  qed
qed

section \<open>The sweep\<close>

definition sweep_state ::
  "wal \<Rightarrow> nat \<Rightarrow> nat \<Rightarrow> nat \<Rightarrow> nat \<Rightarrow> (nat \<times> bytes) option \<Rightarrow> 's \<Rightarrow> 's wal_walk" where
  "sweep_state w cov M i fr ch st = (run_state w cov (M - cov) ch st)\<lparr>wk_in_run := False,
     wk_stop_off := slot_off w M, wk_fragments := fr, wk_pos := slot_off w i\<rparr>"

text \<open>A record beyond the stop lies in the tolerated zone.\<close>

lemma fragment_zone:
  assumes r: "recoverable w log h cov m" and M: "M = stop_at (rd_contents (w_dev w)) w log cov"
    and i: "M \<le> i" "i < length log"
  shows "slot_off w i = slot_off w M + 128 * (i - M)"
    "slot_off w i + 128 \<le> min (BlockFloor (slot_off w M) + w_buf_size w) (w_ring_end w)"
    "M < i + 1" "i + 1 \<le> M + w_buf_size w div 128"
proof -
  note d = recoverableD [OF r] and S = stop_bounds [OF r, folded M]
  note G = wal_geoD [OF d(1)] and K = slot_block [OF d(1)]
  obtain b where b: "32 dvd b" "b \<le> m" "128 * (length log - b) \<le> w_buf_size w"
    "(128 * b) mod ring_bytes w + 128 * (length log - b) \<le> ring_bytes w"
    using d(16) by (auto simp: one_window_def)
  have bM: "b \<le> M" using b(2) S(1) by simp
  have off: "slot_off w k = slot_off w b + 128 * (k - b)" if "b \<le> k" "k < length log" for k
  proof -
    have "128 * k = 128 * b + 128 * (k - b)" using that by simp
    moreover have "(128 * b + 128 * (k - b)) mod ring_bytes w = (128 * b) mod ring_bytes w + 128 * (k - b)"
      by (rule mod_forward) (use b(4) that in linarith)
    ultimately show ?thesis by (simp add: slot_off_def)
  qed
  have Mi: "M < length log" using i by simp
  show e: "slot_off w i = slot_off w M + 128 * (i - M)"
    using off [OF bM Mi] off [of i] bM i by simp
  have end_i: "slot_off w i + 128 \<le> slot_off w b + 128 * (length log - b)"
    using off [of i] bM i by simp
  obtain c where c: "b = 32 * c" using b(1) by (rule dvdE)
  have "slot_off w b \<le> BlockFloor (slot_off w M)"
  proof -
    have "4096 dvd slot_off w b" using K(4) [of c] c by simp
    then obtain q where q: "slot_off w b = 4096 * q" by (rule dvdE)
    have "slot_off w b \<le> slot_off w M" using off [OF bM Mi] by simp
    then have "4096 * q div 4096 \<le> slot_off w M div 4096" unfolding q by (rule div_le_mono)
    then show ?thesis unfolding BlockFloor_def kWalBlockSize_def q by simp
  qed
  then have "slot_off w i + 128 \<le> BlockFloor (slot_off w M) + w_buf_size w"
    using end_i b(3) by linarith
  moreover have "slot_off w i + 128 \<le> w_ring_end w" by (rule slot_off_bounds(2) [OF d(1)])
  ultimately show "slot_off w i + 128 \<le> min (BlockFloor (slot_off w M) + w_buf_size w) (w_ring_end w)" by simp
  show "M < i + 1" using i by simp
  have "length log - b \<le> w_buf_size w div 128" using b(3) by (simp add: less_eq_div_iff_mult_less_eq mult.commute)
  then show "i + 1 \<le> M + w_buf_size w div 128" using i bM by linarith
qed

lemma sweep_slot:
  assumes r: "recoverable w log h cov m" and M: "M = stop_at (rd_contents (w_dev w)) w log cov"
    and i: "M \<le> i" "i < cov + slots w"
    and k: "wk_stop_off k = slot_off w M" "wk_t_stop k = M" "wk_pos k = slot_off w i"
  shows "walk_sweep w cov (frame_of_bytes (slot_bytes (rd_contents (w_dev w)) w i)) k
    = (kSuccess, k\<lparr>wk_fragments := (if present (rd_contents (w_dev w)) w log i then wk_fragments k + 1
         else wk_fragments k)\<rparr>)"
proof -
  note d = recoverableD [OF r] and S = stop_bounds [OF r, folded M]
  let ?im = "rd_contents (w_dev w)" and ?f = "frame_of_bytes (slot_bytes (rd_contents (w_dev w)) w i)"
  have lv: "VerifyFrame ?f \<and> cov < unat (f_seq ?f) \<longleftrightarrow> present ?im w log i"
    using live_present [OF r, of i] i S(3) by (simp add: live_frame_def is_frame_def frame_seq_def)
  show ?thesis
  proof (cases "present ?im w log i")
    case False
    then show ?thesis using lv by (simp add: walk_sweep_def Let_def)
  next
    case True
    then have il: "i < length log" "slot_bytes ?im w i = fb log i" by (simp_all add: present_def)
    have sq: "unat (f_seq ?f) = i + 1"
      using fb_frame(2) [OF d(5) il(1) d(13)] il(2) by (simp add: frame_seq_def)
    note Z = fragment_zone [OF r M i(1) il(1)]
    have "w_buf_size w \<le> 2 ^ 38" using d(1) by (simp add: wal_geo_def)
    then have "w_buf_size w div 128 \<le> 2 ^ 38 div 128" by (rule div_le_mono)
    then have "w_buf_size w div 128 \<le> 2 ^ 31" by simp
    then have mm: "(M + w_buf_size w div kWalFrameSize) mod 2 ^ 64 = M + w_buf_size w div 128"
      using S(2) d(6) by (simp add: kWalFrameSize_def)
    have phys: "slot_off w M \<le> slot_off w i"
      "slot_off w i < min (BlockFloor (slot_off w M) + w_buf_size w) (w_ring_end w)"
      using Z(1,2) by linarith+
    show ?thesis
      unfolding walk_sweep_def Let_def k mm sq
      using lv True phys Z(3,4) sq by simp
  qed
qed

lemma sweep_step:
  fixes st :: 's
  assumes r: "recoverable w log h cov m" and M: "M = stop_at (rd_contents (w_dev w)) w log cov"
    and i: "M \<le> i" "i < cov + slots w" and c: "chunk_ok (rd_contents (w_dev w)) ch"
  obtains ch' where "chunk_ok (rd_contents (w_dev w)) ch'"
    "walk_slot w cov fn (sweep_state w cov M i fr ch st) =
       (kSuccess, sweep_state w cov M (i + 1)
          (if present (rd_contents (w_dev w)) w log i then fr + 1 else fr) ch' st)"
proof -
  note d = recoverableD [OF r] and S = stop_bounds [OF r, folded M]
  let ?im = "rd_contents (w_dev w)" and ?k = "sweep_state w cov M i fr ch st"
  have dv: "wk_dev ?k = w_dev w" "wk_pos ?k = slot_off w i"
    by (simp_all add: sweep_state_def run_state_def)
  obtain ch' where ch: "walk_fetch w ?k = (kSuccess, ?k\<lparr>wk_chunk := ch'\<rparr>)" "chunk_ok ?im ch'"
    "walk_frame (?k\<lparr>wk_chunk := ch'\<rparr>) = frame_of_bytes (slot_bytes ?im w i)"
    by (rule fetch_run [OF r dv]) (use c in \<open>auto simp: sweep_state_def run_state_def\<close>)
  have up: "?k\<lparr>wk_chunk := ch'\<rparr> = sweep_state w cov M i fr ch' st"
    by (simp add: sweep_state_def run_state_def)
  let ?k1 = "sweep_state w cov M i fr ch' st"
  have f: "wk_stop_off ?k1 = slot_off w M" "wk_t_stop ?k1 = M" "wk_pos ?k1 = slot_off w i"
    "\<not> wk_in_run ?k1" "wk_fragments ?k1 = fr"
    using S(3) by (simp_all add: sweep_state_def run_state_def)
  note W = sweep_slot [OF r M i f(1,2,3)]
  have nx: "(if slot_off w i + kWalFrameSize = w_ring_end w then w_ring_start w
      else slot_off w i + kWalFrameSize) = slot_off w (i + 1)"
    using slot_off_Suc [OF d(1), of i] by (simp add: kWalFrameSize_def split: if_splits)
  show ?thesis
  proof (rule that [OF ch(2)])
    show "walk_slot w cov fn ?k = (kSuccess, sweep_state w cov M (i + 1)
          (if present ?im w log i then fr + 1 else fr) ch' st)"
      unfolding walk_slot_def ch(1) prod.case Let_def ch(3) [unfolded up] up if_not_P [OF f(4)] W f(5)
      using nx f(3) by (simp add: sweep_state_def split: if_splits)
  qed
qed

lemma stop_step:
  fixes st :: 's
  assumes r: "recoverable w log h cov m" and M: "M = stop_at (rd_contents (w_dev w)) w log cov"
    and c: "chunk_ok (rd_contents (w_dev w)) ch"
  obtains ch' where "chunk_ok (rd_contents (w_dev w)) ch'"
    "walk_slot w cov fn (run_state w cov (M - cov) ch st) = (kSuccess, sweep_state w cov M (M + 1) 0 ch' st)"
proof -
  note d = recoverableD [OF r] and S = stop_bounds [OF r, folded M]
  let ?im = "rd_contents (w_dev w)" and ?k = "run_state w cov (M - cov) ch st"
  have dv: "wk_dev ?k = w_dev w" "wk_pos ?k = slot_off w M"
    using S(3) by (simp_all add: run_state_def)
  obtain ch' where ch: "walk_fetch w ?k = (kSuccess, ?k\<lparr>wk_chunk := ch'\<rparr>)" "chunk_ok ?im ch'"
    "walk_frame (?k\<lparr>wk_chunk := ch'\<rparr>) = frame_of_bytes (slot_bytes ?im w M)"
    by (rule fetch_run [OF r dv]) (use c in \<open>auto simp: run_state_def\<close>)
  have up: "?k\<lparr>wk_chunk := ch'\<rparr> = run_state w cov (M - cov) ch' st" by (simp add: run_state_def)
  let ?k1 = "run_state w cov (M - cov) ch' st"
  have f: "wk_in_run ?k1" "wk_expected ?k1 = M + 1" "wk_pos ?k1 = slot_off w M"
    using S(3) by (simp_all add: run_state_def)
  have no: "\<not> (VerifyFrame (frame_of_bytes (slot_bytes ?im w M)) \<and>
      unat (f_seq (frame_of_bytes (slot_bytes ?im w M))) = M + 1)"
  proof
    assume v: "VerifyFrame (frame_of_bytes (slot_bytes ?im w M)) \<and>
      unat (f_seq (frame_of_bytes (slot_bytes ?im w M))) = M + 1"
    then have "live_frame ?im w cov M" using S(3) by (simp add: live_frame_def is_frame_def frame_seq_def)
    then show False using live_present [OF r S(3,4)] S(6) by simp
  qed
  let ?k2 = "?k1\<lparr>wk_in_run := False, wk_stop_off := slot_off w M\<rparr>"
  have f2: "wk_stop_off ?k2 = slot_off w M" "wk_t_stop ?k2 = M" "wk_pos ?k2 = slot_off w M"
    using S(3) by (simp_all add: run_state_def)
  note W = sweep_slot [OF r M order_refl S(4) f2]
  have e2: "?k2\<lparr>wk_fragments := wk_fragments ?k2\<rparr> = ?k2" by simp
  have nx: "(if slot_off w M + kWalFrameSize = w_ring_end w then w_ring_start w
      else slot_off w M + kWalFrameSize) = slot_off w (M + 1)"
    using slot_off_Suc [OF d(1), of M] by (simp add: kWalFrameSize_def split: if_splits)
  show ?thesis
  proof (rule that [OF ch(2)])
    show "walk_slot w cov fn ?k = (kSuccess, sweep_state w cov M (M + 1) 0 ch' st)"
      unfolding walk_slot_def ch(1) prod.case Let_def ch(3) [unfolded up] up if_P [OF f(1)] f(2)
        if_not_P [OF no] f(3) W if_not_P [OF S(6)] e2
      using nx f2(3) S(3) by (simp add: sweep_state_def run_state_def split: if_splits)
  qed
qed

lemma sweep_loop:
  fixes st :: 's
  assumes r: "recoverable w log h cov m" and M: "M = stop_at (rd_contents (w_dev w)) w log cov"
  shows "i + n = cov + slots w \<Longrightarrow> M \<le> i \<Longrightarrow> chunk_ok (rd_contents (w_dev w)) ch \<Longrightarrow>
    \<exists>ch'. walk_loop n w cov fn (sweep_state w cov M i fr ch st)
      = (kSuccess, sweep_state w cov M (cov + slots w)
          (fr + card {k. i \<le> k \<and> k < cov + slots w \<and> present (rd_contents (w_dev w)) w log k}) ch' st)"
proof (induction n arbitrary: i fr ch)
  case 0
  then have "{k. i \<le> k \<and> k < cov + slots w \<and> present (rd_contents (w_dev w)) w log k} = {}" by auto
  then show ?case using 0(1) by (intro exI [of _ ch]) (simp only: walk_loop.simps card.empty add_0_right)
next
  case (Suc n)
  let ?p = "present (rd_contents (w_dev w)) w log"
  have i: "i < cov + slots w" using Suc.prems(1) by simp
  obtain ch1 where C: "chunk_ok (rd_contents (w_dev w)) ch1"
    and S: "walk_slot w cov fn (sweep_state w cov M i fr ch st) =
       (kSuccess, sweep_state w cov M (i + 1) (if ?p i then fr + 1 else fr) ch1 st)"
    by (rule sweep_step [OF r M Suc.prems(2) i Suc.prems(3)])
  have "{k. i \<le> k \<and> k < cov + slots w \<and> ?p k}
      = (if ?p i then insert i {k. i + 1 \<le> k \<and> k < cov + slots w \<and> ?p k}
         else {k. i + 1 \<le> k \<and> k < cov + slots w \<and> ?p k})"
    using i by (auto simp: le_Suc_eq Suc_le_eq le_less)
  then have cd: "card {k. i \<le> k \<and> k < cov + slots w \<and> ?p k}
      = (if ?p i then 1 else 0) + card {k. i + 1 \<le> k \<and> k < cov + slots w \<and> ?p k}"
    by (simp add: card_insert_disjoint)
  have "(i + 1) + n = cov + slots w" "M \<le> i + 1" using Suc.prems by simp_all
  from Suc.IH [OF this C, of "if ?p i then fr + 1 else fr"] obtain ch' where
    "walk_loop n w cov fn (sweep_state w cov M (i + 1) (if ?p i then fr + 1 else fr) ch1 st)
      = (kSuccess, sweep_state w cov M (cov + slots w) ((if ?p i then fr + 1 else fr)
          + card {k. i + 1 \<le> k \<and> k < cov + slots w \<and> ?p k}) ch' st)" by blast
  moreover have "(if ?p i then fr + 1 else fr) + card {k. i + 1 \<le> k \<and> k < cov + slots w \<and> ?p k}
      = fr + card {k. i \<le> k \<and> k < cov + slots w \<and> ?p k}" using cd by simp
  ultimately show ?case
    by (intro exI [of _ ch']) (simp add: S)
qed

text \<open>The whole walk.\<close>

definition fragments_of :: "(nat \<Rightarrow> u8) \<Rightarrow> wal \<Rightarrow> wal_entry list \<Rightarrow> nat \<Rightarrow> nat" where
  "fragments_of im w log M = card {k. M < k \<and> present im w log k}"

lemma walk_result:
  fixes st :: 's
  assumes r: "recoverable w log h cov m" and M: "M = stop_at (rd_contents (w_dev w)) w log cov"
    and k: "k = run_state w cov 0 None st"
    and rp: "replay_log fn cov (drop cov (take M log)) st = (c, st')"
  shows "\<exists>j ch. walk_loop (slots w) w cov fn k = (if c \<noteq> kSuccess then (c, run_state w cov j ch st')
    else (kSuccess, sweep_state w cov M (cov + slots w) (fragments_of (rd_contents (w_dev w)) w log M) ch st'))"
proof -
  note d = recoverableD [OF r] and S = stop_bounds [OF r, folded M]
  let ?im = "rd_contents (w_dev w)"
  obtain n where n: "slots w = (M - cov) + Suc n"
    using S(3,4) by (metis add_Suc_right less_imp_Suc_add less_diff_conv2 add.commute)
  have tot: "cov + 0 + (M - cov) = stop_at ?im w log cov" using S(3) M by simp
  have c0: "chunk_ok ?im None" by (simp add: chunk_ok_def)
  obtain j' ch' where R: "chunk_ok ?im ch'"
    "walk_loop (slots w) w cov fn k = (if c \<noteq> kSuccess then (c, run_state w cov j' ch' st')
       else walk_loop (Suc n) w cov fn (run_state w cov (M - cov) ch' st'))"
    using run_loop [OF r tot c0, of "Suc n" fn st] rp
    unfolding M [symmetric] n k add_0 add_0_right by (simp del: walk_loop.simps) blast
  show ?thesis
  proof (cases "c = kSuccess")
    case False
    then show ?thesis using R(2) by auto
  next
    case True
    obtain ch1 where C: "chunk_ok ?im ch1"
      "walk_slot w cov fn (run_state w cov (M - cov) ch' st') = (kSuccess, sweep_state w cov M (M + 1) 0 ch1 st')"
      by (rule stop_step [OF r M R(1)])
    have e: "(M + 1) + n = cov + slots w" using n S(3) by simp
    obtain ch2 where L: "walk_loop n w cov fn (sweep_state w cov M (M + 1) 0 ch1 st')
      = (kSuccess, sweep_state w cov M (cov + slots w)
          (0 + card {k. M + 1 \<le> k \<and> k < cov + slots w \<and> present ?im w log k}) ch2 st')"
      using sweep_loop [OF r M e _ C(1), of fn 0 st'] by auto
    have "{k. M + 1 \<le> k \<and> k < cov + slots w \<and> present ?im w log k} = {k. M < k \<and> present ?im w log k}"
      using d(8,14) by (auto simp: present_def)
    then show ?thesis
      unfolding R(2) walk_loop.simps C(2) prod.case L using True by (auto simp: fragments_of_def)
  qed
qed

end
