(* ===== verification/Cabe_WalRebuild.thy ===== *)
theory Cabe_WalRebuild
  imports Cabe_WalReplay
begin

declare census_loop.simps [simp del] erase_loop.simps [simp del]

text \<open>
  The state WAL recovery rebuilds: what the census tells about the log, the erased zone, the
  refilled window, and the invariant of the log at the end.
\<close>

section \<open>The census and the log\<close>

lemma lap_image:
  assumes g: "wal_geo w" and P: "\<And>k. P (k mod slots w) = P k"
  shows "card {k. k < slots w \<and> P k} = card {k. a \<le> k \<and> k < a + slots w \<and> P k}"
proof -
  let ?N = "slots w" and ?S = "{k. a \<le> k \<and> k < a + slots w \<and> P k}"
  have N: "0 < ?N" using slots_props(3) [OF g] by simp
  have inj: "inj_on (\<lambda>k. k mod ?N) ?S"
  proof (rule inj_onI)
    fix i j
    assume i: "i \<in> ?S" and j: "j \<in> ?S" and e: "i mod ?N = j mod ?N"
    show "i = j" by (rule slot_inj [OF g, of _ _ a]) (use i j e slot_off_eq [OF g] in auto)
  qed
  have "(\<lambda>k. k mod ?N) ` ?S = {k. k < ?N \<and> P k}"
  proof (intro equalityI subsetI)
    fix i
    assume "i \<in> (\<lambda>k. k mod ?N) ` ?S"
    then show "i \<in> {k. k < ?N \<and> P k}" using N P by auto
  next
    fix i
    assume "i \<in> {k. k < ?N \<and> P k}"
    then have i: "i < ?N" "P i" by auto
    define k where "k = a + (i + ?N - a mod ?N) mod ?N"
    have am: "a mod ?N < ?N" using N by simp
    have "k mod ?N = (a mod ?N + (i + ?N - a mod ?N)) mod ?N"
      by (metis k_def mod_add_left_eq mod_add_right_eq)
    also have "a mod ?N + (i + ?N - a mod ?N) = i + ?N" using am by simp
    finally have e: "k mod ?N = i" using i by simp
    have "k < a + ?N" using N by (simp add: k_def)
    moreover have "P k" using P [of k] e i(2) by simp
    ultimately have "k \<in> ?S" by (simp add: k_def)
    then show "i \<in> (\<lambda>k. k mod ?N) ` ?S" using e by force
  qed
  then show ?thesis using card_image [OF inj] by simp
qed

lemma live_total:
  assumes r: "recoverable w log h cov m" and M: "M = stop_at (rd_contents (w_dev w)) w log cov"
  shows "card {k. k < slots w \<and> live_frame (rd_contents (w_dev w)) w cov k}
    = (M - cov) + fragments_of (rd_contents (w_dev w)) w log M"
proof -
  note d = recoverableD [OF r] and S = stop_bounds [OF r, folded M]
  let ?im = "rd_contents (w_dev w)"
  let ?F = "{k. M < k \<and> present ?im w log k}"
  have "card {k. k < slots w \<and> live_frame ?im w cov k}
      = card {k. cov \<le> k \<and> k < cov + slots w \<and> live_frame ?im w cov k}"
    by (rule lap_image [OF d(1)]) (simp add: live_frame_def slot_bytes_lap [OF d(1)])
  also have "{k. cov \<le> k \<and> k < cov + slots w \<and> live_frame ?im w cov k} = {cov..<M} \<union> ?F"
  proof (intro equalityI subsetI)
    fix k
    assume "k \<in> {k. cov \<le> k \<and> k < cov + slots w \<and> live_frame ?im w cov k}"
    then have k: "cov \<le> k" "present ?im w log k" using live_present [OF r, of k] by auto
    then show "k \<in> {cov..<M} \<union> ?F" using S(6) by (cases "k < M") (auto simp: not_less le_less)
  next
    fix k
    assume "k \<in> {cov..<M} \<union> ?F"
    then have "cov \<le> k" "present ?im w log k" using S(3,5) by auto
    moreover have "k < cov + slots w" using calculation d(8,14) by (simp add: present_def)
    ultimately show "k \<in> {k. cov \<le> k \<and> k < cov + slots w \<and> live_frame ?im w cov k}"
      using live_present [OF r] by auto
  qed
  also have "card \<dots> = card {cov..<M} + card ?F"
  proof (rule card_Un_disjoint)
    show "finite ?F" by (rule finite_subset [of _ "{..<length log}"]) (auto simp: present_def)
  qed auto
  finally show ?thesis by (simp add: fragments_of_def)
qed

lemma census_summary:
  assumes r: "recoverable w log h cov m" and M: "M = stop_at (rd_contents (w_dev w)) w log cov"
    and c: "census_inv (rd_contents (w_dev w)) w cov (slots w) c"
  shows "cn_live_count c = (M - cov) + fragments_of (rd_contents (w_dev w)) w log M"
    "cov < M \<Longrightarrow> cn_min_live_seq c = cov + 1 \<and> cn_min_live_off c = slot_off w cov"
    "0 < cov \<Longrightarrow> cn_valid_count c \<noteq> 0"
    "cn_live_count c = 0 \<Longrightarrow> 0 < cov \<Longrightarrow> cn_max_valid_seq c = cov \<and> cn_max_valid_off c = slot_off w (cov - 1)"
    "cn_live_count c = 0 \<Longrightarrow> cov = 0 \<Longrightarrow> cn_valid_count c = 0"
    "\<not> present (rd_contents (w_dev w)) w log cov \<Longrightarrow> cn_live_count c \<noteq> 0 \<Longrightarrow> cn_min_live_seq c \<noteq> cov + 1"
proof -
  note d = recoverableD [OF r] and S = stop_bounds [OF r, folded M]
  let ?im = "rd_contents (w_dev w)" and ?N = "slots w"
  have N: "0 < ?N" using slots_props(3) [OF d(1)] by simp
  note I = c [unfolded census_inv_def]
  have I1: "cn_valid_count c = card {k. k < ?N \<and> is_frame (slot_bytes ?im w k)}"
    and I2: "cn_live_count c = card {k. k < ?N \<and> live_frame ?im w cov k}"
    and I3: "cn_live_count c \<noteq> 0 \<Longrightarrow> \<exists>k < ?N. live_frame ?im w cov k \<and> cn_min_live_off c = slot_off w k
          \<and> cn_min_live_seq c = frame_seq (slot_bytes ?im w k)"
    and I4: "\<And>k. k < ?N \<Longrightarrow> live_frame ?im w cov k \<Longrightarrow> cn_min_live_seq c \<le> frame_seq (slot_bytes ?im w k)"
    and I5: "cn_max_valid_seq c \<noteq> 0 \<Longrightarrow> \<exists>k < ?N. is_frame (slot_bytes ?im w k) \<and> cn_max_valid_off c = slot_off w k
          \<and> cn_max_valid_seq c = frame_seq (slot_bytes ?im w k)"
    and I6: "\<And>k. k < ?N \<Longrightarrow> is_frame (slot_bytes ?im w k) \<Longrightarrow> frame_seq (slot_bytes ?im w k) \<le> cn_max_valid_seq c"
    using I by blast+
  have nonempty: "i < ?N \<Longrightarrow> P i \<Longrightarrow> card {k. k < ?N \<and> P k} \<noteq> 0" for P and i :: nat
    by (auto simp: card_eq_0_iff)
  show tot: "cn_live_count c = (M - cov) + fragments_of ?im w log M"
    using I2 live_total [OF r M] by simp
  have seq: "k < length log \<Longrightarrow> slot_bytes ?im w i = fb log k \<Longrightarrow> frame_seq (slot_bytes ?im w i) = k + 1" for i k
    using fb_frame(2) [OF d(5) _ d(13)] by simp
  have hit: "present ?im w log k \<Longrightarrow> k mod ?N < ?N \<and> is_frame (slot_bytes ?im w (k mod ?N))
      \<and> frame_seq (slot_bytes ?im w (k mod ?N)) = k + 1 \<and> slot_off w (k mod ?N) = slot_off w k" for k
    using N fb_frame [OF d(5) _ d(13), of k]
    by (simp add: present_def slot_bytes_lap [OF d(1)] slot_off_lap [OF d(1)])
  have origin: "is_frame (slot_bytes ?im w i) \<Longrightarrow> k < length log \<Longrightarrow> frame_seq (slot_bytes ?im w i) = k + 1
      \<Longrightarrow> slot_off w i = slot_off w k \<and> slot_bytes ?im w i = fb log k" for i k
    by (rule honest_slot [OF r, of i]) auto
  show first: "cn_min_live_seq c = cov + 1 \<and> cn_min_live_off c = slot_off w cov" if "cov < M"
  proof -
    have p: "present ?im w log cov" using S(5) that by simp
    then have lv: "live_frame ?im w cov (cov mod ?N)" using hit by (simp add: live_frame_def)
    have le: "cn_min_live_seq c \<le> cov + 1" using I4 [OF _ lv] hit [OF p] by simp
    have "cn_live_count c \<noteq> 0" using tot that by simp
    then obtain i where i: "live_frame ?im w cov i" "cn_min_live_off c = slot_off w i"
      "cn_min_live_seq c = frame_seq (slot_bytes ?im w i)" using I3 by blast
    then have "cov + 1 \<le> cn_min_live_seq c" by (simp add: live_frame_def)
    then have e: "frame_seq (slot_bytes ?im w i) = cov + 1" using le i(3) by simp
    have "slot_off w i = slot_off w cov"
      using origin [OF _ _ e] i(1) p by (simp add: live_frame_def present_def)
    then show ?thesis using i e by simp
  qed
  have prev: "0 < cov \<Longrightarrow> present ?im w log (cov - 1)"
    by (rule kept_present [OF r]) (use d(8,9) in auto)
  show nz: "0 < cov \<Longrightarrow> cn_valid_count c \<noteq> 0"
  proof -
    assume "0 < cov"
    then show "cn_valid_count c \<noteq> 0"
      unfolding I1 using hit [OF prev] nonempty [of "(cov - 1) mod ?N" "\<lambda>k. is_frame (slot_bytes ?im w k)"] by blast
  qed
  have dead: "cn_live_count c = 0 \<Longrightarrow> i < ?N \<Longrightarrow> is_frame (slot_bytes ?im w i) \<Longrightarrow> frame_seq (slot_bytes ?im w i) \<le> cov" for i
  proof (rule ccontr)
    assume z: "cn_live_count c = 0" and i: "i < ?N" "is_frame (slot_bytes ?im w i)"
      and "\<not> frame_seq (slot_bytes ?im w i) \<le> cov"
    then have "live_frame ?im w cov i" by (simp add: live_frame_def)
    then show False using I2 z nonempty [OF i(1), of "live_frame ?im w cov"] by simp
  qed
  show "cn_max_valid_seq c = cov \<and> cn_max_valid_off c = slot_off w (cov - 1)"
    if z: "cn_live_count c = 0" "0 < cov"
  proof -
    note a = hit [OF prev [OF z(2)]]
    have ge: "cov \<le> cn_max_valid_seq c" using I6 [of "(cov - 1) mod ?N"] a z(2) by simp
    then obtain i where i: "i < ?N" "is_frame (slot_bytes ?im w i)" "cn_max_valid_off c = slot_off w i"
      "cn_max_valid_seq c = frame_seq (slot_bytes ?im w i)" using I5 z(2) by auto
    then have e: "frame_seq (slot_bytes ?im w i) = (cov - 1) + 1" using dead [OF z(1) i(1,2)] ge z(2) by simp
    have "slot_off w i = slot_off w (cov - 1)"
      using origin [OF i(2) _ e] prev [OF z(2)] by (simp add: present_def)
    then show ?thesis using i e z(2) by simp
  qed
  show "cn_valid_count c = 0" if z: "cn_live_count c = 0" "cov = 0"
  proof -
    have "\<not> is_frame (slot_bytes ?im w i)" if "i < ?N" for i
    proof
      assume f: "is_frame (slot_bytes ?im w i)"
      obtain j where "frame_seq (slot_bytes ?im w i) = j + 1" by (rule honest_slot [OF r f])
      then show False using dead [OF z(1) that f] z(2) by simp
    qed
    then show ?thesis unfolding I1 by simp
  qed
  show "cn_min_live_seq c \<noteq> cov + 1" if np: "\<not> present ?im w log cov" and z: "cn_live_count c \<noteq> 0"
  proof
    assume e: "cn_min_live_seq c = cov + 1"
    obtain i where i: "live_frame ?im w cov i" "cn_min_live_seq c = frame_seq (slot_bytes ?im w i)"
      using I3 z by blast
    have f: "is_frame (slot_bytes ?im w i)" using i(1) by (simp add: live_frame_def)
    obtain j where "j < length log" "slot_off w j = slot_off w i" "slot_bytes ?im w i = fb log j"
      "frame_seq (slot_bytes ?im w i) = j + 1" by (rule honest_slot [OF r f])
    then have "present ?im w log cov" using e i(2) by (auto simp: present_def slot_bytes_def)
    then show False using np by simp
  qed
qed

section \<open>The tail\<close>

lemma set_anchor_slots:
  assumes g: "wal_geo w" and M: "0 < M" "M + 1 < 2 ^ 64"
    and c: "cn_live_count c \<noteq> 0 \<Longrightarrow> cn_min_live_off c = slot_off w cov" "cn_live_count c = 0 \<Longrightarrow> M = cov"
  shows "set_anchor w (slot_off w (M - 1)) M c
    = w\<lparr>w_cur_off := slot_off w (32 * (M div 32)), w_n_frames := M mod 32,
        w_head_off := slot_off w (32 * (cov div 32)), w_seq_next := M + 1\<rparr>"
proof -
  note K = slot_block [OF g, of "M - 1"]
  define q r where "q = (M - 1) div 32" and "r = (M - 1) mod 32"
  have Mqr: "M = 32 * q + r + 1" "r < 32" using M(1) by (simp_all add: q_def r_def)
  have off0: "BlockFloor (slot_off w (M - 1)) = slot_off w (32 * q)" using K(2) by (simp add: q_def)
  have n0: "(slot_off w (M - 1) - slot_off w (32 * q)) div kWalFrameSize + 1 = r + 1"
    using K(1) by (simp add: q_def r_def kWalFrameSize_def)
  have sq: "(M + 1) mod 2 ^ 64 = M + 1" using M(2) by simp
  have off: "(if r + 1 = kWalFramesPerBlock
      then (if slot_off w (32 * q) + kWalBlockSize = w_ring_end w then w_ring_start w
            else slot_off w (32 * q) + kWalBlockSize) else slot_off w (32 * q))
      = slot_off w (32 * (M div 32))"
    and n: "(if r + 1 = kWalFramesPerBlock then 0 else r + 1) = M mod 32"
  proof (atomize (full), cases "r + 1 = 32")
    case True
    then have "M = 32 * (q + 1)" using Mqr(1) by simp
    then have m: "M div 32 = q + 1" "M mod 32 = 0" by simp_all
    have "slot_off w (M - 1) + 128 = slot_off w (32 * q) + 4096"
      using K(1) [folded q_def r_def] True by simp
    then have "(if slot_off w (32 * q) + 4096 = w_ring_end w then w_ring_start w
        else slot_off w (32 * q) + 4096) = slot_off w (Suc (M - 1))"
      using slot_off_Suc [OF g, of "M - 1"] by (simp only:)
    moreover have "Suc (M - 1) = 32 * (q + 1)" using \<open>M = 32 * (q + 1)\<close> by simp
    ultimately show "(if r + 1 = kWalFramesPerBlock
      then (if slot_off w (32 * q) + kWalBlockSize = w_ring_end w then w_ring_start w
            else slot_off w (32 * q) + kWalBlockSize) else slot_off w (32 * q))
      = slot_off w (32 * (M div 32))
      \<and> (if r + 1 = kWalFramesPerBlock then 0 else r + 1) = M mod 32"
      using True m by (simp only: kWalBlockSize_def kWalFramesPerBlock_def kWalFrameSize_def) simp
  next
    case False
    then have "M div 32 = q" "M mod 32 = r + 1" using Mqr by simp_all
    then show "(if r + 1 = kWalFramesPerBlock
      then (if slot_off w (32 * q) + kWalBlockSize = w_ring_end w then w_ring_start w
            else slot_off w (32 * q) + kWalBlockSize) else slot_off w (32 * q))
      = slot_off w (32 * (M div 32))
      \<and> (if r + 1 = kWalFramesPerBlock then 0 else r + 1) = M mod 32"
      using False by (simp add: kWalFramesPerBlock_def kWalBlockSize_def kWalFrameSize_def)
  qed
  have hd: "(if 0 < cn_live_count c then BlockFloor (cn_min_live_off c) else slot_off w (32 * (M div 32)))
      = slot_off w (32 * (cov div 32))"
    using c slot_block(2) [OF g, of cov] by simp
  show ?thesis
    unfolding set_anchor_def Let_def off0 n0 off n hd sq by (rule refl)
qed

lemma fb_take [simp]: "k < M \<Longrightarrow> fb (take M log) k = fb log k"
  by (simp add: fb_def)

lemma frames_take: "b \<le> M \<Longrightarrow> frames (take M log) a b = frames log a b"
  unfolding frames_def by (intro arg_cong [of _ _ concat] map_cong) auto

lemma rebuilt_inv:
  assumes r: "recoverable w log h cov m" and M: "M = stop_at (rd_contents (w_dev w)) w log cov"
    and same: "w_ring_start w' = w_ring_start w" "w_ring_end w' = w_ring_end w" "w_buf_size w' = w_buf_size w"
    and cur: "w_cur_off w' = slot_off w (32 * (M div 32))" and n: "w_n_frames w' = M mod 32"
    and hd: "w_head_off w' = slot_off w (32 * (cov div 32))" and sq: "w_seq_next w' = M + 1"
    and buf: "w_buf w' = Some (frames log (32 * (M div 32)) M @ zeros (w_buf_size w - 128 * (M mod 32)))"
    and win: "w_window_bytes w' = WindowAt w' (w_cur_off w')"
    and disk: "on_disk w (rd_contents (w_dev w')) log (32 * (cov div 32) - 32) M"
      "on_disk w (rd_durable (w_dev w')) log (32 * (cov div 32) - 32) M"
  shows "wal_inv w' (take M log) (32 * (cov div 32)) M"
proof -
  note d = recoverableD [OF r] and S = stop_bounds [OF r, folded M]
  note geo = geo_cong(1,2) [OF same] slot_off_cong [OF same(1,2)]
  let ?h = "32 * (cov div 32)" and ?wr = "32 * (M div 32)"
  have g': "wal_geo w'" using geo(1) d(1) by simp
  have len: "length (take M log) = M" using S(2) by simp
  have ok: "entries_ok (take M log)" using d(5) by (auto simp: entries_ok_def dest: in_set_takeD)
  have wr: "written w' (take M log) = ?wr"
    using len n by (simp add: written_def minus_mod_eq_mult_div)
  have us: "used_bytes w' = 128 * (M mod 32)" using n by (simp add: used_bytes_def kWalFrameSize_def)
  have hw: "?h \<le> ?wr" using S(3) by (simp add: div_le_mono)
  have hh: "h \<le> ?h"
  proof -
    obtain j where j: "h = 32 * j" using d(7) by (rule dvdE)
    have "h div 32 \<le> cov div 32" using d(8) by (rule div_le_mono)
    then show ?thesis using j by simp
  qed
  have MM: "M = ?wr + M mod 32" by simp
  have "128 * (M - ?h) + 4096 \<le> ring_bytes w"
    using d(11) S(2) hh by (meson add_le_mono1 diff_le_mono diff_le_mono2 le_trans mult_le_mono2)
  moreover have "M - ?h = (?wr - ?h) + M mod 32" using MM hw by linarith
  ultimately have room: "128 * (?wr - ?h) + 128 * (M mod 32) + 4096 \<le> ring_bytes w" by simp
  then have le: "128 * (?wr - ?h) + 4096 \<le> ring_bytes w'" using geo(2) by simp
  have hd': "w_head_off w' = slot_off w' ?h" and cur': "w_cur_off w' = slot_off w' ?wr"
    using hd cur geo(3) by simp_all
  have dv: "4096 dvd WindowAt w' (slot_off w' ?wr)"
    by (rule WindowAt_dvd [OF g' hw le _ _ hd']) simp_all
  have fit: "128 * (M mod 32) \<le> WindowAt w' (slot_off w' ?wr)"
  proof -
    have lt: "128 * (?wr - ?h) < ring_bytes w'" using le by linarith
    have "M mod 32 < 32" by simp
    then have b: "128 * (M mod 32) \<le> 4096" by linarith
    have "4096 dvd ring_bytes w' - (128 * ?wr) mod ring_bytes w'"
      using wal_geoD(4) [OF g'] dvd_mod_4096 [OF wal_geoD(4) [OF g'], of ?wr] by (simp add: dvd_diff_nat)
    moreover have "(128 * ?wr) mod ring_bytes w' < ring_bytes w'" using wal_geoD(2) [OF g'] by simp
    ultimately have c2: "4096 \<le> ring_bytes w' - (128 * ?wr) mod ring_bytes w'" by (intro dvd_imp_le) auto
    have c3: "128 * (M mod 32) \<le> ring_bytes w' - 4096 - 128 * (?wr - ?h)" using room geo(2) by simp
    show ?thesis
      unfolding WindowAt_slot [OF g' hw lt hd']
      by (intro min.boundedI order_trans [OF b] wal_geoD(6) [OF g'] c2 c3)
  qed
  have "wal_win w' (take M log) ?h"
    unfolding wal_win_def wr us len win cur'
    using g' ok n sq S(2) d(13) hw hd' le dv fit buf same by (simp add: frames_take)
  moreover have "on_disk w' medium (take M log) (?h - 32) M" if "on_disk w medium log (?h - 32) M" for medium
    using that by (simp add: on_disk_def geo(3))
  moreover have "max ?wr M = M" using MM by linarith
  ultimately show ?thesis using disk S(2) by (simp add: wal_inv_def wr len)
qed

section \<open>Erasing and refilling\<close>

lemma erase_ok:
  assumes h: "healthy d" and z: "ze \<le> size_bytes d" and b: "0 < buf"
  shows "\<exists>d'. erase_loop buf ze off d = Some (kSuccess, d') \<and> healthy d' \<and> size_bytes d' = size_bytes d
    \<and> rd_durable d' = rd_durable d \<and> rd_contents d' = kwrite (rd_contents d) off (zeros (ze - off))"
  using h z
proof (induction "ze - off" arbitrary: off d rule: less_induct)
  case less
  show ?case
  proof (cases "ze \<le> off")
    case True
    then show ?thesis using less.prems by (simp add: erase_loop.simps)
  next
    case False
    define len where "len = min buf (ze - off)"
    have len: "0 < len" "off + len \<le> ze" using False b by (auto simp: len_def)
    have wr: "RawDevice_WriteAt d off (zeros len) = (kSuccess, rd_update d off (zeros len))"
      by (rule healthy_WriteAt) (use less.prems len in auto)
    let ?d = "rd_update d off (zeros len)"
    have "ze - (off + len) < ze - off" using len False by linarith
    from less.hyps [OF this, of ?d] obtain d' where d':
      "erase_loop buf ze (off + len) ?d = Some (kSuccess, d')" "healthy d'" "size_bytes d' = size_bytes d"
      "rd_durable d' = rd_durable d" "rd_contents d' = kwrite (rd_contents ?d) (off + len) (zeros (ze - (off + len)))"
      using less.prems by auto
    have "rd_contents d' = kwrite (rd_contents d) off (zeros len @ zeros (ze - (off + len)))"
      unfolding d'(5) using kwrite_append [of "rd_contents d" off "zeros len" "zeros (ze - (off + len))"] by simp
    also have "zeros len @ zeros (ze - (off + len)) = zeros (ze - off)" using len by (simp add: zeros_append)
    finally show ?thesis
      using d' False len(1)
      by (subst erase_loop.simps) (simp add: Let_def len_def [symmetric] wr)
  qed
qed

text \<open>The frames of the tail block, read in one piece.\<close>

lemma kread_frames:
  assumes g: "wal_geo w" and n: "n \<le> 32" and p: "\<And>k. 32 * q \<le> k \<Longrightarrow> k < 32 * q + n \<Longrightarrow> slot_bytes im w k = fb log k"
  shows "kread im (slot_off w (32 * q)) (128 * n) = frames log (32 * q) (32 * q + n)"
  using n p
proof (induction n)
  case (Suc n)
  have "slot_off w (32 * q + n) = slot_off w (32 * q) + 128 * n"
    using slot_block(1) [OF g, of "32 * q + n"] Suc.prems(1) by simp
  moreover have "slot_bytes im w (32 * q + n) = fb log (32 * q + n)" by (rule Suc.prems(2)) simp_all
  moreover have "kread im (slot_off w (32 * q)) (128 * n) = frames log (32 * q) (32 * q + n)"
    by (rule Suc.IH) (use Suc.prems in auto)
  ultimately show ?case
    using kread_append [of im "slot_off w (32 * q)" "128 * n" 128]
    by (simp add: frames_Suc slot_bytes_def add.commute)
qed simp

lemma tail_block:
  assumes "32 * (M div 32) \<le> k" "k < (M :: nat)"
  shows "k div 32 = M div 32" "k mod 32 = k - 32 * (M div 32)" "k mod 32 < M mod 32"
proof -
  define q j where "q = M div 32" and "j = k - 32 * q"
  have k: "k = 32 * q + j" using assms(1) by (simp add: q_def j_def)
  have "M = 32 * q + M mod 32" by (simp add: q_def)
  then have j: "j < M mod 32" using assms(2) k by linarith
  moreover have "M mod 32 < 32" by simp
  ultimately have "j < 32" by linarith
  then have "k div 32 = q" "k mod 32 = j" using k by simp_all
  then show "k div 32 = M div 32" "k mod 32 = k - 32 * (M div 32)" "k mod 32 < M mod 32"
    using j by (simp_all add: q_def j_def)
qed

text \<open>What the erasure may overwrite must not reach round the ring to the first live block.\<close>

definition erase_room :: "wal \<Rightarrow> nat \<Rightarrow> nat \<Rightarrow> bool" where
  "erase_room w cov M \<longleftrightarrow>
     128 * (32 * (M div 32) - (32 * (cov div 32) - 32)) + w_buf_size w \<le> ring_bytes w"

lemma zone_clear:
  assumes g: "wal_geo w" and room: "erase_room w cov M" and k: "32 * (cov div 32) - 32 \<le> k" "k < 32 * (M div 32)"
    and z: "cur = slot_off w (32 * (M div 32))" "cur \<le> zb" "ze \<le> min (cur + w_buf_size w) (w_ring_end w)"
  shows "slot_off w k + 128 \<le> zb \<or> ze \<le> slot_off w k"
proof -
  define n where "n = min (cur + w_buf_size w) (w_ring_end w) - cur"
  let ?wr = "32 * (M div 32)"
  have e: "w_ring_end w = w_ring_start w + ring_bytes w" by (rule wal_geoD(3) [OF g])
  have lt: "cur < w_ring_end w" using slot_off_bounds [OF g, of ?wr] z(1) by linarith
  have "128 * (?wr - k) \<le> 128 * (?wr - (32 * (cov div 32) - 32))" using k by simp
  moreover have "n \<le> w_buf_size w" by (simp add: n_def)
  ultimately have 1: "128 * (?wr - k) + n \<le> ring_bytes w" using room by (simp add: erase_room_def)
  have 2: "(128 * ?wr) mod ring_bytes w + n \<le> ring_bytes w"
    using e lt z(1) by (simp add: n_def slot_off_def)
  have "slot_off w k + 128 \<le> cur \<or> cur + n \<le> slot_off w k"
    unfolding z(1) by (rule slot_before [OF k(2) 1 2])
  moreover have "cur + n = min (cur + w_buf_size w) (w_ring_end w)" using lt by (simp add: n_def)
  ultimately show ?thesis using z(2,3) by linarith
qed

text \<open>Erasing keeps the records of the log; with nothing to erase the device is left alone.\<close>

lemma erase_step:
  assumes r: "recoverable w log h cov m" and M: "M = stop_at (rd_contents (w_dev w)) w log cov"
    and room: "F = (0 :: nat) \<or> erase_room w cov M"
    and cur: "cur = slot_off w (32 * (M div 32))"
    and ze: "ze = min (cur + w_buf_size w) (w_ring_end w)"
    and zb: "zb = (if 0 < M mod 32 then cur + 4096 else cur)"
  obtains d1 where "(if 0 < F then erase_loop (w_buf_size w) ze zb (w_dev w) else Some (kSuccess, w_dev w))
      = Some (kSuccess, d1)" "healthy d1" "size_bytes d1 = size_bytes (w_dev w)"
    "on_disk w (rd_contents d1) log (32 * (cov div 32) - 32) M"
    "F = 0 \<longrightarrow> d1 = w_dev w"
proof -
  note d = recoverableD [OF r] and S = stop_bounds [OF r, folded M]
  let ?im = "rd_contents (w_dev w)" and ?h = "32 * (cov div 32)" and ?wr = "32 * (M div 32)"
  have hh: "h - 32 \<le> ?h - 32"
  proof -
    obtain j where j: "h = 32 * j" using d(7) by (rule dvdE)
    have "h div 32 \<le> cov div 32" using d(8) by (rule div_le_mono)
    then show ?thesis using j by simp
  qed
  have disk: "on_disk w ?im log (?h - 32) M"
    unfolding on_disk_def
  proof (intro allI impI)
    fix k
    assume k: "?h - 32 \<le> k \<and> k < M"
    show "kread ?im (slot_off w k) 128 = fb log k"
    proof (cases "k < cov")
      case True
      then show ?thesis using kept_present [OF r, of k] k hh d(9) by (simp add: present_def slot_bytes_def)
    next
      case False
      then show ?thesis using S(5) [of k] k by (simp add: present_def slot_bytes_def)
    qed
  qed
  show ?thesis
  proof (cases "F = 0")
    case True
    show ?thesis by (rule that [of "w_dev w"]) (use True d(3) disk in simp_all)
  next
    case False
    have "ze \<le> size_bytes (w_dev w)" using ze d(4) by linarith
    moreover have "0 < w_buf_size w" using wal_geoD(6) [OF d(1)] by linarith
    ultimately obtain d1 where E: "erase_loop (w_buf_size w) ze zb (w_dev w) = Some (kSuccess, d1)"
      "healthy d1" "size_bytes d1 = size_bytes (w_dev w)" "rd_contents d1 = kwrite ?im zb (zeros (ze - zb))"
      using erase_ok [OF d(3), of ze "w_buf_size w" zb] by blast
    have "on_disk w (rd_contents d1) log (?h - 32) M"
      unfolding on_disk_def E(4)
    proof (intro allI impI)
      fix k
      assume k: "?h - 32 \<le> k \<and> k < M"
      have "slot_off w k + 128 \<le> zb \<or> ze \<le> slot_off w k"
      proof (cases "k < ?wr")
        case True
        show ?thesis
          by (rule zone_clear [OF d(1) _ _ True cur]) (use room False k zb ze in auto)
      next
        case out: False
        then have kd: "k div 32 = M div 32" "k mod 32 < M mod 32"
          using tail_block [of M k] k by simp_all
        have "slot_off w k = cur + 128 * (k mod 32)"
          using slot_block(1) [OF d(1), of k] kd(1) cur by simp
        moreover have "k mod 32 < 32" by simp
        ultimately have "slot_off w k + 128 \<le> cur + 4096" by linarith
        then show ?thesis using zb kd(2) by simp
      qed
      then have "kread (kwrite ?im zb (zeros (ze - zb))) (slot_off w k) 128 = kread ?im (slot_off w k) 128"
        by (cases "ze \<le> zb") (auto intro!: kread_kwrite_disjoint)
      then show "kread (kwrite ?im zb (zeros (ze - zb))) (slot_off w k) 128 = fb log k"
        using disk k by (simp add: on_disk_def)
    qed
    then show ?thesis using that [of d1] E(1-3) False by simp
  qed
qed

lemma refill_ok:
  assumes r: "recoverable w log h cov m" and M: "M = stop_at (rd_contents (w_dev w)) w log cov"
    and room: "wk_fragments k = 0 \<or> erase_room w cov M"
    and k: "0 < wk_fragments k \<Longrightarrow> wk_stop_off k = slot_off w M"
    and v: "v = w\<lparr>w_buf := b, w_cur_off := slot_off w (32 * (M div 32)), w_n_frames := M mod 32,
        w_head_off := slot_off w (32 * (cov div 32)), w_seq_next := M + 1\<rparr>"
  obtains d' where "refill v k = Some (kSuccess, v\<lparr>w_dev := d',
      w_buf := Some (frames log (32 * (M div 32)) M @ zeros (w_buf_size w - 128 * (M mod 32)))\<rparr>)"
    "healthy d'" "size_bytes d' = size_bytes (w_dev w)"
    "on_disk w (rd_contents d') log (32 * (cov div 32) - 32) M"
    "on_disk w (rd_durable d') log (32 * (cov div 32) - 32) M"
    "wk_fragments k = 0 \<longrightarrow> d' = w_dev w"
proof -
  note d = recoverableD [OF r] and S = stop_bounds [OF r, folded M]
  let ?h = "32 * (cov div 32)" and ?wr = "32 * (M div 32)" and ?n = "M mod 32" and ?F = "wk_fragments k"
  define cur where "cur = slot_off w ?wr"
  define ze where "ze = min (cur + w_buf_size w) (w_ring_end w)"
  define zb where "zb = (if 0 < ?n then cur + 4096 else cur)"
  define buf where "buf = frames log ?wr M @ zeros (w_buf_size w - 128 * ?n)"
  obtain d1 where E: "(if 0 < ?F then erase_loop (w_buf_size w) ze zb (w_dev w) else Some (kSuccess, w_dev w))
      = Some (kSuccess, d1)" "healthy d1" "size_bytes d1 = size_bytes (w_dev w)"
    "on_disk w (rd_contents d1) log (?h - 32) M" "?F = 0 \<longrightarrow> d1 = w_dev w"
    by (rule erase_step [OF r M room cur_def ze_def zb_def])
  have hM: "?h \<le> ?wr" "?h \<le> M" using S(3) by (auto simp: div_le_mono intro: order_trans [OF _ S(3)])
  have MM: "M = ?wr + ?n" by simp
  have n32: "?n < 32" by simp
  have lenf: "length (frames log ?wr M) = 128 * ?n" using d(5) S(2) MM by (simp add: minus_mod_eq_mult_div [symmetric])
  have bs: "4096 \<le> w_buf_size w" by (rule wal_geoD(6) [OF d(1)])
  have lenb: "length buf = w_buf_size w" using lenf bs n32 by (simp add: buf_def)
  have take_b: "take 4096 buf = frames log ?wr M @ zeros (4096 - 128 * ?n)"
    using lenf bs n32 by (simp add: buf_def min_absorb1)
  have blk: "cur + 4096 \<le> w_ring_end w"
  proof -
    have "slot_off w (?wr + 31) = cur + 128 * 31"
      using slot_block(1) [OF d(1), of "?wr + 31"] by (simp add: cur_def)
    then show ?thesis using slot_off_bounds(2) [OF d(1), of "?wr + 31"] by simp
  qed
  have sb: "slot_bytes (rd_contents d1) w j = fb log j" if "?wr \<le> j" "j < M" for j
    using E(4) that hM(1) by (simp add: on_disk_def slot_bytes_def)
  have used: "take (?n * kWalFrameSize) (kread (rd_contents d1) cur 4096) = frames log ?wr M"
  proof -
    have "kread (rd_contents d1) cur (128 * ?n) = frames log ?wr (?wr + ?n)"
      unfolding cur_def by (rule kread_frames [OF d(1)]) (use n32 sb in auto)
    moreover have "take (?n * 128) (kread (rd_contents d1) cur 4096) = kread (rd_contents d1) cur (128 * ?n)"
      using peek_kread [of 0 "128 * ?n" 4096 "rd_contents d1" cur] n32 by (simp add: peek_def mult.commute)
    ultimately show ?thesis using MM by (simp add: kWalFrameSize_def)
  qed
  have buf_eq: "take (?n * kWalFrameSize) (kread (rd_contents d1) cur 4096)
      @ zeros (w_buf_size w - ?n * kWalFrameSize) = buf"
    unfolding used by (simp add: buf_def kWalFrameSize_def mult.commute)
  have rd: "RawDevice_ReadAt d1 cur 4096 = (kSuccess, kread (rd_contents d1) cur 4096, d1)"
    by (rule healthy_ReadAt [OF E(2)]) (use blk d(4) E(3) in linarith)
  let ?d2 = "rd_update d1 cur (take 4096 buf)"
  have wrt: "RawDevice_WriteAt d1 cur (take 4096 buf) = (kSuccess, ?d2)"
    by (rule healthy_WriteAt [OF E(2)]) (use blk d(4) E(3) lenb bs in simp)
  have disk2: "on_disk w (rd_contents ?d2) log (?h - 32) M" if room': "erase_room w cov M"
    unfolding on_disk_def
  proof (intro allI impI)
    fix j
    assume j: "?h - 32 \<le> j \<and> j < M"
    show "kread (rd_contents ?d2) (slot_off w j) 128 = fb log j"
    proof (cases "j < ?wr")
      case True
      have "slot_off w j + 128 \<le> cur \<or> cur + 4096 \<le> slot_off w j"
        by (rule zone_clear [OF d(1) room' _ True cur_def]) (use j blk bs in auto)
      then show ?thesis
        using E(4) j lenb bs by (simp add: on_disk_def kread_kwrite_disjoint)
    next
      case False
      then have jd: "?wr \<le> j" "j < M" using j by simp_all
      then have off: "slot_off w j = cur + 128 * (j - ?wr)"
        using slot_block(1) [OF d(1), of j] tail_block [OF jd] by (simp add: cur_def)
      have "peek (128 * (j - ?wr)) 128 (take 4096 buf) = fb log j"
        unfolding take_b by (rule peek_frames [OF d(5) jd S(2)])
      then show ?thesis
        using off jd MM n32 lenb bs by (simp add: kread_kwrite_inside)
    qed
  qed
  have fields: "w_n_frames v = ?n" "w_cur_off v = cur" "w_buf_size v = w_buf_size w" "w_dev v = w_dev w"
    "w_ring_end v = w_ring_end w" by (simp_all add: v cur_def)
  have zone: "(if 0 < ?F then erase_loop (w_buf_size v) (min (BlockFloor (wk_stop_off k) + w_buf_size v) (w_ring_end v))
        (if 0 < w_n_frames v then w_cur_off v + kWalBlockSize else w_cur_off v) (w_dev v)
      else Some (kSuccess, w_dev v)) = Some (kSuccess, d1)"
  proof (cases "0 < ?F")
    case True
    then have "BlockFloor (wk_stop_off k) = cur" using k slot_block(2) [OF d(1), of M] by (simp add: cur_def)
    then show ?thesis using E(1) True unfolding fields ze_def zb_def kWalBlockSize_def by simp
  qed (use E(1) in \<open>simp add: fields\<close>)
  have fr0: "?n = 0 \<Longrightarrow> frames log ?wr M = []" using MM by simp
  then have buf0: "?n = 0 \<Longrightarrow> zeros (w_buf_size w) = buf" by (simp add: buf_def)
  have dur0: "?F = 0 \<Longrightarrow> on_disk w (rd_durable d1) log (?h - 32) M" using E(4,5) d(15) by simp
  note R = refill_def [of v k, unfolded Let_def zone option.case prod.case]
  consider "?F = 0" "?n = 0" | "?F = 0" "?n \<noteq> 0" | "?F \<noteq> 0" "?n = 0" | "?F \<noteq> 0" "?n \<noteq> 0" by blast
  then show ?thesis
  proof cases
    case 1
    show ?thesis
      by (rule that [of d1])
        (use 1 buf0 fr0 dur0 E(2-5) in \<open>simp_all add: R fields buf_def [symmetric]\<close>)
  next
    case 2
    show ?thesis
      by (rule that [of d1])
        (use 2 used rd dur0 E(2-5) in \<open>simp_all add: R fields kWalBlockSize_def buf_def kWalFrameSize_def mult.commute\<close>)
  next
    case 3
    show ?thesis
      by (rule that [of "rd_synced d1"])
        (use 3 buf0 fr0 E(2-4) healthy_Sync [OF E(2)] in \<open>simp_all add: R fields buf_def [symmetric]\<close>)
  next
    case 4
    have sy: "RawDevice_Sync ?d2 = (kSuccess, rd_synced ?d2)" by (rule healthy_Sync) (use E(2) in simp)
    have "refill v k = Some (kSuccess, v\<lparr>w_dev := rd_synced ?d2, w_buf := Some buf\<rparr>)"
      using 4 by (simp add: R fields kWalBlockSize_def rd buf_eq wrt sy del: take_append)
    then show ?thesis
      using that [of "rd_synced ?d2"] E(2,3) disk2 room 4 by (simp add: buf_def)
  qed
qed

text \<open>With fragments the zone ends up zeroed, whatever lay in it.\<close>

lemma refill_zone:
  assumes r: "recoverable w log h cov m" and M: "M = stop_at (rd_contents (w_dev w)) w log cov"
    and k: "0 < wk_fragments k" "wk_stop_off k = slot_off w M"
    and v: "v = w\<lparr>w_buf := b, w_cur_off := slot_off w (32 * (M div 32)), w_n_frames := M mod 32,
        w_head_off := slot_off w (32 * (cov div 32)), w_seq_next := M + 1\<rparr>"
  obtains d' buf where "refill v k = Some (kSuccess, v\<lparr>w_dev := d', w_buf := Some buf\<rparr>)"
    "\<forall>i. slot_off w (32 * (M div 32)) + (if 0 < M mod 32 then 4096 else 0) \<le> i
       \<and> i < min (slot_off w (32 * (M div 32)) + w_buf_size w) (w_ring_end w) \<longrightarrow> rd_durable d' i = 0"
proof -
  note d = recoverableD [OF r]
  let ?n = "M mod 32" and ?wr = "32 * (M div 32)"
  define cur where "cur = slot_off w ?wr"
  define ze where "ze = min (cur + w_buf_size w) (w_ring_end w)"
  define zb where "zb = (if 0 < ?n then cur + 4096 else cur)"
  have "ze \<le> size_bytes (w_dev w)" using d(4) by (simp add: ze_def)
  moreover have "0 < w_buf_size w" using wal_geoD(6) [OF d(1)] by linarith
  ultimately obtain d1 where E: "erase_loop (w_buf_size w) ze zb (w_dev w) = Some (kSuccess, d1)"
    "healthy d1" "size_bytes d1 = size_bytes (w_dev w)"
    "rd_contents d1 = kwrite (rd_contents (w_dev w)) zb (zeros (ze - zb))"
    using erase_ok [OF d(3), of ze "w_buf_size w" zb] by blast
  have fields: "w_n_frames v = ?n" "w_cur_off v = cur" "w_buf_size v = w_buf_size w" "w_dev v = w_dev w"
    "w_ring_end v = w_ring_end w" by (simp_all add: v cur_def)
  have bf: "BlockFloor (wk_stop_off k) = cur" using k(2) slot_block(2) [OF d(1), of M] by (simp add: cur_def)
  have zone: "(if 0 < wk_fragments k then erase_loop (w_buf_size v) (min (BlockFloor (wk_stop_off k) + w_buf_size v) (w_ring_end v))
        (if 0 < w_n_frames v then w_cur_off v + kWalBlockSize else w_cur_off v) (w_dev v)
      else Some (kSuccess, w_dev v)) = Some (kSuccess, d1)"
    using E(1) k(1) unfolding bf fields ze_def zb_def kWalBlockSize_def by simp
  note R = refill_def [of v k, unfolded Let_def zone option.case prod.case]
  have z0: "rd_contents d1 i = 0" if "zb \<le> i" "i < ze" for i
    unfolding E(4) kwrite_def using that by simp
  have sp: "(if 0 < ?n then cur + 4096 else cur) = cur + (if 0 < ?n then 4096 else 0)" by simp
  show ?thesis
  proof (cases "?n = 0")
    case True
    show ?thesis
    proof (rule that [of "zeros (w_buf_size w)" "rd_synced d1"])
      show "refill v k = Some (kSuccess, v\<lparr>w_dev := rd_synced d1, w_buf := Some (zeros (w_buf_size w))\<rparr>)"
        using True k(1) healthy_Sync [OF E(2)] by (simp add: R fields)
      show "\<forall>i. slot_off w ?wr + (if 0 < ?n then 4096 else 0) \<le> i
         \<and> i < min (slot_off w ?wr + w_buf_size w) (w_ring_end w) \<longrightarrow> rd_durable (rd_synced d1) i = 0"
        using z0 unfolding zb_def ze_def cur_def sp by simp
    qed
  next
    case False
    have blk: "cur + 4096 \<le> size_bytes d1"
    proof -
      have "slot_off w (?wr + 31) = cur + 128 * 31"
        using slot_block(1) [OF d(1), of "?wr + 31"] by (simp add: cur_def)
      then show ?thesis using slot_off_bounds(2) [OF d(1), of "?wr + 31"] d(4) E(3) by simp
    qed
    define buf where "buf = take (?n * kWalFrameSize) (kread (rd_contents d1) cur 4096)
      @ zeros (w_buf_size w - ?n * kWalFrameSize)"
    have rd: "RawDevice_ReadAt d1 cur 4096 = (kSuccess, kread (rd_contents d1) cur 4096, d1)"
      by (rule healthy_ReadAt [OF E(2) blk])
    have tl: "length (take 4096 buf) \<le> 4096" by simp
    let ?d2 = "rd_update d1 cur (take 4096 buf)"
    have wrt: "RawDevice_WriteAt d1 cur (take 4096 buf) = (kSuccess, ?d2)"
      by (rule healthy_WriteAt [OF E(2)]) (use blk tl in linarith)
    have sy: "RawDevice_Sync ?d2 = (kSuccess, rd_synced ?d2)" by (rule healthy_Sync) (use E(2) in simp)
    show ?thesis
    proof (rule that [of buf "rd_synced ?d2"])
      show "refill v k = Some (kSuccess, v\<lparr>w_dev := rd_synced ?d2, w_buf := Some buf\<rparr>)"
        using False k(1) by (simp add: R fields kWalBlockSize_def rd buf_def [symmetric] wrt sy del: take_append)
      show "\<forall>i. slot_off w ?wr + (if 0 < ?n then 4096 else 0) \<le> i
         \<and> i < min (slot_off w ?wr + w_buf_size w) (w_ring_end w) \<longrightarrow> rd_durable (rd_synced ?d2) i = 0"
      proof (intro allI impI)
        fix i
        assume i: "slot_off w ?wr + (if 0 < ?n then 4096 else 0) \<le> i
          \<and> i < min (slot_off w ?wr + w_buf_size w) (w_ring_end w)"
        then have "zb \<le> i" "i < ze" "cur + length (take 4096 buf) \<le> i"
          using False tl unfolding zb_def ze_def cur_def by auto
        then show "rd_durable (rd_synced ?d2) i = 0" using z0 [of i] by (simp add: kwrite_outside)
      qed
    qed
  qed
qed

end
