(* ===== verification/Cabe_WalRecoverTheorems.thy ===== *)
theory Cabe_WalRecoverTheorems
  imports Cabe_WalRebuild
begin

text \<open>
  WAL recovery as a whole: after a power failure the log is opened again, the records the
  snapshot does not cover are handed to the callback in order, and the log goes on where it
  stopped.
\<close>

section \<open>Finishing\<close>

lemma ring_distance:
  assumes g: "wal_geo w" and k: "a \<le> b" "128 * (b - a) < ring_bytes w"
  shows "(slot_off w b + ring_bytes w - slot_off w a) mod ring_bytes w = 128 * (b - a)"
proof -
  have "(slot_off w b + ring_bytes w - slot_off w a) mod ring_bytes w
      = ((128 * b) mod ring_bytes w + ring_bytes w - (128 * a) mod ring_bytes w) mod ring_bytes w"
    by (simp add: slot_off_def)
  also have "\<dots> = 128 * (b - a)"
    using mod_distance [of "128 * a" "128 * b" "ring_bytes w"] k by (simp add: diff_mult_distrib2)
  finally show ?thesis .
qed

lemma tail_blocks:
  assumes "0 < M"
  shows "(M - 1) div 32 + 1 - (if 0 < M mod 32 then 1 else 0) = M div (32 :: nat)"
proof -
  define q r where "q = (M - 1) div 32" and "r = (M - 1) mod 32"
  have M: "M = 32 * q + r + 1" "r < 32" using assms by (simp_all add: q_def r_def)
  show ?thesis
  proof (cases "r = 31")
    case True
    then have "M = 32 * (q + 1)" using M by simp
    then have "M div 32 = q + 1" "M mod 32 = 0" by simp_all
    then show ?thesis by (simp add: q_def)
  next
    case False
    then have "M div 32 = q" "M mod 32 = r + 1" using M by simp_all
    then show ?thesis by (simp add: q_def)
  qed
qed

lemma live_span:
  assumes r: "recoverable w log h cov m" and M: "M = stop_at (rd_contents (w_dev w)) w log cov"
  shows "32 * (cov div 32) \<le> 32 * (M div 32)"
    "128 * (32 * (M div 32) - 32 * (cov div 32)) + 4096 \<le> ring_bytes w"
proof -
  note d = recoverableD [OF r] and S = stop_bounds [OF r, folded M]
  show "32 * (cov div 32) \<le> 32 * (M div 32)" using S(3) by (simp add: div_le_mono)
  obtain j where j: "h = 32 * j" using d(7) by (rule dvdE)
  have "h div 32 \<le> cov div 32" using d(8) by (rule div_le_mono)
  then have "h \<le> 32 * (cov div 32)" using j by simp
  moreover have "32 * (M div 32) \<le> M" by simp
  ultimately have "32 * (M div 32) - 32 * (cov div 32) \<le> length log - h" using S(2) by linarith
  then show "128 * (32 * (M div 32) - 32 * (cov div 32)) + 4096 \<le> ring_bytes w" using d(11) by linarith
qed

lemma recover_check_ok:
  assumes r: "recoverable w log h cov m" and M: "M = stop_at (rd_contents (w_dev w)) w log cov" "0 < M"
    and same: "w_ring_start w' = w_ring_start w" "w_ring_end w' = w_ring_end w" "w_buf_size w' = w_buf_size w"
    and cur: "w_cur_off w' = slot_off w (32 * (M div 32))" and n: "w_n_frames w' = M mod 32"
    and hd: "w_head_off w' = slot_off w (32 * (cov div 32))" and sq: "w_seq_next w' = M + 1"
    and win: "w_window_bytes w' = WindowAt w' (w_cur_off w')"
    and live: "cn_live_count c = 0 \<Longrightarrow> M = cov"
    and blocks: "cn_live_count c \<noteq> 0 \<Longrightarrow> wk_blocks_crossed k = (M - 1) div 32 - cov div 32 + 1 \<and> cov < M"
    and total: "wk_replayed k + wk_fragments k = cn_live_count c"
  shows "recover_check w' cov c k"
proof -
  note d = recoverableD [OF r] and S = stop_bounds [OF r, folded M(1)]
  note L = live_span [OF r M(1)]
  let ?h = "32 * (cov div 32)" and ?wr = "32 * (M div 32)"
  have rb: "ring_bytes w' = ring_bytes w" using same by (simp add: ring_bytes_def)
  have geo: "(w_cur_off w' + ring_bytes w' - w_head_off w') mod ring_bytes w' = 128 * (?wr - ?h)"
    unfolding cur hd rb by (rule ring_distance [OF d(1) L(1)]) (use L(2) in linarith)
  have expect: "(if 0 < cn_live_count c
      then (wk_blocks_crossed k - (if 0 < w_n_frames w' then 1 else 0)) * kWalBlockSize else 0) = 128 * (?wr - ?h)"
  proof (cases "cn_live_count c = 0")
    case True
    then show ?thesis using live by simp
  next
    case False
    then have b: "wk_blocks_crossed k = (M - 1) div 32 - cov div 32 + 1" "cov < M" using blocks by simp_all
    have "cov div 32 \<le> (M - 1) div 32" using b(2) by (intro div_le_mono) simp
    then have "wk_blocks_crossed k = (M - 1) div 32 + 1 - cov div 32" using b(1) by (simp add: Suc_diff_le)
    then have "wk_blocks_crossed k - (if 0 < M mod 32 then 1 else 0) = M div 32 - cov div 32"
      using tail_blocks [OF M(2)] by (simp split: if_splits)
    then show ?thesis using False n by (simp add: kWalBlockSize_def diff_mult_distrib2 mult.commute)
  qed
  have al: "slot_off w (32 * i) mod 4096 = 0" for i using slot_block(4) [OF d(1), of i] by simp
  have bd: "w_ring_start w \<le> slot_off w i \<and> slot_off w i < w_ring_end w" for i
    using slot_off_bounds [OF d(1), of i] by simp
  have "(cov + 1) mod 2 ^ 64 \<le> w_seq_next w'"
    unfolding sq using S(3) mod_less_eq_dividend [of "cov + 1" "2 ^ 64"] by linarith
  moreover have "M mod 32 < 32" by simp
  ultimately show ?thesis
    unfolding recover_check_def Let_def geo expect
    using bd al total win n same cur hd
    by (simp add: kWalBlockSize_def kWalFramesPerBlock_def kWalFrameSize_def)
qed

text \<open>The state with the anchor set, and what \<open>recover_finish\<close> makes of a refill that succeeded.\<close>

definition anchored :: "wal \<Rightarrow> nat \<Rightarrow> nat \<Rightarrow> bytes option \<Rightarrow> wal" where
  "anchored w cov M b = w\<lparr>w_buf := b, w_cur_off := slot_off w (32 * (M div 32)), w_n_frames := M mod 32,
     w_head_off := slot_off w (32 * (cov div 32)), w_seq_next := M + 1\<rparr>"

lemma recover_finish_core:
  assumes r: "recoverable w log h cov m" and M: "M = stop_at (rd_contents (w_dev w)) w log cov" "0 < M"
    and head: "cn_live_count c \<noteq> 0 \<Longrightarrow> cn_min_live_off c = slot_off w cov"
    and live: "cn_live_count c = 0 \<Longrightarrow> M = cov"
    and anchor: "(case wk_anchor k of Some a \<Rightarrow> a | None \<Rightarrow> (cn_max_valid_off c, cn_max_valid_seq c))
        = (slot_off w (M - 1), M)"
    and blocks: "cn_live_count c \<noteq> 0 \<Longrightarrow> wk_blocks_crossed k = (M - 1) div 32 - cov div 32 + 1 \<and> cov < M"
    and total: "wk_replayed k + wk_fragments k = cn_live_count c"
    and refill: "refill (anchored w cov M b) k
        = Some (kSuccess, (anchored w cov M b)\<lparr>w_dev := d', w_buf := Some buf\<rparr>)"
  obtains w' where "recover_finish (w\<lparr>w_buf := b\<rparr>) cov c k = Some (kSuccess, wk_state k, w')"
    "w_ring_start w' = w_ring_start w" "w_ring_end w' = w_ring_end w" "w_buf_size w' = w_buf_size w"
    "w_cur_off w' = slot_off w (32 * (M div 32))" "w_n_frames w' = M mod 32"
    "w_head_off w' = slot_off w (32 * (cov div 32))" "w_seq_next w' = M + 1"
    "w_buf w' = Some buf" "w_dev w' = d'" "w_level w' = w_level w"
    "w_window_bytes w' = WindowAt w' (w_cur_off w')"
proof -
  note d = recoverableD [OF r] and S = stop_bounds [OF r, folded M(1)]
  let ?v = "w\<lparr>w_buf := b\<rparr>"
  have gv: "wal_geo ?v" using geo_cong(1) [of ?v w] d(1) by simp
  have sv: "slot_off ?v = slot_off w" using slot_off_cong [of ?v w] by simp
  have M64: "M + 1 < 2 ^ 64" using S(2) d(6) by simp
  have A: "set_anchor ?v (slot_off w (M - 1)) M c = anchored w cov M b"
    using set_anchor_slots [OF gv M(2) M64, of c cov] head live unfolding sv anchored_def by auto
  define v2 where "v2 = (anchored w cov M b)\<lparr>w_dev := d', w_buf := Some buf\<rparr>"
  define w' where "w' = v2\<lparr>w_window_bytes := WindowAt v2 (w_cur_off v2)\<rparr>"
  have f: "w_ring_start w' = w_ring_start w" "w_ring_end w' = w_ring_end w" "w_buf_size w' = w_buf_size w"
    "w_cur_off w' = slot_off w (32 * (M div 32))" "w_n_frames w' = M mod 32"
    "w_head_off w' = slot_off w (32 * (cov div 32))" "w_seq_next w' = M + 1"
    "w_buf w' = Some buf" "w_dev w' = d'" "w_level w' = w_level w"
    by (simp_all add: w'_def v2_def anchored_def)
  have win: "w_window_bytes w' = WindowAt w' (w_cur_off w')"
    using geo_cong(3) [of w' v2 "w_cur_off v2"] by (simp add: w'_def)
  have chk: "recover_check w' cov c k"
    by (rule recover_check_ok [OF r M f(1-7) win live blocks total])
  have fin: "recover_finish ?v cov c k = Some (kSuccess, wk_state k, w')"
    unfolding recover_finish_def Let_def anchor prod.case A refill [folded v2_def] option.case
    using chk by (simp add: w'_def)
  show ?thesis by (rule that [OF fin f win])
qed

lemma recover_finish_ok:
  assumes r: "recoverable w log h cov m" and M: "M = stop_at (rd_contents (w_dev w)) w log cov" "0 < M"
    and head: "cn_live_count c \<noteq> 0 \<Longrightarrow> cn_min_live_off c = slot_off w cov"
    and live: "cn_live_count c = 0 \<Longrightarrow> M = cov"
    and anchor: "(case wk_anchor k of Some a \<Rightarrow> a | None \<Rightarrow> (cn_max_valid_off c, cn_max_valid_seq c))
        = (slot_off w (M - 1), M)"
    and room: "wk_fragments k = 0 \<or> erase_room w cov M"
    and stop: "0 < wk_fragments k \<Longrightarrow> wk_stop_off k = slot_off w M"
    and blocks: "cn_live_count c \<noteq> 0 \<Longrightarrow> wk_blocks_crossed k = (M - 1) div 32 - cov div 32 + 1 \<and> cov < M"
    and total: "wk_replayed k + wk_fragments k = cn_live_count c"
  obtains w' where "recover_finish (w\<lparr>w_buf := b\<rparr>) cov c k = Some (kSuccess, wk_state k, w')"
    "wal_inv w' (take M log) (32 * (cov div 32)) M" "w_level w' = w_level w" "dev_ok w'"
    "w_n_frames w' = M mod 32" "slot_off w' = slot_off w" "slots w' = slots w"
    "wk_fragments k = 0 \<longrightarrow> w_dev w' = w_dev w"
proof -
  note d = recoverableD [OF r]
  obtain d' where R: "refill (anchored w cov M b) k = Some (kSuccess, (anchored w cov M b)\<lparr>w_dev := d',
      w_buf := Some (frames log (32 * (M div 32)) M @ zeros (w_buf_size w - 128 * (M mod 32)))\<rparr>)"
    "healthy d'" "size_bytes d' = size_bytes (w_dev w)"
    "on_disk w (rd_contents d') log (32 * (cov div 32) - 32) M"
    "on_disk w (rd_durable d') log (32 * (cov div 32) - 32) M"
    "wk_fragments k = 0 \<longrightarrow> d' = w_dev w"
    by (rule refill_ok [OF r M(1) room stop anchored_def])
  obtain w' where F: "recover_finish (w\<lparr>w_buf := b\<rparr>) cov c k = Some (kSuccess, wk_state k, w')"
    "w_ring_start w' = w_ring_start w" "w_ring_end w' = w_ring_end w" "w_buf_size w' = w_buf_size w"
    "w_cur_off w' = slot_off w (32 * (M div 32))" "w_n_frames w' = M mod 32"
    "w_head_off w' = slot_off w (32 * (cov div 32))" "w_seq_next w' = M + 1"
    "w_buf w' = Some (frames log (32 * (M div 32)) M @ zeros (w_buf_size w - 128 * (M mod 32)))"
    "w_dev w' = d'" "w_level w' = w_level w" "w_window_bytes w' = WindowAt w' (w_cur_off w')"
    by (rule recover_finish_core [OF r M head live anchor blocks total R(1)])
  have inv: "wal_inv w' (take M log) (32 * (cov div 32)) M"
    by (rule rebuilt_inv [OF r M(1) F(2-9,12)]) (use R F in simp_all)
  have same: "slot_off w' = slot_off w" "slots w' = slots w"
    using slot_off_cong [OF F(2,3)] F(2,3) by (simp_all add: slots_def ring_bytes_def)
  show ?thesis
    by (rule that [OF F(1) inv F(11) _ F(6) same]) (use F R d(4) in \<open>simp_all add: dev_ok_def\<close>)
qed

section \<open>Recovery\<close>

lemma census_inv_cong: "slot_off v = slot_off w \<Longrightarrow> census_inv im v = census_inv im w"
  by (intro ext) (simp add: census_inv_def live_frame_def slot_bytes_def)

lemma Wal_Recover_scan:
  assumes r: "recoverable w log h cov m"
  obtains c where "census_inv (rd_contents (w_dev w)) w cov (slots w) c"
    "Wal_Recover w cov fn st =
      (let v = w\<lparr>w_buf := Some (zeros (w_buf_size w))\<rparr> in
       if 0 < cn_live_count c \<and> cn_min_live_seq c \<noteq> cov + 1 then Some (kWalRecoveryCorrupted, st, v) else
       case (if 0 < cn_live_count c
            then walk_loop (slots w) v cov fn (walk_init cov (cn_min_live_off c) (w_dev w) st)
            else (kSuccess, walk_init cov (cn_min_live_off c) (w_dev w) st)) of (c2, k) \<Rightarrow>
       let v2 = v\<lparr>w_dev := wk_dev k\<rparr> in
       if c2 \<noteq> kSuccess then Some (c2, wk_state k, v2)
       else if wk_anchor k = None \<and> cn_valid_count c = 0 then Some (kSuccess, wk_state k, recover_empty v2)
       else recover_finish v2 cov c k)"
proof -
  note d = recoverableD [OF r]
  let ?v = "w\<lparr>w_buf := Some (zeros (w_buf_size w))\<rparr>"
  have gv: "wal_geo ?v" using geo_cong(1) [of ?v w] d(1) by simp
  obtain c where C: "CensusScan ?v cov = Some (kSuccess, c, ?v)"
    "census_inv (rd_contents (w_dev ?v)) ?v cov (slots ?v) c"
    by (rule CensusScan_inv [OF gv, of cov]) (use d in auto)
  have eqs: "slots ?v = slots w" "slot_off ?v = slot_off w" "ring_bytes ?v = ring_bytes w"
    using geo_cong(2) [of ?v w] slot_off_cong [of ?v w] by (simp_all add: slots_def)
  then have cc: "census_inv (rd_contents (w_dev w)) w cov (slots w) c"
    using C(2) census_inv_cong [OF eqs(2)] by simp
  note CS = census_summary [OF r refl cc]
  have m64: "(cov + 1) mod 2 ^ 64 = cov + 1" using d(9,10,6) by simp
  have opn: "RawDevice_is_open (w_dev w)" using d(3) by (simp add: healthy_def RawDevice_is_open_def)
  have up: "w\<lparr>w_dev := w_dev w, w_buf := Some (zeros (w_buf_size w))\<rparr> = ?v" by simp
  have ok: "(if \<not> RawDevice_is_open (w_dev w) then x else y) = y" "(if w_buf w \<noteq> None then x else y) = y"
    "(if \<not> True then x else y) = y" "(if kSuccess \<noteq> kSuccess then x else y) = y" for x y :: 'z
    using opn d(2) by simp_all
  have nv: "\<not> (cn_valid_count c = 0 \<and> 0 < cov)" using CS(3) by blast
  show ?thesis
  proof (rule that [OF cc])
    show "Wal_Recover w cov fn st =
      (let v = w\<lparr>w_buf := Some (zeros (w_buf_size w))\<rparr> in
       if 0 < cn_live_count c \<and> cn_min_live_seq c \<noteq> cov + 1 then Some (kWalRecoveryCorrupted, st, v) else
       case (if 0 < cn_live_count c
            then walk_loop (slots w) v cov fn (walk_init cov (cn_min_live_off c) (w_dev w) st)
            else (kSuccess, walk_init cov (cn_min_live_off c) (w_dev w) st)) of (c2, k) \<Rightarrow>
       let v2 = v\<lparr>w_dev := wk_dev k\<rparr> in
       if c2 \<noteq> kSuccess then Some (c2, wk_state k, v2)
       else if wk_anchor k = None \<and> cn_valid_count c = 0 then Some (kSuccess, wk_state k, recover_empty v2)
       else recover_finish v2 cov c k)"
      unfolding Wal_Recover_def Let_def healthy_AllocAligned [OF d(3)] prod.case up C(1) option.case
        m64 ok if_not_P [OF nv] eqs
      by (simp add: slots_def kWalFrameSize_def cong: if_cong)
  qed
qed

lemma walk_loop_buf:
  fixes k :: "'s wal_walk"
  shows "walk_loop n (w\<lparr>w_buf := b\<rparr>) cov fn k = walk_loop n w cov fn k"
proof -
  have f: "walk_fetch (w\<lparr>w_buf := b\<rparr>) k = walk_fetch w k" for k :: "'s wal_walk" by (simp add: walk_fetch_def)
  have s: "walk_sweep (w\<lparr>w_buf := b\<rparr>) cov f k = walk_sweep w cov f k" for f and k :: "'s wal_walk"
    by (simp add: walk_sweep_def Let_def)
  have e: "w_ring_end (w\<lparr>w_buf := b\<rparr>) = w_ring_end w" "w_ring_start (w\<lparr>w_buf := b\<rparr>) = w_ring_start w" by simp_all
  have "walk_slot (w\<lparr>w_buf := b\<rparr>) cov fn k = walk_slot w cov fn k" for k :: "'s wal_walk"
    unfolding walk_slot_def f s e by (rule refl)
  then show ?thesis
    by (induction n arbitrary: k) (auto split: prod.splits)
qed

lemma recover_empty_inv:
  assumes "wal_geo w"
  shows "wal_inv (recover_empty w) [] 0 0" "w_level (recover_empty w) = w_level w"
    "w_dev (recover_empty w) = w_dev w" "w_ring_end (recover_empty w) = w_ring_end w"
proof -
  let ?w = "recover_empty w"
  let ?w1 = "w\<lparr>w_buf := Some (zeros (w_buf_size w)), w_cur_off := w_ring_start w,
                 w_head_off := w_ring_start w, w_n_frames := 0, w_seq_next := 1\<rparr>"
  have e: "?w = ?w1\<lparr>w_window_bytes := WindowAt ?w1 (w_cur_off ?w1)\<rparr>" by (simp add: recover_empty_def Let_def)
  have g: "wal_geo ?w" using geo_cong(1) [of ?w w] assms by (simp add: e)
  show "wal_inv ?w [] 0 0"
    by (rule wal_inv_fresh [OF g]) (use geo_cong(3) [of ?w ?w1] in \<open>simp_all add: e\<close>)
  show "w_level ?w = w_level w" "w_dev ?w = w_dev w" "w_ring_end ?w = w_ring_end w" by (simp_all add: e)
qed

text \<open>With live frames and no gap at the start, recovery is the walk and then the finish.\<close>

lemma Wal_Recover_run:
  fixes st :: 's
  assumes r: "recoverable w log h cov m" and M: "M = stop_at (rd_contents (w_dev w)) w log cov" "cov < M"
    and rp: "replay_log fn cov (drop cov (take M log)) st = (rc, st')"
  obtains c ch where "cn_live_count c = (M - cov) + fragments_of (rd_contents (w_dev w)) w log M"
    "cn_min_live_off c = slot_off w cov"
    "Wal_Recover w cov fn st =
      (let v = w\<lparr>w_buf := Some (zeros (w_buf_size w))\<rparr> in
       if rc \<noteq> kSuccess then Some (rc, st', v)
       else recover_finish v cov c
              (sweep_state w cov M (cov + slots w) (fragments_of (rd_contents (w_dev w)) w log M) ch st'))"
proof -
  note d = recoverableD [OF r]
  let ?im = "rd_contents (w_dev w)" and ?v = "w\<lparr>w_buf := Some (zeros (w_buf_size w))\<rparr>"
  let ?F = "fragments_of ?im w log M"
  obtain c where C: "census_inv ?im w cov (slots w) c"
    and R: "Wal_Recover w cov fn st =
      (let v = ?v in
       if 0 < cn_live_count c \<and> cn_min_live_seq c \<noteq> cov + 1 then Some (kWalRecoveryCorrupted, st, v) else
       case (if 0 < cn_live_count c
            then walk_loop (slots w) v cov fn (walk_init cov (cn_min_live_off c) (w_dev w) st)
            else (kSuccess, walk_init cov (cn_min_live_off c) (w_dev w) st)) of (c2, k) \<Rightarrow>
       let v2 = v\<lparr>w_dev := wk_dev k\<rparr> in
       if c2 \<noteq> kSuccess then Some (c2, wk_state k, v2)
       else if wk_anchor k = None \<and> cn_valid_count c = 0 then Some (kSuccess, wk_state k, recover_empty v2)
       else recover_finish v2 cov c k)"
    by (rule Wal_Recover_scan [OF r])
  note CS = census_summary [OF r M(1) C]
  note mn = CS(2) [OF M(2)]
  have nz: "cn_live_count c \<noteq> 0" using CS(1) M(2) by simp
  let ?k = "walk_init cov (cn_min_live_off c) (w_dev w) st"
  have k0: "?k = run_state w cov 0 None st"
    using mn d(6,9,10) by (simp add: walk_init_def run_state_def)
  obtain j ch where L: "walk_loop (slots w) w cov fn ?k = (if rc \<noteq> kSuccess then (rc, run_state w cov j ch st')
      else (kSuccess, sweep_state w cov M (cov + slots w) ?F ch st'))"
    using walk_result [OF r M(1) k0 rp] by blast
  let ?s = "sweep_state w cov M (cov + slots w) ?F ch st'"
  have ks: "wk_anchor ?s = Some (slot_off w (M - 1), M)" "wk_dev ?s = w_dev w"
    using M(2) by (simp_all add: sweep_state_def run_state_def)
  have dvw: "?v\<lparr>w_dev := w_dev w\<rparr> = ?v" by simp
  show ?thesis
  proof (rule that [OF CS(1)])
    show "cn_min_live_off c = slot_off w cov" using mn by simp
    show "Wal_Recover w cov fn st =
      (let v = ?v in if rc \<noteq> kSuccess then Some (rc, st', v) else recover_finish v cov c ?s)"
      unfolding R Let_def walk_loop_buf L
      using nz mn ks dvw by (simp add: run_state_def)
  qed
qed

lemma Wal_Recover_ok:
  fixes st :: 's
  assumes r: "recoverable w log h cov m" and M: "M = stop_at (rd_contents (w_dev w)) w log cov"
    and gap: "cov < M \<or> fragments_of (rd_contents (w_dev w)) w log M = 0"
    and room: "fragments_of (rd_contents (w_dev w)) w log M = 0 \<or> erase_room w cov M"
    and rp: "replay_log fn cov (drop cov (take M log)) st = (rc, st')"
  shows "\<exists>w'. Wal_Recover w cov fn st = Some (rc, st', w')
    \<and> (rc = kSuccess \<longrightarrow> wal_inv w' (take M log) (32 * (cov div 32)) M \<and> w_level w' = w_level w \<and> dev_ok w'
         \<and> w_n_frames w' = M mod 32 \<and> slot_off w' = slot_off w \<and> slots w' = slots w
         \<and> (fragments_of (rd_contents (w_dev w)) w log M = 0 \<longrightarrow> w_dev w' = w_dev w))"
proof (cases "cov < M")
  case True
  let ?F = "fragments_of (rd_contents (w_dev w)) w log M"
  obtain c ch where C: "cn_live_count c = (M - cov) + ?F" "cn_min_live_off c = slot_off w cov"
    and W: "Wal_Recover w cov fn st =
      (let v = w\<lparr>w_buf := Some (zeros (w_buf_size w))\<rparr> in
       if rc \<noteq> kSuccess then Some (rc, st', v)
       else recover_finish v cov c (sweep_state w cov M (cov + slots w) ?F ch st'))"
    by (rule Wal_Recover_run [OF r M True rp])
  let ?s = "sweep_state w cov M (cov + slots w) ?F ch st'"
  have ks: "wk_state ?s = st'" "wk_fragments ?s = ?F" "wk_replayed ?s = M - cov" "wk_stop_off ?s = slot_off w M"
    "wk_blocks_crossed ?s = (M - 1) div 32 - cov div 32 + 1"
    using True by (simp_all add: sweep_state_def run_state_def)
  have anchor: "(case wk_anchor ?s of Some a \<Rightarrow> a | None \<Rightarrow> (cn_max_valid_off c, cn_max_valid_seq c))
      = (slot_off w (M - 1), M)"
    using True by (simp add: sweep_state_def run_state_def)
  show ?thesis
  proof (cases "rc = kSuccess")
    case False
    then show ?thesis unfolding W by (simp add: Let_def)
  next
    case ok: True
    obtain w' where "recover_finish (w\<lparr>w_buf := Some (zeros (w_buf_size w))\<rparr>) cov c ?s = Some (kSuccess, wk_state ?s, w')"
      "wal_inv w' (take M log) (32 * (cov div 32)) M" "w_level w' = w_level w" "dev_ok w'"
      "w_n_frames w' = M mod 32" "slot_off w' = slot_off w" "slots w' = slots w"
      "wk_fragments ?s = 0 \<longrightarrow> w_dev w' = w_dev w"
      by (rule recover_finish_ok [OF r M _ _ _ anchor]) (use True room ks C in auto)
    then show ?thesis unfolding W using ok ks by (auto simp: Let_def)
  qed
next
  case False
  note d = recoverableD [OF r] and S = stop_bounds [OF r, folded M]
  let ?im = "rd_contents (w_dev w)" and ?v = "w\<lparr>w_buf := Some (zeros (w_buf_size w))\<rparr>"
  have MF: "M = cov" "fragments_of ?im w log M = 0" using False gap S(3) by simp_all
  then have c: "rc = kSuccess" "st' = st" using rp by simp_all
  obtain c where C: "census_inv ?im w cov (slots w) c"
    and R: "Wal_Recover w cov fn st =
      (let v = ?v in
       if 0 < cn_live_count c \<and> cn_min_live_seq c \<noteq> cov + 1 then Some (kWalRecoveryCorrupted, st, v) else
       case (if 0 < cn_live_count c
            then walk_loop (slots w) v cov fn (walk_init cov (cn_min_live_off c) (w_dev w) st)
            else (kSuccess, walk_init cov (cn_min_live_off c) (w_dev w) st)) of (c2, k) \<Rightarrow>
       let v2 = v\<lparr>w_dev := wk_dev k\<rparr> in
       if c2 \<noteq> kSuccess then Some (c2, wk_state k, v2)
       else if wk_anchor k = None \<and> cn_valid_count c = 0 then Some (kSuccess, wk_state k, recover_empty v2)
       else recover_finish v2 cov c k)"
    by (rule Wal_Recover_scan [OF r])
  note CS = census_summary [OF r M C]
  have live0: "cn_live_count c = 0" using CS(1) MF by simp
  have dvw: "?v\<lparr>w_dev := w_dev w\<rparr> = ?v" by simp
  let ?k = "walk_init cov (cn_min_live_off c) (w_dev w) st"
  have ki: "wk_anchor ?k = None" "wk_dev ?k = w_dev w" "wk_state ?k = st" "wk_fragments ?k = 0" "wk_replayed ?k = 0"
    by (simp_all add: walk_init_def)
  show ?thesis
  proof (cases "cov = 0")
    case z: True
    have "Wal_Recover w cov fn st = Some (kSuccess, st, recover_empty ?v)"
      unfolding R using CS(5) [OF live0 z] live0 ki dvw by simp
    moreover have "wal_geo ?v" using geo_cong(1) [of ?v w] d(1) by simp
    note E = recover_empty_inv [OF this]
    have "dev_ok (recover_empty ?v)" using E(3,4) d(3,4) by (simp add: dev_ok_def)
    moreover have "slot_off (recover_empty ?v) = slot_off w" "slots (recover_empty ?v) = slots w"
      "w_n_frames (recover_empty ?v) = 0"
      by (simp_all add: recover_empty_def Let_def slot_off_def [abs_def] slots_def ring_bytes_def)
    ultimately show ?thesis using c MF z E by simp
  next
    case nz: False
    have anchor: "(case wk_anchor ?k of Some a \<Rightarrow> a | None \<Rightarrow> (cn_max_valid_off c, cn_max_valid_seq c))
        = (slot_off w (M - 1), M)"
      using CS(4) [OF live0] nz MF ki by simp
    obtain w' where W: "recover_finish ?v cov c ?k = Some (kSuccess, wk_state ?k, w')"
      "wal_inv w' (take M log) (32 * (cov div 32)) M" "w_level w' = w_level w" "dev_ok w'"
      "w_n_frames w' = M mod 32" "slot_off w' = slot_off w" "slots w' = slots w"
      "wk_fragments ?k = 0 \<longrightarrow> w_dev w' = w_dev w"
      by (rule recover_finish_ok [OF r M _ _ _ anchor]) (use live0 MF nz ki in auto)
    have "Wal_Recover w cov fn st = Some (kSuccess, st, w')"
      unfolding R using live0 CS(3) nz ki dvw W(1) by simp
    then show ?thesis using c W ki(4) by auto
  qed
qed

lemma Wal_Recover_gap:
  assumes r: "recoverable w log h cov m" and p: "\<not> present (rd_contents (w_dev w)) w log cov"
    and k: "cov < k" "present (rd_contents (w_dev w)) w log k"
  shows "Wal_Recover w cov fn st = Some (kWalRecoveryCorrupted, st, w\<lparr>w_buf := Some (zeros (w_buf_size w))\<rparr>)"
proof -
  let ?im = "rd_contents (w_dev w)"
  obtain c where C: "census_inv ?im w cov (slots w) c"
    and R: "Wal_Recover w cov fn st =
      (let v = w\<lparr>w_buf := Some (zeros (w_buf_size w))\<rparr> in
       if 0 < cn_live_count c \<and> cn_min_live_seq c \<noteq> cov + 1 then Some (kWalRecoveryCorrupted, st, v) else
       case (if 0 < cn_live_count c
            then walk_loop (slots w) v cov fn (walk_init cov (cn_min_live_off c) (w_dev w) st)
            else (kSuccess, walk_init cov (cn_min_live_off c) (w_dev w) st)) of (c2, k) \<Rightarrow>
       let v2 = v\<lparr>w_dev := wk_dev k\<rparr> in
       if c2 \<noteq> kSuccess then Some (c2, wk_state k, v2)
       else if wk_anchor k = None \<and> cn_valid_count c = 0 then Some (kSuccess, wk_state k, recover_empty v2)
       else recover_finish v2 cov c k)"
    by (rule Wal_Recover_scan [OF r])
  note CS = census_summary [OF r refl C]
  let ?M = "stop_at ?im w log cov"
  have M: "?M = cov" using stop_bounds(3,5) [OF r] p by (metis le_neq_implies_less order_refl)
  have "k \<in> {k. ?M < k \<and> present ?im w log k}" using k M by simp
  moreover have "finite {k. ?M < k \<and> present ?im w log k}"
    by (rule finite_subset [of _ "{..<length log}"]) (auto simp: present_def)
  ultimately have "fragments_of ?im w log ?M \<noteq> 0" unfolding fragments_of_def by (auto simp: card_eq_0_iff)
  then have "cn_live_count c \<noteq> 0" using CS(1) by simp
  then show ?thesis unfolding R Let_def using CS(6) [OF p] by simp
qed

text \<open>With fragments, every live slot inside the zone is zeroed although recovery succeeds.\<close>

lemma Wal_Recover_erases:
  fixes st :: 's
  assumes r: "recoverable w log h cov m" and M: "M = stop_at (rd_contents (w_dev w)) w log cov" "cov < M"
    and frag: "0 < fragments_of (rd_contents (w_dev w)) w log M"
    and rp: "replay_log fn cov (drop cov (take M log)) st = (kSuccess, st')"
    and zone: "slot_off w (32 * (M div 32)) + (if 0 < M mod 32 then 4096 else 0) \<le> slot_off w k"
      "slot_off w k + 128 \<le> min (slot_off w (32 * (M div 32)) + w_buf_size w) (w_ring_end w)"
  shows "\<exists>w'. Wal_Recover w cov fn st = Some (kSuccess, st', w') \<and> w_seq_next w' = M + 1
    \<and> kread (rd_durable (w_dev w')) (slot_off w k) 128 = zeros 128"
proof -
  let ?F = "fragments_of (rd_contents (w_dev w)) w log M" and ?b = "Some (zeros (w_buf_size w))"
  obtain c ch where C: "cn_live_count c = (M - cov) + ?F" "cn_min_live_off c = slot_off w cov"
    and W: "Wal_Recover w cov fn st =
      (let v = w\<lparr>w_buf := ?b\<rparr> in
       if kSuccess \<noteq> kSuccess then Some (kSuccess, st', v)
       else recover_finish v cov c (sweep_state w cov M (cov + slots w) ?F ch st'))"
    by (rule Wal_Recover_run [OF r M rp])
  let ?s = "sweep_state w cov M (cov + slots w) ?F ch st'"
  have ks: "wk_state ?s = st'" "wk_fragments ?s = ?F" "wk_replayed ?s = M - cov" "wk_stop_off ?s = slot_off w M"
    "wk_blocks_crossed ?s = (M - 1) div 32 - cov div 32 + 1"
    using M(2) by (simp_all add: sweep_state_def run_state_def)
  have anchor: "(case wk_anchor ?s of Some a \<Rightarrow> a | None \<Rightarrow> (cn_max_valid_off c, cn_max_valid_seq c))
      = (slot_off w (M - 1), M)"
    using M(2) by (simp add: sweep_state_def run_state_def)
  have fs: "0 < wk_fragments ?s" using ks(2) frag by simp
  obtain d' buf where R: "refill (anchored w cov M ?b) ?s
      = Some (kSuccess, (anchored w cov M ?b)\<lparr>w_dev := d', w_buf := Some buf\<rparr>)"
    "\<forall>i. slot_off w (32 * (M div 32)) + (if 0 < M mod 32 then 4096 else 0) \<le> i
       \<and> i < min (slot_off w (32 * (M div 32)) + w_buf_size w) (w_ring_end w) \<longrightarrow> rd_durable d' i = 0"
    by (rule refill_zone [OF r M(1) fs ks(4) anchored_def])
  have "0 < M" using M(2) by simp
  then obtain w' where F: "recover_finish (w\<lparr>w_buf := ?b\<rparr>) cov c ?s = Some (kSuccess, wk_state ?s, w')"
    "w_seq_next w' = M + 1" "w_dev w' = d'"
    by (rule recover_finish_core [OF r M(1) _ _ _ anchor _ _ R(1)]) (use M(2) ks C in auto)
  have "kread (rd_durable d') (slot_off w k) 128 = zeros 128"
    by (rule nth_equalityI) (use R(2) zone in auto)
  then show ?thesis unfolding W using F ks(1) by (auto simp: Let_def)
qed

end
