(* ===== verification/Cabe_WalRestart.thy ===== *)
theory Cabe_WalRestart
  imports Cabe_WalRecoverTheorems
begin

text \<open>
  The log across a power failure: the state before, the image the failure leaves, the log
  opened again and recovered. The properties say what is handed to the callback, that the log
  goes on, and two cases in which recovery does not do what it is meant to.
\<close>

section \<open>After a power failure\<close>

text \<open>The device after the failure holds the image \<open>im\<close> and answers; it is opened with the options
  it was opened with before, but not in create mode.\<close>

definition restart :: "wal \<Rightarrow> (nat \<Rightarrow> u8) \<Rightarrow> kdev \<Rightarrow> options \<Rightarrow> bool" where
  "restart w im d opts \<longleftrightarrow>
     kd_data d = im \<and> kd_durable d = im \<and> kd_script d = [] \<and> kd_size d < 2 ^ 64 \<and> \<not> o_create opts
     \<and> w_buf_size w = RoundUpBufferSize (o_wal_buffer_size opts) kWalBlockSize
     \<and> w_ring_end w = kDataRegionOffset + WalRingSize (kd_size d)
     \<and> o_snapshot_threshold_bytes opts < 2 ^ 63 \<and> 2 * o_snapshot_threshold_bytes opts \<le> ring_bytes w"

definition reopened :: "wal \<Rightarrow> kdev \<Rightarrow> options \<Rightarrow> wal" where
  "reopened w d opts = w\<lparr>w_dev := \<lparr>fd_open = True, size_bytes = kd_size d, kdev = d\<rparr>, w_buf := None,
     w_cur_off := w_ring_start w, w_head_off := w_ring_start w, w_n_frames := 0, w_seq_next := 1,
     w_level := o_wal_level opts, w_window_bytes := 0\<rparr>"

lemma Wal_Open_restart:
  assumes g: "wal_geo w" and r: "restart w im d opts"
  shows "Wal_Open (wal_closed d) opts = (kSuccess, reopened w d opts)"
proof -
  note R = r [unfolded restart_def]
  let ?dv = "\<lparr>fd_open = True, size_bytes = kd_size d, kdev = d\<rparr>"
  have o: "RawDevice_Open (raw_closed d) = (kSuccess, ?dv)" by (rule healthy_Open) (use R in simp)
  have dz: "w_dev (wal_closed d) = raw_closed d" by (simp add: wal_closed_def)
  have st: "w_ring_start w = kDataRegionOffset" using g by (simp add: wal_geo_def)
  have ring: "WalRingSize (RawDevice_SizeBytes ?dv) = ring_bytes w"
    using R st by (simp add: ring_bytes_def RawDevice_SizeBytes_def)
  have buf: "w_buf_size w + 4096 \<le> ring_bytes w" "w_buf_size w \<le> 2 ^ 38" using g by (simp_all add: wal_geo_def)
  then have "(w_buf_size w + kWalBlockSize) mod 2 ^ 64 = w_buf_size w + 4096" by (simp add: kWalBlockSize_def)
  moreover have "(if (2 ^ 64 - 1) div 2 < o_snapshot_threshold_bytes opts then 2 ^ 64 - 1
      else o_snapshot_threshold_bytes opts * 2) = o_snapshot_threshold_bytes opts * 2" using R by simp
  ultimately have enough: "\<not> ring_bytes w < max (if (2 ^ 64 - 1) div 2 < o_snapshot_threshold_bytes opts then 2 ^ 64 - 1
      else o_snapshot_threshold_bytes opts * 2) ((w_buf_size w + kWalBlockSize) mod 2 ^ 64)"
    using R buf by (simp add: max_def)
  have bz: "RoundUpBufferSize (o_wal_buffer_size opts) kWalBlockSize = w_buf_size w" using R by simp
  have e: "kDataRegionOffset + ring_bytes w = w_ring_end w" using wal_geoD(3) [OF g] st by simp
  show ?thesis
    unfolding Wal_Open_def dz o prod.case Let_def ring bz if_not_P [OF enough] e
    using R st by (simp add: reopened_def wal_closed_def)
qed

lemma reopened_recoverable:
  assumes inv: "wal_inv w log h m" and sy: "written w log \<le> m" and im: "crash_image (w_dev w) im"
    and hon: "honest_ring im w log" and cov: "h \<le> cov" "cov \<le> m" and len: "length log + 2 ^ 32 < 2 ^ 64"
    and r: "restart w im d opts"
  shows "recoverable (reopened w d opts) log h cov m"
    "rd_contents (w_dev (reopened w d opts)) = im" "slot_off (reopened w d opts) = slot_off w"
    "w_level (reopened w d opts) = o_wal_level opts"
proof -
  let ?w = "reopened w d opts"
  have win: "wal_win w log h" and m: "m \<le> length log" using inv by (simp_all add: wal_inv_def)
  note D = wal_winD [OF win] and W = wal_window [OF win] and R = r [unfolded restart_def]
  have geo: "w_ring_start ?w = w_ring_start w" "w_ring_end ?w = w_ring_end w" "w_buf_size ?w = w_buf_size w"
    by (simp_all add: reopened_def)
  note G = geo_cong(1,2) [OF geo] slot_off_cong [OF geo(1,2)]
  show so: "slot_off ?w = slot_off w" by (rule G(3))
  show ct: "rd_contents (w_dev ?w) = im" using R by (simp add: reopened_def rd_contents_def)
  show "w_level ?w = o_wal_level opts" by (simp add: reopened_def)
  have dur: "rd_durable (w_dev ?w) = im" using R by (simp add: reopened_def rd_durable_def)
  have h: "healthy (w_dev ?w)" "size_bytes (w_dev ?w) = kd_size d"
    using R by (simp_all add: reopened_def healthy_def)
  have endb: "w_ring_end w \<le> kd_size d"
    using R WalRingSize_le [of "kd_size d"] wal_geoD(3,2) [OF D(1)] D(1) by (simp add: wal_geo_def)
  have ring: "128 * (length log - h) + 4096 \<le> ring_bytes w"
    using W(5) D(8,13,16,17) by linarith
  have disk: "on_disk ?w im log (h - 32) m"
    using inv_crash_kept [OF inv im] by (simp add: on_disk_def so)
  have sl: "slots ?w = slots w" by (simp add: slots_def G(2))
  have hon': "honest_ring im ?w log" using hon by (simp add: honest_ring_def slot_bytes_def so sl)
  have one: "one_window ?w log m"
    unfolding one_window_def geo(3) G(2)
  proof (intro exI [of _ "written w log"] conjI)
    show "32 dvd written w log" "written w log \<le> m" using D(6) sy by simp_all
    have u: "128 * (length log - written w log) \<le> w_window_bytes w" using D(13,16) by simp
    then show "128 * (length log - written w log) \<le> w_buf_size w" using W(3) by linarith
    show "128 * written w log mod ring_bytes w + 128 * (length log - written w log) \<le> ring_bytes w"
      using u W(4) by linarith
  qed
  show "recoverable ?w log h cov m"
    unfolding recoverable_def ct dur geo G(1,2)
    using D(1,2,7) h endb R cov m len ring disk hon' one by (simp add: reopened_def)
qed

lemma reopened_same:
  assumes "rd_contents (w_dev (reopened w d opts)) = im" "slot_off (reopened w d opts) = slot_off w"
  shows "stop_at im (reopened w d opts) log cov = stop_at im w log cov"
    "fragments_of im (reopened w d opts) log M = fragments_of im w log M"
    "erase_room (reopened w d opts) cov M = erase_room w cov M"
    "present im (reopened w d opts) log k = present im w log k"
proof -
  have p: "present im (reopened w d opts) = present im w"
    by (intro ext) (simp add: present_def slot_bytes_def assms(2))
  have "ring_bytes (reopened w d opts) = ring_bytes w" "w_buf_size (reopened w d opts) = w_buf_size w"
    by (simp_all add: reopened_def ring_bytes_def)
  then show "stop_at im (reopened w d opts) log cov = stop_at im w log cov"
    "fragments_of im (reopened w d opts) log M = fragments_of im w log M"
    "erase_room (reopened w d opts) cov M = erase_room w cov M"
    "present im (reopened w d opts) log k = present im w log k"
    by (simp_all add: stop_at_def fragments_of_def erase_room_def p)
qed

section \<open>Concrete logs\<close>

text \<open>A log of \<open>n\<close> equal records on a small ring, \<open>h\<close> of them reclaimed and \<open>b\<close> written out.\<close>

definition sample_log :: "nat \<Rightarrow> wal_entry list" where
  "sample_log n = replicate n demo_entry"

definition sample_wal :: "nat \<Rightarrow> nat \<Rightarrow> nat \<Rightarrow> nat \<Rightarrow> nat \<Rightarrow> (nat \<Rightarrow> u8) \<Rightarrow> (nat \<Rightarrow> u8) \<Rightarrow> wal" where
  "sample_wal ring buf h b n data durable =
     (let w = \<lparr>w_dev = \<lparr>fd_open = True, size_bytes = kDataRegionOffset + ring, kdev =
                  \<lparr>kd_size = kDataRegionOffset + ring, kd_data = data, kd_durable = durable, kd_script = []\<rparr>\<rparr>,
              w_buf = Some (frames (sample_log n) b n @ zeros (buf - 128 * (n - b))), w_buf_size = buf,
              w_cur_off = kDataRegionOffset + 128 * b mod ring, w_n_frames = n - b, w_seq_next = n + 1,
              w_level = Async, w_ring_start = kDataRegionOffset, w_ring_end = kDataRegionOffset + ring,
              w_head_off = kDataRegionOffset + 128 * h mod ring, w_window_bytes = 0\<rparr>
      in w\<lparr>w_window_bytes := WindowAt w (w_cur_off w)\<rparr>)"

lemma sample_log_ok: "entries_ok (sample_log n)" "length (sample_log n) = n"
  by (auto simp: sample_log_def entries_ok_def entry_ok_def demo_entry_def kWalKeyMax_def)

lemma sample_fields:
  fixes ring buf h b n data durable
  defines "w \<equiv> sample_wal ring buf h b n data durable"
  shows "w_ring_start w = 8192" "w_ring_end w = 8192 + ring" "ring_bytes w = ring" "w_buf_size w = buf"
    "w_n_frames w = n - b" "w_seq_next w = n + 1" "slot_off w k = 8192 + 128 * k mod ring"
    "w_cur_off w = slot_off w b" "w_head_off w = slot_off w h" "slots w = ring div 128"
    "rd_contents (w_dev w) = data" "rd_durable (w_dev w) = durable"
    "w_buf w = Some (frames (sample_log n) b n @ zeros (buf - 128 * (n - b)))"
    "w_window_bytes w = WindowAt w (w_cur_off w)"
proof -
  let ?w = "sample_wal ring buf h b n data durable"
  have e: "w_ring_start ?w = 8192" "w_ring_end ?w = 8192 + ring" "w_buf_size ?w = buf"
    "w_cur_off ?w = 8192 + 128 * b mod ring" "w_head_off ?w = 8192 + 128 * h mod ring"
    by (simp_all add: sample_wal_def Let_def kDataRegionOffset_8K)
  show "w_ring_start w = 8192" "w_ring_end w = 8192 + ring" "w_buf_size w = buf" using e by (simp_all add: w_def)
  show rb: "ring_bytes w = ring" using e by (simp add: w_def ring_bytes_def)
  show "w_n_frames w = n - b" "w_seq_next w = n + 1"
    "w_buf w = Some (frames (sample_log n) b n @ zeros (buf - 128 * (n - b)))"
    "rd_contents (w_dev w) = data" "rd_durable (w_dev w) = durable"
    by (simp_all add: w_def sample_wal_def Let_def rd_contents_def rd_durable_def)
  show "slot_off w k = 8192 + 128 * k mod ring" "w_cur_off w = slot_off w b" "w_head_off w = slot_off w h"
    using e rb by (simp_all add: w_def slot_off_def)
  show "slots w = ring div 128" using rb by (simp add: slots_def)
  define v where "v = \<lparr>w_dev = \<lparr>fd_open = True, size_bytes = kDataRegionOffset + ring, kdev =
                  \<lparr>kd_size = kDataRegionOffset + ring, kd_data = data, kd_durable = durable, kd_script = []\<rparr>\<rparr>,
              w_buf = Some (frames (sample_log n) b n @ zeros (buf - 128 * (n - b))), w_buf_size = buf,
              w_cur_off = kDataRegionOffset + 128 * b mod ring, w_n_frames = n - b, w_seq_next = n + 1,
              w_level = Async, w_ring_start = kDataRegionOffset, w_ring_end = kDataRegionOffset + ring,
              w_head_off = kDataRegionOffset + 128 * h mod ring, w_window_bytes = 0\<rparr>"
  have "w = v\<lparr>w_window_bytes := WindowAt v (w_cur_off v)\<rparr>" by (simp add: w_def sample_wal_def Let_def v_def)
  then show "w_window_bytes w = WindowAt w (w_cur_off w)"
    using geo_cong(3) [of w v "w_cur_off v"] by simp
qed

lemma sample_inv:
  fixes data durable
  assumes g: "4096 dvd ring" "4096 dvd buf" "0 < buf" "buf \<le> 2 ^ 38" "buf + 4096 \<le> ring"
    and n: "32 dvd b" "32 dvd h" "h \<le> b" "b \<le> n" "n + 1 < 2 ^ 64" "128 * (n - h) + 4096 \<le> ring"
      "128 * (n - b) \<le> buf" "128 * b mod ring + 128 * (n - b) \<le> ring"
    and m: "m \<le> n" and disk: "\<And>k. h - 32 \<le> k \<Longrightarrow> k < max b m \<Longrightarrow> kread data (8192 + 128 * k mod ring) 128 = fb (sample_log n) k"
      "\<And>k. h - 32 \<le> k \<Longrightarrow> k < m \<Longrightarrow> kread durable (8192 + 128 * k mod ring) 128 = fb (sample_log n) k"
  shows "wal_inv (sample_wal ring buf h b n data durable) (sample_log n) h m"
    "written (sample_wal ring buf h b n data durable) (sample_log n) = b"
proof -
  let ?w = "sample_wal ring buf h b n data durable"
  note F = sample_fields [where ring = ring and buf = buf and h = h and b = b and n = n and data = data and durable = durable]
  have geo: "wal_geo ?w" using g by (simp add: wal_geo_def F(1-4) kDataRegionOffset_8K)
  show wr: "written ?w (sample_log n) = b" using n(4) by (simp add: written_def F(5) sample_log_ok)
  have us: "used_bytes ?w = 128 * (n - b)" by (simp add: used_bytes_def F(5) kWalFrameSize_def)
  have le: "128 * (b - h) + 4096 \<le> ring"
  proof -
    have "128 * (b - h) \<le> 128 * (n - h)" using n(4) by simp
    then show ?thesis using n(6) by linarith
  qed
  have W: "WindowAt ?w (slot_off ?w b) = min buf (min (ring - (128 * b) mod ring) (ring - 4096 - 128 * (b - h)))"
    using WindowAt_slot [OF geo n(3) _ F(9)] le by (simp add: F(3,4))
  have fit: "128 * (n - b) \<le> WindowAt ?w (slot_off ?w b)"
    unfolding W using n by (intro min.boundedI) (auto simp: algebra_simps)
  have dv: "4096 dvd WindowAt ?w (slot_off ?w b)"
    by (rule WindowAt_dvd [OF geo n(3) _ n(2,1) F(9)]) (use le in \<open>simp add: F(3)\<close>)
  have "wal_win ?w (sample_log n) h"
    unfolding wal_win_def wr us F(3-6,8,9,13,14)
    using geo sample_log_ok n le dv fit by (simp add: F(4))
  then show "wal_inv ?w (sample_log n) h m"
    using m disk by (simp add: wal_inv_def wr on_disk_def F(7,11,12) sample_log_ok)
qed

text \<open>The device after the failure and the options of the second opening.\<close>

definition sample_kdev :: "nat \<Rightarrow> (nat \<Rightarrow> u8) \<Rightarrow> kdev" where
  "sample_kdev ring im = \<lparr>kd_size = kDataRegionOffset + ring, kd_data = im, kd_durable = im, kd_script = []\<rparr>"

definition sample_opts :: "nat \<Rightarrow> options" where
  "sample_opts buf = \<lparr>o_create = False, o_wal_level = WalSync, o_wal_buffer_size = buf,
     o_snapshot_threshold_bytes = 4096, o_snapshot_buffer_size = 65536, o_verify_value_crc = True\<rparr>"

lemma sample_restart:
  assumes "ring = 16384" "buf = 4096 \<or> buf = 12288"
  shows "restart (sample_wal ring buf h b n data durable) im (sample_kdev ring im) (sample_opts buf)"
proof -
  note F = sample_fields [where ring = ring and buf = buf and h = h and b = b and n = n and data = data and durable = durable]
  have "RoundUpBufferSize buf kWalBlockSize = buf"
    using assms(2) by (auto simp: RoundUpBufferSize_def kWalBlockSize_def AlignUp_def)
  moreover have "WalRingSize (8192 + ring) = ring"
    using assms(1) by (simp add: WalRingSize_def kDataRegionOffset_8K kWalBlockSize_def)
  ultimately show ?thesis
    unfolding restart_def F using assms(1)
    by (simp add: sample_kdev_def sample_opts_def kDataRegionOffset_8K)
qed

lemma not_frame_zeros: "\<not> is_frame (zeros 128)"
  using VerifyFrame_zeros by (simp add: is_frame_def kWalFrameSize_def)

lemma kread_zero: "kread (\<lambda>_. 0) off n = zeros n"
  by (rule nth_equalityI) simp_all

definition collect :: "wal_entry \<Rightarrow> u64 \<Rightarrow> wal_entry list \<Rightarrow> rc \<times> wal_entry list" where
  "collect e s st = (kSuccess, st @ [e])"

lemma replay_collect: "replay_log collect s es st = (kSuccess, st @ es)"
  by (induction es arbitrary: s st) (simp_all add: collect_def)

text \<open>One durable record.\<close>

definition sample_im1 :: "nat \<Rightarrow> u8" where
  "sample_im1 = kwrite (\<lambda>_. 0) 8192 (fb (sample_log 1) 0)"

definition sample_wal1 :: wal where
  "sample_wal1 = sample_wal 16384 4096 0 0 1 sample_im1 sample_im1"

lemma sample1:
  "wal_inv sample_wal1 (sample_log 1) 0 1" "written sample_wal1 (sample_log 1) = 0"
  "crash_image (w_dev sample_wal1) sample_im1" "honest_ring sample_im1 sample_wal1 (sample_log 1)"
  "stop_at sample_im1 sample_wal1 (sample_log 1) 0 = 1"
  "fragments_of sample_im1 sample_wal1 (sample_log 1) 1 = 0"
proof -
  note F = sample_fields [where ring = 16384 and buf = 4096 and h = 0 and b = 0 and n = 1
      and data = sample_im1 and durable = sample_im1, folded sample_wal1_def]
  have len: "length (fb (sample_log 1) 0) = 128" using sample_log_ok [of 1] by simp
  have r0: "kread sample_im1 8192 128 = fb (sample_log 1) 0" using len by (simp add: sample_im1_def)
  have "wal_inv sample_wal1 (sample_log 1) 0 1 \<and> written sample_wal1 (sample_log 1) = 0"
    unfolding sample_wal1_def by (intro conjI sample_inv [where m = 1]) (use r0 in auto)
  then show "wal_inv sample_wal1 (sample_log 1) 0 1" "written sample_wal1 (sample_log 1) = 0" by auto
  show "crash_image (w_dev sample_wal1) sample_im1" by (simp add: crash_image_def F)
  have sb: "slot_bytes sample_im1 sample_wal1 k = (if k = 0 then fb (sample_log 1) 0 else zeros 128)"
    if "k < 128" for k
  proof (cases "k = 0")
    case False
    then have "kread sample_im1 (8192 + 128 * k) 128 = kread (\<lambda>_. 0) (8192 + 128 * k) 128"
      unfolding sample_im1_def using len by (intro kread_kwrite_disjoint) simp
    then show ?thesis using that False by (simp add: slot_bytes_def F kread_zero)
  qed (use r0 in \<open>simp add: slot_bytes_def F\<close>)
  show "honest_ring sample_im1 sample_wal1 (sample_log 1)"
    unfolding honest_ring_def F
    using sb not_frame_zeros sample_log_ok [of 1] by (auto split: if_splits)
  have pr: "present sample_im1 sample_wal1 (sample_log 1) 0"
    using sb [of 0] sample_log_ok [of 1] by (simp add: present_def)
  have b: "0 \<le> length (sample_log 1)" by simp
  have "1 \<le> stop_at sample_im1 sample_wal1 (sample_log 1) 0"
    by (rule stop_at_ge) (use pr sample_log_ok [of 1] in auto)
  then show "stop_at sample_im1 sample_wal1 (sample_log 1) 0 = 1"
    using stop_at_props(2) [OF b, of sample_im1 sample_wal1] sample_log_ok [of 1] by simp
  show "fragments_of sample_im1 sample_wal1 (sample_log 1) 1 = 0"
    by (simp add: fragments_of_def present_def sample_log_ok)
qed

text \<open>Five records in one flush; the sector of the first four is lost.\<close>

definition sample_im2 :: "nat \<Rightarrow> u8" where
  "sample_im2 = kwrite (\<lambda>_. 0) 8704 (fb (sample_log 5) 4)"

definition sample_wal2 :: wal where
  "sample_wal2 = sample_wal 16384 4096 0 0 5 (kwrite (\<lambda>_. 0) 8192 (frames (sample_log 5) 0 5)) (\<lambda>_. 0)"

lemma sample2:
  "wal_inv sample_wal2 (sample_log 5) 0 0" "written sample_wal2 (sample_log 5) = 0"
  "crash_image (w_dev sample_wal2) sample_im2" "honest_ring sample_im2 sample_wal2 (sample_log 5)"
  "\<not> present sample_im2 sample_wal2 (sample_log 5) 0" "present sample_im2 sample_wal2 (sample_log 5) 4"
proof -
  let ?data = "kwrite (\<lambda>_. 0) 8192 (frames (sample_log 5) 0 5)"
  note F = sample_fields [where ring = 16384 and buf = 4096 and h = 0 and b = 0 and n = 5
      and data = ?data and durable = "\<lambda>_. 0", folded sample_wal2_def]
  have ok: "entries_ok (sample_log 5)" "length (sample_log 5) = 5" by (rule sample_log_ok)+
  have len: "length (fb (sample_log 5) 4) = 128" using ok by simp
  have "wal_inv sample_wal2 (sample_log 5) 0 0 \<and> written sample_wal2 (sample_log 5) = 0"
    unfolding sample_wal2_def by (intro conjI sample_inv [where m = 0]) auto
  then show "wal_inv sample_wal2 (sample_log 5) 0 0" "written sample_wal2 (sample_log 5) = 0" by auto
  have fr: "frames (sample_log 5) 0 5 = frames (sample_log 5) 0 4 @ fb (sample_log 5) 4"
    using frames_Suc [of 0 4 "sample_log 5"] by (simp add: eval_nat_numeral)
  have l4: "length (frames (sample_log 5) 0 4) = 512" using ok by simp
  show "crash_image (w_dev sample_wal2) sample_im2"
    unfolding crash_image_def F sample_im2_def kwrite_def
    using l4 len by (auto simp: fr nth_append)
  have sb: "slot_bytes sample_im2 sample_wal2 k = (if k = 4 then fb (sample_log 5) 4 else zeros 128)"
    if "k < 128" for k
  proof (cases "k = 4")
    case False
    then have "kread sample_im2 (8192 + 128 * k) 128 = kread (\<lambda>_. 0) (8192 + 128 * k) 128"
      unfolding sample_im2_def using len by (intro kread_kwrite_disjoint) auto
    then show ?thesis using that False by (simp add: slot_bytes_def F kread_zero)
  qed (use len in \<open>simp add: slot_bytes_def F sample_im2_def\<close>)
  show "honest_ring sample_im2 sample_wal2 (sample_log 5)"
    unfolding honest_ring_def F
    using sb not_frame_zeros ok by (auto split: if_splits intro!: exI [of _ 4])
  show "present sample_im2 sample_wal2 (sample_log 5) 4" using sb [of 4] ok by (simp add: present_def)
  have "is_frame (fb (sample_log 5) 0)" using fb_frame(1) [OF ok(1), of 0] ok(2) by simp
  then have "fb (sample_log 5) 0 \<noteq> zeros 128" using not_frame_zeros by metis
  then show "\<not> present sample_im2 sample_wal2 (sample_log 5) 0" using sb [of 0] by (simp add: present_def)
qed

text \<open>A ring of four blocks: the live records fill blocks two and three, the tail is back in block
  zero, where one of five written records survived.\<close>

definition sample_base :: "nat \<Rightarrow> u8" where
  "sample_base = kwrite (\<lambda>_. 0) 12288 (frames (sample_log 133) 32 128)"

definition sample_im3 :: "nat \<Rightarrow> u8" where
  "sample_im3 = kwrite sample_base 8704 (fb (sample_log 133) 132)"

definition sample_wal3 :: wal where
  "sample_wal3 = sample_wal 16384 12288 64 128 133
     (kwrite sample_base 8192 (frames (sample_log 133) 128 133)) sample_base"

lemma sample3:
  "wal_inv sample_wal3 (sample_log 133) 64 128" "written sample_wal3 (sample_log 133) = 128"
  "crash_image (w_dev sample_wal3) sample_im3" "honest_ring sample_im3 sample_wal3 (sample_log 133)"
  "stop_at sample_im3 sample_wal3 (sample_log 133) 64 = 128"
  "0 < fragments_of sample_im3 sample_wal3 (sample_log 133) 128"
  "slot_off sample_wal3 128 = 8192" "slot_off sample_wal3 64 = 16384" "w_buf_size sample_wal3 = 12288"
  "w_ring_end sample_wal3 = 24576"
proof -
  let ?l = "sample_log 133" and ?data = "kwrite sample_base 8192 (frames (sample_log 133) 128 133)"
  note F = sample_fields [where ring = 16384 and buf = 12288 and h = 64 and b = 128 and n = 133
      and data = ?data and durable = sample_base, folded sample_wal3_def]
  have ok: "entries_ok ?l" "length ?l = 133" by (rule sample_log_ok)+
  have len: "length (fb ?l 132) = 128" "length (frames ?l 32 128) = 12288" "length (frames ?l 128 133) = 640"
    "length (frames ?l 128 132) = 512" using ok by simp_all
  have base: "kread sample_base (8192 + 128 * k) 128 = fb ?l k" if "32 \<le> k" "k < 128" for k
  proof -
    have "kread sample_base (8192 + 128 * k) 128 = peek (8192 + 128 * k - 12288) 128 (frames ?l 32 128)"
      unfolding sample_base_def using that len(2) by (intro kread_kwrite_inside) auto
    also have "8192 + 128 * k - 12288 = 128 * (k - 32)" using that by simp
    also have "peek (128 * (k - 32)) 128 (frames ?l 32 128) = fb ?l k"
      using peek_frames [OF ok(1) that, of "[]"] ok(2) by simp
    finally show ?thesis .
  qed
  have low: "kread sample_base (8192 + 128 * k) 128 = zeros 128" if "k < 32" for k
  proof -
    have "kread sample_base (8192 + 128 * k) 128 = kread (\<lambda>_. 0) (8192 + 128 * k) 128"
      unfolding sample_base_def using that by (intro kread_kwrite_disjoint) auto
    then show ?thesis by (simp add: kread_zero)
  qed
  have above: "kread ?data (8192 + 128 * k) 128 = fb ?l k" if "32 \<le> k" "k < 128" for k
    using base [OF that] that len(3) by (simp add: kread_kwrite_disjoint)
  have "wal_inv sample_wal3 ?l 64 128 \<and> written sample_wal3 ?l = 128"
    unfolding sample_wal3_def by (intro conjI sample_inv [where m = 128]) (use base above in auto)
  then show "wal_inv sample_wal3 ?l 64 128" "written sample_wal3 ?l = 128" by auto
  have fr: "frames ?l 128 133 = frames ?l 128 132 @ fb ?l 132"
    using frames_Suc [of 128 132 ?l] by (simp add: eval_nat_numeral)
  show "crash_image (w_dev sample_wal3) sample_im3"
    unfolding crash_image_def F sample_im3_def kwrite_def
    using len by (auto simp: fr nth_append)
  have sb: "slot_bytes sample_im3 sample_wal3 k
      = (if k = 4 then fb ?l 132 else if k < 32 then zeros 128 else fb ?l k)" if k: "k < 128" for k
  proof (cases "k = 4")
    case True
    then show ?thesis using len(1) by (simp add: slot_bytes_def F sample_im3_def)
  next
    case False
    then have "kread sample_im3 (8192 + 128 * k) 128 = kread sample_base (8192 + 128 * k) 128"
      unfolding sample_im3_def using len(1) by (intro kread_kwrite_disjoint) auto
    then show ?thesis using base low k False by (auto simp: slot_bytes_def F)
  qed
  show "honest_ring sample_im3 sample_wal3 ?l"
    unfolding honest_ring_def
  proof (intro allI impI)
    fix k
    assume k: "k < slots sample_wal3" "is_frame (slot_bytes sample_im3 sample_wal3 k)"
    then have k128: "k < 128" by (simp add: F)
    show "\<exists>j < length ?l. slot_off sample_wal3 j = slot_off sample_wal3 k \<and> slot_bytes sample_im3 sample_wal3 k = fb ?l j"
    proof (cases "k = 4")
      case True
      then show ?thesis using sb [OF k128] ok(2) by (intro exI [of _ 132]) (simp add: F)
    next
      case False
      then have "32 \<le> k" using sb [OF k128] k(2) not_frame_zeros by (auto split: if_splits)
      then show ?thesis using sb [OF k128] k128 ok(2) False by (intro exI [of _ k]) simp
    qed
  qed
  have pr: "present sample_im3 sample_wal3 ?l k" if "64 \<le> k" "k < 128" for k
    using sb [of k] that ok(2) by (simp add: present_def)
  have s0: "slot_off sample_wal3 128 = slot_off sample_wal3 0" by (simp add: F)
  have "is_frame (fb ?l 128)" using fb_frame(1) [OF ok(1), of 128] ok(2) by simp
  then have np: "\<not> present sample_im3 sample_wal3 ?l 128"
    using sb [of 0] s0 not_frame_zeros by (auto simp: present_def slot_bytes_def)
  have b: "64 \<le> length ?l" using ok(2) by simp
  have "128 \<le> stop_at sample_im3 sample_wal3 ?l 64"
    by (rule stop_at_ge) (use pr ok(2) in auto)
  then show "stop_at sample_im3 sample_wal3 ?l 64 = 128"
    using stop_at_props(3) [OF b, of 128 sample_im3 sample_wal3] np by (cases "stop_at sample_im3 sample_wal3 ?l 64 = 128") auto
  have s4: "slot_off sample_wal3 132 = slot_off sample_wal3 4" by (simp add: F)
  have "present sample_im3 sample_wal3 ?l 132"
    using sb [of 4] s4 ok(2) by (simp add: present_def slot_bytes_def)
  then have "132 \<in> {k. 128 < k \<and> present sample_im3 sample_wal3 ?l k}" by simp
  moreover have "finite {k. 128 < k \<and> present sample_im3 sample_wal3 ?l k}"
    by (rule finite_subset [of _ "{..<length ?l}"]) (auto simp: present_def)
  ultimately show "0 < fragments_of sample_im3 sample_wal3 ?l 128"
    unfolding fragments_of_def card_gt_0_iff by blast
  show "slot_off sample_wal3 128 = 8192" "slot_off sample_wal3 64 = 16384" "w_buf_size sample_wal3 = 12288"
    "w_ring_end sample_wal3 = 24576" by (simp_all add: F)
qed

section \<open>Properties\<close>

text \<open>C7: recovery after a power failure. A log whose written-out part is durable (after every
  acknowledged write at a synchronous level, after every flush, and between flushes at the
  batching levels) loses power; each byte of the device is then its durable or its written
  value. The log is opened again and recovered behind a snapshot covering \<open>cov\<close> records. Then
  the callback gets, in order, exactly the records from \<open>cov\<close> up to the first one that is
  missing; this is at least every durable record and never more than was appended. If the
  callback accepts them all recovery succeeds, at the level of the options, and the log
  continues: its state satisfies the invariant for the records recovered, all durable, the
  blocks the snapshot covers entirely being reclaimed. Required: no accidental or foreign
  frame in the ring, torn frames only behind a recovered one, and an erased zone that does not
  reach live blocks.\<close>

theorem wal_crash_recovery:
  fixes st :: 's
  assumes inv: "wal_inv w log h m" "written w log \<le> m" and crash: "crash_image (w_dev w) im" "honest_ring im w log"
    and cov: "h \<le> cov" "cov \<le> m" and len: "length log + 2 ^ 32 < 2 ^ 64" and again: "restart w im d opts"
    and M: "M = stop_at im w log cov"
    and torn: "fragments_of im w log M = 0 \<or> cov < M \<and> erase_room w cov M"
    and deliver: "replay_log fn cov (drop cov (take M log)) st = (rc, st')"
  shows "m \<le> M \<and> M \<le> length log \<and> (\<exists>w1 w2. Wal_Open (wal_closed d) opts = (kSuccess, w1)
    \<and> Wal_Recover w1 cov fn st = Some (rc, st', w2)
    \<and> (rc = kSuccess \<longrightarrow> wal_inv w2 (take M log) (32 * (cov div 32)) M \<and> w_level w2 = o_wal_level opts))"
proof -
  have g: "wal_geo w" using inv(1) by (simp add: wal_inv_def wal_win_def)
  note O = Wal_Open_restart [OF g again]
  note R = reopened_recoverable [OF inv crash cov len again]
  note X = reopened_same [OF R(2,3)]
  note S = stop_bounds(1,2) [OF R(1), unfolded R(2) X, folded M]
  have "\<exists>w2. Wal_Recover (reopened w d opts) cov fn st = Some (rc, st', w2)
    \<and> (rc = kSuccess \<longrightarrow> wal_inv w2 (take M log) (32 * (cov div 32)) M \<and> w_level w2 = o_wal_level opts \<and> dev_ok w2)"
    using Wal_Recover_ok [OF R(1) _ _ _ deliver] torn M R(2,4) X by auto
  then show ?thesis using O S by blast
qed

theorem wal_crash_recovery_witness:
  "\<exists>w1 w2. Wal_Open (wal_closed (sample_kdev 16384 sample_im1)) (sample_opts 4096) = (kSuccess, w1)
    \<and> Wal_Recover w1 0 collect [] = Some (kSuccess, [demo_entry], w2) \<and> wal_inv w2 (sample_log 1) 0 1"
proof -
  have l: "length (sample_log 1) + 2 ^ 32 < 2 ^ 64" by (simp add: sample_log_ok)
  have r: "restart sample_wal1 sample_im1 (sample_kdev 16384 sample_im1) (sample_opts 4096)"
    unfolding sample_wal1_def by (rule sample_restart) simp_all
  have t: "take 1 (sample_log 1) = sample_log 1" "sample_log 1 = [demo_entry]" by (simp_all add: sample_log_def)
  have d: "replay_log collect 0 (drop 0 (take 1 (sample_log 1))) [] = (kSuccess, [demo_entry])"
    unfolding t by (simp add: collect_def)
  have f: "fragments_of sample_im1 sample_wal1 (sample_log 1) 1 = 0
      \<or> 0 < (1 :: nat) \<and> erase_room sample_wal1 0 1" using sample1(6) by simp
  show ?thesis
    using wal_crash_recovery [OF sample1(1) _ sample1(3,4) _ _ l r sample1(5) [symmetric] f d] sample1(2) t(1)
    by auto
qed

text \<open>C8: recovery refuses a log whose first uncovered record is torn away while a later one of the
  same window survived, although no durable record is missing: opening then fails with
  \<open>kWalRecoveryCorrupted\<close>. (The sweep would have tolerated the same fragments behind any
  recovered record.)\<close>

theorem wal_recovery_refuses_torn_start:
  assumes inv: "wal_inv w log h m" "written w log \<le> m" and crash: "crash_image (w_dev w) im" "honest_ring im w log"
    and cov: "h \<le> cov" "cov \<le> m" and len: "length log + 2 ^ 32 < 2 ^ 64" and again: "restart w im d opts"
    and torn: "\<not> present im w log cov" "cov < k" "present im w log k"
  shows "cov = m \<and> (\<exists>w1 w2. Wal_Open (wal_closed d) opts = (kSuccess, w1)
    \<and> Wal_Recover w1 cov fn st = Some (kWalRecoveryCorrupted, st, w2))"
proof -
  have g: "wal_geo w" using inv(1) by (simp add: wal_inv_def wal_win_def)
  note O = Wal_Open_restart [OF g again]
  note R = reopened_recoverable [OF inv crash cov len again]
  note X = reopened_same [OF R(2,3)]
  have "cov = m"
  proof (rule ccontr)
    assume "cov \<noteq> m"
    then have "present (rd_contents (w_dev (reopened w d opts))) (reopened w d opts) log cov"
      using cov by (intro kept_present [OF R(1)]) auto
    then show False using torn(1) X R(2) by simp
  qed
  moreover have "\<not> present (rd_contents (w_dev (reopened w d opts))) (reopened w d opts) log cov"
    "present (rd_contents (w_dev (reopened w d opts))) (reopened w d opts) log k"
    using torn X R(2) by simp_all
  ultimately show ?thesis using O Wal_Recover_gap [OF R(1) _ torn(2), of fn st] by blast
qed

theorem wal_recovery_refuses_torn_start_witness:
  "\<exists>w1 w2. Wal_Open (wal_closed (sample_kdev 16384 sample_im2)) (sample_opts 4096) = (kSuccess, w1)
    \<and> Wal_Recover w1 0 collect [] = Some (kWalRecoveryCorrupted, [], w2)"
proof -
  have l: "length (sample_log 5) + 2 ^ 32 < 2 ^ 64" by (simp add: sample_log_ok)
  have r: "restart sample_wal2 sample_im2 (sample_kdev 16384 sample_im2) (sample_opts 4096)"
    unfolding sample_wal2_def by (rule sample_restart) simp_all
  have "written sample_wal2 (sample_log 5) \<le> 0" using sample2(2) by simp
  from wal_recovery_refuses_torn_start [OF sample2(1) this sample2(3,4) order_refl order_refl l r sample2(5) _ sample2(6)]
  show ?thesis by simp
qed

text \<open>C9: the erasure of torn fragments destroys live records when the zone behind the tail, one
  whole buffer long, reaches round the ring to them: recovery reports success and counts the
  record \<open>k\<close> as recovered, but its frame on the device is now zero and durable so, although no
  snapshot covers it.\<close>

theorem wal_erasure_destroys_live_record:
  assumes inv: "wal_inv w log h m" "written w log \<le> m" and crash: "crash_image (w_dev w) im" "honest_ring im w log"
    and cov: "h \<le> cov" "cov \<le> m" and len: "length log + 2 ^ 32 < 2 ^ 64" and again: "restart w im d opts"
    and M: "M = stop_at im w log cov" "cov < M" and torn: "0 < fragments_of im w log M"
    and deliver: "replay_log fn cov (drop cov (take M log)) st = (kSuccess, st')"
    and k: "cov \<le> k" "k < M"
    and zone: "slot_off w (32 * (M div 32)) + (if 0 < M mod 32 then 4096 else 0) \<le> slot_off w k"
      "slot_off w k + 128 \<le> min (slot_off w (32 * (M div 32)) + w_buf_size w) (w_ring_end w)"
  shows "kread im (slot_off w k) 128 = fb log k \<and> (\<exists>w1 w2. Wal_Open (wal_closed d) opts = (kSuccess, w1)
    \<and> Wal_Recover w1 cov fn st = Some (kSuccess, st', w2) \<and> w_seq_next w2 = M + 1
    \<and> kread (rd_durable (w_dev w2)) (slot_off w k) 128 = zeros 128)"
proof -
  have g: "wal_geo w" using inv(1) by (simp add: wal_inv_def wal_win_def)
  note O = Wal_Open_restart [OF g again]
  note R = reopened_recoverable [OF inv crash cov len again]
  note X = reopened_same [OF R(2,3)]
  have "present im w log k"
    using stop_bounds(5) [OF R(1), of k] k M(1) X R(2) by simp
  then have 1: "kread im (slot_off w k) 128 = fb log k" by (simp add: present_def slot_bytes_def)
  let ?w = "reopened w d opts"
  have e: "w_buf_size ?w = w_buf_size w" "w_ring_end ?w = w_ring_end w" by (simp_all add: reopened_def)
  have "\<exists>w2. Wal_Recover ?w cov fn st = Some (kSuccess, st', w2) \<and> w_seq_next w2 = M + 1
    \<and> kread (rd_durable (w_dev w2)) (slot_off ?w k) 128 = zeros 128"
    by (rule Wal_Recover_erases [OF R(1) _ M(2) _ deliver])
      (use M(1) torn zone X R(2,3) e in simp_all)
  then show ?thesis using O 1 R(3) by metis
qed

theorem wal_erasure_destroys_live_record_witness:
  "\<exists>w1 w2. Wal_Open (wal_closed (sample_kdev 16384 sample_im3)) (sample_opts 12288) = (kSuccess, w1)
    \<and> Wal_Recover w1 64 collect [] = Some (kSuccess, drop 64 (take 128 (sample_log 133)), w2)
    \<and> kread (rd_durable (w_dev w2)) 16384 128 = zeros 128"
proof -
  have l: "length (sample_log 133) + 2 ^ 32 < 2 ^ 64" by (simp add: sample_log_ok)
  have r: "restart sample_wal3 sample_im3 (sample_kdev 16384 sample_im3) (sample_opts 12288)"
    unfolding sample_wal3_def by (rule sample_restart) simp_all
  have d: "replay_log collect 64 (drop 64 (take 128 (sample_log 133))) []
      = (kSuccess, drop 64 (take 128 (sample_log 133)))"
    by (simp add: replay_collect)
  have w: "written sample_wal3 (sample_log 133) \<le> 128" using sample3(2) by simp
  have n: "(64 :: nat) \<le> 64" "(64 :: nat) \<le> 128" "(64 :: nat) < 128" by simp_all
  have z: "slot_off sample_wal3 (32 * (128 div 32)) + (if 0 < 128 mod (32 :: nat) then 4096 else 0) \<le> slot_off sample_wal3 64"
    "slot_off sample_wal3 64 + 128 \<le> min (slot_off sample_wal3 (32 * (128 div 32)) + w_buf_size sample_wal3) (w_ring_end sample_wal3)"
    by (simp_all add: sample3(7-10))
  show ?thesis
    using wal_erasure_destroys_live_record [OF sample3(1) w sample3(3,4) n(1,2) l r sample3(5) [symmetric] n(3)
        sample3(6) d n(1) n(3) z] sample3(8) by auto
qed

end
