(* ===== verification/Cabe_CommitGroup.thy ===== *)
theory Cabe_CommitGroup
  imports Cabe_Wal
begin

text \<open>
  \<open>wal/wal.cpp\<close>, the commit group: at the synchronous levels any number of threads may call
  \<open>WriteWal\<close>. A writer pushes a node of its own stack frame onto a lock-free stack; the one
  that found the stack empty tries to become the leader, takes the whole stack, writes the
  batch (\<open>ProcessBatch\<close> of \<open>Cabe_Wal\<close>) and fills the results in; the others wait on
  the epoch counter.

  The model is the interleaving of the threads' atomic operations: one step per load, exchange,
  compare-and-swap or wait. Threads are numbered; a thread has the list of the records it still
  has to write, its node while it is in \<open>WriteWal\<close>, and the answers it got. The stack of nodes
  is the list of their owners (a node is its owner's current stack frame, so comparing
  pointers is comparing owners, and a node pushed again by a later call is the same pointer).
  The leader alone touches the window and the device, so the whole of the batch's writing is
  one step. Not a step of the code but allowed by it: a weak compare-and-swap that fails and a
  sleeper that wakes for no reason (\<open>spurious_step\<close>); and the leader's look at the stack after
  a batch, an acquire load, may miss a push (\<open>recheck_none\<close> has no condition).
\<close>

section \<open>State\<close>

record WriterNode =
  wn_entry :: wal_entry
  wn_result :: "rc option"   \<comment> \<open>\<open>None\<close>: \<open>kWalResultPending\<close>\<close>

text \<open>Where a thread is. \<open>PushCas old\<close>: in the loop of \<open>PushWriter\<close> with the loaded top;
  \<open>Drain\<close> to \<open>Retake\<close>: in \<open>LeaderLoop\<close>; \<open>Check1\<close> to \<open>Asleep\<close>: in \<open>WaitResult\<close>, with the
  epoch it has seen.\<close>

datatype writer_pc =
    Outside | PushLoad | PushCas "nat option" | Elect
  | Drain | Process "nat list" | Backfill "(nat \<times> rc) list" | Publish | NotifyAll
  | Recheck | StepDown | LookAgain | Retake
  | Check1 | Snap | Check2 u64 | WaitOn u64 | Asleep u64

record writer =
  wr_pc :: writer_pc
  wr_node :: "WriterNode option"   \<comment> \<open>\<open>None\<close>: no call is running\<close>
  wr_todo :: "wal_entry list"
  wr_done :: "(wal_entry \<times> rc) list"

record CommitGroup =
  cg_stack_head :: "nat list"
  cg_epoch :: u64
  cg_leader_active :: bool
  cg_wal :: wal
  cg_writers :: nat
  cg_thr :: "nat \<Rightarrow> writer"

abbreviation pc :: "CommitGroup \<Rightarrow> nat \<Rightarrow> writer_pc" where
  "pc s t \<equiv> wr_pc (cg_thr s t)"

definition set_thr :: "nat \<Rightarrow> writer \<Rightarrow> CommitGroup \<Rightarrow> CommitGroup" where
  "set_thr t x s = s\<lparr>cg_thr := (cg_thr s)(t := x)\<rparr>"

definition goto :: "nat \<Rightarrow> writer_pc \<Rightarrow> CommitGroup \<Rightarrow> CommitGroup" where
  "goto t p s = set_thr t (cg_thr s t\<lparr>wr_pc := p\<rparr>) s"

definition stack_top :: "nat list \<Rightarrow> nat option" where
  "stack_top ns = (case ns of [] \<Rightarrow> None | n # _ \<Rightarrow> Some n)"

text \<open>The result of the thread's own node; a thread without a node has none.\<close>

definition result_of :: "CommitGroup \<Rightarrow> nat \<Rightarrow> rc option" where
  "result_of s t = Option.bind (wr_node (cg_thr s t)) wn_result"

section \<open>The parts of the protocol\<close>

text \<open>A call at a synchronous level: the checks before the push, then the node.\<close>

definition answer :: "nat \<Rightarrow> wal_entry \<Rightarrow> rc \<Rightarrow> CommitGroup \<Rightarrow> CommitGroup" where
  "answer t e r s = set_thr t (cg_thr s t\<lparr>wr_pc := Outside, wr_node := None,
     wr_done := wr_done (cg_thr s t) @ [(e, r)]\<rparr>) s"

definition pop_todo :: "nat \<Rightarrow> CommitGroup \<Rightarrow> CommitGroup" where
  "pop_todo t s = set_thr t (cg_thr s t\<lparr>wr_todo := tl (wr_todo (cg_thr s t))\<rparr>) s"

inductive call_step :: "nat \<Rightarrow> CommitGroup \<Rightarrow> CommitGroup \<Rightarrow> bool" where
  key_too_long: "pc s t = Outside \<Longrightarrow> wr_todo (cg_thr s t) = e # es \<Longrightarrow> kWalKeyMax < length (e_key e) \<Longrightarrow>
     call_step t s (answer t e kWalKeyTooLong (pop_todo t s))"
| no_buffer: "pc s t = Outside \<Longrightarrow> wr_todo (cg_thr s t) = e # es \<Longrightarrow> length (e_key e) \<le> kWalKeyMax \<Longrightarrow>
     w_buf (cg_wal s) = None \<Longrightarrow> call_step t s (answer t e kWalWriteFailed (pop_todo t s))"
| node: "pc s t = Outside \<Longrightarrow> wr_todo (cg_thr s t) = e # es \<Longrightarrow> length (e_key e) \<le> kWalKeyMax \<Longrightarrow>
     w_buf (cg_wal s) \<noteq> None \<Longrightarrow>
     call_step t s (set_thr t (cg_thr s t\<lparr>wr_pc := PushLoad, wr_todo := es,
       wr_node := Some \<lparr>wn_entry = e, wn_result = None\<rparr>\<rparr>) s)"
| elected: "pc s t = Elect \<Longrightarrow> \<not> cg_leader_active s \<Longrightarrow>
     call_step t s (goto t Drain (s\<lparr>cg_leader_active := True\<rparr>))"
| not_elected: "pc s t = Elect \<Longrightarrow> cg_leader_active s \<Longrightarrow> call_step t s (goto t Check1 s)"

text \<open>\<open>PushWriter\<close>: the compare-and-swap fails when the top is no longer the one loaded.\<close>

inductive push_step :: "nat \<Rightarrow> CommitGroup \<Rightarrow> CommitGroup \<Rightarrow> bool" where
  load: "pc s t = PushLoad \<Longrightarrow> push_step t s (goto t (PushCas (stack_top (cg_stack_head s))) s)"
| cas_fail: "pc s t = PushCas old \<Longrightarrow> old \<noteq> stack_top (cg_stack_head s) \<Longrightarrow>
     push_step t s (goto t (PushCas (stack_top (cg_stack_head s))) s)"
| cas: "pc s t = PushCas old \<Longrightarrow> old = stack_top (cg_stack_head s) \<Longrightarrow>
     push_step t s (goto t (if old = None then Elect else Check1)
       (s\<lparr>cg_stack_head := t # cg_stack_head s\<rparr>))"

text \<open>\<open>ReverseChain\<close>: the chain, newest first, into the order of arrival.\<close>

fun reverse_onto :: "nat list \<Rightarrow> nat list \<Rightarrow> nat list" where
  "reverse_onto [] prev = prev"
| "reverse_onto (n # ns) prev = reverse_onto ns (n # prev)"

definition ReverseChain :: "nat list \<Rightarrow> nat list" where
  "ReverseChain ns = reverse_onto ns []"

definition entry_of :: "CommitGroup \<Rightarrow> nat \<Rightarrow> wal_entry" where
  "entry_of s t = wn_entry (the (wr_node (cg_thr s t)))"

text \<open>The release store of one result, the last access to that node.\<close>

definition store_result :: "nat \<Rightarrow> rc \<Rightarrow> CommitGroup \<Rightarrow> CommitGroup" where
  "store_result n r s = set_thr n (cg_thr s n\<lparr>wr_node :=
     map_option (\<lambda>x. x\<lparr>wn_result := Some r\<rparr>) (wr_node (cg_thr s n))\<rparr>) s"

text \<open>\<open>notify_all\<close>: every sleeper looks at the epoch again.\<close>

definition wake :: "writer \<Rightarrow> writer" where
  "wake x = (case wr_pc x of Asleep e \<Rightarrow> x\<lparr>wr_pc := WaitOn e\<rparr> | _ \<Rightarrow> x)"

inductive leader_step :: "nat \<Rightarrow> CommitGroup \<Rightarrow> CommitGroup \<Rightarrow> bool" where
  drain_none: "pc s t = Drain \<Longrightarrow> cg_stack_head s = [] \<Longrightarrow> leader_step t s (goto t Recheck s)"
| drain: "pc s t = Drain \<Longrightarrow> cg_stack_head s \<noteq> [] \<Longrightarrow>
     leader_step t s (goto t (Process (ReverseChain (cg_stack_head s))) (s\<lparr>cg_stack_head := []\<rparr>))"
| batch: "pc s t = Process b \<Longrightarrow> ProcessBatch (map (entry_of s) b) (cg_wal s) = (rs, w') \<Longrightarrow>
     leader_step t s (goto t (Backfill (zip b rs)) (s\<lparr>cg_wal := w'\<rparr>))"
| fill: "pc s t = Backfill ((n, r) # ns) \<Longrightarrow> leader_step t s (store_result n r (goto t (Backfill ns) s))"
| filled: "pc s t = Backfill [] \<Longrightarrow> leader_step t s (goto t Publish s)"
| publish: "pc s t = Publish \<Longrightarrow> leader_step t s (goto t NotifyAll (s\<lparr>cg_epoch := cg_epoch s + 1\<rparr>))"
| notify_all: "pc s t = NotifyAll \<Longrightarrow>
     leader_step t s (goto t Recheck (s\<lparr>cg_thr := wake \<circ> cg_thr s\<rparr>))"
| recheck_more: "pc s t = Recheck \<Longrightarrow> cg_stack_head s \<noteq> [] \<Longrightarrow> leader_step t s (goto t Drain s)"
| recheck_none: "pc s t = Recheck \<Longrightarrow> leader_step t s (goto t StepDown s)"
| step_down: "pc s t = StepDown \<Longrightarrow>
     leader_step t s (goto t LookAgain (s\<lparr>cg_leader_active := False\<rparr>))"
| nothing_left: "pc s t = LookAgain \<Longrightarrow> cg_stack_head s = [] \<Longrightarrow> leader_step t s (goto t Check1 s)"
| something_left: "pc s t = LookAgain \<Longrightarrow> cg_stack_head s \<noteq> [] \<Longrightarrow> leader_step t s (goto t Retake s)"
| retaken: "pc s t = Retake \<Longrightarrow> \<not> cg_leader_active s \<Longrightarrow>
     leader_step t s (goto t Drain (s\<lparr>cg_leader_active := True\<rparr>))"
| taken_over: "pc s t = Retake \<Longrightarrow> cg_leader_active s \<Longrightarrow> leader_step t s (goto t Check1 s)"

text \<open>\<open>WaitResult\<close>: look, remember the epoch, look again, sleep while the epoch is the same.\<close>

inductive wait_step :: "nat \<Rightarrow> CommitGroup \<Rightarrow> CommitGroup \<Rightarrow> bool" where
  check1_done: "pc s t = Check1 \<Longrightarrow> result_of s t = Some r \<Longrightarrow> wait_step t s (answer t (entry_of s t) r s)"
| check1: "pc s t = Check1 \<Longrightarrow> result_of s t = None \<Longrightarrow> wait_step t s (goto t Snap s)"
| snap: "pc s t = Snap \<Longrightarrow> wait_step t s (goto t (Check2 (cg_epoch s)) s)"
| check2_done: "pc s t = Check2 e \<Longrightarrow> result_of s t = Some r \<Longrightarrow> wait_step t s (answer t (entry_of s t) r s)"
| check2: "pc s t = Check2 e \<Longrightarrow> result_of s t = None \<Longrightarrow> wait_step t s (goto t (WaitOn e) s)"
| sleep: "pc s t = WaitOn e \<Longrightarrow> cg_epoch s = e \<Longrightarrow> wait_step t s (goto t (Asleep e) s)"
| changed: "pc s t = WaitOn e \<Longrightarrow> cg_epoch s \<noteq> e \<Longrightarrow> wait_step t s (goto t Check1 s)"

text \<open>A step of the protocol is a step of one of the threads.\<close>

definition thread_step :: "nat \<Rightarrow> CommitGroup \<Rightarrow> CommitGroup \<Rightarrow> bool" where
  "thread_step t s s' \<longleftrightarrow> call_step t s s' \<or> push_step t s s' \<or> leader_step t s s' \<or> wait_step t s s'"

definition cg_step :: "CommitGroup \<Rightarrow> CommitGroup \<Rightarrow> bool" where
  "cg_step s s' \<longleftrightarrow> (\<exists>t < cg_writers s. thread_step t s s')"

inductive spurious_step :: "nat \<Rightarrow> CommitGroup \<Rightarrow> CommitGroup \<Rightarrow> bool" where
  weak_fail: "pc s t = PushCas old \<Longrightarrow> spurious_step t s (goto t (PushCas (stack_top (cg_stack_head s))) s)"
| wake_up: "pc s t = Asleep e \<Longrightarrow> spurious_step t s (goto t (WaitOn e) s)"

text \<open>The quiescent state: the stack empty, the epoch 0, nobody leading; every thread has its
  list of records to write.\<close>

definition cg_init :: "wal \<Rightarrow> wal_entry list list \<Rightarrow> CommitGroup" where
  "cg_init w progs = \<lparr>cg_stack_head = [], cg_epoch = 0, cg_leader_active = False, cg_wal = w,
     cg_writers = length progs,
     cg_thr = \<lambda>t. \<lparr>wr_pc = Outside, wr_node = None, wr_todo = (if t < length progs then progs ! t else []), wr_done = []\<rparr>\<rparr>"

inductive cg_reach :: "wal \<Rightarrow> wal_entry list list \<Rightarrow> CommitGroup \<Rightarrow> bool"
  for w :: wal and progs :: "wal_entry list list" where
  start: "cg_reach w progs (cg_init w progs)"
| step: "cg_reach w progs s \<Longrightarrow> cg_step s s' \<Longrightarrow> cg_reach w progs s'"
| spurious: "cg_reach w progs s \<Longrightarrow> t < cg_writers s \<Longrightarrow> spurious_step t s s' \<Longrightarrow> cg_reach w progs s'"

inductive_cases call_stepE: "call_step t s s'"
inductive_cases push_stepE: "push_step t s s'"
inductive_cases leader_stepE: "leader_step t s s'"
inductive_cases wait_stepE: "wait_step t s s'"
inductive_cases spurious_stepE: "spurious_step t s s'"

end
