(* ===== verification/Cabe_Threads.thy ===== *)
theory Cabe_Threads
  imports Cabe_Prelude "HOL-Library.Sublist"
begin

text \<open>
  What the two models of concurrency share: a measure of a state is a sum over its threads,
  compared lexicographically with two others, and histories are split by thread.
\<close>

lemma sum_fun_upd:
  fixes f :: "'a \<Rightarrow> nat" and t n :: nat
  assumes "t < n"
  shows "(\<Sum>u < n. f ((g(t := x)) u)) + f (g t) = (\<Sum>u < n. f (g u)) + f x"
proof -
  have "(\<Sum>u < n. f (g u)) = f (g t) + (\<Sum>u \<in> {..<n} - {t}. f (g u))"
    using assms by (subst sum.remove [of _ t]) auto
  moreover have "(\<Sum>u < n. f ((g(t := x)) u)) = f x + (\<Sum>u \<in> {..<n} - {t}. f ((g(t := x)) u))"
    using assms by (subst sum.remove [of _ t]) auto
  moreover have "(\<Sum>u \<in> {..<n} - {t}. f ((g(t := x)) u)) = (\<Sum>u \<in> {..<n} - {t}. f (g u))"
    by (rule sum.cong) auto
  ultimately show ?thesis by simp
qed

abbreviation lex3 :: "((nat \<times> nat \<times> nat) \<times> (nat \<times> nat \<times> nat)) set" where
  "lex3 \<equiv> less_than <*lex*> less_than <*lex*> less_than"

text \<open>Every step that lowers a measure in this order belongs to a run that ends.\<close>

lemma wf_lex3:
  assumes "\<And>s s'. step s s' \<Longrightarrow> (m s', m s) \<in> lex3"
  shows "wf {(s', s). step s s'}"
proof -
  have "wf (inv_image lex3 m)" by (intro wf_inv_image wf_lex_prod wf_less_than)
  then show ?thesis by (rule wf_subset) (auto intro: assms)
qed

text \<open>What thread \<open>t\<close> contributed to a history.\<close>

definition own :: "nat \<Rightarrow> (nat \<times> 'a) list \<Rightarrow> 'a list" where
  "own t hist = map snd (filter (\<lambda>x. fst x = t) hist)"

lemma own_Nil [simp]: "own t [] = []" by (simp add: own_def)

lemma own_append [simp]: "own t (a @ b) = own t a @ own t b" by (simp add: own_def)

lemma own_single [simp]: "own t [(u, x)] = (if u = t then [x] else [])" by (simp add: own_def)

lemma own_map:
  assumes "distinct b"
  shows "own t (map (\<lambda>n. (n, f n)) b) = (if t \<in> set b then [f t] else [])"
  using assms by (induction b) (auto simp: own_def)

lemma own_take:
  assumes "i < k" "i < length b"
  shows "subseq [f (b ! i)] (own (b ! i) (take k (map (\<lambda>n. (n, f n)) b)))"
proof -
  have "b ! i \<in> set (take k b)" using assms by (auto simp: in_set_conv_nth)
  then have "f (b ! i) \<in> set (own (b ! i) (map (\<lambda>n. (n, f n)) (take k b)))" by (force simp: own_def)
  then show ?thesis by (simp add: take_map subseq_singleton_left)
qed

lemma own_length: "(\<forall>x \<in> set hist. fst x < n) \<Longrightarrow> length hist = (\<Sum>t < n. length (own t hist))"
proof (induction hist)
  case (Cons x hist)
  have "(\<Sum>t < n. length (own t (x # hist))) = (\<Sum>t < n. (if t = fst x then 1 else 0) + length (own t hist))"
    by (rule sum.cong) (auto simp: own_def)
  also have "\<dots> = 1 + (\<Sum>t < n. length (own t hist))"
    using Cons.prems by (simp add: sum.distrib sum.delta')
  finally show ?case using Cons by simp
qed simp

end
