(* ===== verification/Cabe_CommitGroupRun.thy ===== *)
theory Cabe_CommitGroupRun
  imports Cabe_CommitGroup Cabe_Threads
begin

text \<open>
  The commit group always comes to an end: whatever the threads' interleaving, there is no
  infinite run. The measure is lexicographic: the work still to enter (records to write, nodes
  on the stack, batches to publish), the way of the threads in \<open>LeaderLoop\<close>, and the way of the
  others; the last may grow when the epoch changes and the second when the stack does.
\<close>

section \<open>Sums over the threads\<close>

definition sum_thr :: "(writer \<Rightarrow> nat) \<Rightarrow> CommitGroup \<Rightarrow> nat" where
  "sum_thr f s = (\<Sum>u < cg_writers s. f (cg_thr s u))"

lemma sum_thr_set_thr:
  "t < cg_writers s \<Longrightarrow> sum_thr f (set_thr t x s) + f (cg_thr s t) = sum_thr f s + f x"
  using sum_fun_upd [of t "cg_writers s" f "cg_thr s" x] by (simp add: sum_thr_def set_thr_def)

lemma sum_thr_goto:
  "t < cg_writers s \<Longrightarrow> sum_thr f (goto t p s) + f (cg_thr s t) = sum_thr f s + f (cg_thr s t\<lparr>wr_pc := p\<rparr>)"
  unfolding goto_def by (rule sum_thr_set_thr)

lemma sum_thr_fields [simp]:
  "sum_thr f (s\<lparr>cg_stack_head := ns\<rparr>) = sum_thr f s" "sum_thr f (s\<lparr>cg_leader_active := b\<rparr>) = sum_thr f s"
  "sum_thr f (s\<lparr>cg_wal := w\<rparr>) = sum_thr f s" "sum_thr f (s\<lparr>cg_epoch := e\<rparr>) = sum_thr f s"
  by (simp_all add: sum_thr_def)

lemma cg_fields [simp]:
  "cg_stack_head (set_thr t x s) = cg_stack_head s" "cg_leader_active (set_thr t x s) = cg_leader_active s"
  "cg_epoch (set_thr t x s) = cg_epoch s" "cg_wal (set_thr t x s) = cg_wal s"
  "cg_writers (set_thr t x s) = cg_writers s"
  "cg_stack_head (goto t p s) = cg_stack_head s" "cg_leader_active (goto t p s) = cg_leader_active s"
  "cg_epoch (goto t p s) = cg_epoch s" "cg_wal (goto t p s) = cg_wal s"
  "cg_writers (goto t p s) = cg_writers s"
  by (simp_all add: set_thr_def goto_def)

lemma thr_set_thr [simp]: "cg_thr (set_thr t x s) u = (if u = t then x else cg_thr s u)"
  by (simp add: set_thr_def)

lemma thr_goto [simp]: "cg_thr (goto t p s) u = (if u = t then cg_thr s t\<lparr>wr_pc := p\<rparr> else cg_thr s u)"
  by (simp add: goto_def)

section \<open>The measure\<close>

fun pushing :: "writer_pc \<Rightarrow> nat" where
  "pushing PushLoad = 1" | "pushing (PushCas _) = 1" | "pushing _ = 0"

fun publishing :: "writer_pc \<Rightarrow> nat" where
  "publishing (Process _) = 1" | "publishing (Backfill _) = 1" | "publishing Publish = 1" | "publishing _ = 0"

definition cost :: "writer \<Rightarrow> nat" where
  "cost x = 3 * length (wr_todo x) + 3 * pushing (wr_pc x) + publishing (wr_pc x)"

text \<open>What can still enter: an upper bound of the batches to come.\<close>

definition budget :: "CommitGroup \<Rightarrow> nat" where
  "budget s = sum_thr cost s + 2 * length (cg_stack_head s)"

fun way :: "bool \<Rightarrow> writer_pc \<Rightarrow> nat" where
  "way e (Process b) = 21 + length b" | "way e (Backfill ns) = 20 + length ns"
| "way e Publish = 19" | "way e NotifyAll = 18" | "way e Elect = 10"
| "way e Recheck = (if e then 6 else 9)" | "way e StepDown = (if e then 5 else 8)"
| "way e LookAgain = (if e then 4 else 7)" | "way e Retake = (if e then 8 else 6)"
| "way e Drain = (if e then 7 else 5)" | "way e _ = 0"

definition leading :: "CommitGroup \<Rightarrow> nat" where
  "leading s = sum_thr (\<lambda>x. way (cg_stack_head s = []) (wr_pc x)) s"

fun rest :: "u64 \<Rightarrow> nat option \<Rightarrow> writer_pc \<Rightarrow> nat" where
  "rest ep tp (Check2 e) = (if e = ep then 6 else 10)"
| "rest ep tp (WaitOn e) = (if e = ep then 5 else 9)"
| "rest ep tp (Asleep e) = 4" | "rest ep tp Snap = 7" | "rest ep tp Check1 = 8"
| "rest ep tp Outside = 3" | "rest ep tp PushLoad = 2" | "rest ep tp (PushCas old) = (if old = tp then 0 else 1)"
| "rest ep tp _ = 0"

definition waiting :: "CommitGroup \<Rightarrow> nat" where
  "waiting s = sum_thr (\<lambda>x. rest (cg_epoch s) (stack_top (cg_stack_head s)) (wr_pc x)) s"

definition cg_measure :: "CommitGroup \<Rightarrow> nat \<times> nat \<times> nat" where
  "cg_measure s = (budget s, leading s, waiting s)"

text \<open>A thread that only moves on: the third component pays, or the second, or the first.\<close>

lemma goto_wait:
  assumes "t < cg_writers s" "cost (cg_thr s t\<lparr>wr_pc := p\<rparr>) \<le> cost (cg_thr s t)"
    "way (cg_stack_head s = []) p \<le> way (cg_stack_head s = []) (pc s t)"
    "rest (cg_epoch s) (stack_top (cg_stack_head s)) p < rest (cg_epoch s) (stack_top (cg_stack_head s)) (pc s t)"
  shows "(cg_measure (goto t p s), cg_measure s) \<in> lex3"
  using sum_thr_goto [OF assms(1), of cost p] assms(2-)
    sum_thr_goto [OF assms(1), of "\<lambda>x. way (cg_stack_head s = []) (wr_pc x)" p]
    sum_thr_goto [OF assms(1), of "\<lambda>x. rest (cg_epoch s) (stack_top (cg_stack_head s)) (wr_pc x)" p]
  by (auto simp: cg_measure_def budget_def leading_def waiting_def)

lemma goto_lead:
  assumes "t < cg_writers s" "cg_stack_head s' = cg_stack_head s" "cg_writers s' = cg_writers s" "cg_thr s' = cg_thr s"
    "cost (cg_thr s t\<lparr>wr_pc := p\<rparr>) \<le> cost (cg_thr s t)"
    "way (cg_stack_head s = []) p < way (cg_stack_head s = []) (pc s t)"
  shows "(cg_measure (goto t p s'), cg_measure s) \<in> lex3"
proof -
  have e: "sum_thr f s' = sum_thr f s" for f by (simp add: sum_thr_def assms)
  show ?thesis
    using sum_thr_goto [of t s' cost p] sum_thr_goto [of t s' "\<lambda>x. way (cg_stack_head s = []) (wr_pc x)" p] assms e
    by (auto simp: cg_measure_def budget_def leading_def)
qed

lemma goto_enter:
  assumes "t < cg_writers s" "cg_writers s' = cg_writers s" "cg_thr s' = cg_thr s"
    "cost (cg_thr s t\<lparr>wr_pc := p\<rparr>) + 2 * length (cg_stack_head s') < cost (cg_thr s t) + 2 * length (cg_stack_head s)"
  shows "(cg_measure (goto t p s'), cg_measure s) \<in> lex3"
proof -
  have e: "sum_thr f s' = sum_thr f s" for f by (simp add: sum_thr_def assms)
  show ?thesis using sum_thr_goto [of t s' cost p] assms e by (auto simp: cg_measure_def budget_def)
qed

lemma push_step_measure: "push_step t s s' \<Longrightarrow> t < cg_writers s \<Longrightarrow> (cg_measure s', cg_measure s) \<in> lex3"
  by (erule push_stepE) (simp_all add: goto_wait goto_enter cost_def)

lemma sum_thr_answer:
  assumes "t < cg_writers s"
  shows "sum_thr f (answer t e r s) + f (cg_thr s t) = sum_thr f s + f (cg_thr s t\<lparr>wr_pc := Outside, wr_node := None,
     wr_done := wr_done (cg_thr s t) @ [(e, r)]\<rparr>)"
  unfolding answer_def using assms by (rule sum_thr_set_thr)

lemma answer_measure:
  assumes "t < cg_writers s" "pc s t = Check1 \<or> (\<exists>ep. pc s t = Check2 ep)"
  shows "(cg_measure (answer t e r s), cg_measure s) \<in> lex3"
proof -
  have f: "cg_stack_head (answer t e r s) = cg_stack_head s" "cg_epoch (answer t e r s) = cg_epoch s"
    by (simp_all add: answer_def)
  show ?thesis
    using sum_thr_answer [OF assms(1), of cost e r]
      sum_thr_answer [OF assms(1), of "\<lambda>x. way (cg_stack_head s = []) (wr_pc x)" e r]
      sum_thr_answer [OF assms(1), of "\<lambda>x. rest (cg_epoch s) (stack_top (cg_stack_head s)) (wr_pc x)" e r] assms(2)
    by (auto simp: cg_measure_def budget_def leading_def waiting_def f cost_def split: if_splits)
qed

lemma wait_step_measure: "wait_step t s s' \<Longrightarrow> t < cg_writers s \<Longrightarrow> (cg_measure s', cg_measure s) \<in> lex3"
  by (erule wait_stepE) (auto intro!: goto_wait answer_measure simp: cost_def)

lemma sum_thr_refuse:
  assumes "t < cg_writers s"
  shows "sum_thr f (answer t e r (pop_todo t s)) + f (cg_thr s t) = sum_thr f s + f (cg_thr s t\<lparr>wr_pc := Outside,
     wr_node := None, wr_todo := tl (wr_todo (cg_thr s t)), wr_done := wr_done (cg_thr s t) @ [(e, r)]\<rparr>)"
proof -
  have "answer t e r (pop_todo t s) = set_thr t (cg_thr s t\<lparr>wr_pc := Outside,
     wr_node := None, wr_todo := tl (wr_todo (cg_thr s t)), wr_done := wr_done (cg_thr s t) @ [(e, r)]\<rparr>) s"
    by (cases "cg_thr s t") (simp add: answer_def pop_todo_def set_thr_def)
  then show ?thesis using sum_thr_set_thr [OF assms] by simp
qed

lemma refuse_measure:
  assumes "t < cg_writers s" "wr_todo (cg_thr s t) = e # es" "pc s t = Outside"
  shows "(cg_measure (answer t e r (pop_todo t s)), cg_measure s) \<in> lex3"
proof -
  have f: "cg_stack_head (answer t e r (pop_todo t s)) = cg_stack_head s"
    by (simp add: answer_def pop_todo_def)
  show ?thesis
    using sum_thr_refuse [OF assms(1), of cost e r] assms(2,3)
    by (auto simp: cg_measure_def budget_def f cost_def)
qed

lemma call_step_measure:
  assumes "call_step t s s'" "t < cg_writers s"
  shows "(cg_measure s', cg_measure s) \<in> lex3"
  using assms(1)
proof cases
  case (node e es)
  let ?x = "cg_thr s t\<lparr>wr_pc := PushLoad, wr_todo := es, wr_node := Some \<lparr>wn_entry = e, wn_result = None\<rparr>\<rparr>"
  show ?thesis
    using node sum_thr_set_thr [OF assms(2), of cost ?x]
      sum_thr_set_thr [OF assms(2), of "\<lambda>x. way (cg_stack_head s = []) (wr_pc x)" ?x]
      sum_thr_set_thr [OF assms(2), of "\<lambda>x. rest (cg_epoch s) (stack_top (cg_stack_head s)) (wr_pc x)" ?x]
    by (auto simp: cg_measure_def budget_def leading_def waiting_def cost_def)
qed (use assms(2) in \<open>auto intro!: goto_lead refuse_measure simp: cost_def\<close>)

lemma store_result_sum:
  assumes "\<And>x y. wr_pc x = wr_pc y \<Longrightarrow> wr_todo x = wr_todo y \<Longrightarrow> f x = f y"
  shows "sum_thr f (store_result n r s) = sum_thr f s"
  unfolding sum_thr_def
  by (rule sum.cong) (auto simp: store_result_def intro!: assms)

lemma store_result_fields [simp]:
  "cg_stack_head (store_result n r s) = cg_stack_head s" "cg_epoch (store_result n r s) = cg_epoch s"
  "cg_leader_active (store_result n r s) = cg_leader_active s" "cg_wal (store_result n r s) = cg_wal s"
  "cg_writers (store_result n r s) = cg_writers s" "pc (store_result n r s) u = pc s u"
  "wr_todo (cg_thr (store_result n r s) u) = wr_todo (cg_thr s u)"
  by (simp_all add: store_result_def)

lemma store_result_measure [simp]: "cg_measure (store_result n r s) = cg_measure s"
proof -
  have 1: "sum_thr cost (store_result n r s) = sum_thr cost s"
    by (rule store_result_sum) (simp add: cost_def)
  have 2: "sum_thr (\<lambda>x. way b (wr_pc x)) (store_result n r s) = sum_thr (\<lambda>x. way b (wr_pc x)) s" for b
    by (rule store_result_sum) simp
  have 3: "sum_thr (\<lambda>x. rest ep tp (wr_pc x)) (store_result n r s) = sum_thr (\<lambda>x. rest ep tp (wr_pc x)) s" for ep tp
    by (rule store_result_sum) simp
  show ?thesis by (simp add: cg_measure_def budget_def leading_def waiting_def 1 2 3)
qed

lemma wake_simps [simp]:
  "cost (wake x) = cost x" "way b (wr_pc (wake x)) = way b (wr_pc x)" "wr_node (wake x) = wr_node x"
  "wr_todo (wake x) = wr_todo x" "wr_done (wake x) = wr_done x"
  by (simp_all add: wake_def cost_def split: writer_pc.splits)

lemma notify_measure:
  assumes "t < cg_writers s" "pc s t = NotifyAll"
  shows "(cg_measure (goto t Recheck (s\<lparr>cg_thr := wake \<circ> cg_thr s\<rparr>)), cg_measure s) \<in> lex3"
proof -
  let ?s = "s\<lparr>cg_thr := wake \<circ> cg_thr s\<rparr>"
  have t: "sum_thr cost ?s = sum_thr cost s" "sum_thr (\<lambda>x. way b (wr_pc x)) ?s = sum_thr (\<lambda>x. way b (wr_pc x)) s" for b
    by (simp_all add: sum_thr_def)
  have "wake (cg_thr s t) = cg_thr s t" using assms(2) by (simp add: wake_def)
  then show ?thesis
    using sum_thr_goto [of t ?s cost Recheck] sum_thr_goto [of t ?s "\<lambda>x. way (cg_stack_head s = []) (wr_pc x)" Recheck] t assms
    by (auto simp: cg_measure_def budget_def leading_def cost_def split: if_splits)
qed

lemma leader_step_measure:
  assumes "leader_step t s s'" "t < cg_writers s"
  shows "(cg_measure s', cg_measure s) \<in> lex3"
  using assms(1)
proof cases
  case drain
  then show ?thesis using assms(2) by (auto intro!: goto_enter simp: cost_def neq_Nil_conv)
next
  case publish
  then show ?thesis using assms(2) by (auto intro!: goto_enter simp: cost_def)
next
  case notify_all
  then show ?thesis using assms(2) notify_measure by simp
qed (use assms(2) in \<open>auto intro!: goto_lead simp: cost_def less_Suc_eq_le\<close>)

lemma cg_step_measure: "cg_step s s' \<Longrightarrow> (cg_measure s', cg_measure s) \<in> lex3"
  unfolding cg_step_def thread_step_def
  using call_step_measure push_step_measure leader_step_measure wait_step_measure by metis

lemma thread_step_budget: "thread_step t s s' \<Longrightarrow> t < cg_writers s \<Longrightarrow> budget s' \<le> budget s"
proof -
  assume "thread_step t s s'" "t < cg_writers s"
  then have "cg_step s s'" by (auto simp: cg_step_def)
  from cg_step_measure [OF this] show ?thesis by (auto simp: cg_measure_def)
qed

section \<open>Properties\<close>

text \<open>C15: the commit group has no infinite run. However the threads are interleaved, only finitely
  many steps are possible, apart from compare-and-swaps that fail and sleepers that wake for
  no reason.\<close>

theorem commit_group_terminates: "wf {(s', s). cg_step s s'}"
  by (rule wf_lex3 [of cg_step cg_measure]) (rule cg_step_measure)

end
