(* ===== verification/Cabe_CommitGroupInv.thy ===== *)
theory Cabe_CommitGroupInv
  imports Cabe_CommitGroupRun
begin

text \<open>
  The invariant of the commit group: one leader at a time, every node in one place, no node
  touched after its owner left, nobody forgotten on the stack, nobody asleep without someone
  who will wake it. The invariant is stated over what the protocol uses (where each thread is,
  the state of its node, the stack, the leader), so that each step is an update of these.
\<close>

section \<open>Where nodes are\<close>

text \<open>The threads that own the window; those that are in \<open>WaitResult\<close> or \<open>LeaderLoop\<close>, that is
  whose node was pushed; those that may still become the leader; those whose own record is
  done although they have not looked.\<close>

fun holds :: "writer_pc \<Rightarrow> bool" where
  "holds Drain = True" | "holds (Process _) = True" | "holds (Backfill _) = True" | "holds Publish = True"
| "holds NotifyAll = True" | "holds Recheck = True" | "holds StepDown = True" | "holds _ = False"

definition pushed :: "writer_pc \<Rightarrow> bool" where
  "pushed p \<longleftrightarrow> p \<noteq> Outside \<and> pushing p = 0"

fun candidate :: "writer_pc \<Rightarrow> bool" where
  "candidate Elect = True" | "candidate LookAgain = True" | "candidate Retake = True" | "candidate _ = False"

fun settled :: "writer_pc \<Rightarrow> bool" where
  "settled Publish = True" | "settled NotifyAll = True" | "settled Recheck = True" | "settled StepDown = True"
| "settled LookAgain = True" | "settled Retake = True" | "settled _ = False"

fun batch_of :: "writer_pc \<Rightarrow> nat list" where
  "batch_of (Process b) = b" | "batch_of (Backfill ns) = map fst ns" | "batch_of _ = []"

fun working :: "writer_pc \<Rightarrow> bool" where
  "working (Process _) = True" | "working (Backfill _) = True" | "working _ = False"

definition batch :: "(nat \<Rightarrow> writer_pc) \<Rightarrow> nat option \<Rightarrow> nat list" where
  "batch pcf ld = (case ld of None \<Rightarrow> [] | Some l \<Rightarrow> batch_of (pcf l))"

lemma batch_simps [simp]: "batch pcf None = []" "batch pcf (Some l) = batch_of (pcf l)"
  by (simp_all add: batch_def)

text \<open>\<open>nod t\<close>: the node of thread \<open>t\<close>, \<open>None\<close> when there is none, and in it the result.\<close>

definition cg_ok ::
  "(nat \<Rightarrow> writer_pc) \<Rightarrow> (nat \<Rightarrow> rc option option) \<Rightarrow> nat list \<Rightarrow> nat option \<Rightarrow> bool" where
  "cg_ok pcf nod stk ld \<longleftrightarrow>
     (\<forall>t. holds (pcf t) \<longleftrightarrow> ld = Some t)
   \<and> distinct (stk @ batch pcf ld)
   \<and> (\<forall>t \<in> set (stk @ batch pcf ld). pushed (pcf t) \<and> nod t = Some None)
   \<and> (\<forall>t. pushed (pcf t) \<longrightarrow> t \<notin> set (stk @ batch pcf ld) \<longrightarrow> (\<exists>r. nod t = Some (Some r)))
   \<and> (\<forall>t. nod t = None \<longleftrightarrow> pcf t = Outside)
   \<and> (\<forall>t. pushing (pcf t) = 1 \<longrightarrow> nod t = Some None)
   \<and> (\<forall>t. settled (pcf t) \<longrightarrow> t \<notin> set (stk @ batch pcf ld))
   \<and> (\<forall>t. working (pcf t) \<longrightarrow> t \<notin> set stk)
   \<and> (stk \<noteq> [] \<longrightarrow> ld \<noteq> None \<or> (\<exists>t. candidate (pcf t)))"

lemma cg_okD:
  assumes "cg_ok pcf nod stk ld"
  shows "holds (pcf t) \<longleftrightarrow> ld = Some t" "distinct stk" "distinct (batch pcf ld)"
    "t \<in> set stk \<Longrightarrow> t \<notin> set (batch pcf ld)"
    "t \<in> set stk \<or> t \<in> set (batch pcf ld) \<Longrightarrow> pushed (pcf t) \<and> nod t = Some None"
    "pushed (pcf t) \<Longrightarrow> t \<notin> set stk \<Longrightarrow> t \<notin> set (batch pcf ld) \<Longrightarrow> \<exists>r. nod t = Some (Some r)"
    "nod t = None \<longleftrightarrow> pcf t = Outside" "pushing (pcf t) = 1 \<Longrightarrow> nod t = Some None"
    "settled (pcf t) \<Longrightarrow> t \<notin> set stk \<and> t \<notin> set (batch pcf ld)"
    "working (pcf t) \<Longrightarrow> t \<notin> set stk"
    "stk \<noteq> [] \<Longrightarrow> ld \<noteq> None \<or> (\<exists>t. candidate (pcf t))"
  using assms unfolding cg_ok_def by (auto simp: disjoint_iff)

lemma holds_pushed: "holds p \<Longrightarrow> pushed p \<and> pushing p = 0"
  by (cases p) (simp_all add: pushed_def)

lemma pushing_cases: "pushing p = 0 \<or> pushing p = 1"
  by (cases p) auto

text \<open>A thread that is not the leader moves without touching a node: from outside, from one
  waiting place to another, into and out of the election.\<close>

lemma batch_other: "ld \<noteq> Some t \<Longrightarrow> batch (pcf(t := p)) ld = batch pcf ld"
  by (simp add: batch_def split: option.splits)

lemma cg_ok_move:
  assumes ok: "cg_ok pcf nod stk ld" and t: "ld \<noteq> Some t" "\<not> holds p"
    and p: "pushed p \<longleftrightarrow> pushed (pcf t)" "p = Outside \<longleftrightarrow> pcf t = Outside"
    and s: "settled p \<Longrightarrow> settled (pcf t)" and c: "candidate (pcf t) \<and> \<not> candidate p \<Longrightarrow> ld \<noteq> None \<or> stk = []"
  shows "cg_ok (pcf(t := p)) nod stk ld"
proof -
  note D = cg_okD [OF ok]
  have b: "\<not> working p" using t(2) by (cases p) simp_all
  have pu: "pushing p = pushing (pcf t)"
    using p pushing_cases [of p] pushing_cases [of "pcf t"] by (auto simp: pushed_def)
  have e: "stk \<noteq> [] \<Longrightarrow> ld \<noteq> None \<or> (\<exists>u. candidate ((pcf(t := p)) u))"
    using D(11) c by (metis fun_upd_apply)
  show ?thesis
    unfolding cg_ok_def batch_other [OF t(1)]
  proof (intro conjI allI ballI impI)
    fix u assume "u \<in> set (stk @ batch pcf ld)"
    then show "pushed ((pcf(t := p)) u)" "nod u = Some None" using D(5) [of u] p by auto
  next
    fix u assume "pushed ((pcf(t := p)) u)" "u \<notin> set (stk @ batch pcf ld)"
    then show "\<exists>r. nod u = Some (Some r)" using D(6) [of u] p by (auto split: if_splits)
  next
    fix u show "(nod u = None) = ((pcf(t := p)) u = Outside)" using D(7) [of u] p by auto
  next
    fix u assume "pushing ((pcf(t := p)) u) = 1"
    then show "nod u = Some None" using D(8) [of u] pu by (auto split: if_splits)
  next
    fix u assume "settled ((pcf(t := p)) u)"
    then show "u \<notin> set (stk @ batch pcf ld)" using D(9) [of u] s by (auto split: if_splits)
  next
    fix u assume "working ((pcf(t := p)) u)"
    then show "u \<notin> set stk" using D(10) [of u] b by (auto split: if_splits)
  next
    assume "stk \<noteq> []" then show "ld \<noteq> None \<or> (\<exists>u. candidate ((pcf(t := p)) u))" by (rule e)
  qed (use D(1-4) t in \<open>auto simp: disjoint_iff\<close>)
qed

text \<open>The leader moves: its batch changes to \<open>batch_of p\<close>, possibly losing the stack or a node.\<close>

lemma cg_ok_leader:
  assumes ok: "cg_ok pcf nod stk (Some t)" and p: "holds p"
    and b: "distinct (stk' @ batch_of p)" "set (stk' @ batch_of p) = set (stk @ batch_of (pcf t))"
    and s: "settled p \<Longrightarrow> t \<notin> set stk \<and> batch_of (pcf t) = []"
    and o': "working p \<Longrightarrow> t \<notin> set stk'" and sub: "set stk' \<subseteq> set stk"
  shows "cg_ok (pcf(t := p)) nod stk' (Some t)"
proof -
  note D = cg_okD [OF ok, simplified]
  have h: "holds (pcf t)" using D(1) by blast
  have pu: "pushed p" "pushed (pcf t)" "pushing p = 0"
    using holds_pushed [OF p] holds_pushed [OF h] by simp_all
  have e: "set (stk' @ batch (pcf(t := p)) (Some t)) = set (stk @ batch pcf (Some t))" using b(2) by simp
  have ne: "p \<noteq> Outside" "pcf t \<noteq> Outside" using pu by (auto simp: pushed_def)
  show ?thesis
    unfolding cg_ok_def e
  proof (intro conjI allI ballI impI)
    fix u show "holds ((pcf(t := p)) u) = (Some t = Some u)" using D(1) [of u] p by auto
  next
    show "distinct (stk' @ batch (pcf(t := p)) (Some t))" using b(1) by simp
  next
    fix u assume "u \<in> set (stk @ batch pcf (Some t))"
    then show "pushed ((pcf(t := p)) u)" "nod u = Some None" using D(5) [of u] pu by auto
  next
    fix u assume "pushed ((pcf(t := p)) u)" "u \<notin> set (stk @ batch pcf (Some t))"
    then show "\<exists>r. nod u = Some (Some r)" using D(6) [of u] pu by (auto split: if_splits)
  next
    fix u show "(nod u = None) = ((pcf(t := p)) u = Outside)" using D(7) [of u] ne by auto
  next
    fix u assume "pushing ((pcf(t := p)) u) = 1"
    then show "nod u = Some None" using D(8) [of u] pu(3) by (auto split: if_splits)
  next
    fix u assume "settled ((pcf(t := p)) u)"
    then show "u \<notin> set (stk @ batch pcf (Some t))" using D(9) [of u] s by (auto split: if_splits)
  next
    fix u assume u: "working ((pcf(t := p)) u)"
    show "u \<notin> set stk'"
    proof (cases "u = t")
      case True then show ?thesis using u o' by simp
    next
      case False then show ?thesis using u D(10) [of u] sub by auto
    qed
  qed simp
qed

text \<open>A node goes onto the stack, an answered writer leaves, a call begins, the leader fills a
  result in, leadership is taken and given up.\<close>

lemma cg_ok_push:
  assumes ok: "cg_ok pcf nod stk ld" and t: "pushing (pcf t) = 1"
    and p: "p = Check1 \<and> stk \<noteq> [] \<or> p = Elect"
  shows "cg_ok (pcf(t := p)) nod (t # stk) ld"
proof -
  note D = cg_okD [OF ok]
  have nh: "ld \<noteq> Some t" "\<not> pushed (pcf t)" using D(1) [of t] t holds_pushed [of "pcf t"] by (auto simp: pushed_def)
  have tn: "t \<notin> set stk" "t \<notin> set (batch pcf ld)" "nod t = Some None" using D(5) [of t] nh(2) D(8) t by auto
  have P: "\<not> holds p" "pushed p" "p \<noteq> Outside" "pushing p \<noteq> 1" "\<not> settled p" "\<not> working p"
    using p by (auto simp: pushed_def)
  have po: "pcf t \<noteq> Outside" "\<not> candidate (pcf t)" using t by (cases "pcf t"; simp)+
  have e: "ld \<noteq> None \<or> (\<exists>u. candidate ((pcf(t := p)) u))"
  proof (cases "p = Elect")
    case True then show ?thesis by (intro disjI2 exI [of _ t]) simp
  next
    case False
    then have "ld \<noteq> None \<or> (\<exists>u. candidate (pcf u))" using p D(11) by blast
    then show ?thesis using po(2) by (metis fun_upd_apply)
  qed
  show ?thesis
    unfolding cg_ok_def batch_other [OF nh(1)]
  proof (intro conjI allI ballI impI)
    fix u show "holds ((pcf(t := p)) u) = (ld = Some u)" using D(1) [of u] nh P by auto
  next
    show "distinct ((t # stk) @ batch pcf ld)" using D(2-4) tn by (auto simp: disjoint_iff)
  next
    fix u assume "u \<in> set ((t # stk) @ batch pcf ld)"
    then show "pushed ((pcf(t := p)) u)" "nod u = Some None" using D(5) [of u] P tn by auto
  next
    fix u assume "pushed ((pcf(t := p)) u)" "u \<notin> set ((t # stk) @ batch pcf ld)"
    then show "\<exists>r. nod u = Some (Some r)" using D(6) [of u] by (auto split: if_splits)
  next
    fix u show "(nod u = None) = ((pcf(t := p)) u = Outside)" using D(7) [of u] P po by auto
  next
    fix u assume "pushing ((pcf(t := p)) u) = 1"
    then show "nod u = Some None" using D(8) [of u] P by (auto split: if_splits)
  next
    fix u assume "settled ((pcf(t := p)) u)"
    then show "u \<notin> set ((t # stk) @ batch pcf ld)" using D(9) [of u] P by (auto split: if_splits)
  next
    fix u assume "working ((pcf(t := p)) u)"
    then show "u \<notin> set (t # stk)" using D(10) [of u] P by (auto split: if_splits)
  qed (rule e)
qed

lemma cg_ok_leave:
  assumes ok: "cg_ok pcf nod stk ld" and t: "pcf t = Check1 \<or> (\<exists>e. pcf t = Check2 e)" "nod t = Some (Some r)"
  shows "cg_ok (pcf(t := Outside)) (nod(t := None)) stk ld"
proof -
  note D = cg_okD [OF ok]
  have nh: "ld \<noteq> Some t" "pushed (pcf t)" "\<not> candidate (pcf t)" using D(1) [of t] t(1) by (auto simp: pushed_def)
  have tn: "t \<notin> set stk" "t \<notin> set (batch pcf ld)" using D(5) [of t] t(2) by auto
  show ?thesis
    unfolding cg_ok_def batch_other [OF nh(1)]
  proof (intro conjI allI ballI impI)
    fix u assume u: "u \<in> set (stk @ batch pcf ld)"
    then have "u \<noteq> t" using tn by auto
    then show "pushed ((pcf(t := Outside)) u)" "(nod(t := None)) u = Some None" using D(5) [of u] u by auto
  next
    fix u assume "pushed ((pcf(t := Outside)) u)" "u \<notin> set (stk @ batch pcf ld)"
    then show "\<exists>r. (nod(t := None)) u = Some (Some r)"
      using D(6) [of u] by (auto simp: pushed_def split: if_splits)
  next
    fix u show "((nod(t := None)) u = None) = ((pcf(t := Outside)) u = Outside)" using D(7) [of u] by auto
  next
    fix u assume "pushing ((pcf(t := Outside)) u) = 1"
    then show "(nod(t := None)) u = Some None" using D(8) [of u] by (auto split: if_splits)
  next
    fix u assume "settled ((pcf(t := Outside)) u)"
    then show "u \<notin> set (stk @ batch pcf ld)" using D(9) [of u] by (auto split: if_splits)
  next
    fix u assume "working ((pcf(t := Outside)) u)"
    then show "u \<notin> set stk" using D(10) [of u] by (auto split: if_splits)
  next
    assume "stk \<noteq> []"
    then show "ld \<noteq> None \<or> (\<exists>u. candidate ((pcf(t := Outside)) u))" using D(11) nh(3) by (metis fun_upd_apply)
  next
    fix u show "holds ((pcf(t := Outside)) u) = (ld = Some u)" using D(1) [of u] nh by auto
  qed (use D(1-4) nh in \<open>auto simp: disjoint_iff\<close>)
qed

lemma cg_ok_call:
  assumes ok: "cg_ok pcf nod stk ld" and t: "pcf t = Outside"
  shows "cg_ok (pcf(t := PushLoad)) (nod(t := Some None)) stk ld"
proof -
  note D = cg_okD [OF ok]
  have nh: "ld \<noteq> Some t" "\<not> pushed (pcf t)" "\<not> candidate (pcf t)" using D(1) [of t] t(1) by (auto simp: pushed_def)
  have tn: "t \<notin> set stk" "t \<notin> set (batch pcf ld)" using D(5) [of t] nh by auto
  show ?thesis
    unfolding cg_ok_def batch_other [OF nh(1)]
  proof (intro conjI allI ballI impI)
    fix u assume u: "u \<in> set (stk @ batch pcf ld)"
    then have "u \<noteq> t" using tn by auto
    then show "pushed ((pcf(t := PushLoad)) u)" "(nod(t := Some None)) u = Some None" using D(5) [of u] u by auto
  next
    fix u assume "pushed ((pcf(t := PushLoad)) u)" "u \<notin> set (stk @ batch pcf ld)"
    then show "\<exists>r. (nod(t := Some None)) u = Some (Some r)"
      using D(6) [of u] by (auto simp: pushed_def split: if_splits)
  next
    fix u show "((nod(t := Some None)) u = None) = ((pcf(t := PushLoad)) u = Outside)" using D(7) [of u] by auto
  next
    fix u assume "pushing ((pcf(t := PushLoad)) u) = 1"
    then show "(nod(t := Some None)) u = Some None" using D(8) [of u] by (auto split: if_splits)
  next
    fix u assume "settled ((pcf(t := PushLoad)) u)"
    then show "u \<notin> set (stk @ batch pcf ld)" using D(9) [of u] by (auto split: if_splits)
  next
    fix u assume "working ((pcf(t := PushLoad)) u)"
    then show "u \<notin> set stk" using D(10) [of u] by (auto split: if_splits)
  next
    assume "stk \<noteq> []"
    then show "ld \<noteq> None \<or> (\<exists>u. candidate ((pcf(t := PushLoad)) u))" using D(11) nh(3) by (metis fun_upd_apply)
  next
    fix u show "holds ((pcf(t := PushLoad)) u) = (ld = Some u)" using D(1) [of u] nh by auto
  qed (use D(1-4) nh in \<open>auto simp: disjoint_iff\<close>)
qed

lemma cg_ok_reload:
  assumes ok: "cg_ok pcf nod stk ld" and t: "pushing (pcf t) = 1"
  shows "cg_ok (pcf(t := PushCas old)) nod stk ld"
proof (rule cg_ok_move [OF ok])
  show "ld \<noteq> Some t" using cg_okD(1) [OF ok, of t] t holds_pushed [of "pcf t"] by auto
qed (use t in \<open>auto simp: pushed_def\<close>, (cases "pcf t"; simp)+)

lemma cg_ok_fill:
  assumes ok: "cg_ok pcf nod stk (Some t)" and t: "pcf t = Backfill ((n, r) # ns)"
  shows "cg_ok (pcf(t := Backfill ns)) (nod(n := Some (Some r))) stk (Some t)"
proof -
  note D = cg_okD [OF ok, simplified]
  have b: "n \<notin> set stk" "n \<notin> fst ` set ns" "pushed (pcf n)" "distinct (map fst ns)"
    "t \<notin> set stk" "distinct stk" "\<And>u. u \<in> fst ` set ns \<Longrightarrow> u \<notin> set stk"
    using D(2,3) D(4) [of n] D(5) [of n] D(10) [of t] t D(4) by auto
  show ?thesis
    unfolding cg_ok_def
  proof (intro conjI allI ballI impI)
    fix u show "holds ((pcf(t := Backfill ns)) u) = (Some t = Some u)" using D(1) [of u] by auto
  next
    show "distinct (stk @ batch (pcf(t := Backfill ns)) (Some t))" using b by (auto simp: disjoint_iff)
  next
    fix u assume u: "u \<in> set (stk @ batch (pcf(t := Backfill ns)) (Some t))"
    then have "u \<noteq> n" "pushed (pcf u)" "nod u = Some None" using b D(5) [of u] t by auto
    then show "pushed ((pcf(t := Backfill ns)) u)" "(nod(n := Some (Some r))) u = Some None"
      by (auto simp: pushed_def)
  next
    fix u assume "pushed ((pcf(t := Backfill ns)) u)" "u \<notin> set (stk @ batch (pcf(t := Backfill ns)) (Some t))"
    then show "\<exists>r'. (nod(n := Some (Some r))) u = Some (Some r')"
      using D(6) [of u] t by (cases "u = t") (auto simp: pushed_def)
  next
    fix u show "((nod(n := Some (Some r))) u = None) = ((pcf(t := Backfill ns)) u = Outside)"
      using D(7) [of u] b(3) t by (auto simp: pushed_def)
  next
    fix u assume "pushing ((pcf(t := Backfill ns)) u) = 1"
    then show "(nod(n := Some (Some r))) u = Some None"
      using D(8) [of u] b(3) by (auto simp: pushed_def split: if_splits)
  next
    fix u assume "settled ((pcf(t := Backfill ns)) u)"
    then show "u \<notin> set (stk @ batch (pcf(t := Backfill ns)) (Some t))"
      using D(9) [of u] t by (auto split: if_splits)
  next
    fix u assume "working ((pcf(t := Backfill ns)) u)"
    then show "u \<notin> set stk" using D(10) [of u] b(5) by (auto split: if_splits)
  qed simp
qed

lemma cg_ok_take:
  assumes ok: "cg_ok pcf nod stk None" and t: "pcf t = Elect \<or> pcf t = Retake"
  shows "cg_ok (pcf(t := Drain)) nod stk (Some t)"
proof -
  note D = cg_okD [OF ok, simplified]
  show ?thesis
    unfolding cg_ok_def
  proof (intro conjI allI ballI impI)
    fix u show "holds ((pcf(t := Drain)) u) = (Some t = Some u)" using D(1) [of u] by auto
  next
    show "distinct (stk @ batch (pcf(t := Drain)) (Some t))" using D(2) by simp
  next
    fix u assume u: "u \<in> set (stk @ batch (pcf(t := Drain)) (Some t))"
    then show "pushed ((pcf(t := Drain)) u)" "nod u = Some None" using D(5) [of u] by (auto simp: pushed_def)
  next
    fix u assume "pushed ((pcf(t := Drain)) u)" "u \<notin> set (stk @ batch (pcf(t := Drain)) (Some t))"
    then show "\<exists>r. nod u = Some (Some r)"
      using D(6) [of u] t by (cases "u = t") (auto simp: pushed_def)
  next
    fix u show "(nod u = None) = ((pcf(t := Drain)) u = Outside)" using D(7) [of u] t by auto
  next
    fix u assume "pushing ((pcf(t := Drain)) u) = 1"
    then show "nod u = Some None" using D(8) [of u] by (auto split: if_splits)
  next
    fix u assume "settled ((pcf(t := Drain)) u)"
    then show "u \<notin> set (stk @ batch (pcf(t := Drain)) (Some t))" using D(9) [of u] by (auto split: if_splits)
  next
    fix u assume "working ((pcf(t := Drain)) u)"
    then show "u \<notin> set stk" using D(10) [of u] by (auto split: if_splits)
  qed simp
qed

lemma cg_ok_release:
  assumes ok: "cg_ok pcf nod stk (Some t)" and t: "pcf t = StepDown"
  shows "cg_ok (pcf(t := LookAgain)) nod stk None"
proof -
  note D = cg_okD [OF ok, simplified]
  show ?thesis
    unfolding cg_ok_def
  proof (intro conjI allI ballI impI)
    fix u show "holds ((pcf(t := LookAgain)) u) = (None = Some u)" using D(1) [of u] by auto
  next
    show "distinct (stk @ batch (pcf(t := LookAgain)) None)" using D(2) by simp
  next
    fix u assume u: "u \<in> set (stk @ batch (pcf(t := LookAgain)) None)"
    then show "pushed ((pcf(t := LookAgain)) u)" "nod u = Some None" using D(5) [of u] by (auto simp: pushed_def)
  next
    fix u assume "pushed ((pcf(t := LookAgain)) u)" "u \<notin> set (stk @ batch (pcf(t := LookAgain)) None)"
    then show "\<exists>r. nod u = Some (Some r)"
      using D(6) [of u] t by (cases "u = t") (auto simp: pushed_def)
  next
    fix u show "(nod u = None) = ((pcf(t := LookAgain)) u = Outside)" using D(7) [of u] t by auto
  next
    fix u assume "pushing ((pcf(t := LookAgain)) u) = 1"
    then show "nod u = Some None" using D(8) [of u] by (auto split: if_splits)
  next
    fix u assume "settled ((pcf(t := LookAgain)) u)"
    then show "u \<notin> set (stk @ batch (pcf(t := LookAgain)) None)"
      using D(9) [of u] D(9) [of t] t by (auto split: if_splits)
  next
    fix u assume "working ((pcf(t := LookAgain)) u)"
    then show "u \<notin> set stk" using D(10) [of u] by (auto split: if_splits)
  next
    show "None \<noteq> None \<or> (\<exists>u. candidate ((pcf(t := LookAgain)) u))" by (intro disjI2 exI [of _ t]) simp
  qed
qed

text \<open>The protocol only looks at these kinds of places, so waking the sleepers changes nothing.\<close>

lemma cg_ok_cong:
  assumes "cg_ok pcf nod stk ld" "\<And>u. holds (pcf' u) = holds (pcf u)" "\<And>u. pushed (pcf' u) = pushed (pcf u)"
    "\<And>u. (pcf' u = Outside) = (pcf u = Outside)" "\<And>u. pushing (pcf' u) = pushing (pcf u)"
    "\<And>u. settled (pcf' u) = settled (pcf u)" "\<And>u. working (pcf' u) = working (pcf u)"
    "\<And>u. candidate (pcf' u) = candidate (pcf u)" "\<And>u. batch_of (pcf' u) = batch_of (pcf u)"
  shows "cg_ok pcf' nod stk ld"
proof -
  have "batch pcf' ld = batch pcf ld" using assms(9) by (simp add: batch_def split: option.splits)
  then show ?thesis using assms unfolding cg_ok_def by simp
qed

section \<open>The invariant of a state\<close>

definition pcs :: "CommitGroup \<Rightarrow> nat \<Rightarrow> writer_pc" where
  "pcs s t = pc s t"

definition nods :: "CommitGroup \<Rightarrow> nat \<Rightarrow> rc option option" where
  "nods s t = map_option wn_result (wr_node (cg_thr s t))"

lemma view_goto [simp]: "pcs (goto t p s) = (pcs s)(t := p)" "nods (goto t p s) = nods s"
  by (simp_all add: pcs_def nods_def fun_eq_iff)

lemma view_set_thr:
  "pcs (set_thr t x s) = (pcs s)(t := wr_pc x)" "nods (set_thr t x s) = (nods s)(t := map_option wn_result (wr_node x))"
  by (simp_all add: pcs_def nods_def fun_eq_iff)

lemma view_answer [simp]:
  "pcs (answer t e r s) = (pcs s)(t := Outside)" "nods (answer t e r s) = (nods s)(t := None)"
  "cg_stack_head (answer t e r s) = cg_stack_head s" "cg_leader_active (answer t e r s) = cg_leader_active s"
  "cg_writers (answer t e r s) = cg_writers s" "cg_epoch (answer t e r s) = cg_epoch s"
  "cg_wal (answer t e r s) = cg_wal s" "wr_todo (cg_thr (answer t e r s) u) = wr_todo (cg_thr s u)"
  by (simp_all add: answer_def view_set_thr)

lemma view_pop_todo [simp]:
  "pcs (pop_todo t s) = pcs s" "nods (pop_todo t s) = nods s"
  "cg_stack_head (pop_todo t s) = cg_stack_head s" "cg_leader_active (pop_todo t s) = cg_leader_active s"
  "cg_writers (pop_todo t s) = cg_writers s" "cg_epoch (pop_todo t s) = cg_epoch s"
  "cg_wal (pop_todo t s) = cg_wal s"
  "wr_todo (cg_thr (pop_todo t s) u) = (if u = t then tl (wr_todo (cg_thr s t)) else wr_todo (cg_thr s u))"
  by (simp_all add: pop_todo_def view_set_thr) (simp_all add: pcs_def nods_def fun_eq_iff)

lemma view_store_result [simp]:
  "pcs (store_result n r s) = pcs s"
  "nods s n \<noteq> None \<Longrightarrow> nods (store_result n r s) = (nods s)(n := Some (Some r))"
  by (auto simp: store_result_def view_set_thr nods_def option.map_comp fun_eq_iff pcs_def)

lemma view_fields [simp]:
  "pcs (s\<lparr>cg_stack_head := ns\<rparr>) = pcs s" "nods (s\<lparr>cg_stack_head := ns\<rparr>) = nods s"
  "pcs (s\<lparr>cg_leader_active := b\<rparr>) = pcs s" "nods (s\<lparr>cg_leader_active := b\<rparr>) = nods s"
  "pcs (s\<lparr>cg_wal := w\<rparr>) = pcs s" "nods (s\<lparr>cg_wal := w\<rparr>) = nods s"
  "pcs (s\<lparr>cg_epoch := ep\<rparr>) = pcs s" "nods (s\<lparr>cg_epoch := ep\<rparr>) = nods s"
  "nods (s\<lparr>cg_thr := wake \<circ> cg_thr s\<rparr>) = nods s"
  by (simp_all add: pcs_def nods_def fun_eq_iff)

lemma result_of_nods: "result_of s t = Option.bind (nods s t) id"
  by (cases "wr_node (cg_thr s t)") (simp_all add: result_of_def nods_def)

definition cg_inv :: "CommitGroup \<Rightarrow> bool" where
  "cg_inv s \<longleftrightarrow> (\<exists>ld. cg_ok (pcs s) (nods s) (cg_stack_head s) ld \<and> cg_leader_active s = (ld \<noteq> None))
     \<and> (\<forall>t. cg_writers s \<le> t \<longrightarrow> pcs s t = Outside \<and> wr_todo (cg_thr s t) = [])"

lemma cg_inv_init: "cg_inv (cg_init w progs)"
  by (auto simp: cg_inv_def cg_init_def pcs_def nods_def cg_ok_def pushed_def)

lemma cg_invI:
  assumes "cg_inv s" "cg_ok (pcs s') (nods s') (cg_stack_head s') ld" "cg_leader_active s' = (ld \<noteq> None)"
    "cg_writers s' = cg_writers s" "\<And>u. u \<noteq> t \<Longrightarrow> pcs s u = Outside \<Longrightarrow> pcs s' u = Outside"
    "\<And>u. u \<noteq> t \<Longrightarrow> wr_todo (cg_thr s' u) = wr_todo (cg_thr s u)" "t < cg_writers s"
  shows "cg_inv s'"
  using assms unfolding cg_inv_def by (metis not_less)

lemma cg_inv_call:
  assumes inv: "cg_inv s" and t: "t < cg_writers s" and st: "call_step t s s'"
  shows "cg_inv s'"
proof -
  obtain ld where ok: "cg_ok (pcs s) (nods s) (cg_stack_head s) ld" and ld: "cg_leader_active s = (ld \<noteq> None)"
    using inv by (auto simp: cg_inv_def)
  note D = cg_okD [OF ok]
  have out: "pcs s t = Outside \<Longrightarrow> (pcs s)(t := Outside) = pcs s \<and> (nods s)(t := None) = nods s"
    using D(7) [of t] by (auto simp: fun_eq_iff)
  show ?thesis
    using st
  proof cases
    case (key_too_long e es)
    then show ?thesis
      using ok ld out t by (intro cg_invI [OF inv, where ld = ld and t = t]) (auto simp: pcs_def)
  next
    case (no_buffer e es)
    then show ?thesis
      using ok ld out t by (intro cg_invI [OF inv, where ld = ld and t = t]) (auto simp: pcs_def)
  next
    case (node e es)
    then show ?thesis
      using cg_ok_call [OF ok, of t] ld t
      by (intro cg_invI [OF inv, where ld = ld and t = t]) (auto simp: view_set_thr pcs_def [symmetric])
  next
    case elected
    then have "ld = None" "pcs s t = Elect" using ld by (simp_all add: pcs_def)
    then show ?thesis
      using cg_ok_take [of "pcs s" "nods s" _ t] ok elected t
      by (intro cg_invI [OF inv, where ld = "Some t" and t = t]) auto
  next
    case not_elected
    have "cg_ok ((pcs s)(t := Check1)) (nods s) (cg_stack_head s) ld"
      by (rule cg_ok_move [OF ok])
        (use not_elected D(1) [of t] ld in \<open>auto simp: pcs_def pushed_def\<close>)
    then show ?thesis
      using not_elected ld t by (intro cg_invI [OF inv, where ld = ld and t = t]) auto
  qed
qed

lemma cg_inv_push:
  assumes inv: "cg_inv s" and t: "t < cg_writers s" and st: "push_step t s s'"
  shows "cg_inv s'"
proof -
  obtain ld where ok: "cg_ok (pcs s) (nods s) (cg_stack_head s) ld" and ld: "cg_leader_active s = (ld \<noteq> None)"
    using inv by (auto simp: cg_inv_def)
  show ?thesis
    using st
  proof cases
    case load
    then show ?thesis
      using cg_ok_reload [OF ok, of t] ld t
      by (intro cg_invI [OF inv, where ld = ld and t = t]) (auto simp: pcs_def)
  next
    case (cas_fail old)
    then show ?thesis
      using cg_ok_reload [OF ok, of t] ld t
      by (intro cg_invI [OF inv, where ld = ld and t = t]) (auto simp: pcs_def)
  next
    case (cas old)
    then have "cg_stack_head s \<noteq> []" if "old \<noteq> None" using that by (auto simp: stack_top_def)
    then have "cg_ok ((pcs s)(t := if old = None then Elect else Check1)) (nods s) (t # cg_stack_head s) ld"
      using cas by (intro cg_ok_push [OF ok]) (auto simp: pcs_def)
    then show ?thesis
      using cas ld t by (intro cg_invI [OF inv, where ld = ld and t = t]) auto
  qed
qed

lemma cg_inv_wait:
  assumes inv: "cg_inv s" and t: "t < cg_writers s" and st: "wait_step t s s'"
  shows "cg_inv s'"
proof -
  obtain ld where ok: "cg_ok (pcs s) (nods s) (cg_stack_head s) ld" and ld: "cg_leader_active s = (ld \<noteq> None)"
    using inv by (auto simp: cg_inv_def)
  note D = cg_okD [OF ok]
  have move: "cg_inv (goto t p s)" if "\<not> holds (pc s t)" "\<not> candidate (pc s t)" "pushed (pc s t)" "pushed p"
    "\<not> holds p" "\<not> settled p" for p
  proof -
    have "cg_ok ((pcs s)(t := p)) (nods s) (cg_stack_head s) ld"
      by (rule cg_ok_move [OF ok]) (use that D(1) [of t] in \<open>auto simp: pcs_def pushed_def\<close>)
    then show ?thesis using ld t by (intro cg_invI [OF inv, where ld = ld and t = t]) auto
  qed
  have leave: "cg_inv (answer t e r s)" if "pc s t = Check1 \<or> (\<exists>ep. pc s t = Check2 ep)" "result_of s t = Some r" for e r
  proof -
    have "nods s t = Some (Some r)" using that(2) by (auto simp: result_of_nods bind_eq_Some_conv)
    then have "cg_ok ((pcs s)(t := Outside)) ((nods s)(t := None)) (cg_stack_head s) ld"
      using that(1) by (intro cg_ok_leave [OF ok]) (auto simp: pcs_def)
    then show ?thesis using ld t by (intro cg_invI [OF inv, where ld = ld and t = t]) auto
  qed
  show ?thesis using st by cases (auto intro!: move leave simp: pushed_def)
qed

lemma map_fst_zip: "length rs = length b \<Longrightarrow> map fst (zip b rs) = b"
  by (induction b rs rule: list_induct2') auto

lemma ReverseChain_rev: "ReverseChain ns = rev ns"
proof -
  have "reverse_onto ns prev = rev ns @ prev" for prev
    by (induction ns arbitrary: prev) auto
  then show ?thesis by (simp add: ReverseChain_def)
qed

lemma ProcessBatch_length:
  assumes "ProcessBatch b w = (rs, w')"
  shows "length rs = length b"
proof -
  have bl: "length rest \<le> length b" if "batch_loop b wrote dirty w = (c, rest, wr, di, w')" for wrote dirty w c rest wr di w'
    using that
  proof (induction b arbitrary: wrote dirty w)
    case (Cons e es)
    then show ?case by (fastforce simp: Let_def split: if_splits prod.splits intro: le_SucI)
  qed simp
  obtain c rest wr di w1 where l: "batch_loop b False False w = (c, rest, wr, di, w1)" by (metis prod_cases5)
  show ?thesis using assms bl [OF l] unfolding ProcessBatch_def l prod.case Let_def by (auto split: prod.splits)
qed

lemma pc_wake: "wr_pc x = Outside \<Longrightarrow> wr_pc (wake x) = Outside"
  by (simp add: wake_def)

lemma cg_inv_leader:
  assumes inv: "cg_inv s" and t: "t < cg_writers s" and st: "leader_step t s s'"
  shows "cg_inv s'"
proof -
  obtain ld where ok: "cg_ok (pcs s) (nods s) (cg_stack_head s) ld" and ld: "cg_leader_active s = (ld \<noteq> None)"
    using inv by (auto simp: cg_inv_def)
  note D = cg_okD [OF ok]
  have own: "ld = Some t" if "holds (pc s t)" using that D(1) [of t] by (simp add: pcs_def)
  have go: "cg_inv s'" if "holds (pc s t)" "holds p" "pcs s' = (pcs s)(t := p)" "nods s' = nods s"
    "distinct (cg_stack_head s' @ batch_of p)"
    "set (cg_stack_head s' @ batch_of p) = set (cg_stack_head s @ batch_of (pc s t))"
    "settled p \<Longrightarrow> t \<notin> set (cg_stack_head s) \<and> batch_of (pc s t) = []"
    "working p \<Longrightarrow> t \<notin> set (cg_stack_head s')" "set (cg_stack_head s') \<subseteq> set (cg_stack_head s)"
    "cg_leader_active s' = cg_leader_active s" "cg_writers s' = cg_writers s"
    "\<And>u. u \<noteq> t \<Longrightarrow> wr_todo (cg_thr s' u) = wr_todo (cg_thr s u)" for p
  proof -
    have "cg_ok ((pcs s)(t := p)) (nods s) (cg_stack_head s') (Some t)"
      by (rule cg_ok_leader [OF ok [unfolded own [OF that(1)]] that(2,5)]) (use that in \<open>auto simp: pcs_def\<close>)
    then show ?thesis
      using that ld own t by (intro cg_invI [OF inv, where ld = "Some t" and t = t]) auto
  qed
  have set: "t \<notin> set (cg_stack_head s)" if "settled (pc s t) \<or> working (pc s t)"
    using that D(9,10) [of t] by (auto simp: pcs_def)
  show ?thesis
    using st
  proof cases
    case drain
    then show ?thesis by (intro go [of "Process (ReverseChain (cg_stack_head s))"]) (use D(2) in \<open>auto simp: ReverseChain_rev\<close>)
  next
    case (batch b rs w')
    have l: "map fst (zip b rs) = b" using ProcessBatch_length [OF batch(3)] by (intro map_fst_zip) simp
    have "distinct b" "\<And>u. u \<in> set b \<Longrightarrow> u \<notin> set (cg_stack_head s)"
      using D(3,4) own batch by (auto simp: pcs_def)
    then show ?thesis
      using batch l set D(2) by (intro go [of "Backfill (zip b rs)"]) (auto simp: disjoint_iff)
  next
    case (fill n r ns)
    have b: "ld = Some t" "pcs s t = Backfill ((n, r) # ns)" using own fill by (auto simp: pcs_def)
    have "nods s n \<noteq> None" using D(5) [of n] b by auto
    then show ?thesis
      using cg_ok_fill [OF ok [unfolded b(1)] b(2)] fill ld b t
      by (intro cg_invI [OF inv, where ld = "Some t" and t = t]) auto
  next
    case filled
    then show ?thesis by (intro go [of Publish]) (use D(2) set in auto)
  next
    case publish
    then show ?thesis by (intro go [of NotifyAll]) (use D(2) set in auto)
  next
    case notify_all
    let ?s = "s\<lparr>cg_thr := wake \<circ> cg_thr s\<rparr>"
    have o1: "ld = Some t" using own notify_all by simp
    have "cg_ok (pcs ?s) (nods s) (cg_stack_head s) ld"
      by (rule cg_ok_cong [OF ok])
        (auto simp: pcs_def wake_def pushed_def split: writer_pc.splits)
    then have w: "cg_ok (pcs ?s) (nods s) (cg_stack_head s) (Some t)" using o1 by simp
    have pt: "pcs ?s t = NotifyAll" using notify_all by (simp add: pcs_def wake_def)
    have "cg_ok ((pcs ?s)(t := Recheck)) (nods s) (cg_stack_head s) (Some t)"
      by (rule cg_ok_leader [OF w]) (use pt D(2) set notify_all in auto)
    then show ?thesis
      using notify_all ld o1 t
      by (intro cg_invI [OF inv, where ld = "Some t" and t = t]) (auto simp: pcs_def pc_wake)
  next
    case recheck_more
    then show ?thesis by (intro go [of Drain]) (use D(2) set in auto)
  next
    case recheck_none
    then show ?thesis by (intro go [of StepDown]) (use D(2) set in auto)
  next
    case step_down
    then have "cg_ok ((pcs s)(t := LookAgain)) (nods s) (cg_stack_head s) None"
      using own ok by (intro cg_ok_release) (auto simp: pcs_def)
    then show ?thesis
      using step_down t by (intro cg_invI [OF inv, where ld = None and t = t]) auto
  next
    case drain_none
    then show ?thesis by (intro go [of Recheck]) (use D(2) set in auto)
  next
    case nothing_left
    have "cg_ok ((pcs s)(t := Check1)) (nods s) (cg_stack_head s) ld"
      by (rule cg_ok_move [OF ok]) (use nothing_left D(1) [of t] in \<open>auto simp: pcs_def pushed_def\<close>)
    then show ?thesis using nothing_left ld t by (intro cg_invI [OF inv, where ld = ld and t = t]) auto
  next
    case something_left
    have "cg_ok ((pcs s)(t := Retake)) (nods s) (cg_stack_head s) ld"
      by (rule cg_ok_move [OF ok]) (use something_left D(1) [of t] in \<open>auto simp: pcs_def pushed_def\<close>)
    then show ?thesis using something_left ld t by (intro cg_invI [OF inv, where ld = ld and t = t]) auto
  next
    case retaken
    then have "ld = None" "pcs s t = Retake" using ld by (simp_all add: pcs_def)
    then show ?thesis
      using cg_ok_take [of "pcs s" "nods s" _ t] ok retaken t
      by (intro cg_invI [OF inv, where ld = "Some t" and t = t]) auto
  next
    case taken_over
    have "cg_ok ((pcs s)(t := Check1)) (nods s) (cg_stack_head s) ld"
      by (rule cg_ok_move [OF ok]) (use taken_over ld D(1) [of t] in \<open>auto simp: pcs_def pushed_def\<close>)
    then show ?thesis using taken_over ld t by (intro cg_invI [OF inv, where ld = ld and t = t]) auto
  qed
qed

lemma cg_inv_spurious:
  assumes inv: "cg_inv s" and t: "t < cg_writers s" and st: "spurious_step t s s'"
  shows "cg_inv s'"
proof -
  obtain ld where ok: "cg_ok (pcs s) (nods s) (cg_stack_head s) ld" and ld: "cg_leader_active s = (ld \<noteq> None)"
    using inv by (auto simp: cg_inv_def)
  show ?thesis
    using st
  proof cases
    case (weak_fail old)
    then show ?thesis
      using cg_ok_reload [OF ok, of t] ld t
      by (intro cg_invI [OF inv, where ld = ld and t = t]) (auto simp: pcs_def)
  next
    case (wake_up e)
    have "cg_ok ((pcs s)(t := WaitOn e)) (nods s) (cg_stack_head s) ld"
      by (rule cg_ok_move [OF ok]) (use wake_up cg_okD(1) [OF ok, of t] in \<open>auto simp: pcs_def pushed_def\<close>)
    then show ?thesis using wake_up ld t by (intro cg_invI [OF inv, where ld = ld and t = t]) auto
  qed
qed

lemma cg_inv_step: "cg_inv s \<Longrightarrow> t < cg_writers s \<Longrightarrow> thread_step t s s' \<Longrightarrow> cg_inv s'"
  using cg_inv_call cg_inv_push cg_inv_leader cg_inv_wait unfolding thread_step_def by blast

lemma cg_inv_reach: "cg_reach w progs s \<Longrightarrow> cg_inv s"
  by (induction rule: cg_reach.induct) (auto simp: cg_step_def intro: cg_inv_init cg_inv_step cg_inv_spurious)

end
