(* ===== verification/Cabe_CommitGroupLive.thy ===== *)
theory Cabe_CommitGroupLive
  imports Cabe_CommitGroupInv
begin

text \<open>
  Nobody is forgotten: as long as a call is unanswered some thread can go on. The epoch is a
  64-bit counter, so a sleeper could miss a change if it went round once; the number of batches
  is bounded by the records to write, of which there are fewer.
\<close>

section \<open>The epoch\<close>

fun looked :: "writer_pc \<Rightarrow> u64 option" where
  "looked (Check2 e) = Some e" | "looked (WaitOn e) = Some e" | "looked (Asleep e) = Some e" | "looked _ = None"

fun resting :: "writer_pc \<Rightarrow> bool" where
  "resting (WaitOn _) = True" | "resting (Asleep _) = True" | "resting _ = False"

fun announcing :: "writer_pc \<Rightarrow> bool" where
  "announcing (Backfill _) = True" | "announcing Publish = True" | "announcing _ = False"

text \<open>\<open>b\<close> batches are published; thread \<open>t\<close> last saw \<open>seen t\<close> of them. A writer at rest whose
  result is there was told nothing yet only if the leader is about to; a sleeper whose epoch
  has passed is about to be woken.\<close>

definition ep_ok :: "(nat \<Rightarrow> writer_pc) \<Rightarrow> (nat \<Rightarrow> rc option option) \<Rightarrow> nat \<Rightarrow> (nat \<Rightarrow> nat) \<Rightarrow> bool" where
  "ep_ok pcf nod b seen \<longleftrightarrow>
     (\<forall>t e. looked (pcf t) = Some e \<longrightarrow> e = of_nat (seen t) \<and> seen t \<le> b)
   \<and> (\<forall>t r. resting (pcf t) \<longrightarrow> seen t = b \<longrightarrow> nod t = Some (Some r) \<longrightarrow> (\<exists>l. announcing (pcf l)))
   \<and> (\<forall>t e. pcf t = Asleep e \<longrightarrow> seen t \<noteq> b \<longrightarrow> (\<exists>l. pcf l = NotifyAll))"

lemma ep_okD:
  assumes "ep_ok pcf nod b seen"
  shows "looked (pcf t) = Some e \<Longrightarrow> e = of_nat (seen t) \<and> seen t \<le> b"
    "resting (pcf t) \<Longrightarrow> seen t = b \<Longrightarrow> nod t = Some (Some r) \<Longrightarrow> \<exists>l. announcing (pcf l)"
    "pcf t = Asleep e \<Longrightarrow> seen t \<noteq> b \<Longrightarrow> \<exists>l. pcf l = NotifyAll"
  using assms unfolding ep_ok_def by blast+

lemma ep_ok_move:
  assumes ep: "ep_ok pcf nod b seen" and p: "announcing (pcf t) \<Longrightarrow> announcing p" "pcf t \<noteq> NotifyAll"
    and l: "\<And>e. looked p = Some e \<Longrightarrow> e = of_nat (seen' t) \<and> seen' t \<le> b"
    and r: "\<And>r. resting p \<Longrightarrow> seen' t = b \<Longrightarrow> nod' t = Some (Some r) \<Longrightarrow> nod t = Some (Some r) \<and> resting (pcf t) \<and> seen t = b"
    and a: "\<And>e. p = Asleep e \<Longrightarrow> seen' t = b"
    and o': "\<And>u r. u \<noteq> t \<Longrightarrow> nod' u = Some (Some r) \<Longrightarrow> nod u = Some (Some r) \<or> announcing p"
    and s: "\<And>u. u \<noteq> t \<Longrightarrow> seen' u = seen u"
  shows "ep_ok (pcf(t := p)) nod' b seen'"
proof -
  note D = ep_okD [OF ep]
  have ann: "\<exists>l. announcing ((pcf(t := p)) l)" if "\<exists>l. announcing (pcf l)"
    using that p(1) by (metis fun_upd_apply)
  have ntf: "\<exists>l. (pcf(t := p)) l = NotifyAll" if "\<exists>l. pcf l = NotifyAll"
    using that p(2) by (metis fun_upd_apply)
  show ?thesis
    unfolding ep_ok_def
  proof (intro conjI allI impI)
    fix u e assume "looked ((pcf(t := p)) u) = Some e"
    then show "e = of_nat (seen' u)" "seen' u \<le> b" using D(1) [of u] l s by (auto split: if_splits)
  next
    fix u r assume u: "resting ((pcf(t := p)) u)" "seen' u = b" "nod' u = Some (Some r)"
    show "\<exists>l. announcing ((pcf(t := p)) l)"
    proof (cases "announcing p")
      case True then show ?thesis by (intro exI [of _ t]) simp
    next
      case False
      then have "\<exists>l. announcing (pcf l)"
        using D(2) [of u r] u o' [of u r] s [of u] r [of r] by (cases "u = t") auto
      then show ?thesis by (rule ann)
    qed
  next
    fix u e assume "(pcf(t := p)) u = Asleep e" "seen' u \<noteq> b"
    then show "\<exists>l. (pcf(t := p)) l = NotifyAll"
      using a D(3) [of u] s by (intro ntf) (auto split: if_splits)
  qed
qed

lemma ep_ok_publish:
  assumes ep: "ep_ok pcf nod b seen"
  shows "ep_ok (pcf(t := NotifyAll)) nod (Suc b) seen"
proof -
  note D = ep_okD [OF ep]
  have le: "looked (pcf u) = Some e \<Longrightarrow> seen u \<noteq> Suc b" for u e using D(1) [of u e] by auto
  show ?thesis
    unfolding ep_ok_def
  proof (intro conjI allI impI)
    fix u e assume "looked ((pcf(t := NotifyAll)) u) = Some e"
    then show "e = of_nat (seen u)" "seen u \<le> Suc b" using D(1) [of u] by (auto split: if_splits)
  next
    fix u r assume u: "resting ((pcf(t := NotifyAll)) u)" "seen u = Suc b"
    then have "looked (pcf u) \<noteq> None" by (cases "pcf u"; simp split: if_splits)
    then show "\<exists>l. announcing ((pcf(t := NotifyAll)) l)" using le u by auto
  next
    fix u e show "\<exists>l. (pcf(t := NotifyAll)) l = NotifyAll" by (intro exI [of _ t]) simp
  qed
qed

lemma ep_ok_notify:
  assumes ep: "ep_ok pcf nod b seen" and t: "pcf t = NotifyAll"
    and w: "\<And>u. pcf' u = (case pcf u of Asleep e \<Rightarrow> WaitOn e | q \<Rightarrow> q)"
  shows "ep_ok (pcf'(t := Recheck)) nod b seen"
proof -
  note D = ep_okD [OF ep]
  have k: "looked (pcf' u) = looked (pcf u)" "resting (pcf' u) = resting (pcf u)"
    "announcing (pcf' u) = announcing (pcf u)" "pcf' u \<noteq> Asleep e" for u e
    by (simp_all add: w split: writer_pc.splits)
  have ann: "\<exists>l. announcing ((pcf'(t := Recheck)) l)" if "\<exists>l. announcing (pcf l)"
  proof -
    from that obtain l where "announcing (pcf l)" by blast
    moreover from this have "l \<noteq> t" using t by auto
    ultimately show ?thesis using k(3) by (intro exI [of _ l]) simp
  qed
  show ?thesis
    unfolding ep_ok_def
  proof (intro conjI allI impI)
    fix u e assume "looked ((pcf'(t := Recheck)) u) = Some e"
    then show "e = of_nat (seen u)" "seen u \<le> b" using D(1) [of u] k by (auto split: if_splits)
  next
    fix u r assume "resting ((pcf'(t := Recheck)) u)" "seen u = b" "nod u = Some (Some r)"
    then show "\<exists>l. announcing ((pcf'(t := Recheck)) l)" using D(2) [of u r] k by (intro ann) (auto split: if_splits)
  next
    fix u e assume "(pcf'(t := Recheck)) u = Asleep e"
    then show "\<exists>l. (pcf'(t := Recheck)) l = NotifyAll" using k(4) by (auto split: if_splits)
  qed
qed

definition cg_ep :: "nat \<Rightarrow> CommitGroup \<Rightarrow> bool" where
  "cg_ep K s \<longleftrightarrow> (\<exists>b seen. cg_epoch s = of_nat b \<and> b + budget s \<le> K \<and> ep_ok (pcs s) (nods s) b seen)"

lemma cg_epI: "cg_epoch s = of_nat b \<Longrightarrow> b + budget s \<le> K \<Longrightarrow> ep_ok (pcs s) (nods s) b seen \<Longrightarrow> cg_ep K s"
  by (auto simp: cg_ep_def)

lemma of_nat_u64_eq: "a \<le> K \<Longrightarrow> b \<le> K \<Longrightarrow> K < 2 ^ 64 \<Longrightarrow> (of_nat a :: u64) = of_nat b \<longleftrightarrow> a = b"
  by (simp add: word_of_nat_eq_iff take_bit_nat_def)

lemma cg_ep_step:
  assumes inv: "cg_inv s" "cg_ep K s" "K < 2 ^ 64" and t: "t < cg_writers s" and st: "thread_step t s s'"
  shows "cg_ep K s'"
proof -
  obtain b seen where E: "cg_epoch s = of_nat b" "b + budget s \<le> K" and ep: "ep_ok (pcs s) (nods s) b seen"
    using inv(2) by (auto simp: cg_ep_def)
  note D = ep_okD [OF ep]
  obtain ld where ok: "cg_ok (pcs s) (nods s) (cg_stack_head s) ld"
    using inv(1) by (auto simp: cg_inv_def)
  have bud: "budget s' \<le> budget s" by (rule thread_step_budget [OF st t])
  have gen: "cg_ep K s'"
    if "cg_epoch s' = cg_epoch s" "pcs s' = (pcs s)(t := p)" "ep_ok ((pcs s)(t := p)) (nods s') b seen'" for p seen'
    using that E bud by (intro cg_epI [where b = b and seen = seen']) auto
  have plain: "cg_ep K s'"
    if "cg_epoch s' = cg_epoch s" "pcs s' = (pcs s)(t := p)" "\<not> resting p" "looked p = None"
      "announcing (pc s t) \<Longrightarrow> announcing p" "pc s t \<noteq> NotifyAll"
      "\<And>u r. u \<noteq> t \<Longrightarrow> nods s' u = Some (Some r) \<Longrightarrow> nods s u = Some (Some r) \<or> announcing p" for p
  proof (rule gen [of p seen])
    show "ep_ok ((pcs s)(t := p)) (nods s') b seen"
      by (rule ep_ok_move [OF ep]) (use that in \<open>auto simp: pcs_def\<close>)
  qed (use that in auto)
  consider (c) "call_step t s s'" | (p) "push_step t s s'" | (l) "leader_step t s s'" | (w) "wait_step t s s'"
    using st by (auto simp: thread_step_def)
  then show ?thesis
  proof cases
    case c
    then show ?thesis
    proof cases
      case key_too_long then show ?thesis by (intro plain [of Outside]) (auto split: if_splits)
    next
      case no_buffer then show ?thesis by (intro plain [of Outside]) (auto split: if_splits)
    next
      case node then show ?thesis by (intro plain [of PushLoad]) (auto simp: view_set_thr split: if_splits)
    next
      case elected then show ?thesis by (intro plain [of Drain]) auto
    next
      case not_elected then show ?thesis by (intro plain [of Check1]) auto
    qed
  next
    case p
    then show ?thesis
    proof cases
      case load then show ?thesis by (intro plain [of "PushCas (stack_top (cg_stack_head s))"]) auto
    next
      case cas_fail then show ?thesis by (intro plain [of "PushCas (stack_top (cg_stack_head s))"]) auto
    next
      case (cas old) then show ?thesis by (intro plain [of "if old = None then Elect else Check1"]) auto
    qed
  next
    case w
    then show ?thesis
    proof cases
      case (check1_done r) then show ?thesis by (intro plain [of Outside]) (auto split: if_splits)
    next
      case check1 then show ?thesis by (intro plain [of Snap]) auto
    next
      case snap
      have "ep_ok ((pcs s)(t := Check2 (cg_epoch s))) (nods s) b (seen(t := b))"
        by (rule ep_ok_move [OF ep]) (use E snap in \<open>auto simp: pcs_def\<close>)
      then show ?thesis using snap by (intro gen) auto
    next
      case (check2_done e r) then show ?thesis by (intro plain [of Outside]) (auto split: if_splits)
    next
      case (check2 e)
      have "ep_ok ((pcs s)(t := WaitOn e)) (nods s) b seen"
        by (rule ep_ok_move [OF ep])
          (use check2 D(1) [of t e] in \<open>auto simp: pcs_def result_of_nods\<close>)
      then show ?thesis using check2 by (intro gen) auto
    next
      case (sleep e)
      then have "seen t \<le> b" "e = of_nat (seen t)" using D(1) [of t e] by (auto simp: pcs_def)
      then have "seen t = b"
        using of_nat_u64_eq [of "seen t" K b] inv(3) E sleep by simp
      then have "ep_ok ((pcs s)(t := Asleep e)) (nods s) b seen"
        by (intro ep_ok_move [OF ep]) (use sleep E in \<open>auto simp: pcs_def\<close>)
      then show ?thesis using sleep by (intro gen) auto
    next
      case changed then show ?thesis by (intro plain [of Check1]) auto
    qed
  next
    case l
    then show ?thesis
    proof cases
      case drain_none then show ?thesis by (intro plain [of Recheck]) auto
    next
      case drain then show ?thesis by (intro plain [of "Process (ReverseChain (cg_stack_head s))"]) auto
    next
      case (batch bt rs w') then show ?thesis by (intro plain [of "Backfill (zip bt rs)"]) auto
    next
      case (fill n r ns)
      have "ld = Some t" using cg_okD(1) [OF ok, of t] fill by (simp add: pcs_def)
      then have "nods s n \<noteq> None" using cg_okD(5) [OF ok, of n] fill by (auto simp: pcs_def)
      then show ?thesis using fill by (intro plain [of "Backfill ns"]) auto
    next
      case filled then show ?thesis by (intro plain [of Publish]) auto
    next
      case publish
      have "Suc b + budget s' \<le> K"
      proof -
        have "budget s' + 1 \<le> budget s"
          using sum_thr_goto [of t "s\<lparr>cg_epoch := cg_epoch s + 1\<rparr>" cost NotifyAll] publish t
          by (simp add: budget_def cost_def)
        then show ?thesis using E by linarith
      qed
      then show ?thesis
        using publish E ep_ok_publish [OF ep, of t] by (intro cg_epI [where b = "Suc b" and seen = seen]) auto
    next
      case notify_all
      let ?s = "s\<lparr>cg_thr := wake \<circ> cg_thr s\<rparr>"
      have "ep_ok ((pcs ?s)(t := Recheck)) (nods s) b seen"
        by (rule ep_ok_notify [OF ep]) (use notify_all in \<open>auto simp: pcs_def wake_def split: writer_pc.splits\<close>)
      then show ?thesis using notify_all E bud by (intro cg_epI [where b = b and seen = seen]) auto
    next
      case recheck_more then show ?thesis by (intro plain [of Drain]) auto
    next
      case recheck_none then show ?thesis by (intro plain [of StepDown]) auto
    next
      case step_down then show ?thesis by (intro plain [of LookAgain]) auto
    next
      case nothing_left then show ?thesis by (intro plain [of Check1]) auto
    next
      case something_left then show ?thesis by (intro plain [of Retake]) auto
    next
      case retaken then show ?thesis by (intro plain [of Drain]) auto
    next
      case taken_over then show ?thesis by (intro plain [of Check1]) auto
    qed
  qed
qed

lemma cg_ep_spurious:
  assumes inv: "cg_ep K s" and t: "t < cg_writers s" and st: "spurious_step t s s'"
  shows "cg_ep K s'"
proof -
  obtain b seen where E: "cg_epoch s = of_nat b" "b + budget s \<le> K" and ep: "ep_ok (pcs s) (nods s) b seen"
    using inv by (auto simp: cg_ep_def)
  note D = ep_okD [OF ep]
  have b: "budget (goto t p s) = budget s" if "cost (cg_thr s t\<lparr>wr_pc := p\<rparr>) = cost (cg_thr s t)" for p
    using sum_thr_goto [OF t, of cost p] that by (simp add: budget_def)
  show ?thesis
    using st
  proof cases
    case (weak_fail old)
    then show ?thesis
      using E b by (intro cg_epI [where b = b and seen = seen])
        (auto intro!: ep_ok_move [OF ep] simp: pcs_def cost_def)
  next
    case (wake_up e)
    then show ?thesis
      using E b D(1) [of t e] by (intro cg_epI [where b = b and seen = seen])
        (auto intro!: ep_ok_move [OF ep] simp: pcs_def cost_def)
  qed
qed

end
