(* ===== verification/Cabe_CommitGroupTheorems.thy ===== *)
theory Cabe_CommitGroupTheorems
  imports Cabe_CommitGroupLive Cabe_WalTheorems
begin

text \<open>
  What the commit group promises its writers: one leader at a time and no access to a node
  whose owner has gone, an answer for everybody, and a log that is an interleaving of the
  writers' calls and holds, durably, every record whose writer was told success.
\<close>

section \<open>The calls of a thread\<close>

definition current :: "writer \<Rightarrow> wal_entry list" where
  "current x = (case wr_node x of None \<Rightarrow> [] | Some n \<Rightarrow> [wn_entry n])"

lemma current_pc [simp]: "current (x\<lparr>wr_pc := p\<rparr>) = current x" "current (wake x) = current x"
  by (simp_all add: current_def)

lemma current_simps [simp]:
  "wr_node x = None \<Longrightarrow> current x = []" "wr_node x = Some n \<Longrightarrow> current x = [wn_entry n]"
  by (simp_all add: current_def)

definition calls_ok :: "wal_entry list list \<Rightarrow> CommitGroup \<Rightarrow> bool" where
  "calls_ok progs s \<longleftrightarrow> cg_writers s = length progs
     \<and> (\<forall>t < length progs. map fst (wr_done (cg_thr s t)) @ current (cg_thr s t) @ wr_todo (cg_thr s t) = progs ! t)
     \<and> (\<forall>t n. wr_node (cg_thr s t) = Some n \<longrightarrow> length (e_key (wn_entry n)) \<le> kWalKeyMax)"

lemma calls_okI:
  assumes "calls_ok progs s" "cg_writers s' = cg_writers s"
    "\<And>u. map fst (wr_done (cg_thr s' u)) @ current (cg_thr s' u) @ wr_todo (cg_thr s' u)
        = map fst (wr_done (cg_thr s u)) @ current (cg_thr s u) @ wr_todo (cg_thr s u)"
    "\<And>u n. wr_node (cg_thr s' u) = Some n \<Longrightarrow> (\<exists>n'. wr_node (cg_thr s u) = Some n' \<and> wn_entry n' = wn_entry n)
        \<or> length (e_key (wn_entry n)) \<le> kWalKeyMax"
  shows "calls_ok progs s'"
  using assms unfolding calls_ok_def by metis

lemma current_store:
  "current (cg_thr (store_result n r s) u) = current (cg_thr s u)"
  by (simp add: store_result_def current_def split: option.splits)

lemma calls_ok_keep:
  assumes ok: "calls_ok progs s" and k: "cg_writers s' = cg_writers s" "\<And>u. wr_done (cg_thr s' u) = wr_done (cg_thr s u)"
    "\<And>u. current (cg_thr s' u) = current (cg_thr s u)" "\<And>u. wr_todo (cg_thr s' u) = wr_todo (cg_thr s u)"
  shows "calls_ok progs s'"
proof (rule calls_okI [OF ok k(1)])
  fix u n assume "wr_node (cg_thr s' u) = Some n"
  then show "(\<exists>n'. wr_node (cg_thr s u) = Some n' \<and> wn_entry n' = wn_entry n) \<or> length (e_key (wn_entry n)) \<le> kWalKeyMax"
    using k(3) [of u] by (auto simp: current_def split: option.splits)
qed (simp add: k)

lemma calls_ok_step:
  assumes ok: "calls_ok progs s" and inv: "cg_inv s" and st: "thread_step t s s'"
  shows "calls_ok progs s'"
proof -
  obtain ld where cg: "cg_ok (pcs s) (nods s) (cg_stack_head s) ld" using inv by (auto simp: cg_inv_def)
  have out: "wr_node (cg_thr s t) = None" if "pc s t = Outside"
    using cg_okD(7) [OF cg, of t] that by (simp add: nods_def pcs_def)
  have res: "wr_node (cg_thr s t) = Some (the (wr_node (cg_thr s t)))" if "result_of s t = Some r" for r
    using that by (auto simp: result_of_def bind_eq_Some_conv)
  note keep = calls_ok_keep [OF ok]
  consider (c) "call_step t s s'" | (p) "push_step t s s'" | (l) "leader_step t s s'" | (w) "wait_step t s s'"
    using st by (auto simp: thread_step_def)
  then show ?thesis
  proof cases
    case c
    then show ?thesis
    proof cases
      case (key_too_long e es)
      then show ?thesis
        using out by (intro calls_okI [OF ok]) (auto simp: answer_def pop_todo_def split: if_splits)
    next
      case (no_buffer e es)
      then show ?thesis
        using out by (intro calls_okI [OF ok]) (auto simp: answer_def pop_todo_def split: if_splits)
    next
      case (node e es)
      then show ?thesis using out by (intro calls_okI [OF ok]) (auto split: if_splits)
    qed (auto intro!: keep)
  next
    case p
    then show ?thesis by cases (auto intro!: keep)
  next
    case w
    then show ?thesis
    proof cases
      case (check1_done r)
      then show ?thesis
        using res by (intro calls_okI [OF ok]) (auto simp: answer_def entry_of_def current_def split: if_splits option.splits)
    next
      case (check2_done e r)
      then show ?thesis
        using res by (intro calls_okI [OF ok]) (auto simp: answer_def entry_of_def current_def split: if_splits option.splits)
    qed (auto intro!: keep)
  next
    case l
    then show ?thesis
    proof cases
      case fill
      then show ?thesis by (intro keep) (auto simp: current_store, auto simp: store_result_def)
    next
      case notify_all
      then show ?thesis by (intro keep) auto
    qed (auto intro!: keep)
  qed
qed

lemma calls_ok_spurious:
  assumes "calls_ok progs s" "spurious_step t s s'"
  shows "calls_ok progs s'"
  using assms(2) by cases (auto intro!: calls_ok_keep [OF assms(1)])

lemma calls_ok_init: "calls_ok progs (cg_init w progs)"
  by (simp add: calls_ok_def cg_init_def)

lemma writers_reach: "cg_reach w progs s \<Longrightarrow> calls_ok progs s"
proof (induction rule: cg_reach.induct)
  case (step s s')
  then show ?case using calls_ok_step [OF step.IH cg_inv_reach [OF step.hyps(1)]] by (auto simp: cg_step_def)
qed (auto intro: calls_ok_init calls_ok_spurious)

section \<open>Progress\<close>

text \<open>The number of records to write bounds the batches.\<close>

lemma budget_init: "budget (cg_init w progs) = 3 * sum_list (map length progs)"
proof -
  have "(\<Sum>u < length progs. cost (cg_thr (cg_init w progs) u)) = (\<Sum>u < length progs. 3 * length (progs ! u))"
    by (rule sum.cong) (auto simp: cg_init_def cost_def)
  also have "\<dots> = 3 * sum_list (map length progs)"
    by (simp add: sum_distrib_left [symmetric] sum_list_sum_nth atLeast0LessThan)
  finally show ?thesis by (simp add: budget_def sum_thr_def cg_init_def)
qed

lemma cg_ep_reach:
  assumes "cg_reach w progs s" "3 * sum_list (map length progs) < 2 ^ 64"
  shows "cg_ep (3 * sum_list (map length progs)) s"
  using assms(1)
proof (induction rule: cg_reach.induct)
  case start
  show ?case
    by (rule cg_epI [where b = 0 and seen = "\<lambda>_. 0"])
      (simp_all add: budget_init, auto simp: cg_init_def ep_ok_def pcs_def)
next
  case (step s s')
  then show ?case
    using cg_ep_step [OF cg_inv_reach [OF step.hyps(1)] step.IH assms(2)] by (auto simp: cg_step_def)
next
  case (spurious s t s')
  then show ?case by (auto intro: cg_ep_spurious)
qed

lemma leader_can_step: "holds (pc s t) \<or> candidate (pc s t) \<Longrightarrow> \<exists>s'. thread_step t s s'"
proof -
  assume h: "holds (pc s t) \<or> candidate (pc s t)"
  consider "pc s t = Drain" | b where "pc s t = Process b" | "pc s t = Backfill []" | n r ns where "pc s t = Backfill ((n, r) # ns)"
    | "pc s t = Publish" | "pc s t = NotifyAll" | "pc s t = Recheck" | "pc s t = StepDown"
    | "pc s t = Elect" | "pc s t = LookAgain" | "pc s t = Retake"
    using h
  proof (cases "pc s t")
    case (Backfill ns)
    then show ?thesis using that by (cases ns) auto
  qed (use that in auto)
  then show ?thesis
  proof cases
    case 1 then show ?thesis
      unfolding thread_step_def by (cases "cg_stack_head s = []") (blast intro: leader_step.intros)+
  next
    case (2 b)
    obtain rs w' where "ProcessBatch (map (entry_of s) b) (cg_wal s) = (rs, w')" by fastforce
    then show ?thesis using 2 unfolding thread_step_def by (blast intro: leader_step.intros)
  next
    case 9 then show ?thesis
      unfolding thread_step_def by (cases "cg_leader_active s") (blast intro: call_step.intros)+
  next
    case 10 then show ?thesis
      unfolding thread_step_def by (cases "cg_stack_head s = []") (blast intro: leader_step.intros)+
  next
    case 11 then show ?thesis
      unfolding thread_step_def by (cases "cg_leader_active s") (blast intro: leader_step.intros)+
  qed (unfold thread_step_def, (blast intro: leader_step.intros)+)
qed

lemma other_can_step:
  assumes "\<not> holds (pc s t)" "\<not> candidate (pc s t)" "\<And>e. pc s t \<noteq> Asleep e"
    "pc s t = Outside \<Longrightarrow> wr_todo (cg_thr s t) \<noteq> []"
  shows "\<exists>s'. thread_step t s s'"
proof (cases "pc s t")
  case Outside
  then obtain e es where "wr_todo (cg_thr s t) = e # es" using assms(4) by (cases "wr_todo (cg_thr s t)") auto
  then show ?thesis
    using Outside unfolding thread_step_def
    by (cases "kWalKeyMax < length (e_key e)"; cases "w_buf (cg_wal s) = None")
      (blast intro: call_step.intros leI)+
next
  case Check1
  then show ?thesis unfolding thread_step_def by (cases "result_of s t") (blast intro: wait_step.intros)+
next
  case (Check2 e)
  then show ?thesis unfolding thread_step_def by (cases "result_of s t") (blast intro: wait_step.intros)+
next
  case (PushCas old)
  then show ?thesis
    unfolding thread_step_def by (cases "old = stack_top (cg_stack_head s)") (blast intro: push_step.intros)+
next
  case (WaitOn e)
  then show ?thesis unfolding thread_step_def by (cases "cg_epoch s = e") (blast intro: wait_step.intros)+
qed (use assms in \<open>auto simp: thread_step_def intro: push_step.intros wait_step.intros\<close>)

text \<open>A thread asleep is waited for by one that can go on.\<close>

lemma asleep_has_help:
  assumes inv: "cg_inv s" "cg_ep K s" and t: "pc s t = Asleep e"
  shows "\<exists>l < cg_writers s. \<exists>s'. thread_step l s s'"
proof -
  obtain ld where ok: "cg_ok (pcs s) (nods s) (cg_stack_head s) ld" using inv by (auto simp: cg_inv_def)
  obtain b seen where ep: "ep_ok (pcs s) (nods s) b seen" using inv(2) by (auto simp: cg_ep_def)
  note D = cg_okD [OF ok] and E = ep_okD [OF ep]
  have p: "pcs s t = Asleep e" "pushed (pcs s t)" using t by (simp_all add: pcs_def pushed_def)
  have "\<exists>l. holds (pcs s l) \<or> candidate (pcs s l)"
  proof (cases "nods s t = Some None")
    case True
    then have "t \<in> set (cg_stack_head s) \<or> t \<in> set (batch (pcs s) ld)" using D(6) [of t] p(2) by auto
    then show ?thesis
    proof
      assume "t \<in> set (batch (pcs s) ld)"
      then obtain l where "ld = Some l" by (cases ld) auto
      then show ?thesis using D(1) by blast
    next
      assume "t \<in> set (cg_stack_head s)"
      then have "cg_stack_head s \<noteq> []" by auto
      then have "ld \<noteq> None \<or> (\<exists>l. candidate (pcs s l))" by (rule D(11))
      then show ?thesis using D(1) by blast
    qed
  next
    case False
    moreover have "nods s t \<noteq> None" using D(7) [of t] p by auto
    ultimately obtain r where r: "nods s t = Some (Some r)" by (cases "nods s t") auto
    show ?thesis
    proof (cases "seen t = b")
      case True
      then have "\<exists>l. announcing (pcs s l)" using E(2) [OF _ _ r] p by simp
      then obtain l where "announcing (pcs s l)" by blast
      then show ?thesis by (intro exI [of _ l]) (cases "pcs s l"; simp)
    next
      case False
      then obtain l where "pcs s l = NotifyAll" using E(3) p by blast
      then show ?thesis by (intro exI [of _ l]) simp
    qed
  qed
  then obtain l where l: "holds (pcs s l) \<or> candidate (pcs s l)" by blast
  then have "pcs s l \<noteq> Outside" by auto
  then have "l < cg_writers s" using inv(1) unfolding cg_inv_def by (metis not_less)
  then show ?thesis using leader_can_step l by (auto simp: pcs_def)
qed

section \<open>The log is an interleaving of the calls\<close>

text \<open>The records in the order they entered the log, each with its writer.\<close>

type_synonym history = "(nat \<times> wal_entry) list"

definition successes :: "(wal_entry \<times> rc) list \<Rightarrow> wal_entry list" where
  "successes d = map fst (filter (\<lambda>x. snd x = kSuccess) d)"

lemma successes_append [simp]: "successes (a @ b) = successes a @ successes b" by (simp add: successes_def)

lemma successes_one [simp]: "successes [(e, r)] = (if r = kSuccess then [e] else [])" by (simp add: successes_def)


text \<open>A thread's node whose record is not yet in a batch; what a writer was or will be told.\<close>

definition unprocessed :: "CommitGroup \<Rightarrow> nat \<Rightarrow> bool" where
  "unprocessed s t \<longleftrightarrow> t \<in> set (cg_stack_head s) \<or> (\<exists>l b. pcs s l = Process b \<and> t \<in> set b)"

definition told :: "CommitGroup \<Rightarrow> nat \<Rightarrow> rc \<Rightarrow> bool" where
  "told s t r \<longleftrightarrow> nods s t = Some (Some r) \<or> (\<exists>l ns. pcs s l = Backfill ns \<and> (t, r) \<in> set ns)"

definition processed :: "CommitGroup \<Rightarrow> nat \<Rightarrow> wal_entry list" where
  "processed s t = map fst (wr_done (cg_thr s t))
     @ (if pushed (pcs s t) \<and> \<not> unprocessed s t then current (cg_thr s t) else [])"

definition credited :: "CommitGroup \<Rightarrow> nat \<Rightarrow> wal_entry list" where
  "credited s t = successes (wr_done (cg_thr s t)) @ (if told s t kSuccess then current (cg_thr s t) else [])"

definition lin_ok :: "wal_entry list \<Rightarrow> nat \<Rightarrow> CommitGroup \<Rightarrow> history \<Rightarrow> nat \<Rightarrow> bool" where
  "lin_ok log h s hist m \<longleftrightarrow> wal_inv (cg_wal s) (log @ map snd hist) h m
     \<and> (\<forall>x \<in> set hist. fst x < cg_writers s)
     \<and> (\<forall>t. subseq (own t hist) (processed s t))
     \<and> (\<forall>t. subseq (credited s t) (own t (take (m - length log) hist)))"

lemma lin_ok_keep:
  assumes "lin_ok log h s hist m" "cg_wal s' = cg_wal s" "cg_writers s' = cg_writers s"
    "\<And>u. subseq (processed s u) (processed s' u)" "\<And>u. credited s' u = credited s u"
  shows "lin_ok log h s' hist m"
  using assms unfolding lin_ok_def by (metis subseq_order.trans)

lemma lin_ok_same:
  assumes "lin_ok log h s hist m" "cg_wal s' = cg_wal s" "cg_writers s' = cg_writers s"
    "cg_stack_head s' = cg_stack_head s" "nods s' = nods s"
    "\<And>l b. pcs s' l = Process b \<longleftrightarrow> pcs s l = Process b"
    "\<And>l ns. ns \<noteq> [] \<Longrightarrow> pcs s' l = Backfill ns \<longleftrightarrow> pcs s l = Backfill ns"
    "\<And>u. pushed (pcs s' u) = pushed (pcs s u)"
    "\<And>u. wr_done (cg_thr s' u) = wr_done (cg_thr s u)" "\<And>u. current (cg_thr s' u) = current (cg_thr s u)"
  shows "lin_ok log h s' hist m"
proof -
  have t: "told s' u r = told s u r" for u r
    unfolding told_def assms(5) using assms(7) by (metis list.set(1) empty_iff)
  have un: "unprocessed s' u = unprocessed s u" for u by (simp add: unprocessed_def assms)
  show ?thesis
    by (rule lin_ok_keep [OF assms(1-3)]) (simp_all add: processed_def credited_def t un assms)
qed

text \<open>A thread that moves within the same kind of place.\<close>

lemma lin_ok_move:
  assumes "lin_ok log h s hist m" "cg_wal s' = cg_wal s" "cg_writers s' = cg_writers s"
    "cg_stack_head s' = cg_stack_head s" "nods s' = nods s" "pcs s' = (pcs s)(t := p)"
    "\<not> working p" "\<not> working (pc s t) \<or> pc s t = Backfill []" "pushed p = pushed (pc s t)"
    "\<And>u. wr_done (cg_thr s' u) = wr_done (cg_thr s u)" "\<And>u. current (cg_thr s' u) = current (cg_thr s u)"
  shows "lin_ok log h s' hist m"
  by (rule lin_ok_same [OF assms(1-5)]) (use assms(6-) in \<open>auto simp: pcs_def\<close>)

lemma ex_Process:
  assumes "\<not> working (f t)" "\<not> working p"
  shows "(\<exists>l b. (f(t := p)) l = Process b \<and> u \<in> set b) \<longleftrightarrow> (\<exists>l b. f l = Process b \<and> u \<in> set b)"
proof -
  have "(f(t := p)) l = Process b \<longleftrightarrow> f l = Process b" for l b
    using assms by (cases "l = t") auto
  then show ?thesis by simp
qed

lemma ex_Backfill:
  assumes "\<not> working (f t)" "\<not> working p"
  shows "(\<exists>l ns. (f(t := p)) l = Backfill ns \<and> x \<in> set ns) \<longleftrightarrow> (\<exists>l ns. f l = Backfill ns \<and> x \<in> set ns)"
proof -
  have "(f(t := p)) l = Backfill ns \<longleftrightarrow> f l = Backfill ns" for l ns
    using assms by (cases "l = t") auto
  then show ?thesis by simp
qed

text \<open>A thread without a pending node is on no list.\<close>

lemma not_pending_list:
  assumes inv: "cg_inv s" and n: "nods s t \<noteq> Some None"
  shows "t \<notin> set (cg_stack_head s)" "\<not> (\<exists>l b. pcs s l = Process b \<and> t \<in> set b)"
    "\<not> (\<exists>l ns. pcs s l = Backfill ns \<and> (t, r) \<in> set ns)"
proof -
  obtain ld where ok: "cg_ok (pcs s) (nods s) (cg_stack_head s) ld" using inv by (auto simp: cg_inv_def)
  note D = cg_okD [OF ok]
  have nb: "t \<notin> set (batch_of (pcs s l))" for l
  proof
    assume a: "t \<in> set (batch_of (pcs s l))"
    then have "holds (pcs s l)" by (cases "pcs s l"; simp)
    then show False using D(1) [of l] D(5) [of t] a n by auto
  qed
  show "t \<notin> set (cg_stack_head s)" using D(5) [of t] n by auto
  show "\<not> (\<exists>l b. pcs s l = Process b \<and> t \<in> set b)" using nb by (metis batch_of.simps(1))
  show "\<not> (\<exists>l ns. pcs s l = Backfill ns \<and> (t, r) \<in> set ns)" using nb by (metis batch_of.simps(2) in_set_zipE zip_map_fst_snd)
qed

lemma not_pending:
  assumes inv: "cg_inv s" and n: "nods s t \<noteq> Some None"
  shows "\<not> unprocessed s t" "told s t r \<longleftrightarrow> nods s t = Some (Some r)"
  using not_pending_list(1,2) [OF assms] not_pending_list(3) [OF assms, of r]
  by (auto simp: unprocessed_def told_def)

lemma lin_ok_push:
  assumes lin: "lin_ok log h s hist m" and inv: "cg_inv s" and st: "push_step t s s'"
  shows "lin_ok log h s' hist m"
  using st
proof cases
  case (cas old)
  have pt: "\<not> pushed (pcs s t)" using cas by (simp add: pcs_def pushed_def)
  have un: "unprocessed s' u = (u = t \<or> unprocessed s u)" for u
    using cas ex_Process [of "pcs s" t "if old = None then Elect else Check1" u]
    by (auto simp: unprocessed_def pcs_def)
  have td: "told s' u r = told s u r" for u r
    using cas ex_Backfill [of "pcs s" t "if old = None then Elect else Check1" "(u, r)"]
    by (auto simp: told_def pcs_def)
  have th: "wr_done (cg_thr s' u) = wr_done (cg_thr s u)" "current (cg_thr s' u) = current (cg_thr s u)"
    "u \<noteq> t \<Longrightarrow> pcs s' u = pcs s u" for u
    using cas by auto
  have "processed s' u = processed s u" for u
    using pt by (cases "u = t") (simp_all add: processed_def th un)
  moreover have "credited s' u = credited s u" for u by (simp add: credited_def th td)
  ultimately show ?thesis using cas by (intro lin_ok_keep [OF lin]) auto
qed (auto intro!: lin_ok_move [OF lin, where t = t] simp: pushed_def)

lemma lin_ok_leave:
  assumes lin: "lin_ok log h s hist m" and inv: "cg_inv s"
    and t: "pc s t = Check1 \<or> (\<exists>e. pc s t = Check2 e)" "result_of s t = Some r"
  shows "lin_ok log h (answer t (entry_of s t) r s) hist m"
proof -
  let ?s = "answer t (entry_of s t) r s"
  have n: "nods s t = Some (Some r)" using t(2) by (auto simp: result_of_nods bind_eq_Some_conv)
  have cur: "current (cg_thr s t) = [entry_of s t]" "current (cg_thr ?s t) = []"
    using n by (auto simp: nods_def entry_of_def answer_def current_def)
  have pt: "pushed (pcs s t)" "\<And>b. pcs s t \<noteq> Process b" "\<And>ns. pcs s t \<noteq> Backfill ns"
    using t(1) by (auto simp: pcs_def pushed_def)
  note np = not_pending [OF inv, of t]
  have wk: "\<not> working (pcs s t)" using t(1) by (auto simp: pcs_def)
  have inb: "(\<exists>l ns. pcs ?s l = Backfill ns \<and> x \<in> set ns) = (\<exists>l ns. pcs s l = Backfill ns \<and> x \<in> set ns)" for x
    using ex_Backfill [of "pcs s" t Outside x] wk by simp
  have tl: "told s t x \<longleftrightarrow> x = r" "\<not> told ?s t x" for x
    using np(2) [of x] n inb [of "(t, x)"] not_pending_list(3) [OF inv, of t x] by (auto simp: told_def)
  have td: "u \<noteq> t \<Longrightarrow> told ?s u x = told s u x" for u x
    using inb [of "(u, x)"] by (simp add: told_def)
  have oth: "unprocessed ?s u = unprocessed s u" for u
    using ex_Process [of "pcs s" t Outside u] wk by (simp add: unprocessed_def)
  have th: "u \<noteq> t \<Longrightarrow> cg_thr ?s u = cg_thr s u" "wr_done (cg_thr ?s t) = wr_done (cg_thr s t) @ [(entry_of s t, r)]" for u
    by (simp_all add: answer_def)
  have "processed ?s u = processed s u" for u
  proof (cases "u = t")
    case True
    then show ?thesis using cur np(1) n pt th(2) by (simp add: processed_def pushed_def)
  next
    case False
    then show ?thesis using oth th(1) by (simp add: processed_def)
  qed
  moreover have "credited ?s u = credited s u" for u
  proof (cases "u = t")
    case True
    then show ?thesis using cur tl th(2) by (simp add: credited_def)
  next
    case False
    then show ?thesis using td th(1) by (simp add: credited_def)
  qed
  ultimately show ?thesis by (intro lin_ok_keep [OF lin]) auto
qed

lemma lin_ok_wait:
  assumes lin: "lin_ok log h s hist m" and inv: "cg_inv s" and st: "wait_step t s s'"
  shows "lin_ok log h s' hist m"
  using st
proof cases
  case check1_done then show ?thesis using lin_ok_leave [OF lin inv] by simp
next
  case check2_done then show ?thesis using lin_ok_leave [OF lin inv] by simp
qed (auto intro!: lin_ok_move [OF lin, where t = t] simp: pushed_def)


lemma lin_ok_call:
  assumes lin: "lin_ok log h s hist m" and inv: "cg_inv s" and st: "call_step t s s'"
  shows "lin_ok log h s' hist m"
proof -
  obtain ld where ok: "cg_ok (pcs s) (nods s) (cg_stack_head s) ld" using inv by (auto simp: cg_inv_def)
  have out: "nods s t = None" "wr_node (cg_thr s t) = None" "current (cg_thr s t) = []" "\<not> working (pcs s t)"
    "\<not> told s t x" if "pc s t = Outside" for x
    using cg_okD(7) [OF ok, of t] that not_pending(2) [OF inv, of t x] by (auto simp: pcs_def nods_def)
  have refuse: "lin_ok log h s' hist m" if "s' = answer t e r (pop_todo t s)" "pc s t = Outside" "r \<noteq> kSuccess" for e r
  proof -
    note o1 = out [OF that(2)]
    have th: "u \<noteq> t \<Longrightarrow> cg_thr s' u = cg_thr s u" "wr_done (cg_thr s' t) = wr_done (cg_thr s t) @ [(e, r)]"
      "current (cg_thr s' t) = []" for u
      by (simp_all add: that answer_def pop_todo_def)
    have pn: "pcs s' = pcs s" "nods s' = nods s" "cg_stack_head s' = cg_stack_head s"
      using that(2) o1 by (auto simp: that(1) pcs_def fun_eq_iff)
    have v: "unprocessed s' u = unprocessed s u" "told s' u x = told s u x" for u x
      by (simp_all add: unprocessed_def told_def pn)
    have "subseq (processed s u) (processed s' u)" for u
      by (cases "u = t") (use that(2) in \<open>simp_all add: processed_def v pn th pushed_def pcs_def subseq_rev_drop_many\<close>)
    moreover have "credited s' u = credited s u" for u
      by (cases "u = t") (simp_all add: credited_def v th o1 that(3))
    ultimately show ?thesis using that(1) by (intro lin_ok_keep [OF lin]) auto
  qed
  show ?thesis
    using st
  proof cases
    case (key_too_long e es) then show ?thesis using refuse by simp
  next
    case (no_buffer e es) then show ?thesis using refuse by simp
  next
    case (node e es)
    note o1 = out [OF node(2)]
    have th: "u \<noteq> t \<Longrightarrow> cg_thr s' u = cg_thr s u" "wr_done (cg_thr s' t) = wr_done (cg_thr s t)" for u
      using node by simp_all
    have pn: "pcs s' = (pcs s)(t := PushLoad)" "nods s' = (nods s)(t := Some None)" "cg_stack_head s' = cg_stack_head s"
      using node by (simp_all add: view_set_thr)
    have v: "unprocessed s' u = unprocessed s u" "told s' u x = told s u x" for u x
      using ex_Process [of "pcs s" t PushLoad u] ex_Backfill [of "pcs s" t PushLoad "(u, x)"] o1
        not_pending_list(1,2) [OF inv, of t] not_pending_list(3) [OF inv, of t x]
      by (auto simp: unprocessed_def told_def pn)
    have "processed s' u = processed s u" for u
      by (cases "u = t") (use node(2) in \<open>simp_all add: processed_def v pn th pushed_def pcs_def\<close>)
    moreover have "credited s' u = credited s u" for u
      by (cases "u = t") (simp_all add: credited_def v th o1)
    ultimately show ?thesis using node by (intro lin_ok_keep [OF lin]) auto
  qed (auto intro!: lin_ok_move [OF lin, where t = t] simp: pushed_def)
qed

lemma lin_ok_spurious:
  assumes lin: "lin_ok log h s hist m" and st: "spurious_step t s s'"
  shows "lin_ok log h s' hist m"
  using st by cases (auto intro!: lin_ok_move [OF lin, where t = t] simp: pushed_def)


text \<open>While \<open>t\<close> leads, only \<open>t\<close> has a batch.\<close>

lemma only_leader:
  assumes inv: "cg_inv s" and t: "holds (pc s t)"
  shows "working (pcs s l) \<Longrightarrow> l = t" "pcs s l = Process b \<Longrightarrow> l = t" "pcs s l = Backfill ns \<Longrightarrow> l = t"
proof -
  obtain ld where ok: "cg_ok (pcs s) (nods s) (cg_stack_head s) ld" using inv by (auto simp: cg_inv_def)
  have a: "holds (pcs s l) \<Longrightarrow> l = t" for l
    using cg_okD(1) [OF ok, of l] cg_okD(1) [OF ok, of t] t by (simp add: pcs_def)
  show "working (pcs s l) \<Longrightarrow> l = t" by (rule a) (cases "pcs s l"; simp)
  show "pcs s l = Process b \<Longrightarrow> l = t" "pcs s l = Backfill ns \<Longrightarrow> l = t" by (auto intro: a)
qed

lemma lin_ok_drain:
  assumes lin: "lin_ok log h s hist m" and inv: "cg_inv s" and t: "pc s t = Drain"
  shows "lin_ok log h (goto t (Process (ReverseChain (cg_stack_head s))) (s\<lparr>cg_stack_head := []\<rparr>)) hist m"
    (is "lin_ok log h ?s hist m")
proof -
  have h: "holds (pc s t)" using t by simp
  note only = only_leader [OF inv h]
  have no: "\<not> working (pcs s l)" for l using only(1) [of l] t by (auto simp: pcs_def)
  have nP: "pcs s l \<noteq> Process b" "pcs s l \<noteq> Backfill ns" for l b ns using no [of l] by auto
  have v: "unprocessed ?s u = unprocessed s u" "told ?s u x = told s u x" for u x
    using nP by (auto simp: unprocessed_def told_def ReverseChain_rev)
  have "pushed (pcs ?s u) = pushed (pcs s u)" "cg_thr ?s u = (if u = t then cg_thr s t\<lparr>wr_pc := Process (ReverseChain (cg_stack_head s))\<rparr> else cg_thr s u)" for u
    using t by (auto simp: pcs_def pushed_def)
  then show ?thesis
    by (intro lin_ok_keep [OF lin]) (simp_all add: processed_def credited_def v)
qed

lemma lin_ok_fill:
  assumes lin: "lin_ok log h s hist m" and inv: "cg_inv s" and t: "pc s t = Backfill ((n, r) # ns)"
  shows "lin_ok log h (store_result n r (goto t (Backfill ns) s)) hist m" (is "lin_ok log h ?s hist m")
proof -
  have h: "holds (pc s t)" and pt: "pcs s t = Backfill ((n, r) # ns)" using t by (simp_all add: pcs_def)
  note only = only_leader [OF inv h]
  obtain ld where ok: "cg_ok (pcs s) (nods s) (cg_stack_head s) ld" using inv by (auto simp: cg_inv_def)
  note D = cg_okD [OF ok]
  have ld: "ld = Some t" using D(1) [of t] h by (simp add: pcs_def)
  have n: "nods s n = Some None" "n \<notin> fst ` set ns" using D(5) [of n] D(3) ld pt by auto
  have pn: "pcs ?s = (pcs s)(t := Backfill ns)" "nods ?s = (nods s)(n := Some (Some r))" using n(1) by simp_all
  have be: "pcs s l = Backfill ms \<longleftrightarrow> l = t \<and> ms = (n, r) # ns" for l ms
    using only(3) [of l ms] pt by auto
  have be': "pcs ?s l = Backfill ms \<longleftrightarrow> l = t \<and> ms = ns" for l ms
    using be [of l ms] by (auto simp: pn)
  have bf: "(\<exists>l ms. pcs s l = Backfill ms \<and> x \<in> set ms) \<longleftrightarrow> x \<in> set ((n, r) # ns)"
    "(\<exists>l ms. pcs ?s l = Backfill ms \<and> x \<in> set ms) \<longleftrightarrow> x \<in> set ns" for x
    unfolding be be' by auto
  have td: "told ?s u x = told s u x" for u x
    unfolding told_def bf using n by (auto simp: pn image_iff)
  have un: "unprocessed ?s u = unprocessed s u" for u
  proof -
    have "pcs s l \<noteq> Process b" "pcs ?s l \<noteq> Process b" for l b
      using only(2) [of l b] pt by (auto simp: pn)
    then show ?thesis by (simp add: unprocessed_def)
  qed
  have th: "wr_done (cg_thr ?s u) = wr_done (cg_thr s u)" "current (cg_thr ?s u) = current (cg_thr s u)"
    "pushed (pcs ?s u) = pushed (pcs s u)" for u
    using pt by (simp_all add: current_store pn pushed_def) (simp_all add: store_result_def)
  show ?thesis
    by (intro lin_ok_keep [OF lin]) (simp_all add: processed_def credited_def td un th del: view_store_result)
qed

lemma processed_le:
  assumes "calls_ok progs s" "u < length progs"
  shows "length (processed s u) \<le> length (progs ! u)"
proof -
  have "map fst (wr_done (cg_thr s u)) @ current (cg_thr s u) @ wr_todo (cg_thr s u) = progs ! u"
    using assms by (simp add: calls_ok_def)
  then have "length (progs ! u) = length (wr_done (cg_thr s u)) + length (current (cg_thr s u)) + length (wr_todo (cg_thr s u))"
    by (metis add.assoc length_append length_map)
  then show ?thesis by (simp add: processed_def)
qed

text \<open>The batch: its records enter the history behind those of earlier batches.\<close>

lemma batch_views:
  assumes inv: "cg_inv s" and t: "pc s t = Process b" and s': "s' = goto t (Backfill (zip b rs)) (s\<lparr>cg_wal := w'\<rparr>)"
    and l: "length rs = length b"
  shows "distinct b" "u \<in> set b \<Longrightarrow> u < cg_writers s"
    "processed s' u = processed s u @ (if u \<in> set b then [entry_of s u] else [])"
    "credited s' u = credited s u @ (if (u, kSuccess) \<in> set (zip b rs) then [entry_of s u] else [])"
proof -
  have h: "holds (pc s t)" and pt: "pcs s t = Process b" using t by (simp_all add: pcs_def)
  note only = only_leader [OF inv h]
  obtain ld where ok: "cg_ok (pcs s) (nods s) (cg_stack_head s) ld" using inv by (auto simp: cg_inv_def)
  note D = cg_okD [OF ok]
  have ld: "ld = Some t" using D(1) [of t] h by (simp add: pcs_def)
  show "distinct b" using D(3) ld pt by simp
  have B: "u \<notin> set (cg_stack_head s)" "pushed (pcs s u)" "nods s u = Some None" "current (cg_thr s u) = [entry_of s u]"
    if "u \<in> set b" for u
    using D(4,5) [of u] ld pt that by (auto simp: nods_def current_def entry_of_def split: option.splits)
  show "u \<in> set b \<Longrightarrow> u < cg_writers s"
    using B(2) [of u] inv unfolding cg_inv_def pushed_def by (metis not_less)
  have pn: "pcs s' = (pcs s)(t := Backfill (zip b rs))" "nods s' = nods s" by (simp_all add: s')
  have P: "pcs s l = Process c \<longleftrightarrow> l = t \<and> c = b" "pcs s' l \<noteq> Process c" "pcs s l \<noteq> Backfill ns"
    "pcs s' l = Backfill ns \<longleftrightarrow> l = t \<and> ns = zip b rs" for l c ns
  proof -
    show 1: "pcs s l = Process c \<longleftrightarrow> l = t \<and> c = b" for l c using only(2) [of l c] pt by auto
    show "pcs s' l \<noteq> Process c" using 1 [of l c] by (simp add: pn)
    show 3: "pcs s l \<noteq> Backfill ns" for l ns using only(3) [of l ns] pt by auto
    show "pcs s' l = Backfill ns \<longleftrightarrow> l = t \<and> ns = zip b rs" using 3 [of l ns] by (auto simp: pn)
  qed
  have un: "unprocessed s u \<longleftrightarrow> u \<in> set (cg_stack_head s) \<or> u \<in> set b" "unprocessed s' u \<longleftrightarrow> u \<in> set (cg_stack_head s)" for u
    by (auto simp: unprocessed_def P s')
  have td: "told s u x \<longleftrightarrow> nods s u = Some (Some x)"
    "told s' u x \<longleftrightarrow> nods s u = Some (Some x) \<or> (u, x) \<in> set (zip b rs)" for u x
    by (auto simp: told_def P pn(2))
  have th: "wr_done (cg_thr s' u) = wr_done (cg_thr s u)" "current (cg_thr s' u) = current (cg_thr s u)"
    "pushed (pcs s' u) = pushed (pcs s u)" for u
    using pt by (simp_all add: s' pushed_def)
  show "processed s' u = processed s u @ (if u \<in> set b then [entry_of s u] else [])"
    using B [of u] by (simp add: processed_def un th)
  show "credited s' u = credited s u @ (if (u, kSuccess) \<in> set (zip b rs) then [entry_of s u] else [])"
    using B [of u] by (auto simp: credited_def td th dest: set_zip_leftD)
qed

lemma lin_ok_batch:
  assumes lin: "lin_ok log h s hist m" and inv: "cg_inv s" and calls: "calls_ok progs s"
    and len: "length log + sum_list (map length progs) + 1 < 2 ^ 64"
    and t: "pc s t = Process b" "ProcessBatch (map (entry_of s) b) (cg_wal s) = (rs, w')"
    and s': "s' = goto t (Backfill (zip b rs)) (s\<lparr>cg_wal := w'\<rparr>)" and calls': "calls_ok progs s'"
  shows "\<exists>hist m. lin_ok log h s' hist m"
proof -
  have l: "length rs = length b" using ProcessBatch_length [OF t(2)] by simp
  note V = batch_views [OF inv t(1) s' l]
  note L = lin [unfolded lin_ok_def]
  define new where "new = map (\<lambda>n. (n, entry_of s n)) b"
  have on: "own u new = (if u \<in> set b then [entry_of s u] else [])" for u
    unfolding new_def by (rule own_map [OF V(1)])
  have sub: "subseq (own u (hist @ new)) (processed s' u)" for u
    using L on [of u] by (auto simp: V(3) intro!: list_emb_append_mono)
  have tags: "\<forall>x \<in> set (hist @ new). fst x < length progs"
    using L V(2) calls by (auto simp: new_def calls_ok_def)
  have "length (hist @ new) = (\<Sum>u < length progs. length (own u (hist @ new)))" by (rule own_length [OF tags])
  also have "\<dots> \<le> (\<Sum>u < length progs. length (progs ! u))"
  proof (rule sum_mono)
    fix u assume "u \<in> {..<length progs}"
    then show "length (own u (hist @ new)) \<le> length (progs ! u)"
      using list_emb_length [OF sub [of u]] processed_le [OF calls', of u] by simp
  qed
  also have "\<dots> = sum_list (map length progs)" by (simp add: sum_list_sum_nth atLeast0LessThan)
  finally have le: "length hist + length b \<le> sum_list (map length progs)" by (simp add: new_def)
  have eo: "entries_ok (map (entry_of s) b)"
  proof -
    have "length (e_key (entry_of s u)) \<le> kWalKeyMax" if "u \<in> set b" for u
    proof -
      obtain ld where ok: "cg_ok (pcs s) (nods s) (cg_stack_head s) ld" using inv by (auto simp: cg_inv_def)
      have "ld = Some t" using cg_okD(1) [OF ok, of t] t(1) by (simp add: pcs_def)
      then have "nods s u = Some None" using cg_okD(5) [OF ok, of u] that t(1) by (simp add: pcs_def)
      then show ?thesis using calls by (auto simp: nods_def entry_of_def calls_ok_def)
    qed
    then show ?thesis by (auto simp: entries_ok_def entry_ok_def)
  qed
  have w: "wal_inv (cg_wal s) (log @ map snd hist) h m" using L by blast
  have "length (log @ map snd hist) + length (map (entry_of s) b) + 1 < 2 ^ 64" using le len by simp
  from ProcessBatch_inv [OF w eo this t(2)]
  obtain dn rest where P: "map (entry_of s) b = dn @ rest" "wal_inv w' ((log @ map snd hist) @ dn) h m"
    "kSuccess \<in> set rs \<longrightarrow> wal_inv w' ((log @ map snd hist) @ dn) h (length ((log @ map snd hist) @ dn))"
    "\<forall>i < length b. rs ! i = kSuccess \<longrightarrow> i < length dn"
    by auto
  define k where "k = length dn"
  define hist' where "hist' = hist @ take k new"
  have dn: "dn = map snd (take k new)"
  proof -
    have "dn = take k (map (entry_of s) b)" by (simp add: P(1) k_def)
    also have "\<dots> = map snd (take k new)" by (simp add: new_def take_map comp_def)
    finally show ?thesis .
  qed
  define m' where "m' = (if kSuccess \<in> set rs then length log + length hist' else m)"
  have wi: "wal_inv w' (log @ map snd hist') h m'"
    using P(2,3) by (simp add: m'_def hist'_def dn)
  have mono: "subseq (own u (take j x)) (own u x)" for u j x
    by (metis append_take_drop_id own_append subseq_order.refl subseq_rev_drop_many)
  have hs: "subseq (own u hist') (processed s' u)" for u
  proof -
    have "subseq (own u hist') (own u (hist @ new))"
      unfolding hist'_def by (simp add: list_emb_append_mono mono)
    then show ?thesis using sub [of u] subseq_order.trans by blast
  qed
  have cs: "subseq (credited s' u) (own u (take (m' - length log) hist'))" for u
  proof (cases "kSuccess \<in> set rs")
    case True
    have a: "subseq (credited s u) (own u hist)" using L mono [of u] subseq_order.trans by blast
    have b: "subseq (if (u, kSuccess) \<in> set (zip b rs) then [entry_of s u] else []) (own u (take k new))"
    proof (cases "(u, kSuccess) \<in> set (zip b rs)")
      case True
      then obtain i where i: "i < length b" "b ! i = u" "rs ! i = kSuccess" using l by (auto simp: in_set_zip)
      then have "i < k" using P(4) by (simp add: k_def)
      from own_take [OF this i(1), of "entry_of s"] show ?thesis using True i(2) by (simp add: new_def)
    qed simp
    have "take (m' - length log) hist' = hist'" using True by (simp add: m'_def)
    moreover have "subseq (credited s' u) (own u hist')"
      unfolding V(4) hist'_def own_append by (rule list_emb_append_mono [OF a b])
    ultimately show ?thesis by (simp only:)
  next
    case False
    have "m \<le> length log + length hist" using w by (simp add: wal_inv_def)
    then have "take (m' - length log) hist' = take (m - length log) hist"
      using False by (simp add: m'_def hist'_def)
    moreover have "(u, kSuccess) \<notin> set (zip b rs)" using False by (auto dest: set_zip_rightD)
    ultimately show ?thesis using L by (simp add: V(4))
  qed
  have "lin_ok log h s' hist' m'"
    using wi hs cs tags calls unfolding lin_ok_def
    by (auto simp: s' hist'_def calls_ok_def dest: in_set_takeD)
  then show ?thesis by blast
qed

lemma lin_ok_step:
  assumes lin: "lin_ok log h s hist m" and inv: "cg_inv s" and calls: "calls_ok progs s"
    and len: "length log + sum_list (map length progs) + 1 < 2 ^ 64" and st: "thread_step t s s'"
  shows "\<exists>hist m. lin_ok log h s' hist m"
proof -
  note c' = calls_ok_step [OF calls inv st]
  consider (c) "call_step t s s'" | (p) "push_step t s s'" | (l) "leader_step t s s'" | (w) "wait_step t s s'"
    using st by (auto simp: thread_step_def)
  then show ?thesis
  proof cases
    case c then show ?thesis using lin_ok_call [OF lin inv] by blast
  next
    case p then show ?thesis using lin_ok_push [OF lin inv] by blast
  next
    case w then show ?thesis using lin_ok_wait [OF lin inv] by blast
  next
    case l
    then show ?thesis
    proof cases
      case drain then show ?thesis using lin_ok_drain [OF lin inv] by blast
    next
      case (batch b rs w')
      show ?thesis by (rule lin_ok_batch [OF lin inv calls len batch(2,3,1) c'])
    next
      case fill then show ?thesis using lin_ok_fill [OF lin inv] by blast
    next
      case notify_all
      have "lin_ok log h s' hist m"
        by (rule lin_ok_same [OF lin])
          (use notify_all in \<open>auto simp: pcs_def wake_def pushed_def split: writer_pc.splits\<close>)
      then show ?thesis by blast
    qed (auto intro!: exI [of _ hist] exI [of _ m] lin_ok_move [OF lin, where t = t] simp: pushed_def)
  qed
qed

lemma lin_ok_reach:
  assumes "cg_reach w progs s" and inv: "wal_inv w log h m"
    and len: "length log + sum_list (map length progs) + 1 < 2 ^ 64"
  shows "\<exists>hist m. lin_ok log h s hist m"
  using assms(1)
proof (induction rule: cg_reach.induct)
  case start
  have "lin_ok log h (cg_init w progs) [] m"
    using inv by (simp add: lin_ok_def cg_init_def own_def credited_def told_def nods_def pcs_def successes_def)
  then show ?case by blast
next
  case (step s s')
  then show ?case
    using lin_ok_step [OF _ cg_inv_reach [OF step.hyps(1)] writers_reach [OF step.hyps(1)] len]
    by (auto simp: cg_step_def)
next
  case (spurious s t s')
  then show ?case using lin_ok_spurious by blast
qed


section \<open>A writer alone\<close>

text \<open>One step after another of the only thread: the run of a writer that meets nobody, which is
  the sequential \<open>WriteWal\<close> of the model of the log.\<close>

lemma solo_step: "cg_reach w progs s \<Longrightarrow> thread_step 0 s s' \<Longrightarrow> cg_writers s = 1 \<Longrightarrow> cg_reach w progs s'"
  by (rule cg_reach.step) (auto simp: cg_step_def)

lemma goto_twice: "goto t p (goto t q s) = goto t p s"
  by (simp add: goto_def set_thr_def)

definition solo :: "wal \<Rightarrow> writer_pc \<Rightarrow> rc option \<Rightarrow> wal_entry \<Rightarrow> nat list \<Rightarrow> u64 \<Rightarrow> bool \<Rightarrow> CommitGroup" where
  "solo w p r e stk ep ld = \<lparr>cg_stack_head = stk, cg_epoch = ep, cg_leader_active = ld, cg_wal = w, cg_writers = 1,
     cg_thr = \<lambda>t. if t = 0 then \<lparr>wr_pc = p, wr_node = Some \<lparr>wn_entry = e, wn_result = r\<rparr>, wr_todo = [], wr_done = []\<rparr>
                  else \<lparr>wr_pc = Outside, wr_node = None, wr_todo = [], wr_done = []\<rparr>\<rparr>"

lemma solo_simps [simp]:
  "pc (solo w p r e stk ep ld) 0 = p" "cg_stack_head (solo w p r e stk ep ld) = stk"
  "cg_epoch (solo w p r e stk ep ld) = ep" "cg_leader_active (solo w p r e stk ep ld) = ld"
  "cg_wal (solo w p r e stk ep ld) = w" "cg_writers (solo w p r e stk ep ld) = 1"
  "entry_of (solo w p r e stk ep ld) 0 = e" "result_of (solo w p r e stk ep ld) 0 = r"
  "goto 0 q (solo w p r e stk ep ld) = solo w q r e stk ep ld"
  "store_result 0 x (solo w p r e stk ep ld) = solo w p (Some x) e stk ep ld"
  "solo w p r e stk ep ld\<lparr>cg_stack_head := stk'\<rparr> = solo w p r e stk' ep ld"
  "solo w p r e stk ep ld\<lparr>cg_epoch := ep'\<rparr> = solo w p r e stk ep' ld"
  "solo w p r e stk ep ld\<lparr>cg_leader_active := ld'\<rparr> = solo w p r e stk ep ld'"
  "solo w p r e stk ep ld\<lparr>cg_wal := w'\<rparr> = solo w' p r e stk ep ld"
  by (simp_all add: solo_def goto_def set_thr_def store_result_def entry_of_def result_of_def fun_eq_iff)

lemma solo_wake: "solo w NotifyAll r e stk ep ld\<lparr>cg_thr := wake \<circ> cg_thr (solo w NotifyAll r e stk ep ld)\<rparr> = solo w NotifyAll r e stk ep ld"
  by (simp add: solo_def wake_def fun_eq_iff)

lemma solo_run:
  assumes key: "length (e_key e) \<le> kWalKeyMax" and buf: "w_buf w \<noteq> None" and batch: "ProcessBatch [e] w = ([r], w')"
  shows "\<exists>s. cg_reach w [[e]] s \<and> cg_wal s = w' \<and> pc s 0 = Outside \<and> wr_done (cg_thr s 0) = [(e, r)]"
proof -
  note go = solo_step [where w = w and progs = "[[e]]"]
  note T = thread_step_def
  have 1: "cg_reach w [[e]] (solo w PushLoad None e [] 0 False)"
  proof (rule go [OF cg_reach.start])
    have "call_step 0 (cg_init w [[e]]) (set_thr 0 (cg_thr (cg_init w [[e]]) 0\<lparr>wr_pc := PushLoad, wr_todo := [],
       wr_node := Some \<lparr>wn_entry = e, wn_result = None\<rparr>\<rparr>) (cg_init w [[e]]))"
      by (rule call_step.node) (use key buf in \<open>simp_all add: cg_init_def\<close>)
    moreover have "set_thr 0 (cg_thr (cg_init w [[e]]) 0\<lparr>wr_pc := PushLoad, wr_todo := [],
       wr_node := Some \<lparr>wn_entry = e, wn_result = None\<rparr>\<rparr>) (cg_init w [[e]]) = solo w PushLoad None e [] 0 False"
      by (simp add: cg_init_def solo_def set_thr_def fun_eq_iff)
    ultimately show "thread_step 0 (cg_init w [[e]]) (solo w PushLoad None e [] 0 False)" by (simp add: T)
  qed (simp add: cg_init_def)
  have 2: "cg_reach w [[e]] (solo w (PushCas None) None e [] 0 False)"
    by (rule go [OF 1]) (use push_step.load [of "solo w PushLoad None e [] 0 False" 0] in \<open>simp_all add: T stack_top_def\<close>)
  have 3: "cg_reach w [[e]] (solo w Elect None e [0] 0 False)"
    by (rule go [OF 2]) (use push_step.cas [of "solo w (PushCas None) None e [] 0 False" 0 None] in \<open>simp_all add: T stack_top_def\<close>)
  have 4: "cg_reach w [[e]] (solo w Drain None e [0] 0 True)"
    by (rule go [OF 3]) (use call_step.elected [of "solo w Elect None e [0] 0 False" 0] in \<open>simp_all add: T\<close>)
  have 5: "cg_reach w [[e]] (solo w (Process [0]) None e [] 0 True)"
    by (rule go [OF 4]) (use leader_step.drain [of "solo w Drain None e [0] 0 True" 0] in \<open>simp_all add: T ReverseChain_rev\<close>)
  have 6: "cg_reach w [[e]] (solo w' (Backfill [(0, r)]) None e [] 0 True)"
    by (rule go [OF 5]) (use leader_step.batch [of "solo w (Process [0]) None e [] 0 True" 0 "[0]" "[r]" w'] batch in \<open>simp_all add: T\<close>)
  have 7: "cg_reach w [[e]] (solo w' (Backfill []) (Some r) e [] 0 True)"
    by (rule go [OF 6]) (use leader_step.fill [of "solo w' (Backfill [(0, r)]) None e [] 0 True" 0 0 r "[]"] in \<open>simp_all add: T\<close>)
  have 8: "cg_reach w [[e]] (solo w' Publish (Some r) e [] 0 True)"
    by (rule go [OF 7]) (use leader_step.filled [of "solo w' (Backfill []) (Some r) e [] 0 True" 0] in \<open>simp_all add: T\<close>)
  have 9: "cg_reach w [[e]] (solo w' NotifyAll (Some r) e [] 1 True)"
    by (rule go [OF 8]) (use leader_step.publish [of "solo w' Publish (Some r) e [] 0 True" 0] in \<open>simp_all add: T\<close>)
  have 10: "cg_reach w [[e]] (solo w' Recheck (Some r) e [] 1 True)"
    by (rule go [OF 9]) (use leader_step.notify_all [of "solo w' NotifyAll (Some r) e [] 1 True" 0] in \<open>simp_all add: T solo_wake\<close>)
  have 11: "cg_reach w [[e]] (solo w' StepDown (Some r) e [] 1 True)"
    by (rule go [OF 10]) (use leader_step.recheck_none [of "solo w' Recheck (Some r) e [] 1 True" 0] in \<open>simp_all add: T\<close>)
  have 12: "cg_reach w [[e]] (solo w' LookAgain (Some r) e [] 1 False)"
    by (rule go [OF 11]) (use leader_step.step_down [of "solo w' StepDown (Some r) e [] 1 True" 0] in \<open>simp_all add: T\<close>)
  have 13: "cg_reach w [[e]] (solo w' Check1 (Some r) e [] 1 False)"
    by (rule go [OF 12]) (use leader_step.nothing_left [of "solo w' LookAgain (Some r) e [] 1 False" 0] in \<open>simp_all add: T\<close>)
  have "wait_step 0 (solo w' Check1 (Some r) e [] 1 False) (answer 0 e r (solo w' Check1 (Some r) e [] 1 False))"
    using wait_step.check1_done [of "solo w' Check1 (Some r) e [] 1 False" 0 r] by simp
  then have "cg_reach w [[e]] (answer 0 e r (solo w' Check1 (Some r) e [] 1 False))"
    by (intro go [OF 13]) (simp_all add: T)
  moreover have "cg_wal (answer 0 e r (solo w' Check1 (Some r) e [] 1 False)) = w'"
    "pc (answer 0 e r (solo w' Check1 (Some r) e [] 1 False)) 0 = Outside"
    "wr_done (cg_thr (answer 0 e r (solo w' Check1 (Some r) e [] 1 False)) 0) = [(e, r)]"
    by (simp_all add: answer_def solo_def)
  ultimately show ?thesis by blast
qed


lemma demo_solo:
  obtains s where "cg_reach (demo_wal Strict) [[demo_entry]] s" "wr_done (cg_thr s 0) = [(demo_entry, kSuccess)]"
    "pc s 0 = Outside"
proof -
  obtain w where w: "WriteWal (demo_wal Strict) demo_entry = (kSuccess, w)" by (rule demo_write)
  have key: "length (e_key demo_entry) \<le> kWalKeyMax" by (simp add: demo_entry_def kWalKeyMax_def)
  have "wal_win (demo_wal Strict) [] 0" using demo_inv(1) by (simp add: wal_inv_def)
  then have buf: "w_buf (demo_wal Strict) \<noteq> None" using wal_winD(15) by simp
  obtain rs w' where pb: "ProcessBatch [demo_entry] (demo_wal Strict) = (rs, w')" by fastforce
  have "sync_level (demo_wal Strict)" by (simp add: sync_level_def demo_inv IsWalSyncLevel_def)
  then have "hd rs = kSuccess" using w key buf pb by (simp add: WriteWal_def)
  then have "rs = [kSuccess]" using ProcessBatch_length [OF pb] by (cases rs) auto
  then show thesis using solo_run [OF key buf] pb that by blast
qed

section \<open>Properties\<close>

text \<open>C16: mutual exclusion and lifetime of nodes, in every state the threads can reach. At most one
  thread owns the window, exactly when the flag is set; every node on the stack or in a batch is
  there once, and its owner is still inside \<open>WriteWal\<close> waiting for the result, so the leader
  never touches a stack frame that is gone; a leader that gives up has its own result.\<close>

theorem commit_group_exclusive:
  assumes "cg_reach w progs s"
  shows "(\<forall>t u. holds (pc s t) \<and> holds (pc s u) \<longrightarrow> t = u) \<and> (cg_leader_active s \<longleftrightarrow> (\<exists>t. holds (pc s t)))
    \<and> distinct (cg_stack_head s)
    \<and> (\<forall>t \<in> set (cg_stack_head s). pushed (pc s t) \<and> nods s t = Some None)
    \<and> (\<forall>l. distinct (batch_of (pc s l))
         \<and> (\<forall>t \<in> set (batch_of (pc s l)). pushed (pc s t) \<and> nods s t = Some None \<and> t \<notin> set (cg_stack_head s)))
    \<and> (\<forall>t. pc s t \<in> {StepDown, LookAgain, Retake} \<longrightarrow> result_of s t \<noteq> None)"
proof -
  obtain ld where ok: "cg_ok (pcs s) (nods s) (cg_stack_head s) ld" and ld: "cg_leader_active s = (ld \<noteq> None)"
    using cg_inv_reach [OF assms] by (auto simp: cg_inv_def)
  note D = cg_okD [OF ok, unfolded pcs_def]
  have b: "ld = Some l" if "batch_of (pc s l) \<noteq> []" for l
    using D(1) [of l] that by (cases "pc s l") simp_all
  have bt: "batch (\<lambda>t. pc s t) ld = batch_of (pc s l)" if "ld = Some l" for l using that by simp
  have r: "result_of s t \<noteq> None" if t: "pc s t \<in> {StepDown, LookAgain, Retake}" for t
    using D(6,9) [of t] t by (auto simp: result_of_nods pushed_def bind_eq_None_conv)
  have "distinct (batch_of (pc s l))" for l
    using D(3) b [of l] bt [of l] by (cases "batch_of (pc s l) = []") simp_all
  moreover have "pushed (pc s t) \<and> nods s t = Some None \<and> t \<notin> set (cg_stack_head s)"
    if t: "t \<in> set (batch_of (pc s l))" for l t
  proof -
    have "ld = Some l" using b [of l] t by (cases "batch_of (pc s l)") simp_all
    then show ?thesis using D(4,5) [of t] bt [of l] t by auto
  qed
  ultimately show ?thesis using D(1,2,5) ld r by auto
qed

theorem commit_group_exclusive_witness:
  "cg_leader_active (cg_init (demo_wal Strict) [[demo_entry], [demo_entry]])
     \<longleftrightarrow> (\<exists>t. holds (pc (cg_init (demo_wal Strict) [[demo_entry], [demo_entry]]) t))"
  using commit_group_exclusive [OF cg_reach.start] by blast

text \<open>C14: nobody is left waiting. In every reachable state either some thread can go on or every
  thread has left \<open>WriteWal\<close> with an answer for each of its records; in particular no wake-up
  is lost and no node is forgotten on the stack. (Runs end, so every call is answered, whatever
  the schedule.) The bound keeps the 64-bit epoch from coming round.\<close>

theorem commit_group_progress:
  assumes "cg_reach w progs s" and "3 * sum_list (map length progs) < 2 ^ 64"
  shows "(\<exists>s'. cg_step s s')
    \<or> (\<forall>t < length progs. pc s t = Outside \<and> map fst (wr_done (cg_thr s t)) = progs ! t)"
proof (rule disjCI)
  assume no: "\<not> (\<forall>t < length progs. pc s t = Outside \<and> map fst (wr_done (cg_thr s t)) = progs ! t)"
  note inv = cg_inv_reach [OF assms(1)] and ep = cg_ep_reach [OF assms] and calls = writers_reach [OF assms(1)]
  obtain t where t: "t < length progs" "\<not> (pc s t = Outside \<and> map fst (wr_done (cg_thr s t)) = progs ! t)"
    using no by blast
  have n: "cg_writers s = length progs" using calls by (simp add: calls_ok_def)
  have todo: "wr_todo (cg_thr s t) \<noteq> []" if "pc s t = Outside"
  proof -
    have "nods s t = None" using inv that by (auto simp: cg_inv_def pcs_def dest: cg_okD(7) [where t = t])
    then show ?thesis using calls t that by (auto simp: calls_ok_def nods_def current_def)
  qed
  consider e where "pc s t = Asleep e" | "holds (pc s t) \<or> candidate (pc s t)"
    | "\<And>e. pc s t \<noteq> Asleep e" "\<not> holds (pc s t)" "\<not> candidate (pc s t)" by blast
  then show "\<exists>s'. cg_step s s'"
  proof cases
    case 1 then show ?thesis using asleep_has_help [OF inv ep 1] by (auto simp: cg_step_def)
  next
    case 2 then show ?thesis using leader_can_step [OF 2] t n by (auto simp: cg_step_def)
  next
    case 3 then show ?thesis using other_can_step [of s t] todo t n by (auto simp: cg_step_def)
  qed
qed

theorem commit_group_progress_witness: "\<exists>s. cg_step (cg_init (demo_wal Strict) [[demo_entry], [demo_entry]]) s"
  using commit_group_progress [OF cg_reach.start [where w = "demo_wal Strict" and progs = "[[demo_entry], [demo_entry]]"]]
  by (auto simp: cg_init_def)

text \<open>C13: the log under concurrent writers. The records written since the start are an
  interleaving of the threads' calls: each thread's records enter in the order of its calls,
  none twice; and all records whose writer was told success lie in the durable part of the log.
  The invariant of the log holds throughout.\<close>

theorem commit_group_log:
  assumes "cg_reach w progs s" and "wal_inv w log h m0"
    and "length log + sum_list (map length progs) + 1 < 2 ^ 64"
  shows "\<exists>hist m. wal_inv (cg_wal s) (log @ map snd hist) h m
    \<and> (\<forall>x \<in> set hist. fst x < length progs)
    \<and> (\<forall>t < length progs. subseq (own t hist) (progs ! t)
         \<and> subseq (successes (wr_done (cg_thr s t))) (own t (take (m - length log) hist)))"
proof -
  note calls = writers_reach [OF assms(1)]
  obtain hist m where L: "lin_ok log h s hist m" using lin_ok_reach [OF assms] by blast
  have "subseq (processed s t) (progs ! t)" if "t < length progs" for t
  proof -
    have "map fst (wr_done (cg_thr s t)) @ current (cg_thr s t) @ wr_todo (cg_thr s t) = progs ! t"
      using calls that by (simp add: calls_ok_def)
    then have "subseq (map fst (wr_done (cg_thr s t)) @ current (cg_thr s t)) (progs ! t)"
      by (metis append_assoc subseq_order.refl subseq_rev_drop_many)
    then show ?thesis by (auto simp: processed_def dest: subseq_order.trans [OF subseq_rev_drop_many [OF subseq_order.refl]])
  qed
  moreover have "subseq (successes (wr_done (cg_thr s t))) (credited s t)" for t
    by (simp add: credited_def subseq_rev_drop_many)
  ultimately show ?thesis
    using L calls unfolding lin_ok_def calls_ok_def
    by (intro exI [of _ hist] exI [of _ m]) (metis subseq_order.trans)
qed

theorem commit_group_log_witness:
  "\<exists>(s :: CommitGroup) hist m. wr_done (cg_thr s 0) = [(demo_entry, kSuccess)] \<and> wal_inv (cg_wal s) (map snd hist) 0 m
     \<and> subseq [demo_entry] (own 0 (take m hist))"
proof -
  obtain s where s: "cg_reach (demo_wal Strict) [[demo_entry]] s" "wr_done (cg_thr s 0) = [(demo_entry, kSuccess)]"
    by (rule demo_solo)
  have "length ([] :: wal_entry list) + sum_list (map length [[demo_entry]]) + 1 < 2 ^ 64" by simp
  from commit_group_log [OF s(1) demo_inv(1) this]
  obtain hist m where "wal_inv (cg_wal s) (map snd hist) 0 m"
    "subseq (successes (wr_done (cg_thr s 0))) (own 0 (take m hist))" by auto
  then show ?thesis using s(2) by (intro exI [of _ s] exI [of _ hist] exI [of _ m]) simp
qed

end
