(* ===== verification/Cabe_ReactorLoop.thy ===== *)
theory Cabe_ReactorLoop
  imports Cabe_ReactorTheorems
begin

text \<open>
  \<open>engine/reactor.cpp\<close>, the event loop: calling threads push operations onto the reactor's
  lock-free inbox and sleep on their wake-up word; the reactor takes the whole inbox, executes
  the operations in order of arrival and answers each; closing pushes a stop operation, after
  which the reactor closes its devices, answers what it still finds and ends.

  The model is the interleaving of the atomic operations of the calling threads
  (\<open>SubmitAndWait\<close>), the reactor thread (\<open>Run\<close>) and the closing thread (\<open>Reactor::Stop\<close>, called by
  \<open>Engine::Close\<close>). An operation's execution is one step: it touches only what the reactor
  owns and the caller's buffers, and the caller is blocked. Each thread has one wake-up word
  for all its calls, and the reactor may still touch it when the call has returned. A sleeper
  that wakes for no reason and a weak compare-and-swap that fails are steps as well
  (\<open>spurious_step\<close>).
\<close>

section \<open>State\<close>

type_synonym answer = "rc \<times> bytes option"

text \<open>A node in the inbox: the operation of a thread, or the stop operation of the closing one.\<close>

datatype request = Request nat | StopRequest

text \<open>Where a calling thread is; the number is the wake-up word as it last saw it.\<close>

datatype caller_pc =
    Away | InLoad u32 | InCas u32 "request option" | InNotify u32
  | Look u32 | WakeWait u32 | Sleeping u32 | Reload

record caller =
  cl_pc :: caller_pc
  cl_node :: "(op_node \<times> answer option) option"   \<comment> \<open>inner \<open>None\<close>: \<open>kOpPending\<close>\<close>
  cl_todo :: "op_node list"
  cl_done :: "(op_node \<times> answer) list"
  cl_wake :: u32

text \<open>Where the reactor is: serving a batch, failing the rest of the batch behind a stop, failing
  what came in while closing. \<open>Store\<close>, \<open>Bump\<close> and \<open>Ping\<close> are the three steps of \<open>Finalize\<close>.\<close>

datatype phase = Serve | FailBatch | FailLate

datatype reactor_pc =
    Poll | Block | Parked
  | Chain phase "request list" | Store phase nat answer "request list"
  | Bump phase nat "request list" | Ping phase nat "request list" | Exited

datatype closer_pc = NotClosing | StopLoad | StopCas "request option" | StopNotify | Joining | Joined

record reactor_loop =
  rl_inbox :: "request list"
  rl_pc :: reactor_pc
  rl_reactor :: reactor
  rl_closer :: closer_pc
  rl_callers :: nat
  rl_thr :: "nat \<Rightarrow> caller"

definition set_caller :: "nat \<Rightarrow> caller \<Rightarrow> reactor_loop \<Rightarrow> reactor_loop" where
  "set_caller t x s = s\<lparr>rl_thr := (rl_thr s)(t := x)\<rparr>"

definition caller_to :: "nat \<Rightarrow> caller_pc \<Rightarrow> reactor_loop \<Rightarrow> reactor_loop" where
  "caller_to t p s = set_caller t (rl_thr s t\<lparr>cl_pc := p\<rparr>) s"

definition inbox_top :: "request list \<Rightarrow> request option" where
  "inbox_top ns = (case ns of [] \<Rightarrow> None | n # _ \<Rightarrow> Some n)"

definition node_result :: "caller \<Rightarrow> answer option" where
  "node_result x = Option.bind (cl_node x) snd"

section \<open>The calling thread\<close>

text \<open>The call returns; the node goes with the stack frame.\<close>

definition leave :: "nat \<Rightarrow> answer \<Rightarrow> reactor_loop \<Rightarrow> reactor_loop" where
  "leave t a s = set_caller t (rl_thr s t\<lparr>cl_pc := Away, cl_node := None,
     cl_done := cl_done (rl_thr s t) @ [(fst (the (cl_node (rl_thr s t))), a)]\<rparr>) s"

text \<open>The engine's look at \<open>opened_\<close>, then \<open>SubmitAndWait\<close>.\<close>

inductive caller_step :: "nat \<Rightarrow> reactor_loop \<Rightarrow> reactor_loop \<Rightarrow> bool" where
  not_open: "cl_pc (rl_thr s t) = Away \<Longrightarrow> cl_todo (rl_thr s t) = op # ops \<Longrightarrow> rl_closer s \<noteq> NotClosing \<Longrightarrow>
     caller_step t s (set_caller t (rl_thr s t\<lparr>cl_todo := ops,
       cl_done := cl_done (rl_thr s t) @ [(op, kEngineNotOpen, None)]\<rparr>) s)"
| begin_call: "cl_pc (rl_thr s t) = Away \<Longrightarrow> cl_todo (rl_thr s t) = op # ops \<Longrightarrow> rl_closer s = NotClosing \<Longrightarrow>
     caller_step t s (set_caller t (rl_thr s t\<lparr>cl_pc := InLoad (cl_wake (rl_thr s t)), cl_todo := ops,
       cl_node := Some (op, None)\<rparr>) s)"
| in_load: "cl_pc (rl_thr s t) = InLoad g \<Longrightarrow> caller_step t s (caller_to t (InCas g (inbox_top (rl_inbox s))) s)"
| in_cas_fail: "cl_pc (rl_thr s t) = InCas g old \<Longrightarrow> old \<noteq> inbox_top (rl_inbox s) \<Longrightarrow>
     caller_step t s (caller_to t (InCas g (inbox_top (rl_inbox s))) s)"
| in_cas: "cl_pc (rl_thr s t) = InCas g old \<Longrightarrow> old = inbox_top (rl_inbox s) \<Longrightarrow>
     caller_step t s (caller_to t (InNotify g) (s\<lparr>rl_inbox := Request t # rl_inbox s\<rparr>))"
| in_notify: "cl_pc (rl_thr s t) = InNotify g \<Longrightarrow>
     caller_step t s (caller_to t (Look g) (s\<lparr>rl_pc := (if rl_pc s = Parked then Block else rl_pc s)\<rparr>))"
| look_done: "cl_pc (rl_thr s t) = Look g \<Longrightarrow> node_result (rl_thr s t) = Some a \<Longrightarrow> caller_step t s (leave t a s)"
| look: "cl_pc (rl_thr s t) = Look g \<Longrightarrow> node_result (rl_thr s t) = None \<Longrightarrow> caller_step t s (caller_to t (WakeWait g) s)"
| wait_changed: "cl_pc (rl_thr s t) = WakeWait g \<Longrightarrow> cl_wake (rl_thr s t) \<noteq> g \<Longrightarrow> caller_step t s (caller_to t Reload s)"
| wait_sleep: "cl_pc (rl_thr s t) = WakeWait g \<Longrightarrow> cl_wake (rl_thr s t) = g \<Longrightarrow> caller_step t s (caller_to t (Sleeping g) s)"
| reload: "cl_pc (rl_thr s t) = Reload \<Longrightarrow> caller_step t s (caller_to t (Look (cl_wake (rl_thr s t))) s)"

section \<open>The reactor thread\<close>

text \<open>\<open>Reverse\<close>: the inbox, newest first, into the order of arrival.\<close>

fun Reverse_onto :: "request list \<Rightarrow> request list \<Rightarrow> request list" where
  "Reverse_onto [] prev = prev"
| "Reverse_onto (n # ns) prev = Reverse_onto ns (n # prev)"

definition Reverse :: "request list \<Rightarrow> request list" where
  "Reverse ns = Reverse_onto ns []"

definition op_of :: "reactor_loop \<Rightarrow> nat \<Rightarrow> op_node" where
  "op_of s t = fst (the (cl_node (rl_thr s t)))"

text \<open>The three steps of \<open>Finalize\<close>: the result (the last access to the node), the wake-up word,
  the notification.\<close>

definition store_answer :: "nat \<Rightarrow> answer \<Rightarrow> reactor_loop \<Rightarrow> reactor_loop" where
  "store_answer t a s = set_caller t (rl_thr s t\<lparr>cl_node := map_option (\<lambda>n. (fst n, Some a)) (cl_node (rl_thr s t))\<rparr>) s"

definition bump_wake :: "nat \<Rightarrow> reactor_loop \<Rightarrow> reactor_loop" where
  "bump_wake t s = set_caller t (rl_thr s t\<lparr>cl_wake := cl_wake (rl_thr s t) + 1\<rparr>) s"

definition notify_caller :: "nat \<Rightarrow> reactor_loop \<Rightarrow> reactor_loop" where
  "notify_caller t s = (case cl_pc (rl_thr s t) of Sleeping g \<Rightarrow> caller_to t (WakeWait g) s | _ \<Rightarrow> s)"

inductive run_step :: "reactor_loop \<Rightarrow> reactor_loop \<Rightarrow> bool" where
  poll_empty: "rl_pc s = Poll \<Longrightarrow> rl_inbox s = [] \<Longrightarrow> run_step s (s\<lparr>rl_pc := Block\<rparr>)"
| poll: "rl_pc s = Poll \<Longrightarrow> rl_inbox s \<noteq> [] \<Longrightarrow>
     run_step s (s\<lparr>rl_pc := Chain Serve (Reverse (rl_inbox s)), rl_inbox := []\<rparr>)"
| block_empty: "rl_pc s = Block \<Longrightarrow> rl_inbox s = [] \<Longrightarrow> run_step s (s\<lparr>rl_pc := Parked\<rparr>)"
| block: "rl_pc s = Block \<Longrightarrow> rl_inbox s \<noteq> [] \<Longrightarrow> run_step s (s\<lparr>rl_pc := Poll\<rparr>)"
| batch_end: "rl_pc s = Chain Serve [] \<Longrightarrow> run_step s (s\<lparr>rl_pc := Poll\<rparr>)"
| serve: "rl_pc s = Chain Serve (Request t # ns) \<Longrightarrow> Execute (rl_reactor s) (op_of s t) = (c, out, r) \<Longrightarrow>
     run_step s (s\<lparr>rl_pc := Store Serve t (c, out) ns, rl_reactor := r\<rparr>)"
| stop: "rl_pc s = Chain Serve (StopRequest # ns) \<Longrightarrow>
     run_step s (s\<lparr>rl_pc := Chain FailBatch ns, rl_reactor := CloseDc (rl_reactor s)\<rparr>)"
| fail: "rl_pc s = Chain ph (Request t # ns) \<Longrightarrow> ph \<noteq> Serve \<Longrightarrow>
     run_step s (s\<lparr>rl_pc := Store ph t (kEngineNotOpen, None) ns\<rparr>)"
| last_drain: "rl_pc s = Chain FailBatch [] \<Longrightarrow>
     run_step s (s\<lparr>rl_pc := Chain FailLate (Reverse (rl_inbox s)), rl_inbox := []\<rparr>)"
| run_end: "rl_pc s = Chain FailLate [] \<Longrightarrow> run_step s (s\<lparr>rl_pc := Exited\<rparr>)"
| finalize_store: "rl_pc s = Store ph t a ns \<Longrightarrow> run_step s (store_answer t a (s\<lparr>rl_pc := Bump ph t ns\<rparr>))"
| finalize_bump: "rl_pc s = Bump ph t ns \<Longrightarrow> run_step s (bump_wake t (s\<lparr>rl_pc := Ping ph t ns\<rparr>))"
| finalize_notify: "rl_pc s = Ping ph t ns \<Longrightarrow> run_step s (notify_caller t (s\<lparr>rl_pc := Chain ph ns\<rparr>))"

section \<open>Closing\<close>

text \<open>\<open>quiet\<close>: no call is running. The contract of \<open>engine.h\<close> is that \<open>Close\<close> is called in such a
  state; \<open>contract = False\<close> is the program without it.\<close>

definition quiet :: "reactor_loop \<Rightarrow> bool" where
  "quiet s \<longleftrightarrow> (\<forall>t < rl_callers s. cl_pc (rl_thr s t) = Away)"

inductive close_step :: "bool \<Rightarrow> reactor_loop \<Rightarrow> reactor_loop \<Rightarrow> bool" for contract :: bool where
  begin_close: "rl_closer s = NotClosing \<Longrightarrow> (contract \<longrightarrow> quiet s) \<Longrightarrow> close_step contract s (s\<lparr>rl_closer := StopLoad\<rparr>)"
| stop_load: "rl_closer s = StopLoad \<Longrightarrow> close_step contract s (s\<lparr>rl_closer := StopCas (inbox_top (rl_inbox s))\<rparr>)"
| stop_cas_fail: "rl_closer s = StopCas old \<Longrightarrow> old \<noteq> inbox_top (rl_inbox s) \<Longrightarrow>
     close_step contract s (s\<lparr>rl_closer := StopCas (inbox_top (rl_inbox s))\<rparr>)"
| stop_cas: "rl_closer s = StopCas old \<Longrightarrow> old = inbox_top (rl_inbox s) \<Longrightarrow>
     close_step contract s (s\<lparr>rl_closer := StopNotify, rl_inbox := StopRequest # rl_inbox s\<rparr>)"
| stop_notify: "rl_closer s = StopNotify \<Longrightarrow>
     close_step contract s (s\<lparr>rl_closer := Joining, rl_pc := (if rl_pc s = Parked then Block else rl_pc s)\<rparr>)"
| join: "rl_closer s = Joining \<Longrightarrow> rl_pc s = Exited \<Longrightarrow> close_step contract s (s\<lparr>rl_closer := Joined\<rparr>)"

section \<open>Runs\<close>

definition rl_step :: "bool \<Rightarrow> reactor_loop \<Rightarrow> reactor_loop \<Rightarrow> bool" where
  "rl_step contract s s' \<longleftrightarrow> (\<exists>t < rl_callers s. caller_step t s s') \<or> run_step s s' \<or> close_step contract s s'"

inductive rl_spurious :: "reactor_loop \<Rightarrow> reactor_loop \<Rightarrow> bool" where
  caller_weak_fail: "t < rl_callers s \<Longrightarrow> cl_pc (rl_thr s t) = InCas g old \<Longrightarrow>
     rl_spurious s (caller_to t (InCas g (inbox_top (rl_inbox s))) s)"
| caller_wakes: "t < rl_callers s \<Longrightarrow> cl_pc (rl_thr s t) = Sleeping g \<Longrightarrow> rl_spurious s (caller_to t (WakeWait g) s)"
| reactor_wakes: "rl_pc s = Parked \<Longrightarrow> rl_spurious s (s\<lparr>rl_pc := Block\<rparr>)"

text \<open>An opened reactor, nobody calling yet; the wake-up words are whatever they are.\<close>

definition rl_init :: "reactor \<Rightarrow> (nat \<Rightarrow> u32) \<Rightarrow> op_node list list \<Rightarrow> reactor_loop" where
  "rl_init r wake progs = \<lparr>rl_inbox = [], rl_pc = Poll, rl_reactor = r, rl_closer = NotClosing,
     rl_callers = length progs,
     rl_thr = \<lambda>t. \<lparr>cl_pc = Away, cl_node = None, cl_todo = (if t < length progs then progs ! t else []),
       cl_done = [], cl_wake = wake t\<rparr>\<rparr>"

inductive rl_reach :: "bool \<Rightarrow> reactor \<Rightarrow> (nat \<Rightarrow> u32) \<Rightarrow> op_node list list \<Rightarrow> reactor_loop \<Rightarrow> bool"
  for contract :: bool and r :: reactor and wake :: "nat \<Rightarrow> u32" and progs :: "op_node list list" where
  start: "rl_reach contract r wake progs (rl_init r wake progs)"
| step: "rl_reach contract r wake progs s \<Longrightarrow> rl_step contract s s' \<Longrightarrow> rl_reach contract r wake progs s'"
| spurious: "rl_reach contract r wake progs s \<Longrightarrow> rl_spurious s s' \<Longrightarrow> rl_reach contract r wake progs s'"

lemma set_caller_fields [simp]:
  "rl_inbox (set_caller t x s) = rl_inbox s" "rl_pc (set_caller t x s) = rl_pc s"
  "rl_reactor (set_caller t x s) = rl_reactor s" "rl_closer (set_caller t x s) = rl_closer s"
  "rl_callers (set_caller t x s) = rl_callers s" "rl_thr (set_caller t x s) u = (if u = t then x else rl_thr s u)"
  by (simp_all add: set_caller_def)

lemma caller_to_fields [simp]:
  "rl_inbox (caller_to t p s) = rl_inbox s" "rl_pc (caller_to t p s) = rl_pc s"
  "rl_reactor (caller_to t p s) = rl_reactor s" "rl_closer (caller_to t p s) = rl_closer s"
  "rl_callers (caller_to t p s) = rl_callers s"
  "rl_thr (caller_to t p s) u = (if u = t then rl_thr s t\<lparr>cl_pc := p\<rparr> else rl_thr s u)"
  by (simp_all add: caller_to_def)

lemma Reverse_rev: "Reverse ns = rev ns"
proof -
  have "Reverse_onto ns prev = rev ns @ prev" for prev
    by (induction ns arbitrary: prev) auto
  then show ?thesis by (simp add: Reverse_def)
qed

end
