(* ===== verification/Cabe_ReactorLoopInv.thy ===== *)
theory Cabe_ReactorLoopInv
  imports Cabe_ReactorLoop
begin

text \<open>
  The invariant of the event loop: every submitted and unanswered operation is in exactly one
  place and its caller is still waiting; a caller asleep has seen the current value of its
  wake-up word or is about to be notified; the stop operation comes once; the reactor sleeps
  only on an inbox that is empty or whose last submitter has not notified yet.
\<close>

section \<open>One caller\<close>

fun submitted :: "caller_pc \<Rightarrow> bool" where
  "submitted (InNotify _) = True" | "submitted (Look _) = True" | "submitted (WakeWait _) = True"
| "submitted (Sleeping _) = True" | "submitted Reload = True" | "submitted _ = False"

fun submitting :: "caller_pc \<Rightarrow> bool" where
  "submitting (InLoad _) = True" | "submitting (InCas _ _) = True" | "submitting _ = False"

fun seen_wake :: "caller_pc \<Rightarrow> u32 option" where
  "seen_wake (InLoad g) = Some g" | "seen_wake (InCas g _) = Some g" | "seen_wake (InNotify g) = Some g"
| "seen_wake (Look g) = Some g" | "seen_wake (WakeWait g) = Some g" | "seen_wake (Sleeping g) = Some g"
| "seen_wake _ = None"

fun at_rest :: "caller_pc \<Rightarrow> bool" where
  "at_rest (WakeWait _) = True" | "at_rest (Sleeping _) = True" | "at_rest _ = False"

text \<open>\<open>p\<close>: where the caller is; \<open>n\<close>: its node's result; \<open>w\<close>: its wake-up word; \<open>q\<close>: its node is
  with the reactor; \<open>b\<close>, \<open>g\<close>: the reactor is about to bump the word, to notify. The word moves by
  at most two while a caller rests: for its previous operation, late, and for this one.\<close>

definition caller_ok :: "caller_pc \<Rightarrow> answer option option \<Rightarrow> u32 \<Rightarrow> bool \<Rightarrow> bool \<Rightarrow> bool \<Rightarrow> bool" where
  "caller_ok p n w q b g \<longleftrightarrow>
     (p = Away \<longleftrightarrow> n = None)
   \<and> (submitting p \<longrightarrow> n = Some None \<and> \<not> q)
   \<and> (q \<longrightarrow> submitted p \<and> n = Some None)
   \<and> (submitted p \<and> n = Some None \<longrightarrow> q)
   \<and> (\<forall>c. seen_wake p = Some c \<longrightarrow> n = Some None \<longrightarrow> w = c \<or> w = c + 1 \<and> \<not> b)
   \<and> (\<forall>c. seen_wake p = Some c \<longrightarrow> at_rest p \<longrightarrow> n \<noteq> Some None \<longrightarrow>
        (if b then w = c \<or> w = c + 1 else w = c + 1 \<or> w = c + 2))
   \<and> (\<forall>c. p = Sleeping c \<longrightarrow> w \<noteq> c \<longrightarrow> g)"

lemma u32_steps [simp]: "(c :: u32) + 1 \<noteq> c" "(c :: u32) + 2 \<noteq> c" "(c :: u32) \<noteq> c + 1" "(c :: u32) \<noteq> c + 2"
  by simp_all

lemma pc_kinds: "p = Away \<or> submitting p \<or> submitted p"
  by (cases p) auto

text \<open>The moves of a caller, and what the reactor does to it.\<close>

lemma caller_ok_begin:
  "caller_ok Away n w q b g \<Longrightarrow> caller_ok (InLoad w) (Some None) w q b g"
  by (auto simp: caller_ok_def)

lemma caller_ok_reload: "caller_ok p n w q b g \<Longrightarrow> submitting p \<Longrightarrow> seen_wake p = Some c \<Longrightarrow> caller_ok (InCas c old) n w q b g"
  by (auto simp: caller_ok_def)

lemma caller_ok_cas: "caller_ok (InCas c old) n w q b g \<Longrightarrow> caller_ok (InNotify c) n w True b g"
  by (auto simp: caller_ok_def)

lemma caller_ok_notify: "caller_ok (InNotify c) n w q b g \<Longrightarrow> caller_ok (Look c) n w q b g"
  by (auto simp: caller_ok_def)

lemma caller_ok_leave: "caller_ok (Look c) (Some (Some a)) w q b g \<Longrightarrow> caller_ok Away None w q b g"
  by (auto simp: caller_ok_def)

lemma caller_ok_look: "caller_ok (Look c) (Some None) w q b g \<Longrightarrow> caller_ok (WakeWait c) (Some None) w q b g"
  by (auto simp: caller_ok_def)

lemma caller_ok_changed: "caller_ok (WakeWait c) n w q b g \<Longrightarrow> caller_ok Reload n w q b g"
  by (auto simp: caller_ok_def)

lemma caller_ok_sleep: "caller_ok (WakeWait c) n c q b g \<Longrightarrow> caller_ok (Sleeping c) n c q b g"
  by (auto simp: caller_ok_def)

lemma caller_ok_again: "caller_ok Reload n w q b g \<Longrightarrow> caller_ok (Look w) n w q b g"
  by (auto simp: caller_ok_def)

lemma caller_ok_wakes: "caller_ok (Sleeping c) n w q b g \<Longrightarrow> caller_ok (WakeWait c) n w q b g'"
  by (auto simp: caller_ok_def)

lemma caller_okD:
  assumes "caller_ok p n w q b g"
  shows "p = Away \<longleftrightarrow> n = None" "submitting p \<Longrightarrow> n = Some None \<and> \<not> q" "q \<Longrightarrow> submitted p \<and> n = Some None"
    "submitted p \<Longrightarrow> n = Some None \<Longrightarrow> q"
    "seen_wake p = Some c \<Longrightarrow> n = Some None \<Longrightarrow> w = c \<or> w = c + 1 \<and> \<not> b"
    "seen_wake p = Some c \<Longrightarrow> at_rest p \<Longrightarrow> n \<noteq> Some None \<Longrightarrow> b \<Longrightarrow> w = c \<or> w = c + 1"
    "seen_wake p = Some c \<Longrightarrow> at_rest p \<Longrightarrow> n \<noteq> Some None \<Longrightarrow> \<not> b \<Longrightarrow> w = c + 1 \<or> w = c + 2"
    "p = Sleeping c \<Longrightarrow> w \<noteq> c \<Longrightarrow> g"
  using assms unfolding caller_ok_def by metis+

lemma caller_ok_store:
  assumes "caller_ok p n w True False g"
  shows "caller_ok p (Some (Some a)) w False True g"
proof -
  note D = caller_okD [OF assms]
  have p: "submitted p" "n = Some None" "\<not> submitting p" "p \<noteq> Away" using D(1-3) by auto
  show ?thesis
    unfolding caller_ok_def if_True using p D(5,8) by blast
qed

lemma caller_ok_bump:
  assumes "caller_ok p n w q True g"
  shows "caller_ok p n (w + 1) q False True"
proof -
  note D = caller_okD [OF assms]
  have w: "w = c + 1 \<Longrightarrow> w + 1 = c + 2" for c by simp
  have "w + 1 = c \<or> w + 1 = c + 1 \<and> \<not> False" if "seen_wake p = Some c" "n = Some None" for c
    using D(5) [OF that] by blast
  moreover have "w + 1 = c + 1 \<or> w + 1 = c + 2" if "seen_wake p = Some c" "at_rest p" "n \<noteq> Some None" for c
    using D(6) [OF that TrueI] w [of c] by blast
  ultimately show ?thesis
    unfolding caller_ok_def if_False using D(1-4) by blast
qed

lemma caller_ok_notified: "caller_ok p n w q b g \<Longrightarrow> (\<And>c. p \<noteq> Sleeping c) \<Longrightarrow> caller_ok p n w q b g'"
  unfolding caller_ok_def by blast

section \<open>The state\<close>

fun with_reactor :: "reactor_pc \<Rightarrow> request list" where
  "with_reactor (Chain _ ns) = ns" | "with_reactor (Store _ t _ ns) = Request t # ns"
| "with_reactor (Bump _ _ ns) = ns" | "with_reactor (Ping _ _ ns) = ns" | "with_reactor _ = []"

fun bumping :: "reactor_pc \<Rightarrow> nat option" where
  "bumping (Bump _ t _) = Some t" | "bumping _ = None"

fun pinging :: "reactor_pc \<Rightarrow> nat option" where
  "pinging (Ping _ t _) = Some t" | "pinging _ = None"

text \<open>The reactor has met the stop operation.\<close>

fun stopped :: "reactor_pc \<Rightarrow> bool" where
  "stopped (Chain ph _) = (ph \<noteq> Serve)" | "stopped (Store ph _ _ _) = (ph \<noteq> Serve)"
| "stopped (Bump ph _ _) = (ph \<noteq> Serve)" | "stopped (Ping ph _ _) = (ph \<noteq> Serve)"
| "stopped Exited = True" | "stopped _ = False"

abbreviation queue :: "reactor_loop \<Rightarrow> request list" where
  "queue s \<equiv> rl_inbox s @ with_reactor (rl_pc s)"

abbreviation node_of :: "reactor_loop \<Rightarrow> nat \<Rightarrow> answer option option" where
  "node_of s t \<equiv> map_option snd (cl_node (rl_thr s t))"

text \<open>Caller \<open>t\<close> with the part of the reactor's state that concerns it.\<close>

definition thr_ok :: "reactor_loop \<Rightarrow> nat \<Rightarrow> bool" where
  "thr_ok s t \<longleftrightarrow> caller_ok (cl_pc (rl_thr s t)) (node_of s t) (cl_wake (rl_thr s t))
     (Request t \<in> set (queue s)) (bumping (rl_pc s) = Some t) (pinging (rl_pc s) = Some t)"

definition stop_ok :: "closer_pc \<Rightarrow> bool \<Rightarrow> reactor_pc \<Rightarrow> bool" where
  "stop_ok cl q rp \<longleftrightarrow> (q \<longrightarrow> cl \<in> {StopNotify, Joining} \<and> \<not> stopped rp)
     \<and> (cl \<in> {StopNotify, Joining} \<longrightarrow> q \<or> stopped rp)
     \<and> (stopped rp \<longrightarrow> cl \<in> {StopNotify, Joining, Joined}) \<and> (cl = Joined \<longrightarrow> rp = Exited)"

definition rl_ok :: "reactor_loop \<Rightarrow> bool" where
  "rl_ok s \<longleftrightarrow> (\<forall>t. thr_ok s t) \<and> distinct (queue s)
     \<and> stop_ok (rl_closer s) (StopRequest \<in> set (queue s)) (rl_pc s)
     \<and> (rl_pc s = Parked \<longrightarrow> rl_inbox s \<noteq> [] \<longrightarrow> rl_closer s = StopNotify \<or> (\<exists>t g. cl_pc (rl_thr s t) = InNotify g))
     \<and> (\<forall>t. rl_callers s \<le> t \<longrightarrow> cl_pc (rl_thr s t) = Away \<and> cl_todo (rl_thr s t) = [])"

lemma rl_okD:
  assumes "rl_ok s"
  shows "thr_ok s t" "distinct (queue s)" "stop_ok (rl_closer s) (StopRequest \<in> set (queue s)) (rl_pc s)"
    "rl_pc s = Parked \<Longrightarrow> rl_inbox s \<noteq> [] \<Longrightarrow> rl_closer s = StopNotify \<or> (\<exists>t g. cl_pc (rl_thr s t) = InNotify g)"
    "rl_callers s \<le> t \<Longrightarrow> cl_pc (rl_thr s t) = Away \<and> cl_todo (rl_thr s t) = []"
  using assms unfolding rl_ok_def by blast+

lemma rl_ok_init: "rl_ok (rl_init r wake progs)"
  by (simp add: rl_ok_def rl_init_def thr_ok_def caller_ok_def stop_ok_def)

section \<open>Steps of a caller\<close>

text \<open>A caller moves; the reactor keeps what it has, but may be woken.\<close>

lemma rl_ok_caller:
  assumes ok: "rl_ok s" and t: "t < rl_callers s"
    and s': "\<And>u. u \<noteq> t \<Longrightarrow> rl_thr s' u = rl_thr s u" "rl_closer s' = rl_closer s" "rl_callers s' = rl_callers s"
      "rl_pc s' = rl_pc s \<or> rl_pc s = Parked \<and> rl_pc s' = Block"
      "rl_inbox s' = rl_inbox s \<or> rl_inbox s' = Request t # rl_inbox s \<and> Request t \<notin> set (queue s)"
    and me: "thr_ok s' t"
    and n: "\<And>g. rl_pc s' = Parked \<Longrightarrow> rl_inbox s' \<noteq> [] \<Longrightarrow> cl_pc (rl_thr s t) = InNotify g \<Longrightarrow> \<exists>g. cl_pc (rl_thr s' t) = InNotify g"
      "rl_pc s' = Parked \<Longrightarrow> rl_inbox s' \<noteq> rl_inbox s \<Longrightarrow> \<exists>g. cl_pc (rl_thr s' t) = InNotify g"
  shows "rl_ok s'"
proof -
  note D = rl_okD [OF ok]
  have w: "with_reactor (rl_pc s') = with_reactor (rl_pc s)" "bumping (rl_pc s') = bumping (rl_pc s)"
    "pinging (rl_pc s') = pinging (rl_pc s)" "stopped (rl_pc s') = stopped (rl_pc s)"
    "rl_pc s' = Exited \<longleftrightarrow> rl_pc s = Exited"
    using s'(4) by auto
  have q: "set (queue s') - {Request t} = set (queue s) - {Request t}" using s'(5) w(1) by auto
  have a: "thr_ok s' u" for u
  proof (cases "u = t")
    case False
    have "Request u \<in> set (queue s') \<longleftrightarrow> Request u \<in> set (queue s)" using q False by blast
    then show ?thesis using D(1) [of u] s'(1) [OF False] w by (simp add: thr_ok_def)
  qed (simp add: me)
  have st: "StopRequest \<in> set (queue s') \<longleftrightarrow> StopRequest \<in> set (queue s)" using q by blast
  have b: "stop_ok (rl_closer s') (StopRequest \<in> set (queue s')) (rl_pc s')"
    unfolding st s'(2) using D(3) w(4,5) by (auto simp: stop_ok_def)
  have c: "rl_closer s' = StopNotify \<or> (\<exists>u g. cl_pc (rl_thr s' u) = InNotify g)"
    if p: "rl_pc s' = Parked" "rl_inbox s' \<noteq> []"
  proof (cases "rl_inbox s' = rl_inbox s")
    case True
    then have "rl_closer s = StopNotify \<or> (\<exists>u g. cl_pc (rl_thr s u) = InNotify g)"
      using D(4) s'(4) p by auto
    then show ?thesis
    proof
      assume "\<exists>u g. cl_pc (rl_thr s u) = InNotify g"
      then obtain u g where u: "cl_pc (rl_thr s u) = InNotify g" by blast
      then show ?thesis
        using n(1) [OF p, of g] s'(1) [of u] by (cases "u = t") (auto intro: exI [of _ u])
    qed (use s'(2) in simp)
  next
    case False then show ?thesis using n(2) [OF p(1)] by blast
  qed
  have d: "distinct (queue s')" using s'(5) D(2) w(1) by auto
  have e: "\<forall>u. rl_callers s' \<le> u \<longrightarrow> cl_pc (rl_thr s' u) = Away \<and> cl_todo (rl_thr s' u) = []"
    using D(5) s'(1,3) t by (metis not_less)
  show ?thesis unfolding rl_ok_def using a b c d e by blast
qed

lemma rl_ok_caller_step:
  assumes ok: "rl_ok s" and t: "t < rl_callers s" and st: "caller_step t s s'"
  shows "rl_ok s'"
proof -
  note T = rl_okD(1) [OF ok, of t, unfolded thr_ok_def]
  have nr: "node_of s t = Some (Some a)" if "node_result (rl_thr s t) = Some a" for a
    using that by (cases "cl_node (rl_thr s t)") (auto simp: node_result_def)
  have nn: "node_of s t = Some None" if "node_result (rl_thr s t) = None" "cl_pc (rl_thr s t) \<noteq> Away"
    using that T by (cases "cl_node (rl_thr s t)") (auto simp: node_result_def caller_ok_def)
  show ?thesis
    using st
  proof cases
    case not_open
    then show ?thesis
      using T by (intro rl_ok_caller [OF ok t]) (auto simp: thr_ok_def)
  next
    case begin_call
    then show ?thesis
      using caller_ok_begin T by (intro rl_ok_caller [OF ok t]) (auto simp: thr_ok_def)
  next
    case in_load
    then show ?thesis
      using caller_ok_reload [OF T] by (intro rl_ok_caller [OF ok t]) (auto simp: thr_ok_def)
  next
    case in_cas_fail
    then show ?thesis
      using caller_ok_reload [OF T] by (intro rl_ok_caller [OF ok t]) (auto simp: thr_ok_def)
  next
    case (in_cas g old)
    have "Request t \<notin> set (queue s)" using T in_cas(2) by (auto simp: caller_ok_def)
    moreover have "caller_ok (InNotify g) (node_of s t) (cl_wake (rl_thr s t)) True
        (bumping (rl_pc s) = Some t) (pinging (rl_pc s) = Some t)"
      using T in_cas(2) by (intro caller_ok_cas) simp
    ultimately show ?thesis
      using in_cas by (intro rl_ok_caller [OF ok t]) (auto simp: thr_ok_def)
  next
    case (in_notify g)
    have "caller_ok (Look g) (node_of s t) (cl_wake (rl_thr s t)) (Request t \<in> set (queue s))
        (bumping (rl_pc s) = Some t) (pinging (rl_pc s) = Some t)"
      using T in_notify(2) by (intro caller_ok_notify) simp
    then show ?thesis
      using in_notify by (intro rl_ok_caller [OF ok t]) (auto simp: thr_ok_def split: if_splits)
  next
    case (look_done g a)
    have "caller_ok Away None (cl_wake (rl_thr s t)) (Request t \<in> set (queue s))
        (bumping (rl_pc s) = Some t) (pinging (rl_pc s) = Some t)"
      using T look_done(2) nr [OF look_done(3)] by (intro caller_ok_leave) simp
    then show ?thesis
      using look_done by (intro rl_ok_caller [OF ok t]) (auto simp: thr_ok_def leave_def)
  next
    case (look g)
    have e: "node_of s t = Some None" using look by (intro nn) simp_all
    have "caller_ok (WakeWait g) (node_of s t) (cl_wake (rl_thr s t)) (Request t \<in> set (queue s))
        (bumping (rl_pc s) = Some t) (pinging (rl_pc s) = Some t)"
      unfolding e by (rule caller_ok_look [OF T [unfolded look(2) e]])
    then show ?thesis
      using look by (intro rl_ok_caller [OF ok t]) (auto simp: thr_ok_def)
  next
    case (wait_changed g)
    have "caller_ok Reload (node_of s t) (cl_wake (rl_thr s t)) (Request t \<in> set (queue s))
        (bumping (rl_pc s) = Some t) (pinging (rl_pc s) = Some t)"
      using T wait_changed(2) by (intro caller_ok_changed) simp
    then show ?thesis
      using wait_changed by (intro rl_ok_caller [OF ok t]) (auto simp: thr_ok_def)
  next
    case (wait_sleep g)
    have "caller_ok (Sleeping g) (node_of s t) (cl_wake (rl_thr s t)) (Request t \<in> set (queue s))
        (bumping (rl_pc s) = Some t) (pinging (rl_pc s) = Some t)"
      using T wait_sleep(2,3) caller_ok_sleep by simp
    then show ?thesis
      using wait_sleep by (intro rl_ok_caller [OF ok t]) (auto simp: thr_ok_def)
  next
    case reload
    have "caller_ok (Look (cl_wake (rl_thr s t))) (node_of s t) (cl_wake (rl_thr s t)) (Request t \<in> set (queue s))
        (bumping (rl_pc s) = Some t) (pinging (rl_pc s) = Some t)"
      using T reload(2) by (intro caller_ok_again) simp
    then show ?thesis
      using reload by (intro rl_ok_caller [OF ok t]) (auto simp: thr_ok_def)
  qed
qed


section \<open>Steps of the reactor and of the closing thread\<close>

text \<open>Steps that touch no caller.\<close>

lemma rl_ok_other:
  assumes ok: "rl_ok s" and s': "rl_thr s' = rl_thr s" "rl_callers s' = rl_callers s"
      "\<And>u. Request u \<in> set (queue s') \<longleftrightarrow> Request u \<in> set (queue s)" "distinct (queue s')"
      "bumping (rl_pc s') = bumping (rl_pc s)" "pinging (rl_pc s') = pinging (rl_pc s)"
      "stop_ok (rl_closer s') (StopRequest \<in> set (queue s')) (rl_pc s')"
    and n: "rl_pc s' = Parked \<Longrightarrow> rl_inbox s' \<noteq> [] \<Longrightarrow> rl_closer s' = StopNotify \<or> (\<exists>t g. cl_pc (rl_thr s t) = InNotify g)"
  shows "rl_ok s'"
proof -
  have "thr_ok s' u" for u using rl_okD(1) [OF ok, of u] s' by (simp add: thr_ok_def)
  then have "\<forall>u. thr_ok s' u" by blast
  then show ?thesis using s' n rl_okD(5) [OF ok] unfolding rl_ok_def by simp
qed

text \<open>The three steps of \<open>Finalize\<close> for caller \<open>t\<close>.\<close>

lemma rl_ok_finalize:
  assumes ok: "rl_ok s" and s': "\<And>u. u \<noteq> t \<Longrightarrow> rl_thr s' u = rl_thr s u" "rl_closer s' = rl_closer s"
      "rl_callers s' = rl_callers s" "rl_inbox s' = rl_inbox s" "rl_pc s' \<noteq> Parked"
      "set (with_reactor (rl_pc s')) = set (with_reactor (rl_pc s)) - {Request t} \<or> set (with_reactor (rl_pc s')) = set (with_reactor (rl_pc s))"
      "distinct (queue s')" "bumping (rl_pc s) \<in> {None, Some t}" "bumping (rl_pc s') \<in> {None, Some t}"
      "pinging (rl_pc s) \<in> {None, Some t}" "pinging (rl_pc s') \<in> {None, Some t}"
      "stopped (rl_pc s') = stopped (rl_pc s)" "rl_pc s \<noteq> Exited"
    and me: "thr_ok s' t" "cl_pc (rl_thr s' t) = Away \<longleftrightarrow> cl_pc (rl_thr s t) = Away" "cl_todo (rl_thr s' t) = cl_todo (rl_thr s t)"
  shows "rl_ok s'"
proof -
  note D = rl_okD [OF ok]
  have a: "thr_ok s' u" for u
  proof (cases "u = t")
    case False
    have "Request u \<in> set (queue s') \<longleftrightarrow> Request u \<in> set (queue s)" using s'(4,6) False by auto
    moreover have "(bumping (rl_pc s') = Some u) = (bumping (rl_pc s) = Some u)"
      "(pinging (rl_pc s') = Some u) = (pinging (rl_pc s) = Some u)" using s'(8-11) False by auto
    ultimately show ?thesis using D(1) [of u] s'(1) [OF False] by (simp add: thr_ok_def)
  qed (simp add: me)
  have "StopRequest \<in> set (queue s') \<longleftrightarrow> StopRequest \<in> set (queue s)" using s'(4,6) by auto
  then have b: "stop_ok (rl_closer s') (StopRequest \<in> set (queue s')) (rl_pc s')"
    using D(3) s'(2,12,13) by (auto simp: stop_ok_def)
  have "\<forall>u. rl_callers s' \<le> u \<longrightarrow> cl_pc (rl_thr s' u) = Away \<and> cl_todo (rl_thr s' u) = []"
  proof (intro allI impI)
    fix u assume "rl_callers s' \<le> u"
    then show "cl_pc (rl_thr s' u) = Away \<and> cl_todo (rl_thr s' u) = []"
      using D(5) [of u] s'(1) [of u] s'(3) me(2,3) by (cases "u = t") auto
  qed
  then show ?thesis unfolding rl_ok_def using a b s'(5,7) by blast
qed

lemma rl_ok_run_step:
  assumes ok: "rl_ok s" and st: "run_step s s'"
  shows "rl_ok s'"
proof -
  note D = rl_okD [OF ok]
  show ?thesis
    using st
  proof cases
    case (stop ns)
    then have "StopRequest \<in> set (queue s)" "StopRequest \<notin> set ns" "StopRequest \<notin> set (rl_inbox s)" using D(2) by auto
    then show ?thesis using stop D(2,3) by (intro rl_ok_other [OF ok]) (auto simp: stop_ok_def)
  next
    case (finalize_store ph t a ns)
    have q: "Request t \<notin> set ns" "Request t \<notin> set (rl_inbox s)" "distinct (rl_inbox s @ ns)"
      using D(2) finalize_store by auto
    have T: "caller_ok (cl_pc (rl_thr s t)) (node_of s t) (cl_wake (rl_thr s t)) True False False"
      using D(1) [of t] finalize_store by (simp add: thr_ok_def)
    have nd: "cl_node (rl_thr s t) \<noteq> None" using caller_okD(3) [OF T] by auto
    have "thr_ok s' t"
      using caller_ok_store [OF T, of a] q nd by (auto simp: finalize_store(1) thr_ok_def store_answer_def)
    then show ?thesis
      using finalize_store q
      by (intro rl_ok_finalize [OF ok, of t]) (auto simp: store_answer_def)
  next
    case (finalize_bump ph t ns)
    have T: "caller_ok (cl_pc (rl_thr s t)) (node_of s t) (cl_wake (rl_thr s t)) (Request t \<in> set (queue s)) True False"
      using D(1) [of t] finalize_bump by (simp add: thr_ok_def)
    have "thr_ok s' t"
      using caller_ok_bump [OF T] finalize_bump(2) by (simp add: finalize_bump(1) thr_ok_def bump_wake_def)
    then show ?thesis
      using finalize_bump D(2) by (intro rl_ok_finalize [OF ok, of t]) (auto simp: bump_wake_def)
  next
    case (finalize_notify ph t ns)
    have T: "caller_ok (cl_pc (rl_thr s t)) (node_of s t) (cl_wake (rl_thr s t)) (Request t \<in> set (queue s)) False True"
      using D(1) [of t] finalize_notify by (simp add: thr_ok_def)
    have f: "rl_pc s' = Chain ph ns" "rl_inbox s' = rl_inbox s" "rl_closer s' = rl_closer s" "rl_callers s' = rl_callers s"
      "\<And>u. u \<noteq> t \<Longrightarrow> rl_thr s' u = rl_thr s u" "cl_node (rl_thr s' t) = cl_node (rl_thr s t)"
      "cl_wake (rl_thr s' t) = cl_wake (rl_thr s t)" "cl_todo (rl_thr s' t) = cl_todo (rl_thr s t)"
      "cl_pc (rl_thr s' t) = (case cl_pc (rl_thr s t) of Sleeping g \<Rightarrow> WakeWait g | q \<Rightarrow> q)"
      by (simp_all add: finalize_notify(1) notify_caller_def split: caller_pc.splits)
    have "caller_ok (cl_pc (rl_thr s' t)) (node_of s t) (cl_wake (rl_thr s t)) (Request t \<in> set (queue s)) False False"
    proof (cases "\<exists>g. cl_pc (rl_thr s t) = Sleeping g")
      case True
      then obtain g where g: "cl_pc (rl_thr s t) = Sleeping g" by blast
      show ?thesis using caller_ok_wakes [OF T [unfolded g]] by (simp add: f(9) g)
    next
      case False
      then have "cl_pc (rl_thr s' t) = cl_pc (rl_thr s t)" by (auto simp: f(9) split: caller_pc.splits)
      then show ?thesis using caller_ok_notified [OF T] False by simp
    qed
    then have "thr_ok s' t" using finalize_notify(2) by (simp add: thr_ok_def f)
    then show ?thesis
      using finalize_notify(2) D(2) f
      by (intro rl_ok_finalize [OF ok, of t]) (auto split: caller_pc.splits)
  next
    case poll_empty then show ?thesis using D(2,3) by (intro rl_ok_other [OF ok]) (simp_all add: stop_ok_def)
  next
    case poll
    then have "distinct (rl_inbox s)" using D(2) by simp
    then show ?thesis using poll D(3) by (intro rl_ok_other [OF ok]) (simp_all add: stop_ok_def Reverse_rev)
  next
    case block_empty then show ?thesis using D(2,3) by (intro rl_ok_other [OF ok]) (simp_all add: stop_ok_def)
  next
    case block then show ?thesis using D(2,3) by (intro rl_ok_other [OF ok]) (simp_all add: stop_ok_def)
  next
    case batch_end then show ?thesis using D(2,3) by (intro rl_ok_other [OF ok]) (simp_all add: stop_ok_def)
  next
    case serve then show ?thesis using D(2,3) by (intro rl_ok_other [OF ok]) (simp_all add: stop_ok_def)
  next
    case fail then show ?thesis using D(2,3) by (intro rl_ok_other [OF ok]) (auto simp: stop_ok_def)
  next
    case last_drain
    then have "distinct (rl_inbox s)" using D(2) by simp
    then show ?thesis using last_drain D(3) by (intro rl_ok_other [OF ok]) (auto simp: stop_ok_def Reverse_rev)
  next
    case run_end then show ?thesis using D(2,3) by (intro rl_ok_other [OF ok]) (auto simp: stop_ok_def)
  qed
qed

lemma rl_ok_close_step:
  assumes ok: "rl_ok s" and st: "close_step contract s s'"
  shows "rl_ok s'"
proof -
  note D = rl_okD [OF ok]
  have w: "with_reactor (if rl_pc s = Parked then Block else rl_pc s) = with_reactor (rl_pc s)"
    "bumping (if rl_pc s = Parked then Block else rl_pc s) = bumping (rl_pc s)"
    "pinging (if rl_pc s = Parked then Block else rl_pc s) = pinging (rl_pc s)"
    "stopped (if rl_pc s = Parked then Block else rl_pc s) = stopped (rl_pc s)" by auto
  show ?thesis
    using st
  proof cases
    case (stop_cas old)
    have "\<not> stopped (rl_pc s)" "StopRequest \<notin> set (queue s)" using D(3) stop_cas by (auto simp: stop_ok_def)
    then show ?thesis using stop_cas D(2,3) by (intro rl_ok_other [OF ok]) (auto simp: stop_ok_def)
  next
    case stop_notify
    then show ?thesis using D(2,3) w by (intro rl_ok_other [OF ok]) (auto simp: stop_ok_def split: if_splits)
  next
    case join
    then show ?thesis using D(2,3) by (intro rl_ok_other [OF ok]) (auto simp: stop_ok_def)
  qed (use D(2-4) in \<open>auto intro!: rl_ok_other [OF ok] simp: stop_ok_def\<close>)
qed

lemma rl_ok_spurious:
  assumes ok: "rl_ok s" and st: "rl_spurious s s'"
  shows "rl_ok s'"
  using st
proof cases
  case (caller_weak_fail t g old)
  note T = rl_okD(1) [OF ok, of t, unfolded thr_ok_def]
  show ?thesis
    using caller_weak_fail(1,3) caller_ok_reload [OF T]
    by (intro rl_ok_caller [OF ok caller_weak_fail(2)]) (auto simp: thr_ok_def)
next
  case (caller_wakes t g)
  note T = rl_okD(1) [OF ok, of t, unfolded thr_ok_def caller_wakes(3)]
  show ?thesis
    using caller_wakes(1,3) caller_ok_wakes [OF T]
    by (intro rl_ok_caller [OF ok caller_wakes(2)]) (auto simp: thr_ok_def)
next
  case reactor_wakes
  then show ?thesis using rl_okD(2-4) [OF ok] by (intro rl_ok_other [OF ok]) (auto simp: stop_ok_def)
qed

lemma rl_ok_step: "rl_ok s \<Longrightarrow> rl_step contract s s' \<Longrightarrow> rl_ok s'"
  unfolding rl_step_def using rl_ok_caller_step rl_ok_run_step rl_ok_close_step by blast

lemma rl_ok_reach: "rl_reach contract r wake progs s \<Longrightarrow> rl_ok s"
  by (induction rule: rl_reach.induct) (auto intro: rl_ok_init rl_ok_step rl_ok_spurious)

end
