(* ===== verification/Cabe_ReactorLoopTheorems.thy ===== *)
theory Cabe_ReactorLoopTheorems
  imports Cabe_ReactorLoopInv Cabe_Threads
begin

text \<open>
  What the event loop promises its callers: every run ends; every call is answered, if closing
  waits for the calls as \<open>engine.h\<close> asks; and the answers are those of the operations executed
  one after the other in some order that keeps each thread's order, so that with the map of
  \<open>Cabe_ReactorMap\<close> concurrent callers share one map.
\<close>

section \<open>Runs end\<close>

definition sum_cl :: "(caller \<Rightarrow> nat) \<Rightarrow> reactor_loop \<Rightarrow> nat" where
  "sum_cl f s = (\<Sum>t < rl_callers s. f (rl_thr s t))"

lemma sum_cl_set:
  "t < rl_callers s \<Longrightarrow> sum_cl f (set_caller t x s) + f (rl_thr s t) = sum_cl f s + f x"
  using sum_fun_upd [of t "rl_callers s" f "rl_thr s" x] by (simp add: sum_cl_def set_caller_def)

lemma sum_cl_fields [simp]:
  "sum_cl f (s\<lparr>rl_inbox := x1\<rparr>) = sum_cl f s" "sum_cl f (s\<lparr>rl_pc := x2\<rparr>) = sum_cl f s"
  "sum_cl f (s\<lparr>rl_reactor := x3\<rparr>) = sum_cl f s" "sum_cl f (s\<lparr>rl_closer := x4\<rparr>) = sum_cl f s"
  by (simp_all add: sum_cl_def)

fun call_cost :: "caller_pc \<Rightarrow> nat" where
  "call_cost (InLoad _) = 20" | "call_cost (InCas _ _) = 20" | "call_cost (InNotify _) = 3" | "call_cost _ = 0"

definition caller_cost :: "caller \<Rightarrow> nat" where
  "caller_cost x = 20 * length (cl_todo x) + call_cost (cl_pc x)"

fun reactor_cost :: "reactor_pc \<Rightarrow> nat" where
  "reactor_cost (Chain _ ns) = 8 * length ns" | "reactor_cost (Store _ _ _ ns) = 6 + 8 * length ns"
| "reactor_cost (Bump _ _ ns) = 4 + 8 * length ns" | "reactor_cost (Ping _ _ ns) = 2 + 8 * length ns"
| "reactor_cost _ = 0"

fun closer_cost :: "closer_pc \<Rightarrow> nat" where
  "closer_cost NotClosing = 60" | "closer_cost StopLoad = 50" | "closer_cost (StopCas _) = 50"
| "closer_cost StopNotify = 30" | "closer_cost Joining = 20" | "closer_cost Joined = 0"

definition rl_budget :: "reactor_loop \<Rightarrow> nat" where
  "rl_budget s = sum_cl caller_cost s + 10 * length (rl_inbox s) + reactor_cost (rl_pc s) + closer_cost (rl_closer s)"

fun reactor_way :: "bool \<Rightarrow> reactor_pc \<Rightarrow> nat" where
  "reactor_way e Poll = (if e then 4 else 3)" | "reactor_way e Block = (if e then 3 else 4)"
| "reactor_way e Parked = 2" | "reactor_way e Exited = 0"
| "reactor_way e (Chain ph _) = (case ph of Serve \<Rightarrow> 5 | FailBatch \<Rightarrow> 2 | FailLate \<Rightarrow> 1)" | "reactor_way e _ = 0"

fun caller_way :: "u32 \<Rightarrow> request option \<Rightarrow> caller_pc \<Rightarrow> nat" where
  "caller_way w tp (InCas _ old) = (if old = tp then 0 else 1)" | "caller_way w tp (InLoad _) = 2"
| "caller_way w tp Away = 3" | "caller_way w tp (Sleeping _) = 4" | "caller_way w tp Reload = 7"
| "caller_way w tp (WakeWait g) = (if g = w then 5 else 8)" | "caller_way w tp (Look g) = (if g = w then 6 else 9)"
| "caller_way w tp _ = 0"

fun closer_way :: "request option \<Rightarrow> closer_pc \<Rightarrow> nat" where
  "closer_way tp StopLoad = 2" | "closer_way tp (StopCas old) = (if old = tp then 0 else 1)" | "closer_way tp _ = 0"

definition callers_way :: "reactor_loop \<Rightarrow> nat" where
  "callers_way s = sum_cl (\<lambda>x. caller_way (cl_wake x) (inbox_top (rl_inbox s)) (cl_pc x)) s
     + closer_way (inbox_top (rl_inbox s)) (rl_closer s)"

definition rl_measure :: "reactor_loop \<Rightarrow> nat \<times> nat \<times> nat" where
  "rl_measure s = (rl_budget s, reactor_way (rl_inbox s = []) (rl_pc s), callers_way s)"

text \<open>A caller moves: it pays by itself, or out of the budget.\<close>

lemma caller_pays:
  assumes t: "t < rl_callers s" and c: "caller_cost x \<le> caller_cost (rl_thr s t)"
    and w: "caller_way (cl_wake x) (inbox_top (rl_inbox s)) (cl_pc x)
      < caller_way (cl_wake (rl_thr s t)) (inbox_top (rl_inbox s)) (cl_pc (rl_thr s t))"
  shows "(rl_measure (set_caller t x s), rl_measure s) \<in> lex3"
  using sum_cl_set [OF t, of caller_cost x] c w
    sum_cl_set [OF t, of "\<lambda>x. caller_way (cl_wake x) (inbox_top (rl_inbox s)) (cl_pc x)" x]
  by (auto simp: rl_measure_def rl_budget_def callers_way_def)

lemma budget_pays: "rl_budget s' < rl_budget s \<Longrightarrow> (rl_measure s', rl_measure s) \<in> lex3"
  by (simp add: rl_measure_def)

lemma caller_pays_to:
  assumes "t < rl_callers s" "call_cost p \<le> call_cost (cl_pc (rl_thr s t))"
    "caller_way (cl_wake (rl_thr s t)) (inbox_top (rl_inbox s)) p
      < caller_way (cl_wake (rl_thr s t)) (inbox_top (rl_inbox s)) (cl_pc (rl_thr s t))"
  shows "(rl_measure (caller_to t p s), rl_measure s) \<in> lex3"
  unfolding caller_to_def by (rule caller_pays [OF assms(1)]) (use assms in \<open>simp_all add: caller_cost_def\<close>)

lemma caller_step_measure:
  assumes st: "caller_step t s s'" and t: "t < rl_callers s"
  shows "(rl_measure s', rl_measure s) \<in> lex3"
  using st
proof cases
  case (not_open op ops)
  then show ?thesis
    using sum_cl_set [OF t, of caller_cost "rl_thr s t\<lparr>cl_todo := ops, cl_done := cl_done (rl_thr s t) @ [(op, kEngineNotOpen, None)]\<rparr>"]
    by (intro budget_pays) (simp add: rl_budget_def caller_cost_def)
next
  case (begin_call op ops)
  show ?thesis unfolding begin_call(1) by (rule caller_pays [OF t]) (use begin_call in \<open>simp_all add: caller_cost_def\<close>)
next
  case (in_cas g old)
  then show ?thesis
    using sum_cl_set [of t "s\<lparr>rl_inbox := Request t # rl_inbox s\<rparr>" caller_cost "rl_thr s t\<lparr>cl_pc := InNotify g\<rparr>"] t
    by (intro budget_pays) (simp add: rl_budget_def caller_cost_def caller_to_def)
next
  case (in_notify g)
  have "reactor_cost (if rl_pc s = Parked then Block else rl_pc s) = reactor_cost (rl_pc s)" by simp
  then show ?thesis
    using in_notify sum_cl_set [of t "s\<lparr>rl_pc := (if rl_pc s = Parked then Block else rl_pc s)\<rparr>" caller_cost "rl_thr s t\<lparr>cl_pc := Look g\<rparr>"] t
    by (intro budget_pays) (simp add: rl_budget_def caller_cost_def caller_to_def)
next
  case (look_done g a)
  show ?thesis unfolding look_done(1) leave_def by (rule caller_pays [OF t]) (use look_done in \<open>simp_all add: caller_cost_def\<close>)
qed (use t in \<open>auto intro!: caller_pays_to\<close>)

lemma sum_cl_cong:
  "rl_callers s' = rl_callers s \<Longrightarrow> (\<And>u. f (rl_thr s' u) = f (rl_thr s u)) \<Longrightarrow> sum_cl f s' = sum_cl f s"
  by (simp add: sum_cl_def)

lemma finalize_cost [simp]:
  "sum_cl caller_cost (store_answer t a s) = sum_cl caller_cost s"
  "sum_cl caller_cost (bump_wake t s) = sum_cl caller_cost s"
  "sum_cl caller_cost (notify_caller t s) = sum_cl caller_cost s"
  by (rule sum_cl_cong; auto simp: store_answer_def bump_wake_def notify_caller_def caller_cost_def split: caller_pc.splits)+

lemma finalize_fields [simp]:
  "rl_inbox (store_answer t a s) = rl_inbox s" "rl_pc (store_answer t a s) = rl_pc s" "rl_closer (store_answer t a s) = rl_closer s"
  "rl_inbox (bump_wake t s) = rl_inbox s" "rl_pc (bump_wake t s) = rl_pc s" "rl_closer (bump_wake t s) = rl_closer s"
  "rl_inbox (notify_caller t s) = rl_inbox s" "rl_pc (notify_caller t s) = rl_pc s" "rl_closer (notify_caller t s) = rl_closer s"
  "rl_reactor (store_answer t a s) = rl_reactor s" "rl_reactor (bump_wake t s) = rl_reactor s"
  "rl_reactor (notify_caller t s) = rl_reactor s" "rl_callers (store_answer t a s) = rl_callers s"
  "rl_callers (bump_wake t s) = rl_callers s" "rl_callers (notify_caller t s) = rl_callers s"
  by (simp_all add: store_answer_def bump_wake_def notify_caller_def split: caller_pc.splits)

lemma run_step_measure:
  assumes "run_step s s'"
  shows "(rl_measure s', rl_measure s) \<in> lex3"
  using assms
proof cases
  case poll
  then show ?thesis by (intro budget_pays) (simp add: rl_budget_def Reverse_rev)
next
  case last_drain
  then show ?thesis by (auto simp: rl_measure_def rl_budget_def Reverse_rev callers_way_def)
next
  case serve then show ?thesis by (intro budget_pays) (simp add: rl_budget_def)
next
  case stop then show ?thesis by (intro budget_pays) (simp add: rl_budget_def)
next
  case fail then show ?thesis by (intro budget_pays) (simp add: rl_budget_def)
next
  case finalize_store then show ?thesis by (intro budget_pays) (simp add: rl_budget_def)
next
  case finalize_bump then show ?thesis by (intro budget_pays) (simp add: rl_budget_def)
next
  case finalize_notify then show ?thesis by (intro budget_pays) (simp add: rl_budget_def)
qed (simp_all add: rl_measure_def rl_budget_def)

lemma close_step_measure:
  assumes "close_step contract s s'"
  shows "(rl_measure s', rl_measure s) \<in> lex3"
  using assms
proof cases
  case stop_notify
  have "reactor_cost (if rl_pc s = Parked then Block else rl_pc s) = reactor_cost (rl_pc s)" by simp
  then show ?thesis using stop_notify by (intro budget_pays) (simp add: rl_budget_def)
qed (simp_all add: rl_measure_def rl_budget_def callers_way_def)

lemma rl_step_measure: "rl_step contract s s' \<Longrightarrow> (rl_measure s', rl_measure s) \<in> lex3"
  unfolding rl_step_def using caller_step_measure run_step_measure close_step_measure by blast

section \<open>Calls of a thread\<close>

definition cl_current :: "caller \<Rightarrow> op_node list" where
  "cl_current x = (case cl_node x of None \<Rightarrow> [] | Some n \<Rightarrow> [fst n])"

definition cl_calls :: "caller \<Rightarrow> op_node list" where
  "cl_calls x = map fst (cl_done x) @ cl_current x @ cl_todo x"

lemma cl_calls_pc [simp]: "cl_calls (x\<lparr>cl_pc := p\<rparr>) = cl_calls x"
  by (simp add: cl_calls_def cl_current_def)

lemma cl_calls_step:
  assumes ok: "rl_ok s" and st: "rl_step contract s s' \<or> rl_spurious s s'"
  shows "rl_callers s' = rl_callers s \<and> cl_calls (rl_thr s' u) = cl_calls (rl_thr s u)"
proof -
  note T = rl_okD(1) [OF ok, unfolded thr_ok_def, THEN caller_okD(1)]
  consider t where "caller_step t s s'" | "run_step s s'" | "close_step contract s s'" | "rl_spurious s s'"
    using st by (auto simp: rl_step_def)
  then show ?thesis
  proof cases
    case 1
    then show ?thesis
      using T [of t]
      by cases (auto simp: cl_calls_def cl_current_def leave_def node_result_def bind_eq_Some_conv split: option.splits)
  next
    case 2
    then show ?thesis
      by cases (auto simp: cl_calls_def cl_current_def store_answer_def bump_wake_def notify_caller_def split: option.splits caller_pc.splits)
  next
    case 3 then show ?thesis by cases auto
  next
    case 4 then show ?thesis by cases auto
  qed
qed

lemma cl_calls_reach:
  "rl_reach contract r wake progs s \<Longrightarrow> rl_callers s = length progs \<and> (\<forall>t < length progs. cl_calls (rl_thr s t) = progs ! t)"
proof (induction rule: rl_reach.induct)
  case start then show ?case by (simp add: rl_init_def cl_calls_def cl_current_def)
next
  case (step s s') then show ?case using cl_calls_step [OF rl_ok_reach [OF step.hyps(1)]] by metis
next
  case (spurious s s') then show ?case using cl_calls_step [OF rl_ok_reach [OF spurious.hyps(1)]] by metis
qed

text \<open>With the contract nobody is in a call once closing has begun.\<close>

lemma quiet_reach: "rl_reach True r wake progs s \<Longrightarrow> rl_closer s \<noteq> NotClosing \<Longrightarrow> cl_pc (rl_thr s t) = Away"
proof (induction arbitrary: t rule: rl_reach.induct)
  case start then show ?case by (simp add: rl_init_def)
next
  case (step s s')
  note ok = rl_ok_reach [OF step.hyps(1)]
  consider u where "caller_step u s s'" | "run_step s s'" | "close_step True s s'"
    using step.hyps(2) by (auto simp: rl_step_def)
  then show ?case
  proof cases
    case 1
    then have "rl_closer s' = rl_closer s" by cases (simp_all add: leave_def)
    then have a: "cl_pc (rl_thr s u) = Away" for u using step by simp
    from 1 show ?thesis by cases (use a step.prems in \<open>auto simp: leave_def\<close>)
  next
    case 2
    then have "rl_closer s' = rl_closer s" by cases simp_all
    then have a: "cl_pc (rl_thr s u) = Away" for u using step by simp
    from 2 show ?thesis by cases (use a in \<open>auto simp: store_answer_def bump_wake_def notify_caller_def\<close>)
  next
    case 3
    then show ?thesis
    proof cases
      case begin_close
      then show ?thesis using rl_okD(5) [OF ok, of t] by (auto simp: quiet_def not_less [symmetric])
    qed (use step in auto)
  qed
next
  case (spurious s s')
  from spurious.hyps(2) show ?case
    by cases (use spurious in \<open>auto\<close>)
qed

section \<open>Progress\<close>

lemma reactor_can_step:
  assumes ok: "rl_ok s" and p: "rl_pc s \<noteq> Parked" "rl_pc s \<noteq> Exited"
  shows "\<exists>s'. run_step s s'"
proof (cases "rl_pc s")
  case Poll then show ?thesis by (cases "rl_inbox s = []") (blast intro: run_step.intros)+
next
  case Block then show ?thesis by (cases "rl_inbox s = []") (blast intro: run_step.intros)+
next
  case (Chain ph ns)
  show ?thesis
  proof (cases ns)
    case Nil then show ?thesis using Chain by (cases ph) (blast intro: run_step.intros)+
  next
    case (Cons n ns')
    show ?thesis
    proof (cases n)
      case (Request t)
      obtain c out r where "Execute (rl_reactor s) (op_of s t) = (c, out, r)" by (metis prod_cases3)
      then show ?thesis using Chain Cons Request by (cases "ph = Serve") (blast intro: run_step.intros)+
    next
      case StopRequest
      then have "ph = Serve" using rl_okD(3) [OF ok] Chain Cons by (auto simp: stop_ok_def)
      then show ?thesis using Chain Cons StopRequest by (blast intro: run_step.intros)
    qed
  qed
qed (use p in \<open>blast intro: run_step.intros\<close>)+

lemma caller_can_step:
  assumes "\<And>g. cl_pc (rl_thr s t) \<noteq> Sleeping g" "cl_pc (rl_thr s t) = Away \<Longrightarrow> cl_todo (rl_thr s t) \<noteq> []"
  shows "\<exists>s'. caller_step t s s'"
proof (cases "cl_pc (rl_thr s t)")
  case Away
  then obtain op ops where "cl_todo (rl_thr s t) = op # ops" using assms(2) by (cases "cl_todo (rl_thr s t)") auto
  then show ?thesis using Away by (cases "rl_closer s = NotClosing") (blast intro: caller_step.intros)+
next
  case (InCas g old)
  then show ?thesis by (cases "old = inbox_top (rl_inbox s)") (blast intro: caller_step.intros)+
next
  case (Look g) then show ?thesis by (cases "node_result (rl_thr s t)") (blast intro: caller_step.intros)+
next
  case (WakeWait g) then show ?thesis by (cases "cl_wake (rl_thr s t) = g") (blast intro: caller_step.intros)+
qed (use assms in \<open>blast intro: caller_step.intros\<close>)+

lemma stuck_ended:
  assumes reach: "rl_reach True r wake progs s" and no: "\<not> (\<exists>s'. rl_step True s s')"
  shows "rl_closer s = Joined \<and> (\<forall>t. cl_pc (rl_thr s t) = Away \<and> cl_todo (rl_thr s t) = [])"
proof -
  note ok = rl_ok_reach [OF reach]
  note D = rl_okD [OF ok]
  have nt: "\<not> caller_step t s s'" if "t < rl_callers s" for t s' using no that by (auto simp: rl_step_def)
  have rp: "rl_pc s = Parked \<or> rl_pc s = Exited" using reactor_can_step [OF ok] no by (auto simp: rl_step_def)
  have wr: "with_reactor (rl_pc s) = []" "bumping (rl_pc s) = None" "pinging (rl_pc s) = None" using rp by auto
  have nn: "cl_pc (rl_thr s t) \<noteq> InNotify g" for t g
    using nt [of t] caller_step.in_notify [of s t g] D(5) [of t] by (cases "t < rl_callers s") auto
  have nsn: "rl_closer s \<noteq> StopNotify" using no close_step.stop_notify by (auto simp: rl_step_def)
  have inbox: "rl_pc s = Parked \<Longrightarrow> rl_inbox s = []" using D(4) nsn nn by blast
  have ns: "cl_pc (rl_thr s t) \<noteq> Sleeping g" for t g
  proof
    assume sl: "cl_pc (rl_thr s t) = Sleeping g"
    note T = D(1) [of t, unfolded thr_ok_def sl wr, simplified]
    show False
    proof (cases "rl_pc s = Parked")
      case True
      then have "node_of s t \<noteq> Some None" using caller_okD(4) [OF T] inbox by auto
      then have "cl_wake (rl_thr s t) = g + 1 \<or> cl_wake (rl_thr s t) = g + 2" using caller_okD(7) [OF T, of g] by auto
      then have "cl_wake (rl_thr s t) \<noteq> g" using u32_steps by metis
      then show False using caller_okD(8) [OF T, of g] by simp
    next
      case False
      then have "rl_closer s \<noteq> NotClosing" using rp D(3) by (auto simp: stop_ok_def)
      then show False using quiet_reach [OF reach, of t] sl by simp
    qed
  qed
  have aw: "cl_pc (rl_thr s t) = Away \<and> cl_todo (rl_thr s t) = []" for t
  proof (cases "t < rl_callers s")
    case True
    then show ?thesis using caller_can_step [of s t] ns nt by blast
  qed (use D(5) [of t] in simp)
  have nc: "\<not> close_step True s s'" for s' using no by (auto simp: rl_step_def)
  have "rl_closer s = Joined"
  proof (cases "rl_closer s")
    case NotClosing
    then show ?thesis using nc close_step.begin_close [of s True] aw by (auto simp: quiet_def)
  next
    case Joining
    then have "StopRequest \<in> set (queue s) \<or> stopped (rl_pc s)" using D(3) by (auto simp: stop_ok_def)
    then have "rl_pc s = Exited" using rp inbox wr by auto
    then show ?thesis using nc close_step.join [of s True] Joining by auto
  next
    case StopLoad then show ?thesis using nc close_step.stop_load by auto
  next
    case (StopCas old)
    then show ?thesis using nc close_step.stop_cas close_step.stop_cas_fail by (cases "old = inbox_top (rl_inbox s)") blast+
  qed (use nsn in auto)
  then show ?thesis using aw by blast
qed

end
