(* ===== verification/Cabe_ReactorShare.thy ===== *)
theory Cabe_ReactorShare
  imports Cabe_ReactorLoopTheorems
begin

text \<open>
  The callers of a reactor share one map: the answers they got are those of the sequential
  reactor of \<open>Cabe_ReactorTheorems\<close> for the operations in one common order. The properties of
  the event loop are at the end.
\<close>

section \<open>The common order\<close>

text \<open>The operations executed so far with their callers and answers; \<open>answered s t\<close> is what thread
  \<open>t\<close> got, with the answer that is on its way.\<close>

type_synonym call_history = "(nat \<times> op_node \<times> answer) list"

definition ops_of :: "call_history \<Rightarrow> op_node list" where
  "ops_of hist = map (\<lambda>x. fst (snd x)) hist"

definition answers_of :: "call_history \<Rightarrow> answer list" where
  "answers_of hist = map (\<lambda>x. snd (snd x)) hist"

fun stored :: "reactor_pc \<Rightarrow> nat \<Rightarrow> answer option" where
  "stored (Store _ u a _) t = (if u = t then Some a else None)" | "stored _ t = None"

fun on_its_way :: "(op_node \<times> answer option) option \<Rightarrow> answer option \<Rightarrow> (op_node \<times> answer) list" where
  "on_its_way None st = []" | "on_its_way (Some (op, Some a)) st = [(op, a)]"
| "on_its_way (Some (op, None)) None = []" | "on_its_way (Some (op, None)) (Some a) = [(op, a)]"

definition answered :: "reactor_loop \<Rightarrow> nat \<Rightarrow> (op_node \<times> answer) list" where
  "answered s t = cl_done (rl_thr s t) @ on_its_way (cl_node (rl_thr s t)) (stored (rl_pc s) t)"

text \<open>Answers other than "not open", which the engine and the closing reactor give without
  executing the operation.\<close>

definition granted :: "(op_node \<times> answer) list \<Rightarrow> (op_node \<times> answer) list" where
  "granted l = filter (\<lambda>x. snd x \<noteq> (kEngineNotOpen, None)) l"

lemma granted_append [simp]: "granted (a @ b) = granted a @ granted b" by (simp add: granted_def)

definition share_ok :: "reactor \<Rightarrow> reactor_loop \<Rightarrow> call_history \<Rightarrow> bool" where
  "share_ok r s hist \<longleftrightarrow> (\<exists>core. run_ops r (ops_of hist) = (answers_of hist, core)
       \<and> rl_reactor s = (if stopped (rl_pc s) then CloseDc core else core))
     \<and> (\<forall>t. subseq (own t hist) (answered s t) \<and> subseq (granted (answered s t)) (own t hist))"

lemma run_ops_snoc:
  "run_ops r ops = (res, r1) \<Longrightarrow> Execute r1 op = (c, out, r2) \<Longrightarrow> run_ops r (ops @ [op]) = (res @ [(c, out)], r2)"
  by (induction ops arbitrary: r res) (auto split: prod.splits)

lemma share_ok_same:
  assumes "share_ok r s hist" "rl_reactor s' = rl_reactor s" "stopped (rl_pc s') = stopped (rl_pc s)"
    "\<And>u. answered s' u = answered s u"
  shows "share_ok r s' hist"
  using assms unfolding share_ok_def by simp

text \<open>A refusal is answered without being executed.\<close>

lemma share_ok_refuse:
  assumes "share_ok r s hist" "rl_reactor s' = rl_reactor s" "stopped (rl_pc s') = stopped (rl_pc s)"
    "\<And>u. answered s' u = answered s u @ (if u = t then [(op, kEngineNotOpen, None)] else [])"
  shows "share_ok r s' hist"
  using assms unfolding share_ok_def by (auto simp: granted_def subseq_rev_drop_many)

lemma answered_move:
  assumes "\<And>u. cl_done (rl_thr s' u) = cl_done (rl_thr s u)" "\<And>u. cl_node (rl_thr s' u) = cl_node (rl_thr s u)"
    "stored (rl_pc s') = stored (rl_pc s)"
  shows "answered s' u = answered s u"
  by (simp add: answered_def assms)

lemma stored_unparked: "stored (if rp = Parked then Block else rp) = stored rp"
  by (simp add: fun_eq_iff)

lemma share_ok_caller:
  assumes ok: "rl_ok s" and sh: "share_ok r s hist" and st: "caller_step t s s'"
  shows "share_ok r s' hist"
proof -
  note T = rl_okD(1) [OF ok, of t, unfolded thr_ok_def]
  have away: "stored (rl_pc s) t = None" "cl_node (rl_thr s t) = None" if "cl_pc (rl_thr s t) = Away"
  proof -
    show n: "cl_node (rl_thr s t) = None" using caller_okD(1) [OF T] that by simp
    have "Request t \<notin> set (with_reactor (rl_pc s))" using caller_okD(3) [OF T] n by auto
    then show "stored (rl_pc s) t = None" by (cases "rl_pc s") auto
  qed
  show ?thesis
    using st
  proof cases
    case (not_open op ops)
    then show ?thesis
      using away by (intro share_ok_refuse [OF sh, where t = t and op = op]) (auto simp: answered_def)
  next
    case (begin_call op ops)
    then show ?thesis
      using away by (intro share_ok_same [OF sh]) (auto simp: answered_def)
  next
    case (in_notify g)
    then show ?thesis
      by (intro share_ok_same [OF sh] answered_move) (auto simp: stored_unparked)
  next
    case (look_done g a)
    obtain op where n: "cl_node (rl_thr s t) = Some (op, Some a)"
      using look_done(3) by (cases "cl_node (rl_thr s t)") (auto simp: node_result_def)
    show ?thesis
      unfolding look_done(1) by (intro share_ok_same [OF sh]) (auto simp: answered_def leave_def n)
  qed (auto intro!: share_ok_same [OF sh] answered_move)
qed

lemma share_ok_serve:
  assumes ok: "rl_ok s" and sh: "share_ok r s hist" and p: "rl_pc s = Chain Serve (Request t # ns)"
    and ex: "Execute (rl_reactor s) (op_of s t) = (c, out, r')"
  shows "share_ok r (s\<lparr>rl_pc := Store Serve t (c, out) ns, rl_reactor := r'\<rparr>) (hist @ [(t, op_of s t, (c, out))])"
    (is "share_ok r ?s ?h")
proof -
  note T = rl_okD(1) [OF ok, of t, unfolded thr_ok_def]
  have q: "Request t \<in> set (queue s)" using p by simp
  obtain op where n: "cl_node (rl_thr s t) = Some (op, None)"
    using caller_okD(3) [OF T q] by auto
  obtain core where core: "run_ops r (ops_of hist) = (answers_of hist, core)" "rl_reactor s = core"
    using sh p by (auto simp: share_ok_def)
  have run: "run_ops r (ops_of ?h) = (answers_of ?h, r')"
    using run_ops_snoc [OF core(1) ex [unfolded core(2)]] by (simp add: ops_of_def answers_of_def)
  have a: "answered ?s u = answered s u @ (if u = t then [(op_of s t, (c, out))] else [])" for u
    using n p by (simp add: answered_def op_of_def)
  have "subseq (own u ?h) (answered ?s u) \<and> subseq (granted (answered ?s u)) (own u ?h)" for u
    using sh a [of u] by (auto simp: share_ok_def granted_def intro: list_emb_append_mono subseq_rev_drop_many)
  then show ?thesis using run by (simp add: share_ok_def)
qed

lemma share_ok_run:
  assumes ok: "rl_ok s" and sh: "share_ok r s hist" and st: "run_step s s'"
  shows "\<exists>hist. share_ok r s' hist"
proof -
  have same: ?thesis if "rl_thr s' = rl_thr s" "stored (rl_pc s') = stored (rl_pc s)" "rl_reactor s' = rl_reactor s"
    "stopped (rl_pc s') = stopped (rl_pc s)"
    using that by (intro exI [of _ hist] share_ok_same [OF sh] answered_move) auto
  show ?thesis
    using st
  proof cases
    case (serve t ns c out r')
    then show ?thesis using share_ok_serve [OF ok sh] by blast
  next
    case (stop ns)
    have "answered s' u = answered s u" for u using stop by (intro answered_move) (auto simp: fun_eq_iff)
    then show ?thesis using sh stop by (intro exI [of _ hist]) (simp add: share_ok_def)
  next
    case (fail ph t ns)
    note T = rl_okD(1) [OF ok, of t, unfolded thr_ok_def]
    obtain op where n: "cl_node (rl_thr s t) = Some (op, None)"
      using caller_okD(3) [OF T] fail by auto
    show ?thesis
      using fail n by (intro exI [of _ hist] share_ok_refuse [OF sh, where t = t and op = op])
        (auto simp: answered_def)
  next
    case (finalize_store ph t a ns)
    note T = rl_okD(1) [OF ok, of t, unfolded thr_ok_def]
    obtain op where n: "cl_node (rl_thr s t) = Some (op, None)"
      using caller_okD(3) [OF T] finalize_store by auto
    have "answered s' u = answered s u" for u
      using finalize_store n by (cases "u = t") (auto simp: answered_def store_answer_def)
    then show ?thesis
      using finalize_store by (intro exI [of _ hist] share_ok_same [OF sh]) auto
  next
    case (finalize_bump ph t ns)
    then show ?thesis
      by (intro exI [of _ hist] share_ok_same [OF sh] answered_move) (auto simp: bump_wake_def fun_eq_iff)
  next
    case (finalize_notify ph t ns)
    then show ?thesis
      by (intro exI [of _ hist] share_ok_same [OF sh] answered_move)
        (auto simp: notify_caller_def fun_eq_iff split: caller_pc.splits)
  qed (rule same; simp add: fun_eq_iff)+
qed

lemma share_ok_reach: "rl_reach contract r wake progs s \<Longrightarrow> \<exists>hist. share_ok r s hist"
proof (induction rule: rl_reach.induct)
  case start
  have "share_ok r (rl_init r wake progs) []"
    by (simp add: share_ok_def rl_init_def ops_of_def answers_of_def answered_def granted_def)
  then show ?case by blast
next
  case (step s s')
  note ok = rl_ok_reach [OF step.hyps(1)]
  obtain hist where h: "share_ok r s hist" using step.IH by blast
  consider t where "caller_step t s s'" | "run_step s s'" | "close_step contract s s'"
    using step.hyps(2) by (auto simp: rl_step_def)
  then show ?case
  proof cases
    case 1 then show ?thesis using share_ok_caller [OF ok h] by blast
  next
    case 2 then show ?thesis by (rule share_ok_run [OF ok h])
  next
    case 3
    then have "share_ok r s' hist"
      by cases (auto intro!: share_ok_same [OF h] answered_move simp: stored_unparked)
    then show ?thesis by blast
  qed
next
  case (spurious s s')
  obtain hist where h: "share_ok r s hist" using spurious.IH by blast
  from spurious.hyps(2) have "share_ok r s' hist"
    by cases (auto intro!: share_ok_same [OF h] answered_move simp: fun_eq_iff)
  then show ?case by blast
qed


section \<open>One caller and the closing thread\<close>

text \<open>A state with one calling thread, for concrete runs.\<close>

definition one ::
  "caller_pc \<Rightarrow> (op_node \<times> answer option) option \<Rightarrow> u32 \<Rightarrow> op_node list \<Rightarrow> (op_node \<times> answer) list \<Rightarrow> request list
    \<Rightarrow> reactor_pc \<Rightarrow> reactor \<Rightarrow> closer_pc \<Rightarrow> reactor_loop" where
  "one p nd w todo dn ib rp r cl = \<lparr>rl_inbox = ib, rl_pc = rp, rl_reactor = r, rl_closer = cl, rl_callers = 1,
     rl_thr = \<lambda>t. if t = 0 then \<lparr>cl_pc = p, cl_node = nd, cl_todo = todo, cl_done = dn, cl_wake = w\<rparr>
       else \<lparr>cl_pc = Away, cl_node = None, cl_todo = [], cl_done = [], cl_wake = 0\<rparr>\<rparr>"

lemma one_fields [simp]:
  "rl_inbox (one p nd w todo dn ib rp r cl) = ib" "rl_pc (one p nd w todo dn ib rp r cl) = rp"
  "rl_reactor (one p nd w todo dn ib rp r cl) = r" "rl_closer (one p nd w todo dn ib rp r cl) = cl"
  "rl_callers (one p nd w todo dn ib rp r cl) = 1"
  "rl_thr (one p nd w todo dn ib rp r cl) 0 = \<lparr>cl_pc = p, cl_node = nd, cl_todo = todo, cl_done = dn, cl_wake = w\<rparr>"
  by (simp_all add: one_def)

lemma one_updates [simp]:
  "one p nd w todo dn ib rp r cl\<lparr>rl_inbox := ib'\<rparr> = one p nd w todo dn ib' rp r cl"
  "one p nd w todo dn ib rp r cl\<lparr>rl_pc := rp'\<rparr> = one p nd w todo dn ib rp' r cl"
  "one p nd w todo dn ib rp r cl\<lparr>rl_reactor := r'\<rparr> = one p nd w todo dn ib rp r' cl"
  "one p nd w todo dn ib rp r cl\<lparr>rl_closer := cl'\<rparr> = one p nd w todo dn ib rp r cl'"
  "set_caller 0 \<lparr>cl_pc = p', cl_node = nd', cl_todo = todo', cl_done = dn', cl_wake = w'\<rparr> (one p nd w todo dn ib rp r cl)
     = one p' nd' w' todo' dn' ib rp r cl"
  "caller_to 0 p' (one p nd w todo dn ib rp r cl) = one p' nd w todo dn ib rp r cl"
  by (simp_all add: one_def set_caller_def caller_to_def fun_eq_iff)

lemma one_init: "rl_init r (\<lambda>_. 0) [[op]] = one Away None 0 [op] [] [] Poll r NotClosing"
  by (simp add: rl_init_def one_def fun_eq_iff)

lemma one_caller: "rl_reach c r wk progs s \<Longrightarrow> caller_step 0 s s' \<Longrightarrow> rl_callers s = 1 \<Longrightarrow> rl_reach c r wk progs s'"
  by (rule rl_reach.step) (auto simp: rl_step_def)

lemma one_run: "rl_reach c r wk progs s \<Longrightarrow> run_step s s' \<Longrightarrow> rl_reach c r wk progs s'"
  by (rule rl_reach.step) (auto simp: rl_step_def)

lemma one_close: "rl_reach c r wk progs s \<Longrightarrow> close_step c s s' \<Longrightarrow> rl_reach c r wk progs s'"
  by (rule rl_reach.step) (auto simp: rl_step_def)

lemma one_answered:
  assumes ex: "Execute r op = (c, out, r')"
  shows "rl_reach contract r (\<lambda>_. 0) [[op]]
    (one (Look 0) (Some (op, Some (c, out))) 0 [] [] [] (Bump Serve 0 []) r' NotClosing)"
proof -
  let ?R = "rl_reach contract r (\<lambda>_. 0) [[op]]"
  have 0: "?R (one Away None 0 [op] [] [] Poll r NotClosing)" using rl_reach.start unfolding one_init [symmetric] .
  have 1: "?R (one (InLoad 0) (Some (op, None)) 0 [] [] [] Poll r NotClosing)"
    by (rule one_caller [OF 0]) (use caller_step.begin_call [of "one Away None 0 [op] [] [] Poll r NotClosing" 0 op "[]"] in simp_all)
  have 2: "?R (one (InCas 0 None) (Some (op, None)) 0 [] [] [] Poll r NotClosing)"
    by (rule one_caller [OF 1])
      (use caller_step.in_load [of "one (InLoad 0) (Some (op, None)) 0 [] [] [] Poll r NotClosing" 0 0] in \<open>simp_all add: inbox_top_def\<close>)
  have 3: "?R (one (InNotify 0) (Some (op, None)) 0 [] [] [Request 0] Poll r NotClosing)"
    by (rule one_caller [OF 2])
      (use caller_step.in_cas [of "one (InCas 0 None) (Some (op, None)) 0 [] [] [] Poll r NotClosing" 0 0 None] in \<open>simp_all add: inbox_top_def\<close>)
  have 4: "?R (one (Look 0) (Some (op, None)) 0 [] [] [Request 0] Poll r NotClosing)"
    by (rule one_caller [OF 3])
      (use caller_step.in_notify [of "one (InNotify 0) (Some (op, None)) 0 [] [] [Request 0] Poll r NotClosing" 0 0] in simp_all)
  have 5: "?R (one (Look 0) (Some (op, None)) 0 [] [] [] (Chain Serve [Request 0]) r NotClosing)"
    by (rule one_run [OF 4])
      (use run_step.poll [of "one (Look 0) (Some (op, None)) 0 [] [] [Request 0] Poll r NotClosing"] in \<open>simp_all add: Reverse_rev\<close>)
  have 6: "?R (one (Look 0) (Some (op, None)) 0 [] [] [] (Store Serve 0 (c, out) []) r' NotClosing)"
    by (rule one_run [OF 5])
      (use run_step.serve [of "one (Look 0) (Some (op, None)) 0 [] [] [] (Chain Serve [Request 0]) r NotClosing" 0 "[]"] ex
        in \<open>simp_all add: op_of_def\<close>)
  show ?thesis
    by (rule one_run [OF 6])
      (use run_step.finalize_store [of "one (Look 0) (Some (op, None)) 0 [] [] [] (Store Serve 0 (c, out) []) r' NotClosing" Serve 0 "(c, out)" "[]"]
        in \<open>simp_all add: store_answer_def\<close>)
qed

lemma one_returned:
  assumes ex: "Execute r op = (c, out, r')"
  shows "rl_reach contract r (\<lambda>_. 0) [[op]] (one Away None 0 [] [(op, c, out)] [] (Bump Serve 0 []) r' NotClosing)"
  by (rule one_caller [OF one_answered [OF ex]])
    (use caller_step.look_done [of "one (Look 0) (Some (op, Some (c, out))) 0 [] [] [] (Bump Serve 0 []) r' NotClosing" 0 0 "(c, out)"]
      in \<open>simp_all add: node_result_def leave_def\<close>)

text \<open>Closing overtakes a call: the engine was open when the call began, the reactor has looked at
  the inbox for the last time when the operation is pushed.\<close>

lemma one_overtaken:
  "rl_reach False r (\<lambda>_. 0) [[op]] (one (InLoad 0) (Some (op, None)) 0 [] [] [] Exited (CloseDc r) Joined)"
proof -
  let ?R = "rl_reach False r (\<lambda>_. 0) [[op]]"
  let ?s = "\<lambda>ib rp r cl. one (InLoad 0) (Some (op, None)) 0 [] [] ib rp r cl"
  have 0: "?R (one Away None 0 [op] [] [] Poll r NotClosing)" using rl_reach.start unfolding one_init [symmetric] .
  have 1: "?R (?s [] Poll r NotClosing)"
    by (rule one_caller [OF 0]) (use caller_step.begin_call [of "one Away None 0 [op] [] [] Poll r NotClosing" 0 op "[]"] in simp_all)
  have 2: "?R (?s [] Poll r StopLoad)"
    by (rule one_close [OF 1]) (use close_step.begin_close [of "?s [] Poll r NotClosing" False] in simp_all)
  have 3: "?R (?s [] Poll r (StopCas None))"
    by (rule one_close [OF 2]) (use close_step.stop_load [of "?s [] Poll r StopLoad" False] in \<open>simp_all add: inbox_top_def\<close>)
  have 4: "?R (?s [StopRequest] Poll r StopNotify)"
    by (rule one_close [OF 3]) (use close_step.stop_cas [of "?s [] Poll r (StopCas None)" None False] in \<open>simp_all add: inbox_top_def\<close>)
  have 5: "?R (?s [StopRequest] Poll r Joining)"
    by (rule one_close [OF 4]) (use close_step.stop_notify [of "?s [StopRequest] Poll r StopNotify" False] in simp_all)
  have 6: "?R (?s [] (Chain Serve [StopRequest]) r Joining)"
    by (rule one_run [OF 5]) (use run_step.poll [of "?s [StopRequest] Poll r Joining"] in \<open>simp_all add: Reverse_rev\<close>)
  have 7: "?R (?s [] (Chain FailBatch []) (CloseDc r) Joining)"
    by (rule one_run [OF 6]) (use run_step.stop [of "?s [] (Chain Serve [StopRequest]) r Joining" "[]"] in simp_all)
  have 8: "?R (?s [] (Chain FailLate []) (CloseDc r) Joining)"
    by (rule one_run [OF 7]) (use run_step.last_drain [of "?s [] (Chain FailBatch []) (CloseDc r) Joining"] in \<open>simp_all add: Reverse_rev\<close>)
  have 9: "?R (?s [] Exited (CloseDc r) Joining)"
    by (rule one_run [OF 8]) (use run_step.run_end [of "?s [] (Chain FailLate []) (CloseDc r) Joining"] in simp_all)
  show ?thesis
    by (rule one_close [OF 9]) (use close_step.join [of "?s [] Exited (CloseDc r) Joining" False] in simp_all)
qed

section \<open>Properties\<close>

text \<open>C5: concurrent callers share one map. In every reachable state there is one common order of
  the operations executed so far such that the reactor's state and the answers are those of the
  sequential reactor in that order, so the index, the devices and the map of keys to values
  agree, and every get in the order answers with the last acknowledged put of its key before it;
  each thread's operations occur in it in the order of its calls, each at most once, and every
  answer a thread got, other than the refusal of a closed engine, is the one computed there.\<close>

theorem concurrent_callers_share_map:
  assumes "rl_reach contract r wake progs s" and "rx_holds r kv"
  shows "\<exists>hist core. run_ops r (ops_of hist) = (answers_of hist, core)
    \<and> rl_reactor s \<in> {core, CloseDc core} \<and> rx_holds core (kv_run (ops_of hist) (answers_of hist) kv)
    \<and> (\<forall>i < length hist. op_kind (ops_of hist ! i) = OpGet \<longrightarrow>
        (let v = kv_run (take i (ops_of hist)) (take i (answers_of hist)) kv (op_key (ops_of hist ! i));
             (c, out) = answers_of hist ! i in
         if v = None then c = kIndexKeyNotFound else c = kSuccess \<and> out = v \<or> c = kIoBase \<and> out = None))
    \<and> (\<forall>t < length progs. subseq (map fst (own t hist)) (progs ! t)
         \<and> subseq (granted (cl_done (rl_thr s t))) (own t hist))"
proof -
  obtain hist where h: "share_ok r s hist" using share_ok_reach [OF assms(1)] by blast
  obtain core where core: "run_ops r (ops_of hist) = (answers_of hist, core)"
    "rl_reactor s = (if stopped (rl_pc s) then CloseDc core else core)"
    using h by (auto simp: share_ok_def)
  note M = run_ops_map [OF assms(2) core(1)]
  have len: "length (ops_of hist) = length hist" by (simp add: ops_of_def)
  have own: "subseq (map fst (own t hist)) (progs ! t) \<and> subseq (granted (cl_done (rl_thr s t))) (own t hist)"
    if t: "t < length progs" for t
  proof
    have "subseq (map fst (own t hist)) (map fst (answered s t))"
      using h by (simp add: share_ok_def subseq_map)
    moreover have "subseq (map fst (answered s t)) (cl_calls (rl_thr s t))"
    proof -
      have "subseq (map fst (on_its_way (cl_node (rl_thr s t)) st)) (cl_current (rl_thr s t) @ cl_todo (rl_thr s t))" for st
      proof (cases "cl_node (rl_thr s t)")
        case (Some n)
        then show ?thesis by (cases n; cases "snd n"; cases st) (simp_all add: cl_current_def)
      qed (simp add: cl_current_def)
      then show ?thesis
        unfolding answered_def cl_calls_def map_append by (intro list_emb_append_mono subseq_order.refl)
    qed
    moreover have "cl_calls (rl_thr s t) = progs ! t" using cl_calls_reach [OF assms(1)] t by simp
    ultimately show "subseq (map fst (own t hist)) (progs ! t)" using subseq_order.trans by metis
  next
    have "subseq (granted (cl_done (rl_thr s t))) (granted (answered s t))"
      by (simp add: answered_def subseq_rev_drop_many)
    then show "subseq (granted (cl_done (rl_thr s t))) (own t hist)"
      using h subseq_order.trans unfolding share_ok_def by blast
  qed
  show ?thesis
    using core M own by (intro exI [of _ hist] exI [of _ core]) (simp add: len)
qed

theorem concurrent_callers_share_map_witness:
  "\<exists>(s :: reactor_loop) hist core. cl_done (rl_thr s 0) = [(rx_demo_put\<lparr>op_kind := OpGet\<rparr>, kIndexKeyNotFound, None)]
    \<and> run_ops rx_demo (ops_of hist) = (answers_of hist, core)
    \<and> subseq [(rx_demo_put\<lparr>op_kind := OpGet\<rparr>, kIndexKeyNotFound, None)] (own 0 hist)"
proof -
  let ?op = "rx_demo_put\<lparr>op_kind := OpGet\<rparr>"
  obtain c out r' where ex: "Execute rx_demo ?op = (c, out, r')" by (metis prod_cases3)
  have c: "c = kIndexKeyNotFound"
    using Execute_map [OF rx_demo_holds ex] by simp
  have out: "out = None"
    using ex c by (auto simp: Execute_def ExecuteGet_def Let_def split: prod.splits if_splits option.splits)
  note R = one_returned [OF ex, of True]
  from concurrent_callers_share_map [OF R rx_demo_holds]
  obtain hist core where "run_ops rx_demo (ops_of hist) = (answers_of hist, core)"
    "subseq (granted [(?op, c, out)]) (own 0 hist)" by auto
  moreover have "granted [(?op, c, out)] = [(?op, kIndexKeyNotFound, None)]"
    by (simp add: granted_def c out)
  ultimately show ?thesis
    by (intro exI [of _ "one Away None 0 [] [(?op, c, out)] [] (Bump Serve 0 []) r' NotClosing"] exI [of _ hist] exI [of _ core])
      (simp add: c out)
qed

text \<open>C17: every call is answered. When closing waits until no call is running, as the engine's
  contract asks, then in every reachable state either some thread can go on or the reactor is
  closed and joined and every thread has an answer to each of its calls: no wake-up is lost in
  either direction and no operation is forgotten in the inbox.\<close>

theorem reactor_calls_answered:
  assumes "rl_reach True r wake progs s"
  shows "(\<exists>s'. rl_step True s s')
    \<or> (rl_closer s = Joined \<and> (\<forall>t < length progs. map fst (cl_done (rl_thr s t)) = progs ! t))"
proof (cases "\<exists>s'. rl_step True s s'")
  case False
  note E = stuck_ended [OF assms False]
  have "map fst (cl_done (rl_thr s t)) = progs ! t" if "t < length progs" for t
  proof -
    have n: "cl_node (rl_thr s t) = None"
      using caller_okD(1) [OF rl_okD(1) [OF rl_ok_reach [OF assms], of t, unfolded thr_ok_def]] E by simp
    have "cl_calls (rl_thr s t) = progs ! t" using cl_calls_reach [OF assms] that by simp
    then show ?thesis using E n by (simp add: cl_calls_def cl_current_def)
  qed
  then show ?thesis using E by blast
qed blast

theorem reactor_calls_answered_witness:
  "\<exists>s. rl_step True (rl_init rx_demo (\<lambda>_. 7) [[rx_demo_put], [rx_demo_put]]) s"
  using reactor_calls_answered [OF rl_reach.start [of True rx_demo "\<lambda>_. 7" "[[rx_demo_put], [rx_demo_put]]"]]
  by (simp add: rl_init_def)

text \<open>C18: the event loop has no infinite run for finitely many calls: however callers, reactor and
  closing thread are interleaved, only finitely many steps are possible, apart from
  compare-and-swaps that fail and sleepers that wake for no reason.\<close>

theorem reactor_loop_terminates: "wf {(s', s). rl_step contract s s'}"
  by (rule wf_lex3 [of "rl_step contract" rl_measure]) (rule rl_step_measure)

text \<open>C22: without the contract a call can hang for ever: it saw the engine open, was overtaken by
  closing, and pushed its operation after the reactor's last look at the inbox; it sleeps
  unanswered in a state with no further step, the reactor being joined.\<close>

theorem late_call_hangs:
  "\<exists>s. rl_reach False r (\<lambda>_. 0) [[op]] s \<and> rl_closer s = Joined \<and> cl_pc (rl_thr s 0) = Sleeping 0
    \<and> node_result (rl_thr s 0) = None \<and> \<not> (\<exists>s'. rl_step False s s')"
proof -
  let ?R = "rl_reach False r (\<lambda>_. 0) [[op]]"
  let ?s = "\<lambda>p ib. one p (Some (op, None)) 0 [] [] ib Exited (CloseDc r) Joined"
  have 1: "?R (?s (InLoad 0) [])" by (rule one_overtaken)
  have 2: "?R (?s (InCas 0 None) [])"
    by (rule one_caller [OF 1]) (use caller_step.in_load [of "?s (InLoad 0) []" 0 0] in \<open>simp_all add: inbox_top_def\<close>)
  have 3: "?R (?s (InNotify 0) [Request 0])"
    by (rule one_caller [OF 2]) (use caller_step.in_cas [of "?s (InCas 0 None) []" 0 0 None] in \<open>simp_all add: inbox_top_def\<close>)
  have 4: "?R (?s (Look 0) [Request 0])"
    by (rule one_caller [OF 3]) (use caller_step.in_notify [of "?s (InNotify 0) [Request 0]" 0 0] in simp_all)
  have 5: "?R (?s (WakeWait 0) [Request 0])"
    by (rule one_caller [OF 4]) (use caller_step.look [of "?s (Look 0) [Request 0]" 0 0] in \<open>simp_all add: node_result_def\<close>)
  have 6: "?R (?s (Sleeping 0) [Request 0])"
    by (rule one_caller [OF 5]) (use caller_step.wait_sleep [of "?s (WakeWait 0) [Request 0]" 0 0] in simp_all)
  have "\<not> caller_step 0 (?s (Sleeping 0) [Request 0]) s'" for s' by (auto elim: caller_step.cases)
  moreover have "\<not> run_step (?s (Sleeping 0) [Request 0]) s'" for s' by (auto elim: run_step.cases)
  moreover have "\<not> close_step False (?s (Sleeping 0) [Request 0]) s'" for s' by (auto elim: close_step.cases)
  ultimately have "\<not> (\<exists>s'. rl_step False (?s (Sleeping 0) [Request 0]) s')" by (auto simp: rl_step_def)
  then show ?thesis using 6 by (intro exI [of _ "?s (Sleeping 0) [Request 0]"]) (simp add: node_result_def)
qed

end
