(* ===== verification/Cabe_ValuePoolTheorems.thy ===== *)
theory Cabe_ValuePoolTheorems
  imports Cabe_ValuePool "HOL-Library.Multiset"
begin

text \<open>
  The value pool hands out each slot to one buffer at a time. The invariant names the chain of
  free slots and the buffers in use, each by slot and generation; the head's packing of tag and
  index is inverted on the way.
\<close>

section \<open>The packed head\<close>

lemma head_parts [simp]: "HeadTag (PackHead tag i) = tag" "HeadIndex (PackHead tag i) = i"
proof -
  have t: "bit (HeadTag (PackHead tag i)) n = bit tag n" if n: "n < 32" for n
    using n bit_imp_le_length [of i "32 + n"] by (auto simp: HeadTag_def PackHead_def bit_simps)
  have i: "bit (HeadIndex (PackHead tag i)) n = bit i n" if n: "n < 32" for n
  proof -
    have m: "(4294967295 :: u64) = mask 32" by (simp add: mask_eq_exp_minus_1)
    show ?thesis using n unfolding HeadIndex_def PackHead_def m by (simp add: bit_simps)
  qed
  show "HeadTag (PackHead tag i) = tag" by (rule bit_word_eqI) (use t in simp)
  show "HeadIndex (PackHead tag i) = i" by (rule bit_word_eqI) (use i in simp)
qed

section \<open>The invariant\<close>

text \<open>The chain of free slots from index \<open>i\<close> on.\<close>

fun free_chain :: "value_slot list \<Rightarrow> u32 \<Rightarrow> nat list \<Rightarrow> bool" where
  "free_chain slots i [] \<longleftrightarrow> i = kInvalidSlot"
| "free_chain slots i (n # ns) \<longleftrightarrow> i = of_nat n \<and> n < length slots \<and> free_chain slots (vs_next_free (slots ! n)) ns"

definition vp_inv :: "value_pool \<Rightarrow> nat list \<Rightarrow> (nat \<times> u32) list \<Rightarrow> bool" where
  "vp_inv p free live \<longleftrightarrow>
     vp_slot_count p < unat kInvalidSlot \<and> length (vp_slots p) = vp_slot_count p
   \<and> free_chain (vp_slots p) (HeadIndex (vp_free_head p)) free
   \<and> distinct (free @ map fst live) \<and> set free \<union> fst ` set live = {..<vp_slot_count p}
   \<and> (\<forall>i \<in> set free. \<not> vs_allocated (vp_slots p ! i))
   \<and> (\<forall>x \<in> set live. vs_allocated (vp_slots p ! fst x) \<and> vs_generation (vp_slots p ! fst x) = snd x)
   \<and> (\<forall>i < vp_slot_count p. vs_data (vp_slots p ! i) = vp_base p + i * kValueSize)
   \<and> vp_total_size p = vp_slot_count p * kValueSize \<and> (0 < vp_slot_count p \<longrightarrow> vp_base p \<noteq> 0)
   \<and> vp_active_count p = of_nat (length live)"

lemma vp_invD:
  assumes "vp_inv p free live"
  shows "vp_slot_count p < 4294967295" "length (vp_slots p) = vp_slot_count p"
    "free_chain (vp_slots p) (HeadIndex (vp_free_head p)) free" "distinct free" "distinct (map fst live)"
    "set free \<inter> fst ` set live = {}" "set free \<union> fst ` set live = {..<vp_slot_count p}"
    "i \<in> set free \<Longrightarrow> \<not> vs_allocated (vp_slots p ! i)"
    "(i, g) \<in> set live \<Longrightarrow> vs_allocated (vp_slots p ! i) \<and> vs_generation (vp_slots p ! i) = g"
    "i < vp_slot_count p \<Longrightarrow> vs_data (vp_slots p ! i) = vp_base p + i * kValueSize"
    "vp_total_size p = vp_slot_count p * kValueSize" "0 < vp_slot_count p \<Longrightarrow> vp_base p \<noteq> 0"
    "vp_active_count p = of_nat (length live)"
  using assms unfolding vp_inv_def by (force simp: kInvalidSlot_def)+

lemma free_chain_upd: "free_chain slots i ns \<Longrightarrow> k \<notin> set ns \<Longrightarrow> free_chain (slots[k := x]) i ns"
  by (induction ns arbitrary: i) auto

lemma free_chain_keep:
  "free_chain slots i ns \<Longrightarrow> k < length slots \<Longrightarrow> vs_next_free x = vs_next_free (slots ! k) \<Longrightarrow> free_chain (slots[k := x]) i ns"
  by (induction ns arbitrary: i) (auto simp: nth_list_update)

lemma free_chain_init:
  assumes "length slots = n" "\<And>i. i < n \<Longrightarrow> vs_next_free (slots ! i) = (if i + 1 = n then kInvalidSlot else of_nat (i + 1))" "k < n"
  shows "free_chain slots (of_nat k) [k..<n]"
  using assms(3)
proof (induction "n - k" arbitrary: k)
  case (Suc m)
  have u: "[k..<n] = k # [Suc k..<n]" using Suc.prems by (simp add: upt_conv_Cons)
  show ?case
  proof (cases "Suc k = n")
    case True then show ?thesis using Suc.prems assms(1,2) by (simp add: u)
  next
    case False
    then have "free_chain slots (of_nat (Suc k)) [Suc k..<n]" using Suc by (intro Suc.hyps(1)) auto
    then show ?thesis using Suc.prems False assms(1) assms(2) [of k] by (simp add: u)
  qed
qed simp

lemma Create_pool_inv:
  assumes "Create_pool d pid n base heap = (c, Some p)" "base \<noteq> Some 0"
  shows "c = kSuccess \<and> vp_inv p [0..<n] [] \<and> vp_closing p = False"
proof -
  have c: "c = kSuccess" "n < unat kInvalidSlot" using assms(1) by (auto simp: Create_pool_def split: if_splits option.splits)
  show ?thesis
  proof (cases "n = 0")
    case True
    then have "p = \<lparr>vp_device_id = d, vp_pool_id = pid, vp_slot_count = 0, vp_total_size = 0,
           vp_base = 0, vp_slots = [], vp_closing = False, vp_active_count = 0, vp_free_head = PackHead 0 kInvalidSlot\<rparr>"
      using assms(1) c by (auto simp: Create_pool_def split: if_splits)
    then show ?thesis using c True by (simp add: vp_inv_def)
  next
    case False
    obtain b where b: "base = Some b" using assms(1) False by (auto simp: Create_pool_def split: if_splits option.splits)
    have p: "p = \<lparr>vp_device_id = d, vp_pool_id = pid, vp_slot_count = n,
           vp_total_size = n * kValueSize, vp_base = b,
           vp_slots = map (\<lambda>i. \<lparr>vs_next_free = (if i + 1 = n then kInvalidSlot else of_nat (i + 1)),
             vs_allocated = False, vs_generation = 1, vs_bound_key = [], vs_data = b + i * kValueSize\<rparr>) [0..<n],
           vp_closing = False, vp_active_count = 0, vp_free_head = PackHead 0 0\<rparr>"
      using assms(1) c False b by (auto simp: Create_pool_def split: if_splits)
    have "free_chain (vp_slots p) (of_nat 0) [0..<n]" using False by (intro free_chain_init) (auto simp: p)
    then have "vp_inv p [0..<n] []"
      using c(2) assms(2) False b by (auto simp: vp_inv_def p)
    then show ?thesis using c by (simp add: p)
  qed
qed

lemma unat_slot: "i < 4294967295 \<Longrightarrow> unat (of_nat i :: u32) = i"
  by (simp add: unat_of_nat take_bit_nat_eq_self)

lemma slot_valid: "i < 4294967295 \<Longrightarrow> (of_nat i :: u32) \<noteq> kInvalidSlot"
proof
  assume i: "i < 4294967295" and "(of_nat i :: u32) = kInvalidSlot"
  then have "unat (of_nat i :: u32) = unat kInvalidSlot" by simp
  then show False using unat_slot [OF i] i by (simp add: kInvalidSlot_def)
qed

section \<open>Allocating and releasing\<close>

text \<open>The pool after slot \<open>n\<close> was taken off the chain.\<close>

lemma vp_inv_take:
  assumes inv: "vp_inv p (n # ns) live"
    and p': "p' = p\<lparr>vp_active_count := vp_active_count p + 1, vp_free_head := PackHead tag (vs_next_free (vp_slots p ! n)),
      vp_slots := (vp_slots p)[n := (vp_slots p ! n)\<lparr>vs_bound_key := k, vs_allocated := True\<rparr>]\<rparr>"
  shows "vp_inv p' ns ((n, vs_generation (vp_slots p ! n)) # live)"
proof -
  note D = vp_invD [OF inv]
  have n: "n < vp_slot_count p" using D(2,3) by simp
  have ne: "i \<noteq> n" if "i \<in> set ns \<or> i \<in> fst ` set live" for i using that D(4,6) by auto
  have ch: "free_chain ((vp_slots p)[n := (vp_slots p ! n)\<lparr>vs_bound_key := k, vs_allocated := True\<rparr>]) (vs_next_free (vp_slots p ! n)) ns"
    using D(2,3) n by (intro free_chain_keep) simp_all
  have lv: "vs_allocated (vp_slots p ! fst x) \<and> vs_generation (vp_slots p ! fst x) = snd x \<and> fst x \<noteq> n" if "x \<in> set live" for x
    using D(9) [of "fst x" "snd x"] ne [of "fst x"] that by auto
  have "set ns \<union> fst ` set ((n, vs_generation (vp_slots p ! n)) # live) = {..<vp_slot_count p}" using D(7) by auto
  moreover have "distinct (ns @ map fst ((n, vs_generation (vp_slots p ! n)) # live))" using D(4-6) by auto
  moreover have "\<not> vs_allocated (vp_slots p' ! i)" if "i \<in> set ns" for i
    using D(8) [of i] ne [of i] that by (simp add: p')
  moreover have "vs_data (vp_slots p' ! i) = vp_base p + i * kValueSize" if "i < vp_slot_count p" for i
    using D(10) [OF that] D(2) n by (cases "i = n") (simp_all add: p')
  moreover have "vs_allocated (vp_slots p' ! fst x) \<and> vs_generation (vp_slots p' ! fst x) = snd x"
    if "x \<in> set ((n, vs_generation (vp_slots p ! n)) # live)" for x
  proof (cases "x \<in> set live")
    case True then show ?thesis using lv [OF True] by (simp add: p')
  next
    case False then show ?thesis using that D(2) n by (simp add: p')
  qed
  ultimately show ?thesis
    using D(1,2,11-13) ch n by (simp add: vp_inv_def p' kInvalidSlot_def)
qed

lemma vp_inv_release:
  assumes inv: "vp_inv p free live" and x: "(i, g) \<in> set live"
  shows "vp_inv (ReleaseSlot i g p) (i # free) (remove1 (i, g) live)"
    "vs_generation (vp_slots (ReleaseSlot i g p) ! i) = g + 1"
    "j \<noteq> i \<Longrightarrow> vp_slots (ReleaseSlot i g p) ! j = vp_slots p ! j"
proof -
  note D = vp_invD [OF inv]
  have i: "i < vp_slot_count p" "vs_allocated (vp_slots p ! i)" "vs_generation (vp_slots p ! i) = g" "i \<notin> set free"
    using D(7) D(9) [OF x] D(6) x by force+
  let ?slot = "(vp_slots p ! i)\<lparr>vs_allocated := False, vs_generation := g + 1, vs_next_free := HeadIndex (vp_free_head p)\<rparr>"
  have r: "ReleaseSlot i g p = p\<lparr>vp_slots := (vp_slots p)[i := ?slot],
      vp_free_head := PackHead (HeadTag (vp_free_head p) + 1) (of_nat i), vp_active_count := vp_active_count p - 1\<rparr>"
    using i D(2) by (simp add: ReleaseSlot_def PushFreeSlot_def DropActiveRef_def Let_def)
  have dl: "distinct live" using D(5) by (simp add: distinct_map)
  have rm: "set (remove1 (i, g) live) = set live - {(i, g)}" using dl by simp
  have fi: "fst x \<noteq> i" if "x \<in> set live - {(i, g)}" for x
    using that D(5) x by (auto simp: distinct_map inj_on_def)
  have cov: "set (i # free) \<union> fst ` set (remove1 (i, g) live) = {..<vp_slot_count p}"
    using D(7) x unfolding rm by force
  have dis: "distinct ((i # free) @ map fst (remove1 (i, g) live))"
  proof -
    have "distinct (map fst (remove1 (i, g) live))"
      using D(5) dl by (auto simp: distinct_map inj_on_def)
    moreover have "set (i # free) \<inter> fst ` set (remove1 (i, g) live) = {}" using D(6) fi unfolding rm by auto
    ultimately show ?thesis using D(4) i(4) by auto
  qed
  have ch: "free_chain ((vp_slots p)[i := ?slot]) (of_nat i) (i # free)"
    using free_chain_upd [OF D(3) i(4), of ?slot] i(1) D(2) by simp
  have act: "vp_active_count p - 1 = of_nat (length (remove1 (i, g) live))"
    using D(13) x by (cases "length live") (auto simp: length_remove1)
  have al: "vs_allocated ((vp_slots p)[i := ?slot] ! fst x) \<and> vs_generation ((vp_slots p)[i := ?slot] ! fst x) = snd x"
    if "x \<in> set (remove1 (i, g) live)" for x
    using D(9) [of "fst x" "snd x"] fi [of x] that unfolding rm by auto
  have nf: "\<not> vs_allocated ((vp_slots p)[i := ?slot] ! j)" if "j \<in> set (i # free)" for j
    using D(8) [of j] that i D(2) by (cases "j = i") auto
  have dt: "vs_data ((vp_slots p)[i := ?slot] ! j) = vp_base p + j * kValueSize" if "j < vp_slot_count p" for j
    using D(10) [OF that] D(2) i by (cases "j = i") simp_all
  show "vp_inv (ReleaseSlot i g p) (i # free) (remove1 (i, g) live)"
    unfolding r vp_inv_def using cov dis ch act al nf dt D(1,2,11,12)
    by (simp add: kInvalidSlot_def del: free_chain.simps distinct.simps set_simps append.simps)
  show "vs_generation (vp_slots (ReleaseSlot i g p) ! i) = g + 1"
    "j \<noteq> i \<Longrightarrow> vp_slots (ReleaseSlot i g p) ! j = vp_slots p ! j" using i D(2) by (simp_all add: r)
qed

text \<open>A buffer of the pool that is still in use.\<close>

definition holds_slot :: "value_buffer \<Rightarrow> nat \<Rightarrow> u32 \<Rightarrow> bool" where
  "holds_slot b i g \<longleftrightarrow> vb_control b = Some \<lparr>vc_slot_index = i, vc_slot_generation = g, vc_released = False\<rparr>"

lemma vp_Allocate_inv:
  assumes inv: "vp_inv p free live" and al: "vp_Allocate p k heap = (c, b, p')"
    and key: "k \<noteq> []" "length k \<le> kWalKeyMax" and op: "\<not> vp_closing p"
  shows "c = kSuccess \<longleftrightarrow> free \<noteq> [] \<and> heap"
    "c = kSuccess \<Longrightarrow> \<exists>n ns g. free = n # ns \<and> holds_slot b n g \<and> vp_inv p' ns ((n, g) # live)
        \<and> vb_data b = vp_base p + n * kValueSize \<and> vs_bound_key (vp_slots p' ! n) = k"
    "c \<noteq> kSuccess \<Longrightarrow> c = kEnginePoolExhausted \<and> b = ValueBuffer_empty \<and> (\<exists>free. vp_inv p' free live)"
    "vp_closing p' = vp_closing p" "vp_base p' = vp_base p" "vp_slot_count p' = vp_slot_count p"
    "vp_device_id p' = vp_device_id p" "vp_pool_id p' = vp_pool_id p"
    "x \<in> set live \<Longrightarrow> vs_bound_key (vp_slots p' ! fst x) = vs_bound_key (vp_slots p ! fst x)"
proof -
  note D = vp_invD [OF inv]
  let ?p1 = "p\<lparr>vp_active_count := vp_active_count p + 1\<rparr>"
  have *: "(c = kSuccess \<longleftrightarrow> free \<noteq> [] \<and> heap)
    \<and> (c = kSuccess \<longrightarrow> (\<exists>n ns g. free = n # ns \<and> holds_slot b n g \<and> vp_inv p' ns ((n, g) # live)
        \<and> vb_data b = vp_base p + n * kValueSize \<and> vs_bound_key (vp_slots p' ! n) = k))
    \<and> (c \<noteq> kSuccess \<longrightarrow> c = kEnginePoolExhausted \<and> b = ValueBuffer_empty \<and> (\<exists>free. vp_inv p' free live))
    \<and> vp_closing p' = vp_closing p \<and> vp_base p' = vp_base p \<and> vp_slot_count p' = vp_slot_count p
    \<and> vp_device_id p' = vp_device_id p \<and> vp_pool_id p' = vp_pool_id p
    \<and> (\<forall>x \<in> set live. vs_bound_key (vp_slots p' ! fst x) = vs_bound_key (vp_slots p ! fst x))"
  proof (cases free)
    case Nil
    then have "HeadIndex (vp_free_head p) = kInvalidSlot" using D(3) by simp
    then have r: "c = kEnginePoolExhausted" "b = ValueBuffer_empty" "p' = p"
      using al key op by (auto simp: vp_Allocate_def Let_def DropActiveRef_def)
    then show ?thesis using Nil inv by auto
  next
    case (Cons n ns)
    have n: "n < vp_slot_count p" "HeadIndex (vp_free_head p) = of_nat n" using D(2,3) Cons by simp_all
    have nu: "unat (of_nat n :: u32) = n" "(of_nat n :: u32) \<noteq> kInvalidSlot"
      using n(1) D(1) unat_slot [of n] slot_valid [of n] by simp_all
    let ?slot = "(vp_slots p ! n)\<lparr>vs_bound_key := k, vs_allocated := True\<rparr>" and ?g = "vs_generation (vp_slots p ! n)"
    let ?p2 = "p\<lparr>vp_active_count := vp_active_count p + 1,
        vp_free_head := PackHead (HeadTag (vp_free_head p) + 1) (vs_next_free (vp_slots p ! n)), vp_slots := (vp_slots p)[n := ?slot]\<rparr>"
    have run: "vp_Allocate p k heap = (if heap then (kSuccess, \<lparr>vb_control = Some \<lparr>vc_slot_index = n,
              vc_slot_generation = ?g, vc_released = False\<rparr>, vb_data = vs_data (vp_slots p ! n)\<rparr>, ?p2)
         else (kEnginePoolExhausted, ValueBuffer_empty, ReleaseSlot n ?g ?p2))"
      using key op n(2) nu by (simp add: vp_Allocate_def Let_def)
    have i2: "vp_inv ?p2 ns ((n, ?g) # live)" by (rule vp_inv_take [OF inv [unfolded Cons] refl])
    have ne: "fst x \<noteq> n" if "x \<in> set live" for x using D(6) that Cons by auto
    have f2: "vp_closing (ReleaseSlot n ?g ?p2) = vp_closing p" "vp_base (ReleaseSlot n ?g ?p2) = vp_base p"
      "vp_slot_count (ReleaseSlot n ?g ?p2) = vp_slot_count p"
      "vp_device_id (ReleaseSlot n ?g ?p2) = vp_device_id p" "vp_pool_id (ReleaseSlot n ?g ?p2) = vp_pool_id p"
      by (simp_all add: ReleaseSlot_def Let_def DropActiveRef_def PushFreeSlot_def)
    show ?thesis
    proof (cases heap)
      case True
      then have r: "c = kSuccess" "b = \<lparr>vb_control = Some \<lparr>vc_slot_index = n,
              vc_slot_generation = ?g, vc_released = False\<rparr>, vb_data = vs_data (vp_slots p ! n)\<rparr>" "p' = ?p2"
        using al run by auto
      have "vs_bound_key (vp_slots p' ! n) = k" using n(1) D(2) by (simp add: r)
      then show ?thesis
        using i2 D(10) [OF n(1)] True Cons by (auto simp: r holds_slot_def dest: ne)
    next
      case False
      then have r: "c = kEnginePoolExhausted" "b = ValueBuffer_empty" "p' = ReleaseSlot n ?g ?p2" using al run by auto
      have "vp_inv p' (n # ns) live"
        using vp_inv_release(1) [OF i2, of n ?g] by (simp add: r)
      moreover have "vs_bound_key (vp_slots p' ! fst x) = vs_bound_key (vp_slots p ! fst x)" if "x \<in> set live" for x
        using ne [OF that] by (simp add: r ReleaseSlot_def Let_def DropActiveRef_def PushFreeSlot_def)
      ultimately show ?thesis using False f2 by (auto simp: r)
    qed
  qed
  show "c = kSuccess \<longleftrightarrow> free \<noteq> [] \<and> heap"
    "c = kSuccess \<Longrightarrow> \<exists>n ns g. free = n # ns \<and> holds_slot b n g \<and> vp_inv p' ns ((n, g) # live)
        \<and> vb_data b = vp_base p + n * kValueSize \<and> vs_bound_key (vp_slots p' ! n) = k"
    "c \<noteq> kSuccess \<Longrightarrow> c = kEnginePoolExhausted \<and> b = ValueBuffer_empty \<and> (\<exists>free. vp_inv p' free live)"
    "vp_closing p' = vp_closing p" "vp_base p' = vp_base p" "vp_slot_count p' = vp_slot_count p"
    "vp_device_id p' = vp_device_id p" "vp_pool_id p' = vp_pool_id p"
    "x \<in> set live \<Longrightarrow> vs_bound_key (vp_slots p' ! fst x) = vs_bound_key (vp_slots p ! fst x)"
    using * by blast+
qed

lemma Identify_live:
  assumes inv: "vp_inv p free live" and x: "(i, g) \<in> set live" and base: "vp_base p \<noteq> 0"
  shows "Identify p \<lparr>dv_addr = vp_base p + i * kValueSize, dv_size = kValueSize\<rparr> =
    \<lparr>si_kind = AllocatedSlot, si_matched = True, si_device_id = vp_device_id p, si_pool_id = vp_pool_id p,
     si_slot_index = of_nat i, si_slot_generation = g, si_bound_key = vs_bound_key (vp_slots p ! i)\<rparr>"
proof -
  note D = vp_invD [OF inv]
  have i: "i < vp_slot_count p" "vs_allocated (vp_slots p ! i)" "vs_generation (vp_slots p ! i) = g"
    using D(7) D(9) [OF x] x by force+
  have k: "0 < kValueSize" by (simp add: kValueSize_def)
  have "vp_base p + i * kValueSize < vp_base p + vp_total_size p" using i(1) k by (simp add: D(11))
  then show ?thesis
    using i base k by (simp add: Identify_def Let_def info_none_def)
qed

section \<open>Sessions\<close>

text \<open>What an application does with a pool: it asks for a buffer under a key (the flag is whether
  the control block can be allocated), resets one of the buffers it was given, or the engine
  starts to close the pool. The buffers are kept with the keys they were asked for.\<close>

datatype pool_op = PoolAllocate bytes bool | PoolReset nat | PoolBeginClose

fun pool_step :: "value_pool \<times> (value_buffer \<times> bytes) list \<Rightarrow> pool_op \<Rightarrow> value_pool \<times> (value_buffer \<times> bytes) list" where
  "pool_step (p, bs) (PoolAllocate k heap) = (case vp_Allocate p k heap of (c, b, p') \<Rightarrow> (p', bs @ [(b, k)]))"
| "pool_step (p, bs) (PoolReset j) =
     (if j < length bs then case vb_reset (fst (bs ! j)) p of (b, p') \<Rightarrow> (p', bs[j := (b, snd (bs ! j))]) else (p, bs))"
| "pool_step (p, bs) PoolBeginClose = (BeginClose p, bs)"

definition buffer_slots :: "value_buffer \<times> bytes \<Rightarrow> (nat \<times> u32) list" where
  "buffer_slots bk = (case vb_control (fst bk) of None \<Rightarrow> [] | Some c \<Rightarrow> [(vc_slot_index c, vc_slot_generation c)])"

definition session_live :: "(value_buffer \<times> bytes) list \<Rightarrow> (nat \<times> u32) list" where
  "session_live bs = concat (map buffer_slots bs)"

text \<open>A buffer the session holds is empty, or is of a live slot, with the slot's address and key.\<close>

definition buffer_ok :: "value_pool \<Rightarrow> value_buffer \<times> bytes \<Rightarrow> bool" where
  "buffer_ok p bk \<longleftrightarrow> (case vb_control (fst bk) of None \<Rightarrow> True
     | Some c \<Rightarrow> \<not> vc_released c \<and> vb_data (fst bk) = vp_base p + vc_slot_index c * kValueSize
         \<and> vs_bound_key (vp_slots p ! vc_slot_index c) = snd bk)"

definition session_inv :: "value_pool \<times> (value_buffer \<times> bytes) list \<Rightarrow> bool" where
  "session_inv st \<longleftrightarrow> (\<exists>free. vp_inv (fst st) free (session_live (snd st))) \<and> (\<forall>bk \<in> set (snd st). buffer_ok (fst st) bk)"

lemma session_live_simps [simp]:
  "session_live [] = []" "session_live (bk # bs) = buffer_slots bk @ session_live bs"
  "session_live (bs @ cs) = session_live bs @ session_live cs"
  by (simp_all add: session_live_def)

lemma vp_inv_perm:
  assumes "vp_inv p free live" "mset live' = mset live"
  shows "vp_inv p free live'"
proof -
  have "mset (free @ map fst live') = mset (free @ map fst live)" using assms(2) by simp
  then have "distinct (free @ map fst live') = distinct (free @ map fst live)" by (rule mset_eq_imp_distinct_iff)
  moreover have "set live' = set live" using assms(2) by (rule mset_eq_setD)
  moreover have "length live' = length live" using assms(2) by (rule mset_eq_length)
  ultimately show ?thesis using assms(1) by (simp add: vp_inv_def)
qed

lemma session_live_upd:
  "j < length bs \<Longrightarrow> mset (session_live (bs[j := bk])) = mset (session_live bs) - mset (buffer_slots (bs ! j)) + mset (buffer_slots bk)"
proof -
  assume j: "j < length bs"
  have b: "bs = take j bs @ bs ! j # drop (Suc j) bs" using j by (rule id_take_nth_drop)
  have u: "bs[j := bk] = take j bs @ bk # drop (Suc j) bs" using j by (rule upd_conv_take_nth_drop)
  have "mset (session_live bs) = mset (session_live (take j bs)) + mset (buffer_slots (bs ! j)) + mset (session_live (drop (Suc j) bs))"
    by (subst b) simp
  then show ?thesis unfolding u by simp
qed

lemma vp_inv_closing [simp]: "vp_inv (p\<lparr>vp_closing := c\<rparr>) free live = vp_inv p free live"
  by (simp add: vp_inv_def)

lemma session_mem:
  assumes "bk \<in> set bs" "vb_control (fst bk) = Some c"
  shows "(vc_slot_index c, vc_slot_generation c) \<in> set (session_live bs)"
  using assms by (auto simp: session_live_def buffer_slots_def intro!: bexI [of _ bk])

lemma pool_step_inv:
  assumes inv: "session_inv st" and base: "vp_base (fst st) \<noteq> 0"
  shows "session_inv (pool_step st op) \<and> vp_base (fst (pool_step st op)) = vp_base (fst st)
    \<and> vp_slot_count (fst (pool_step st op)) = vp_slot_count (fst st)
    \<and> vp_device_id (fst (pool_step st op)) = vp_device_id (fst st) \<and> vp_pool_id (fst (pool_step st op)) = vp_pool_id (fst st)"
proof -
  obtain p bs where st: "st = (p, bs)" by (cases st)
  obtain free where vi: "vp_inv p free (session_live bs)" and ok: "\<And>bk. bk \<in> set bs \<Longrightarrow> buffer_ok p bk"
    using inv by (auto simp: st session_inv_def)
  note D = vp_invD [OF vi]
  show ?thesis
  proof (cases op)
    case PoolBeginClose
    have "buffer_ok (BeginClose p) bk" if "bk \<in> set bs" for bk
      using ok [OF that] by (simp add: buffer_ok_def BeginClose_def split: option.splits)
    then show ?thesis using vi by (auto simp: st PoolBeginClose session_inv_def BeginClose_def)
  next
    case (PoolReset j)
    show ?thesis
    proof (cases "j < length bs \<and> vb_control (fst (bs ! j)) \<noteq> None")
      case False
      then have "pool_step st op = (p, bs) \<or> (j < length bs \<and> vb_control (fst (bs ! j)) = None
          \<and> pool_step st op = (p, bs[j := ((fst (bs ! j))\<lparr>vb_data := 0\<rparr>, snd (bs ! j))]))"
        by (auto simp: st PoolReset vb_reset_def)
      then show ?thesis
      proof
        assume "pool_step st op = (p, bs)" then show ?thesis using inv st by simp
      next
        assume a: "j < length bs \<and> vb_control (fst (bs ! j)) = None
          \<and> pool_step st op = (p, bs[j := ((fst (bs ! j))\<lparr>vb_data := 0\<rparr>, snd (bs ! j))])"
        have "mset (session_live (bs[j := ((fst (bs ! j))\<lparr>vb_data := 0\<rparr>, snd (bs ! j))])) = mset (session_live bs)"
          using a by (simp add: session_live_upd buffer_slots_def)
        moreover have "buffer_ok p bk" if "bk \<in> set (bs[j := ((fst (bs ! j))\<lparr>vb_data := 0\<rparr>, snd (bs ! j))])" for bk
        proof (cases "bk \<in> set bs")
          case True then show ?thesis by (rule ok)
        next
          case False
          then have "bk = ((fst (bs ! j))\<lparr>vb_data := 0\<rparr>, snd (bs ! j))" using that set_update_subset_insert [of bs j] by auto
          then show ?thesis using a by (simp add: buffer_ok_def)
        qed
        ultimately show ?thesis using a vp_inv_perm [OF vi] by (auto simp: st session_inv_def)
      qed
    next
      case True
      then obtain c where c: "vb_control (fst (bs ! j)) = Some c" and j: "j < length bs" by auto
      let ?i = "vc_slot_index c" and ?g = "vc_slot_generation c" and ?k = "snd (bs ! j)"
      have m: "(?i, ?g) \<in> set (session_live bs)" using c j by (intro session_mem [of "bs ! j"]) auto
      have nr: "\<not> vc_released c" using ok [of "bs ! j"] c j by (auto simp: buffer_ok_def)
      have s: "pool_step st op = (ReleaseSlot ?i ?g p, bs[j := (ValueBuffer_empty, ?k)])"
        using j c nr by (simp add: st PoolReset vb_reset_def control_Release_def)
      note R = vp_inv_release [OF vi m]
      have "mset (session_live (bs[j := (ValueBuffer_empty, ?k)])) = mset (remove1 (?i, ?g) (session_live bs))"
        using j c by (simp add: session_live_upd buffer_slots_def ValueBuffer_empty_def)
      from vp_inv_perm [OF R(1) this]
      have 1: "vp_inv (ReleaseSlot ?i ?g p) (?i # free) (session_live (bs[j := (ValueBuffer_empty, ?k)]))" .
      have fr: "vp_base (ReleaseSlot ?i ?g p) = vp_base p" "vp_slot_count (ReleaseSlot ?i ?g p) = vp_slot_count p"
        "vp_device_id (ReleaseSlot ?i ?g p) = vp_device_id p" "vp_pool_id (ReleaseSlot ?i ?g p) = vp_pool_id p"
        by (simp_all add: ReleaseSlot_def Let_def DropActiveRef_def PushFreeSlot_def)
      have keys: "vs_bound_key (vp_slots (ReleaseSlot ?i ?g p) ! n) = vs_bound_key (vp_slots p ! n)" for n
      proof (cases "n = ?i \<and> ?i < length (vp_slots p)")
        case True
        then show ?thesis by (simp add: ReleaseSlot_def Let_def DropActiveRef_def PushFreeSlot_def)
      next
        case False
        then show ?thesis by (cases "n = ?i") (simp_all add: ReleaseSlot_def Let_def DropActiveRef_def PushFreeSlot_def list_update_beyond)
      qed
      have 2: "buffer_ok (ReleaseSlot ?i ?g p) bk" if b: "bk \<in> set (bs[j := (ValueBuffer_empty, ?k)])" for bk
      proof (cases "bk \<in> set bs")
        case True
        then show ?thesis using ok [OF True] by (simp add: buffer_ok_def fr keys split: option.splits)
      next
        case False
        then have "bk = (ValueBuffer_empty, ?k)" using b set_update_subset_insert [of bs j] by auto
        then show ?thesis by (simp add: buffer_ok_def ValueBuffer_empty_def)
      qed
      show ?thesis using 1 2 fr unfolding s unfolding st session_inv_def by auto
    qed
  next
    case (PoolAllocate k heap)
    obtain c b p' where al: "vp_Allocate p k heap = (c, b, p')" by (cases "vp_Allocate p k heap") auto
    have s: "pool_step st op = (p', bs @ [(b, k)])" by (simp add: st PoolAllocate al)
    have e0: "session_live (bs @ [(ValueBuffer_empty, k)]) = session_live bs" "buffer_ok p' (ValueBuffer_empty, k)"
      by (simp_all add: buffer_slots_def buffer_ok_def ValueBuffer_empty_def)
    show ?thesis
    proof (cases "k = [] \<or> kWalKeyMax < length k \<or> vp_closing p")
      case True
      then have r: "b = ValueBuffer_empty" "p' = p" using al by (auto simp: vp_Allocate_def split: if_splits)
      then show ?thesis using e0 vi ok unfolding s unfolding st session_inv_def by auto
    next
      case False
      then have g: "k \<noteq> []" "length k \<le> kWalKeyMax" "\<not> vp_closing p" by auto
      note A = vp_Allocate_inv [OF vi al g]
      have okp: "buffer_ok p' bk" if b: "bk \<in> set bs" for bk
        using ok [OF b] A(9) session_mem [OF b] by (auto simp: buffer_ok_def A(5) split: option.splits)
      show ?thesis
      proof (cases "c = kSuccess")
        case True
        obtain n ns g where r: "holds_slot b n g" "vp_inv p' ns ((n, g) # session_live bs)"
          "vb_data b = vp_base p + n * kValueSize" "vs_bound_key (vp_slots p' ! n) = k" using A(2) [OF True] by blast
        have l: "session_live (bs @ [(b, k)]) = session_live bs @ [(n, g)]"
          using r(1) by (simp add: buffer_slots_def holds_slot_def)
        have "vp_inv p' ns (session_live (bs @ [(b, k)]))" unfolding l by (rule vp_inv_perm [OF r(2)]) simp
        moreover have "buffer_ok p' (b, k)" using r by (simp add: buffer_ok_def holds_slot_def A(5))
        ultimately show ?thesis using okp A(5-8) unfolding s unfolding st session_inv_def by auto
      next
        case False
        then show ?thesis using A(3) A(5-8) okp e0 unfolding s unfolding st session_inv_def by auto
      qed
    qed
  qed
qed

lemma pool_run_inv:
  assumes "session_inv st" "vp_base (fst st) \<noteq> 0"
  shows "session_inv (foldl pool_step st ops) \<and> vp_base (fst (foldl pool_step st ops)) = vp_base (fst st)
    \<and> vp_slot_count (fst (foldl pool_step st ops)) = vp_slot_count (fst st)
    \<and> vp_device_id (fst (foldl pool_step st ops)) = vp_device_id (fst st) \<and> vp_pool_id (fst (foldl pool_step st ops)) = vp_pool_id (fst st)"
  using assms
proof (induction ops arbitrary: st)
  case (Cons op ops)
  note P = pool_step_inv [OF Cons.prems, of op]
  have "vp_base (fst (pool_step st op)) \<noteq> 0" using P Cons.prems(2) by simp
  then show ?case using Cons.IH [of "pool_step st op"] P by simp
qed simp

text \<open>In a reachable session two buffers that are both valid are of different slots.\<close>

lemma session_distinct:
  assumes "distinct (map fst (session_live bs))" "i < j" "j < length bs"
    "vb_control (fst (bs ! i)) = Some c" "vb_control (fst (bs ! j)) = Some d"
  shows "vc_slot_index c \<noteq> vc_slot_index d"
proof -
  have b: "bs = take j bs @ bs ! j # drop (Suc j) bs" using assms(3) by (rule id_take_nth_drop)
  have "bs ! i \<in> set (take j bs)" using assms(2,3) by (force simp: in_set_conv_nth)
  from session_mem [OF this assms(4)] have c: "vc_slot_index c \<in> fst ` set (session_live (take j bs))" by force
  have "distinct (map fst (session_live (take j bs)) @ [vc_slot_index d])"
    using assms(1) by (subst (asm) b) (auto simp: buffer_slots_def assms(5))
  then have "vc_slot_index d \<notin> fst ` set (session_live (take j bs))" by simp
  then show ?thesis using c by metis
qed

lemma session_live_length:
  assumes "\<And>bk. bk \<in> set bs \<Longrightarrow> buffer_ok p bk" "vp_base p \<noteq> 0"
  shows "length (session_live bs) = length (filter (\<lambda>bk. vb_valid (fst bk)) bs)"
  using assms(1)
proof (induction bs)
  case (Cons bk bs)
  have "buffer_ok p bk" using Cons.prems by simp
  then have "length (buffer_slots bk) = (if vb_valid (fst bk) then 1 else 0)"
    using assms(2) by (auto simp: buffer_slots_def vb_valid_def buffer_ok_def split: option.splits)
  then show ?case using Cons by simp
qed simp

lemma vp_inv_count: "vp_inv p free live \<Longrightarrow> length free + length live = vp_slot_count p"
proof -
  assume "vp_inv p free live"
  then have "distinct (free @ map fst live)" "set (free @ map fst live) = {..<vp_slot_count p}"
    by (auto simp: vp_inv_def)
  from distinct_card [OF this(1)] this(2) show ?thesis by simp
qed

lemma Create_pool_start:
  assumes "Create_pool d pid n (Some b) True = (c, Some p)" "b \<noteq> 0" "0 < n"
  shows "session_inv (p, [])" "vp_base p = b" "vp_slot_count p = n" "vp_device_id p = d" "vp_pool_id p = pid"
  using Create_pool_inv [OF assms(1)] assms
  by (auto simp: session_inv_def Create_pool_def split: if_splits)

text \<open>C35: Whatever an application does with a value pool (ask for buffers, reset some of them, once
  or again), at any time each valid buffer is one whole slot of the pool's memory, the pool
  identifies it as its own with the key it was asked for, two valid buffers never overlap, the
  count of active buffers is the number of valid ones (so the pool is idle exactly when none is
  left), and a further request succeeds exactly when fewer than all slots are held, unless the
  pool is being closed.\<close>

theorem value_pool_exclusive:
  assumes "Create_pool d pid n (Some b) True = (c, Some p0)" "b \<noteq> 0" "0 < n"
    and "foldl pool_step (p0, []) ops = (p, bs)" and "k \<noteq> []" "length k \<le> kWalKeyMax"
  defines "held \<equiv> length (filter (\<lambda>bk. vb_valid (fst bk)) bs)"
  shows "(\<forall>bk \<in> set bs. vb_valid (fst bk) \<longrightarrow>
      (\<exists>s < n. vb_view (fst bk) = \<lparr>dv_addr = b + s * kValueSize, dv_size = kValueSize\<rparr>
        \<and> si_slot_index (Identify p (vb_view (fst bk))) = of_nat s
        \<and> si_device_id (Identify p (vb_view (fst bk))) = d \<and> si_pool_id (Identify p (vb_view (fst bk))) = pid)
      \<and> BoundKeyEquals (Identify p (vb_view (fst bk))) (snd bk))
    \<and> (\<forall>i j. i < j \<and> j < length bs \<and> vb_valid (fst (bs ! i)) \<and> vb_valid (fst (bs ! j)) \<longrightarrow>
      vb_data (fst (bs ! i)) + kValueSize \<le> vb_data (fst (bs ! j)) \<or> vb_data (fst (bs ! j)) + kValueSize \<le> vb_data (fst (bs ! i)))
    \<and> vp_active_count p = of_nat held \<and> held \<le> n \<and> (pool_idle p \<longleftrightarrow> held = 0)
    \<and> fst (vp_Allocate p k True) = (if vp_closing p then kEngineNotOpen else if held < n then kSuccess else kEnginePoolExhausted)"
proof (intro conjI)
  note S = Create_pool_start [OF assms(1-3)]
  have "session_inv (p, bs)" and f: "vp_base p = b" "vp_slot_count p = n" "vp_device_id p = d" "vp_pool_id p = pid"
    using pool_run_inv [of "(p0, [])" ops] S assms(2,4) by auto
  then obtain free where inv: "vp_inv p free (session_live bs)" and ok: "\<And>bk. bk \<in> set bs \<Longrightarrow> buffer_ok p bk"
    by (auto simp: session_inv_def)
  note D = vp_invD [OF inv]
  have b0: "vp_base p \<noteq> 0" using f(1) assms(2) by simp
  have h: "length (session_live bs) = held" unfolding held_def using session_live_length [OF ok b0] .
  have cnt: "length free + held = n" using vp_inv_count [OF inv] h f(2) by simp
  have val: "\<exists>c. vb_control (fst bk) = Some c \<and> vc_slot_index c < n \<and> vb_data (fst bk) = b + vc_slot_index c * kValueSize
      \<and> (vc_slot_index c, vc_slot_generation c) \<in> set (session_live bs) \<and> vs_bound_key (vp_slots p ! vc_slot_index c) = snd bk"
    if m: "bk \<in> set bs" and v: "vb_valid (fst bk)" for bk
  proof -
    obtain c where c: "vb_control (fst bk) = Some c" using v by (auto simp: vb_valid_def split: option.splits)
    note L = session_mem [OF m c]
    have "vc_slot_index c < n" using D(7) L f(2) by force
    then show ?thesis using c L ok [OF m] f(1) by (simp add: buffer_ok_def)
  qed
  show "\<forall>bk \<in> set bs. vb_valid (fst bk) \<longrightarrow>
      (\<exists>s < n. vb_view (fst bk) = \<lparr>dv_addr = b + s * kValueSize, dv_size = kValueSize\<rparr>
        \<and> si_slot_index (Identify p (vb_view (fst bk))) = of_nat s
        \<and> si_device_id (Identify p (vb_view (fst bk))) = d \<and> si_pool_id (Identify p (vb_view (fst bk))) = pid)
      \<and> BoundKeyEquals (Identify p (vb_view (fst bk))) (snd bk)"
  proof (intro ballI impI)
    fix bk assume m: "bk \<in> set bs" and v: "vb_valid (fst bk)"
    obtain c :: value_control where c: "vc_slot_index c < n" "vb_data (fst bk) = b + vc_slot_index c * kValueSize"
      "(vc_slot_index c, vc_slot_generation c) \<in> set (session_live bs)" "vs_bound_key (vp_slots p ! vc_slot_index c) = snd bk"
      using val [OF m v] by blast
    have w: "vb_view (fst bk) = \<lparr>dv_addr = b + vc_slot_index c * kValueSize, dv_size = kValueSize\<rparr>"
      using v c(2) by (simp add: vb_view_def)
    show "(\<exists>s < n. vb_view (fst bk) = \<lparr>dv_addr = b + s * kValueSize, dv_size = kValueSize\<rparr>
        \<and> si_slot_index (Identify p (vb_view (fst bk))) = of_nat s
        \<and> si_device_id (Identify p (vb_view (fst bk))) = d \<and> si_pool_id (Identify p (vb_view (fst bk))) = pid)
      \<and> BoundKeyEquals (Identify p (vb_view (fst bk))) (snd bk)"
      using c(1,4) Identify_live [OF inv c(3) b0] unfolding w f by (auto simp: BoundKeyEquals_def)
  qed
  show "\<forall>i j. i < j \<and> j < length bs \<and> vb_valid (fst (bs ! i)) \<and> vb_valid (fst (bs ! j)) \<longrightarrow>
      vb_data (fst (bs ! i)) + kValueSize \<le> vb_data (fst (bs ! j)) \<or> vb_data (fst (bs ! j)) + kValueSize \<le> vb_data (fst (bs ! i))"
  proof (intro allI impI)
    fix i j assume a: "i < j \<and> j < length bs \<and> vb_valid (fst (bs ! i)) \<and> vb_valid (fst (bs ! j))"
    obtain c where c: "vb_control (fst (bs ! i)) = Some c" "vb_data (fst (bs ! i)) = b + vc_slot_index c * kValueSize"
      using val [of "bs ! i"] a by auto
    obtain d where d: "vb_control (fst (bs ! j)) = Some d" "vb_data (fst (bs ! j)) = b + vc_slot_index d * kValueSize"
      using val [of "bs ! j"] a by auto
    have "vc_slot_index c \<noteq> vc_slot_index d" using session_distinct [OF D(5) _ _ c(1) d(1)] a by blast
    then have "Suc (vc_slot_index c) \<le> vc_slot_index d \<or> Suc (vc_slot_index d) \<le> vc_slot_index c" by linarith
    then have "Suc (vc_slot_index c) * kValueSize \<le> vc_slot_index d * kValueSize \<or> Suc (vc_slot_index d) * kValueSize \<le> vc_slot_index c * kValueSize"
      using mult_le_mono1 by blast
    then show "vb_data (fst (bs ! i)) + kValueSize \<le> vb_data (fst (bs ! j)) \<or> vb_data (fst (bs ! j)) + kValueSize \<le> vb_data (fst (bs ! i))"
      unfolding c(2) d(2) mult_Suc by linarith
  qed
  have "held < 4294967295" using cnt D(1) f(2) by simp
  then have "(of_nat held :: u32) = 0 \<longleftrightarrow> held = 0" using unat_slot [of held] by (auto dest: arg_cong [of _ _ unat])
  then show "pool_idle p \<longleftrightarrow> held = 0" using D(13) h by (simp add: pool_idle_def)
  show "vp_active_count p = of_nat held" "held \<le> n" using D(13) h cnt by simp_all
  obtain cc bb p' where al: "vp_Allocate p k True = (cc, bb, p')" by (cases "vp_Allocate p k True") auto
  show "fst (vp_Allocate p k True) = (if vp_closing p then kEngineNotOpen else if held < n then kSuccess else kEnginePoolExhausted)"
  proof (cases "vp_closing p")
    case True then show ?thesis using assms(5,6) by (simp add: vp_Allocate_def)
  next
    case False
    note A = vp_Allocate_inv [OF inv al assms(5,6) False]
    show ?thesis using A(1,3) cnt False by (cases free) (auto simp: al)
  qed
qed

lemma pool_example:
  "Create_pool 3 7 2 (Some 4096) True = (kSuccess, Some \<lparr>vp_device_id = 3, vp_pool_id = 7, vp_slot_count = 2,
     vp_total_size = 2 * kValueSize, vp_base = 4096, vp_slots =
       [\<lparr>vs_next_free = 1, vs_allocated = False, vs_generation = 1, vs_bound_key = [], vs_data = 4096\<rparr>,
        \<lparr>vs_next_free = kInvalidSlot, vs_allocated = False, vs_generation = 1, vs_bound_key = [], vs_data = 4096 + kValueSize\<rparr>],
     vp_closing = False, vp_active_count = 0, vp_free_head = PackHead 0 0\<rparr>)"
  by (simp add: Create_pool_def kInvalidSlot_def kValueSize_def upt_rec)

theorem value_pool_exclusive_witness:
  "\<exists>p bs. foldl pool_step (the (snd (Create_pool 3 7 2 (Some 4096) True)), [])
      [PoolAllocate [107] True, PoolAllocate [108] True, PoolReset 0, PoolReset 0, PoolAllocate [109] True] = (p, bs)
    \<and> length bs = 3 \<and> vb_valid (fst (bs ! 1)) \<and> vb_valid (fst (bs ! 2)) \<and> vb_data (fst (bs ! 2)) = 4096
    \<and> fst (vp_Allocate p [110] True) = kEnginePoolExhausted"
proof -
  let ?st = "foldl pool_step (the (snd (Create_pool 3 7 2 (Some 4096) True)), [])
      [PoolAllocate [107] True, PoolAllocate [108] True, PoolReset 0, PoolReset 0, PoolAllocate [109] True]"
  have run: "snd ?st = [(ValueBuffer_empty, [107]),
      (\<lparr>vb_control = Some \<lparr>vc_slot_index = 1, vc_slot_generation = 1, vc_released = False\<rparr>, vb_data = 4096 + kValueSize\<rparr>, [108]),
      (\<lparr>vb_control = Some \<lparr>vc_slot_index = 0, vc_slot_generation = 2, vc_released = False\<rparr>, vb_data = 4096\<rparr>, [109])]"
    and cl: "vp_closing (fst ?st) = False"
    by (simp_all add: pool_example vp_Allocate_def vb_reset_def control_Release_def ReleaseSlot_def PushFreeSlot_def
        DropActiveRef_def Let_def ValueBuffer_empty_def kWalKeyMax_def kInvalidSlot_def)
  obtain p bs where pb: "?st = (p, bs)" by (cases ?st) blast
  have bs: "bs = [(ValueBuffer_empty, [107]),
      (\<lparr>vb_control = Some \<lparr>vc_slot_index = 1, vc_slot_generation = 1, vc_released = False\<rparr>, vb_data = 4096 + kValueSize\<rparr>, [108]),
      (\<lparr>vb_control = Some \<lparr>vc_slot_index = 0, vc_slot_generation = 2, vc_released = False\<rparr>, vb_data = 4096\<rparr>, [109])]"
    using run pb by simp
  have cr: "Create_pool 3 7 2 (Some 4096) True = (kSuccess, Some (the (snd (Create_pool 3 7 2 (Some 4096) True))))"
    by (simp add: pool_example)
  have k: "[110 :: 8 word] \<noteq> []" "length [110 :: 8 word] \<le> kWalKeyMax" by (simp_all add: kWalKeyMax_def)
  have "fst (vp_Allocate p [110] True) = (if vp_closing p then kEngineNotOpen
      else if length (filter (\<lambda>bk. vb_valid (fst bk)) bs) < 2 then kSuccess else kEnginePoolExhausted)"
    using value_pool_exclusive [OF cr _ _ pb k] by simp
  moreover have "vp_closing p = False" using cl pb by simp
  ultimately show ?thesis using pb by (auto simp: bs vb_valid_def ValueBuffer_empty_def)
qed

end
