(* ===== verification/Cabe_IoUring.thy ===== *)
theory Cabe_IoUring
  imports Cabe_Reactor Cabe_ValuePool
begin

text \<open>
  \<open>io/uring/io_uring_backend.cpp\<close>: the backend that submits one operation to a ring of the
  kernel and waits for its completion. The library (\<open>liburing\<close>) and the system calls are an
  argument, the record \<open>uring_env\<close> of the functions the code calls, each acting on a world
  \<open>'w\<close>; buffers are addresses in that world. What the code relies on is stated in
  \<open>Cabe_IoUringTheorems\<close>. The retry loops end when the library does not answer with an
  interruption for ever; \<open>None\<close> is a call that does not return.
\<close>

section \<open>The library\<close>

definition EINTR :: int where "EINTR = 4"

definition EAGAIN :: int where "EAGAIN = 11"

datatype sqe_op = SqeWrite | SqeWriteFixed nat | SqeRead

text \<open>A prepared submission: the operation, the index of the registered file, the buffer, the
  offset on the device, the flag \<open>IOSQE_FIXED_FILE\<close> and the user data.\<close>

record sqe =
  se_op :: sqe_op
  se_file :: nat
  se_addr :: nat
  se_len :: nat
  se_off :: nat
  se_fixed_file :: bool
  se_data64 :: nat

record cqe =
  ce_data64 :: nat
  ce_res :: int

record 'w uring_env =
  env_open :: "'w \<Rightarrow> int \<times> 'w"
  env_blkgetsize :: "'w \<Rightarrow> nat option \<times> 'w"
  env_close :: "'w \<Rightarrow> 'w"
  env_fdatasync :: "'w \<Rightarrow> int \<times> 'w"
  env_queue_init :: "nat \<Rightarrow> 'w \<Rightarrow> int \<times> 'w"
  env_queue_exit :: "'w \<Rightarrow> 'w"
  env_register_files :: "'w \<Rightarrow> int \<times> 'w"
  env_unregister_files :: "'w \<Rightarrow> 'w"
  env_register_buffers :: "(nat \<times> nat) list \<Rightarrow> 'w \<Rightarrow> int \<times> 'w"
  env_unregister_buffers :: "'w \<Rightarrow> 'w"
  env_get_sqe :: "'w \<Rightarrow> nat option \<times> 'w"
  env_prep :: "nat \<Rightarrow> sqe \<Rightarrow> 'w \<Rightarrow> 'w"
  env_submit :: "'w \<Rightarrow> int \<times> 'w"
  env_wait_cqe :: "'w \<Rightarrow> int \<times> cqe \<times> 'w"
  env_cqe_seen :: "'w \<Rightarrow> 'w"

section \<open>The backend\<close>

text \<open>\<open>ur_open\<close> is \<open>fd_ >= 0\<close>; a registered buffer is its address and size.\<close>

record 'w io_uring =
  ur_open :: bool
  ur_block_count :: nat
  ur_ring_initialized :: bool
  ur_files_registered :: bool
  ur_buffers_registered :: bool
  ur_registered_buffer_count :: nat
  ur_registered_buffers :: "(nat \<times> nat) list"
  ur_level :: "wal_level option"
  ur_world :: 'w

definition kQueueDepth :: nat where "kQueueDepth = 64"

definition uring_new :: "'w \<Rightarrow> 'w io_uring" where
  "uring_new w = \<lparr>ur_open = False, ur_block_count = 0, ur_ring_initialized = False,
     ur_files_registered = False, ur_buffers_registered = False, ur_registered_buffer_count = 0,
     ur_registered_buffers = [], ur_level = None, ur_world = w\<rparr>"

definition uring_RebindOptions :: "'w io_uring \<Rightarrow> wal_level option \<Rightarrow> 'w io_uring" where
  "uring_RebindOptions u lvl = u\<lparr>ur_level := lvl\<rparr>"

definition uring_Open :: "'w uring_env \<Rightarrow> 'w io_uring \<Rightarrow> wal_level option \<Rightarrow> rc \<times> 'w io_uring" where
  "uring_Open E u lvl =
     (if ur_open u then (kIoBase, u) else
      let u1 = u\<lparr>ur_level := lvl\<rparr> in
      case env_open E (ur_world u1) of (fd, w1) \<Rightarrow>
      if fd < 0 then (kIoBase, u1\<lparr>ur_world := w1\<rparr>) else
      case env_blkgetsize E w1 of (bytes, w2) \<Rightarrow>
      let closed = u1\<lparr>ur_open := False, ur_world := env_close E w2\<rparr> in
      if bytes = None then (kIoBase, closed) else
      let dev_bytes = the bytes; count = (dev_bytes - kDataRegionOffset) div kValueSize in
      if dev_bytes \<le> kDataRegionOffset then (kEngineInvalidOpts, closed)
      else if count = 0 then (kEngineInvalidOpts, closed\<lparr>ur_block_count := count\<rparr>) else
      case env_queue_init E kQueueDepth w2 of (ret, w3) \<Rightarrow>
      let u2 = u1\<lparr>ur_block_count := count\<rparr> in
      if ret < 0 then (kIoBase, u2\<lparr>ur_open := False, ur_world := env_close E w3\<rparr>) else
      case env_register_files E w3 of (ret2, w4) \<Rightarrow>
      if ret2 < 0 then (kIoBase, u2\<lparr>ur_open := False, ur_ring_initialized := False,
                                ur_world := env_close E (env_queue_exit E w4)\<rparr>)
      else (kSuccess, u2\<lparr>ur_open := True, ur_ring_initialized := True, ur_files_registered := True,
                        ur_world := w4\<rparr>))"

text \<open>\<open>Close\<close> undoes the parts in the reverse order, each only if it was done.\<close>

definition close_buffers :: "'w uring_env \<Rightarrow> 'w io_uring \<Rightarrow> 'w io_uring" where
  "close_buffers E u =
     (if ur_buffers_registered u then
        u\<lparr>ur_world := env_unregister_buffers E (ur_world u), ur_buffers_registered := False,
          ur_registered_buffer_count := 0, ur_registered_buffers := []\<rparr>
      else u)"

definition close_files :: "'w uring_env \<Rightarrow> 'w io_uring \<Rightarrow> 'w io_uring" where
  "close_files E u =
     (if ur_files_registered u then
        u\<lparr>ur_world := env_unregister_files E (ur_world u), ur_files_registered := False\<rparr>
      else u)"

definition close_ring :: "'w uring_env \<Rightarrow> 'w io_uring \<Rightarrow> 'w io_uring" where
  "close_ring E u =
     (if ur_ring_initialized u then
        u\<lparr>ur_world := env_queue_exit E (ur_world u), ur_ring_initialized := False\<rparr>
      else u)"

definition close_fd :: "'w uring_env \<Rightarrow> 'w io_uring \<Rightarrow> 'w io_uring" where
  "close_fd E u =
     (if ur_open u then u\<lparr>ur_world := env_close E (ur_world u), ur_open := False\<rparr> else u)"

definition uring_Close :: "'w uring_env \<Rightarrow> 'w io_uring \<Rightarrow> rc \<times> 'w io_uring" where
  "uring_Close E u =
     (kSuccess, (close_fd E (close_ring E (close_files E (close_buffers E u))))\<lparr>ur_block_count := 0\<rparr>)"

definition uring_destroy :: "'w uring_env \<Rightarrow> 'w io_uring \<Rightarrow> 'w io_uring" where
  "uring_destroy E u = (if ur_open u then snd (uring_Close E u) else u)"

text \<open>What a move leaves behind; the ring is copied and not cleared.\<close>

definition uring_moved_from :: "'w io_uring \<Rightarrow> 'w io_uring" where
  "uring_moved_from other =
     other\<lparr>ur_open := False, ur_block_count := 0, ur_ring_initialized := False, ur_files_registered := False,
       ur_buffers_registered := False, ur_registered_buffer_count := 0, ur_registered_buffers := [],
       ur_level := None\<rparr>"

definition uring_move :: "'w io_uring \<Rightarrow> 'w io_uring \<times> 'w io_uring" where
  "uring_move other = (other, uring_moved_from other)"

text \<open>Assignment from another object: the target is closed first. The world its \<open>Close\<close> leaves
  is the third result.\<close>

definition uring_assign ::
  "'w uring_env \<Rightarrow> 'w io_uring \<Rightarrow> 'w io_uring \<Rightarrow> 'w io_uring \<times> 'w io_uring \<times> 'w" where
  "uring_assign E this other = (other, uring_moved_from other, ur_world (snd (uring_Close E this)))"

definition uring_BlockCount :: "'w io_uring \<Rightarrow> nat" where
  "uring_BlockCount u = ur_block_count u"

definition uring_is_open :: "'w io_uring \<Rightarrow> bool" where
  "uring_is_open u \<longleftrightarrow> ur_open u"

section \<open>Registered buffers\<close>

text \<open>The loop that fills \<open>records\<close> (and \<open>iovecs\<close>, with the same addresses and sizes) and
  checks each view against those seen.\<close>

fun register_loop :: "slot_view list \<Rightarrow> (nat \<times> nat) list \<Rightarrow> bool list \<Rightarrow> (nat \<times> nat) list option" where
  "register_loop [] records seen = Some records"
| "register_loop (v # vs) records seen =
     (if sv_data v = 0 \<or> sv_size v \<noteq> kValueSize \<or> length records \<le> unat (sv_slot_index v)
         \<or> seen ! unat (sv_slot_index v) then None
      else register_loop vs (records[unat (sv_slot_index v) := (sv_data v, sv_size v)])
             (seen[unat (sv_slot_index v) := True]))"

text \<open>\<open>heap\<close> tells whether the three vectors can be allocated.\<close>

definition uring_RegisterWriteBuffers ::
  "'w uring_env \<Rightarrow> 'w io_uring \<Rightarrow> slot_view list \<Rightarrow> bool \<Rightarrow> rc \<times> 'w io_uring" where
  "uring_RegisterWriteBuffers E u buffers heap =
     (if buffers = [] then (kSuccess, u)
      else if \<not> ur_ring_initialized u \<or> ur_buffers_registered u then (kIoBase, u)
      else if 2 ^ 32 - 1 < length buffers then (kIoBase, u)
      else if \<not> heap then (kEnginePoolExhausted, u)
      else case register_loop buffers (replicate (length buffers) (0, 0)) (replicate (length buffers) False) of
        None \<Rightarrow> (kIoBase, u)
      | Some records \<Rightarrow>
        (case env_register_buffers E records (ur_world u) of (ret, w) \<Rightarrow>
         if ret < 0 then (kIoBase, u\<lparr>ur_world := w\<rparr>)
         else (kSuccess, u\<lparr>ur_world := w, ur_registered_buffers := records,
           ur_registered_buffer_count := length records, ur_buffers_registered := True\<rparr>)))"

text \<open>The buffer of a write, by address.\<close>

record uring_buffer =
  ub_data :: nat
  ub_size :: nat
  ub_kind :: io_write_buffer_kind
  ub_slot_index :: u32

definition UseFixedWriteBuffer :: "'w io_uring \<Rightarrow> uring_buffer \<Rightarrow> bool" where
  "UseFixedWriteBuffer u b \<longleftrightarrow>
     (if ub_kind b \<noteq> ValueBufferSlot \<or> \<not> ur_buffers_registered u then False
      else if ur_registered_buffer_count u \<le> unat (ub_slot_index b)
            \<or> length (ur_registered_buffers u) \<le> unat (ub_slot_index b) then False
      else case ur_registered_buffers u ! unat (ub_slot_index b) of (data, len) \<Rightarrow>
        ub_data b \<noteq> 0 \<and> ub_data b = data \<and> ub_size b = len \<and> ub_size b = kValueSize)"

section \<open>One operation\<close>

partial_function (option) submit_loop :: "'w uring_env \<Rightarrow> 'w \<Rightarrow> (int \<times> 'w) option" where
  "submit_loop E w =
     (case env_submit E w of (ret, w') \<Rightarrow>
      if ret = - EINTR \<or> ret = - EAGAIN then submit_loop E w' else Some (ret, w'))"

partial_function (option) wait_loop :: "'w uring_env \<Rightarrow> 'w \<Rightarrow> (int \<times> cqe \<times> 'w) option" where
  "wait_loop E w =
     (case env_wait_cqe E w of (ret, c, w') \<Rightarrow>
      if ret = - EINTR then wait_loop E w' else Some (ret, c, w'))"

definition harvest :: "'w uring_env \<Rightarrow> nat \<Rightarrow> int \<times> cqe \<times> 'w \<Rightarrow> rc \<times> 'w" where
  "harvest E expect r =
     (case r of (ret, c, w) \<Rightarrow>
      if ret < 0 then (kIoBase, w) else
      let w' = env_cqe_seen E w in
      if ce_data64 c \<noteq> expect then (kIoBase, w')
      else if ce_res c \<noteq> int kValueSize then (kIoBase, w')
      else (kSuccess, w'))"

definition uring_SubmitAndWait :: "'w uring_env \<Rightarrow> 'w \<Rightarrow> nat \<Rightarrow> (rc \<times> 'w) option" where
  "uring_SubmitAndWait E w expect =
     (case submit_loop E w of None \<Rightarrow> None
      | Some (ret, w1) \<Rightarrow>
        if ret \<noteq> 1 then Some (kIoBase, w1)
        else map_option (harvest E expect) (wait_loop E w1))"

definition write_sqe :: "'w io_uring \<Rightarrow> nat \<Rightarrow> uring_buffer \<Rightarrow> sqe" where
  "write_sqe u blk b =
     \<lparr>se_op = (if UseFixedWriteBuffer u b then SqeWriteFixed (unat (ub_slot_index b)) else SqeWrite),
      se_file = 0, se_addr = ub_data b, se_len = kValueSize, se_off = block_offset blk,
      se_fixed_file = True, se_data64 = blk\<rparr>"

definition read_sqe :: "nat \<Rightarrow> nat \<Rightarrow> sqe" where
  "read_sqe blk buf =
     \<lparr>se_op = SqeRead, se_file = 0, se_addr = buf, se_len = kValueSize, se_off = block_offset blk,
      se_fixed_file = True, se_data64 = blk\<rparr>"

definition uring_fua :: "'w io_uring \<Rightarrow> bool" where
  "uring_fua u \<longleftrightarrow> IsValueFuaLevel (case ur_level u of Some l \<Rightarrow> l | None \<Rightarrow> WalSync)"

text \<open>The end of a write: \<open>fdatasync\<close> at the levels that make values durable.\<close>

definition finish_write :: "'w uring_env \<Rightarrow> 'w io_uring \<Rightarrow> rc \<times> 'w \<Rightarrow> rc \<times> 'w io_uring" where
  "finish_write E u r =
     (case r of (c, w) \<Rightarrow>
      if c \<noteq> kSuccess then (c, u\<lparr>ur_world := w\<rparr>)
      else if uring_fua u then
        (case env_fdatasync E w of (ret, w') \<Rightarrow>
         (if ret < 0 then kIoBase else kSuccess, u\<lparr>ur_world := w'\<rparr>))
      else (kSuccess, u\<lparr>ur_world := w\<rparr>))"

definition uring_Write ::
  "'w uring_env \<Rightarrow> 'w io_uring \<Rightarrow> nat \<Rightarrow> uring_buffer \<Rightarrow> (rc \<times> 'w io_uring) option" where
  "uring_Write E u blk b =
     (if ur_block_count u \<le> blk then Some (kIoBase, u)
      else if ub_data b = 0 \<or> ub_size b \<noteq> kValueSize then Some (kIoBase, u)
      else case env_get_sqe E (ur_world u) of (got, w1) \<Rightarrow>
        if got = None then Some (kIoBase, u\<lparr>ur_world := w1\<rparr>)
        else map_option (finish_write E u)
               (uring_SubmitAndWait E (env_prep E (the got) (write_sqe u blk b) w1) blk))"

definition uring_Read ::
  "'w uring_env \<Rightarrow> 'w io_uring \<Rightarrow> nat \<Rightarrow> nat \<Rightarrow> (rc \<times> 'w io_uring) option" where
  "uring_Read E u blk buf =
     (if ur_block_count u \<le> blk then Some (kIoBase, u)
      else case env_get_sqe E (ur_world u) of (got, w1) \<Rightarrow>
        if got = None then Some (kIoBase, u\<lparr>ur_world := w1\<rparr>)
        else map_option (\<lambda>(c, w). (c, u\<lparr>ur_world := w\<rparr>))
               (uring_SubmitAndWait E (env_prep E (the got) (read_sqe blk buf) w1) blk))"

end
