(* ===== verification/Cabe_IoUringTheorems.thy ===== *)
theory Cabe_IoUringTheorems
  imports Cabe_IoUring
begin

text \<open>
  What the io_uring backend relies on (\<open>ring_laws\<close>: submissions and completions of the library,
  over an abstract view of the ring, the device and the memory), what it then guarantees, and
  what becomes of it once the library has failed.
\<close>

section \<open>The ring as the library documents it\<close>

text \<open>Operations in flight, completions not yet seen, the device's contents and its durable part,
  and the memory of the process.\<close>

record ring_view =
  rv_fly :: "sqe list"
  rv_cq :: "cqe list"
  rv_dev :: "nat \<Rightarrow> u8"
  rv_dur :: "nat \<Rightarrow> u8"
  rv_mem :: "nat \<Rightarrow> u8"

definition is_read :: "sqe \<Rightarrow> bool" where
  "is_read e \<longleftrightarrow> se_op e = SqeRead"

text \<open>Outside \<open>n\<close> places from \<open>a\<close> on nothing differs.\<close>

definition same_outside :: "nat \<Rightarrow> nat \<Rightarrow> (nat \<Rightarrow> u8) \<Rightarrow> (nat \<Rightarrow> u8) \<Rightarrow> bool" where
  "same_outside a n f g \<longleftrightarrow> (\<forall>i. i < a \<or> a + n \<le> i \<longrightarrow> g i = f i)"

text \<open>The kernel at work: an operation in flight transfers some bytes, or completes. Operations
  may complete in any order, with any result; a full result means that all bytes were
  transferred.\<close>

inductive kernel_step :: "ring_view \<Rightarrow> ring_view \<Rightarrow> bool" where
  some_written: "e \<in> set (rv_fly v) \<Longrightarrow> \<not> is_read e \<Longrightarrow> same_outside (se_off e) (se_len e) (rv_dev v) d \<Longrightarrow>
    kernel_step v (v\<lparr>rv_dev := d\<rparr>)"
| some_read: "e \<in> set (rv_fly v) \<Longrightarrow> is_read e \<Longrightarrow> same_outside (se_addr e) (se_len e) (rv_mem v) m \<Longrightarrow>
    kernel_step v (v\<lparr>rv_mem := m\<rparr>)"
| written: "rv_fly v = xs @ e # ys \<Longrightarrow> \<not> is_read e \<Longrightarrow> same_outside (se_off e) (se_len e) (rv_dev v) d \<Longrightarrow>
    (res = int (se_len e) \<Longrightarrow> d = kwrite (rv_dev v) (se_off e) (kread (rv_mem v) (se_addr e) (se_len e))) \<Longrightarrow>
    kernel_step v (v\<lparr>rv_fly := xs @ ys, rv_cq := rv_cq v @ [\<lparr>ce_data64 = se_data64 e, ce_res = res\<rparr>], rv_dev := d\<rparr>)"
| read: "rv_fly v = xs @ e # ys \<Longrightarrow> is_read e \<Longrightarrow> same_outside (se_addr e) (se_len e) (rv_mem v) m \<Longrightarrow>
    (res = int (se_len e) \<Longrightarrow> m = kwrite (rv_mem v) (se_addr e) (kread (rv_dev v) (se_off e) (se_len e))) \<Longrightarrow>
    kernel_step v (v\<lparr>rv_fly := xs @ ys, rv_cq := rv_cq v @ [\<lparr>ce_data64 = se_data64 e, ce_res = res\<rparr>], rv_mem := m\<rparr>)"

abbreviation kernel_run :: "ring_view \<Rightarrow> ring_view \<Rightarrow> bool" where
  "kernel_run \<equiv> kernel_step\<^sup>*\<^sup>*"

text \<open>The documented behaviour. \<open>sq\<close> are the entries prepared and not submitted. A submission
  takes the first \<open>n\<close> of them and answers \<open>n\<close>, or takes none and answers an error; a wait
  answers 0 with the first completion, or an error; both let the kernel work. \<open>fdatasync\<close>
  makes durable what completed operations have written.\<close>

definition ring_laws :: "'w uring_env \<Rightarrow> ('w \<Rightarrow> sqe list) \<Rightarrow> ('w \<Rightarrow> ring_view) \<Rightarrow> bool" where
  "ring_laws E sq view \<longleftrightarrow>
     (\<forall>w w1. env_get_sqe E w = (None, w1) \<longrightarrow> sq w1 = sq w \<and> view w1 = view w)
   \<and> (\<forall>w w1 h e. env_get_sqe E w = (Some h, w1) \<longrightarrow>
        sq (env_prep E h e w1) = sq w @ [e] \<and> view (env_prep E h e w1) = view w)
   \<and> (\<forall>w n w1. env_submit E w = (n, w1) \<and> n < 0 \<longrightarrow> sq w1 = sq w \<and> kernel_run (view w) (view w1))
   \<and> (\<forall>w n w1. env_submit E w = (n, w1) \<and> 0 \<le> n \<longrightarrow> nat n \<le> length (sq w) \<and> sq w1 = drop (nat n) (sq w)
        \<and> kernel_run ((view w)\<lparr>rv_fly := rv_fly (view w) @ take (nat n) (sq w)\<rparr>) (view w1))
   \<and> (\<forall>w r c w1. env_wait_cqe E w = (r, c, w1) \<longrightarrow> sq w1 = sq w \<and> kernel_run (view w) (view w1)
        \<and> (0 \<le> r \<longrightarrow> (\<exists>cs. rv_cq (view w1) = c # cs)))
   \<and> (\<forall>w. rv_cq (view w) \<noteq> [] \<longrightarrow> sq (env_cqe_seen E w) = sq w
        \<and> view (env_cqe_seen E w) = (view w)\<lparr>rv_cq := tl (rv_cq (view w))\<rparr>)
   \<and> (\<forall>w r w1. env_fdatasync E w = (r, w1) \<and> rv_fly (view w) = [] \<longrightarrow> sq w1 = sq w
        \<and> view w1 = (if r < 0 then view w else (view w)\<lparr>rv_dur := rv_dev (view w)\<rparr>))"

lemma ring_lawsD:
  assumes "ring_laws E sq view"
  shows "env_get_sqe E w = (None, w1) \<Longrightarrow> sq w1 = sq w \<and> view w1 = view w"
    "env_get_sqe E w = (Some h, w1) \<Longrightarrow> sq (env_prep E h e w1) = sq w @ [e] \<and> view (env_prep E h e w1) = view w"
    "env_submit E w = (n, w1) \<Longrightarrow> n < 0 \<Longrightarrow> sq w1 = sq w \<and> kernel_run (view w) (view w1)"
    "env_submit E w = (n, w1) \<Longrightarrow> 0 \<le> n \<Longrightarrow> nat n \<le> length (sq w) \<and> sq w1 = drop (nat n) (sq w)
        \<and> kernel_run ((view w)\<lparr>rv_fly := rv_fly (view w) @ take (nat n) (sq w)\<rparr>) (view w1)"
    "env_wait_cqe E w = (r, c, w1) \<Longrightarrow> sq w1 = sq w \<and> kernel_run (view w) (view w1)"
    "env_wait_cqe E w = (r, c, w1) \<Longrightarrow> 0 \<le> r \<Longrightarrow> \<exists>cs. rv_cq (view w1) = c # cs"
    "rv_cq (view w) \<noteq> [] \<Longrightarrow> sq (env_cqe_seen E w) = sq w
        \<and> view (env_cqe_seen E w) = (view w)\<lparr>rv_cq := tl (rv_cq (view w))\<rparr>"
    "env_fdatasync E w = (r, w1) \<Longrightarrow> rv_fly (view w) = [] \<Longrightarrow> sq w1 = sq w
        \<and> view w1 = (if r < 0 then view w else (view w)\<lparr>rv_dur := rv_dev (view w)\<rparr>)"
  using assms unfolding ring_laws_def by blast+

text \<open>Nothing prepared, in flight or left to be seen.\<close>

definition quiet_view :: "ring_view \<Rightarrow> bool" where
  "quiet_view v \<longleftrightarrow> rv_fly v = [] \<and> rv_cq v = []"

definition ring_quiet :: "('w \<Rightarrow> sqe list) \<Rightarrow> ('w \<Rightarrow> ring_view) \<Rightarrow> 'w \<Rightarrow> bool" where
  "ring_quiet sq view w \<longleftrightarrow> sq w = [] \<and> quiet_view (view w)"

section \<open>One operation on its own\<close>

text \<open>What an operation may touch: a read its buffer, a write its place on the device.\<close>

definition op_frame :: "sqe \<Rightarrow> ring_view \<Rightarrow> ring_view \<Rightarrow> bool" where
  "op_frame e v v' \<longleftrightarrow> rv_dur v' = rv_dur v
     \<and> (if is_read e then rv_dev v' = rv_dev v \<and> same_outside (se_addr e) (se_len e) (rv_mem v) (rv_mem v')
        else rv_mem v' = rv_mem v \<and> same_outside (se_off e) (se_len e) (rv_dev v) (rv_dev v'))"

definition transferred :: "sqe \<Rightarrow> ring_view \<Rightarrow> bool" where
  "transferred e v \<longleftrightarrow> kread (rv_mem v) (se_addr e) (se_len e) = kread (rv_dev v) (se_off e) (se_len e)"

text \<open>The kernel's work on a single operation \<open>e\<close>, from the view \<open>v\<close>: it is in flight, or it
  has completed once.\<close>

definition solo :: "ring_view \<Rightarrow> sqe \<Rightarrow> ring_view \<Rightarrow> bool" where
  "solo v e v' \<longleftrightarrow> op_frame e v v'
     \<and> (rv_fly v' = [e] \<and> rv_cq v' = []
        \<or> (\<exists>res. rv_fly v' = [] \<and> rv_cq v' = [\<lparr>ce_data64 = se_data64 e, ce_res = res\<rparr>]
            \<and> (res = int (se_len e) \<longrightarrow> transferred e v')))"

lemma same_outside_refl [simp]: "same_outside a n f f"
  by (simp add: same_outside_def)

lemma same_outside_trans: "same_outside a n f g \<Longrightarrow> same_outside a n g h \<Longrightarrow> same_outside a n f h"
  by (simp add: same_outside_def)

lemma solo_start: "quiet_view v \<Longrightarrow> solo v e (v\<lparr>rv_fly := [e]\<rparr>)"
  by (simp add: solo_def quiet_view_def op_frame_def)

lemma one_of_one: "xs @ y # ys = [z] \<Longrightarrow> y = z \<and> xs = [] \<and> ys = []"
  by (cases xs) auto

lemma solo_serve:
  assumes "solo v e v'" "kernel_step v' v''"
  shows "solo v e v''"
proof -
  have f: "op_frame e v v'" using assms(1) by (simp add: solo_def)
  have one: "rv_fly v' = [e] \<and> rv_cq v' = []" if "x \<in> set (rv_fly v')" for x using assms(1) that by (auto simp: solo_def)
  show ?thesis
    using assms(2)
  proof cases
    case (some_written e' d)
    then have "e' = e" "rv_fly v' = [e]" "rv_cq v' = []" using one [of e'] by auto
    then show ?thesis using f some_written by (simp add: solo_def op_frame_def same_outside_trans [of _ _ "rv_dev v" "rv_dev v'"])
  next
    case (some_read e' m)
    then have "e' = e" "rv_fly v' = [e]" "rv_cq v' = []" using one [of e'] by auto
    then show ?thesis using f some_read by (simp add: solo_def op_frame_def same_outside_trans [of _ _ "rv_mem v" "rv_mem v'"])
  next
    case (written xs e' ys d res)
    then have e: "e' = e" "xs = []" "ys = []" "rv_fly v' = [e]" "rv_cq v' = []"
      using one [of e'] one_of_one [of xs e' ys e] by auto
    have "op_frame e v v''"
      using f written e by (simp add: op_frame_def same_outside_trans [of _ _ "rv_dev v" "rv_dev v'"])
    moreover have "transferred e v''" if "res = int (se_len e)"
      using written(5) [unfolded e(1), OF that] written(1) by (simp add: transferred_def)
    ultimately show ?thesis using e written(1) by (simp add: solo_def)
  next
    case (read xs e' ys m res)
    then have e: "e' = e" "xs = []" "ys = []" "rv_fly v' = [e]" "rv_cq v' = []"
      using one [of e'] one_of_one [of xs e' ys e] by auto
    have "op_frame e v v''"
      using f read e by (simp add: op_frame_def same_outside_trans [of _ _ "rv_mem v" "rv_mem v'"])
    moreover have "transferred e v''" if "res = int (se_len e)"
      using read(5) [unfolded e(1), OF that] read(1) by (simp add: transferred_def)
    ultimately show ?thesis using e read(1) by (simp add: solo_def)
  qed
qed

lemma solo_served: "kernel_run v' v'' \<Longrightarrow> solo v e v' \<Longrightarrow> solo v e v''"
  by (induction rule: rtranclp_induct) (auto intro: solo_serve)

lemma quiet_run: "kernel_run v v' \<Longrightarrow> rv_fly v = [] \<Longrightarrow> v' = v"
  by (induction rule: converse_rtranclp_induct) (auto elim!: kernel_step.cases)

lemma solo_frame: "solo v e v' \<Longrightarrow> op_frame e v v'"
  by (simp add: solo_def)

lemma solo_done:
  assumes "solo v e v'" "rv_cq v' = d # cs"
  shows "\<exists>res. rv_fly v' = [] \<and> d = \<lparr>ce_data64 = se_data64 e, ce_res = res\<rparr> \<and> cs = []
    \<and> (res = int (se_len e) \<longrightarrow> transferred e v')"
  using assms by (auto simp: solo_def)

lemma op_frame_refl [simp]: "op_frame e v v"
  by (simp add: op_frame_def)

lemma op_frame_cq [simp]: "op_frame e v (v'\<lparr>rv_cq := cq\<rparr>) = op_frame e v v'"
  by (simp add: op_frame_def)

text \<open>The library never fails for good: it is interrupted, or it submits what was prepared and
  waits for a completion.\<close>

definition ring_healthy :: "'w uring_env \<Rightarrow> ('w \<Rightarrow> sqe list) \<Rightarrow> bool" where
  "ring_healthy E sq \<longleftrightarrow>
     (\<forall>w n w1. env_submit E w = (n, w1) \<longrightarrow> n = - EINTR \<or> n = - EAGAIN \<or> n = int (length (sq w)))
   \<and> (\<forall>w r c w1. env_wait_cqe E w = (r, c, w1) \<longrightarrow> 0 \<le> r \<or> r = - EINTR)"

lemma ring_healthyD:
  assumes "ring_healthy E sq"
  shows "env_submit E w = (n, w1) \<Longrightarrow> n = - EINTR \<or> n = - EAGAIN \<or> n = int (length (sq w))"
    "env_wait_cqe E w = (r, c, w1) \<Longrightarrow> 0 \<le> r \<or> r = - EINTR"
  using assms unfolding ring_healthy_def by blast+

lemmas submit_loop_induct = submit_loop.raw_induct [rotated 1, consumes 1, case_names loop]
lemmas wait_loop_induct = wait_loop.raw_induct [rotated 1, consumes 1, case_names loop]

lemma submit_loop_spec:
  "submit_loop E w = Some r \<Longrightarrow> ring_laws E sq view \<Longrightarrow> sq w = [e] \<Longrightarrow> quiet_view (view w) \<Longrightarrow>
   fst r = 1 \<and> sq (snd r) = [] \<and> solo (view w) e (view (snd r))
   \<or> fst r \<le> 0 \<and> sq (snd r) = [e] \<and> view (snd r) = view w \<and> \<not> ring_healthy E sq"
proof (induction rule: submit_loop_induct)
  case (loop f E w r)
  obtain n w1 where s: "env_submit E w = (n, w1)" by fastforce
  note L = ring_lawsD [OF loop.prems(1)]
  have fly: "rv_fly (view w) = []" using loop.prems(3) by (simp add: quiet_view_def)
  show ?case
  proof (cases "n = - EINTR \<or> n = - EAGAIN")
    case True
    then have neg: "n < 0" by (auto simp: EINTR_def EAGAIN_def)
    then have same: "sq w1 = sq w" "view w1 = view w" using L(3) [OF s] quiet_run fly by auto
    have "f E w1 = Some r" using loop.hyps s True by simp
    from loop.IH [OF this loop.prems(1)] show ?thesis using same loop.prems by simp
  next
    case False
    then have r: "r = (n, w1)" using loop.hyps s by simp
    show ?thesis
    proof (cases "n < 0")
      case True
      then have "sq w1 = sq w" "view w1 = view w" using L(3) [OF s] quiet_run fly by auto
      moreover have "\<not> ring_healthy E sq"
        using ring_healthyD(1) [OF _ s] False True by fastforce
      ultimately show ?thesis using True loop.prems by (simp add: r)
    next
      case pos: False
      have k: "nat n \<le> 1" "sq w1 = drop (nat n) [e]"
        "kernel_run ((view w)\<lparr>rv_fly := take (nat n) [e]\<rparr>) (view w1)"
        using L(4) [OF s] pos loop.prems fly by auto
      show ?thesis
      proof (cases "n = 0")
        case True
        have "(view w)\<lparr>rv_fly := []\<rparr> = view w" using fly by simp
        then have "view w1 = view w" using quiet_run [OF k(3)] fly True by simp
        moreover have "\<not> ring_healthy E sq"
          using ring_healthyD(1) [OF _ s] loop.prems(2) by (force simp: True EINTR_def EAGAIN_def)
        ultimately show ?thesis using k True loop.prems by (simp add: r)
      next
        case False
        then have n: "n = 1" using k(1) pos by linarith
        then show ?thesis using k solo_served [OF k(3)] solo_start [OF loop.prems(3), of e] by (simp add: r)
      qed
    qed
  qed
qed

lemma wait_loop_spec:
  "wait_loop E w = Some r \<Longrightarrow> ring_laws E sq view \<Longrightarrow> sq w = [] \<Longrightarrow> solo v e (view w) \<Longrightarrow>
   sq (snd (snd r)) = [] \<and> solo v e (view (snd (snd r)))
   \<and> (0 \<le> fst r \<longrightarrow> (\<exists>cs. rv_cq (view (snd (snd r))) = fst (snd r) # cs)) \<and> (fst r < 0 \<longrightarrow> \<not> ring_healthy E sq)"
proof (induction rule: wait_loop_induct)
  case (loop f E w r)
  obtain n c w1 where s: "env_wait_cqe E w = (n, c, w1)" using prod_cases3 by blast
  note L = ring_lawsD [OF loop.prems(1)]
  have same: "sq w1 = []" "solo v e (view w1)" using L(5) [OF s] loop.prems solo_served by auto
  show ?case
  proof (cases "n = - EINTR")
    case True
    then have "f E w1 = Some r" using loop.hyps s by simp
    from loop.IH [OF this loop.prems(1) same] show ?thesis .
  next
    case False
    then have r: "r = (n, c, w1)" using loop.hyps s by simp
    have "n < 0 \<longrightarrow> \<not> ring_healthy E sq" using ring_healthyD(2) [OF _ s] False by fastforce
    then show ?thesis using same L(6) [OF s] by (auto simp: r)
  qed
qed

text \<open>One operation prepared on a quiet ring: what comes out of \<open>SubmitAndWait\<close>.\<close>

lemma SubmitAndWait_spec:
  assumes laws: "ring_laws E sq view" and sq: "sq w = [e]" and q: "quiet_view (view w)"
    and e: "se_len e = kValueSize" "se_data64 e = expect"
    and run: "uring_SubmitAndWait E w expect = Some (c, w')"
  shows "c = kSuccess \<or> c = kIoBase" "op_frame e (view w) (view w')"
    "c = kSuccess \<Longrightarrow> ring_quiet sq view w' \<and> transferred e (view w')"
    "ring_healthy E sq \<Longrightarrow> ring_quiet sq view w'"
proof -
  obtain n w1 where s: "submit_loop E w = Some (n, w1)"
    using run by (auto simp: uring_SubmitAndWait_def split: option.splits)
  note S = submit_loop_spec [OF s laws sq q, simplified]
  have *: "(c = kSuccess \<or> c = kIoBase) \<and> op_frame e (view w) (view w')
    \<and> (c = kSuccess \<longrightarrow> ring_quiet sq view w' \<and> transferred e (view w')) \<and> (ring_healthy E sq \<longrightarrow> ring_quiet sq view w')"
  proof (cases "n = 1")
    case False
    then have "c = kIoBase" "w' = w1" using run s by (auto simp: uring_SubmitAndWait_def)
    then show ?thesis using S False by auto
  next
    case True
    then have S1: "sq w1 = []" "solo (view w) e (view w1)" using S by auto
    obtain r where r: "wait_loop E w1 = Some r" "(c, w') = harvest E expect r"
      using run s True by (auto simp: uring_SubmitAndWait_def)
    obtain m d w2 where rr: "r = (m, d, w2)" by (cases r)
    note W = wait_loop_spec [OF r(1) laws S1, unfolded rr, simplified]
    show ?thesis
    proof (cases "m < 0")
      case True
      then have "c = kIoBase" "w' = w2" using r(2) by (auto simp: harvest_def rr)
      then show ?thesis using W True solo_frame by auto
    next
      case False
      then obtain cs where cs: "rv_cq (view w2) = d # cs" using W by auto
      obtain res where res: "rv_fly (view w2) = []" "d = \<lparr>ce_data64 = se_data64 e, ce_res = res\<rparr>" "cs = []"
        "res = int (se_len e) \<Longrightarrow> transferred e (view w2)"
        using solo_done [OF conjunct1 [OF conjunct2 [OF W]] cs] by blast
      have w': "w' = env_cqe_seen E w2" "c = (if res = int kValueSize then kSuccess else kIoBase)"
        using r(2) False res(2) e(2) by (auto simp: harvest_def rr Let_def split: if_splits)
      have v': "sq w' = []" "view w' = (view w2)\<lparr>rv_cq := []\<rparr>"
        using ring_lawsD(7) [OF laws, of w2] cs res(3) W by (auto simp: w')
      have "ring_quiet sq view w'" by (simp add: ring_quiet_def quiet_view_def v' res(1))
      moreover have "op_frame e (view w) (view w')" using W solo_frame by (simp add: v')
      moreover have "res = int (se_len e) \<longrightarrow> transferred e (view w')" using res(4) by (simp add: v' transferred_def)
      ultimately show ?thesis using w'(2) e(1) by auto
    qed
  qed
  show "c = kSuccess \<or> c = kIoBase" "op_frame e (view w) (view w')"
    "c = kSuccess \<Longrightarrow> ring_quiet sq view w' \<and> transferred e (view w')"
    "ring_healthy E sq \<Longrightarrow> ring_quiet sq view w'"
    using * by blast+
qed

section \<open>Writes and reads\<close>

definition uring_view :: "('w \<Rightarrow> ring_view) \<Rightarrow> 'w io_uring \<Rightarrow> ring_view" where
  "uring_view view u = view (ur_world u)"

definition uring_quiet :: "('w \<Rightarrow> sqe list) \<Rightarrow> ('w \<Rightarrow> ring_view) \<Rightarrow> 'w io_uring \<Rightarrow> bool" where
  "uring_quiet sq view u \<longleftrightarrow> ring_quiet sq view (ur_world u)"

definition uring_content :: "('w \<Rightarrow> ring_view) \<Rightarrow> 'w io_uring \<Rightarrow> nat \<Rightarrow> bytes" where
  "uring_content view u i = kread (rv_dev (uring_view view u)) (block_offset i) kValueSize"

definition uring_stable :: "('w \<Rightarrow> ring_view) \<Rightarrow> 'w io_uring \<Rightarrow> nat \<Rightarrow> bytes" where
  "uring_stable view u i = kread (rv_dur (uring_view view u)) (block_offset i) kValueSize"

lemma sqe_simps [simp]:
  "se_len (write_sqe u blk b) = kValueSize" "se_data64 (write_sqe u blk b) = blk" "se_off (write_sqe u blk b) = block_offset blk"
  "se_addr (write_sqe u blk b) = ub_data b" "\<not> is_read (write_sqe u blk b)"
  "se_len (read_sqe blk buf) = kValueSize" "se_data64 (read_sqe blk buf) = blk" "se_off (read_sqe blk buf) = block_offset blk"
  "se_addr (read_sqe blk buf) = buf" "is_read (read_sqe blk buf)"
  by (simp_all add: write_sqe_def read_sqe_def is_read_def)

lemma same_outside_block:
  "same_outside (block_offset i) kValueSize f g \<Longrightarrow> j \<noteq> i \<Longrightarrow>
   kread g (block_offset j) kValueSize = kread f (block_offset j) kValueSize"
proof (rule kread_cong)
  fix k assume "same_outside (block_offset i) kValueSize f g" "j \<noteq> i" "block_offset j \<le> k" "k < block_offset j + kValueSize"
  then show "g k = f k" using block_offset_apart [of j i] unfolding same_outside_def
    by (metis le_trans less_le_trans nat_le_linear not_le)
qed

lemma uring_Write_spec:
  assumes laws: "ring_laws E sq view" and q: "uring_quiet sq view u" and run: "uring_Write E u blk b = Some (c, u')"
  shows "c = kSuccess \<or> c = kIoBase" "u' = u\<lparr>ur_world := ur_world u'\<rparr>"
    "rv_mem (uring_view view u') = rv_mem (uring_view view u)"
    "j \<noteq> blk \<Longrightarrow> uring_content view u' j = uring_content view u j"
    "uring_stable view u' = uring_stable view u \<or> uring_stable view u' = uring_content view u'"
    "c = kSuccess \<Longrightarrow> uring_quiet sq view u' \<and> blk < ur_block_count u
       \<and> uring_content view u' blk = kread (rv_mem (uring_view view u)) (ub_data b) kValueSize
       \<and> (uring_fua u \<longrightarrow> uring_stable view u' = uring_content view u')"
    "ring_healthy E sq \<Longrightarrow> uring_quiet sq view u'"
proof -
  have wq: "sq (ur_world u) = []" "quiet_view (view (ur_world u))" using q by (simp_all add: uring_quiet_def ring_quiet_def)
  have *: "(c = kSuccess \<or> c = kIoBase) \<and> u' = u\<lparr>ur_world := ur_world u'\<rparr>
    \<and> rv_mem (uring_view view u') = rv_mem (uring_view view u)
    \<and> (\<forall>j. j \<noteq> blk \<longrightarrow> uring_content view u' j = uring_content view u j)
    \<and> (uring_stable view u' = uring_stable view u \<or> uring_stable view u' = uring_content view u')
    \<and> (c = kSuccess \<longrightarrow> uring_quiet sq view u' \<and> blk < ur_block_count u
       \<and> uring_content view u' blk = kread (rv_mem (uring_view view u)) (ub_data b) kValueSize
       \<and> (uring_fua u \<longrightarrow> uring_stable view u' = uring_content view u'))
    \<and> (ring_healthy E sq \<longrightarrow> uring_quiet sq view u')"
  proof (cases "ur_block_count u \<le> blk \<or> ub_data b = 0 \<or> ub_size b \<noteq> kValueSize")
    case True
    then have "c = kIoBase" "u' = u" using run by (auto simp: uring_Write_def split: if_splits)
    then show ?thesis using q by simp
  next
    case False
    obtain got w1 where g: "env_get_sqe E (ur_world u) = (got, w1)" by fastforce
    show ?thesis
    proof (cases got)
      case None
      then have r: "c = kIoBase" "u' = u\<lparr>ur_world := w1\<rparr>" using run False g by (auto simp: uring_Write_def)
      then show ?thesis
        using ring_lawsD(1) [OF laws] g None wq
        by (simp add: uring_quiet_def ring_quiet_def uring_view_def uring_content_def [abs_def] uring_stable_def [abs_def])
    next
      case (Some h)
      let ?e = "write_sqe u blk b" and ?w = "env_prep E h (write_sqe u blk b) w1"
      have p: "sq ?w = [?e]" "view ?w = view (ur_world u)"
        using ring_lawsD(2) [OF laws, of "ur_world u" h w1 ?e] g Some wq by auto
      obtain c1 w2 where s: "uring_SubmitAndWait E ?w blk = Some (c1, w2)" "(c, u') = finish_write E u (c1, w2)"
        using run False g Some by (auto simp: uring_Write_def)
      have e: "se_len ?e = kValueSize" "se_data64 ?e = blk" by simp_all
      have qw: "quiet_view (view ?w)" using p(2) wq(2) by simp
      note S = SubmitAndWait_spec [OF laws p(1) qw e s(1), unfolded p(2)]
      have fr: "rv_dur (view w2) = rv_dur (view (ur_world u))" "rv_mem (view w2) = rv_mem (view (ur_world u))"
        "same_outside (block_offset blk) kValueSize (rv_dev (view (ur_world u))) (rv_dev (view w2))"
        using S(2) by (simp_all add: op_frame_def)
      have other: "kread (rv_dev (view w2)) (block_offset j) kValueSize
          = kread (rv_dev (view (ur_world u))) (block_offset j) kValueSize" if "j \<noteq> blk" for j
        by (rule same_outside_block [OF fr(3) that])
      show ?thesis
      proof (cases "c1 = kSuccess \<and> uring_fua u")
        case False
        then have r: "c = c1" "u' = u\<lparr>ur_world := w2\<rparr>" using s(2) by (auto simp: finish_write_def split: if_splits)
        show ?thesis
          using S(1,3,4) fr other False \<open>\<not> (ur_block_count u \<le> blk \<or> ub_data b = 0 \<or> ub_size b \<noteq> kValueSize)\<close>
          by (auto simp: r uring_view_def uring_content_def [abs_def] uring_stable_def [abs_def] uring_quiet_def transferred_def)
      next
        case True
        obtain ret w3 where f: "env_fdatasync E w2 = (ret, w3)" by fastforce
        then have r: "c = (if ret < 0 then kIoBase else kSuccess)" "u' = u\<lparr>ur_world := w3\<rparr>"
          using s(2) True by (simp_all add: finish_write_def)
        have t: "ring_quiet sq view w2" "transferred ?e (view w2)" using S(3) True by auto
        have v: "sq w3 = sq w2" "view w3 = (if ret < 0 then view w2 else (view w2)\<lparr>rv_dur := rv_dev (view w2)\<rparr>)"
          using ring_lawsD(8) [OF laws f] t(1) by (auto simp: ring_quiet_def quiet_view_def)
        have "ring_quiet sq view w3" using t(1) by (simp add: ring_quiet_def quiet_view_def v)
        then show ?thesis
          using t(2) fr other \<open>\<not> (ur_block_count u \<le> blk \<or> ub_data b = 0 \<or> ub_size b \<noteq> kValueSize)\<close>
          by (auto simp: r v uring_view_def uring_content_def [abs_def] uring_stable_def [abs_def] uring_quiet_def transferred_def)
      qed
    qed
  qed
  then show "c = kSuccess \<or> c = kIoBase" "u' = u\<lparr>ur_world := ur_world u'\<rparr>"
    "rv_mem (uring_view view u') = rv_mem (uring_view view u)"
    "j \<noteq> blk \<Longrightarrow> uring_content view u' j = uring_content view u j"
    "uring_stable view u' = uring_stable view u \<or> uring_stable view u' = uring_content view u'"
    "c = kSuccess \<Longrightarrow> uring_quiet sq view u' \<and> blk < ur_block_count u
       \<and> uring_content view u' blk = kread (rv_mem (uring_view view u)) (ub_data b) kValueSize
       \<and> (uring_fua u \<longrightarrow> uring_stable view u' = uring_content view u')"
    "ring_healthy E sq \<Longrightarrow> uring_quiet sq view u'"
    by blast+
qed

lemma uring_Read_spec:
  assumes laws: "ring_laws E sq view" and q: "uring_quiet sq view u" and run: "uring_Read E u blk buf = Some (c, u')"
  shows "c = kSuccess \<or> c = kIoBase" "u' = u\<lparr>ur_world := ur_world u'\<rparr>"
    "uring_content view u' = uring_content view u" "uring_stable view u' = uring_stable view u"
    "same_outside buf kValueSize (rv_mem (uring_view view u)) (rv_mem (uring_view view u'))"
    "c = kSuccess \<Longrightarrow> uring_quiet sq view u' \<and> blk < ur_block_count u
       \<and> kread (rv_mem (uring_view view u')) buf kValueSize = uring_content view u blk"
    "ring_healthy E sq \<Longrightarrow> uring_quiet sq view u'"
proof -
  have wq: "sq (ur_world u) = []" "quiet_view (view (ur_world u))" using q by (simp_all add: uring_quiet_def ring_quiet_def)
  have *: "(c = kSuccess \<or> c = kIoBase) \<and> u' = u\<lparr>ur_world := ur_world u'\<rparr>
    \<and> uring_content view u' = uring_content view u \<and> uring_stable view u' = uring_stable view u
    \<and> same_outside buf kValueSize (rv_mem (uring_view view u)) (rv_mem (uring_view view u'))
    \<and> (c = kSuccess \<longrightarrow> uring_quiet sq view u' \<and> blk < ur_block_count u
       \<and> kread (rv_mem (uring_view view u')) buf kValueSize = uring_content view u blk)
    \<and> (ring_healthy E sq \<longrightarrow> uring_quiet sq view u')"
  proof (cases "ur_block_count u \<le> blk")
    case True
    then have "c = kIoBase" "u' = u" using run by (auto simp: uring_Read_def split: if_splits)
    then show ?thesis using q by simp
  next
    case False
    obtain got w1 where g: "env_get_sqe E (ur_world u) = (got, w1)" by fastforce
    show ?thesis
    proof (cases got)
      case None
      then have r: "c = kIoBase" "u' = u\<lparr>ur_world := w1\<rparr>" using run False g by (auto simp: uring_Read_def)
      then show ?thesis
        using ring_lawsD(1) [OF laws] g None wq
        by (simp add: uring_quiet_def ring_quiet_def uring_view_def uring_content_def [abs_def] uring_stable_def [abs_def])
    next
      case (Some h)
      let ?e = "read_sqe blk buf" and ?w = "env_prep E h (read_sqe blk buf) w1"
      have p: "sq ?w = [?e]" "view ?w = view (ur_world u)"
        using ring_lawsD(2) [OF laws, of "ur_world u" h w1 ?e] g Some wq by auto
      obtain w2 where s: "uring_SubmitAndWait E ?w blk = Some (c, w2)" "u' = u\<lparr>ur_world := w2\<rparr>"
        using run False g Some by (auto simp: uring_Read_def)
      have e: "se_len ?e = kValueSize" "se_data64 ?e = blk" by simp_all
      have qw: "quiet_view (view ?w)" using p(2) wq(2) by simp
      note S = SubmitAndWait_spec [OF laws p(1) qw e s(1), unfolded p(2)]
      have fr: "rv_dur (view w2) = rv_dur (view (ur_world u))" "rv_dev (view w2) = rv_dev (view (ur_world u))"
        "same_outside buf kValueSize (rv_mem (view (ur_world u))) (rv_mem (view w2))"
        using S(2) by (simp_all add: op_frame_def)
      show ?thesis
        using S(1,3,4) fr False
        by (auto simp: s(2) uring_view_def uring_content_def [abs_def] uring_stable_def [abs_def] uring_quiet_def transferred_def)
    qed
  qed
  then show "c = kSuccess \<or> c = kIoBase" "u' = u\<lparr>ur_world := ur_world u'\<rparr>"
    "uring_content view u' = uring_content view u" "uring_stable view u' = uring_stable view u"
    "same_outside buf kValueSize (rv_mem (uring_view view u)) (rv_mem (uring_view view u'))"
    "c = kSuccess \<Longrightarrow> uring_quiet sq view u' \<and> blk < ur_block_count u
       \<and> kread (rv_mem (uring_view view u')) buf kValueSize = uring_content view u blk"
    "ring_healthy E sq \<Longrightarrow> uring_quiet sq view u'"
    by blast+
qed

section \<open>Histories\<close>

datatype uring_op = UringWrite nat uring_buffer | UringRead nat nat

fun uring_step :: "'w uring_env \<Rightarrow> 'w io_uring \<Rightarrow> uring_op \<Rightarrow> (rc \<times> 'w io_uring) option" where
  "uring_step E u (UringWrite blk b) = uring_Write E u blk b"
| "uring_step E u (UringRead blk buf) = uring_Read E u blk buf"

text \<open>All operations of a list, \<open>None\<close> when one does not return.\<close>

fun uring_ops :: "'w uring_env \<Rightarrow> 'w io_uring \<Rightarrow> uring_op list \<Rightarrow> (rc list \<times> 'w io_uring) option" where
  "uring_ops E u [] = Some ([], u)"
| "uring_ops E u (op # ops) =
     (case uring_step E u op of None \<Rightarrow> None
      | Some (c, u') \<Rightarrow> map_option (\<lambda>(cs, u''). (c # cs, u'')) (uring_ops E u' ops))"

fun op_writes :: "uring_op \<Rightarrow> nat \<Rightarrow> bool" where
  "op_writes (UringWrite i b) blk = (i = blk)"
| "op_writes (UringRead i buf) blk = False"

lemma uring_step_spec:
  assumes "ring_laws E sq view" "ring_healthy E sq" "uring_quiet sq view u" "uring_step E u op = Some (c, u')"
  shows "uring_quiet sq view u' \<and> ur_block_count u' = ur_block_count u \<and> ur_level u' = ur_level u
    \<and> (\<not> op_writes op blk \<longrightarrow> uring_content view u' blk = uring_content view u blk
      \<and> (uring_stable view u' blk = uring_stable view u blk \<or> uring_stable view u' blk = uring_content view u blk))"
proof (cases op)
  case (UringWrite i b)
  then have w: "uring_Write E u i b = Some (c, u')" using assms(4) by simp
  note W = uring_Write_spec [OF assms(1,3) w]
  have "ur_block_count u' = ur_block_count u" "ur_level u' = ur_level u" by (subst W(2), simp)+
  then show ?thesis using W(4) [of blk] W(5) W(7) [OF assms(2)] by (auto simp: UringWrite)
next
  case (UringRead i buf)
  then have r: "uring_Read E u i buf = Some (c, u')" using assms(4) by simp
  note R = uring_Read_spec [OF assms(1,3) r]
  have "ur_block_count u' = ur_block_count u" "ur_level u' = ur_level u" by (subst R(2), simp)+
  then show ?thesis using R(3,4) R(7) [OF assms(2)] by simp
qed

lemma uring_ops_spec:
  assumes "ring_laws E sq view" "ring_healthy E sq" "uring_quiet sq view u" "uring_ops E u ops = Some (cs, u')"
    "\<forall>op \<in> set ops. \<not> op_writes op blk"
  shows "uring_quiet sq view u' \<and> ur_block_count u' = ur_block_count u
    \<and> uring_content view u' blk = uring_content view u blk
    \<and> (uring_stable view u blk = uring_content view u blk \<longrightarrow> uring_stable view u' blk = uring_content view u blk)"
  using assms(3-5)
proof (induction ops arbitrary: u cs)
  case (Cons op ops)
  obtain c u1 cs1 where s: "uring_step E u op = Some (c, u1)" "uring_ops E u1 ops = Some (cs1, u')"
    using Cons.prems(2) by (auto split: option.splits)
  note S = uring_step_spec [OF assms(1,2) Cons.prems(1) s(1), of blk]
  have q: "uring_quiet sq view u1" using S by blast
  have "\<forall>op \<in> set ops. \<not> op_writes op blk" using Cons.prems(3) by simp
  from Cons.IH [OF q s(2) this] show ?case using S Cons.prems(3) by auto
qed simp

end
