(* ===== verification/Cabe_IoUringRing.thy ===== *)
theory Cabe_IoUringRing
  imports Cabe_IoUringTheorems Cabe_ValuePoolTheorems
begin

text \<open>
  The properties of the io_uring backend, with a concrete ring on which they can be seen at work:
  its kernel serves the operations in the order of their submission, one with each wait, and its
  waits may fail as a script says.
\<close>

section \<open>A concrete ring\<close>

text \<open>\<open>kr_waits\<close> holds the error numbers of the next waits, 0 for one that goes well.\<close>

record kring =
  kr_sq :: "sqe list"
  kr_view :: ring_view
  kr_bytes :: nat
  kr_waits :: "nat list"

definition serve :: "sqe \<Rightarrow> ring_view \<Rightarrow> ring_view" where
  "serve e v =
     (let cq = rv_cq v @ [\<lparr>ce_data64 = se_data64 e, ce_res = int (se_len e)\<rparr>] in
      if is_read e then v\<lparr>rv_fly := tl (rv_fly v), rv_cq := cq,
        rv_mem := kwrite (rv_mem v) (se_addr e) (kread (rv_dev v) (se_off e) (se_len e))\<rparr>
      else v\<lparr>rv_fly := tl (rv_fly v), rv_cq := cq,
        rv_dev := kwrite (rv_dev v) (se_off e) (kread (rv_mem v) (se_addr e) (se_len e))\<rparr>)"

definition kr_wait :: "kring \<Rightarrow> int \<times> cqe \<times> kring" where
  "kr_wait w =
     (if kr_waits w \<noteq> [] \<and> hd (kr_waits w) \<noteq> 0 then
        (- int (hd (kr_waits w)), \<lparr>ce_data64 = 0, ce_res = 0\<rparr>, w\<lparr>kr_waits := tl (kr_waits w)\<rparr>)
      else if rv_cq (kr_view w) \<noteq> [] then (0, hd (rv_cq (kr_view w)), w\<lparr>kr_waits := tl (kr_waits w)\<rparr>)
      else if rv_fly (kr_view w) = [] then (- EINTR, \<lparr>ce_data64 = 0, ce_res = 0\<rparr>, w)
      else let v = serve (hd (rv_fly (kr_view w))) (kr_view w)
           in (0, hd (rv_cq v), w\<lparr>kr_view := v, kr_waits := tl (kr_waits w)\<rparr>))"

definition kring_env :: "bool \<Rightarrow> kring uring_env" where
  "kring_env fails = \<lparr>
     env_open = (\<lambda>w. (3, w)), env_blkgetsize = (\<lambda>w. (Some (kr_bytes w), w)), env_close = (\<lambda>w. w),
     env_fdatasync = (\<lambda>w. (0, w\<lparr>kr_view := (kr_view w)\<lparr>rv_dur := rv_dev (kr_view w)\<rparr>\<rparr>)),
     env_queue_init = (\<lambda>depth w. (0, w)), env_queue_exit = (\<lambda>w. w),
     env_register_files = (\<lambda>w. (0, w)), env_unregister_files = (\<lambda>w. w),
     env_register_buffers = (\<lambda>bufs w. (0, w)), env_unregister_buffers = (\<lambda>w. w),
     env_get_sqe = (\<lambda>w. (Some 0, w)), env_prep = (\<lambda>h e w. w\<lparr>kr_sq := kr_sq w @ [e]\<rparr>),
     env_submit = (\<lambda>w. (int (length (kr_sq w)), w\<lparr>kr_sq := [],
        kr_view := (kr_view w)\<lparr>rv_fly := rv_fly (kr_view w) @ kr_sq w\<rparr>\<rparr>)),
     env_wait_cqe = (\<lambda>w. kr_wait (if fails then w else w\<lparr>kr_waits := []\<rparr>)),
     env_cqe_seen = (\<lambda>w. w\<lparr>kr_view := (kr_view w)\<lparr>rv_cq := tl (rv_cq (kr_view w))\<rparr>\<rparr>)\<rparr>"

lemma kring_env_simps [simp]:
  "env_open (kring_env fails) w = (3, w)" "env_blkgetsize (kring_env fails) w = (Some (kr_bytes w), w)" "env_close (kring_env fails) w = w"
  "env_fdatasync (kring_env fails) w = (0, w\<lparr>kr_view := (kr_view w)\<lparr>rv_dur := rv_dev (kr_view w)\<rparr>\<rparr>)"
  "env_queue_init (kring_env fails) depth w = (0, w)" "env_register_files (kring_env fails) w = (0, w)"
  "env_register_buffers (kring_env fails) bufs w = (0, w)"
  "env_get_sqe (kring_env fails) w = (Some 0, w)" "env_prep (kring_env fails) h e w = w\<lparr>kr_sq := kr_sq w @ [e]\<rparr>"
  "env_submit (kring_env fails) w = (int (length (kr_sq w)), w\<lparr>kr_sq := [],
        kr_view := (kr_view w)\<lparr>rv_fly := rv_fly (kr_view w) @ kr_sq w\<rparr>\<rparr>)"
  "env_wait_cqe (kring_env fails) w = kr_wait (if fails then w else w\<lparr>kr_waits := []\<rparr>)"
  "env_cqe_seen (kring_env fails) w = w\<lparr>kr_view := (kr_view w)\<lparr>rv_cq := tl (rv_cq (kr_view w))\<rparr>\<rparr>"
  by (simp_all add: kring_env_def)

lemma serve_step: "rv_fly v = e # es \<Longrightarrow> kernel_step v (serve e v)"
proof -
  assume fly: "rv_fly v = e # es"
  have out: "same_outside a n f (kwrite f a (kread g b n))" for a n f g b
    by (auto simp: same_outside_def kwrite_def)
  show ?thesis
  proof (cases "is_read e")
    case True
    have "kernel_step v (v\<lparr>rv_fly := [] @ es, rv_cq := rv_cq v @ [\<lparr>ce_data64 = se_data64 e, ce_res = int (se_len e)\<rparr>],
        rv_mem := kwrite (rv_mem v) (se_addr e) (kread (rv_dev v) (se_off e) (se_len e))\<rparr>)"
      using fly True by (intro kernel_step.read [where e = e]) (simp_all add: out)
    then show ?thesis using True fly by (simp add: serve_def Let_def)
  next
    case False
    have "kernel_step v (v\<lparr>rv_fly := [] @ es, rv_cq := rv_cq v @ [\<lparr>ce_data64 = se_data64 e, ce_res = int (se_len e)\<rparr>],
        rv_dev := kwrite (rv_dev v) (se_off e) (kread (rv_mem v) (se_addr e) (se_len e))\<rparr>)"
      using fly False by (intro kernel_step.written [where e = e]) (simp_all add: out)
    then show ?thesis using False fly by (simp add: serve_def Let_def)
  qed
qed

lemma serve_cq [simp]: "rv_cq (serve e v) = rv_cq v @ [\<lparr>ce_data64 = se_data64 e, ce_res = int (se_len e)\<rparr>]"
  by (simp add: serve_def Let_def)

lemma kr_wait_law:
  assumes "kr_wait w = (r, c, w1)"
  shows "kr_sq w1 = kr_sq w \<and> kernel_run (kr_view w) (kr_view w1) \<and> (0 \<le> r \<longrightarrow> (\<exists>cs. rv_cq (kr_view w1) = c # cs))"
proof (cases "kr_waits w \<noteq> [] \<and> hd (kr_waits w) \<noteq> 0 \<or> rv_cq (kr_view w) \<noteq> [] \<or> rv_fly (kr_view w) = []")
  case True
  then show ?thesis using assms by (auto simp: kr_wait_def EINTR_def neq_Nil_conv split: if_splits)
next
  case False
  then obtain e es where fly: "rv_fly (kr_view w) = e # es" by (auto simp: neq_Nil_conv)
  have "w1 = w\<lparr>kr_view := serve e (kr_view w), kr_waits := tl (kr_waits w)\<rparr>" "c = \<lparr>ce_data64 = se_data64 e, ce_res = int (se_len e)\<rparr>"
    using False assms fly by (auto simp: kr_wait_def Let_def)
  then show ?thesis using serve_step [OF fly] False by simp
qed

lemma kring_laws: "ring_laws (kring_env fails) kr_sq kr_view"
proof -
  have "kr_sq w1 = kr_sq w \<and> kernel_run (kr_view w) (kr_view w1) \<and> (0 \<le> r \<longrightarrow> (\<exists>cs. rv_cq (kr_view w1) = c # cs))"
    if "kr_wait (if fails then w else w\<lparr>kr_waits := []\<rparr>) = (r, c, w1)" for w r c w1
    using kr_wait_law [OF that] by (cases fails) simp_all
  then show ?thesis by (auto simp: ring_laws_def)
qed

lemma kring_healthy: "ring_healthy (kring_env False) kr_sq"
  by (auto simp: ring_healthy_def kr_wait_def Let_def split: if_splits)

text \<open>A backend with \<open>n\<close> blocks on the concrete ring.\<close>

definition kring_backend :: "nat \<Rightarrow> wal_level \<Rightarrow> (nat \<Rightarrow> u8) \<Rightarrow> nat list \<Rightarrow> kring io_uring" where
  "kring_backend n lvl mem waits = \<lparr>ur_open = True, ur_block_count = n, ur_ring_initialized = True,
     ur_files_registered = True, ur_buffers_registered = False, ur_registered_buffer_count = 0,
     ur_registered_buffers = [], ur_level = Some lvl,
     ur_world = \<lparr>kr_sq = [], kr_view = \<lparr>rv_fly = [], rv_cq = [], rv_dev = (\<lambda>_. 0), rv_dur = (\<lambda>_. 0), rv_mem = mem\<rparr>,
       kr_bytes = kDataRegionOffset + n * kValueSize, kr_waits = waits\<rparr>\<rparr>"

definition plain_buffer :: "nat \<Rightarrow> uring_buffer" where
  "plain_buffer a = \<lparr>ub_data = a, ub_size = kValueSize, ub_kind = ExternalMemory, ub_slot_index = 0\<rparr>"

lemma plain_not_fixed [simp]: "UseFixedWriteBuffer u (plain_buffer a) = False"
  by (simp add: UseFixedWriteBuffer_def plain_buffer_def)

lemma quiet_kring [simp]: "uring_quiet kr_sq kr_view (kring_backend n lvl mem waits)"
  by (simp add: uring_quiet_def ring_quiet_def quiet_view_def kring_backend_def)

lemma kr_submit_loop [simp]: "submit_loop (kring_env fails) w = Some (int (length (kr_sq w)), w\<lparr>kr_sq := [],
    kr_view := (kr_view w)\<lparr>rv_fly := rv_fly (kr_view w) @ kr_sq w\<rparr>\<rparr>)"
  by (subst submit_loop.simps) (simp add: EINTR_def EAGAIN_def)

lemma kr_wait_loop:
  assumes "kr_wait (if fails then w else w\<lparr>kr_waits := []\<rparr>) = (r, c, w')" "r \<noteq> - EINTR"
  shows "wait_loop (kring_env fails) w = Some (r, c, w')"
  using assms by (subst wait_loop.simps) simp

section \<open>The contract\<close>

text \<open>C32: the backend, on a ring with the documented behaviour that has nothing pending. One write
  with success has the whole value on its block, and durable at the levels that ask for it; a
  failed one has touched no other block. If moreover the library never fails for good, then after
  any further writes of other blocks and any reads, whatever they answer, a successful read of
  the block delivers that value, and it is still durable.\<close>

theorem uring_backend_contract:
  assumes "ring_laws E sq view" "uring_quiet sq view u" "uring_Write E u blk b = Some (c, u1)"
  shows "(j \<noteq> blk \<longrightarrow> uring_content view u1 j = uring_content view u j)
    \<and> (c = kSuccess \<longrightarrow> blk < ur_block_count u
        \<and> uring_content view u1 blk = kread (rv_mem (uring_view view u)) (ub_data b) kValueSize
        \<and> (uring_fua u \<longrightarrow> uring_stable view u1 blk = uring_content view u1 blk))
    \<and> (c = kSuccess \<and> ring_healthy E sq \<and> uring_ops E u1 ops = Some (cs, u2) \<and> (\<forall>op \<in> set ops. \<not> op_writes op blk)
          \<and> uring_Read E u2 blk buf = Some (kSuccess, u3) \<longrightarrow>
        kread (rv_mem (uring_view view u3)) buf kValueSize = kread (rv_mem (uring_view view u)) (ub_data b) kValueSize
        \<and> (uring_fua u \<longrightarrow> uring_stable view u3 blk = kread (rv_mem (uring_view view u)) (ub_data b) kValueSize))"
proof -
  note W = uring_Write_spec [OF assms]
  have "kread (rv_mem (uring_view view u3)) buf kValueSize = kread (rv_mem (uring_view view u)) (ub_data b) kValueSize
      \<and> (uring_fua u \<longrightarrow> uring_stable view u3 blk = kread (rv_mem (uring_view view u)) (ub_data b) kValueSize)"
    if "c = kSuccess" "ring_healthy E sq" and o: "uring_ops E u1 ops = Some (cs, u2)" "\<forall>op \<in> set ops. \<not> op_writes op blk"
      and r: "uring_Read E u2 blk buf = Some (kSuccess, u3)"
  proof -
    have w: "uring_quiet sq view u1" "uring_content view u1 blk = kread (rv_mem (uring_view view u)) (ub_data b) kValueSize"
      "uring_fua u \<longrightarrow> uring_stable view u1 = uring_content view u1" using W(6) that(1) by auto
    note O = uring_ops_spec [OF assms(1) that(2) w(1) o]
    have q: "uring_quiet sq view u2" using O by blast
    note R = uring_Read_spec [OF assms(1) q r]
    show ?thesis using R(4,6) O w by auto
  qed
  then show ?thesis using W(4,6) by auto
qed

lemma kring_write_read:
  defines "u \<equiv> kring_backend 2 Strict (\<lambda>_. 7) []"
  shows "\<exists>u1 u2. uring_Write (kring_env False) u 1 (plain_buffer 4096) = Some (kSuccess, u1)
    \<and> uring_Read (kring_env False) u1 1 8192 = Some (kSuccess, u2)"
  by (simp add: u_def kring_backend_def uring_Write_def uring_Read_def plain_buffer_def [of 4096] uring_SubmitAndWait_def
      kr_wait_loop kr_wait_def Let_def serve_def write_sqe_def read_sqe_def is_read_def harvest_def finish_write_def
      uring_fua_def IsValueFuaLevel_def EINTR_def)

theorem uring_backend_contract_witness:
  "\<exists>u1 u2. uring_Write (kring_env False) (kring_backend 2 Strict (\<lambda>_. 7) []) 1 (plain_buffer 4096) = Some (kSuccess, u1)
    \<and> uring_Read (kring_env False) u1 1 8192 = Some (kSuccess, u2)
    \<and> kread (rv_mem (uring_view kr_view u2)) 8192 kValueSize = kread (\<lambda>_. 7) 4096 kValueSize
    \<and> uring_stable kr_view u2 1 = kread (\<lambda>_. 7) 4096 kValueSize"
proof -
  let ?u = "kring_backend 2 Strict (\<lambda>_. 7) []"
  obtain u1 u2 where w: "uring_Write (kring_env False) ?u 1 (plain_buffer 4096) = Some (kSuccess, u1)"
    and r: "uring_Read (kring_env False) u1 1 8192 = Some (kSuccess, u2)"
    using kring_write_read by blast
  have o: "uring_ops (kring_env False) u1 [] = Some ([], u1)" by simp
  have m: "rv_mem (uring_view kr_view ?u) = (\<lambda>_. 7)" "uring_fua ?u" "ub_data (plain_buffer 4096) = 4096"
    by (simp_all add: kring_backend_def uring_view_def uring_fua_def IsValueFuaLevel_def plain_buffer_def)
  from uring_backend_contract [OF kring_laws quiet_kring w, of 0 "[]" "[]" u1 8192 u2]
  show ?thesis using w r o kring_healthy m by auto
qed

section \<open>After a failed wait\<close>

text \<open>C33: a wait that fails for good leaves the operation in flight, and its completion in the ring.
  The user data is only the number of the block. So the next write of that block takes the old
  completion for its own: it reports success, at the strictest level, while the block and its
  durable copy hold the old value and the new operation is still in flight.\<close>

theorem uring_stale_success:
  "\<exists>(E :: kring uring_env) sq view u b1 b2 u1 u2. ring_laws E sq view \<and> uring_quiet sq view u \<and> ur_level u = Some Strict
    \<and> uring_Write E u 0 b1 = Some (kIoBase, u1) \<and> uring_Write E u1 0 b2 = Some (kSuccess, u2)
    \<and> uring_content view u2 0 = kread (rv_mem (uring_view view u)) (ub_data b1) kValueSize
    \<and> uring_stable view u2 0 \<noteq> kread (rv_mem (uring_view view u2)) (ub_data b2) kValueSize
    \<and> rv_fly (uring_view view u2) \<noteq> []"
proof -
  let ?m = "\<lambda>i. if i < 4096 + kValueSize then 1 else 2 :: u8" and ?a = "4096 + kValueSize"
  let ?u = "kring_backend 1 Strict ?m [5]"
  have d: "kread ?m 4096 kValueSize = kread (\<lambda>_. 1) 4096 kValueSize" "kread ?m ?a kValueSize = kread (\<lambda>_. 2) ?a kValueSize"
    by (rule kread_cong, simp)+
  have ne: "kread f a kValueSize \<noteq> kread g b kValueSize" if "f a \<noteq> g b" for f g :: "nat \<Rightarrow> u8" and a b
  proof
    assume "kread f a kValueSize = kread g b kValueSize"
    then have "kread f a kValueSize ! 0 = kread g b kValueSize ! 0" by simp
    then show False using that by (simp add: kValueSize_def)
  qed
  have "\<exists>u1 u2. uring_Write (kring_env True) ?u 0 (plain_buffer 4096) = Some (kIoBase, u1)
      \<and> uring_Write (kring_env True) u1 0 (plain_buffer ?a) = Some (kSuccess, u2)
      \<and> rv_dev (uring_view kr_view u2) = kwrite (\<lambda>_. 0) (block_offset 0) (kread ?m 4096 kValueSize)
      \<and> rv_dur (uring_view kr_view u2) = rv_dev (uring_view kr_view u2) \<and> rv_mem (uring_view kr_view u2) = ?m
      \<and> rv_fly (uring_view kr_view u2) \<noteq> []"
    by (simp add: kring_backend_def uring_Write_def plain_buffer_def [abs_def] uring_SubmitAndWait_def
      kr_wait_loop kr_wait_def Let_def serve_def write_sqe_def is_read_def harvest_def finish_write_def
      uring_fua_def IsValueFuaLevel_def EINTR_def uring_view_def)
  then obtain u1 u2 where w: "uring_Write (kring_env True) ?u 0 (plain_buffer 4096) = Some (kIoBase, u1)"
      "uring_Write (kring_env True) u1 0 (plain_buffer ?a) = Some (kSuccess, u2)"
      and v: "rv_dev (uring_view kr_view u2) = kwrite (\<lambda>_. 0) (block_offset 0) (kread ?m 4096 kValueSize)"
      "rv_dur (uring_view kr_view u2) = rv_dev (uring_view kr_view u2)" "rv_mem (uring_view kr_view u2) = ?m"
      "rv_fly (uring_view kr_view u2) \<noteq> []" by blast
  have "ur_level ?u = Some Strict" "rv_mem (uring_view kr_view ?u) = ?m"
    by (simp_all add: kring_backend_def uring_view_def)
  moreover have "uring_content kr_view u2 0 = kread ?m 4096 kValueSize" "uring_stable kr_view u2 0 = kread ?m 4096 kValueSize"
    by (simp_all add: uring_content_def uring_stable_def v)
  moreover have "kread ?m 4096 kValueSize \<noteq> kread ?m ?a kValueSize" by (rule ne) (simp add: kValueSize_def)
  ultimately show ?thesis using kring_laws quiet_kring w v
    by (intro exI [of _ "kring_env True"] exI [of _ kr_sq] exI [of _ kr_view] exI [of _ ?u] exI [of _ "plain_buffer 4096"]
        exI [of _ "plain_buffer ?a"] exI [of _ u1] exI [of _ u2]) (simp add: plain_buffer_def)
qed

section \<open>Registered buffers\<close>

text \<open>What the loop accepts: views of whole values at non-null addresses, each under a slot of its
  own; and where it puts them.\<close>

lemma register_loop_sound:
  assumes "register_loop vs recs seen = Some out" "length seen = length recs"
  shows "length out = length recs" "\<And>v. v \<in> set vs \<Longrightarrow> unat (sv_slot_index v) < length recs
      \<and> out ! unat (sv_slot_index v) = (sv_data v, kValueSize) \<and> sv_data v \<noteq> 0 \<and> \<not> seen ! unat (sv_slot_index v)"
    "\<And>i. i < length recs \<Longrightarrow> (\<forall>v \<in> set vs. unat (sv_slot_index v) \<noteq> i) \<Longrightarrow> out ! i = recs ! i"
    "distinct (map sv_slot_index vs)"
  using assms
proof (induction vs arbitrary: recs seen)
  case (Cons v vs)
  let ?i = "unat (sv_slot_index v)"
  case 1
  then show ?case using Cons.IH(1) by (auto split: if_splits)
next
  case (Cons v vs)
  let ?i = "unat (sv_slot_index v)"
  case (2 x)
  have st: "sv_data v \<noteq> 0" "sv_size v = kValueSize" "?i < length recs" "\<not> seen ! ?i"
    "register_loop vs (recs[?i := (sv_data v, sv_size v)]) (seen[?i := True]) = Some out" "length (seen[?i := True]) = length (recs[?i := (sv_data v, sv_size v)])"
    using 2(2,3) by (auto split: if_splits)
  have nv: "unat (sv_slot_index y) \<noteq> ?i" if "y \<in> set vs" for y
    using Cons.IH(2) [OF that st(5,6)] st(3) 2(3) by (auto simp: nth_list_update)
  show ?case
  proof (cases "x = v")
    case True
    have "out ! ?i = recs[?i := (sv_data v, sv_size v)] ! ?i" using Cons.IH(3) [OF _ _ st(5,6), of ?i] nv st(3) by simp
    then show ?thesis using st True by simp
  next
    case False
    then have "x \<in> set vs" using 2(1) by simp
    from Cons.IH(2) [OF this st(5,6)] nv [OF this] show ?thesis by simp
  qed
next
  case (Cons v vs)
  let ?i = "unat (sv_slot_index v)"
  case (3 j)
  have "register_loop vs (recs[?i := (sv_data v, sv_size v)]) (seen[?i := True]) = Some out"
    using 3(3) by (auto split: if_splits)
  from Cons.IH(3) [OF _ _ this, of j] show ?case using 3(1,2,4) by simp
next
  case (Cons v vs)
  let ?i = "unat (sv_slot_index v)"
  case 4
  have st: "register_loop vs (recs[?i := (sv_data v, sv_size v)]) (seen[?i := True]) = Some out"
    "length (seen[?i := True]) = length (recs[?i := (sv_data v, sv_size v)])" "?i < length recs"
    using 4 by (auto split: if_splits)
  have "sv_slot_index y \<noteq> sv_slot_index v" if "y \<in> set vs" for y
    using Cons.IH(2) [OF that st(1,2)] st(3) 4(2) by (auto simp: nth_list_update)
  then have "sv_slot_index v \<notin> sv_slot_index ` set vs" by fastforce
  then show ?case using Cons.IH(4) [OF st(1,2)] by simp
qed auto

text \<open>The views of a fresh pool are accepted.\<close>

lemma register_loop_pool:
  assumes "k \<le> n" "n < 4294967295" "base \<noteq> 0" "length recs = n" "length seen = n"
    "\<forall>i < n. seen ! i = (i < k)" "\<forall>i < k. recs ! i = (base + i * kValueSize, kValueSize)"
  shows "register_loop (map (\<lambda>i. \<lparr>sv_data = base + i * kValueSize, sv_size = kValueSize, sv_slot_index = of_nat i\<rparr>) [k..<n]) recs seen
    = Some (map (\<lambda>i. (base + i * kValueSize, kValueSize)) [0..<n])"
  using assms
proof (induction "n - k" arbitrary: k recs seen)
  case 0
  then have "recs = map (\<lambda>i. (base + i * kValueSize, kValueSize)) [0..<n]" by (intro nth_equalityI) auto
  then show ?case using 0 by simp
next
  case (Suc m)
  have u: "[k..<n] = k # [Suc k..<n]" using Suc.hyps(2) by (simp add: upt_conv_Cons)
  have nk: "unat (of_nat k :: u32) = k" using Suc.prems(1,2) by (intro unat_slot) simp
  have "register_loop (map (\<lambda>i. \<lparr>sv_data = base + i * kValueSize, sv_size = kValueSize, sv_slot_index = of_nat i\<rparr>) [Suc k..<n])
      (recs[k := (base + k * kValueSize, kValueSize)]) (seen[k := True]) = Some (map (\<lambda>i. (base + i * kValueSize, kValueSize)) [0..<n])"
    using Suc.prems Suc.hyps(2) by (intro Suc.hyps(1)) (auto simp: nth_list_update)
  then show ?case using Suc.prems Suc.hyps(2) by (simp add: u nk)
qed

lemma ExportSlotViews_fresh:
  assumes "Create_pool d pid n (Some b) True = (c, Some p)" "0 < n"
  shows "ExportSlotViews p n = map (\<lambda>i. \<lparr>sv_data = b + i * kValueSize, sv_size = kValueSize, sv_slot_index = of_nat i\<rparr>) [0..<n]"
    "n < 4294967295"
  using assms by (auto simp: Create_pool_def ExportSlotViews_def kInvalidSlot_def split: if_splits)

text \<open>The buffers of a value pool, registered with the ring when the device is opened. The
  registration is refused only by the ring itself; afterwards a write takes the fixed path exactly
  for a whole slot named by its own number, so the buffer the kernel has under that number is the
  one the write names; and every valid buffer an application holds of the pool, identified by the
  pool, takes it.\<close>

theorem uring_fixed_buffers:
  assumes "Create_pool d pid n (Some b) True = (c, Some p0)" "b \<noteq> 0" "0 < n"
    and "ur_ring_initialized u" "\<not> ur_buffers_registered u"
    and "uring_RegisterWriteBuffers E u (ExportSlotViews p0 n) True = (c', u')"
    and "foldl pool_step (p0, []) ops = (p, bs)"
  shows "(c' = kSuccess \<longleftrightarrow> 0 \<le> fst (env_register_buffers E (map (\<lambda>i. (b + i * kValueSize, kValueSize)) [0..<n]) (ur_world u)))
    \<and> (c' = kSuccess \<longrightarrow>
        (\<forall>wb. UseFixedWriteBuffer u' wb \<longleftrightarrow> ub_kind wb = ValueBufferSlot \<and> ub_size wb = kValueSize
            \<and> unat (ub_slot_index wb) < n \<and> ub_data wb = b + unat (ub_slot_index wb) * kValueSize)
      \<and> (\<forall>bk \<in> set bs. vb_valid (fst bk) \<longrightarrow> UseFixedWriteBuffer u' \<lparr>ub_data = vb_data (fst bk), ub_size = kValueSize,
            ub_kind = ValueBufferSlot, ub_slot_index = si_slot_index (Identify p (vb_view (fst bk)))\<rparr>))"
proof -
  let ?recs = "map (\<lambda>i. (b + i * kValueSize, kValueSize)) [0..<n]"
  note X = ExportSlotViews_fresh [OF assms(1,3)]
  have ne: "ExportSlotViews p0 n \<noteq> []" and len: "length (ExportSlotViews p0 n) = n" using assms(3) by (simp_all add: X)
  have rl: "register_loop (ExportSlotViews p0 n) (replicate n (0, 0)) (replicate n False) = Some ?recs"
    unfolding X(1) using X(2) assms(2) by (intro register_loop_pool) simp_all
  obtain ret w where e: "env_register_buffers E ?recs (ur_world u) = (ret, w)" by fastforce
  have u': "c' = (if ret < 0 then kIoBase else kSuccess)" "u' = (if ret < 0 then u\<lparr>ur_world := w\<rparr>
      else u\<lparr>ur_world := w, ur_registered_buffers := ?recs, ur_registered_buffer_count := n, ur_buffers_registered := True\<rparr>)"
    using assms(4-6) ne len rl X(2) e by (auto simp: uring_RegisterWriteBuffers_def)
  have fixed: "UseFixedWriteBuffer u' wb \<longleftrightarrow> ub_kind wb = ValueBufferSlot \<and> ub_size wb = kValueSize
      \<and> unat (ub_slot_index wb) < n \<and> ub_data wb = b + unat (ub_slot_index wb) * kValueSize" if "c' = kSuccess" for wb
    using that assms(2) u' by (auto simp: UseFixedWriteBuffer_def split: if_splits)
  have "UseFixedWriteBuffer u' \<lparr>ub_data = vb_data (fst bk), ub_size = kValueSize, ub_kind = ValueBufferSlot,
      ub_slot_index = si_slot_index (Identify p (vb_view (fst bk)))\<rparr>"
    if s: "c' = kSuccess" and m: "bk \<in> set bs" and v: "vb_valid (fst bk)" for bk
  proof -
    note S = Create_pool_start [OF assms(1-3)]
    have "session_inv (p, bs)" and f: "vp_base p = b" "vp_slot_count p = n"
      using pool_run_inv [of "(p0, [])" ops] S assms(2,7) by auto
    then obtain free where inv: "vp_inv p free (session_live bs)" and ok: "buffer_ok p bk"
      using m by (auto simp: session_inv_def)
    obtain cb :: value_control where cb: "vb_control (fst bk) = Some cb" using v by (auto simp: vb_valid_def split: option.splits)
    have a: "vb_data (fst bk) = b + vc_slot_index cb * kValueSize" using ok cb f by (simp add: buffer_ok_def)
    note L = session_mem [OF m cb]
    have i: "vc_slot_index cb < n" using vp_invD(7) [OF inv] L f(2) by force
    have "vb_view (fst bk) = \<lparr>dv_addr = vp_base p + vc_slot_index cb * kValueSize, dv_size = kValueSize\<rparr>"
      using v a f by (simp add: vb_view_def)
    then have "si_slot_index (Identify p (vb_view (fst bk))) = of_nat (vc_slot_index cb)"
      using Identify_live [OF inv L] f(1) assms(2) by simp
    moreover have "unat (of_nat (vc_slot_index cb) :: u32) = vc_slot_index cb" using i X(2) by (intro unat_slot) simp
    ultimately show ?thesis using i a fixed [OF s] by simp
  qed
  then show ?thesis using fixed e u'(1) by auto
qed

theorem uring_fixed_buffers_witness:
  "\<exists>u'. uring_RegisterWriteBuffers (kring_env False) (kring_backend 2 Strict (\<lambda>_. 7) [])
      (ExportSlotViews (the (snd (Create_pool 3 7 2 (Some 4096) True))) 2) True = (kSuccess, u')
    \<and> UseFixedWriteBuffer u' \<lparr>ub_data = 4096 + kValueSize, ub_size = kValueSize, ub_kind = ValueBufferSlot, ub_slot_index = 1\<rparr>
    \<and> \<not> UseFixedWriteBuffer u' \<lparr>ub_data = 4096 + kValueSize, ub_size = kValueSize, ub_kind = ValueBufferSlot, ub_slot_index = 0\<rparr>"
proof -
  let ?u = "kring_backend 2 Strict (\<lambda>_. 7) []" and ?p = "the (snd (Create_pool 3 7 2 (Some 4096) True))"
  obtain c' u' where r: "uring_RegisterWriteBuffers (kring_env False) ?u (ExportSlotViews ?p 2) True = (c', u')" by fastforce
  have cr: "Create_pool 3 7 2 (Some 4096) True = (kSuccess, Some ?p)" by (simp add: pool_example)
  have u: "ur_ring_initialized ?u" "\<not> ur_buffers_registered ?u" by (simp_all add: kring_backend_def)
  have f: "foldl pool_step (?p, []) [] = (?p, [])" by simp
  note T = uring_fixed_buffers [OF cr _ _ u r f]
  have "c' = kSuccess" using T by simp
  then show ?thesis using T r by (simp add: kValueSize_def)
qed

end
