(* ===== verification/Cabe_WalStrict.thy ===== *)
theory Cabe_WalStrict
  imports Cabe_WalRestart
begin

text \<open>
  The log at a synchronous level, between operations: what is written is durable, and the ring
  holds no frame but those the log has put there. Writing a record keeps it so, unless the write is
  reported as failed.
\<close>

definition synced_log :: "wal \<Rightarrow> wal_entry list \<Rightarrow> bool" where
  "synced_log w log \<longleftrightarrow> w_n_frames w < 32 \<and> rd_durable (w_dev w) = rd_contents (w_dev w)
     \<and> honest_ring (rd_contents (w_dev w)) w log"

lemma synced_crash: "synced_log w log \<Longrightarrow> crash_image (w_dev w) im \<Longrightarrow> im = rd_contents (w_dev w)"
  by (auto simp: synced_log_def crash_image_def fun_eq_iff)

lemma honest_cong:
  "slot_off w' = slot_off w \<Longrightarrow> slots w' = slots w \<Longrightarrow> honest_ring im w' log = honest_ring im w log"
  by (simp add: honest_ring_def slot_bytes_def)

lemma honest_append: "honest_ring im w log \<Longrightarrow> honest_ring im w (log @ xs)"
  unfolding honest_ring_def by (metis fb_append length_append trans_less_add1)

lemma synced_cong:
  assumes "w_ring_start w' = w_ring_start w" "w_ring_end w' = w_ring_end w" "w_dev w' = w_dev w"
    "w_n_frames w' = w_n_frames w"
  shows "synced_log w' log = synced_log w log"
  using slot_off_cong [OF assms(1,2)] honest_cong [of w' w] assms
  by (simp add: synced_log_def slots_def ring_bytes_def)

text \<open>Writing the window's block: its slots hold the window's frames and zeros.\<close>

lemma span_block:
  assumes win: "wal_win w log h" and n: "0 < w_n_frames w" "w_n_frames w \<le> 32"
  shows "AlignUp (used_bytes w) kWalBlockSize = 4096"
    "take 4096 (buffer w) = frames log (written w log) (length log) @ zeros (4096 - 128 * w_n_frames w)"
proof -
  note d = wal_winD [OF win] and sp = span_size [OF win]
  have u: "used_bytes w = 128 * w_n_frames w" by (simp add: used_bytes_def kWalFrameSize_def)
  have "AlignUp (used_bytes w) kWalBlockSize \<le> 4096"
    by (rule AlignUp_least) (use u n in \<open>simp_all add: kWalBlockSize_def\<close>)
  moreover have "4096 dvd AlignUp (used_bytes w) kWalBlockSize" using AlignUp_dvd [of kWalBlockSize "used_bytes w"] by (simp add: kWalBlockSize_def)
  ultimately show "AlignUp (used_bytes w) kWalBlockSize = 4096"
    using sp(1) u n by (auto dest: dvd_imp_le)
  have b: "4096 \<le> w_buf_size w" by (rule wal_geoD(6) [OF d(1)])
  have len: "length (frames log (written w log) (length log)) = 128 * w_n_frames w"
    using d(2,16,17) u by simp
  show "take 4096 (buffer w) = frames log (written w log) (length log) @ zeros (4096 - 128 * w_n_frames w)"
    using d(15) b len n u by (simp add: buffer_def min_absorb1)
qed

lemma honest_block:
  assumes win: "wal_win w log h" and n: "0 < w_n_frames w" "w_n_frames w \<le> 32" and hon: "honest_ring im w log"
  shows "honest_ring (kwrite im (w_cur_off w) (take 4096 (buffer w))) w log"
  unfolding honest_ring_def
proof (intro allI impI)
  fix k
  note d = wal_winD [OF win]
  let ?b = "take 4096 (buffer w)" and ?wr = "written w log" and ?c = "written w log mod slots w"
  let ?im = "kwrite im (w_cur_off w) ?b"
  assume k: "k < slots w" and fr: "is_frame (slot_bytes ?im w k)"
  have cur: "w_cur_off w = w_ring_start w + 128 * ?c" using d(10) slot_off_mod [OF d(1)] by simp
  have ok: "slot_off w k = w_ring_start w + 128 * k" by (rule slot_off_lt [OF d(1) k])
  have lg: "length log = ?wr + w_n_frames w" using d(5) by (simp add: written_def)
  have lenb: "length ?b = 4096"
    unfolding span_block(2) [OF win n] using d(2,5) lg n(2) by simp
  show "\<exists>j < length log. slot_off w j = slot_off w k \<and> slot_bytes ?im w k = fb log j"
  proof (cases "?c \<le> k \<and> k < ?c + 32")
    case False
    then have "128 * k + 128 \<le> 128 * ?c \<or> 128 * ?c + 4096 \<le> 128 * k" by linarith
    then have "slot_bytes ?im w k = slot_bytes im w k"
      using lenb by (simp add: slot_bytes_def ok cur kread_kwrite_disjoint)
    then show ?thesis using hon k fr by (simp add: honest_ring_def)
  next
    case True
    define i where "i = k - ?c"
    have i: "k = ?c + i" "i < 32" unfolding i_def using True by linarith+
    have sb: "slot_bytes ?im w k = peek (128 * i) 128 ?b"
      unfolding slot_bytes_def ok cur using lenb i by (subst kread_kwrite_inside) simp_all
    show ?thesis
    proof (cases "i < w_n_frames w")
      case True
      obtain q where q: "?wr = 32 * q" using d(6) by (rule dvdE)
      have "(?wr + i) div 32 = q" "(?wr + i) mod 32 = i" using q i(2) by simp_all
      then have "slot_off w (?wr + i) = w_cur_off w + 128 * i"
        using slot_block(1) [OF d(1), of "?wr + i"] d(10) q by simp
      moreover have "peek (128 * (?wr + i - ?wr)) 128 ?b = fb log (?wr + i)"
        unfolding span_block(2) [OF win n] by (rule peek_frames [OF d(2)]) (use lg True in auto)
      ultimately show ?thesis
        using lg True sb ok cur i by (intro exI [of _ "?wr + i"]) simp
    next
      case False
      have "peek (128 * i) 128 ?b = zeros 128"
      proof (rule nth_equalityI)
        show l: "length (peek (128 * i) 128 ?b) = length (zeros 128)" using lenb i by (simp add: peek_def)
        fix x
        assume "x < length (peek (128 * i) 128 ?b)"
        then have x: "x < 128" using l by simp
        have "128 * w_n_frames w \<le> 128 * i + x" "128 * i + x < 4096" using False i(2) x by linarith+
        then have "?b ! (128 * i + x) = 0"
          unfolding span_block(2) [OF win n] using d(2,5) lg by (simp add: nth_append)
        then show "peek (128 * i) 128 ?b ! x = zeros 128 ! x"
          using x lenb i(2) by (simp add: peek_def)
      qed
      then show ?thesis using fr sb not_frame_zeros by simp
    qed
  qed
qed

text \<open>One record at a synchronous level: the window has room, or the log is full.\<close>

lemma WriteWal_synced:
  assumes inv: "wal_inv w log h (length log)" and sy: "sync_level w" and S: "synced_log w log"
    and len: "length log + 2 < 2 ^ 64" and run: "WriteWal w e = (c, w')"
  shows "c = kSuccess \<Longrightarrow> synced_log w' (log @ [e])" "c \<in> {kWalFull, kWalKeyTooLong} \<Longrightarrow> synced_log w' log"
proof -
  have win: "wal_win w log h" using inv by (simp add: wal_inv_def)
  have buf: "w_buf w \<noteq> None" using wal_winD(15) [OF win] by simp
  have n: "w_n_frames w < 32" and hon: "honest_ring (rd_contents (w_dev w)) w log" using S by (simp_all add: synced_log_def)
  have S1: "synced_log (reopen w) log" using S synced_cong [of "reopen w" w] by (simp add: reopen_def)
  have "(c = kSuccess \<longrightarrow> synced_log w' (log @ [e])) \<and> (c \<in> {kWalFull, kWalKeyTooLong} \<longrightarrow> synced_log w' log)"
  proof (cases "kWalKeyMax < length (e_key e)")
    case True
    then have "c = kWalKeyTooLong" "w' = w" using run by (simp_all add: WriteWal_def)
    then show ?thesis using S by simp
  next
    case key: False
    then have ok: "entry_ok e" by (simp add: entry_ok_def)
    obtain rs w2 where pb: "ProcessBatch [e] w = (rs, w2)" by fastforce
    then have c: "c = hd rs" "w' = w2" using run key buf sy by (simp_all add: WriteWal_def)
    let ?w1 = "reopen w"
    note R = reopen_inv [OF inv]
    have win1: "wal_win ?w1 log h" using R(1) by (simp add: wal_inv_def)
    show ?thesis
    proof (cases "w_window_bytes ?w1 = 0")
      case True
      then have "rs = [kWalFull]" "w2 = ?w1" using pb by (simp_all add: ProcessBatch_def Let_def)
      then show ?thesis using c S1 by simp
    next
      case nz: False
      have u: "used_bytes ?w1 = 128 * w_n_frames w" using R(5) by (simp add: used_bytes_def kWalFrameSize_def)
      have "4096 \<le> w_window_bytes ?w1" using wal_winD(12) [OF win1] nz by (auto dest: dvd_imp_le)
      then have room: "used_bytes ?w1 < w_window_bytes ?w1" using u n by simp
      obtain c3 w3 where ap: "Append ?w1 e = (c3, w3)" by fastforce
      note A = Append_win [OF win1 room ok len ap]
      have n3: "w_n_frames w3 = w_n_frames w + 1" using A(9) u by (simp add: used_bytes_def kWalFrameSize_def)
      have bl: "batch_loop [e] False False w = (kSuccess, [], False, True, w3)"
        using nz room ap A(1) by (simp add: Let_def)
      note PB = pb [unfolded ProcessBatch_def bl prod.case]
      have dv3: "w_dev w3 = w_dev w" using A(3) R(3) by simp
      have so3: "slot_off w3 = slot_off w" "slots w3 = slots w"
        using slot_off_cong [of w3 w] A(7,8) by (simp_all add: reopen_def slots_def ring_bytes_def)
      have hon3: "honest_ring (rd_contents (w_dev w)) w3 (log @ [e])"
        using honest_cong [OF so3] honest_append [OF hon] by simp
      have np: "0 < w_n_frames w3" "w_n_frames w3 \<le> 32" using n3 n by simp_all
      obtain c4 d4 where wr: "RawDevice_WriteAt (w_dev w) (w_cur_off w3) (take 4096 (buffer w3)) = (c4, d4)" by fastforce
      have sp: "WriteWindowSpan w3 = (if c4 \<noteq> kSuccess then kWalWriteFailed else kSuccess, w3\<lparr>w_dev := d4\<rparr>)"
        using wr span_block(1) [OF A(2) np] dv3 by (simp add: WriteWindowSpan_def Let_def)
      show ?thesis
      proof (cases "c4 = kSuccess")
        case False
        then have "WriteOutWindow w3 = (kWalWriteFailed, w3\<lparr>w_dev := d4\<rparr>)" using sp np by (simp add: WriteOutWindow_def)
        then have "rs = [kWalWriteFailed]" using PB by (simp add: Let_def)
        then show ?thesis using c by simp
      next
        case w4: True
        let ?w5 = "AdvanceAfterWrite (w3\<lparr>w_dev := d4\<rparr>)"
        have wo: "WriteOutWindow w3 = (kSuccess, ?w5)" using sp np w4 by (simp add: WriteOutWindow_def)
        obtain c6 d6 where sc: "RawDevice_Sync (w_dev ?w5) = (c6, d6)" by fastforce
        have rs: "rs = [if c6 \<noteq> kSuccess then kWalWriteFailed else kSuccess]" "w2 = ?w5\<lparr>w_dev := d6\<rparr>"
          using PB sc by (auto simp: wo Let_def wal_Sync_def)
        have "synced_log (?w5\<lparr>w_dev := d6\<rparr>) (log @ [e])" if c6: "c6 = kSuccess"
        proof -
          have d5: "w_dev ?w5 = d4" by (simp add: AdvanceAfterWrite_def Let_def)
          obtain j where j: "rd_contents d4 = kwrite (rd_contents (w_dev w)) (w_cur_off w3) (take j (take 4096 (buffer w3)))"
            "c4 = kSuccess \<longrightarrow> j = length (take 4096 (buffer w3))"
            using WriteAt_prefix [OF wr] by blast
          have "take j (take 4096 (buffer w3)) = take 4096 (buffer w3)" by (rule take_all) (use j(2) w4 in simp)
          then have "rd_contents d4 = kwrite (rd_contents (w_dev w)) (w_cur_off w3) (take 4096 (buffer w3))"
            using j(1) by simp
          then have "honest_ring (rd_contents d4) w3 (log @ [e])" using honest_block [OF A(2) np hon3] by simp
          moreover have "rd_contents d6 = rd_contents d4" "rd_durable d6 = rd_contents d6"
            using raw.sync_contents [OF sc] raw.sync_durable [OF sc] c6 d5 by simp_all
          moreover have "w_n_frames (?w5\<lparr>w_dev := d6\<rparr>) < 32"
            by (simp add: AdvanceAfterWrite_def Let_def kWalBlockSize_def kWalFrameSize_def less_mult_imp_div_less)
          moreover have geo: "w_ring_start (?w5\<lparr>w_dev := d6\<rparr>) = w_ring_start w3" "w_ring_end (?w5\<lparr>w_dev := d6\<rparr>) = w_ring_end w3"
            by (simp_all add: AdvanceAfterWrite_def Let_def)
          have so5: "slot_off (?w5\<lparr>w_dev := d6\<rparr>) = slot_off w3" "slots (?w5\<lparr>w_dev := d6\<rparr>) = slots w3"
            by (rule slot_off_cong [OF geo]) (simp only: geo slots_def ring_bytes_def)
          ultimately show ?thesis unfolding synced_log_def honest_cong [OF so5] by simp
        qed
        then show ?thesis using c rs by (auto split: if_splits)
      qed
    qed
  qed
  then show "c = kSuccess \<Longrightarrow> synced_log w' (log @ [e])" "c \<in> {kWalFull, kWalKeyTooLong} \<Longrightarrow> synced_log w' log"
    by blast+
qed

end
