(* ===== verification/Cabe_DeviceLog.thy ===== *)
theory Cabe_DeviceLog
  imports Cabe_ReactorTheorems Cabe_Engine Cabe_WalStrict
begin

text \<open>
  What the log and the snapshot of a device say about its index: replaying the snapshot's entries
  and then the log behind it gives the index. The operations of the reactor keep it so at the
  strict level, where every acknowledged record is durable.
\<close>

section \<open>Replaying\<close>

text \<open>The snapshot's entries, then the records behind it, lead to an index that is the map \<open>mp\<close>.\<close>

definition replays :: "super_block \<Rightarrow> entries \<Rightarrow> wal_entry list \<Rightarrow> (bytes \<rightharpoonup> value_meta) \<Rightarrow> bool" where
  "replays sb i es mp \<longleftrightarrow>
     (\<exists>m1 m2. ForEach i (ApplyRecoveredEntry sb) index_empty = (kSuccess, m1)
        \<and> replay_log (ApplyWalEntry sb) 0 es m1 = (kSuccess, m2) \<and> index_wf m2 \<and> index_map m2 = mp)"

definition index_valid :: "super_block \<Rightarrow> hash_index \<Rightarrow> bool" where
  "index_valid sb m \<longleftrightarrow> (\<forall>k e. index_map m k = Some e \<longrightarrow> ValidateRecoveredMeta sb k (block e) True)"

lemma ApplyWalEntry_seq: "ApplyWalEntry sb e q m = ApplyWalEntry sb e q' m"
  by (simp add: ApplyWalEntry_def)

lemma replay_log_shift: "replay_log (ApplyWalEntry sb) n es m = replay_log (ApplyWalEntry sb) n' es m"
proof (induction es arbitrary: n n' m)
  case (Cons e es)
  have "ApplyWalEntry sb e (of_nat (n + 1)) m = ApplyWalEntry sb e (of_nat (n' + 1)) m" by (rule ApplyWalEntry_seq)
  moreover have "replay_log (ApplyWalEntry sb) (n + 1) es x = replay_log (ApplyWalEntry sb) (n' + 1) es x" for x
    by (rule Cons.IH)
  ultimately show ?case by (simp del: of_nat_add of_nat_Suc split: prod.splits)
qed simp

lemma replay_log_append: "replay_log fn n es st = (kSuccess, st1) \<Longrightarrow>
  replay_log fn n (es @ es') st = replay_log fn (n + length es) es' st1"
  by (induction es arbitrary: n st) (auto split: prod.splits if_splits)

text \<open>A record that takes any index with the map \<open>mp\<close> to one with the map \<open>mp'\<close>.\<close>

definition record_takes :: "super_block \<Rightarrow> wal_entry \<Rightarrow> (bytes \<rightharpoonup> value_meta) \<Rightarrow> (bytes \<rightharpoonup> value_meta) \<Rightarrow> bool" where
  "record_takes sb e mp mp' \<longleftrightarrow> (\<forall>m q. index_wf m \<and> index_map m = mp \<longrightarrow>
     (\<exists>m'. ApplyWalEntry sb e q m = (kSuccess, m') \<and> index_wf m' \<and> index_map m' = mp'))"

lemma replays_record:
  assumes "replays sb i es mp" "record_takes sb e mp mp'"
  shows "replays sb i (es @ [e]) mp'"
proof -
  obtain m1 m2 where m: "ForEach i (ApplyRecoveredEntry sb) index_empty = (kSuccess, m1)"
    "replay_log (ApplyWalEntry sb) 0 es m1 = (kSuccess, m2)" "index_wf m2" "index_map m2 = mp"
    using assms(1) by (auto simp: replays_def)
  obtain m3 where t: "ApplyWalEntry sb e (of_nat (0 + length es + 1)) m2 = (kSuccess, m3)" "index_wf m3" "index_map m3 = mp'"
    using assms(2) m(3,4) unfolding record_takes_def by blast
  have "replay_log (ApplyWalEntry sb) 0 (es @ [e]) m1 = (kSuccess, m3)"
    unfolding replay_log_append [OF m(2)] using t(1) by (simp del: of_nat_add of_nat_Suc)
  then show ?thesis using m(1) t(2,3) by (auto simp: replays_def)
qed

lemma put_takes:
  assumes "ValidateRecoveredMeta sb (op_key op) b True"
  shows "record_takes sb (put_entry op b now) mp (mp(op_key op \<mapsto> put_meta op b now))"
  using assms idx.insert_law by (auto simp: record_takes_def ApplyWalEntry_def put_entry_def put_meta_def)

lemma delete_takes:
  assumes "mp (op_key op) = Some e" "ValidateRecoveredMeta sb (op_key op) b True"
  shows "record_takes sb (delete_entry op now) mp (mp(op_key op := None))"
proof -
  have v: "ValidateRecoveredMeta sb (op_key op) (BlockId 0) False"
    using assms(2) by (auto simp: ValidateRecoveredMeta_def split: if_splits)
  have "\<exists>m'. ApplyWalEntry sb (delete_entry op now) q m = (kSuccess, m') \<and> index_wf m' \<and> index_map m' = mp(op_key op := None)"
    if w: "index_wf m" and mp: "index_map m = mp" for m q
  proof -
    obtain m' where "Delete m (op_key op) = (kSuccess, m')" "index_wf m'" "index_map m' = mp(op_key op := None)"
      using idx.delete_law [OF w, of "op_key op"] mp assms(1) by auto
    then show ?thesis using v by (simp add: ApplyWalEntry_def delete_entry_def)
  qed
  then show ?thesis by (auto simp: record_takes_def)
qed

text \<open>A snapshot of an index replays to it.\<close>

lemma replay_entries:
  "distinct (map fst (m0 @ m)) \<Longrightarrow> \<forall>(k, e) \<in> set m. ValidateRecoveredMeta sb k (block e) True \<Longrightarrow>
   ForEach m (ApplyRecoveredEntry sb) m0 = (kSuccess, m0 @ m)"
proof (induction m arbitrary: m0)
  case (Cons x m)
  obtain k e where x: "x = (k, e)" by fastforce
  have "AList.update k e m0 = m0 @ [(k, e)]" if "k \<notin> set (map fst m0)" using that by (induction m0) auto
  then have "Insert m0 k e = (kSuccess, m0 @ [x])" using Cons.prems(1) x by (simp add: Insert_def)
  then show ?case using Cons.IH [of "m0 @ [x]"] Cons.prems x by (simp add: ApplyRecoveredEntry_def)
qed simp

lemma replays_snapshot:
  assumes "index_wf m" "index_valid sb m"
  shows "replays sb m [] (index_map m)"
proof -
  have "\<forall>(k, e) \<in> set m. ValidateRecoveredMeta sb k (block e) True"
    using assms by (auto simp: index_valid_def index_map_def index_wf_def)
  then have "ForEach m (ApplyRecoveredEntry sb) [] = (kSuccess, [] @ m)"
    using assms(1) by (intro replay_entries) (simp add: index_wf_def)
  then show ?thesis using assms(1) by (simp add: replays_def index_empty_def)
qed

section \<open>The invariant\<close>

text \<open>The log of a device at the strict level: every record is durable, the ring holds no other frames,
  the snapshot on the device is complete and covers at least what the log has reclaimed, and the two
  replay to the map \<open>mp\<close>. The snapshot device answers, and has room for an index of every block.\<close>

definition rx_logged :: "reactor \<Rightarrow> wal_entry list \<Rightarrow> nat \<Rightarrow> nat \<Rightarrow> entries \<Rightarrow> (bytes \<rightharpoonup> value_meta) \<Rightarrow> bool" where
  "rx_logged r log h cov idx mp \<longleftrightarrow>
     w_level (dc_wal r) = Strict \<and> wal_inv (dc_wal r) log h (length log) \<and> synced_log (dc_wal r) log
     \<and> snap_inv (dc_snapshot r) cov idx {} \<and> snap_ready (dc_snapshot r)
     \<and> 4096 + 128 * rx_blocks r \<le> sn_slot_size (dc_snapshot r)
     \<and> h \<le> cov \<and> cov \<le> length log \<and> replays (dc_super_block r) idx (drop cov log) mp"

text \<open>The index as the reactor holds it.\<close>

definition rx_indexed :: "reactor \<Rightarrow> bool" where
  "rx_indexed r \<longleftrightarrow> index_wf (dc_index r) \<and> index_valid (dc_super_block r) (dc_index r) \<and> length (dc_index r) \<le> rx_blocks r"

lemma rx_indexed_core: "same_core r r' \<Longrightarrow> rx_indexed r' = rx_indexed r"
  by (simp add: rx_indexed_def same_core_def rx_blocks_def)

lemma rx_logged_cong:
  assumes "dc_wal r' = dc_wal r" "dc_snapshot r' = dc_snapshot r" "dc_super_block r' = dc_super_block r"
  shows "rx_logged r' = rx_logged r"
  using assms by (simp add: rx_logged_def rx_blocks_def fun_eq_iff)

lemma snap_trigger [simp]:
  "snap_inv (NoteTriggerAttempt s q) = snap_inv s" "snap_ready (NoteTriggerAttempt s q) = snap_ready s"
  "sn_slot_size (NoteTriggerAttempt s q) = sn_slot_size s" "sn_next_gen (NoteTriggerAttempt s q) = sn_next_gen s"
proof -
  have v: "snap_image (NoteTriggerAttempt s q) = snap_image s" "snap_geo (NoteTriggerAttempt s q) = snap_geo s"
    by (rule view_cong; simp add: NoteTriggerAttempt_def)+
  show "snap_inv (NoteTriggerAttempt s q) = snap_inv s" by (intro ext) (simp add: snap_inv_def v, simp add: NoteTriggerAttempt_def)
  show "snap_ready (NoteTriggerAttempt s q) = snap_ready s" by (simp add: snap_ready_def v, simp add: NoteTriggerAttempt_def)
qed (simp_all add: NoteTriggerAttempt_def)

lemma last_seq_log: "wal_inv w log h m \<Longrightarrow> last_seq w = length log \<and> length log < 2 ^ 64"
  by (simp add: wal_inv_def wal_win_def last_seq_def)

lemma index_valid_keys: "index_wf m \<Longrightarrow> index_valid sb m \<Longrightarrow> keys_ok m"
  by (fastforce simp: keys_ok_def index_valid_def index_map_def index_wf_def ValidateRecoveredMeta_def
      kWalKeyMax_def kSnapshotKeyMax_def split: if_splits)

lemma DoSnapshot_logged:
  assumes L: "rx_logged r log h cov idx (index_map (dc_index r))" and I: "rx_indexed r"
    and gen: "sn_next_gen (dc_snapshot r) + 1 < 2 ^ 64" and run: "DoSnapshot r = (c, r')"
  shows "c = kSuccess" "rx_logged r' log (written (dc_wal r) log) (length log) (dc_index r) (index_map (dc_index r))"
    "sn_next_gen (dc_snapshot r') = sn_next_gen (dc_snapshot r) + 1"
proof -
  note l = L [unfolded rx_logged_def] and i = I [unfolded rx_indexed_def]
  define s0 where "s0 = NoteTriggerAttempt (dc_snapshot r) (length log)"
  have s0: "snap_inv s0 cov idx {}" "snap_ready s0" "sn_slot_size s0 = sn_slot_size (dc_snapshot r)"
    "sn_next_gen s0 = sn_next_gen (dc_snapshot r)" using l by (simp_all add: s0_def)
  have fl: "Flush (dc_wal r) = (kSuccess, dc_wal r)"
    using l by (simp add: Flush_def sync_level_def IsWalSyncLevel_def)
  have inv: "wal_inv (dc_wal r) log h (length log)" using l by simp
  note q = last_seq_log [OF inv]
  obtain now r2 where nw: "GetWallTimeNs (r\<lparr>dc_snapshot := s0, dc_wal := dc_wal r\<rparr>) = (now, r2)" by fastforce
  have r2: "dc_snapshot r2 = s0" "dc_index r2 = dc_index r" "dc_wal r2 = dc_wal r" "dc_super_block r2 = dc_super_block r"
    using nw by (auto simp: GetWallTimeNs_def)
  have room: "4096 + 128 * length (dc_index r) \<le> sn_slot_size s0" using l i s0(3) by simp
  obtain s' where w: "Snapshot_Write s0 (length log) (ForEach (dc_index r)) now = (kSuccess, s')" "snap_ready s'"
    using Write_healthy [OF s0(2) index_valid_keys room, of "dc_super_block r" "length log" now] i by auto
  have g0: "snap_geo s0" using s0(1) by (simp add: snap_inv_def)
  have cv: "length log < 2 ^ 64" using q by simp
  have n0: "sn_next_gen s0 < 2 ^ 64" "sn_next_gen s0 + 1 < 2 ^ 64" using gen s0(4) by simp_all
  have inv': "snap_inv s' (length log) (dc_index r) {}"
    using Write_step [OF s0(1) cv n0(2) w(1)] by simp
  have f: "sn_slot_size s' = sn_slot_size s0" "sn_next_gen s' = sn_next_gen s0 + 1"
    using Write_effect [OF g0 cv n0(1) w(1)] n0(2) by auto
  have win: "wal_win (dc_wal r) log h" using inv by (simp add: wal_inv_def)
  note d = wal_winD [OF win]
  have rec: "ReclaimUpTo (dc_wal r) (reclaim_boundary (dc_wal r)) = (kSuccess, dc_wal r\<lparr>w_head_off := slot_off (dc_wal r) (written (dc_wal r) log)\<rparr>)"
    "wal_inv (dc_wal r\<lparr>w_head_off := slot_off (dc_wal r) (written (dc_wal r) log)\<rparr>) log (written (dc_wal r) log) (length log)"
    using reclaim_slot [OF inv d(8) order_refl d(6)] d(10) by (simp_all add: reclaim_boundary_def)
  have "(c, r') = (kSuccess, r2\<lparr>dc_snapshot := s', dc_wal := dc_wal r\<lparr>w_head_off := slot_off (dc_wal r) (written (dc_wal r) log)\<rparr>\<rparr>)"
    using run q nw w(1) rec(1) r2 by (simp add: DoSnapshot_def Let_def fl s0_def [symmetric])
  moreover have "replays (dc_super_block r) (dc_index r) [] (index_map (dc_index r))"
    using replays_snapshot i by blast
  moreover have "written (dc_wal r) log \<le> length log" by (simp add: written_def)
  moreover have "synced_log (dc_wal r\<lparr>w_head_off := slot_off (dc_wal r) (written (dc_wal r) log)\<rparr>) log"
    using l synced_cong [of "dc_wal r\<lparr>w_head_off := slot_off (dc_wal r) (written (dc_wal r) log)\<rparr>" "dc_wal r"] by simp
  ultimately show "c = kSuccess" "rx_logged r' log (written (dc_wal r) log) (length log) (dc_index r) (index_map (dc_index r))"
    "sn_next_gen (dc_snapshot r') = sn_next_gen (dc_snapshot r) + 1"
    using l inv' w(2) rec(2) f s0(3,4) r2(4) by (simp_all add: rx_logged_def rx_blocks_def)
qed

lemma Maybe_logged:
  assumes L: "rx_logged r log h cov idx (index_map (dc_index r))" and I: "rx_indexed r"
    and gen: "sn_next_gen (dc_snapshot r) + 1 < 2 ^ 64"
  shows "\<exists>h cov idx. rx_logged (MaybeRequestSnapshot r) log h cov idx (index_map (dc_index r))"
    "sn_next_gen (dc_snapshot (MaybeRequestSnapshot r)) \<le> sn_next_gen (dc_snapshot r) + 1"
proof -
  obtain c r' where d: "DoSnapshot r = (c, r')" by fastforce
  note D = DoSnapshot_logged [OF L I gen d]
  show "\<exists>h cov idx. rx_logged (MaybeRequestSnapshot r) log h cov idx (index_map (dc_index r))"
    "sn_next_gen (dc_snapshot (MaybeRequestSnapshot r)) \<le> sn_next_gen (dc_snapshot r) + 1"
    using D L d by (auto simp: MaybeRequestSnapshot_def RequestSnapshot_def Let_def)
qed

section \<open>Records\<close>

lemma WriteWal_logged:
  assumes L: "rx_logged r log h cov idx mp" and takes: "record_takes (dc_super_block r) e mp mp'"
    and len: "length log + 2 < 2 ^ 64" and run: "WriteWal (dc_wal r) e = (c, w)"
  shows "c = kSuccess \<Longrightarrow> rx_logged (r\<lparr>dc_wal := w\<rparr>) (log @ [e]) h cov idx mp' \<and> length (e_key e) \<le> kWalKeyMax"
    "c \<in> {kWalFull, kWalKeyTooLong} \<Longrightarrow> rx_logged (r\<lparr>dc_wal := w\<rparr>) log h cov idx mp"
proof -
  note l = L [unfolded rx_logged_def]
  have inv: "wal_inv (dc_wal r) log h (length log)" using l by simp
  have sy: "sync_level (dc_wal r)" using l by (simp add: sync_level_def IsWalSyncLevel_def)
  obtain log' where W: "w_level w = w_level (dc_wal r)" "wal_inv w log' h (length log)"
    "c = kSuccess \<longrightarrow> log' = log @ [e]" "c = kSuccess \<longrightarrow> wal_inv w log' h (length log')"
    "c \<in> {kWalFull, kWalKeyTooLong} \<longrightarrow> log' = log" "c = kWalKeyTooLong \<longleftrightarrow> kWalKeyMax < length (e_key e)"
    using WriteWal_inv [OF inv len run] sy by blast
  have sn: "synced_log (dc_wal r) log" using l by simp
  note Y = WriteWal_synced [OF inv sy sn len run]
  have fr: "rx_blocks (r\<lparr>dc_wal := w\<rparr>) = rx_blocks r" by (simp add: rx_blocks_def)
  show "rx_logged (r\<lparr>dc_wal := w\<rparr>) (log @ [e]) h cov idx mp' \<and> length (e_key e) \<le> kWalKeyMax" if ok: "c = kSuccess"
  proof -
    have "replays (dc_super_block r) idx (drop cov log @ [e]) mp'" using replays_record l takes by blast
    then have "replays (dc_super_block r) idx (drop cov (log @ [e])) mp'" using l by simp
    moreover have "\<not> kWalKeyMax < length (e_key e)" using W(6) ok by simp
    ultimately show ?thesis using l W ok fr Y(1) by (simp add: rx_logged_def)
  qed
  show "rx_logged (r\<lparr>dc_wal := w\<rparr>) log h cov idx mp" if "c \<in> {kWalFull, kWalKeyTooLong}"
  proof -
    have "log' = log" using W(5) that by blast
    then show ?thesis using l W(1,2) fr Y(2) [OF that] by (simp add: rx_logged_def)
  qed
qed

lemma WriteWalRescuing_logged:
  assumes L: "rx_logged r log h cov idx (index_map (dc_index r))" and I: "rx_indexed r"
    and takes: "record_takes (dc_super_block r) e (index_map (dc_index r)) mp'"
    and len: "length log + 2 < 2 ^ 64" and gen: "sn_next_gen (dc_snapshot r) + 1 < 2 ^ 64"
    and run: "WriteWalRescuing r e = (c, r')"
  shows "c = kSuccess \<Longrightarrow> (\<exists>h cov idx. rx_logged r' (log @ [e]) h cov idx mp') \<and> length (e_key e) \<le> kWalKeyMax"
    "c \<noteq> kSuccess \<Longrightarrow> c \<noteq> kWalWriteFailed \<Longrightarrow> \<exists>h cov idx. rx_logged r' log h cov idx (index_map (dc_index r))"
    "sn_next_gen (dc_snapshot r') \<le> sn_next_gen (dc_snapshot r) + 1"
proof -
  obtain c1 w1 where w1: "WriteWal (dc_wal r) e = (c1, w1)" by fastforce
  note W1 = WriteWal_logged [OF L takes len w1] and R1 = WriteWal_rc [OF w1]
  have *: "(c = kSuccess \<longrightarrow> (\<exists>h cov idx. rx_logged r' (log @ [e]) h cov idx mp') \<and> length (e_key e) \<le> kWalKeyMax)
    \<and> (c \<noteq> kSuccess \<and> c \<noteq> kWalWriteFailed \<longrightarrow> (\<exists>h cov idx. rx_logged r' log h cov idx (index_map (dc_index r))))
    \<and> sn_next_gen (dc_snapshot r') \<le> sn_next_gen (dc_snapshot r) + 1"
  proof (cases "c1 = kWalFull")
    case False
    then have "c = c1" "r' = r\<lparr>dc_wal := w1\<rparr>" using run w1 by (simp_all add: WriteWalRescuing_def)
    then show ?thesis using W1 R1 False by auto
  next
    case True
    let ?r1 = "r\<lparr>dc_wal := w1\<rparr>"
    have L1: "rx_logged ?r1 log h cov idx (index_map (dc_index ?r1))" using W1(2) True by simp
    have I1: "rx_indexed ?r1" using I by (simp add: rx_indexed_def rx_blocks_def)
    obtain c2 r2 where d: "DoSnapshot ?r1 = (c2, r2)" by fastforce
    have g1: "sn_next_gen (dc_snapshot ?r1) + 1 < 2 ^ 64" using gen by simp
    note D = DoSnapshot_logged [OF L1 I1 g1 d] and core = DoSnapshot_core [OF d]
    have ix: "dc_index r2 = dc_index r" "dc_super_block r2 = dc_super_block r" using core by (simp_all add: same_core_def)
    obtain c3 w3 where w3: "WriteWal (dc_wal r2) e = (c3, w3)" by fastforce
    have t2: "record_takes (dc_super_block r2) e (index_map (dc_index ?r1)) mp'" using takes ix by simp
    note W3 = WriteWal_logged [OF D(2) t2 len w3] and R3 = WriteWal_rc [OF w3]
    have "c = c3" "r' = r2\<lparr>dc_wal := w3\<rparr>" using run w1 True d D(1) w3 by (simp_all add: WriteWalRescuing_def Let_def)
    then show ?thesis using W3 R3 D(3) by auto
  qed
  show "c = kSuccess \<Longrightarrow> (\<exists>h cov idx. rx_logged r' (log @ [e]) h cov idx mp') \<and> length (e_key e) \<le> kWalKeyMax"
    "c \<noteq> kSuccess \<Longrightarrow> c \<noteq> kWalWriteFailed \<Longrightarrow> \<exists>h cov idx. rx_logged r' log h cov idx (index_map (dc_index r))"
    "sn_next_gen (dc_snapshot r') \<le> sn_next_gen (dc_snapshot r) + 1"
    using * by blast+
qed

section \<open>The invariant of an open device\<close>

definition rx_stable :: "reactor \<Rightarrow> bool" where
  "rx_stable r \<longleftrightarrow> (\<forall>b \<in> live_blocks (dc_index r).
     io_stable (dc_io r) (unat (block_idx b)) = io_content (dc_io r) (unat (block_idx b)))"

text \<open>A device at the strict level, with room in its counters for \<open>n\<close> more operations: its map is
  \<open>kv\<close>, and the map is on the media.\<close>

definition rx_safe :: "nat \<Rightarrow> reactor \<Rightarrow> kv \<Rightarrow> bool" where
  "rx_safe n r kv \<longleftrightarrow> rx_holds r kv \<and> index_valid (dc_super_block r) (dc_index r) \<and> rx_stable r
     \<and> io_level (dc_io r) = Some Strict
     \<and> (\<exists>log h cov idx. rx_logged r log h cov idx (index_map (dc_index r)) \<and> length log + n + 2 ^ 32 < 2 ^ 64)
     \<and> sn_next_gen (dc_snapshot r) + 2 * n + 2 < 2 ^ 64"

lemma rx_state_size: "rx_state r kv pd ls \<Longrightarrow> index_wf (dc_index r) \<and> length (dc_index r) \<le> rx_blocks r"
proof -
  assume h: "rx_state r kv pd ls"
  let ?all = "device_blocks (rx_device r) (rx_blocks r)"
  have e: "entries_hold (dc_index r) (io_content (dc_io r)) kv" and n: "rx_blocks r \<le> 2 ^ 56"
    and o: "ring.owns (dc_alloc r) (live_blocks (dc_index r) \<union> pd) ?all" using h by (simp_all add: rx_state_def)
  note D = entries_holdD [OF e]
  have "card (live_blocks (dc_index r)) \<le> card ?all"
    using o ring.owns_finite [OF o] by (intro card_mono) (auto simp: ring.owns_def)
  moreover have "dom kv = dom (index_map (dc_index r))" by (simp add: dom_def entries_hold_None [OF e])
  moreover have "length (dc_index r) = card (dom (index_map (dc_index r)))"
    using idx.size_law [OF D(1)] by (simp add: Size_def)
  ultimately show ?thesis using D(1) card_live_blocks(1) [OF e] card_device_blocks [OF n] by simp
qed

lemma rx_state_indexed: "rx_state r kv pd ls \<Longrightarrow> index_valid (dc_super_block r) (dc_index r) \<Longrightarrow> rx_indexed r"
  using rx_state_size by (simp add: rx_indexed_def)

text \<open>A block of the device passes the check of a recovered entry.\<close>

lemma block_validated:
  assumes "rx_state r kv {b} ls" "key \<noteq> []" "length key \<le> kWalKeyMax"
  shows "ValidateRecoveredMeta (dc_super_block r) key b True"
proof -
  have "b \<in> device_blocks (rx_device r) (rx_blocks r)" "rx_blocks r \<le> 2 ^ 56"
    using assms(1) by (auto simp: rx_state_def ring.owns_def)
  then have "dev b = rx_device r" "unat (block_idx b) < rx_blocks r" using mem_device_blocks by auto
  then show ?thesis using assms(2,3) by (simp add: ValidateRecoveredMeta_def rx_device_def rx_blocks_def word_less_nat_alt not_le)
qed

end
