(* ===== verification/Cabe_DeviceOps.thy ===== *)
theory Cabe_DeviceOps
  imports Cabe_DeviceLog
begin

text \<open>
  Every operation keeps a device at the strict level safe (\<open>rx_safe\<close>), as long as the log does not
  report a failed write: what the operation did to the map is on the media when it returns.
\<close>

lemma rx_safeD:
  assumes "rx_safe n r kv"
  shows "rx_holds r kv" "index_valid (dc_super_block r) (dc_index r)" "rx_stable r" "io_level (dc_io r) = Some Strict"
    "\<exists>log h cov idx. rx_logged r log h cov idx (index_map (dc_index r)) \<and> length log + n + 2 ^ 32 < 2 ^ 64"
    "sn_next_gen (dc_snapshot r) + 2 * n + 2 < 2 ^ 64"
  using assms by (simp_all add: rx_safe_def)

lemma rx_stable_cong:
  assumes "\<And>b. b \<in> live_blocks (dc_index r') \<Longrightarrow> b \<in> live_blocks (dc_index r)" "dc_io r' = dc_io r" "rx_stable r"
  shows "rx_stable r'"
  using assms by (simp add: rx_stable_def)

text \<open>The three fields the log's invariant looks at.\<close>

definition same_log :: "reactor \<Rightarrow> reactor \<Rightarrow> bool" where
  "same_log r r' \<longleftrightarrow> dc_wal r' = dc_wal r \<and> dc_snapshot r' = dc_snapshot r \<and> dc_super_block r' = dc_super_block r"

lemma same_log_logged: "same_log r r' \<Longrightarrow> rx_logged r' = rx_logged r"
  unfolding same_log_def by (intro rx_logged_cong) simp_all

lemma ExecuteGet_fields:
  assumes "ExecuteGet r op = (c, out, r')"
  shows "same_log r r' \<and> dc_index r' = dc_index r \<and> io_level (dc_io r') = io_level (dc_io r)
    \<and> io_content (dc_io r') = io_content (dc_io r) \<and> io_stable (dc_io r') = io_stable (dc_io r)"
  using assms SyncIo_Read_outcome(2,4,5)
  by (auto simp: ExecuteGet_def same_log_def Let_def split: prod.splits option.splits if_splits; metis)

lemma ExecuteGet_safe:
  assumes S: "rx_safe (Suc n) r kv" and run: "ExecuteGet r op = (c, out, r')"
  shows "rx_safe n r' kv"
proof -
  note D = rx_safeD [OF S] and F = ExecuteGet_fields [OF run]
  have "dc_super_block r' = dc_super_block r" "dc_snapshot r' = dc_snapshot r" using F by (simp_all add: same_log_def)
  moreover have "rx_stable r'" using D(3) F by (simp add: rx_stable_def)
  ultimately show ?thesis
    using D ExecuteGet_holds(1) [OF D(1) run] F same_log_logged [of r r'] by (fastforce simp: rx_safe_def)
qed

lemma DoSnapshot_safe:
  assumes S: "rx_safe (Suc n) r kv" and run: "DoSnapshot r = (c, r')"
  shows "rx_safe n r' kv"
proof -
  note D = rx_safeD [OF S] and core = DoSnapshot_core [OF run]
  obtain log h cov idx where L: "rx_logged r log h cov idx (index_map (dc_index r))" "length log + Suc n + 2 ^ 32 < 2 ^ 64"
    using D(5) by blast
  have g: "sn_next_gen (dc_snapshot r) + 1 < 2 ^ 64" using D(6) by simp
  note X = DoSnapshot_logged [OF L(1) rx_state_indexed [OF D(1,2)] g run]
  have c: "dc_index r' = dc_index r" "dc_io r' = dc_io r" "dc_super_block r' = dc_super_block r"
    using core by (simp_all add: same_core_def)
  have h: "rx_holds r' kv" using rx_state_core [OF core] D(1) by simp
  have st: "rx_stable r'" using D(3) c by (simp add: rx_stable_def)
  have "\<exists>log h cov idx. rx_logged r' log h cov idx (index_map (dc_index r')) \<and> length log + n + 2 ^ 32 < 2 ^ 64"
    using X(2) L(2) c(1) by (intro exI conjI) auto
  then show ?thesis using h st D(2,4,6) X(3) c by (simp add: rx_safe_def)
qed

text \<open>The last step of a put or a delete: the index has just been brought up to the log.\<close>

lemma Maybe_safe:
  assumes h: "rx_holds (MaybeRequestSnapshot r) kv" and v: "index_valid (dc_super_block r) (dc_index r)"
    and st: "rx_stable r" "io_level (dc_io r) = Some Strict"
    and L: "rx_logged r log h cov idx (index_map (dc_index r))" "length log + n + 2 ^ 32 < 2 ^ 64"
    and g: "sn_next_gen (dc_snapshot r) + 2 * n + 3 < 2 ^ 64"
  shows "rx_safe n (MaybeRequestSnapshot r) kv"
proof -
  note core = MaybeRequestSnapshot_core [of r]
  have h0: "rx_holds r kv" using rx_state_core [OF core] h by simp
  have g1: "sn_next_gen (dc_snapshot r) + 1 < 2 ^ 64" using g by simp
  note M = Maybe_logged [OF L(1) rx_state_indexed [OF h0 v] g1]
  have c: "dc_index (MaybeRequestSnapshot r) = dc_index r" "dc_io (MaybeRequestSnapshot r) = dc_io r"
    "dc_super_block (MaybeRequestSnapshot r) = dc_super_block r" using core by (simp_all add: same_core_def)
  have "rx_stable (MaybeRequestSnapshot r)" using st(1) c by (simp add: rx_stable_def)
  moreover obtain h' cov' idx' where "rx_logged (MaybeRequestSnapshot r) log h' cov' idx' (index_map (dc_index (MaybeRequestSnapshot r)))"
    using M(1) c(1) by auto
  ultimately show ?thesis using h v st(2) L(2) M(2) g c by (auto simp: rx_safe_def)
qed

lemma io_fua_Strict: "io_level io = Some Strict \<Longrightarrow> io_fua io"
  by (simp add: io_fua_def IsValueFuaLevel_def)

text \<open>Weakening: an operation that failed before the log took its record.\<close>

lemma rx_safe_failed:
  assumes S: "rx_safe (Suc n) r kv" and h: "rx_holds r' kv"
    and f: "dc_index r' = dc_index r" "dc_super_block r' = dc_super_block r" "io_level (dc_io r') = Some Strict"
    and st: "rx_stable r'"
    and L: "rx_logged r' log h cov idx (index_map (dc_index r))" "length log + Suc n + 2 ^ 32 < 2 ^ 64"
    and g: "sn_next_gen (dc_snapshot r') \<le> sn_next_gen (dc_snapshot r) + 2"
  shows "rx_safe n r' kv"
proof -
  have "\<exists>log h cov idx. rx_logged r' log h cov idx (index_map (dc_index r')) \<and> length log + n + 2 ^ 32 < 2 ^ 64"
    using L f(1) by (intro exI conjI) auto
  then show ?thesis using rx_safeD [OF S] h f st g by (simp add: rx_safe_def)
qed

lemma ExecutePut_safe:
  assumes S: "rx_safe (Suc n) r kv" and key: "op_key op \<noteq> []" and run: "ExecutePut r op = (c, r')"
    and ok: "c \<noteq> kWalWriteFailed"
  shows "rx_safe n r' (if c = kSuccess then kv(op_key op \<mapsto> op_bytes op) else kv)"
proof -
  note D = rx_safeD [OF S]
  have h: "rx_holds r kv" by (rule D(1))
  note H = conjunct1 [OF ExecutePut_holds [OF h run]]
  obtain log h0 cov idx where L: "rx_logged r log h0 cov idx (index_map (dc_index r))" "length log + Suc n + 2 ^ 32 < 2 ^ 64"
    using D(5) by blast
  show ?thesis
  proof (rule rx_alloc_cases [OF h])
    assume "Acquire (dc_alloc r) = (kEngineNoSpace, None, dc_alloc r)"
    then have c: "c = kEngineNoSpace" "r' = r" using run by (auto simp: ExecutePut_def)
    have "rx_safe n r kv" by (rule rx_safe_failed [OF S h refl refl D(4,3) L]) simp
    then show ?thesis using c by simp
  next
    fix b a
    assume aq: "Acquire (dc_alloc r) = (kSuccess, Some b, a)"
    let ?r0 = "r\<lparr>dc_alloc := a\<rparr>"
    obtain staged p where sg: "StagePut (dc_pool r) op = (staged, p)" by fastforce
    obtain buf lease where st: "staged = Some (buf, lease)" "iw_data buf = op_bytes op"
      and h1: "rx_state (?r0\<lparr>dc_pool := p\<rparr>) kv {b} (set_option lease)"
      using StagePut_holds [OF rx_alloc [OF h aq], of op staged p] sg by auto
    obtain now r2 where nw: "GetWallTimeNs (?r0\<lparr>dc_pool := p\<rparr>) = (now, r2)" by fastforce
    have h2: "rx_state r2 kv {b} (set_option lease)" using h1 nw by (auto simp: GetWallTimeNs_def)
    have f2: "dc_io r2 = dc_io r" "dc_index r2 = dc_index r" "same_log r r2"
      using nw by (auto simp: GetWallTimeNs_def same_log_def)
    obtain c2 io where wr: "SyncIo_Write (dc_io r2) (unat (block_idx b)) (Some (op_bytes op)) = (c2, io)"
      by fastforce
    note W = rx_write [OF h2 wr] and O = SyncIo_Write_outcome [OF wr]
    define r3 where "r3 = ReleaseLease lease (r2\<lparr>dc_io := io\<rparr>)"
    have h3: "rx_state r3 kv {b} {}" unfolding r3_def using ReleaseLease_holds [OF W(1)] by simp
    have f3: "dc_io r3 = io" "dc_index r3 = dc_index r" "same_log r r3"
      using f2 by (cases lease; simp add: r3_def ReleaseLease_def same_log_def)+
    have lvl: "io_level io = Some Strict" using O(1) f2(1) D(4) by simp
    have st3: "io_stable io (unat (block_idx b')) = io_content io (unat (block_idx b'))"
      if b': "b' \<in> live_blocks (dc_index r)" for b'
    proof -
      have ne: "unat (block_idx b') \<noteq> unat (block_idx b)" using rx_block_apart [OF h2] b' f2(2) by simp
      have "io_content io (unat (block_idx b')) = io_content (dc_io r) (unat (block_idx b'))"
        using O(2) [OF ne] f2(1) by simp
      then show ?thesis using O(3) D(3) b' f2(1) by (auto simp: rx_stable_def)
    qed
    obtain c3 r4 where wl: "WriteWalRescuing r3 (put_entry op b now) = (c3, r4)" by fastforce
    have core: "same_core r3 r4" by (rule WriteWalRescuing_core [OF wl])
    have h4: "rx_state r4 kv {b} {}" using h3 rx_state_core [OF core] by simp
    have f4: "dc_io r4 = io" "dc_index r4 = dc_index r" "dc_super_block r4 = dc_super_block r"
      using core f3 by (simp_all add: same_core_def same_log_def)
    have res: "(c, r') = (if c2 \<noteq> kSuccess then (c2, RecycleBlock b r3)
        else if c3 \<noteq> kSuccess then (c3, RecycleBlock b r4) else (kSuccess, CommitPut r4 op b now))"
      using run by (simp add: ExecutePut_def aq sg st nw wr r3_def [symmetric] wl cong: if_cong)
    have L3: "rx_logged r3 log h0 cov idx (index_map (dc_index r3))" using L(1) same_log_logged [OF f3(3)] f3(2) by simp
    have sb3: "dc_super_block r3 = dc_super_block r" "dc_snapshot r3 = dc_snapshot r" using f3(3) by (simp_all add: same_log_def)
    show ?thesis
    proof (cases "c2 = kSuccess")
      case False
      then have c: "c \<noteq> kSuccess" "r' = RecycleBlock b r3" using res by simp_all
      have "same_log r3 r'" "dc_index r' = dc_index r" "dc_io r' = io" using c(2) f3 by (simp_all add: RecycleBlock_def same_log_def)
      then have "rx_safe n r' kv"
        using H c L3 same_log_logged [of r3 r'] f3(2) lvl st3 sb3
        by (intro rx_safe_failed [OF S _ _ _ _ _ _ L(2), of r' h0 cov idx]) (simp_all add: rx_stable_def same_log_def)
      then show ?thesis using c by simp
    next
      case io_ok: True
      have cb: "io_content io (unat (block_idx b)) = op_bytes op" by (rule W(3) [OF io_ok])
      have all: "io_stable io = io_content io"
        using O(4) [OF io_ok] io_fua_Strict [of "dc_io r2"] f2(1) D(4) by simp
      show ?thesis
      proof (cases "length (op_key op) \<le> kWalKeyMax")
        case False
        then have "WriteWal (dc_wal r3) (put_entry op b now) = (kWalKeyTooLong, dc_wal r3)"
          by (simp add: WriteWal_def put_entry_def)
        then have "c3 = kWalKeyTooLong" "r4 = r3\<lparr>dc_wal := dc_wal r3\<rparr>" using wl by (simp_all add: WriteWalRescuing_def)
        then have c: "c = kWalKeyTooLong" "r' = RecycleBlock b r3" using res io_ok by simp_all
        have "same_log r3 r'" "dc_index r' = dc_index r" "dc_io r' = io" using c(2) f3 by (simp_all add: RecycleBlock_def same_log_def)
        then have "rx_safe n r' kv"
          using H c L3 same_log_logged [of r3 r'] f3(2) lvl st3 sb3
          by (intro rx_safe_failed [OF S _ _ _ _ _ _ L(2), of r' h0 cov idx]) (simp_all add: rx_stable_def same_log_def)
        then show ?thesis using c by simp
      next
        case len: True
        have val: "ValidateRecoveredMeta (dc_super_block r3) (op_key op) b True" by (rule block_validated [OF h3 key len])
        have iv: "index_valid (dc_super_block r3) (dc_index r3)" using D(2) sb3 f3(2) by simp
        note T = put_takes [OF val, of now "index_map (dc_index r3)"]
        have g3: "length log + 2 < 2 ^ 64" "sn_next_gen (dc_snapshot r3) + 1 < 2 ^ 64" using L(2) D(6) sb3 by simp_all
        note X = WriteWalRescuing_logged [OF L3 rx_state_indexed [OF h3 iv] T g3 wl]
        show ?thesis
        proof (cases "c3 = kSuccess")
          case False
          then have c: "c = c3" "c \<noteq> kSuccess" "r' = RecycleBlock b r4" using res io_ok by simp_all
          obtain h1 cov1 idx1 where L4: "rx_logged r4 log h1 cov1 idx1 (index_map (dc_index r3))"
            using X(2) False ok c(1) by blast
          have "same_log r4 r'" "dc_index r' = dc_index r" "dc_io r' = io" using c(3) f4 by (simp_all add: RecycleBlock_def same_log_def)
          then have "rx_safe n r' kv"
            using H c L4 same_log_logged [of r4 r'] f3(2) f4 lvl st3 sb3 X(3)
            by (intro rx_safe_failed [OF S _ _ _ _ _ _ L(2), of r' h1 cov1 idx1]) (simp_all add: rx_stable_def same_log_def)
          then show ?thesis using c by simp
        next
          case True
          then have c: "c = kSuccess" "r' = CommitPut r4 op b now" using res io_ok by simp_all
          obtain h1 cov1 idx1 where L4: "rx_logged r4 (log @ [put_entry op b now]) h1 cov1 idx1
              ((index_map (dc_index r3))(op_key op \<mapsto> put_meta op b now))" using X(1) True by blast
          obtain m' where m': "Insert (dc_index r4) (op_key op) (put_meta op b now) = (kSuccess, m')"
            "index_map m' = (index_map (dc_index r4))(op_key op \<mapsto> put_meta op b now)"
            using idx.insert_law rx_state_size [OF h4] by blast
          define r5 where "r5 = (case Lookup (dc_index r4) (op_key op) of (c, old) \<Rightarrow>
            if c = kSuccess then RecycleBlock (block (the old)) (r4\<lparr>dc_index := m'\<rparr>) else r4\<lparr>dc_index := m'\<rparr>)"
          have r': "r' = MaybeRequestSnapshot r5"
            by (cases "Lookup (dc_index r4) (op_key op)") (simp add: c(2) CommitPut_def r5_def m'(1) Let_def)
          have f5: "same_log r4 r5" "dc_index r5 = m'" "dc_io r5 = io"
            using f4 by (cases "Lookup (dc_index r4) (op_key op)"; simp add: r5_def RecycleBlock_def same_log_def)+
          have "rx_logged r5 (log @ [put_entry op b now]) h1 cov1 idx1 (index_map (dc_index r5))"
            using L4 same_log_logged [OF f5(1)] f5(2) m'(2) f4(2) f3(2) by simp
          moreover have "index_valid (dc_super_block r5) (dc_index r5)"
            using val iv f3(2) f4 sb3 m'(2) f5(1,2) by (simp add: index_valid_def same_log_def put_meta_def)
          moreover have "rx_stable r5" by (simp add: rx_stable_def f5(3) all)
          moreover have "rx_holds (MaybeRequestSnapshot r5) (kv(op_key op \<mapsto> op_bytes op))" using H c(1) r' by simp
          moreover have "length (log @ [put_entry op b now]) + n + 2 ^ 32 < 2 ^ 64" using L(2) by simp
          moreover have "sn_next_gen (dc_snapshot r5) + 2 * n + 3 < 2 ^ 64"
            using X(3) D(6) sb3 f5(1) by (simp add: same_log_def)
          ultimately have "rx_safe n (MaybeRequestSnapshot r5) (kv(op_key op \<mapsto> op_bytes op))"
            using lvl f5(3) by (intro Maybe_safe) auto
          then show ?thesis using c(1) r' by simp
        qed
      qed
    qed
  qed
qed

lemma ExecuteDelete_safe:
  assumes S: "rx_safe (Suc n) r kv" and run: "ExecuteDelete r op = (c, r')" and ok: "c \<noteq> kWalWriteFailed"
  shows "rx_safe n r' (if c = kSuccess then kv(op_key op := None) else kv)"
proof -
  note D = rx_safeD [OF S]
  have h: "rx_holds r kv" by (rule D(1))
  note H = conjunct1 [OF ExecuteDelete_holds [OF h run]]
  obtain log h0 cov idx where L: "rx_logged r log h0 cov idx (index_map (dc_index r))" "length log + Suc n + 2 ^ 32 < 2 ^ 64"
    using D(5) by blast
  have e: "entries_hold (dc_index r) (io_content (dc_io r)) kv" using h by (simp add: rx_state_def)
  show ?thesis
  proof (cases "kv (op_key op)")
    case None
    then have c: "c = kIndexKeyNotFound" "r' = r" using run entries_hold_lookup(1) [OF e None] by (simp_all add: ExecuteDelete_def)
    have "rx_safe n r kv" by (rule rx_safe_failed [OF S h refl refl D(4,3) L]) simp
    then show ?thesis using c by simp
  next
    case (Some v)
    obtain m where m: "Lookup (dc_index r) (op_key op) = (kSuccess, Some m)" "index_map (dc_index r) (op_key op) = Some m"
      using entries_hold_lookup(2) [OF e Some] by blast
    have val: "ValidateRecoveredMeta (dc_super_block r) (op_key op) (block m) True" using D(2) m(2) by (simp add: index_valid_def)
    obtain now r1 where nw: "GetWallTimeNs r = (now, r1)" by fastforce
    have f1: "dc_io r1 = dc_io r" "dc_index r1 = dc_index r" "same_log r r1" using nw by (auto simp: GetWallTimeNs_def same_log_def)
    have h1: "rx_holds r1 kv" using h nw by (auto simp: GetWallTimeNs_def)
    have sb1: "dc_super_block r1 = dc_super_block r" "dc_snapshot r1 = dc_snapshot r" using f1(3) by (simp_all add: same_log_def)
    obtain c2 r2 where wl: "WriteWalRescuing r1 (delete_entry op now) = (c2, r2)" by fastforce
    have core: "same_core r1 r2" by (rule WriteWalRescuing_core [OF wl])
    have f2: "dc_io r2 = dc_io r" "dc_index r2 = dc_index r" "dc_super_block r2 = dc_super_block r"
      using core f1 sb1 by (simp_all add: same_core_def)
    have h2: "rx_holds r2 kv" using h1 rx_state_core [OF core] by simp
    define r3 where "r3 = RecycleBlock (block m) (r2\<lparr>dc_index := snd (Delete (dc_index r2) (op_key op))\<rparr>)"
    have res: "(c, r') = (if c2 \<noteq> kSuccess then (c2, r2) else (kSuccess, MaybeRequestSnapshot r3))"
      using run by (simp add: ExecuteDelete_def m(1) nw wl r3_def cong: if_cong)
    have L1: "rx_logged r1 log h0 cov idx (index_map (dc_index r1))" using L(1) same_log_logged [OF f1(3)] f1(2) by simp
    have iv: "index_valid (dc_super_block r1) (dc_index r1)" using D(2) sb1 f1(2) by simp
    have T: "record_takes (dc_super_block r1) (delete_entry op now) (index_map (dc_index r1)) ((index_map (dc_index r1))(op_key op := None))"
      by (rule delete_takes [where e = m and b = "block m"]) (use m(2) f1(2) val sb1 in simp_all)
    have g1: "length log + 2 < 2 ^ 64" "sn_next_gen (dc_snapshot r1) + 1 < 2 ^ 64" using L(2) D(6) sb1 by simp_all
    note X = WriteWalRescuing_logged [OF L1 rx_state_indexed [OF h1 iv] T g1 wl]
    show ?thesis
    proof (cases "c2 = kSuccess")
      case False
      then have c: "c = c2" "c \<noteq> kSuccess" "r' = r2" using res by simp_all
      obtain h3 cov3 idx3 where L2: "rx_logged r2 log h3 cov3 idx3 (index_map (dc_index r1))"
        using X(2) False ok c(1) by blast
      have "rx_safe n r' kv"
        using h2 c L2 f1(2) f2 D(3,4) sb1 X(3)
        by (intro rx_safe_failed [OF S _ _ _ _ _ _ L(2), of r' h3 cov3 idx3]) (simp_all add: rx_stable_def)
      then show ?thesis using c by simp
    next
      case True
      then have c: "c = kSuccess" "r' = MaybeRequestSnapshot r3" using res by simp_all
      obtain h3 cov3 idx3 where L2: "rx_logged r2 (log @ [delete_entry op now]) h3 cov3 idx3 ((index_map (dc_index r1))(op_key op := None))"
        using X(1) True by blast
      have e2: "entries_hold (dc_index r2) (io_content (dc_io r2)) kv" using h2 by (simp add: rx_state_def)
      have m2: "index_map (dc_index r2) (op_key op) = Some m" using m(2) f2(2) by simp
      obtain m' where m': "Delete (dc_index r2) (op_key op) = (kSuccess, m')" "index_map m' = (index_map (dc_index r2))(op_key op := None)"
        using idx.delete_law [OF entries_holdD(1) [OF e2], of "op_key op"] m2 by auto
      have f3: "same_log r2 r3" "dc_index r3 = m'" "dc_io r3 = dc_io r"
        using f2 m'(1) by (simp_all add: r3_def RecycleBlock_def same_log_def)
      have "rx_logged r3 (log @ [delete_entry op now]) h3 cov3 idx3 (index_map (dc_index r3))"
        using L2 same_log_logged [OF f3(1)] f3(2) m'(2) f2(2) f1(2) by simp
      moreover have "index_valid (dc_super_block r3) (dc_index r3)"
        using D(2) f2 m'(2) f3(1,2) by (simp add: index_valid_def same_log_def)
      moreover have "rx_stable r3"
      proof (rule rx_stable_cong [OF _ f3(3) D(3)])
        show "b \<in> live_blocks (dc_index r)" if "b \<in> live_blocks (dc_index r3)" for b
          using that m'(2) f2(2) f3(2) by (auto simp: live_blocks_mem split: if_splits)
      qed
      moreover have "rx_holds (MaybeRequestSnapshot r3) (kv(op_key op := None))" using H c by simp
      moreover have "length (log @ [delete_entry op now]) + n + 2 ^ 32 < 2 ^ 64" using L(2) by simp
      moreover have "sn_next_gen (dc_snapshot r3) + 2 * n + 3 < 2 ^ 64"
        using X(3) D(6) sb1 f3(1) by (simp add: same_log_def)
      ultimately have "rx_safe n (MaybeRequestSnapshot r3) (kv(op_key op := None))"
        using D(4) f3(3) by (intro Maybe_safe) auto
      then show ?thesis using c by simp
    qed
  qed
qed

lemma ExecuteSetWalLevel_safe:
  assumes S: "rx_safe (Suc n) r kv" and lvl: "op_new_level op = Strict" and run: "ExecuteSetWalLevel r op = (c, r')"
  shows "rx_safe n r' kv"
proof -
  note D = rx_safeD [OF S]
  obtain log h0 cov idx where L: "rx_logged r log h0 cov idx (index_map (dc_index r))" "length log + Suc n + 2 ^ 32 < 2 ^ 64"
    using D(5) by blast
  have w: "w_level (dc_wal r) = Strict" using L(1) by (simp add: rx_logged_def)
  then have "Flush (dc_wal r) = (kSuccess, dc_wal r)" by (simp add: Flush_def sync_level_def IsWalSyncLevel_def)
  then have r': "r' = set_level Strict (r\<lparr>dc_wal := dc_wal r\<rparr>)"
    using run lvl by (auto simp: ExecuteSetWalLevel_def Let_def split: if_splits)
  have f: "dc_index r' = dc_index r" "same_log r r'" "dc_io r' = dc_io r"
    using w D(4) by (simp_all add: r' set_level_def same_log_def Wal_RebindOptions_def SyncIo_RebindOptions_def)
  have "rx_holds r' kv" using set_level_holds [of Strict r] D(1) by (simp add: r')
  moreover have "rx_logged r' log h0 cov idx (index_map (dc_index r'))" using L(1) same_log_logged [OF f(2)] f(1) by simp
  moreover have "rx_stable r'" by (rule rx_stable_cong [OF _ f(3) D(3)]) (simp add: f(1))
  ultimately show ?thesis
    using f D(4) by (intro rx_safe_failed [OF S _ _ _ _ _ _ L(2), of r' h0 cov idx]) (simp_all add: same_log_def)
qed

text \<open>What is asked of an operation: a put names a key (the engine checks it), and the level stays.\<close>

definition op_strict :: "op_node \<Rightarrow> bool" where
  "op_strict op \<longleftrightarrow> (op_kind op = OpPut \<longrightarrow> op_key op \<noteq> []) \<and> (op_kind op = OpSetWalLevel \<longrightarrow> op_new_level op = Strict)"

lemma Execute_safe:
  assumes S: "rx_safe (Suc n) r kv" and op: "op_strict op" and run: "Execute r op = (c, out, r')"
    and ok: "c \<noteq> kWalWriteFailed"
  shows "rx_safe n r' (kv_after op c kv)"
proof -
  consider (get) "op_kind op = OpGet" | (put) "op_kind op = OpPut" | (del) "op_kind op = OpDelete"
    | (lvl) "op_kind op = OpSetWalLevel" | (snap) "op_kind op = OpSnapshot"
    | (other) "op_kind op \<notin> {OpGet, OpPut, OpDelete, OpSetWalLevel, OpSnapshot}" by blast
  then show ?thesis
  proof cases
    case get
    then show ?thesis using ExecuteGet_safe [OF S, of op c out r'] run by (simp add: Execute_def kv_after_def)
  next
    case put
    then have ex: "ExecutePut r op = (c, r')" using run by (simp add: Execute_def split: prod.splits)
    have key: "op_key op \<noteq> []" using put op by (simp add: op_strict_def)
    show ?thesis using ExecutePut_safe [OF S key ex ok] put by (simp add: kv_after_def split: if_splits)
  next
    case del
    then have ex: "ExecuteDelete r op = (c, r')" using run by (simp add: Execute_def split: prod.splits)
    show ?thesis using ExecuteDelete_safe [OF S ex ok] del by (simp add: kv_after_def split: if_splits)
  next
    case lvl
    then have "ExecuteSetWalLevel r op = (c, r')" using run by (simp add: Execute_def split: prod.splits)
    then show ?thesis using ExecuteSetWalLevel_safe [OF S] lvl op by (simp add: kv_after_def op_strict_def)
  next
    case snap
    then have "DoSnapshot r = (c, r')" using run by (simp add: Execute_def ExecuteSnapshot_def split: prod.splits)
    then show ?thesis using DoSnapshot_safe [OF S] snap by (simp add: kv_after_def)
  next
    case other
    then have "r' = r" using run by (simp add: Execute_def)
    moreover have "rx_safe n r kv"
    proof -
      obtain log h cov idx where L: "rx_logged r log h cov idx (index_map (dc_index r))" "length log + Suc n + 2 ^ 32 < 2 ^ 64"
        using S by (auto simp: rx_safe_def)
      then have "length log + n + 2 ^ 32 < 2 ^ 64" by simp
      then show ?thesis using S L(1) unfolding rx_safe_def by auto
    qed
    ultimately show ?thesis using other by (auto simp: kv_after_def)
  qed
qed

lemma run_ops_safe:
  "rx_safe (length ops + n) r kv \<Longrightarrow> \<forall>op \<in> set ops. op_strict op \<Longrightarrow> run_ops r ops = (res, r') \<Longrightarrow>
   \<forall>x \<in> set res. fst x \<noteq> kWalWriteFailed \<Longrightarrow> rx_safe n r' (kv_run ops res kv)"
proof (induction ops arbitrary: r kv res)
  case (Cons op ops)
  obtain c out r1 where ex: "Execute r op = (c, out, r1)" by (metis prod_cases3)
  obtain res1 r2 where rn: "run_ops r1 ops = (res1, r2)" by fastforce
  have res: "res = (c, out) # res1" "r' = r2" using Cons.prems(3) by (auto simp: ex rn)
  have s: "rx_safe (Suc (length ops + n)) r kv" using Cons.prems(1) by simp
  have "rx_safe (length ops + n) r1 (kv_after op c kv)"
    using Execute_safe [OF s _ ex] Cons.prems(2,4) res by simp
  then show ?case using Cons.IH [of r1 "kv_after op c kv" res1] rn Cons.prems(2,4) res by simp
qed simp

end
