(* ===== verification/Cabe_DeviceRestart.thy ===== *)
theory Cabe_DeviceRestart
  imports Cabe_DeviceOps
begin

text \<open>
  A device that loses power and is opened again: recovery succeeds and rebuilds the map of the
  operations that had been acknowledged. The property at the end is about a whole session of the
  reactor, the failure, and \<open>OpenDevice\<close>.
\<close>

section \<open>The snapshot\<close>

lemma snap_restart:
  assumes inv: "snap_inv s cov idx {}" and cr: "snap_crash s (kd_data d)" and cf: "snap_config s d opts sb"
    and gen: "sn_next_gen s + 1 < 2 ^ 64"
  obtains s' where "Snapshot_Open (snapshot_fresh d) opts sb = Some (kSuccess, s')"
    "snap_inv s' cov idx {}" "snap_ready s'" "sn_slot_size s' = sn_slot_size s" "sn_next_gen s' \<le> sn_next_gen s"
    "sn_last_covered s' = cov"
    "\<And>(visitor :: bytes \<Rightarrow> value_meta \<Rightarrow> 's \<Rightarrow> rc \<times> 's) st.
       Snapshot_Load s' visitor st = (case ForEach idx visitor st of (c, st') \<Rightarrow> Some (c, st', s'))"
proof -
  have g: "snap_geo s" using inv by (simp add: snap_inv_def)
  obtain gen where gn: "gen < sn_next_gen s" "snap_image s (kd_data d) gen cov idx {}"
    using crash_snap_image [OF inv cr] by blast
  obtain s0 where S: "Snapshot_Open (snapshot_fresh d) opts sb = snap_judge s0 (slot_head s0 0) (slot_head s0 1)"
    "snap_ready s0" "rd_contents (sn_dev s0) = kd_data d" "rd_durable (sn_dev s0) = rd_contents (sn_dev s0)"
    "sn_slot_a s0 = sn_slot_a s" "sn_slot_b s0 = sn_slot_b s" "sn_slot_size s0 = sn_slot_size s" "sn_uuid s0 = sn_uuid s"
    using Open_judge [OF g cf] by auto
  note V = view_cong [OF S(5-8)]
  have hd: "slot_head s0 x = header_of_bytes (kread (kd_data d) (snap_slot s x) 4096)" for x
    by (simp add: slot_head_def S V)
  have stale: "slot_ok s0 (slot_head s0 x) \<Longrightarrow> unat (sh_generation (slot_head s0 x)) < gg"
    if "slot_stale s (kd_data d) x gg {}" for x gg using that by (simp add: slot_stale_def Let_def hd V)
  show thesis
  proof (cases "sn_active s = -1")
    case True
    then have N: "cov = 0" "idx = []" "slot_stale s (kd_data d) 1 0 {}" "slot_stale s (kd_data d) 0 0 {}"
      using gn(2) by (auto simp: snap_image_def snap_target_def)
    then have no: "\<not> slot_ok s0 (slot_head s0 0)" "\<not> slot_ok s0 (slot_head s0 1)" using stale by blast+
    define s' where "s' = s0\<lparr>sn_next_gen := 1, sn_active := -1, sn_last_covered := 0, sn_last_trigger := 0, sn_entry_count := 0\<rparr>"
    have J: "snap_judge s0 (slot_head s0 0) (slot_head s0 1) = Some (kSuccess, s')"
      using no by (simp add: snap_judge_def snap_candidate_def Let_def s'_def)
    have I: "snap_inv s' 0 [] {}" "fd_open (sn_dev s')" using judge_none [OF S(2,4) no] J by auto
    have "snap_geo s' = snap_geo s0" by (rule view_cong(7)) (simp_all add: s'_def)
    then have "snap_ready s'" using S(2) by (simp add: snap_ready_def s'_def)
    moreover have "Snapshot_Load s' visitor st = Some (kSuccess, st, s')"
      for visitor :: "bytes \<Rightarrow> value_meta \<Rightarrow> 's \<Rightarrow> rc \<times> 's" and st
      using I(2) by (simp add: Snapshot_Load_def RawDevice_is_open_def s'_def)
    ultimately show thesis using that [of s'] S(1,7) J I(1) N gn(1) by (simp add: s'_def)
  next
    case False
    define C where "C = sn_active s"
    have A: "C = 0 \<or> C = 1" "0 < gen" "slot_holds s (kd_data d) C (gen, cov, idx)"
      "slot_stale s (kd_data d) (1 - C) gen {}"
      using gn(2) False by (auto simp: snap_image_def snap_target_def C_def)
    have hold: "slot_holds s0 (rd_contents (sn_dev s0)) C (gen, cov, idx)" using A(3) by (simp add: S V)
    have g0: "snap_geo s0" using S(2) by (simp add: snap_ready_def)
    have a: "att_ok s0 (gen, cov, idx)" "is_header s0 (rd_contents (sn_dev s0)) C (gen, cov, idx)"
      "kread (rd_contents (sn_dev s0)) (snap_slot s0 C + 4096) (128 * length idx) = recs idx"
      using hold by (simp_all add: slot_holds_def)
    note H = header_facts [OF g0 a(1,2), folded slot_head_def]
    have lose: "slot_ok s0 (slot_head s0 (1 - C)) \<Longrightarrow> unat (sh_generation (slot_head s0 (1 - C))) < gen" by (rule stale [OF A(4)])
    have ls: "loser s0 (1 - C) gen {}" using lose by (simp add: loser_def)
    have g1: "gen + 1 < 2 ^ 64" using gn(1) gen by linarith
    obtain s' where s': "snap_chosen s0 C (slot_head s0 0) (slot_head s0 1) = (kSuccess, s')" "snap_inv s' cov idx {}"
      "snap_ready s'" "sn_active s' = C" "slot_holds s' (rd_contents (sn_dev s')) C (gen, cov, idx)"
      using chosen_inv [OF S(2,4) A(1) hold A(2) g1 ls] by blast
    have vC: "VerifySlotData s0 C (slot_head s0 C) = Some (kSuccess, s0)"
      using VerifySlotData_healthy [OF S(2) A(1), of "slot_head s0 C"] H(5,6) a by (simp add: att_ok_def)
    have pick: "(if C = 0 then slot_head s0 0 else slot_head s0 1) = slot_head s0 C" using A(1) by auto
    have cand: "snap_candidate s0 (slot_head s0 0) (slot_head s0 1) = C"
      "\<not> (slot_ok s0 (slot_head s0 0) \<and> slot_ok s0 (slot_head s0 1)
          \<and> sh_generation (slot_head s0 0) = sh_generation (slot_head s0 1))"
      using lose H(1,2) A(1) by (auto simp: snap_candidate_def word_less_nat_alt)
    have "0 \<le> C" using A(1) by auto
    then have J: "snap_judge s0 (slot_head s0 0) (slot_head s0 1) = Some (kSuccess, s')"
      unfolding snap_judge_def if_not_P [OF cand(2)] Let_def cand(1) pick by (simp add: vC s')
    have "max (if slot_ok s0 (slot_head s0 0) then unat (sh_generation (slot_head s0 0)) else 0)
              (if slot_ok s0 (slot_head s0 1) then unat (sh_generation (slot_head s0 1)) else 0) \<le> gen"
      using lose H(1,2) A(1) by auto
    then have "sn_next_gen s' \<le> sn_next_gen s" "sn_slot_size s' = sn_slot_size s0"
      using s'(1) gn(1) mod_less_eq_dividend [of _ "2 ^ 64 :: nat"]
      by (auto simp: snap_chosen_def Let_def intro: order_trans [OF mod_less_eq_dividend])
    moreover have "sn_entry_count s' = length idx" "sn_last_covered s' = cov" using s'(2) by (simp_all add: snap_inv_def)
    moreover from this have "Snapshot_Load s' visitor st = (case ForEach idx visitor st of (c, st') \<Rightarrow> Some (c, st', s'))"
      for visitor :: "bytes \<Rightarrow> value_meta \<Rightarrow> 's \<Rightarrow> rc \<times> 's" and st
      using Load_healthy [OF s'(3), of gen cov idx] s'(4,5) A(1) by simp
    ultimately show thesis using that [of s'] S(1,7) J s'(2,3) by simp
  qed
qed

section \<open>The log\<close>

lemma wal_restart:
  fixes st :: 's
  assumes inv: "wal_inv w log h (length log)" and syn: "synced_log w log" and cr: "crash_image (w_dev w) im"
    and cov: "h \<le> cov" "cov \<le> length log" and len: "length log + 2 ^ 32 < 2 ^ 64" and again: "restart w im d opts"
    and deliver: "replay_log fn cov (drop cov log) st = (kSuccess, st')"
  obtains w1 w2 where "Wal_Open (wal_closed d) opts = (kSuccess, w1)"
    "Wal_Recover w1 cov fn st = Some (kSuccess, st', w2)"
    "wal_inv w2 log (32 * (cov div 32)) (length log)" "synced_log w2 log" "w_level w2 = o_wal_level opts"
proof -
  have g: "wal_geo w" using inv by (simp add: wal_inv_def wal_win_def)
  have sy: "written w log \<le> length log" by (simp add: written_def)
  have im: "im = rd_contents (w_dev w)" by (rule synced_crash [OF syn cr])
  have hon: "honest_ring im w log" using syn by (simp add: synced_log_def im)
  define w1 where "w1 = reopened w d opts"
  note R = reopened_recoverable [OF inv sy cr hon cov len again, folded w1_def]
  note X = reopened_same [OF R(2,3) [unfolded w1_def], folded w1_def]
  note S = stop_bounds(1,2) [OF R(1)]
  define M where "M = stop_at (rd_contents (w_dev w1)) w1 log cov"
  have M: "M = length log" using S by (simp add: M_def)
  have F: "fragments_of (rd_contents (w_dev w1)) w1 log M = 0"
  proof -
    have none: "{k. length log < k \<and> present (rd_contents (w_dev w1)) w1 log k} = {}" by (auto simp: present_def)
    show ?thesis unfolding fragments_of_def M none by simp
  qed
  have dl: "replay_log fn cov (drop cov (take M log)) st = (kSuccess, st')" using deliver M by simp
  obtain w2 where W: "Wal_Recover w1 cov fn st = Some (kSuccess, st', w2)"
    "wal_inv w2 (take M log) (32 * (cov div 32)) M" "w_level w2 = w_level w1"
    "w_n_frames w2 = M mod 32" "slot_off w2 = slot_off w1" "slots w2 = slots w1" "w_dev w2 = w_dev w1"
    using Wal_Recover_ok [OF R(1) M_def _ _ dl] F by auto
  have dev: "rd_contents (w_dev w1) = im" "rd_durable (w_dev w1) = im"
    using again by (simp_all add: w1_def reopened_def rd_contents_def rd_durable_def restart_def)
  have "slots w1 = slots w" by (simp add: w1_def reopened_def slots_def ring_bytes_def)
  then have "honest_ring im w2 log" using hon honest_cong [of w2 w] W(5,6) R(3) by simp
  then have "synced_log w2 log" using W(4,7) dev by (simp add: synced_log_def)
  moreover have "Wal_Open (wal_closed d) opts = (kSuccess, w1)"
    using Wal_Open_restart [OF g again] by (simp add: w1_def)
  ultimately show thesis using that [of w1 w2] W(1-3) M R(4) by simp
qed

section \<open>The index, the allocator and the values\<close>

lemma active_blocks_map: "active_blocks m = map (\<lambda>(k, e). block e) m"
proof -
  have "ForEach m (\<lambda>k v bs. (kSuccess, bs @ [block v])) bs = (kSuccess, bs @ map (\<lambda>(k, e). block e) m)" for bs
    by (induction m arbitrary: bs) auto
  then show ?thesis by (simp add: active_blocks_def)
qed

lemma active_blocks_live:
  assumes "index_wf m" "one_owner m"
  shows "distinct (active_blocks m)" "set (active_blocks m) = live_blocks m"
proof -
  have d: "distinct (map fst m)" using assms(1) by (simp add: index_wf_def)
  have mem: "(k, e) \<in> set m \<longleftrightarrow> index_map m k = Some e" for k e using d by (simp add: index_map_def)
  have "inj_on (\<lambda>(k, e). block e) (set m)"
  proof (rule inj_onI, clarify)
    fix k e k' e'
    assume "(k, e) \<in> set m" "(k', e') \<in> set m" and b: "block e = block e'"
    then have m: "index_map m k = Some e" "index_map m k' = Some e'" using mem by simp_all
    have "k = k'" by (rule one_ownerD [OF assms(2) m b])
    then show "k = k' \<and> e = e'" using m by simp
  qed
  then show "distinct (active_blocks m)" using d by (simp add: active_blocks_map distinct_map)
  show "set (active_blocks m) = live_blocks m" using mem by (force simp: active_blocks_map live_blocks_def)
qed

text \<open>The entries depend on the index only through its map.\<close>

lemma entries_same_map:
  assumes "entries_hold m content kv" "index_wf m'" "index_map m' = index_map m"
  shows "entries_hold m' content kv" "live_blocks m' = live_blocks m"
  using assms by (simp_all add: entries_hold_def one_owner_def live_blocks_def)

lemma verify_healthy:
  assumes "kd_script (io_kdev io) = []"
    and "\<forall>(k, e) \<in> set m. unat (block_idx (block e)) < io_block_count io
       \<and> block_offset (unat (block_idx (block e))) + kValueSize \<le> kd_size (io_kdev io)"
  shows "\<exists>bad'. ForEach m verify_visit (io, bad) = (kSuccess, io, bad')"
  using assms(2)
proof (induction m arbitrary: bad)
  case (Cons x m)
  obtain k e where x: "x = (k, e)" by fastforce
  have "SyncIo_Read io (unat (block_idx (block e)))
      = (kSuccess, kread (kd_data (io_kdev io)) (block_offset (unat (block_idx (block e)))) kValueSize, io)"
    using Cons.prems x ReadExact_ok [OF assms(1)] by (simp add: SyncIo_Read_def)
  then show ?case using Cons x by (simp add: verify_visit_def)
qed simp

lemma pool_lend:
  assumes "pool_owns p {}" "0 < bp_block_count p"
  obtains b p' where "Allocate p = (Some b, p')" "pool_owns (Free p' b) {}" "bp_block_count (Free p' b) = bp_block_count p"
proof -
  have "bp_free_list p \<noteq> []" using assms by (auto simp: pool_owns_def pool_buffers_def)
  then obtain b p' where a: "Allocate p = (Some b, p')" by (simp add: Allocate_def)
  note A = Allocate_owns [OF assms(1) a]
  have "pool_owns (Free p' b) {}" using A by (auto simp: pool_owns_def Free_def pool_buffers_def)
  moreover have "bp_block_count (Free p' b) = bp_block_count p" using a by (auto simp: Allocate_def Free_def split: if_splits)
  ultimately show thesis using that a by blast
qed

section \<open>Recovery of the device\<close>

text \<open>The devices after the failure answer again; each byte of the data device and of the log is its
  durable or its last written value, and so is each header block of the snapshot.\<close>

definition power_lost :: "reactor \<Rightarrow> device_group \<Rightarrow> bool" where
  "power_lost r g \<longleftrightarrow>
     kd_script (g_data g) = [] \<and> kd_durable (g_data g) = kd_data (g_data g) \<and> kd_size (g_data g) = kd_size (io_kdev (dc_io r))
     \<and> (\<forall>i. kd_data (g_data g) i \<in> {kd_durable (io_kdev (dc_io r)) i, kd_data (io_kdev (dc_io r)) i})
     \<and> crash_image (w_dev (dc_wal r)) (kd_data (g_wal g)) \<and> snap_crash (dc_snapshot r) (kd_data (g_snap g))"

text \<open>The engine is opened again at the strict level, with the buffer sizes and on the devices it had.\<close>

definition same_setup :: "reactor \<Rightarrow> device_group \<Rightarrow> options \<Rightarrow> bool" where
  "same_setup r g opts \<longleftrightarrow> o_wal_level opts = Strict
     \<and> restart (dc_wal r) (kd_data (g_wal g)) (g_wal g) opts \<and> snap_config (dc_snapshot r) (g_snap g) opts (dc_super_block r)
     \<and> 0 < rx_blocks r \<and> rx_blocks r \<le> (kd_size (g_data g) - kDataRegionOffset) div kValueSize"

text \<open>The context \<open>OpenDevice\<close> hands to \<open>RecoverDevice\<close>.\<close>

definition reopened_context :: "reactor \<Rightarrow> device_group \<Rightarrow> device_context \<Rightarrow> bool" where
  "reopened_context r g dc \<longleftrightarrow>
     dc_io dc = \<lparr>io_open = True, io_block_count = (kd_size (g_data g) - kDataRegionOffset) div kValueSize,
       io_level = Some Strict, io_kdev = g_data g\<rparr>
     \<and> dc_wal dc = wal_closed (g_wal g) \<and> dc_snapshot dc = snapshot_fresh (g_snap g) \<and> dc_index dc = index_empty
     \<and> dc_super_block dc = dc_super_block r \<and> pool_owns (dc_pool dc) {} \<and> 0 < bp_block_count (dc_pool dc)"

lemma Reactor_new_fields [simp]:
  "dc_io (Reactor_new dc opts clk) = SyncIo_RebindOptions (dc_io dc) (Some (o_wal_level opts))"
  "dc_wal (Reactor_new dc opts clk) = Wal_RebindOptions (dc_wal dc) (o_wal_level opts)"
  "dc_snapshot (Reactor_new dc opts clk) = Snapshot_RebindOptions (dc_snapshot dc) opts"
  "dc_pool (Reactor_new dc opts clk) = dc_pool dc" "dc_alloc (Reactor_new dc opts clk) = dc_alloc dc"
  "dc_index (Reactor_new dc opts clk) = dc_index dc" "dc_super_block (Reactor_new dc opts clk) = dc_super_block dc"
  by (simp_all add: Reactor_new_def device_context.extend_def)

lemma snap_rebind:
  assumes "o_snapshot_buffer_size opts \<le> 2 ^ 38"
  shows "snap_inv s cov idx W \<Longrightarrow> snap_inv (Snapshot_RebindOptions s opts) cov idx W"
    "snap_ready s \<Longrightarrow> snap_ready (Snapshot_RebindOptions s opts)"
proof -
  let ?s = "Snapshot_RebindOptions s opts"
  have g: "snap_geo s \<Longrightarrow> snap_geo ?s" using assms by (simp add: snap_geo_def Snapshot_RebindOptions_def)
  have i: "snap_image ?s = snap_image s" by (rule view_cong; simp add: Snapshot_RebindOptions_def)
  show "snap_inv s cov idx W \<Longrightarrow> snap_inv ?s cov idx W"
    using g unfolding snap_inv_def i by (simp add: Snapshot_RebindOptions_def)
  show "snap_ready s \<Longrightarrow> snap_ready ?s"
    using g unfolding snap_ready_def by (simp add: Snapshot_RebindOptions_def)
qed

text \<open>The live blocks survive.\<close>

lemma blocks_survive:
  assumes st: "rx_stable r" and p: "power_lost r g" and b: "b \<in> live_blocks (dc_index r)"
  shows "kread (kd_data (g_data g)) (block_offset (unat (block_idx b))) kValueSize = io_content (dc_io r) (unat (block_idx b))"
proof (rule nth_equalityI)
  let ?o = "block_offset (unat (block_idx b))" and ?d = "io_kdev (dc_io r)"
  fix i
  assume "i < length (kread (kd_data (g_data g)) ?o kValueSize)"
  then have i: "i < kValueSize" by simp
  have "kread (kd_durable ?d) ?o kValueSize ! i = kread (kd_data ?d) ?o kValueSize ! i"
    using st b by (simp add: rx_stable_def io_stable_def io_content_def)
  then have "kd_durable ?d (?o + i) = kd_data ?d (?o + i)" using i by simp
  moreover have "kd_data (g_data g) (?o + i) \<in> {kd_durable ?d (?o + i), kd_data ?d (?o + i)}"
    using p unfolding power_lost_def by blast
  ultimately show "kread (kd_data (g_data g)) ?o kValueSize ! i = io_content (dc_io r) (unat (block_idx b)) ! i"
    using i by (simp add: io_content_def)
qed (simp add: io_content_def)

text \<open>The allocator of a recovered index: the live blocks are taken, the others free.\<close>

lemma rebuild_live:
  assumes h: "rx_holds r kv" and wf: "index_wf m" "index_map m = index_map (dc_index r)"
  obtains a where "RebuildFromActive (rx_device r) (rx_blocks r) (active_blocks m) = (kSuccess, a)"
    "ring.owns a (live_blocks (dc_index r)) (device_blocks (rx_device r) (rx_blocks r))"
proof -
  let ?all = "device_blocks (rx_device r) (rx_blocks r)"
  have e: "entries_hold (dc_index r) (io_content (dc_io r)) kv" and n: "rx_blocks r \<le> 2 ^ 56"
    and o: "ring.owns (dc_alloc r) (live_blocks (dc_index r)) ?all" using h by (simp_all add: rx_state_def)
  note E = entries_same_map [OF e wf]
  note A = active_blocks_live [OF entries_holdD(1,2) [OF E(1)]]
  have sub: "set (active_blocks m) \<subseteq> ?all" using o A(2) E(2) by (auto simp: ring.owns_def)
  then have on: "\<forall>b \<in> set (active_blocks m). dev b = rx_device r" using mem_device_blocks [OF n] by blast
  obtain c a where run: "RebuildFromActive (rx_device r) (rx_blocks r) (active_blocks m) = (c, a)" by fastforce
  note R = RebuildFromActive_outcome [OF n on run]
  then have "c = kSuccess" using sub A(1) by blast
  then show thesis using that run R A(2) E(2) by auto
qed

text \<open>What a recovered context has to be for its reactor to be safe.\<close>

lemma recovered_safe:
  assumes S: "rx_safe n r kv" and P: "power_lost r g" and C: "same_setup r g opts"
    and L: "rx_logged r log h cov idx (index_map (dc_index r))" "length log + n + 2 ^ 32 < 2 ^ 64"
    and io: "io_kdev (dc_io dc) = g_data g" "rx_blocks r \<le> io_block_count (dc_io dc)"
    and sb: "dc_super_block dc = dc_super_block r"
    and ix: "index_wf (dc_index dc)" "index_map (dc_index dc) = index_map (dc_index r)"
    and al: "ring.owns (dc_alloc dc) (live_blocks (dc_index r)) (device_blocks (rx_device r) (rx_blocks r))"
    and pl: "pool_owns (dc_pool dc) {}" "0 < bp_block_count (dc_pool dc)"
    and w: "wal_inv (dc_wal dc) log (32 * (cov div 32)) (length log)" "synced_log (dc_wal dc) log"
      "w_level (dc_wal dc) = Strict"
    and s: "snap_inv (dc_snapshot dc) cov idx {}" "snap_ready (dc_snapshot dc)"
      "sn_slot_size (dc_snapshot dc) = sn_slot_size (dc_snapshot r)" "sn_next_gen (dc_snapshot dc) \<le> sn_next_gen (dc_snapshot r)"
  shows "rx_safe n (Reactor_new dc opts clk) kv"
proof -
  let ?r = "Reactor_new dc opts clk"
  note D = rx_safeD [OF S] and l = L(1) [unfolded rx_logged_def]
  have lv: "o_wal_level opts = Strict" using C by (simp add: same_setup_def)
  have sz: "o_snapshot_buffer_size opts \<le> 2 ^ 38" using C by (simp add: same_setup_def snap_config_def)
  have e: "entries_hold (dc_index r) (io_content (dc_io r)) kv" "rx_blocks r \<le> 2 ^ 56" using D(1) by (simp_all add: rx_state_def)
  note E = entries_same_map [OF e(1) ix]
  have ct: "io_content (dc_io ?r) (unat (block_idx b)) = io_content (dc_io r) (unat (block_idx b))"
    "io_stable (dc_io ?r) (unat (block_idx b)) = io_content (dc_io ?r) (unat (block_idx b))"
    if "b \<in> live_blocks (dc_index r)" for b
    using blocks_survive [OF D(3) P that] io(1) P
    by (simp_all add: io_content_def io_stable_def SyncIo_RebindOptions_def power_lost_def)
  have geo: "rx_device ?r = rx_device r" "rx_blocks ?r = rx_blocks r" using sb by (simp_all add: rx_device_def rx_blocks_def)
  have "entries_hold (dc_index ?r) (io_content (dc_io ?r)) kv"
    using entries_content_cong [OF E(1), of "io_content (dc_io ?r)"] ct(1) E(2) by simp
  then have "rx_holds ?r kv"
    using al pl e(2) io(2) E(2) geo by (simp add: rx_state_def SyncIo_RebindOptions_def)
  moreover have "index_valid (dc_super_block ?r) (dc_index ?r)" using D(2) ix sb by (simp add: index_valid_def)
  moreover have "rx_stable ?r" using ct(2) E(2) by (simp add: rx_stable_def)
  moreover have "io_level (dc_io ?r) = Some Strict" using lv by (simp add: SyncIo_RebindOptions_def)
  moreover have "rx_logged ?r log (32 * (cov div 32)) cov idx (index_map (dc_index ?r))"
  proof -
    have "dc_wal ?r = dc_wal dc" using w(3) lv by (simp add: Wal_RebindOptions_def)
    moreover have "sn_slot_size (dc_snapshot ?r) = sn_slot_size (dc_snapshot r)" using s(3) by (simp add: Snapshot_RebindOptions_def)
    ultimately show ?thesis
      using l w snap_rebind [OF sz, of "dc_snapshot dc"] s(1,2) geo(2) sb ix(2) by (simp add: rx_logged_def)
  qed
  moreover have "sn_next_gen (dc_snapshot ?r) + 2 * n + 2 < 2 ^ 64" using D(6) s(4) by (simp add: Snapshot_RebindOptions_def)
  ultimately show ?thesis using L(2) unfolding rx_safe_def by blast
qed

lemma RecoverDevice_restores:
  assumes S: "rx_safe n r kv" and P: "power_lost r g" and C: "same_setup r g opts" and X: "reopened_context r g dc"
  obtains dc' where "RecoverDevice opts dc = Some (kSuccess, dc')" "rx_safe n (Reactor_new dc' opts clk) kv"
proof -
  note D = rx_safeD [OF S] and x = X [unfolded reopened_context_def] and c = C [unfolded same_setup_def]
  obtain log h cov idx where L: "rx_logged r log h cov idx (index_map (dc_index r))" "length log + n + 2 ^ 32 < 2 ^ 64"
    using D(5) by blast
  note l = L(1) [unfolded rx_logged_def]
  let ?sb = "dc_super_block r"
  obtain m1 m2 where m: "ForEach idx (ApplyRecoveredEntry ?sb) index_empty = (kSuccess, m1)"
    "replay_log (ApplyWalEntry ?sb) 0 (drop cov log) m1 = (kSuccess, m2)" "index_wf m2" "index_map m2 = index_map (dc_index r)"
    using l by (auto simp: replays_def)
  have inv: "snap_inv (dc_snapshot r) cov idx {}" and cr: "snap_crash (dc_snapshot r) (kd_data (g_snap g))"
    and cf: "snap_config (dc_snapshot r) (g_snap g) opts ?sb" and g1: "sn_next_gen (dc_snapshot r) + 1 < 2 ^ 64"
    using l P c D(6) by (simp_all add: power_lost_def)
  obtain s where s: "Snapshot_Open (snapshot_fresh (g_snap g)) opts ?sb = Some (kSuccess, s)"
    "snap_inv s cov idx {}" "snap_ready s" "sn_slot_size s = sn_slot_size (dc_snapshot r)"
    "sn_next_gen s \<le> sn_next_gen (dc_snapshot r)" "sn_last_covered s = cov"
    "\<And>(visitor :: bytes \<Rightarrow> value_meta \<Rightarrow> hash_index \<Rightarrow> rc \<times> hash_index) st.
       Snapshot_Load s visitor st = (case ForEach idx visitor st of (c, st') \<Rightarrow> Some (c, st', s))"
    by (rule snap_restart [OF inv cr cf g1]) blast
  have winv: "wal_inv (dc_wal r) log h (length log)" and wsy: "synced_log (dc_wal r) log" and lc: "h \<le> cov" "cov \<le> length log"
    and wcr: "crash_image (w_dev (dc_wal r)) (kd_data (g_wal g))" and wre: "restart (dc_wal r) (kd_data (g_wal g)) (g_wal g) opts"
    using l P c by (simp_all add: power_lost_def)
  have len: "length log + 2 ^ 32 < 2 ^ 64" using L(2) by simp
  have dl: "replay_log (ApplyWalEntry ?sb) cov (drop cov log) m1 = (kSuccess, m2)" using m(2) replay_log_shift by metis
  obtain w1 w2 where w: "Wal_Open (wal_closed (g_wal g)) opts = (kSuccess, w1)"
    "Wal_Recover w1 cov (ApplyWalEntry ?sb) m1 = Some (kSuccess, m2, w2)"
    "wal_inv w2 log (32 * (cov div 32)) (length log)" "synced_log w2 log" "w_level w2 = o_wal_level opts"
    by (rule wal_restart [OF winv wsy wcr lc len wre dl])
  obtain a where a: "RebuildFromActive (rx_device r) (rx_blocks r) (active_blocks m2) = (kSuccess, a)"
    "ring.owns a (live_blocks (dc_index r)) (device_blocks (rx_device r) (rx_blocks r))"
    by (rule rebuild_live [OF D(1) m(3,4)])
  let ?dc = "dc\<lparr>dc_snapshot := s, dc_wal := w2, dc_index := m2, dc_alloc := a\<rparr>"
  have run: "RecoverDevice opts dc = (if o_verify_value_crc opts then Some (VerifyValuesCrc ?dc) else Some (kSuccess, ?dc))"
    using x s(1,6,7) m(1) w(1,2) a(1)
    by (simp add: RecoverDevice_def Let_def RebuildAllocator_def rx_device_def rx_blocks_def)
  have safe: "rx_safe n (Reactor_new d opts clk) kv"
    if "dc_io d = dc_io dc" "dc_super_block d = ?sb" "dc_index d = m2" "dc_alloc d = a" "dc_wal d = w2" "dc_snapshot d = s"
      "pool_owns (dc_pool d) {}" "0 < bp_block_count (dc_pool d)" for d
    by (rule recovered_safe [OF S P C L]) (use that x c m(3,4) a(2) w(3-5) s(2-5) in simp_all)
  show thesis
  proof (cases "o_verify_value_crc opts")
    case False
    then show thesis using that [of ?dc] run x by (simp add: safe)
  next
    case True
    have live: "unat (block_idx (block e)) < rx_blocks r" if "(k, e) \<in> set m2" for k e
    proof -
      have "index_map m2 k = Some e" using that m(3) by (simp add: index_map_def index_wf_def)
      then have "block e \<in> live_blocks (dc_index r)" using m(4) live_blocksI by metis
      then have "block e \<in> device_blocks (rx_device r) (rx_blocks r)" using a(2) by (auto simp: ring.owns_def)
      then show ?thesis using D(1) mem_device_blocks by (simp add: rx_state_def)
    qed
    have fits: "unat (block_idx (block e)) < io_block_count (dc_io dc)
      \<and> block_offset (unat (block_idx (block e))) + kValueSize \<le> kd_size (io_kdev (dc_io dc))" if "(k, e) \<in> set m2" for k e
    proof -
      let ?q = "(kd_size (g_data g) - kDataRegionOffset) div kValueSize" and ?b = "unat (block_idx (block e))"
      have b: "?b < ?q" using live [OF that] c by linarith
      then have "Suc ?b * kValueSize \<le> ?q * kValueSize" by (intro mult_le_mono1) simp
      also have "\<dots> \<le> kd_size (g_data g) - kDataRegionOffset" by simp
      finally have le: "Suc ?b * kValueSize \<le> kd_size (g_data g) - kDataRegionOffset" .
      have "0 < Suc ?b * kValueSize" by (simp add: kValueSize_def)
      then have "kDataRegionOffset + Suc ?b * kValueSize \<le> kd_size (g_data g)" using le by linarith
      then show ?thesis using b x by (simp add: block_offset_def)
    qed
    have sc: "kd_script (io_kdev (dc_io dc)) = []" using x P by (simp add: power_lost_def)
    obtain bad where v: "ForEach m2 verify_visit (dc_io dc, 0) = (kSuccess, dc_io dc, bad)"
      using verify_healthy [OF sc, of m2 0] fits by fastforce
    obtain b p where p: "Allocate (dc_pool dc) = (Some b, p)" "pool_owns (Free p b) {}" "bp_block_count (Free p b) = bp_block_count (dc_pool dc)"
      using pool_lend [of "dc_pool dc"] x by metis
    have "VerifyValuesCrc ?dc = (kSuccess, ?dc\<lparr>dc_io := dc_io dc, dc_pool := Free p b\<rparr>)"
      using p(1) v by (simp add: VerifyValuesCrc_def)
    then show thesis
      using that [of "?dc\<lparr>dc_io := dc_io dc, dc_pool := Free p b\<rparr>"] run True x p by (simp add: safe)
  qed
qed

end
