(* ===== verification/Cabe_DeviceLife.thy ===== *)
theory Cabe_DeviceLife
  imports Cabe_DeviceRestart
begin

text \<open>
  Opening a device group: on a new one the reactor starts with the empty map, and after a power
  failure at the strict level it has the map of the operations that were acknowledged.
\<close>

section \<open>Opening in create mode\<close>

lemma SyncIo_Open_healthy:
  assumes "kd_script d = []" "0 < (kd_size d - kDataRegionOffset) div kValueSize"
  shows "SyncIo_Open (sync_io_closed d) lvl = (kSuccess, \<lparr>io_open = True,
    io_block_count = (kd_size d - kDataRegionOffset) div kValueSize, io_level = lvl, io_kdev = d\<rparr>)"
proof -
  have "\<not> kd_size d \<le> kDataRegionOffset" using assms(2) by (cases "kd_size d \<le> kDataRegionOffset") simp_all
  then show ?thesis using assms by (simp add: SyncIo_Open_def sync_io_closed_def sys_simple_def Let_def)
qed

lemma Wal_Open_dev:
  assumes "Wal_Open (wal_closed d) opts = (kSuccess, w)"
  shows "rd_contents (w_dev w) = kd_data d" "rd_durable (w_dev w) = kd_durable d"
proof -
  obtain c0 dv where op: "RawDevice_Open (raw_closed d) = (c0, dv)" by fastforce
  obtain a d2 where al: "AllocAligned dv = (a, d2)" by fastforce
  have dz: "w_dev (wal_closed d) = raw_closed d" by (simp add: wal_closed_def)
  note O = assms [unfolded Wal_Open_def dz op prod.case Let_def al]
  have "w_dev w = dv \<or> w_dev w = d2" using O by (auto split: if_splits)
  then show "rd_contents (w_dev w) = kd_data d" "rd_durable (w_dev w) = kd_durable d"
    using Open_cases(2,3) [OF op] AllocAligned_frame(4,5) [OF al] by (auto simp: rd_contents_def rd_durable_def)
qed

text \<open>A ring without frames, as on a device never used for a log.\<close>

definition blank_ring :: "kdev \<Rightarrow> bool" where
  "blank_ring d \<longleftrightarrow> (\<forall>k. \<not> is_frame (kread (kd_data d) (kDataRegionOffset + 128 * k) 128))"

lemma created_wal_logged:
  assumes run: "Wal_Open (wal_closed d) opts = (kSuccess, w)" and cr: "o_create opts" "o_wal_buffer_size opts \<le> 2 ^ 38"
    and d: "kd_durable d = kd_data d" "blank_ring d"
  shows "wal_inv w [] 0 0" "synced_log w []" "w_level w = o_wal_level opts"
proof -
  note W = Wal_Open_create [OF run cr] and V = Wal_Open_dev [OF run]
  show "wal_inv w [] 0 0" "w_level w = o_wal_level opts" using W by simp_all
  have win: "wal_win w [] 0" using W(1) by (simp add: wal_inv_def)
  have g: "wal_geo w" by (rule wal_winD(1) [OF win])
  have "w_n_frames w = 0" using wal_winD(5) [OF win] by simp
  moreover have "honest_ring (kd_data d) w []"
    unfolding honest_ring_def slot_bytes_def
    using d(2) g by (simp add: slot_off_mod [OF g] wal_geo_def blank_ring_def)
  ultimately show "synced_log w []" using V d(1) by (simp add: synced_log_def)
qed

lemma created_snapshot:
  assumes run: "Snapshot_Open (snapshot_fresh d) opts sb = Some (kSuccess, s)" and cr: "o_create opts"
    "o_snapshot_buffer_size opts \<le> 2 ^ 38"
    and d: "kd_script d = []" "kd_size d < 2 ^ 63" and sb: "length (sb_engine_uuid sb) = kUuidBytes"
    and n: "unat (sb_block_count sb) \<le> 2 ^ 44"
  shows "snap_inv s 0 [] {}" "snap_ready s" "4096 + 128 * unat (sb_block_count sb) \<le> sn_slot_size s" "sn_next_gen s = 1"
proof -
  let ?n = "unat (sb_block_count sb)" and ?S = "SnapshotSlotSize (kd_size d)"
  have op: "RawDevice_Open (sn_dev (snapshot_fresh d)) = (kSuccess, \<lparr>fd_open = True, size_bytes = kd_size d, kdev = d\<rparr>)"
    using healthy_Open [OF d(1)] by (simp add: snapshot_fresh_def)
  note R = run [unfolded Snapshot_Open_def op prod.case Let_def]
  have fit: "?S \<noteq> 0" "(kSnapshotSlotHeaderSize + AlignUp (?n * kSnapshotRecordSize mod 2 ^ 64) kSnapshotBlockSize) mod 2 ^ 64 \<le> ?S"
    using R by (auto simp: RawDevice_SizeBytes_def snap_failed_def split: if_splits)
  note I = Open_create_inv [OF run cr(1) refl cr(2) sb d(2)]
  show "snap_inv s 0 [] {}" "sn_next_gen s = 1" using I by simp_all
  show "snap_ready s" using Open_create_healthy [OF d cr sb fit] run by simp
  have m: "?n * 128 mod 2 ^ 64 = ?n * 128" using n by simp
  have "?n * 128 \<le> AlignUp (?n * 128) 4096" by (rule AlignUp_ge) (use n in simp_all)
  moreover have "AlignUp (?n * 128) 4096 < ?n * 128 + 4096" by (rule AlignUp_less) (use n in simp_all)
  then have "(4096 + AlignUp (?n * 128) 4096) mod 2 ^ 64 = 4096 + AlignUp (?n * 128) 4096" using n by simp
  ultimately show "4096 + 128 * ?n \<le> sn_slot_size s" using fit(2) I m by (simp add: kSnapshot_numbers)
qed

text \<open>The devices of a group that was just created: durable, and untouched behind the header.\<close>

lemma created_group_devices:
  fixes g :: device_group and now i c :: u64
  assumes u: "GroupUuids entropy = Some u"
  defines "G \<equiv> created_group g u now i c"
  shows "kd_durable (g_data G) = kd_data (g_data G)" "kd_durable (g_wal G) = kd_data (g_wal G)"
    "kd_size (g_data G) = kd_size (g_data g)" "kd_size (g_snap G) = kd_size (g_snap g)"
    "kd_script (g_data G) = kd_script (g_data g)" "kd_script (g_snap G) = kd_script (g_snap g)"
    "blank_ring (g_wal g) \<Longrightarrow> blank_ring (g_wal G)"
proof -
  show "kd_durable (g_data G) = kd_data (g_data G)" "kd_durable (g_wal G) = kd_data (g_wal G)"
    "kd_size (g_data G) = kd_size (g_data g)" "kd_size (g_snap G) = kd_size (g_snap g)"
    "kd_script (g_data G) = kd_script (g_data g)" "kd_script (g_snap G) = kd_script (g_snap g)"
    by (simp_all add: G_def created_group_def)
  have wf: "sb_wf (make_wal_sb u i c now)" using make_sb_props [OF u] by simp
  have "rd_contents (pair_written (opened (g_wal g)) (make_wal_sb u i c now)) k = kd_data (g_wal g) k"
    if "kDataRegionOffset \<le> k" for k
    using sb_bytes_length [OF wf] that
    by (simp add: pair_written_def kwrite_outside kDataRegionOffset_8K kSuperBlockSize_def)
  then have "kd_data (g_wal G) k = kd_data (g_wal g) k" if "kDataRegionOffset \<le> k" for k
    using that by (simp add: G_def created_group_def)
  then have same: "kread (kd_data (g_wal G)) (kDataRegionOffset + 128 * k) 128
      = kread (kd_data (g_wal g)) (kDataRegionOffset + 128 * k) 128" for k
    by (intro kread_cong) simp
  show "blank_ring (g_wal g) \<Longrightarrow> blank_ring (g_wal G)" by (simp add: blank_ring_def same)
qed

text \<open>A context with an empty index, a full allocator and a fresh log and snapshot.\<close>

lemma created_safe:
  assumes n: "n < 2 ^ 62" and lvl: "o_wal_level opts = Strict" and sz: "o_snapshot_buffer_size opts \<le> 2 ^ 38"
    and b: "unat (sb_block_count (dc_super_block dc)) \<le> 2 ^ 44"
      "unat (sb_block_count (dc_super_block dc)) \<le> io_block_count (dc_io dc)"
    and dc: "dc_index dc = index_empty" "dc_pool dc = BufferPool_new base k" "0 < k"
      "dc_alloc dc = snd (ring_Init (ucast (sb_device_id (dc_super_block dc))) (unat (sb_block_count (dc_super_block dc))))"
    and w: "wal_inv (dc_wal dc) [] 0 0" "synced_log (dc_wal dc) []" "w_level (dc_wal dc) = Strict"
    and s: "snap_inv (dc_snapshot dc) 0 [] {}" "snap_ready (dc_snapshot dc)" "sn_next_gen (dc_snapshot dc) = 1"
      "4096 + 128 * unat (sb_block_count (dc_super_block dc)) \<le> sn_slot_size (dc_snapshot dc)"
  shows "rx_safe n (Reactor_new dc opts clk) Map.empty"
proof -
  let ?r = "Reactor_new dc opts clk"
  have dce: "dc = fresh_context (dc_io dc) (dc_wal dc) (dc_snapshot dc) (dc_super_block dc) base k"
    using dc by (simp add: fresh_context_def)
  have h: "rx_holds ?r Map.empty"
    by (subst dce, rule fresh_holds) (use b dc(3) in simp_all)
  have wal: "dc_wal ?r = dc_wal dc" using w(3) lvl by (simp add: Wal_RebindOptions_def)
  have sn: "sn_slot_size (dc_snapshot ?r) = sn_slot_size (dc_snapshot dc)" "sn_next_gen (dc_snapshot ?r) = 1"
    using s(3) by (simp_all add: Snapshot_RebindOptions_def)
  have "replays (dc_super_block ?r) [] [] (index_map (dc_index ?r))"
    using dc(1) by (simp add: replays_def)
  then have "rx_logged ?r [] 0 0 [] (index_map (dc_index ?r))"
    using w wal snap_rebind(1) [OF sz s(1)] snap_rebind(2) [OF sz s(2)] s(4) sn(1)
    by (simp add: rx_logged_def rx_blocks_def)
  then have "\<exists>log h cov idx. rx_logged ?r log h cov idx (index_map (dc_index ?r)) \<and> length log + n + 2 ^ 32 < 2 ^ 64"
    using n by (intro exI [of _ "[]"] exI [of _ 0]) auto
  then show ?thesis
    using h n lvl sn(2) dc(1)
    by (simp add: rx_safe_def index_valid_def rx_stable_def live_blocks_def SyncIo_RebindOptions_def)
qed

lemma OpenDevice_create_fields:
  assumes run: "OpenDevice eopts env i count pid g = Some (kSuccess, dc, po, pid')"
    and opts: "opts = options.truncate eopts" "o_create opts" "o_wal_level opts = Strict"
    and g: "group_ok g" "kd_size (g_data g) < 2 ^ 63" and u: "GroupUuids (en_entropy env) = Some u"
    and G: "G = created_group g u (en_now env) (of_nat i) (of_nat count)"
    and n: "nb = (kd_size (g_data g) - kDataRegionOffset) div kValueSize"
    and sb: "sb = make_data_sb u (data_blocks (opened (g_data g))) (of_nat i) (of_nat count) (en_now env)"
  shows "dc_io dc = \<lparr>io_open = True, io_block_count = nb, io_level = Some Strict, io_kdev = g_data G\<rparr>"
    "Wal_Open (wal_closed (g_wal G)) opts = (kSuccess, dc_wal dc)"
    "Snapshot_Open (snapshot_fresh (g_snap G)) opts sb = Some (kSuccess, dc_snapshot dc)"
    "dc_pool dc = BufferPool_new (en_pool_base env) kDefaultPoolBlocks"
    "dc_alloc dc = snd (ring_Init (ucast (sb_device_id sb)) (unat (sb_block_count sb)))"
    "dc_index dc = index_empty" "dc_super_block dc = sb"
    "unat (sb_block_count sb) = nb" "0 < nb" "nb \<le> 2 ^ 44" "length (sb_engine_uuid sb) = kUuidBytes"
proof -
  let ?nb = "data_blocks (opened (g_data g))"
  note C = CreateDeviceGroup_ok [OF g(1) u, of "en_now env" "of_nat i" "of_nat count", folded G sb]
  note D = created_group_devices [OF u, of g "en_now env" "of_nat i" "of_nat count", folded G]
  have nb: "?nb = nb" by (simp add: n data_blocks_def RawDevice_SizeBytes_def)
  have "kDataRegionOffset + kValueSize \<le> kd_size (g_data g)" using g(1) by (simp add: group_ok_def)
  then have "kValueSize \<le> kd_size (g_data g) - kDataRegionOffset" by linarith
  then show nb0: "0 < nb" by (simp add: n div_greater_zero_iff kValueSize_def)
  show big: "nb \<le> 2 ^ 44" using g(2) by (simp add: n kValueSize_def)
  have "sb_block_count sb = of_nat nb" unfolding sb nb by (cases u) (simp add: make_data_sb_def sb_common_def)
  then show ub: "unat (sb_block_count sb) = nb" using big by (simp add: unat_of_nat)
  show "length (sb_engine_uuid sb) = kUuidBytes" using make_sb_props [OF u] by (simp add: sb sb_wf_def kUuidBytes_def)
  have sc: "kd_script (g_data g) = []" using g(1) by (simp add: group_ok_def)
  let ?io = "\<lparr>io_open = True, io_block_count = nb, io_level = Some Strict, io_kdev = g_data G\<rparr>"
  have io: "SyncIo_Open (sync_io_closed (g_data G)) (Some Strict) = (kSuccess, ?io)"
    using SyncIo_Open_healthy [of "g_data G" "Some Strict"] D(3,5) sc n nb0 by simp
  obtain c2 po2 where pl: "Create_pool (ucast (sb_device_id sb)) pid (eo_value_buffer_pool_blocks eopts)
      (en_value_base env) (en_heap env) = (c2, po2)" by fastforce
  obtain c4 w where wo: "Wal_Open (wal_closed (g_wal G)) opts = (c4, w)" by fastforce
  have "c4 = kSuccess \<and> Snapshot_Open (snapshot_fresh (g_snap G)) opts sb = Some (kSuccess, dc_snapshot dc)
      \<and> dc_io dc = ?io \<and> dc_wal dc = w \<and> dc_pool dc = BufferPool_new (en_pool_base env) kDefaultPoolBlocks
      \<and> dc_alloc dc = snd (ring_Init (ucast (sb_device_id sb)) (unat (sb_block_count sb)))
      \<and> dc_index dc = index_empty \<and> dc_super_block dc = sb"
    using run C io ub pl wo unfolding OpenDevice_def Let_def opts(1) [symmetric]
    by (auto simp: opts(2,3) dc_default_def SyncIo_BlockCount_def split: if_splits)
  then show "dc_io dc = ?io" "Wal_Open (wal_closed (g_wal G)) opts = (kSuccess, dc_wal dc)"
    "Snapshot_Open (snapshot_fresh (g_snap G)) opts sb = Some (kSuccess, dc_snapshot dc)"
    "dc_pool dc = BufferPool_new (en_pool_base env) kDefaultPoolBlocks"
    "dc_alloc dc = snd (ring_Init (ucast (sb_device_id sb)) (unat (sb_block_count sb)))"
    "dc_index dc = index_empty" "dc_super_block dc = sb"
    using wo by simp_all
qed

text \<open>The reactor of a device group on which an engine has just been created, at the strict level: the
  devices answer, and the log's ring holds no frames of an earlier life.\<close>

definition newly_created :: "engine_options \<Rightarrow> open_env \<Rightarrow> device_group \<Rightarrow> reactor \<Rightarrow> bool" where
  "newly_created eopts env g r \<longleftrightarrow>
     o_create (options.truncate eopts) \<and> o_wal_level (options.truncate eopts) = Strict
     \<and> o_wal_buffer_size (options.truncate eopts) \<le> 2 ^ 38 \<and> o_snapshot_buffer_size (options.truncate eopts) \<le> 2 ^ 38
     \<and> group_ok g \<and> kd_size (g_data g) < 2 ^ 63 \<and> kd_size (g_snap g) < 2 ^ 63 \<and> blank_ring (g_wal g)
     \<and> GroupUuids (en_entropy env) \<noteq> None
     \<and> (\<exists>i count pid dc po pid' clk. OpenDevice eopts env i count pid g = Some (kSuccess, dc, po, pid')
          \<and> r = Reactor_new dc (options.truncate eopts) clk)"

lemma newly_created_safe:
  assumes N: "newly_created eopts env g r" and n: "n < 2 ^ 62"
  shows "rx_safe n r Map.empty"
proof -
  define opts where "opts = options.truncate eopts"
  note h = N [unfolded newly_created_def, folded opts_def]
  obtain u where u: "GroupUuids (en_entropy env) = Some u" using h by blast
  obtain i count pid dc po pid' clk where run: "OpenDevice eopts env i count pid g = Some (kSuccess, dc, po, pid')"
    and r: "r = Reactor_new dc opts clk" using h by blast
  have o: "o_create opts" "o_wal_level opts = Strict" "o_wal_buffer_size opts \<le> 2 ^ 38" "o_snapshot_buffer_size opts \<le> 2 ^ 38"
    and g: "group_ok g" "kd_size (g_data g) < 2 ^ 63" "kd_size (g_snap g) < 2 ^ 63" "blank_ring (g_wal g)"
    using h by simp_all
  note F = OpenDevice_create_fields [OF run opts_def o(1,2) g(1,2) u refl refl refl]
  note G = created_group_devices [OF u, of g "en_now env" "of_nat i" "of_nat count"]
  note W = created_wal_logged [OF F(2) o(1,3) G(2) G(7) [OF g(4)]]
  have S: "kd_script (g_snap (created_group g u (en_now env) (of_nat i) (of_nat count))) = []"
    "kd_size (g_snap (created_group g u (en_now env) (of_nat i) (of_nat count))) < 2 ^ 63"
    "unat (sb_block_count (make_data_sb u (data_blocks (opened (g_data g))) (of_nat i) (of_nat count) (en_now env))) \<le> 2 ^ 44"
    using G(4,6) g F(8,10) by (simp_all add: group_ok_def)
  note S' = created_snapshot [OF F(3) o(1,4) S(1,2) F(11) S(3)]
  have wl: "w_level (dc_wal dc) = Strict" using W(3) o(2) by simp
  have b: "unat (sb_block_count (dc_super_block dc)) \<le> 2 ^ 44" "unat (sb_block_count (dc_super_block dc)) \<le> io_block_count (dc_io dc)"
    "4096 + 128 * unat (sb_block_count (dc_super_block dc)) \<le> sn_slot_size (dc_snapshot dc)"
    "dc_alloc dc = snd (ring_Init (ucast (sb_device_id (dc_super_block dc))) (unat (sb_block_count (dc_super_block dc))))"
    unfolding F(7) using S(3) S'(3) F(1,5,8) by simp_all
  have k: "0 < kDefaultPoolBlocks" by (simp add: kDefaultPoolBlocks_def)
  show ?thesis
    unfolding r by (rule created_safe [OF n o(2,4) b(1,2) F(6,4) k b(4) W(1,2) wl S'(1,2,4) b(3)])
qed

section \<open>Opening again\<close>

lemma RegisterValueBufferPool_ok: "RegisterValueBufferPool dc p = kSuccess"
  by (simp add: RegisterValueBufferPool_def Let_def ExportSlotViews_def SyncIo_RegisterWriteBuffers_def)

lemma OpenDevice_restores:
  assumes S: "rx_safe n r kv" and P: "power_lost r g'" and C: "same_setup r g' opts"
    and opts: "opts = options.truncate eopts"
    and sb: "RecoverDeviceGroup g (of_nat i) (of_nat count) = (kSuccess, Some (dc_super_block r), g')"
    and pl: "Create_pool (rx_device r) pid (eo_value_buffer_pool_blocks eopts) (en_value_base env) (en_heap env)
      = (kSuccess, Some po)"
  obtains dc where "OpenDevice eopts env i count pid g = Some (kSuccess, dc, Some po, pid + 1)"
    "rx_safe n (Reactor_new dc opts clk) kv"
proof -
  have c: "o_wal_level opts = Strict" "\<not> o_create opts" "0 < rx_blocks r"
    "rx_blocks r \<le> (kd_size (g_data g') - kDataRegionOffset) div kValueSize"
    using C by (simp_all add: same_setup_def restart_def)
  let ?io = "\<lparr>io_open = True, io_block_count = (kd_size (g_data g') - kDataRegionOffset) div kValueSize,
       io_level = Some Strict, io_kdev = g_data g'\<rparr>"
  have io: "SyncIo_Open (sync_io_closed (g_data g')) (Some Strict) = (kSuccess, ?io)"
    by (rule SyncIo_Open_healthy) (use P c in \<open>auto simp: power_lost_def intro: less_le_trans\<close>)
  let ?dc = "(dc_default g')\<lparr>dc_io := ?io, dc_super_block := dc_super_block r,
    dc_pool := BufferPool_new (en_pool_base env) kDefaultPoolBlocks,
    dc_alloc := snd (ring_Init (rx_device r) (rx_blocks r))\<rparr>"
  have X: "reopened_context r g' ?dc"
    using pool_owns_new by (simp add: reopened_context_def dc_default_def kDefaultPoolBlocks_def BufferPool_new_def)
  obtain dc where R: "RecoverDevice opts ?dc = Some (kSuccess, dc)" "rx_safe n (Reactor_new dc opts clk) kv"
    by (rule RecoverDevice_restores [OF S P C X])
  have "OpenDevice eopts env i count pid g = Some (kSuccess, dc, Some po, pid + 1)"
    unfolding OpenDevice_def Let_def opts [symmetric]
    using c io sb pl R(1) by (simp add: dc_default_def rx_device_def rx_blocks_def SyncIo_BlockCount_def RegisterValueBufferPool_ok)
  then show thesis using that R(2) by blast
qed

lemma rx_safe_less: "rx_safe (Suc n) r kv \<Longrightarrow> rx_safe n r kv"
proof -
  assume S: "rx_safe (Suc n) r kv"
  obtain log h cov idx where L: "rx_logged r log h cov idx (index_map (dc_index r))" "length log + Suc n + 2 ^ 32 < 2 ^ 64"
    using S by (auto simp: rx_safe_def)
  then have "length log + n + 2 ^ 32 < 2 ^ 64" by simp
  then show ?thesis using S L(1) unfolding rx_safe_def by auto
qed

text \<open>If opening succeeded, so did the value pool.\<close>

lemma OpenDevice_pool:
  assumes run: "OpenDevice eopts env i count pid g = Some (kSuccess, dc, po, pid')" and cr: "\<not> o_create (options.truncate eopts)"
    and sb: "RecoverDeviceGroup g (of_nat i) (of_nat count) = (kSuccess, Some sb, g')"
  shows "\<exists>p. Create_pool (ucast (sb_device_id sb)) pid (eo_value_buffer_pool_blocks eopts) (en_value_base env) (en_heap env)
    = (kSuccess, Some p)"
proof -
  obtain c io where io: "SyncIo_Open (sync_io_closed (g_data g')) (Some (o_wal_level (options.truncate eopts))) = (c, io)" by fastforce
  obtain c2 po2 where pl: "Create_pool (ucast (sb_device_id sb)) pid (eo_value_buffer_pool_blocks eopts)
      (en_value_base env) (en_heap env) = (c2, po2)" by fastforce
  have "c2 = kSuccess"
    using run sb cr io pl unfolding OpenDevice_def Let_def by (auto simp: dc_default_def split: if_splits)
  moreover have "c2 = kSuccess \<Longrightarrow> po2 \<noteq> None" using pl by (auto simp: Create_pool_def split: if_splits option.splits)
  ultimately show ?thesis using pl by auto
qed

end
