(* ===== verification/Cabe_EngineMap.thy ===== *)
theory Cabe_EngineMap
  imports Cabe_DeviceLife
begin

text \<open>
  The engine as one map: the keys are shared out among the reactors by their hash, a call is checked,
  routed and executed by one reactor or by all of them in turn. Whatever every operation of a
  reactor keeps (locale \<open>reactor_contract\<close>), every call of the engine keeps.
\<close>

section \<open>Calls\<close>

text \<open>A call with its arguments; for a put the memory the value is read from.\<close>

datatype request =
    Put_request bytes data_view "nat \<Rightarrow> u8"
  | Get_request bytes nat
  | Delete_request bytes
  | Level_request wal_level
  | Snapshot_request

definition Engine_serve :: "(bytes \<Rightarrow> u64) \<Rightarrow> engine \<Rightarrow> request \<Rightarrow> rc \<times> bytes option \<times> engine" where
  "Engine_serve Hash e rq =
     (case rq of
        Put_request key v mem \<Rightarrow> (case Engine_Put Hash e key v mem of (c, e') \<Rightarrow> (c, None, e'))
      | Get_request key sz \<Rightarrow> Engine_Get Hash e key sz
      | Delete_request key \<Rightarrow> (case Engine_Delete Hash e key of (c, e') \<Rightarrow> (c, None, e'))
      | Level_request l \<Rightarrow> (case Engine_SetWalLevel e l of (c, e') \<Rightarrow> (c, None, e'))
      | Snapshot_request \<Rightarrow> (case Engine_Snapshot e of (c, e') \<Rightarrow> (c, None, e')))"

text \<open>What a call that returned \<open>c\<close> has done to the map.\<close>

definition kv_served :: "request \<Rightarrow> rc \<Rightarrow> kv \<Rightarrow> kv" where
  "kv_served rq c kv =
     (if c \<noteq> kSuccess then kv else
      case rq of
        Put_request key v mem \<Rightarrow> kv(key \<mapsto> kread mem (dv_addr v) kValueSize)
      | Delete_request key \<Rightarrow> kv(key := None)
      | _ \<Rightarrow> kv)"

section \<open>Shards\<close>

text \<open>The part of the map that reactor \<open>i\<close> of \<open>n\<close> holds.\<close>

definition route :: "(bytes \<Rightarrow> u64) \<Rightarrow> nat \<Rightarrow> bytes \<Rightarrow> nat" where
  "route Hash n key = unat (Hash key) mod n"

definition shard :: "(bytes \<Rightarrow> u64) \<Rightarrow> nat \<Rightarrow> nat \<Rightarrow> kv \<Rightarrow> kv" where
  "shard Hash n i kv = (\<lambda>key. if route Hash n key = i then kv key else None)"

lemma shard_empty [simp]: "shard Hash n i Map.empty = Map.empty"
  by (simp add: shard_def)

lemma shard_own [simp]: "shard Hash n (route Hash n key) kv key = kv key"
  by (simp add: shard_def)

lemma shard_upd:
  "shard Hash n i (kv(key := v)) = (if route Hash n key = i then (shard Hash n i kv)(key := v) else shard Hash n i kv)"
  by (auto simp: shard_def)

definition engine_up :: "engine \<Rightarrow> bool" where
  "engine_up e \<longleftrightarrow> eg_opened e \<and> 0 < length (eg_reactors e) \<and> length (eg_reactors e) \<le> 256"

lemma RouteKey_route:
  assumes "engine_up e"
  shows "RouteKey Hash e key = route Hash (length (eg_reactors e)) key"
    "route Hash (length (eg_reactors e)) key < length (eg_reactors e)"
proof -
  have n: "1 \<le> length (eg_reactors e)" "length (eg_reactors e) \<le> 256"
    using assms by (simp_all add: engine_up_def Suc_le_eq)
  let ?n = "length (eg_reactors e)"
  have m: "unat (Hash key) mod ?n < ?n" using n by (intro mod_less_divisor) linarith
  then have "unat (of_nat (unat (Hash key) mod ?n) :: u8) = unat (Hash key) mod ?n"
    using n by (simp add: unat_of_nat take_bit_eq_mod less_le_trans)
  then show "RouteKey Hash e key = route Hash ?n key" "route Hash ?n key < ?n"
    using n m by (auto simp: RouteKey_def route_def RouteToDevice_def)
qed

text \<open>Every reactor \<open>i\<close> is good for another \<open>f i\<close> operations, in the sense of \<open>holds\<close>.\<close>

definition hold_by :: "(nat \<Rightarrow> reactor \<Rightarrow> kv \<Rightarrow> bool) \<Rightarrow> (bytes \<Rightarrow> u64) \<Rightarrow> (nat \<Rightarrow> nat) \<Rightarrow> engine \<Rightarrow> kv \<Rightarrow> bool" where
  "hold_by holds Hash f e kv \<longleftrightarrow> engine_up e
     \<and> (\<forall>i < length (eg_reactors e). holds (f i) (eg_reactors e ! i) (shard Hash (length (eg_reactors e)) i kv))"

abbreviation all_hold :: "(nat \<Rightarrow> reactor \<Rightarrow> kv \<Rightarrow> bool) \<Rightarrow> (bytes \<Rightarrow> u64) \<Rightarrow> nat \<Rightarrow> engine \<Rightarrow> kv \<Rightarrow> bool" where
  "all_hold holds Hash n \<equiv> hold_by holds Hash (\<lambda>_. n)"

lemma hold_byD:
  assumes "hold_by holds Hash f e kv"
  shows "engine_up e" "i < length (eg_reactors e) \<Longrightarrow> holds (f i) (eg_reactors e ! i) (shard Hash (length (eg_reactors e)) i kv)"
  using assms by (simp_all add: hold_by_def)

section \<open>From reactors to the engine\<close>

text \<open>What operations of a reactor keep: \<open>holds n\<close> is kept for another \<open>n\<close> operations with admissible
  answers.\<close>

locale reactor_contract =
  fixes holds :: "nat \<Rightarrow> reactor \<Rightarrow> kv \<Rightarrow> bool" and fine :: "op_node \<Rightarrow> rc \<Rightarrow> bool"
  assumes less: "holds (Suc n) r kv \<Longrightarrow> holds n r kv"
    and step: "holds (Suc n) r kv \<Longrightarrow> Execute r op = (c, out, r') \<Longrightarrow> fine op c \<Longrightarrow> holds n r' (kv_after op c kv)"
begin

lemma all_less: "all_hold holds Hash (Suc n) e kv \<Longrightarrow> all_hold holds Hash n e kv"
  using less by (auto simp: hold_by_def)

text \<open>One operation, submitted to the reactor of its key.\<close>

lemma submit_hold:
  assumes H: "hold_by holds Hash f e kv" and i: "i < length (eg_reactors e)" "f i = Suc n"
    and run: "SubmitAndWait e i op = (c, out, e')" and ok: "fine op c"
    and key: "op_kind op \<in> {OpPut, OpDelete} \<Longrightarrow> route Hash (length (eg_reactors e)) (op_key op) = i"
  shows "hold_by holds Hash (f(i := n)) e' (kv_after op c kv)" "length (eg_reactors e') = length (eg_reactors e)"
proof -
  let ?N = "length (eg_reactors e)"
  obtain r' where ex: "Execute (eg_reactors e ! i) op = (c, out, r')" and e': "e' = e\<lparr>eg_reactors := (eg_reactors e)[i := r']\<rparr>"
    using run by (auto simp: SubmitAndWait_def split: prod.splits)
  show len: "length (eg_reactors e') = ?N" by (simp add: e')
  note h = hold_byD(2) [OF H]
  have hi: "holds (Suc n) (eg_reactors e ! i) (shard Hash ?N i kv)" using h [OF i(1)] i(2) by simp
  have own: "holds n r' (kv_after op c (shard Hash ?N i kv))" by (rule step [OF hi ex ok])
  have sh: "shard Hash ?N i (kv_after op c kv) = kv_after op c (shard Hash ?N i kv)"
    "j \<noteq> i \<Longrightarrow> shard Hash ?N j (kv_after op c kv) = shard Hash ?N j kv" for j
    using key by (auto simp: kv_after_def shard_upd)
  have "holds ((f(i := n)) j) (eg_reactors e' ! j) (shard Hash ?N j (kv_after op c kv))" if j: "j < ?N" for j
    using own sh(1) i h [OF j] sh(2) by (cases "j = i") (simp_all add: e')
  then show "hold_by holds Hash (f(i := n)) e' (kv_after op c kv)"
    using hold_byD(1) [OF H] len by (simp add: hold_by_def engine_up_def e')
qed

text \<open>A broadcast of an operation that does not change the map.\<close>

lemma broadcast_hold:
  assumes keep: "op_kind op \<notin> {OpPut, OpDelete}" "\<And>c. fine op c"
  shows "hold_by holds Hash (\<lambda>j. if j < i then n else Suc n) e kv \<Longrightarrow> i + k = length (eg_reactors e)
    \<Longrightarrow> broadcast i k op c0 e = (c, e') \<Longrightarrow> all_hold holds Hash n e' kv"
proof (induction k arbitrary: i c0 e)
  case 0
  then have "holds n (eg_reactors e ! j) (shard Hash (length (eg_reactors e)) j kv)" if "j < length (eg_reactors e)" for j
    using hold_byD(2) [OF 0(1) that] that by simp
  then show ?case using 0 hold_byD(1) [OF 0(1)] by (simp add: hold_by_def)
next
  case (Suc k)
  obtain c1 out e1 where s: "SubmitAndWait e i op = (c1, out, e1)" by (metis prod_cases3)
  have i: "i < length (eg_reactors e)" "(if i < i then n else Suc n) = Suc n" using Suc.prems by simp_all
  note S = submit_hold [OF Suc.prems(1) i s keep(2)]
  have "kv_after op c1 kv = kv" using keep(1) by (auto simp: kv_after_def)
  moreover have "(\<lambda>j. if j < i then n else Suc n)(i := n) = (\<lambda>j. if j < i + 1 then n else Suc n)" by auto
  ultimately have "hold_by holds Hash (\<lambda>j. if j < i + 1 then n else Suc n) e1 kv" "length (eg_reactors e1) = length (eg_reactors e)"
    using S keep(1) by auto
  then show ?case
    using Suc.IH [of "i + 1" e1 "if c1 \<noteq> kSuccess \<and> c0 = kSuccess then c1 else c0"] Suc.prems(2,3) s by simp
qed

lemma broadcast_all:
  assumes "all_hold holds Hash (Suc n) e kv" "broadcast 0 (length (eg_reactors e)) op c0 e = (c, e')"
    "op_kind op \<notin> {OpPut, OpDelete}" "\<And>c. fine op c"
  shows "all_hold holds Hash n e' kv"
  by (rule broadcast_hold [OF assms(3,4) _ _ assms(2)]) (use assms(1) in simp_all)

lemma submit_all:
  assumes H: "all_hold holds Hash (Suc n) e kv" and run: "SubmitAndWait e (RouteKey Hash e (op_key op)) op = (c, out, e')"
    and ok: "fine op c"
  shows "all_hold holds Hash n e' (kv_after op c kv)"
proof -
  let ?i = "route Hash (length (eg_reactors e)) (op_key op)"
  note R = RouteKey_route [OF hold_byD(1) [OF H], of Hash "op_key op"]
  have S: "hold_by holds Hash ((\<lambda>_. Suc n)(?i := n)) e' (kv_after op c kv)" "length (eg_reactors e') = length (eg_reactors e)"
    by (rule submit_hold [OF H R(2) refl run [unfolded R(1)] ok]; simp)+
  have "holds n (eg_reactors e' ! j) (shard Hash (length (eg_reactors e')) j (kv_after op c kv))"
    if "j < length (eg_reactors e')" for j
    using hold_byD(2) [OF S(1) that] less by (cases "j = ?i") simp_all
  then show ?thesis using hold_byD(1) [OF S(1)] by (simp add: hold_by_def)
qed

text \<open>A call is fine if whatever it may submit is: the answer counts for puts and deletes, the only
  operations with an effect on the map.\<close>

definition request_fine :: "request \<Rightarrow> rc \<Rightarrow> bool" where
  "request_fine rq c \<longleftrightarrow>
     (case rq of
        Put_request key v mem \<Rightarrow> (\<forall>src. key \<noteq> [] \<longrightarrow> fine (op_default\<lparr>op_kind := OpPut, op_key := key, op_value := v,
          op_value_source := src, op_memory := mem\<rparr>) c)
      | Get_request key sz \<Rightarrow> fine (op_default\<lparr>op_kind := OpGet, op_key := key\<rparr>) c
      | Delete_request key \<Rightarrow> fine (op_default\<lparr>op_kind := OpDelete, op_key := key\<rparr>) c
      | Level_request l \<Rightarrow> (\<forall>c. fine (op_default\<lparr>op_kind := OpSetWalLevel, op_new_level := l\<rparr>) c)
      | Snapshot_request \<Rightarrow> (\<forall>c. fine (op_default\<lparr>op_kind := OpSnapshot\<rparr>) c))"

lemma serve_hold:
  assumes H: "all_hold holds Hash (Suc n) e kv" and run: "Engine_serve Hash e rq = (c, out, e')"
    and ok: "request_fine rq c"
  shows "all_hold holds Hash n e' (kv_served rq c kv)"
proof -
  have op: "eg_opened e" using hold_byD(1) [OF H] by (simp add: engine_up_def)
  have idle: "all_hold holds Hash n e (kv_served rq c' kv)" if "c' \<noteq> kSuccess" for c'
    using all_less [OF H] that by (simp add: kv_served_def)
  show ?thesis
  proof (cases rq)
    case (Put_request key v mem)
    let ?op = "op_default\<lparr>op_kind := OpPut, op_key := key, op_value := v,
      op_value_source := ClassifyPutValueSource (eg_pools e) (of_nat (RouteKey Hash e key)) key v, op_memory := mem\<rparr>"
    have R: "Engine_Put Hash e key v mem = (c, e')" using run Put_request by (auto simp: Engine_serve_def split: prod.splits)
    show ?thesis
    proof (cases "key = [] \<or> dv_size v \<noteq> kValueSize \<or> kWalKeyMax < length key")
      case True
      then have "c \<noteq> kSuccess" "e' = e" using R op by (auto simp: Engine_Put_def split: if_splits)
      then show ?thesis using idle by simp
    next
      case False
      obtain c1 o1 e1 where s: "SubmitAndWait e (RouteKey Hash e (op_key ?op)) ?op = (c1, o1, e1)" by (metis prod_cases3)
      have ce: "c1 = c" "e1 = e'" using R False op s by (simp_all add: Engine_Put_def Let_def)
      have "fine ?op c" using ok False Put_request by (simp add: request_fine_def)
      then have "all_hold holds Hash n e' (kv_after ?op c kv)" by (rule submit_all [OF H s [unfolded ce]])
      moreover have "kv_after ?op c kv = kv_served rq c kv"
        using Put_request by (simp add: kv_after_def kv_served_def op_bytes_def)
      ultimately show ?thesis by (simp only:)
    qed
  next
    case (Get_request key sz)
    let ?op = "op_default\<lparr>op_kind := OpGet, op_key := key\<rparr>"
    have R: "Engine_Get Hash e key sz = (c, out, e')" using run Get_request by (simp add: Engine_serve_def)
    show ?thesis
    proof (cases "key = [] \<or> sz \<noteq> kValueSize")
      case True
      then have "c \<noteq> kSuccess" "e' = e" using R op by (auto simp: Engine_Get_def split: if_splits)
      then show ?thesis using idle by simp
    next
      case False
      then have "SubmitAndWait e (RouteKey Hash e (op_key ?op)) ?op = (c, out, e')" using R op by (simp add: Engine_Get_def)
      moreover have "fine ?op c" using ok Get_request by (simp add: request_fine_def)
      ultimately have "all_hold holds Hash n e' (kv_after ?op c kv)" by (rule submit_all [OF H])
      moreover have "kv_after ?op c kv = kv_served rq c kv" using Get_request by (simp add: kv_after_def kv_served_def)
      ultimately show ?thesis by (simp only:)
    qed
  next
    case (Delete_request key)
    let ?op = "op_default\<lparr>op_kind := OpDelete, op_key := key\<rparr>"
    have R: "Engine_Delete Hash e key = (c, e')" using run Delete_request by (auto simp: Engine_serve_def split: prod.splits)
    show ?thesis
    proof (cases "key = []")
      case True
      then have "c \<noteq> kSuccess" "e' = e" using R op by (auto simp: Engine_Delete_def split: if_splits)
      then show ?thesis using idle by simp
    next
      case False
      obtain c1 o1 e1 where s: "SubmitAndWait e (RouteKey Hash e (op_key ?op)) ?op = (c1, o1, e1)" by (metis prod_cases3)
      have ce: "c1 = c" "e1 = e'" using R False op s by (simp_all add: Engine_Delete_def)
      have "fine ?op c" using ok Delete_request by (simp add: request_fine_def)
      then have "all_hold holds Hash n e' (kv_after ?op c kv)" by (rule submit_all [OF H s [unfolded ce]])
      moreover have "kv_after ?op c kv = kv_served rq c kv" using Delete_request by (simp add: kv_after_def kv_served_def)
      ultimately show ?thesis by (simp only:)
    qed
  next
    case (Level_request l)
    then have R: "Engine_SetWalLevel e l = (c, e')" using run by (auto simp: Engine_serve_def split: prod.splits)
    have kv: "kv_served (Level_request l) c kv = kv" for c by (simp add: kv_served_def)
    show ?thesis
    proof (cases "IsValidWalLevel l")
      case True
      then show ?thesis
        using R op ok broadcast_all [OF H, of "op_default\<lparr>op_kind := OpSetWalLevel, op_new_level := l\<rparr>"] Level_request
        by (simp add: Engine_SetWalLevel_def request_fine_def kv)
    next
      case False
      then show ?thesis using R op all_less [OF H] Level_request by (simp add: Engine_SetWalLevel_def kv)
    qed
  next
    case Snapshot_request
    then have R: "Engine_Snapshot e = (c, e')" using run by (auto simp: Engine_serve_def split: prod.splits)
    then show ?thesis
      using op ok broadcast_all [OF H, of "op_default\<lparr>op_kind := OpSnapshot\<rparr>"] Snapshot_request
      by (simp add: Engine_Snapshot_def request_fine_def kv_served_def)
  qed
qed

end

section \<open>The two contracts\<close>

text \<open>The map, whatever the devices do; and the map on the media, at the strict level.\<close>

definition strict_fine :: "op_node \<Rightarrow> rc \<Rightarrow> bool" where
  "strict_fine op c \<longleftrightarrow> op_strict op \<and> (op_kind op \<in> {OpPut, OpDelete} \<longrightarrow> c \<noteq> kWalWriteFailed)"

interpretation mapped: reactor_contract "\<lambda>_. rx_holds" "\<lambda>_ _. True"
  by unfold_locales (simp_all add: Execute_map [THEN conjunct1])

interpretation durable: reactor_contract rx_safe strict_fine
proof
  show "rx_safe (Suc n) r kv \<Longrightarrow> rx_safe n r kv" for n r kv
    by (rule rx_safe_less)
  show "rx_safe n r' (kv_after op c kv)"
    if S: "rx_safe (Suc n) r kv" and run: "Execute r op = (c, out, r')" and ok: "strict_fine op c" for n r kv op c out r'
  proof (cases "c = kWalWriteFailed")
    case False
    then show ?thesis using Execute_safe [OF S _ run] ok by (simp add: strict_fine_def)
  next
    case True
    then have kv: "kv_after op c kv = kv" by (simp add: kv_after_def)
    consider "op_kind op = OpGet" | "op_kind op = OpSetWalLevel" | "op_kind op = OpSnapshot"
      | "op_kind op \<notin> {OpGet, OpPut, OpDelete, OpSetWalLevel, OpSnapshot}" using ok True by (auto simp: strict_fine_def)
    then show ?thesis
    proof cases
      case 1
      then have "ExecuteGet r op = (c, out, r')" using run by (simp add: Execute_def)
      then show ?thesis using ExecuteGet_safe [OF S] kv by simp
    next
      case 2
      then have "ExecuteSetWalLevel r op = (c, r')" using run by (simp add: Execute_def split: prod.splits)
      then show ?thesis using ExecuteSetWalLevel_safe [OF S] 2 ok kv by (simp add: strict_fine_def op_strict_def)
    next
      case 3
      then have "DoSnapshot r = (c, r')" using run by (simp add: Execute_def ExecuteSnapshot_def split: prod.splits)
      then show ?thesis using DoSnapshot_safe [OF S] kv by simp
    next
      case 4
      then have "r' = r" using run by (simp add: Execute_def)
      then show ?thesis using rx_safe_less [OF S] kv by simp
    qed
  qed
qed

section \<open>Answers\<close>

definition engine_holds :: "(bytes \<Rightarrow> u64) \<Rightarrow> engine \<Rightarrow> kv \<Rightarrow> bool" where
  "engine_holds Hash e kv \<longleftrightarrow> all_hold (\<lambda>_. rx_holds) Hash 0 e kv"

lemma engine_holds_any: "engine_holds Hash e kv \<longleftrightarrow> all_hold (\<lambda>_. rx_holds) Hash n e kv"
  by (simp add: engine_holds_def hold_by_def)

lemma engine_holdsD:
  assumes "engine_holds Hash e kv"
  shows "engine_up e" "rx_holds (eg_reactors e ! RouteKey Hash e key) (shard Hash (length (eg_reactors e)) (RouteKey Hash e key) kv)"
    "shard Hash (length (eg_reactors e)) (RouteKey Hash e key) kv key = kv key"
  using assms RouteKey_route [of e Hash key] hold_byD [of "\<lambda>_. rx_holds" Hash "\<lambda>_. 0" e kv]
  by (simp_all add: engine_holds_def)

lemma durable_holds: "all_hold rx_safe Hash n e kv \<Longrightarrow> engine_holds Hash e kv"
  using rx_safeD(1) by (fastforce simp: engine_holds_def hold_by_def)

lemma Engine_Get_answer:
  assumes h: "engine_holds Hash e kv" and run: "Engine_Get Hash e key sz = (c, out, e')"
  shows "if key = [] then c = kMemEmptyKey \<and> out = None
    else if sz \<noteq> kValueSize then c = kEngineInvalidValue \<and> out = None
    else kv key = None \<and> c = kIndexKeyNotFound
      \<or> kv key \<noteq> None \<and> (c = kSuccess \<and> out = kv key \<or> c = kIoBase \<and> out = None)"
proof -
  note D = engine_holdsD(2,3) [OF h, of key]
  have op: "eg_opened e" using engine_holdsD(1) [OF h] by (simp add: engine_up_def)
  show ?thesis
  proof (cases "key = [] \<or> sz \<noteq> kValueSize")
    case True
    then show ?thesis using run op by (auto simp: Engine_Get_def)
  next
    case False
    then obtain r' where "Execute (eg_reactors e ! RouteKey Hash e key) (op_default\<lparr>op_kind := OpGet, op_key := key\<rparr>) = (c, out, r')"
      using run op by (auto simp: Engine_Get_def SubmitAndWait_def split: prod.splits)
    from Execute_map [OF D(1) this] show ?thesis using False D(2) by simp
  qed
qed

lemma Engine_Put_answer:
  assumes h: "engine_holds Hash e kv" and run: "Engine_Put Hash e key v mem = (c, e')"
  shows "if key = [] then c = kMemEmptyKey else if dv_size v \<noteq> kValueSize then c = kEngineInvalidValue
    else if kWalKeyMax < length key then c = kWalKeyTooLong
    else (c = kEngineNoSpace \<longleftrightarrow> card (dom (shard Hash (length (eg_reactors e)) (RouteKey Hash e key) kv))
            = rx_blocks (eg_reactors e ! RouteKey Hash e key))
      \<and> c \<in> {kSuccess, kEngineNoSpace, kIoBase, kWalKeyTooLong, kWalWriteFailed, kWalFull}"
proof -
  note D = engine_holdsD(2,3) [OF h, of key]
  have op: "eg_opened e" using engine_holdsD(1) [OF h] by (simp add: engine_up_def)
  show ?thesis
  proof (cases "key = [] \<or> dv_size v \<noteq> kValueSize \<or> kWalKeyMax < length key")
    case True
    then show ?thesis using run op by (auto simp: Engine_Put_def)
  next
    case False
    then obtain src out r' where "Execute (eg_reactors e ! RouteKey Hash e key)
        (op_default\<lparr>op_kind := OpPut, op_key := key, op_value := v, op_value_source := src, op_memory := mem\<rparr>) = (c, out, r')"
      using run op by (auto simp: Engine_Put_def SubmitAndWait_def Let_def split: prod.splits)
    from Execute_map [OF D(1) this] show ?thesis using False by auto
  qed
qed

lemma Engine_Delete_answer:
  assumes h: "engine_holds Hash e kv" and run: "Engine_Delete Hash e key = (c, e')"
  shows "if key = [] then c = kMemEmptyKey else (c = kIndexKeyNotFound \<longleftrightarrow> kv key = None)
    \<and> c \<in> {kSuccess, kIndexKeyNotFound, kWalKeyTooLong, kWalWriteFailed, kWalFull}"
proof -
  note D = engine_holdsD(2,3) [OF h, of key]
  have op: "eg_opened e" using engine_holdsD(1) [OF h] by (simp add: engine_up_def)
  show ?thesis
  proof (cases "key = []")
    case True
    then show ?thesis using run op by (auto simp: Engine_Delete_def)
  next
    case False
    then obtain out r' where "Execute (eg_reactors e ! RouteKey Hash e key) (op_default\<lparr>op_kind := OpDelete, op_key := key\<rparr>) = (c, out, r')"
      using run op by (auto simp: Engine_Delete_def SubmitAndWait_def split: prod.splits)
    from Execute_map [OF D(1) this] show ?thesis using False D(2) by auto
  qed
qed

lemma Engine_serve_holds:
  assumes "engine_holds Hash e kv" "Engine_serve Hash e rq = (c, out, e')"
  shows "engine_holds Hash e' (kv_served rq c kv)"
proof -
  have "mapped.request_fine rq c" by (simp add: mapped.request_fine_def split: request.splits)
  then show ?thesis using mapped.serve_hold [of Hash 0] assms engine_holds_any by blast
qed

end
