(* ===== verification/Cabe_EngineLife.thy ===== *)
theory Cabe_EngineLife
  imports Cabe_EngineMap
begin

text \<open>
  The life of an engine: it is created on its device groups, serves calls, is closed or all its devices lose
  power, is opened again, and so on.
\<close>

section \<open>Opening the devices and starting the reactors\<close>

lemma open_devices_success:
  "open_devices eopts i count pid gs acc = Some (kSuccess, ready, rest, pid') \<Longrightarrow>
   \<exists>new. ready = acc @ new \<and> length new = length gs
     \<and> (\<forall>j < length gs. \<exists>p po q. OpenDevice eopts (fst (gs ! j)) (i + j) count p (snd (gs ! j))
          = Some (kSuccess, fst (new ! j), po, q))"
proof (induction gs arbitrary: i pid acc)
  case (Cons x gs)
  obtain env g where x: "x = (env, g)" by fastforce
  obtain c dc po q where o: "OpenDevice eopts env i count pid g = Some (c, dc, po, q)"
    using Cons.prems x by (auto split: option.splits)
  have c: "c = kSuccess" and R: "open_devices eopts (i + 1) count q gs (acc @ [(dc, the po)]) = Some (kSuccess, ready, rest, pid')"
    using Cons.prems o x by (auto split: if_splits)
  obtain new where N: "ready = (acc @ [(dc, the po)]) @ new" "length new = length gs"
    "\<forall>j < length gs. \<exists>p po q. OpenDevice eopts (fst (gs ! j)) (i + 1 + j) count p (snd (gs ! j)) = Some (kSuccess, fst (new ! j), po, q)"
    using Cons.IH [OF R] by blast
  have D: "\<exists>p po' q. OpenDevice eopts (fst ((x # gs) ! j)) (i + j) count p (snd ((x # gs) ! j))
      = Some (kSuccess, fst (((dc, the po) # new) ! j), po', q)" if "j < length (x # gs)" for j
  proof (cases j)
    case 0
    then show ?thesis using o c x by auto
  next
    case (Suc k)
    then show ?thesis using N(3) [rule_format, of k] that by simp
  qed
  show ?case by (rule exI [of _ "(dc, the po) # new"]) (intro conjI allI impI D, use N(1,2) in simp_all)
qed simp

lemma open_devices_reach:
  assumes "\<And>j. j < length gs \<Longrightarrow> \<exists>dc po. OpenDevice eopts (fst (gs ! j)) (i + j) count (pid + of_nat j) (snd (gs ! j))
     = Some (kSuccess, dc, Some po, pid + of_nat j + 1)"
  shows "\<exists>ready. open_devices eopts i count pid gs acc = Some (kSuccess, ready, [], pid + of_nat (length gs))"
  using assms
proof (induction gs arbitrary: i pid acc)
  case (Cons x gs)
  obtain dc po where o: "OpenDevice eopts (fst x) i count pid (snd x) = Some (kSuccess, dc, Some po, pid + 1)"
    using Cons.prems [of 0] by auto
  have "\<exists>ready. open_devices eopts (i + 1) count (pid + 1) gs (acc @ [(dc, po)])
      = Some (kSuccess, ready, [], pid + 1 + of_nat (length gs))"
  proof (rule Cons.IH)
    fix j
    assume "j < length gs"
    then show "\<exists>dc po. OpenDevice eopts (fst (gs ! j)) (i + 1 + j) count (pid + 1 + of_nat j) (snd (gs ! j))
        = Some (kSuccess, dc, Some po, pid + 1 + of_nat j + 1)"
      using Cons.prems [of "Suc j"] by (simp add: add.assoc)
  qed
  then show ?case using o by (cases x) (simp add: add.assoc)
qed simp

lemma start_reactors_all:
  assumes "\<forall>x \<in> set xs. en_thread (fst x)"
  shows "start_reactors opts xs acc = (kSuccess, acc @ map (\<lambda>(env, dc). Reactor_new dc opts (en_clock env)) xs, [], [])"
  using assms by (induction xs arbitrary: acc) auto

lemma start_reactors_success:
  "start_reactors opts xs acc = (kSuccess, rs, closed, rest) \<Longrightarrow>
   rs = acc @ map (\<lambda>(env, dc). Reactor_new dc opts (en_clock env)) xs"
proof (induction xs arbitrary: acc)
  case (Cons x xs)
  obtain env dc where x: "x = (env, dc)" by fastforce
  have "start_reactors opts xs (acc @ [Reactor_new dc opts (en_clock env)]) = (kSuccess, rs, closed, rest)"
    using Cons.prems by (simp add: x Let_def split: if_splits)
  then show ?case using Cons.IH by (fastforce simp: x)
qed simp

text \<open>An opened engine has a reactor for every device group, made from what \<open>OpenDevice\<close> returned.\<close>

lemma Engine_Open_success:
  assumes run: "Engine_Open e eopts envs = Some (kSuccess, e', rest)" and len: "length envs = length (eo_devices eopts)"
  shows "engine_up e'" "length (eg_reactors e') = length (eo_devices eopts)"
    "i < length (eo_devices eopts) \<Longrightarrow> \<exists>p dc po q. OpenDevice eopts (envs ! i) i (length (eo_devices eopts)) p (eo_devices eopts ! i)
        = Some (kSuccess, dc, po, q)
      \<and> eg_reactors e' ! i = Reactor_new dc (options.truncate eopts) (en_clock (envs ! i))"
proof -
  let ?gs = "eo_devices eopts" and ?opts = "options.truncate eopts"
  have nz: "?gs \<noteq> []" "length ?gs \<le> 256" using run
    by (auto simp: Engine_Open_def ValidateDeviceConfigFamily_def Let_def split: if_splits)
  obtain c ready ab pid where o: "open_devices eopts 0 (length ?gs) (eg_next_pool_id e) (zip envs ?gs) [] = Some (c, ready, ab, pid)"
    using run by (auto simp: Engine_Open_def Let_def split: if_splits option.splits)
  obtain c2 rs closed un where st: "start_reactors ?opts (zip envs (map fst ready)) [] = (c2, rs, closed, un)"
    by (metis prod_cases4)
  note R = run [unfolded Engine_Open_def Let_def o option.case prod.case st]
  have c: "c = kSuccess" and c2: "c2 = kSuccess" and e': "eg_reactors e' = rs" "eg_opened e'"
    using R by (auto split: if_splits)
  obtain "length ready = length ?gs" and D: "\<forall>j < length (zip envs ?gs). \<exists>p po q.
      OpenDevice eopts (fst (zip envs ?gs ! j)) (0 + j) (length ?gs) p (snd (zip envs ?gs ! j)) = Some (kSuccess, fst (ready ! j), po, q)"
    using open_devices_success [OF o [unfolded c]] len by auto
  then have rs: "rs = map (\<lambda>(env, dc). Reactor_new dc ?opts (en_clock env)) (zip envs (map fst ready))" "length rs = length ?gs"
    using start_reactors_success [OF st [unfolded c2]] len by simp_all
  then show "engine_up e'" "length (eg_reactors e') = length ?gs" using e' nz by (simp_all add: engine_up_def)
  show "\<exists>p dc po q. OpenDevice eopts (envs ! i) i (length ?gs) p (?gs ! i) = Some (kSuccess, dc, po, q)
      \<and> eg_reactors e' ! i = Reactor_new dc ?opts (en_clock (envs ! i))" if "i < length ?gs"
    using D [rule_format, of i] that len rs e'(1) \<open>length ready = length ?gs\<close> by auto
qed

lemma Engine_Open_reach:
  assumes cfg: "\<not> eg_opened e" "eo_devices eopts \<noteq> []" "length (eo_devices eopts) \<le> 256" "eo_spdk_devices eopts = []"
    and len: "length envs = length (eo_devices eopts)" and thr: "\<forall>env \<in> set envs. en_thread env"
    and dev: "\<And>i. i < length envs \<Longrightarrow> \<exists>dc po. OpenDevice eopts (envs ! i) i (length envs)
      (eg_next_pool_id e + of_nat i) (eo_devices eopts ! i) = Some (kSuccess, dc, Some po, eg_next_pool_id e + of_nat i + 1)"
  shows "\<exists>e'. Engine_Open e eopts envs = Some (kSuccess, e', [])"
proof -
  let ?gs = "eo_devices eopts"
  obtain ready where o: "open_devices eopts 0 (length ?gs) (eg_next_pool_id e) (zip envs ?gs) []
      = Some (kSuccess, ready, [], eg_next_pool_id e + of_nat (length (zip envs ?gs)))"
    using open_devices_reach [of "zip envs ?gs" eopts 0 "length ?gs" "eg_next_pool_id e" "[]"] dev len by auto
  have "\<forall>x \<in> set (zip envs (map fst ready)). en_thread (fst x)" using thr by (auto dest: set_zip_leftD)
  note st = start_reactors_all [OF this, of "options.truncate eopts" "[]"]
  show ?thesis using cfg o st by (simp add: Engine_Open_def Let_def ValidateDeviceConfigFamily_def)
qed

section \<open>Creation\<close>

text \<open>An engine that was just created on its groups at the strict level.\<close>

definition created_engine :: "engine_options \<Rightarrow> open_env list \<Rightarrow> engine \<Rightarrow> bool" where
  "created_engine eopts envs e \<longleftrightarrow>
     o_create (options.truncate eopts) \<and> o_wal_level (options.truncate eopts) = Strict
     \<and> o_wal_buffer_size (options.truncate eopts) \<le> 2 ^ 38 \<and> o_snapshot_buffer_size (options.truncate eopts) \<le> 2 ^ 38
     \<and> length envs = length (eo_devices eopts)
     \<and> (\<forall>g \<in> set (eo_devices eopts). group_ok g \<and> kd_size (g_data g) < 2 ^ 63 \<and> kd_size (g_snap g) < 2 ^ 63 \<and> blank_ring (g_wal g))
     \<and> (\<forall>env \<in> set envs. GroupUuids (en_entropy env) \<noteq> None)
     \<and> (\<exists>opt rest. Engine_Open (engine_new opt) eopts envs = Some (kSuccess, e, rest))"

lemma created_engine_safe:
  assumes C: "created_engine eopts envs e" and n: "n < 2 ^ 62"
  shows "all_hold rx_safe Hash n e Map.empty"
proof -
  obtain opt rest where run: "Engine_Open (engine_new opt) eopts envs = Some (kSuccess, e, rest)"
    and len: "length envs = length (eo_devices eopts)" using C by (auto simp: created_engine_def)
  note O = Engine_Open_success [OF run len]
  have "rx_safe n (eg_reactors e ! i) Map.empty" if i: "i < length (eg_reactors e)" for i
  proof -
    have il: "i < length (eo_devices eopts)" using i O(2) by simp
    obtain p dc po q where "OpenDevice eopts (envs ! i) i (length (eo_devices eopts)) p (eo_devices eopts ! i) = Some (kSuccess, dc, po, q)"
      "eg_reactors e ! i = Reactor_new dc (options.truncate eopts) (en_clock (envs ! i))" using O(3) [OF il] by blast
    moreover have "envs ! i \<in> set envs" "eo_devices eopts ! i \<in> set (eo_devices eopts)" using il len by simp_all
    ultimately have "newly_created eopts (envs ! i) (eo_devices eopts ! i) (eg_reactors e ! i)"
      using C unfolding created_engine_def newly_created_def by blast
    then show ?thesis by (rule newly_created_safe [OF _ n])
  qed
  then show ?thesis using O(1) by (simp add: hold_by_def)
qed

section \<open>Power failures\<close>

text \<open>All devices of the engine lose power; they come back with the super blocks of their groups, in
  the order and with the settings they were opened with before. An orderly shutdown is the case in
  which every byte is as it was last written.\<close>

definition outage :: "reactor list \<Rightarrow> engine_options \<Rightarrow> open_env list \<Rightarrow> bool" where
  "outage rs eopts envs \<longleftrightarrow>
     length (eo_devices eopts) = length rs \<and> length envs = length rs
     \<and> (\<forall>i < length rs. \<exists>g'. power_lost (rs ! i) g' \<and> same_setup (rs ! i) g' (options.truncate eopts)
          \<and> RecoverDeviceGroup (eo_devices eopts ! i) (of_nat i) (of_nat (length rs))
            = (kSuccess, Some (dc_super_block (rs ! i)), g'))"

text \<open>The threads start and the memory of the value pools is there.\<close>

definition resources :: "engine \<Rightarrow> engine_options \<Rightarrow> open_env list \<Rightarrow> bool" where
  "resources e eopts envs \<longleftrightarrow> (\<forall>env \<in> set envs. en_thread env)
     \<and> (\<forall>i < length envs. \<exists>po. Create_pool (rx_device (eg_reactors e ! i)) (1 + of_nat i) (eo_value_buffer_pool_blocks eopts)
          (en_value_base (envs ! i)) (en_heap (envs ! i)) = (kSuccess, Some po))"

lemma reopened_safe:
  assumes S: "all_hold rx_safe Hash n e kv" and P: "outage (eg_reactors e) eopts envs"
    and run: "Engine_Open (engine_new opt) eopts envs = Some (kSuccess, e', rest)"
  shows "all_hold rx_safe Hash n e' kv"
proof -
  let ?N = "length (eg_reactors e)"
  have len: "length (eo_devices eopts) = ?N" "length envs = ?N" using P by (simp_all add: outage_def)
  then have le: "length envs = length (eo_devices eopts)" by simp
  note O = Engine_Open_success [OF run le]
  have "rx_safe n (eg_reactors e' ! i) (shard Hash ?N i kv)" if i: "i < ?N" for i
  proof -
    obtain g' where P': "power_lost (eg_reactors e ! i) g'" "same_setup (eg_reactors e ! i) g' (options.truncate eopts)"
      "RecoverDeviceGroup (eo_devices eopts ! i) (of_nat i) (of_nat ?N) = (kSuccess, Some (dc_super_block (eg_reactors e ! i)), g')"
      using P i unfolding outage_def by blast
    obtain p dc po q where D: "OpenDevice eopts (envs ! i) i ?N p (eo_devices eopts ! i) = Some (kSuccess, dc, po, q)"
      "eg_reactors e' ! i = Reactor_new dc (options.truncate eopts) (en_clock (envs ! i))"
      using O(3) [of i] i len by auto
    have cr: "\<not> o_create (options.truncate eopts)" using P'(2) by (simp add: same_setup_def restart_def)
    obtain po2 where pl: "Create_pool (rx_device (eg_reactors e ! i)) p (eo_value_buffer_pool_blocks eopts)
        (en_value_base (envs ! i)) (en_heap (envs ! i)) = (kSuccess, Some po2)"
      using OpenDevice_pool [OF D(1) cr P'(3)] by (auto simp: rx_device_def)
    have S': "rx_safe n (eg_reactors e ! i) (shard Hash ?N i kv)" using hold_byD(2) [OF S i] by simp
    obtain dc2 where D2: "OpenDevice eopts (envs ! i) i ?N p (eo_devices eopts ! i) = Some (kSuccess, dc2, Some po2, p + 1)"
      "rx_safe n (Reactor_new dc2 (options.truncate eopts) (en_clock (envs ! i))) (shard Hash ?N i kv)"
      by (rule OpenDevice_restores [OF S' P'(1,2) refl P'(3) pl])
    then show ?thesis using D by simp
  qed
  then show ?thesis using O(1,2) len by (simp add: hold_by_def)
qed

lemma reopen_succeeds:
  assumes S: "all_hold rx_safe Hash n e kv" and P: "outage (eg_reactors e) eopts envs" and R: "resources e eopts envs"
    and raw: "eo_spdk_devices eopts = []"
  shows "\<exists>e'. Engine_Open (engine_new opt) eopts envs = Some (kSuccess, e', [])"
proof (rule Engine_Open_reach)
  let ?N = "length (eg_reactors e)"
  have len: "length (eo_devices eopts) = ?N" "length envs = ?N" using P by (simp_all add: outage_def)
  have N: "0 < ?N" "?N \<le> 256" using hold_byD(1) [OF S] by (simp_all add: engine_up_def)
  show "\<not> eg_opened (engine_new opt)" by (simp add: engine_new_def)
  show "eo_devices eopts \<noteq> []" "length (eo_devices eopts) \<le> 256" "length envs = length (eo_devices eopts)"
    using N len by auto
  show "eo_spdk_devices eopts = []" by (rule raw)
  show "\<forall>env \<in> set envs. en_thread env" using R by (simp add: resources_def)
  show "\<exists>dc po. OpenDevice eopts (envs ! i) i (length envs) (eg_next_pool_id (engine_new opt) + of_nat i) (eo_devices eopts ! i)
      = Some (kSuccess, dc, Some po, eg_next_pool_id (engine_new opt) + of_nat i + 1)" if i: "i < length envs" for i
  proof -
    obtain g' where P': "power_lost (eg_reactors e ! i) g'" "same_setup (eg_reactors e ! i) g' (options.truncate eopts)"
      "RecoverDeviceGroup (eo_devices eopts ! i) (of_nat i) (of_nat ?N) = (kSuccess, Some (dc_super_block (eg_reactors e ! i)), g')"
      using P i len unfolding outage_def by auto
    obtain po where pl: "Create_pool (rx_device (eg_reactors e ! i)) (1 + of_nat i) (eo_value_buffer_pool_blocks eopts)
        (en_value_base (envs ! i)) (en_heap (envs ! i)) = (kSuccess, Some po)" using R i by (auto simp: resources_def)
    have S': "rx_safe n (eg_reactors e ! i) (shard Hash ?N i kv)" using hold_byD(2) [OF S, of i] i len by simp
    obtain dc where "OpenDevice eopts (envs ! i) i ?N (1 + of_nat i) (eo_devices eopts ! i) = Some (kSuccess, dc, Some po, 1 + of_nat i + 1)"
      by (rule OpenDevice_restores [OF S' P'(1,2) refl P'(3) pl])
    then show ?thesis using len by (simp add: engine_new_def)
  qed
qed

section \<open>Closing\<close>

text \<open>At the strict level closing writes nothing: a closed reactor's devices are what they were.\<close>

lemma CloseDc_devices:
  assumes "w_level (dc_wal r) = Strict"
  shows "io_kdev (dc_io (CloseDc r)) = io_kdev (dc_io r)" "dc_super_block (CloseDc r) = dc_super_block r"
    "dc_wal (CloseDc r) = (dc_wal r)\<lparr>w_buf := None, w_dev := snd (RawDevice_Close (w_dev (dc_wal r)))\<rparr>"
    "dc_snapshot (CloseDc r) = (dc_snapshot r)\<lparr>sn_dev := snd (RawDevice_Close (sn_dev (dc_snapshot r)))\<rparr>"
proof -
  have f: "Flush (dc_wal r) = (kSuccess, dc_wal r)" using assms by (simp add: Flush_def sync_level_def IsWalSyncLevel_def)
  have w: "snd (Wal_Close (dc_wal r)) = (dc_wal r)\<lparr>w_buf := None, w_dev := snd (RawDevice_Close (w_dev (dc_wal r)))\<rparr>"
    by (cases "w_buf (dc_wal r)") (simp_all add: Wal_Close_def f split: prod.splits)
  have sn: "snd (Snapshot_Close s) = s\<lparr>sn_dev := snd (RawDevice_Close (sn_dev s))\<rparr>" for s
    by (simp add: Snapshot_Close_def split: prod.splits)
  have io: "io_kdev (snd (SyncIo_Close x)) = io_kdev x" for x by (simp add: SyncIo_Close_def)
  show "io_kdev (dc_io (CloseDc r)) = io_kdev (dc_io r)" "dc_super_block (CloseDc r) = dc_super_block r"
    "dc_wal (CloseDc r) = (dc_wal r)\<lparr>w_buf := None, w_dev := snd (RawDevice_Close (w_dev (dc_wal r)))\<rparr>"
    "dc_snapshot (CloseDc r) = (dc_snapshot r)\<lparr>sn_dev := snd (RawDevice_Close (sn_dev (dc_snapshot r)))\<rparr>"
    using w sn [of "dc_snapshot r"] io [of "dc_io r"] by (auto simp: CloseDc_def split: prod.splits)
qed

lemma closed_same:
  assumes "w_level (dc_wal r) = Strict"
  shows "power_lost (CloseDc r) g' = power_lost r g'" "same_setup (CloseDc r) g' opts = same_setup r g' opts"
proof -
  note C = CloseDc_devices [OF assms]
  have k: "kdev (snd (RawDevice_Close x)) = kdev x" for x by (simp add: RawDevice_Close_def)
  have sl: "snap_slot (dc_snapshot (CloseDc r)) = snap_slot (dc_snapshot r)" by (simp add: C snap_slot_def fun_eq_iff)
  show "power_lost (CloseDc r) g' = power_lost r g'"
    unfolding power_lost_def snap_crash_def crash_image_def rd_contents_def rd_durable_def sl by (simp add: C(1,3,4) k)
  show "same_setup (CloseDc r) g' opts = same_setup r g' opts"
    by (simp add: same_setup_def restart_def snap_config_def rx_blocks_def ring_bytes_def C)
qed

lemma closed_outage:
  assumes S: "all_hold rx_safe Hash n e kv" and run: "Engine_Close e = Some (c, e1, closed)"
  shows "outage closed eopts envs = outage (eg_reactors e) eopts envs"
proof -
  have cl: "closed = map CloseDc (eg_reactors e)"
    using run hold_byD(1) [OF S] by (auto simp: Engine_Close_def engine_up_def Let_def split: if_splits)
  have lv: "w_level (dc_wal (eg_reactors e ! i)) = Strict" if "i < length (eg_reactors e)" for i
    using rx_safeD(5) [OF hold_byD(2) [OF S that]] by (auto simp: rx_logged_def)
  have "power_lost (closed ! i) g' = power_lost (eg_reactors e ! i) g'
      \<and> same_setup (closed ! i) g' (options.truncate eopts) = same_setup (eg_reactors e ! i) g' (options.truncate eopts)
      \<and> dc_super_block (closed ! i) = dc_super_block (eg_reactors e ! i)" if "i < length (eg_reactors e)" for i g'
    using closed_same [OF lv [OF that]] CloseDc_devices(2) [OF lv [OF that]] that cl by simp
  then show ?thesis unfolding outage_def cl by (auto simp: cl)
qed

section \<open>Lives\<close>

text \<open>The level stays strict, and the log reports no failed write.\<close>

definition request_strict :: "request \<Rightarrow> rc \<Rightarrow> bool" where
  "request_strict rq c \<longleftrightarrow>
     (case rq of Put_request _ _ _ \<Rightarrow> c \<noteq> kWalWriteFailed | Delete_request _ \<Rightarrow> c \<noteq> kWalWriteFailed
      | Level_request l \<Rightarrow> l = Strict | _ \<Rightarrow> True)"

lemma request_strict_fine: "request_strict rq c \<Longrightarrow> durable.request_fine rq c"
  by (simp add: request_strict_def durable.request_fine_def strict_fine_def op_strict_def split: request.splits)

inductive engine_life :: "(bytes \<Rightarrow> u64) \<Rightarrow> nat \<Rightarrow> engine \<times> kv \<Rightarrow> engine \<times> kv \<Rightarrow> bool"
  for Hash :: "bytes \<Rightarrow> u64" where
  engine_starts: "engine_life Hash 0 x x"
| engine_serves: "engine_life Hash n x (e, kv) \<Longrightarrow> Engine_serve Hash e rq = (c, out, e') \<Longrightarrow> request_strict rq c
    \<Longrightarrow> engine_life Hash (Suc n) x (e', kv_served rq c kv)"
| engine_returns: "engine_life Hash n x (e, kv) \<Longrightarrow> outage (eg_reactors e) eopts envs
    \<Longrightarrow> Engine_Open (engine_new opt) eopts envs = Some (kSuccess, e', rest) \<Longrightarrow> engine_life Hash (Suc n) x (e', kv)"
| engine_rests: "engine_life Hash n x (e, kv) \<Longrightarrow> Engine_Close e = Some (c, e1, closed) \<Longrightarrow> outage closed eopts envs
    \<Longrightarrow> Engine_Open (engine_new opt) eopts envs = Some (kSuccess, e', rest) \<Longrightarrow> engine_life Hash (Suc n) x (e', kv)"

lemma engine_life_safe:
  assumes "engine_life Hash n (e0, kv0) (e, kv)" "all_hold rx_safe Hash (n + m) e0 kv0"
  shows "all_hold rx_safe Hash m e kv"
  using assms
proof (induction n "(e0, kv0)" "(e, kv)" arbitrary: e kv m rule: engine_life.induct)
  case (engine_serves n e kv rq c out e')
  then have "all_hold rx_safe Hash (Suc m) e kv" by simp
  then show ?case using durable.serve_hold engine_serves.hyps(3) request_strict_fine engine_serves.hyps(4) by blast
next
  case (engine_returns n e kv eopts envs opt e' rest)
  then have "all_hold rx_safe Hash (Suc m) e kv" by simp
  then have "all_hold rx_safe Hash m e kv" by (rule durable.all_less)
  then show ?case by (rule reopened_safe [OF _ engine_returns.hyps(3,4)])
next
  case (engine_rests n e kv c e1 closed eopts envs opt e' rest)
  then have "all_hold rx_safe Hash (Suc m) e kv" by simp
  then have S: "all_hold rx_safe Hash m e kv" by (rule durable.all_less)
  have "outage (eg_reactors e) eopts envs" using closed_outage [OF S engine_rests.hyps(3)] engine_rests.hyps(4) by simp
  then show ?case by (rule reopened_safe [OF S _ engine_rests.hyps(5)])
qed simp

end
