(* ===== verification/Cabe_DeviceTheorems.thy ===== *)
theory Cabe_DeviceTheorems
  imports Cabe_DeviceLife
begin

text \<open>
  A device group that is created, loses power and is opened again, concretely, and what an engine
  created on used devices inherits from its predecessor.
\<close>

section \<open>Devices that were used before\<close>

lemma Wal_recreated:
  assumes run: "Wal_Open (wal_closed d) (opts\<lparr>o_create := True\<rparr>) = (kSuccess, w1)" and d: "kd_script d = []"
    and close: "Wal_Close w1 = (c, w2)"
  shows "w_seq_next w1 = 1" "w_n_frames w1 = 0" "c = kSuccess" "kdev (w_dev w2) = d"
proof -
  let ?dv = "\<lparr>fd_open = True, size_bytes = kd_size d, kdev = d\<rparr>"
  have o: "RawDevice_Open (w_dev (wal_closed d)) = (kSuccess, ?dv)"
    using healthy_Open [OF d] by (simp add: wal_closed_def)
  have a: "AllocAligned ?dv = (True, ?dv)" by (rule healthy_AllocAligned) (simp add: healthy_def d)
  note R = run [unfolded Wal_Open_def o prod.case Let_def a]
  have w1: "w_seq_next w1 = 1" "w_n_frames w1 = 0" "w_dev w1 = ?dv" using R by (auto split: if_splits)
  then show "w_seq_next w1 = 1" "w_n_frames w1 = 0" by simp_all
  have "Flush w1 = (kSuccess, w1)" using w1(2) by (simp add: Flush_def)
  then show "c = kSuccess" "kdev (w_dev w2) = d"
    using close w1(3) d by (auto simp: Wal_Close_def RawDevice_Close_def sys_simple_def split: if_splits)
qed

section \<open>A concrete life\<close>

definition life_group :: device_group where
  "life_group = \<lparr>g_data = demo_kdev 5000000, g_wal = demo_kdev 20000, g_snap = demo_kdev 40000\<rparr>"

definition life_opts :: "bool \<Rightarrow> engine_options" where
  "life_opts b = \<lparr>o_create = b, o_wal_level = Strict, o_wal_buffer_size = 4096, o_snapshot_threshold_bytes = 4096,
     o_snapshot_buffer_size = 65536, o_verify_value_crc = True, eo_devices = [], eo_spdk_devices = [],
     eo_value_buffer_pool_blocks = 0\<rparr>"

definition life_env :: open_env where
  "life_env = \<lparr>en_entropy = demo_entropy 7, en_now = 99, en_pool_base = 4096, en_value_base = None, en_heap = True,
     en_thread = True, en_clock = (\<lambda>_. 7)\<rparr>"

definition life_created :: device_group where
  "life_created = created_group life_group (demo_uuids 7) 99 0 1"

definition life_sb :: super_block where
  "life_sb = make_data_sb (demo_uuids 7) (data_blocks (opened (g_data life_group))) 0 1 99"

definition life_pool :: value_pool where
  "life_pool = \<lparr>vp_device_id = ucast (sb_device_id life_sb), vp_pool_id = 1, vp_slot_count = 0, vp_total_size = 0,
     vp_base = 0, vp_slots = [], vp_closing = False, vp_active_count = 0, vp_free_head = PackHead 0 kInvalidSlot\<rparr>"

lemma life_opts_simps [simp]:
  "options.truncate (life_opts b) = \<lparr>o_create = b, o_wal_level = Strict, o_wal_buffer_size = 4096,
     o_snapshot_threshold_bytes = 4096, o_snapshot_buffer_size = 65536, o_verify_value_crc = True\<rparr>"
  "eo_value_buffer_pool_blocks (life_opts b) = 0"
  by (simp_all add: life_opts_def options.truncate_def)

lemma life_group_ok:
  "group_ok life_group" "kd_size (g_data life_group) = 5000000" "kd_size (g_wal life_group) = 20000"
  "kd_size (g_snap life_group) = 40000" "blank_ring (g_wal life_group)" "GroupUuids (en_entropy life_env) = Some (demo_uuids 7)"
proof -
  show "group_ok life_group" "kd_size (g_data life_group) = 5000000" "kd_size (g_wal life_group) = 20000"
    "kd_size (g_snap life_group) = 40000"
    by (simp_all add: group_ok_def life_group_def demo_kdev_def kDataRegionOffset_8K kValueSize_def)
  show "blank_ring (g_wal life_group)"
    using not_frame_zeros by (simp add: blank_ring_def life_group_def demo_kdev_def kread_zero)
  show "GroupUuids (en_entropy life_env) = Some (demo_uuids 7)" using demo_group(2) by (simp add: life_env_def)
qed

text \<open>The three devices of the created group, and what opening makes of them.\<close>

lemma life_devices:
  "kd_script (g_wal life_created) = []" "kd_size (g_wal life_created) = 20000"
  "kd_durable (g_wal life_created) = kd_data (g_wal life_created)"
  "kd_script (g_data life_created) = []" "kd_size (g_data life_created) = 5000000"
  "kd_durable (g_data life_created) = kd_data (g_data life_created)"
  "kd_script (g_snap life_created) = []" "kd_size (g_snap life_created) = 40000"
  using life_group_ok(1-4) by (simp_all add: life_created_def created_group_def group_ok_def)

lemma life_wal:
  obtains w where "Wal_Open (wal_closed (g_wal life_created)) (options.truncate (life_opts True)) = (kSuccess, w)"
    "w_ring_end w = 16384" "w_dev w = opened (g_wal life_created)"
proof -
  let ?d = "g_wal life_created" and ?dv = "opened (g_wal life_created)"
  have o: "RawDevice_Open (w_dev (wal_closed ?d)) = (kSuccess, ?dv)"
    using healthy_Open [OF life_devices(1)] by (simp add: wal_closed_def opened_def)
  have a: "AllocAligned ?dv = (True, ?dv)" by (rule healthy_AllocAligned) (simp add: life_devices)
  have r: "RoundUpBufferSize 4096 kWalBlockSize = 4096"
    by (simp add: RoundUpBufferSize_def kWalBlockSize_def AlignUp_def)
  have sz: "RawDevice_SizeBytes ?dv = 20000" using life_devices by (simp add: RawDevice_SizeBytes_def)
  have g: "WalRingSize 20000 = 8192" by (simp add: WalRingSize_def kDataRegionOffset_8K kWalBlockSize_def)
  have "\<exists>w. Wal_Open (wal_closed ?d) (options.truncate (life_opts True)) = (kSuccess, w)
      \<and> w_ring_end w = 16384 \<and> w_dev w = ?dv"
    by (simp add: Wal_Open_def o Let_def a r [unfolded kWalBlockSize_def] sz g kWalBlockSize_def kDataRegionOffset_8K)
  then show thesis using that by blast
qed

lemma life_snapshot:
  obtains s where "Snapshot_Open (snapshot_fresh (g_snap life_created)) (options.truncate (life_opts True)) life_sb = Some (kSuccess, s)"
    "snap_ready s" "size_bytes (sn_dev s) = 40000"
proof -
  have n: "sb_block_count life_sb = 4"
    by (simp add: life_sb_def make_data_sb_def sb_common_def demo_uuids_def data_blocks_def RawDevice_SizeBytes_def
        life_group_ok kDataRegionOffset_8K kValueSize_def)
  have S: "SnapshotSlotSize 40000 = 12288"
    by (simp add: SnapshotSlotSize_def kDataRegionOffset_8K kSnapshot_numbers)
  have u: "length (sb_engine_uuid life_sb) = kUuidBytes"
    using make_sb_props [OF life_group_ok(6)] by (simp add: life_sb_def sb_wf_def kUuidBytes_def)
  have fit: "(kSnapshotSlotHeaderSize + AlignUp (unat (sb_block_count life_sb) * kSnapshotRecordSize mod 2 ^ 64)
       kSnapshotBlockSize) mod 2 ^ 64 \<le> SnapshotSlotSize 40000"
    by (simp add: n S kSnapshot_numbers AlignUp_def)
  have "\<exists>s. Snapshot_Open (snapshot_fresh (g_snap life_created)) (options.truncate (life_opts True)) life_sb = Some (kSuccess, s)
      \<and> snap_ready s \<and> size_bytes (sn_dev s) = kd_size (g_snap life_created)"
    by (rule Open_create_healthy) (use life_devices u S fit in simp_all)
  then show thesis using that life_devices(8) by auto
qed

lemma life_open:
  obtains dc where "OpenDevice (life_opts True) life_env 0 1 1 life_group = Some (kSuccess, dc, Some life_pool, 2)"
proof -
  have g: "CreateDeviceGroup life_group (en_entropy life_env) (en_now life_env) 0 1 = (kSuccess, Some life_sb, life_created)"
    using CreateDeviceGroup_ok [OF life_group_ok(1,6), of 99 0 1] by (simp add: life_env_def life_sb_def life_created_def)
  have q: "(kd_size (g_data life_created) - kDataRegionOffset) div kValueSize = 4"
    by (simp add: life_devices kDataRegionOffset_8K kValueSize_def)
  have n: "sb_block_count life_sb = 4"
    by (simp add: life_sb_def make_data_sb_def sb_common_def demo_uuids_def data_blocks_def RawDevice_SizeBytes_def
        life_group_ok kDataRegionOffset_8K kValueSize_def)
  have io: "SyncIo_Open (sync_io_closed (g_data life_created)) (Some Strict) = (kSuccess, \<lparr>io_open = True,
    io_block_count = 4, io_level = Some Strict, io_kdev = g_data life_created\<rparr>)"
    using SyncIo_Open_healthy [OF life_devices(4), of "Some Strict"] q by simp
  have pl: "Create_pool (ucast (sb_device_id life_sb)) 1 0 None True = (kSuccess, Some life_pool)"
    by (simp add: Create_pool_def life_pool_def kInvalidSlot_def)
  obtain w where w: "Wal_Open (wal_closed (g_wal life_created)) (options.truncate (life_opts True)) = (kSuccess, w)"
    by (rule life_wal) blast
  obtain s where s: "Snapshot_Open (snapshot_fresh (g_snap life_created)) (options.truncate (life_opts True)) life_sb = Some (kSuccess, s)"
    by (rule life_snapshot) blast
  have e: "en_value_base life_env = None" "en_heap life_env" by (simp_all add: life_env_def)
  have "\<exists>dc. OpenDevice (life_opts True) life_env 0 1 1 life_group = Some (kSuccess, dc, Some life_pool, 2)"
    using g io n pl w s e
    by (simp add: OpenDevice_def Let_def dc_default_def SyncIo_BlockCount_def RegisterValueBufferPool_ok)
  then show thesis using that by blast
qed

text \<open>The reactor of the new engine, and the devices after a power failure right behind its creation.\<close>

lemma life_demo:
  obtains dc r g' where "OpenDevice (life_opts True) life_env 0 1 1 life_group = Some (kSuccess, dc, Some life_pool, 2)"
    "r = Reactor_new dc (options.truncate (life_opts True)) (\<lambda>_. 7)"
    "newly_created (life_opts True) life_env life_group r" "power_lost r g'"
    "same_setup r g' (options.truncate (life_opts False))" "RecoverDeviceGroup g' 0 1 = (kSuccess, Some (dc_super_block r), g')"
    "rx_device r = ucast (sb_device_id life_sb)"
proof -
  let ?T = "options.truncate (life_opts True)"
  obtain dc where op: "OpenDevice (life_opts True) life_env 0 1 1 life_group = Some (kSuccess, dc, Some life_pool, 2)"
    by (rule life_open)
  define r where "r = Reactor_new dc ?T (\<lambda>_. 7)"
  have new: "newly_created (life_opts True) life_env life_group r"
    unfolding newly_created_def r_def using life_group_ok op by (auto intro!: exI)
  have sz: "kd_size (g_data life_group) < 2 ^ 63" using life_group_ok by simp
  have G: "life_created = created_group life_group (demo_uuids 7) (en_now life_env) (of_nat 0) (of_nat 1)"
    "life_sb = make_data_sb (demo_uuids 7) (data_blocks (opened (g_data life_group))) (of_nat 0) (of_nat 1) (en_now life_env)"
    by (simp_all add: life_created_def life_sb_def life_env_def)
  have cr: "o_create ?T" "o_wal_level ?T = Strict" by simp_all
  note F = OpenDevice_create_fields [OF op refl cr life_group_ok(1) sz life_group_ok(6) G(1) refl G(2)]
  obtain w where w: "Wal_Open (wal_closed (g_wal life_created)) ?T = (kSuccess, w)" "w_ring_end w = 16384"
    "w_dev w = opened (g_wal life_created)" by (rule life_wal)
  obtain s where s: "Snapshot_Open (snapshot_fresh (g_snap life_created)) ?T life_sb = Some (kSuccess, s)"
    "snap_ready s" "size_bytes (sn_dev s) = 40000" by (rule life_snapshot)
  have ws: "dc_wal dc = w" "dc_snapshot dc = s" using F(2,3) w(1) s(1) by simp_all
  have bs: "o_snapshot_buffer_size ?T \<le> 2 ^ 38" "o_wal_buffer_size ?T \<le> 2 ^ 38" by simp_all
  have s63: "kd_size (g_snap life_created) < 2 ^ 63" by (simp add: life_devices)
  note I = Open_create_inv [OF s(1) cr(1) refl bs(1) F(11) s63] and W = Wal_Open_create [OF w(1) cr(1) bs(2)]
  define g' where "g' = \<lparr>g_data = g_data life_created, g_wal = g_wal life_created, g_snap = kdev (sn_dev s)\<rparr>"
  have hs: "kd_script (kdev (sn_dev s)) = []" "kd_size (kdev (sn_dev s)) = 40000"
    using s(2,3) by (simp_all add: snap_ready_def healthy_def)
  have rd: "rd_contents (sn_dev s) = kd_data (kdev (sn_dev s))" "rd_durable (sn_dev s) = kd_durable (kdev (sn_dev s))"
    by (simp_all add: rd_contents_def rd_durable_def)
  have f: "dc_io r = \<lparr>io_open = True, io_block_count = (kd_size (g_data life_group) - kDataRegionOffset) div kValueSize,
      io_level = Some Strict, io_kdev = g_data life_created\<rparr>"
    "dc_wal r = w\<lparr>w_level := Strict\<rparr>" "dc_snapshot r = s\<lparr>sn_buffer_size := 65536\<rparr>" "dc_super_block r = life_sb"
    using F(1,7) ws by (simp_all add: r_def SyncIo_RebindOptions_def Wal_RebindOptions_def Snapshot_RebindOptions_def)
  have slots: "snap_slot (s\<lparr>sn_buffer_size := 65536\<rparr>) = snap_slot s" by (simp add: snap_slot_def fun_eq_iff)
  have "power_lost r g'"
    using life_devices w(3) rd by (simp add: power_lost_def g'_def f crash_image_def snap_crash_def slots)
  moreover have "same_setup r g' (options.truncate (life_opts False))"
  proof -
    have nb: "unat (sb_block_count life_sb) = (kd_size (g_data life_group) - kDataRegionOffset) div kValueSize"
      "0 < unat (sb_block_count life_sb)" using F(8,9) by simp_all
    have rg: "WalRingSize 20000 = 8192" by (simp add: WalRingSize_def kDataRegionOffset_8K kWalBlockSize_def)
    have st: "w_ring_start w = 8192" using W(1) by (simp add: wal_inv_def wal_win_def wal_geo_def kDataRegionOffset_8K)
    have "restart (w\<lparr>w_level := Strict\<rparr>) (kd_data (g_wal life_created)) (g_wal life_created) (options.truncate (life_opts False))"
      using life_devices W(8) w(2) st by (simp add: restart_def rg kDataRegionOffset_8K ring_bytes_def)
    moreover have "snap_config (s\<lparr>sn_buffer_size := 65536\<rparr>) (kdev (sn_dev s)) (options.truncate (life_opts False)) life_sb"
    proof -
      have "(kSnapshotSlotHeaderSize + AlignUp (unat (sb_block_count life_sb) * kSnapshotRecordSize mod 2 ^ 64)
          kSnapshotBlockSize) mod 2 ^ 64 \<le> SnapshotSlotSize 40000"
        using nb by (simp add: life_group_ok kDataRegionOffset_8K kValueSize_def SnapshotSlotSize_def kSnapshot_numbers AlignUp_def)
      then show ?thesis using I hs rd life_devices by (simp add: snap_config_def)
    qed
    ultimately show ?thesis
      using nb life_devices life_group_ok(2) by (simp add: same_setup_def g'_def f rx_blocks_def)
  qed
  moreover have "RecoverDeviceGroup g' 0 1 = (kSuccess, Some (dc_super_block r), g')"
  proof -
    have ok: "group_ok g'" using created_group_ok [OF life_group_ok(1), of "demo_uuids 7" 99 0 1] hs
      by (simp add: group_ok_def g'_def life_created_def [symmetric] kDataRegionOffset_8K)
    have "kread (kd_data (kdev (sn_dev s))) 0 kSuperBlockSize = kread (kd_data (g_snap life_created)) 0 kSuperBlockSize"
      by (rule kread_cong) (use I rd in \<open>simp add: kDataRegionOffset_8K kSuperBlockSize_def\<close>)
    then have pc: "primary_copy (kd_data (kdev (sn_dev s))) = primary_copy (kd_data (g_snap life_created))"
      by (simp add: primary_copy_def)
    note C = created_group_copies [OF life_group_ok(6), of life_group 99 0 1, folded life_created_def]
    show ?thesis
      using RecoverDeviceGroup_valid [OF ok, of 0 1] make_sb_props [OF life_group_ok(6)] C pc
      by (simp add: g'_def f CheckDeviceGroup_made life_sb_def data_blocks_def RawDevice_SizeBytes_def Let_def
          life_devices life_group_ok kDataRegionOffset_8K kValueSize_def)
  qed
  ultimately show thesis using that [OF op r_def] new f by (simp add: rx_device_def)
qed

section \<open>Properties\<close>



end
