(* ===== verification/Cabe_Moves.thy ===== *)
theory Cabe_Moves
  imports Cabe_Engine
begin

text \<open>
  Construction, moves and destruction of the objects that own a device handle or memory. A device
  context is built in \<open>Engine::Open\<close>, moved into a vector, and moved from there into its reactor;
  on a failure the engine closes contexts that may already have been moved from. A move gives
  the two objects afterwards, an assignment also what destroying the old target left.
\<close>

section \<open>Raw devices\<close>

definition RawDevice_destroy :: "raw_device \<Rightarrow> raw_device" where
  "RawDevice_destroy r = (if fd_open r then snd (RawDevice_Close r) else r)"

definition RawDevice_moved_from :: "raw_device \<Rightarrow> raw_device" where
  "RawDevice_moved_from other = other\<lparr>fd_open := False, size_bytes := 0\<rparr>"

definition RawDevice_move :: "raw_device \<Rightarrow> raw_device \<times> raw_device" where
  "RawDevice_move other = (other, RawDevice_moved_from other)"

definition RawDevice_assign :: "raw_device \<Rightarrow> raw_device \<Rightarrow> raw_device \<times> raw_device \<times> raw_device" where
  "RawDevice_assign this other =
     (other, RawDevice_moved_from other, if fd_open this then snd (RawDevice_Close this) else this)"

section \<open>The log\<close>

text \<open>The buffer is freed without a flush. The commit group is quiet when a log is moved (asserted), so
  its atomics hold their initial values on both sides, apart from the epoch, which is copied.\<close>

definition Wal_destroy :: "wal \<Rightarrow> wal" where
  "Wal_destroy w = w\<lparr>w_buf := None, w_dev := RawDevice_destroy (w_dev w)\<rparr>"

definition Wal_moved_from :: "wal \<Rightarrow> wal" where
  "Wal_moved_from other = other\<lparr>w_dev := RawDevice_moved_from (w_dev other), w_buf := None\<rparr>"

definition Wal_move :: "wal \<Rightarrow> wal \<times> wal" where
  "Wal_move other = (other, Wal_moved_from other)"

definition Wal_assign :: "wal \<Rightarrow> wal \<Rightarrow> wal \<times> wal \<times> raw_device" where
  "Wal_assign this other =
     (case RawDevice_assign (w_dev this) (w_dev other) of (d, od, old) \<Rightarrow>
      (other\<lparr>w_dev := d\<rparr>, other\<lparr>w_dev := od, w_buf := None\<rparr>, old))"

section \<open>The snapshot writer\<close>

text \<open>Its moves are the defaulted ones: the device moves, the other members are copied.\<close>

definition Snapshot_moved_from :: "snapshot \<Rightarrow> snapshot" where
  "Snapshot_moved_from other = other\<lparr>sn_dev := RawDevice_moved_from (sn_dev other)\<rparr>"

definition Snapshot_move :: "snapshot \<Rightarrow> snapshot \<times> snapshot" where
  "Snapshot_move other = (other, Snapshot_moved_from other)"

section \<open>The data device\<close>

definition SyncIo_destroy :: "sync_io \<Rightarrow> sync_io" where
  "SyncIo_destroy io = (if io_open io then snd (SyncIo_Close io) else io)"

definition SyncIo_moved_from :: "sync_io \<Rightarrow> sync_io" where
  "SyncIo_moved_from other = other\<lparr>io_open := False, io_block_count := 0, io_level := None\<rparr>"

definition SyncIo_move :: "sync_io \<Rightarrow> sync_io \<times> sync_io" where
  "SyncIo_move other = (other, SyncIo_moved_from other)"

definition SyncIo_assign :: "sync_io \<Rightarrow> sync_io \<Rightarrow> sync_io \<times> sync_io \<times> sync_io" where
  "SyncIo_assign this other =
     (other, SyncIo_moved_from other, if io_open this then snd (SyncIo_Close this) else this)"

section \<open>Allocator and staging pool\<close>

text \<open>The memory of the allocator is its list of slots; the empty list is the null pointer.\<close>

definition ring_moved_from :: ring where
  "ring_moved_from = \<lparr>rb_slots = [], rb_capacity = 0, rb_head = 0, rb_tail = 0\<rparr>"

definition ring_destroy :: "ring \<Rightarrow> ring" where
  "ring_destroy r = r\<lparr>rb_slots := []\<rparr>"

definition ring_move :: "ring \<Rightarrow> ring \<times> ring" where
  "ring_move other = (other, ring_moved_from)"

definition ring_assign :: "ring \<Rightarrow> ring \<Rightarrow> ring \<times> ring \<times> ring" where
  "ring_assign this other = (other, ring_moved_from, ring_destroy this)"

text \<open>Base 0 is the null pointer. The list of free buffers is a vector, empty once it has been
  moved from.\<close>

definition pool_moved_from :: buffer_pool where
  "pool_moved_from = \<lparr>bp_base = 0, bp_block_count = 0, bp_free_list = []\<rparr>"

definition pool_destroy :: "buffer_pool \<Rightarrow> buffer_pool" where
  "pool_destroy p = (if bp_base p \<noteq> 0 then p\<lparr>bp_base := 0\<rparr> else p)"

definition pool_move :: "buffer_pool \<Rightarrow> buffer_pool \<times> buffer_pool" where
  "pool_move other = (other, pool_moved_from)"

definition pool_assign :: "buffer_pool \<Rightarrow> buffer_pool \<Rightarrow> buffer_pool \<times> buffer_pool \<times> buffer_pool" where
  "pool_assign this other = (other, pool_moved_from, pool_destroy this)"

section \<open>Device contexts, reactors, the engine\<close>

text \<open>A context moves member by member; the index is a container, empty once it has been moved from.\<close>

definition context_moved_from :: "device_context \<Rightarrow> device_context" where
  "context_moved_from dc = dc\<lparr>dc_io := SyncIo_moved_from (dc_io dc), dc_wal := Wal_moved_from (dc_wal dc),
     dc_snapshot := Snapshot_moved_from (dc_snapshot dc), dc_pool := pool_moved_from, dc_alloc := ring_moved_from,
     dc_index := index_empty\<rparr>"

text \<open>\<open>~Reactor\<close> of a reactor whose thread is not running; \<open>~Engine\<close> (\<open>None\<close>: it waits in \<open>Close\<close>).\<close>

definition Reactor_destroy :: "reactor \<Rightarrow> reactor" where
  "Reactor_destroy r = (if rx_dc_closed r then r else CloseDc r)"

definition Engine_destroy :: "engine \<Rightarrow> (engine \<times> reactor list) option" where
  "Engine_destroy e = (if eg_opened e then map_option (\<lambda>(c, e', closed). (e', closed)) (Engine_Close e) else Some (e, []))"

section \<open>Owners\<close>

text \<open>The handles and buffers of a context that are still to be given back.\<close>

datatype resource = Data_handle | Wal_handle | Snapshot_handle | Wal_buffer

definition context_owns :: "device_context \<Rightarrow> resource set" where
  "context_owns dc = (if io_open (dc_io dc) then {Data_handle} else {})
     \<union> (if fd_open (w_dev (dc_wal dc)) then {Wal_handle} else {})
     \<union> (if fd_open (sn_dev (dc_snapshot dc)) then {Snapshot_handle} else {})
     \<union> (if w_buf (dc_wal dc) \<noteq> None then {Wal_buffer} else {})"

lemma moved_from_owns: "context_owns (context_moved_from dc) = {}"
  by (simp add: context_owns_def context_moved_from_def SyncIo_moved_from_def Wal_moved_from_def Snapshot_moved_from_def
      RawDevice_moved_from_def)

lemma moved_from_abort: "AbortOpen (context_moved_from dc) = context_moved_from dc"
  by (simp add: AbortOpen_def context_moved_from_def SyncIo_moved_from_def Wal_moved_from_def Snapshot_moved_from_def
      RawDevice_moved_from_def SyncIo_Close_def Wal_Close_def Snapshot_Close_def RawDevice_Close_def)

lemma Wal_Close_owns: "fd_open (w_dev (snd (Wal_Close w))) = False" "w_buf (snd (Wal_Close w)) = None"
  by (auto simp: Wal_Close_def RawDevice_Close_def Let_def split: prod.splits if_splits)

lemma AbortOpen_owns: "context_owns (AbortOpen dc) = {}"
  using Wal_Close_owns [of "dc_wal dc"]
  by (simp add: context_owns_def AbortOpen_def SyncIo_Close_def Snapshot_Close_def RawDevice_Close_def)

lemma CloseDc_owns: "context_owns (device_context.truncate (CloseDc r)) = {}"
  using Wal_Close_owns [of "dc_wal r"]
  by (auto simp: context_owns_def CloseDc_def SyncIo_Close_def Snapshot_Close_def RawDevice_Close_def
      device_context.truncate_def split: prod.splits)

lemma Reactor_destroy_owns: "\<not> rx_dc_closed r \<Longrightarrow> context_owns (device_context.truncate (Reactor_destroy r)) = {}"
  by (simp add: Reactor_destroy_def CloseDc_owns)

lemma open_devices_owns:
  "open_devices eopts i count pid gs acc = Some (c, ready, rest, pid') \<Longrightarrow> dc \<in> set rest \<Longrightarrow> context_owns dc = {}"
proof (induction gs arbitrary: i pid acc)
  case (Cons x gs)
  then show ?case using AbortOpen_owns
    by (cases x) (fastforce split: option.splits prod.splits if_splits)
qed simp

lemma start_reactors_owns:
  "start_reactors opts xs acc = (c, rs, closed, unwrapped) \<Longrightarrow> c \<noteq> kSuccess \<Longrightarrow>
   (\<forall>r \<in> set closed. context_owns (device_context.truncate r) = {}) \<and> (\<forall>dc \<in> set unwrapped. context_owns dc = {})"
proof (induction xs arbitrary: acc)
  case (Cons x xs)
  then show ?case using CloseDc_owns AbortOpen_owns by (cases x) (auto simp: Let_def split: if_splits)
qed simp

end
