(* ===== verification/Cabe_EngineTheorems.thy ===== *)
theory Cabe_EngineTheorems
  imports Cabe_EngineLife Cabe_DeviceTheorems Cabe_Moves
begin

text \<open>
  The properties of the engine as a whole, and a concrete engine of one device group that is
  created, loses power and is opened again.
\<close>

section \<open>A concrete engine\<close>

definition one_group :: "bool \<Rightarrow> device_group \<Rightarrow> engine_options" where
  "one_group b g = (life_opts b)\<lparr>eo_devices := [g]\<rparr>"

lemma OpenDevice_cong:
  assumes "options.truncate a = options.truncate b" "eo_value_buffer_pool_blocks a = eo_value_buffer_pool_blocks b"
  shows "OpenDevice a = OpenDevice b"
  by (intro ext) (simp only: OpenDevice_def assms)

lemma one_group_simps [simp]:
  "options.truncate (one_group b g) = options.truncate (life_opts b)" "eo_devices (one_group b g) = [g]"
  "eo_spdk_devices (one_group b g) = []" "eo_value_buffer_pool_blocks (one_group b g) = 0"
  "OpenDevice (one_group b g) = OpenDevice (life_opts b)"
proof -
  show "options.truncate (one_group b g) = options.truncate (life_opts b)" "eo_devices (one_group b g) = [g]"
    "eo_spdk_devices (one_group b g) = []" "eo_value_buffer_pool_blocks (one_group b g) = 0"
    by (simp_all add: one_group_def life_opts_def options.truncate_def)
  show "OpenDevice (one_group b g) = OpenDevice (life_opts b)"
    by (rule OpenDevice_cong) (simp_all add: one_group_def life_opts_def options.truncate_def)
qed

text \<open>The engine right after its creation, and an outage of it.\<close>

lemma engine_demo:
  obtains e g' where "created_engine (one_group True life_group) [life_env] e" "outage (eg_reactors e) (one_group False g') [life_env]"
    "resources e (one_group False g') [life_env]"
proof -
  obtain dc r g' where D: "OpenDevice (life_opts True) life_env 0 1 1 life_group = Some (kSuccess, dc, Some life_pool, 2)"
    "r = Reactor_new dc (options.truncate (life_opts True)) (\<lambda>_. 7)"
    and R: "power_lost r g'" "same_setup r g' (options.truncate (life_opts False))"
      "RecoverDeviceGroup g' 0 1 = (kSuccess, Some (dc_super_block r), g')" "rx_device r = ucast (sb_device_id life_sb)"
    by (rule life_demo)
  let ?opt = "options.truncate (life_opts True)"
  define e where "e = \<lparr>eg_opened = True, eg_options = ?opt, eg_reactors = [r], eg_pools = [life_pool], eg_next_pool_id = 2\<rparr>"
  have "en_thread life_env" "en_clock life_env = (\<lambda>_. 7)" by (simp_all add: life_env_def)
  then have o: "Engine_Open (engine_new ?opt) (one_group True life_group) [life_env] = Some (kSuccess, e, [])"
    using D by (simp add: Engine_Open_def engine_new_def ValidateDeviceConfigFamily_def e_def Let_def)
  have "created_engine (one_group True life_group) [life_env] e"
    unfolding created_engine_def using life_group_ok o by auto
  moreover have "outage (eg_reactors e) (one_group False g') [life_env]" using R(1-3) by (simp add: outage_def e_def)
  moreover have "resources e (one_group False g') [life_env]"
    using R(4) by (simp add: resources_def e_def Create_pool_def life_pool_def kInvalidSlot_def life_env_def)
  ultimately show thesis by (rule that)
qed

section \<open>Properties\<close>

text \<open>C1: an engine with any number of device groups, up to the 256 it accepts, is one map from keys to
  values, whatever its devices do. Each key belongs to the reactor its hash selects. A call that
  reports success has had exactly its effect on the map, and a call that reports failure,
  whether an argument was refused or a device failed, has had none. A get answers the value of
  its key; a put is refused for its key or its size before anything else and for space exactly
  when the key's own device is full; a delete finds exactly the keys that have a value.\<close>

theorem engine_refines_map:
  assumes h: "engine_holds Hash e kv" and run: "Engine_serve Hash e rq = (c, out, e')"
  shows "engine_holds Hash e' (kv_served rq c kv)
    \<and> (case rq of
        Get_request key sz \<Rightarrow>
          if key = [] then c = kMemEmptyKey \<and> out = None
          else if sz \<noteq> kValueSize then c = kEngineInvalidValue \<and> out = None
          else kv key = None \<and> c = kIndexKeyNotFound
            \<or> kv key \<noteq> None \<and> (c = kSuccess \<and> out = kv key \<or> c = kIoBase \<and> out = None)
      | Put_request key v mem \<Rightarrow>
          if key = [] then c = kMemEmptyKey else if dv_size v \<noteq> kValueSize then c = kEngineInvalidValue
          else if kWalKeyMax < length key then c = kWalKeyTooLong
          else (c = kEngineNoSpace \<longleftrightarrow> card (dom (shard Hash (length (eg_reactors e)) (RouteKey Hash e key) kv))
                  = rx_blocks (eg_reactors e ! RouteKey Hash e key))
            \<and> c \<in> {kSuccess, kEngineNoSpace, kIoBase, kWalKeyTooLong, kWalWriteFailed, kWalFull}
      | Delete_request key \<Rightarrow>
          if key = [] then c = kMemEmptyKey else (c = kIndexKeyNotFound \<longleftrightarrow> kv key = None)
            \<and> c \<in> {kSuccess, kIndexKeyNotFound, kWalKeyTooLong, kWalWriteFailed, kWalFull}
      | Level_request l \<Rightarrow> \<not> IsValidWalLevel l \<longrightarrow> c = kEngineInvalidOpts
      | Snapshot_request \<Rightarrow> True)"
proof -
  have op: "eg_opened e" using engine_holdsD(1) [OF h] by (simp add: engine_up_def)
  note H = Engine_serve_holds [OF h run] and E = run [unfolded Engine_serve_def]
  show ?thesis
  proof (cases rq)
    case (Put_request key v mem)
    then have "Engine_Put Hash e key v mem = (c, e')" using E by (auto split: prod.splits)
    from Engine_Put_answer [OF h this] H show ?thesis unfolding Put_request request.case by blast
  next
    case (Get_request key sz)
    then have "Engine_Get Hash e key sz = (c, out, e')" using E by simp
    from Engine_Get_answer [OF h this] H show ?thesis unfolding Get_request request.case by blast
  next
    case (Delete_request key)
    then have "Engine_Delete Hash e key = (c, e')" using E by (auto split: prod.splits)
    from Engine_Delete_answer [OF h this] H show ?thesis unfolding Delete_request request.case by blast
  next
    case (Level_request l)
    then show ?thesis using H E op by (auto simp: Engine_SetWalLevel_def split: prod.splits)
  next
    case Snapshot_request
    then show ?thesis using H by simp
  qed
qed

theorem engine_refines_map_witness:
  "\<exists>e c out e'. engine_holds (\<lambda>_. 5) e Map.empty \<and> Engine_serve (\<lambda>_. 5) e (Get_request [1, 2] kValueSize) = (c, out, e')
     \<and> c = kIndexKeyNotFound"
proof -
  let ?e = "\<lparr>eg_opened = True, eg_options = demo_opts Strict, eg_reactors = [rx_demo], eg_pools = [], eg_next_pool_id = 1\<rparr>"
  have h: "engine_holds (\<lambda>_. 5) ?e Map.empty"
    using rx_demo_holds by (simp add: engine_holds_def hold_by_def engine_up_def)
  obtain c out e' where run: "Engine_serve (\<lambda>_. 5) ?e (Get_request [1, 2] kValueSize) = (c, out, e')" by (metis prod_cases3)
  from engine_refines_map [OF h run] have "c = kIndexKeyNotFound" by simp
  then show ?thesis using h run by blast
qed





text \<open>C36: opening is all or nothing. When \<open>Engine::Open\<close> fails, at whatever device and step, the engine is as
  closed as it was and has no reactors, and no context it had built by then owns anything any more:
  not the handle of a data, log or snapshot device, not the log's buffer, whether the context was being
  built, was waiting in the vector, had been moved into a reactor, or had been moved from;
  closing a context that has been moved from changes nothing.\<close>

theorem failed_open_closes_all:
  assumes run: "Engine_Open e eopts envs = Some (c, e', rest)" and c: "c \<noteq> kSuccess" and closed: "\<not> eg_opened e"
    and clean: "eg_reactors e = []"
  shows "\<not> eg_opened e' \<and> eg_reactors e' = [] \<and> (\<forall>dc \<in> set rest. context_owns dc = {})
    \<and> AbortOpen (context_moved_from dc) = context_moved_from dc \<and> context_owns (context_moved_from dc) = {}"
proof -
  let ?opts = "options.truncate eopts"
  have "\<not> eg_opened e' \<and> eg_reactors e' = [] \<and> (\<forall>dc \<in> set rest. context_owns dc = {})"
  proof (cases "open_devices eopts 0 (length (eo_devices eopts)) (eg_next_pool_id e) (zip envs (eo_devices eopts)) []")
    case None
    then show ?thesis using run closed clean by (auto simp: Engine_Open_def Let_def split: if_splits)
  next
    case (Some x)
    then obtain c1 ready ab pid where o: "open_devices eopts 0 (length (eo_devices eopts)) (eg_next_pool_id e)
        (zip envs (eo_devices eopts)) [] = Some (c1, ready, ab, pid)" by (metis prod_cases4)
    obtain c2 rs cl un where st: "start_reactors ?opts (zip envs (map fst ready)) [] = (c2, rs, cl, un)"
      by (metis prod_cases4)
    note R = run [unfolded Engine_Open_def Let_def o option.case prod.case st]
    show ?thesis
      using R c closed clean open_devices_owns [OF o] start_reactors_owns [OF st]
      by (auto split: if_splits)
  qed
  then show ?thesis using moved_from_abort moved_from_owns by blast
qed

theorem failed_open_closes_all_witness:
  "\<exists>e' dc. Engine_Open (engine_new (options.truncate (life_opts True))) (one_group True life_group) [life_env\<lparr>en_thread := False\<rparr>]
       = Some (kEngineReactorStartFailed, e', [dc])
     \<and> \<not> eg_opened e' \<and> context_owns dc = {}"
proof -
  let ?opt = "options.truncate (life_opts True)" and ?env = "life_env\<lparr>en_thread := False\<rparr>"
  obtain dc where D: "OpenDevice (life_opts True) life_env 0 1 1 life_group = Some (kSuccess, dc, Some life_pool, 2)"
    by (rule life_open)
  have same: "en_entropy ?env = en_entropy life_env" "en_now ?env = en_now life_env" "en_pool_base ?env = en_pool_base life_env"
    "en_value_base ?env = en_value_base life_env" "en_heap ?env = en_heap life_env" by simp_all
  have "OpenDevice (life_opts True) ?env 0 1 1 life_group = OpenDevice (life_opts True) life_env 0 1 1 life_group"
    by (simp only: OpenDevice_def same)
  then have D': "OpenDevice (life_opts True) ?env 0 1 1 life_group = Some (kSuccess, dc, Some life_pool, 2)" using D by simp
  obtain e' dc' where run: "Engine_Open (engine_new ?opt) (one_group True life_group) [?env]
      = Some (kEngineReactorStartFailed, e', [dc'])"
    using D' by (simp add: Engine_Open_def engine_new_def ValidateDeviceConfigFamily_def Let_def)
  have "\<not> eg_opened (engine_new ?opt)" "eg_reactors (engine_new ?opt) = []" by (simp_all add: engine_new_def)
  from failed_open_closes_all [OF run _ this] show ?thesis using run by auto
qed

end
