(* ===== verification/Cabe_WalAbort.thy ===== *)
theory Cabe_WalAbort
  imports Cabe_WalRecoverTheorems
begin

text \<open>
  What closing a log does to the device after a recovery that failed while the window was being
  rebuilt. An engine that cannot open closes the log it could not recover (\<open>AbortOpen\<close>), and
  closing at a batching level flushes the window.
\<close>

text \<open>A flush of a partly filled window whose buffer is all zeros.\<close>

lemma Close_flushes_zeros:
  assumes buf: "w_buf w = Some (zeros (w_buf_size w))" "kWalBlockSize \<le> w_buf_size w"
    and n: "0 < w_n_frames w" "w_n_frames w < kWalFramesPerBlock" and lvl: "\<not> sync_level w"
    and close: "Wal_Close w = (kSuccess, w')"
  shows "kread (kd_durable (kdev (w_dev w'))) (w_cur_off w) kWalBlockSize = zeros kWalBlockSize"
proof -
  have m: "0 < w_n_frames w * 128" "w_n_frames w * 128 < 4096"
    using n by (simp_all add: kWalFramesPerBlock_def kWalBlockSize_def kWalFrameSize_def)
  have "(w_n_frames w * 128 + 4095) div 4096 = 1" by (rule div_nat_eqI) (use m in simp_all)
  then have "AlignUp (w_n_frames w * 128) 4096 = 4096" using m by (simp add: AlignUp_def)
  then have span: "take (AlignUp (used_bytes w) kWalBlockSize) (buffer w) = zeros kWalBlockSize"
    using buf by (simp add: used_bytes_def buffer_def zeros_def kWalBlockSize_def kWalFrameSize_def)
  obtain c1 d1 where wr: "RawDevice_WriteAt (w_dev w) (w_cur_off w) (zeros kWalBlockSize) = (c1, d1)" by fastforce
  obtain c2 d2 where sy: "RawDevice_Sync d1 = (c2, d2)" by fastforce
  note R = close [unfolded Wal_Close_def Flush_def WriteWindowSpan_def Let_def span wr prod.case wal_Sync_def]
  have ok: "c1 = kSuccess" "c2 = kSuccess" and dev: "kdev (w_dev w') = kdev d2"
    using R sy buf(1) lvl n(1)
    by (auto simp: AdvanceAfterWrite_def Let_def sync_level_def RawDevice_Close_def split: if_splits prod.splits)
  have "kread (rd_durable d2) (w_cur_off w) (length (zeros kWalBlockSize)) = zeros kWalBlockSize"
    by (rule raw.write_sync_durable(1) [OF wr [unfolded ok] sy [unfolded ok]])
  then show ?thesis by (simp add: dev rd_durable_def zeros_def)
qed

text \<open>When the rebuilding stops at the read of the tail block, the window has frames, and its
  buffer is still the zeros it was cleared to.\<close>

lemma refill_read_failed:
  assumes run: "refill w k = Some (kWalRecoveryReadFailed, w1)"
  shows "0 < w_n_frames w" "w_buf w1 = Some (zeros (w_buf_size w))" "w_buf_size w1 = w_buf_size w"
    "w_n_frames w1 = w_n_frames w" "w_cur_off w1 = w_cur_off w" "w_level w1 = w_level w"
    "wk_fragments k = 0 \<Longrightarrow> rd_contents (w_dev w1) = rd_contents (w_dev w)"
proof -
  define zb where "zb = (if 0 < w_n_frames w then w_cur_off w + kWalBlockSize else w_cur_off w)"
  define ze where "ze = min (BlockFloor (wk_stop_off k) + w_buf_size w) (w_ring_end w)"
  obtain c d where er: "(if 0 < wk_fragments k then erase_loop (w_buf_size w) ze zb (w_dev w) else Some (kSuccess, w_dev w)) = Some (c, d)"
    using run unfolding refill_def Let_def zb_def ze_def by (auto split: option.splits)
  obtain c1 blk d1 where rd: "RawDevice_ReadAt d (w_cur_off w) kWalBlockSize = (c1, blk, d1)" by (metis prod_cases3)
  have erc: "erase_loop b e o' d' = Some (c', d'') \<Longrightarrow> c' = kSuccess \<or> c' = kWalWriteFailed" for b e o' d' c' d''
    by (induction b e o' d' rule: erase_loop.induct)
      (subst (asm) (2) erase_loop.simps, auto simp: Let_def split: if_splits prod.splits)
  have c: "c = kSuccess \<or> c = kWalWriteFailed" using er erc by (auto split: if_splits)
  note R = run [unfolded refill_def Let_def, folded zb_def ze_def, unfolded er option.case prod.case rd]
  have "c = kSuccess" "0 < w_n_frames w" "c1 \<noteq> kSuccess"
    and w1: "w1 = w\<lparr>w_dev := d1, w_buf := Some (zeros (w_buf_size w))\<rparr>"
    using R c by (auto split: if_splits prod.splits)
  then show "0 < w_n_frames w" "w_buf w1 = Some (zeros (w_buf_size w))" "w_buf_size w1 = w_buf_size w"
    "w_n_frames w1 = w_n_frames w" "w_cur_off w1 = w_cur_off w" "w_level w1 = w_level w"
    by simp_all
  show "rd_contents (w_dev w1) = rd_contents (w_dev w)" if "wk_fragments k = 0"
    using er that raw.rd_same [OF rd] by (simp add: w1)
qed

lemma set_anchor_window:
  "w_n_frames (set_anchor w off q cn) < kWalFramesPerBlock"
  "0 < w_n_frames (set_anchor w off q cn) \<Longrightarrow> w_cur_off (set_anchor w off q cn) = BlockFloor off"
  "w_buf_size (set_anchor w off q cn) = w_buf_size w" "w_dev (set_anchor w off q cn) = w_dev w"
  "w_level (set_anchor w off q cn) = w_level w"
proof -
  have "off - off div 4096 * 4096 = off mod 4096" by (simp add: minus_div_mult_eq_mod)
  then have "(off - off div 4096 * 4096) div 128 + 1 \<le> 32" using mod_less_divisor [of 4096 off] by simp
  then show "w_n_frames (set_anchor w off q cn) < kWalFramesPerBlock"
    by (simp add: set_anchor_def Let_def BlockFloor_def kWalBlockSize_def kWalFrameSize_def kWalFramesPerBlock_def)
qed (auto simp: set_anchor_def Let_def split: if_splits)

section \<open>Properties\<close>



end
