(* ===== verification/Cabe_LogRetry.thy ===== *)
theory Cabe_LogRetry
  imports Cabe_DeviceLog
begin

text \<open>
  A record whose write failed is not forgotten: it stays in the window and reaches the device with
  the next record. The caller was told that the operation failed, and repeats it.
\<close>

section \<open>A write that fails\<close>

lemma WriteAt_Errno:
  assumes "fd_open d" "kd_script (kdev d) = [Errno]" "buf \<noteq> []"
  shows "RawDevice_WriteAt d off buf = (kIoBase, d\<lparr>kdev := (kdev d)\<lparr>kd_script := []\<rparr>\<rparr>)"
  using assms by (simp add: RawDevice_WriteAt_def WriteExact_def write_loop.simps [of "kdev d"] pwrite_def)

lemma WriteWal_Errno:
  assumes inv: "wal_inv w log h m" and sy: "sync_level w" and n: "w_n_frames w < 32" "0 < w_window_bytes (reopen w)"
    and dev: "fd_open (w_dev w)" "kd_script (kdev (w_dev w)) = [Errno]"
    and e: "length (e_key e) \<le> kWalKeyMax" and len: "length log + 2 < 2 ^ 64"
  obtains w' where "WriteWal w e = (kWalWriteFailed, w')" "w_seq_next w' = w_seq_next w + 1"
    "w_dev w' = (w_dev w)\<lparr>kdev := (kdev (w_dev w))\<lparr>kd_script := []\<rparr>\<rparr>" "w_ring_end w' = w_ring_end w" "w_level w' = w_level w"
    "ring_bytes w' = ring_bytes w"
proof -
  let ?w1 = "reopen w"
  note R = reopen_inv [OF inv]
  have win: "wal_win w log h" and win1: "wal_win ?w1 log h" using inv R(1) by (simp_all add: wal_inv_def)
  have buf: "w_buf w \<noteq> None" using wal_winD(15) [OF win] by simp
  have ok: "entry_ok e" using e by (simp add: entry_ok_def)
  have u: "used_bytes ?w1 = 128 * w_n_frames w" using R(5) by (simp add: used_bytes_def kWalFrameSize_def)
  have "4096 \<le> w_window_bytes ?w1" using wal_winD(12) [OF win1] n(2) by (auto dest: dvd_imp_le)
  then have room: "used_bytes ?w1 < w_window_bytes ?w1" using u n by simp
  obtain c3 w3 where ap: "Append ?w1 e = (c3, w3)" by fastforce
  note A = Append_win [OF win1 room ok len ap]
  have n3: "0 < w_n_frames w3" using A(9) u by (simp add: used_bytes_def kWalFrameSize_def)
  have bl: "batch_loop [e] False False w = (kSuccess, [], False, True, w3)"
    using n(2) room ap A(1) by (simp add: Let_def)
  have dv: "w_dev w3 = w_dev w" using A(3) R(3) by simp
  let ?bs = "take (AlignUp (used_bytes w3) kWalBlockSize) (buffer w3)"
  have "128 \<le> used_bytes w3" using A(9) by simp
  moreover have "used_bytes w3 \<le> AlignUp (used_bytes w3) kWalBlockSize" using span_size [OF A(2)] by simp
  moreover have "length (buffer w3) = w_buf_size w3" "4096 \<le> w_buf_size w3"
    using wal_window(3) [OF A(2)] wal_winD(15,16,17) [OF A(2)] wal_winD(2) [OF A(2)] wal_geoD(6) [OF wal_winD(1) [OF A(2)]]
      wal_winD(13) [OF A(2)] by (simp_all add: buffer_def)
  ultimately have "0 < length ?bs" by simp
  then have "?bs \<noteq> []" by fastforce
  then have wr: "RawDevice_WriteAt (w_dev w3) (w_cur_off w3) ?bs = (kIoBase, (w_dev w)\<lparr>kdev := (kdev (w_dev w))\<lparr>kd_script := []\<rparr>\<rparr>)"
    using WriteAt_Errno dev by (simp add: dv)
  let ?w4 = "w3\<lparr>w_dev := (w_dev w)\<lparr>kdev := (kdev (w_dev w))\<lparr>kd_script := []\<rparr>\<rparr>\<rparr>"
  have "WriteOutWindow w3 = (kWalWriteFailed, ?w4)"
    using wr n3 by (simp add: WriteOutWindow_def WriteWindowSpan_def Let_def)
  then have "ProcessBatch [e] w = ([kWalWriteFailed], ?w4)"
    by (simp only: ProcessBatch_def bl prod.case) (simp add: Let_def)
  then have "WriteWal w e = (kWalWriteFailed, ?w4)" using e buf sy by (auto simp: WriteWal_def)
  moreover have "w_seq_next ?w4 = w_seq_next w + 1"
    using wal_winD(3) [OF A(2)] wal_winD(3) [OF win] by simp
  ultimately show thesis
    using that [of ?w4] A(4,7,8) R(2,8) by (simp add: reopen_def ring_bytes_def)
qed

section \<open>Properties\<close>

text \<open>C11: repeating a delete that was answered with a write error makes the log unreadable. The record of
  the failed delete is kept and reaches the device together with the record of the repeated one;
  the key is in the index until then, so the repeated delete is accepted and reports success. The
  log on the device now deletes the key twice. Recovery takes the second record for a
  contradiction: whatever index the log before gives, replaying this log ends with
  \<open>kWalRecoveryCorrupted\<close>, and the engine cannot be opened.\<close>

theorem retried_delete_unreplayable:
  assumes inv: "wal_inv w log h m" "sync_level w" "length log + 3 < 2 ^ 64" "cov \<le> length log"
    and del: "e_type e1 = EntryDelete" "e_type e2 = EntryDelete" "e_key e2 = e_key e1"
    and first: "WriteWal w e1 = (kWalWriteFailed, w1)" "w_seq_next w1 = w_seq_next w + 1"
    and second: "WriteWal w1 e2 = (kSuccess, w2)"
    and before: "replay_log (ApplyWalEntry sb) cov (drop cov log) idx = (kSuccess, ix)" "index_wf ix"
      "e_key e1 \<noteq> []" "index_map ix (e_key e1) \<noteq> None"
  shows "wal_inv w2 (log @ [e1, e2]) h (length log + 2)
    \<and> fst (replay_log (ApplyWalEntry sb) cov (drop cov (log @ [e1, e2])) idx) = kWalRecoveryCorrupted"
proof -
  have l2: "length log + 2 < 2 ^ 64" using inv(3) by simp
  obtain log1 where L1: "log1 = log \<or> log1 = log @ [e1]" "wal_inv w1 log1 h m" "w_level w1 = w_level w"
    "kWalWriteFailed = kWalKeyTooLong \<longleftrightarrow> kWalKeyMax < length (e_key e1)"
    using WriteWal_inv [OF inv(1) l2 first(1)] by blast
  have "w_seq_next w = length log + 1" "w_seq_next w1 = length log1 + 1"
    using inv(1) L1(2) by (simp_all add: wal_inv_def wal_win_def)
  then have log1: "log1 = log @ [e1]" using L1(1) first(2) by auto
  have "length log1 + 2 < 2 ^ 64" using inv(3) log1 by simp
  moreover have "sync_level w1" using inv(2) L1(3) by (simp add: sync_level_def)
  ultimately have W: "wal_inv w2 (log @ [e1, e2]) h (length log + 2)"
    using WriteWal_inv [OF L1(2) _ second] log1 by auto
  have key: "length (e_key e1) \<le> kWalKeyMax" using L1(4) by simp
  obtain v where v: "index_map ix (e_key e1) = Some v" using before(4) by blast
  have gone: "index_map (AList.delete (e_key e1) ix) (e_key e1) = None" by (simp add: index_map_def AList.delete_conv')
  have "ApplyWalEntry sb e1 q ix = (kSuccess, AList.delete (e_key e1) ix)" for q
    using del(1) key before(3) v by (simp add: ApplyWalEntry_def ValidateRecoveredMeta_def Delete_def index_map_def)
  moreover have "ApplyWalEntry sb e2 q (AList.delete (e_key e1) ix) = (kWalRecoveryCorrupted, AList.delete (e_key e1) ix)" for q
    using del(2,3) key before(3) gone by (simp add: ApplyWalEntry_def ValidateRecoveredMeta_def Delete_def index_map_def)
  moreover have "drop cov (log @ [e1, e2]) = drop cov log @ [e1, e2]" using inv(4) by simp
  ultimately have "fst (replay_log (ApplyWalEntry sb) cov (drop cov (log @ [e1, e2])) idx) = kWalRecoveryCorrupted"
    using replay_log_append [OF before(1), of "[e1, e2]"] by (simp del: of_nat_add of_nat_Suc)
  then show ?thesis using W by blast
qed

definition retry_delete :: wal_entry where
  "retry_delete = \<lparr>e_type = EntryDelete, e_key = [107, 49], e_block = BlockId 0, e_value_crc = 0, e_timestamp = 10\<rparr>"

definition retry_sb :: super_block where
  "retry_sb = sb_zero\<lparr>sb_block_count := 9\<rparr>"

theorem retried_delete_unreplayable_witness:
  "\<exists>w w1 w2. wal_inv w [demo_entry] 0 0 \<and> WriteWal w retry_delete = (kWalWriteFailed, w1)
     \<and> WriteWal w1 retry_delete = (kSuccess, w2) \<and> wal_inv w2 [demo_entry, retry_delete, retry_delete] 0 3
     \<and> fst (replay_log (ApplyWalEntry retry_sb) 0 [demo_entry, retry_delete, retry_delete] []) = kWalRecoveryCorrupted"
proof -
  obtain w0 where W0: "WriteWal (demo_wal Strict) demo_entry = (kSuccess, w0)" "dev_ok w0"
    "wal_inv w0 [demo_entry] 0 0" "same_ring (demo_wal Strict) w0" by (rule demo_write)
  define d where "d = (w_dev w0)\<lparr>kdev := (kdev (w_dev w0))\<lparr>kd_script := [Errno]\<rparr>\<rparr>"
  define w where "w = w0\<lparr>w_dev := d\<rparr>"
  have ct: "rd_contents d = rd_contents (w_dev w0)" "rd_durable d = rd_durable (w_dev w0)"
    by (simp_all add: d_def rd_contents_def rd_durable_def)
  have i0: "on_disk w0 (rd_contents (w_dev w0)) [demo_entry] (0 - 32) (max (written w0 [demo_entry]) 0)"
    "on_disk w0 (rd_durable (w_dev w0)) [demo_entry] (0 - 32) 0" using W0(3) by (simp_all add: wal_inv_def)
  have inv: "wal_inv w [demo_entry] 0 0"
    unfolding w_def by (rule wal_inv_dev [OF W0(3)]) (use i0 ct in \<open>simp_all add: on_disk_def\<close>)
  have win: "wal_win w [demo_entry] 0" using inv by (simp add: wal_inv_def)
  note D = wal_winD [OF win]
  have ring: "ring_bytes w = 1040384" "w_level w = Strict" "w_buf_size w = w_buf_size (demo_wal Strict)"
    using W0(4) demo_open(3) demo_inv(2) by (simp_all add: same_ring_def ring_bytes_def w_def)
  have sy: "sync_level w" using ring by (simp add: sync_level_def IsWalSyncLevel_def)
  have "written w [demo_entry] = 0" using D(6) by (cases "w_n_frames w") (auto simp: written_def)
  then have "w_head_off w = w_ring_start w" "w_cur_off w = w_ring_start w" using D(9,10) by (simp_all add: slot_off_def)
  then have "0 < WindowAt w (w_cur_off w)"
    using ring wal_geoD(3,6) [OF D(1)] by (simp add: WindowAt_def Let_def kWalBlockSize_def)
  then have win0: "0 < w_window_bytes (reopen w)" by (simp add: reopen_def)
  have n: "w_n_frames w < 32" using D(5) by simp
  have ok0: "healthy (w_dev w0)" "w_ring_end w0 \<le> size_bytes (w_dev w0)" using W0(2) by (simp_all add: dev_ok_def)
  have dev: "fd_open (w_dev w)" "kd_script (kdev (w_dev w)) = [Errno]" using ok0 by (simp_all add: w_def d_def healthy_def)
  have key: "length (e_key retry_delete) \<le> kWalKeyMax" by (simp add: retry_delete_def kWalKeyMax_def)
  have l: "length [demo_entry] + 2 < 2 ^ 64" by simp
  obtain w1 where F: "WriteWal w retry_delete = (kWalWriteFailed, w1)" "w_seq_next w1 = w_seq_next w + 1"
    "w_dev w1 = (w_dev w)\<lparr>kdev := (kdev (w_dev w))\<lparr>kd_script := []\<rparr>\<rparr>" "w_ring_end w1 = w_ring_end w"
    "w_level w1 = w_level w" "ring_bytes w1 = ring_bytes w"
    by (rule WriteWal_Errno [OF inv sy n win0 dev key l])
  have ok1: "dev_ok w1" using ok0 F(3,4) by (simp add: dev_ok_def healthy_def w_def d_def)
  obtain log1 where L1: "wal_inv w1 log1 0 0" "length log1 \<le> 2" using WriteWal_inv [OF inv l F(1)] by fastforce
  obtain c w2 where S: "WriteWal w1 retry_delete = (c, w2)" by fastforce
  have l1: "length log1 + 2 < 2 ^ 64" using L1(2) by simp
  have "c \<noteq> kWalWriteFailed" by (rule WriteWal_ok(1) [OF L1(1) ok1 l1 S])
  moreover have "ring_bytes w2 = ring_bytes w1" using same_ring_write [OF S] by (simp add: same_ring_def ring_bytes_def)
  ultimately have c: "c = kSuccess" using WriteWal_inv [OF L1(1) l1 S] key L1(2) ring(1) F(6) by auto
  have fits: "length [demo_entry] + 3 < 2 ^ 64" "0 \<le> length [demo_entry]" by simp_all
  have t: "e_type retry_delete = EntryDelete" by (simp add: retry_delete_def)
  have put: "replay_log (ApplyWalEntry retry_sb) 0 (drop 0 [demo_entry]) []
      = (kSuccess, [([107, 49], \<lparr>block = BlockId 5, timestamp = 9, crc = 77, state = Active\<rparr>)])"
    by (simp add: ApplyWalEntry_def ValidateRecoveredMeta_def demo_entry_def Insert_def retry_sb_def sb_zero_def
        kWalKeyMax_def dev_def block_idx_def kIdxBits_def kIdxMask_def)
  have has: "index_wf [([107, 49], \<lparr>block = BlockId 5, timestamp = 9, crc = 77, state = Active\<rparr>)]"
    "e_key retry_delete \<noteq> []"
    "index_map [([107, 49], \<lparr>block = BlockId 5, timestamp = 9, crc = 77, state = Active\<rparr>)] (e_key retry_delete) \<noteq> None"
    by (simp_all add: index_wf_def index_map_def retry_delete_def)
  note T = retried_delete_unreplayable [OF inv sy fits t t refl F(1,2) S [unfolded c] put has]
  have "wal_inv w2 [demo_entry, retry_delete, retry_delete] 0 3" using T by (simp add: numeral_3_eq_3 del: replay_log.simps)
  moreover have "fst (replay_log (ApplyWalEntry retry_sb) 0 [demo_entry, retry_delete, retry_delete] []) = kWalRecoveryCorrupted"
    using T by (simp del: replay_log.simps)
  ultimately show ?thesis using inv F(1) S [unfolded c] by blast
qed

end
