(* ===== verification/Cabe_Logger.thy ===== *)
theory Cabe_Logger
  imports Cabe_Prelude
begin

text \<open>
  \<open>common/logger.h\<close>: the levels, the threshold read from the environment once, and the filter. The
  output itself is not modelled; no component reads what was logged.
\<close>

section \<open>Levels\<close>

datatype log_level = Debug | Info | Warn | Error | Fatal

primrec level_rank :: "log_level \<Rightarrow> nat" where
  "level_rank Debug = 0"
| "level_rank Info = 1"
| "level_rank Warn = 2"
| "level_rank Error = 3"
| "level_rank Fatal = 4"

lemma level_rank_inject: "level_rank a = level_rank b \<longleftrightarrow> a = b"
  by (cases a; cases b) simp_all

instantiation log_level :: linorder
begin

definition less_eq_log_level :: "log_level \<Rightarrow> log_level \<Rightarrow> bool" where
  "a \<le> b \<longleftrightarrow> level_rank a \<le> level_rank b"

definition less_log_level :: "log_level \<Rightarrow> log_level \<Rightarrow> bool" where
  "a < b \<longleftrightarrow> level_rank a < level_rank b"

instance
  by standard (auto simp: less_eq_log_level_def less_log_level_def level_rank_inject)

end

primrec level_name :: "log_level \<Rightarrow> string" where
  "level_name Debug = ''DEBUG''"
| "level_name Info = ''INFO''"
| "level_name Warn = ''WARN''"
| "level_name Error = ''ERROR''"
| "level_name Fatal = ''FATAL''"

section \<open>The threshold\<close>

definition to_upper :: "char \<Rightarrow> nat" where
  "to_upper c = (if 97 \<le> (of_char c :: nat) \<and> (of_char c :: nat) \<le> 122 then of_char c - 32 else of_char c)"

text \<open>The comparison goes on while neither string has ended.\<close>

fun ieq :: "string \<Rightarrow> string \<Rightarrow> bool" where
  "ieq (a # as) (b # bs) = (if to_upper a \<noteq> to_upper b then False else ieq as bs)"
| "ieq as bs = (as = [] \<and> bs = [])"

definition Threshold :: "string option \<Rightarrow> log_level" where
  "Threshold env =
     (case env of None \<Rightarrow> Warn
      | Some s \<Rightarrow>
        if ieq s ''DEBUG'' then Debug
        else if ieq s ''INFO'' then Info
        else if ieq s ''WARN'' then Warn
        else if ieq s ''ERROR'' then Error
        else if ieq s ''FATAL'' then Fatal
        else Warn)"

definition log_enabled :: "string option \<Rightarrow> log_level \<Rightarrow> bool" where
  "log_enabled env lv \<longleftrightarrow> Threshold env \<le> lv"

text \<open>The part of a path behind its last slash.\<close>

definition log_basename :: "string \<Rightarrow> string" where
  "log_basename path = rev (takeWhile (\<lambda>c. c \<noteq> CHR ''/'') (rev path))"

section \<open>What the filter does\<close>

lemma ieq_iff: "ieq a b \<longleftrightarrow> map to_upper a = map to_upper b"
  by (induction a b rule: ieq.induct) auto

lemma ieq_refl [simp]: "ieq a a"
  by (simp add: ieq_iff)

text \<open>Every level is selected by its own name, in any mixture of cases, and by no other name.\<close>

lemma Threshold_name:
  assumes "map to_upper s = map to_upper (level_name lv)"
  shows "Threshold (Some s) = lv"
proof -
  have "ieq s x \<longleftrightarrow> ieq (level_name lv) x" for x using assms by (simp add: ieq_iff)
  then show ?thesis by (cases lv) (simp_all add: Threshold_def to_upper_def)
qed

lemma Threshold_default:
  "Threshold None = Warn" "\<forall>lv. \<not> ieq s (level_name lv) \<Longrightarrow> Threshold (Some s) = Warn"
proof -
  show "Threshold None = Warn" by (simp add: Threshold_def)
next
  assume n: "\<forall>lv. \<not> ieq s (level_name lv)"
  show "Threshold (Some s) = Warn"
    using n [rule_format, of Debug] n [rule_format, of Info] n [rule_format, of Error] n [rule_format, of Fatal]
    by (simp add: Threshold_def)
qed

lemma log_enabled_mono: "log_enabled env a \<Longrightarrow> a \<le> b \<Longrightarrow> log_enabled env b"
  by (simp add: log_enabled_def)

lemma log_fatal_always: "log_enabled env Fatal"
  by (cases "Threshold env") (simp_all add: log_enabled_def less_eq_log_level_def)

lemma log_basename_no_slash: "CHR ''/'' \<notin> set (log_basename path)"
  by (auto simp: log_basename_def dest: set_takeWhileD)

lemma log_basename_suffix: "\<exists>d. path = d @ log_basename path"
proof -
  have "rev path = takeWhile (\<lambda>c. c \<noteq> CHR ''/'') (rev path) @ dropWhile (\<lambda>c. c \<noteq> CHR ''/'') (rev path)" by simp
  then have "path = rev (takeWhile (\<lambda>c. c \<noteq> CHR ''/'') (rev path) @ dropWhile (\<lambda>c. c \<noteq> CHR ''/'') (rev path))"
    by (metis rev_rev_ident)
  then show ?thesis by (metis log_basename_def rev_append)
qed

end
